(* ===== verification/Prelude.thy ===== *)
theory Prelude
  imports Main "HOL-Library.Word"
begin

unbundle bit_operations_syntax

section \<open>Shared vocabulary of the development\<close>

text \<open>
  The scalar types of \<^verbatim>\<open>src/PLATFORM/src/main/native/cxx/lang/types.h\<close>, the faults a C++
  operation can run into, the memory accesses every component is written with, and the
  generic lemmas on them. A pointer into a buffer is modelled by the list of bytes from the
  pointer to the end of its allocation, so that an access past the end is a value
  (\<open>OutOfBounds\<close>) and not an unspecified term.
\<close>

subsection \<open>Scalar types\<close>

text \<open>
  Signed and unsigned integers of one width are one word type; a signed reading is written
  with \<open>sint\<close> or a signed shift where the source has one.
\<close>

type_synonym ubytetype = "8 word"
type_synonym inttype = "32 word"
type_synonym uinttype = "32 word"
type_synonym longtype = "64 word"
type_synonym ulongtype = "64 word"

text \<open>A C \<open>float\<close> or \<open>double\<close> is its bit pattern: the wire code only moves the bits.\<close>

datatype floattype = Float32 (float_bits: "32 word")
datatype doubletype = Float64 (double_bits: "64 word")

subsection \<open>Faults\<close>

datatype fault =
    OutOfBounds      \<comment> \<open>an access past the end of an allocation\<close>
  | ShiftTooWide     \<comment> \<open>a shift by at least the width of its operand\<close>
  | InvalidDelete    \<comment> \<open>\<open>delete\<close> of something that is not such an object\<close>
  | NullDeref        \<comment> \<open>a dereference of a null pointer\<close>
  | Aborted          \<comment> \<open>a call of \<open>abort()\<close>\<close>
  | BadCast          \<comment> \<open>a downcast to a class the object does not have\<close>
  | PointerBits      \<comment> \<open>the bytes of a pointer read as a number\<close>
  | Overflow         \<comment> \<open>a signed result outside its type\<close>
  | Dangling         \<comment> \<open>a dereference of an object that does not exist\<close>
  | Uninitialised    \<comment> \<open>a read of memory that was never written\<close>
  | NoReturn         \<comment> \<open>a loop that never ends\<close>
  | Thrown string    \<comment> \<open>a C++ exception that leaves the operation\<close>

type_synonym 'a result = "fault + 'a"

named_theorems result_simps \<open>rewriting of fault-carrying results\<close>
named_theorems codec_simps \<open>what the reading routines return on encoded bytes\<close>

fun rbind :: "'a result \<Rightarrow> ('a \<Rightarrow> 'b result) \<Rightarrow> 'b result" where
  "rbind (Inl e) f = Inl e"
| "rbind (Inr x) f = f x"

lemma rbind_cong [fundef_cong]:
  "r = r' \<Longrightarrow> (\<And>x. r' = Inr x \<Longrightarrow> f x = f' x) \<Longrightarrow> rbind r f = rbind r' f'"
  by (cases r') auto

lemma rbind_eq_Inr [result_simps]:
  "(rbind r f = Inr y) \<longleftrightarrow> (\<exists>x. r = Inr x \<and> f x = Inr y)"
  by (cases r) auto

lemma rbind_eq_Inl [result_simps]:
  "(rbind r f = Inl e) \<longleftrightarrow> r = Inl e \<or> (\<exists>x. r = Inr x \<and> f x = Inl e)"
  by (cases r) auto

lemma rbind_assoc: "rbind (rbind r f) g = rbind r (\<lambda>x. rbind (f x) g)"
  by (cases r) auto

lemma rbind_if [result_simps]:
  "rbind (if c then r else s) f = (if c then rbind r f else rbind s f)"
  by simp

text \<open>A result of C \<open>int\<close> arithmetic.\<close>

definition int32 :: "int \<Rightarrow> int result" where
  "int32 x = (if - (2 ^ 31) \<le> x \<and> x < 2 ^ 31 then Inr x else Inl Overflow)"

subsection \<open>Buffers\<close>

definition peek :: "'a list \<Rightarrow> nat \<Rightarrow> 'a result" where
  "peek buf i = (if i < length buf then Inr (buf ! i) else Inl OutOfBounds)"

definition poke :: "'a list \<Rightarrow> nat \<Rightarrow> 'a \<Rightarrow> 'a list result" where
  "poke buf i x = (if i < length buf then Inr (buf[i := x]) else Inl OutOfBounds)"

text \<open>\<open>memcpy(dst, bs, length bs)\<close> and \<open>memcpy(_, src, n)\<close>.\<close>

definition memcpy_to :: "'a list \<Rightarrow> 'a list \<Rightarrow> 'a list result" where
  "memcpy_to dst bs =
     (if length bs \<le> length dst then Inr (bs @ drop (length bs) dst) else Inl OutOfBounds)"

definition memcpy_from :: "'a list \<Rightarrow> nat \<Rightarrow> 'a list result" where
  "memcpy_from src n = (if n \<le> length src then Inr (take n src) else Inl OutOfBounds)"

text \<open>A write through the pointer \<open>buf + pos\<close>: the routine sees the bytes from there on.\<close>

definition at_pos :: "'a list \<Rightarrow> nat \<Rightarrow> ('a list \<Rightarrow> ('b \<times> 'a list) result) \<Rightarrow> ('b \<times> 'a list) result" where
  "at_pos buf pos f =
     (if pos \<le> length buf
      then rbind (f (drop pos buf)) (\<lambda>(r, suffix). Inr (r, take pos buf @ suffix))
      else Inl OutOfBounds)"

lemma poke_append [codec_simps]: "i = length pre \<Longrightarrow> poke (pre @ x # rest) i y = Inr (pre @ y # rest)"
  by (simp add: poke_def)

lemma memcpy_to_append [codec_simps]:
  "length bs = length old \<Longrightarrow> memcpy_to (old @ rest) bs = Inr (bs @ rest)"
  by (simp add: memcpy_to_def)

lemma memcpy_to_Inr:
  "memcpy_to dst bs = Inr dst' \<longleftrightarrow> length bs \<le> length dst \<and> dst' = bs @ drop (length bs) dst"
  by (auto simp: memcpy_to_def)

lemma memcpy_to_length: "memcpy_to dst bs = Inr dst' \<Longrightarrow> length dst' = length dst"
  by (auto simp: memcpy_to_Inr)

lemma memcpy_from_append [codec_simps]:
  "n = length bs \<Longrightarrow> memcpy_from (bs @ rest) n = Inr bs"
  by (simp add: memcpy_from_def)

subsection \<open>Little-endian bytes of a word\<close>

definition bytes32 :: "32 word \<Rightarrow> ubytetype list" where
  "bytes32 v = [ucast v, ucast (drop_bit 8 v), ucast (drop_bit 16 v), ucast (drop_bit 24 v)]"

definition word32 :: "ubytetype \<Rightarrow> ubytetype \<Rightarrow> ubytetype \<Rightarrow> ubytetype \<Rightarrow> 32 word" where
  "word32 b0 b1 b2 b3 =
     ucast b0 OR push_bit 8 (ucast b1) OR push_bit 16 (ucast b2) OR push_bit 24 (ucast b3)"

definition bytes64 :: "64 word \<Rightarrow> ubytetype list" where
  "bytes64 v = bytes32 (ucast v) @ bytes32 (ucast (drop_bit 32 v))"

definition word64 :: "32 word \<Rightarrow> 32 word \<Rightarrow> 64 word" where
  "word64 part0 part1 = ucast part0 OR push_bit 32 (ucast part1)"

lemma length_bytes32 [simp]: "length (bytes32 v) = 4"
  by (simp add: bytes32_def)

lemma length_bytes64 [simp]: "length (bytes64 v) = 8"
  by (simp add: bytes64_def)

lemma word32_bytes32 [simp]:
  "word32 (ucast v) (ucast (drop_bit 8 v)) (ucast (drop_bit 16 v)) (ucast (drop_bit 24 v)) = v"
proof (rule bit_word_eqI)
  fix n
  assume "n < LENGTH(32)"
  then show "bit (word32 (ucast v) (ucast (drop_bit 8 v)) (ucast (drop_bit 16 v))
      (ucast (drop_bit 24 v))) n = bit v n"
    by (cases "24 \<le> n"; cases "16 \<le> n"; cases "8 \<le> n") (auto simp: word32_def bit_simps)
qed

lemma word64_halves [simp]: "word64 (ucast v) (ucast (drop_bit 32 v)) = v"
  unfolding word64_def
  by (rule bit_word_eqI) (auto simp: bit_simps)

lemma bytes32_nonempty [simp]: "bytes32 v \<noteq> []"
  by (simp add: bytes32_def)

lemma bytes64_nonempty [simp]: "bytes64 v \<noteq> []"
  by (simp add: bytes64_def)

subsection \<open>Numbers and words\<close>

lemma unat_of_nat_small: "n < 2 ^ LENGTH('a) \<Longrightarrow> unat (of_nat n :: 'a::len word) = n"
  by (simp add: unat_of_nat)

lemma unat_less: "unat (w :: 'a::len word) < 2 ^ LENGTH('a)"
  by (rule unsigned_less)

lemma of_nat_eq_0_small: "n < 2 ^ LENGTH('a) \<Longrightarrow> (of_nat n :: 'a::len word) = 0 \<longleftrightarrow> n = 0"
  by (auto simp: word_of_nat_eq_0_iff dest: dvd_imp_le)

lemma signed_value_of_nat:
  assumes "n < 2 ^ 32"
  shows "sint (of_nat n :: 32 word) = (if n < 2 ^ 31 then int n else int n - 2 ^ 32)"
proof -
  have "sint (of_nat n :: 32 word) = signed_take_bit 31 (int n)" by (simp add: signed_of_nat)
  also have "signed_take_bit 31 (int n) = (if n < 2 ^ 31 then int n else int n - 2 ^ 32)"
  proof (cases "n < 2 ^ 31")
    case False
    have "(int n + 2 ^ 31) mod 2 ^ 32 = ((int n - 2 ^ 31) + 2 ^ 32) mod 2 ^ 32" by (simp add: add.commute)
    also have "\<dots> = (int n - 2 ^ 31) mod 2 ^ 32" by (rule mod_add_self2)
    also have "\<dots> = int n - 2 ^ 31" using False assms by (simp add: mod_pos_pos_trivial)
    finally show ?thesis using False by (simp add: signed_take_bit_eq_take_bit_shift take_bit_eq_mod)
  qed (simp add: signed_take_bit_eq_take_bit_shift take_bit_eq_mod)
  finally show ?thesis .
qed

lemma next_viewpoint:
  fixes cur :: uinttype
  assumes "cur + 1 \<noteq> 0"
  shows "cur < cur + 1" "cur + 1 \<le> v \<longleftrightarrow> cur < v"
proof -
  have "unat (cur + 1) = Suc (unat cur)" using assms unatSuc [of cur] by (simp add: add.commute)
  then show "cur < cur + 1" "cur + 1 \<le> v \<longleftrightarrow> cur < v" by (auto simp: word_less_nat_alt word_le_nat_alt)
qed

subsection \<open>Protocols\<close>

text \<open>
  What a participant of a protocol relies on: the steps keep an invariant, and in the states that have it every
  step keeps something for the participant. Then every run does.
\<close>

locale protocol =
  fixes stp :: "'s \<Rightarrow> 's \<Rightarrow> bool" and good :: "'s \<Rightarrow> bool" and keeps :: "'s \<Rightarrow> 's \<Rightarrow> bool"
  assumes keeps_refl: "good s \<Longrightarrow> keeps s s"
    and keeps_trans: "keeps s s' \<Longrightarrow> keeps s' s'' \<Longrightarrow> keeps s s''"
    and stp_good: "stp s s' \<Longrightarrow> good s \<Longrightarrow> good s'"
    and stp_keeps: "stp s s' \<Longrightarrow> good s \<Longrightarrow> keeps s s'"
begin

lemma run_ok: "stp\<^sup>*\<^sup>* s s' \<Longrightarrow> good s \<Longrightarrow> good s' \<and> keeps s s'"
  by (induction rule: rtranclp_induct) (auto intro: keeps_refl stp_good keeps_trans stp_keeps)

end

end
