(* ===== verification/BinaryWireFormat.thy ===== *)
theory BinaryWireFormat
  imports Prelude
begin

section \<open>The binary wire format\<close>

text \<open>
  The routines of \<^verbatim>\<open>src/PLATFORM/src/main/native/cxx/io/BinaryWireFormat.h\<close>: base-128
  integers, zig-zag, fixed-width words, floats, raw blocks and strings. A buffer argument is
  the list of bytes from the pointer to the end of the allocation; \<open>iLen\<close> is the length the
  caller passes, which the code checks in some routines only. A routine that returns a byte
  count and writes through its pointer gives the count and the changed bytes.
\<close>

subsection \<open>Constants\<close>

definition MSB :: ubytetype where "MSB = 0x80"
definition LSB :: ubytetype where "LSB = 0x7f"
definition BITINC :: nat where "BITINC = 7"
definition INT32_SIZE :: uinttype where "INT32_SIZE = 4"
definition FIXED32_SIZE :: uinttype where "FIXED32_SIZE = 4"
definition FLOAT_SIZE :: uinttype where "FLOAT_SIZE = FIXED32_SIZE"
definition FIXED64_SIZE :: uinttype where "FIXED64_SIZE = 8"
definition DOUBLE_SIZE :: uinttype where "DOUBLE_SIZE = FIXED64_SIZE"

lemmas wire_consts = MSB_def LSB_def BITINC_def INT32_SIZE_def FIXED32_SIZE_def FLOAT_SIZE_def
  FIXED64_SIZE_def DOUBLE_SIZE_def

subsection \<open>Variable-length integers\<close>

text \<open>
  \<open>ReadVarIntFromBuffer<INT>\<close>: the loop over the bytes whose top bit is set. \<open>piPos\<close> counts
  the bytes already consumed. \<open>Inr None\<close> is the return value \<open>-1\<close>, \<open>Inr (Some (iRead,
  iValue))\<close> the return value \<open>0\<close> with the two out parameters. The byte is read before the
  length is compared, as in the source.
\<close>

fun ReadVarIntFromBuffer_loop ::
  "ubytetype list \<Rightarrow> uinttype \<Rightarrow> nat \<Rightarrow> 'a::len word \<Rightarrow> nat \<Rightarrow> (nat \<times> 'a word) option result" where
  "ReadVarIntFromBuffer_loop [] iLen piPos iResult iBits = Inl OutOfBounds"
| "ReadVarIntFromBuffer_loop (b # bs) iLen piPos iResult iBits =
     (if b AND MSB \<noteq> 0 then
        (if piPos > unat iLen then Inr None
         else if iBits \<ge> LENGTH('a) then Inl ShiftTooWide
         else ReadVarIntFromBuffer_loop bs iLen (Suc piPos)
                (iResult + push_bit iBits (ucast b AND ucast LSB)) (iBits + BITINC))
      else if iBits \<ge> LENGTH('a) then Inl ShiftTooWide
      else Inr (Some (Suc piPos, iResult + push_bit iBits (ucast b AND ucast LSB))))"

definition ReadVarIntFromBuffer ::
  "ubytetype list \<Rightarrow> uinttype \<Rightarrow> (uinttype \<times> 'a::len word) option result" where
  "ReadVarIntFromBuffer piBuffer iLen =
     rbind (ReadVarIntFromBuffer_loop piBuffer iLen 0 0 0)
       (\<lambda>r. Inr (map_option (\<lambda>(iRead, iValue). (of_nat iRead, iValue)) r))"

text \<open>
  \<open>WriteVarIntToBuffer<INT>\<close>: \<open>iLen\<close> is not looked at, so the only bound on the write is the
  allocation itself.
\<close>

lemma drop_bit_BITINC_less:
  fixes v :: "'a::len word"
  assumes "v > ucast LSB"
  shows "unat (drop_bit BITINC v) < unat v"
proof -
  have "0 < unat v"
    using assms by (metis unat_gt_0 leD word_zero_le)
  then have "unat v div 128 < unat v"
    by simp
  then show ?thesis
    by (simp add: BITINC_def unat_drop_bit_eq) (simp add: drop_bit_eq_div)
qed

function WriteVarIntToBuffer_loop ::
  "ubytetype list \<Rightarrow> nat \<Rightarrow> 'a::len word \<Rightarrow> (nat \<times> ubytetype list) result" where
  "WriteVarIntToBuffer_loop piBuffer iSize iValue =
     (if iValue > ucast LSB then
        rbind (poke piBuffer iSize ((ucast iValue AND LSB) OR MSB))
          (\<lambda>piBuffer'. WriteVarIntToBuffer_loop piBuffer' (Suc iSize) (drop_bit BITINC iValue))
      else
        rbind (poke piBuffer iSize (ucast iValue AND LSB)) (\<lambda>piBuffer'. Inr (Suc iSize, piBuffer')))"
  by pat_completeness auto
termination
  by (relation "measure (\<lambda>(piBuffer, iSize, iValue). unat iValue)")
    (auto simp: drop_bit_BITINC_less)

declare WriteVarIntToBuffer_loop.simps [simp del]

definition WriteVarIntToBuffer ::
  "ubytetype list \<Rightarrow> uinttype \<Rightarrow> 'a::len word \<Rightarrow> (uinttype \<times> ubytetype list) result" where
  "WriteVarIntToBuffer piBuffer iLen iValue =
     rbind (WriteVarIntToBuffer_loop piBuffer 0 iValue)
       (\<lambda>(iSize, piBuffer'). Inr (of_nat iSize, piBuffer'))"

text \<open>\<open>VarIntLength<INT>\<close>: the comparisons are made on \<open>unsigned long long\<close>.\<close>

definition VarIntLength :: "'a::len word \<Rightarrow> uinttype" where
  "VarIntLength iValue =
     (let v = (ucast iValue :: 64 word) in
      if v < push_bit 35 1 then
        if v < push_bit 7 1 then 1
        else if v < push_bit 14 1 then 2
        else if v < push_bit 21 1 then 3
        else if v < push_bit 28 1 then 4
        else 5
      else
        if v < push_bit 42 1 then 6
        else if v < push_bit 49 1 then 7
        else if v < push_bit 56 1 then 8
        else if v < push_bit 63 1 then 9
        else 10)"

subsection \<open>Zig-zag\<close>

definition encodeZigZag :: "nat \<Rightarrow> 'a::len word \<Rightarrow> 'a word" where
  "encodeZigZag BITS iValue = push_bit 1 iValue XOR signed_drop_bit BITS iValue"

definition decodeZigZag :: "'a::len word \<Rightarrow> 'a word" where
  "decodeZigZag iValue = drop_bit 1 iValue XOR (- (iValue AND 1))"

definition encodeZigZag32 :: "inttype \<Rightarrow> uinttype" where
  "encodeZigZag32 iValue = encodeZigZag 31 iValue"

definition encodeZigZag64 :: "longtype \<Rightarrow> ulongtype" where
  "encodeZigZag64 iValue = encodeZigZag 63 iValue"

definition decodeZigZag32 :: "uinttype \<Rightarrow> inttype" where
  "decodeZigZag32 iValue = decodeZigZag iValue"

definition decodeZigZag64 :: "ulongtype \<Rightarrow> longtype" where
  "decodeZigZag64 iValue = decodeZigZag iValue"

subsection \<open>Reinterpreting floats\<close>

definition convertFloat32ToInt32 :: "floattype \<Rightarrow> inttype" where
  "convertFloat32ToInt32 f = float_bits f"

definition convertFloat64ToInt64 :: "doubletype \<Rightarrow> longtype" where
  "convertFloat64ToInt64 f = double_bits f"

definition convertInt32ToFloat32 :: "inttype \<Rightarrow> floattype" where
  "convertInt32ToFloat32 i = Float32 i"

definition convertInt64ToFloat64 :: "longtype \<Rightarrow> doubletype" where
  "convertInt64ToFloat64 i = Float64 i"

subsection \<open>Fixed-width words\<close>

text \<open>
  On a little-endian host the code copies the object bytes, on another it assembles them; the
  wire order is the same. Neither looks at \<open>iLen\<close>.
\<close>

definition ReadFixed32 :: "ubytetype list \<Rightarrow> uinttype \<Rightarrow> (uinttype \<times> 32 word) result" where
  "ReadFixed32 piBuffer iLen =
     (case piBuffer of
        b0 # b1 # b2 # b3 # _ \<Rightarrow> Inr (FIXED32_SIZE, word32 b0 b1 b2 b3)
      | _ \<Rightarrow> Inl OutOfBounds)"

definition WriteFixed32 ::
  "ubytetype list \<Rightarrow> uinttype \<Rightarrow> 32 word \<Rightarrow> (uinttype \<times> ubytetype list) result" where
  "WriteFixed32 piBuffer iLen v =
     rbind (memcpy_to piBuffer (bytes32 v)) (\<lambda>piBuffer'. Inr (FIXED32_SIZE, piBuffer'))"

definition ReadFixed64 :: "ubytetype list \<Rightarrow> uinttype \<Rightarrow> (uinttype \<times> 64 word) result" where
  "ReadFixed64 piBuffer iLen =
     (case piBuffer of
        b0 # b1 # b2 # b3 # b4 # b5 # b6 # b7 # _ \<Rightarrow>
          Inr (FIXED64_SIZE, word64 (word32 b0 b1 b2 b3) (word32 b4 b5 b6 b7))
      | _ \<Rightarrow> Inl OutOfBounds)"

definition WriteFixed64 ::
  "ubytetype list \<Rightarrow> uinttype \<Rightarrow> 64 word \<Rightarrow> (uinttype \<times> ubytetype list) result" where
  "WriteFixed64 piBuffer iLen v =
     rbind (memcpy_to piBuffer (bytes64 v)) (\<lambda>piBuffer'. Inr (FIXED64_SIZE, piBuffer'))"

subsection \<open>Integers of the wire format\<close>

text \<open>
  The \<open>Write...ToBuffer\<close> routines return the number of bytes written, \<open>0\<close> for a failure;
  the \<open>Read...FromBuffer\<close> routines return the number of bytes read, \<open>0\<close> for a failure,
  and the value of their out parameter, \<open>None\<close> where they leave it alone.
\<close>

definition WriteInt32ToBuffer ::
  "ubytetype list \<Rightarrow> uinttype \<Rightarrow> inttype \<Rightarrow> (uinttype \<times> ubytetype list) result" where
  "WriteInt32ToBuffer piBuffer iLen iValue = WriteVarIntToBuffer piBuffer iLen (encodeZigZag32 iValue)"

definition SizeofInt32 :: "inttype \<Rightarrow> uinttype" where
  "SizeofInt32 iValue = VarIntLength (encodeZigZag32 iValue)"

definition WriteUint32ToBuffer ::
  "ubytetype list \<Rightarrow> uinttype \<Rightarrow> uinttype \<Rightarrow> (uinttype \<times> ubytetype list) result" where
  "WriteUint32ToBuffer piBuffer iLen iValue = WriteVarIntToBuffer piBuffer iLen iValue"

definition SizeofUint32 :: "uinttype \<Rightarrow> uinttype" where
  "SizeofUint32 iValue = VarIntLength iValue"

definition WriteInt64ToBuffer ::
  "ubytetype list \<Rightarrow> uinttype \<Rightarrow> longtype \<Rightarrow> (uinttype \<times> ubytetype list) result" where
  "WriteInt64ToBuffer piBuffer iLen iValue = WriteVarIntToBuffer piBuffer iLen (encodeZigZag64 iValue)"

definition SizeofInt64 :: "longtype \<Rightarrow> uinttype" where
  "SizeofInt64 iValue = VarIntLength (encodeZigZag64 iValue)"

definition WriteUint64ToBuffer ::
  "ubytetype list \<Rightarrow> uinttype \<Rightarrow> ulongtype \<Rightarrow> (uinttype \<times> ubytetype list) result" where
  "WriteUint64ToBuffer piBuffer iLen iValue = WriteVarIntToBuffer piBuffer iLen iValue"

definition SizeofUint64 :: "ulongtype \<Rightarrow> uinttype" where
  "SizeofUint64 iValue = VarIntLength iValue"

definition ReadInt32FromBuffer ::
  "ubytetype list \<Rightarrow> uinttype \<Rightarrow> (uinttype \<times> inttype option) result" where
  "ReadInt32FromBuffer piBuffer iLen =
     rbind (ReadVarIntFromBuffer piBuffer iLen)
       (\<lambda>r. Inr (case r of None \<Rightarrow> (0, None)
                 | Some (iBytes, iRead) \<Rightarrow> (iBytes, Some (decodeZigZag32 iRead))))"

definition ReadUint32FromBuffer ::
  "ubytetype list \<Rightarrow> uinttype \<Rightarrow> (uinttype \<times> uinttype option) result" where
  "ReadUint32FromBuffer piBuffer iLen =
     rbind (ReadVarIntFromBuffer piBuffer iLen)
       (\<lambda>r. Inr (case r of None \<Rightarrow> (0, None) | Some (iBytes, iValue) \<Rightarrow> (iBytes, Some iValue)))"

definition ReadInt64FromBuffer ::
  "ubytetype list \<Rightarrow> uinttype \<Rightarrow> (uinttype \<times> longtype option) result" where
  "ReadInt64FromBuffer piBuffer iLen =
     rbind (ReadVarIntFromBuffer piBuffer iLen)
       (\<lambda>r. Inr (case r of None \<Rightarrow> (0, None)
                 | Some (iBytes, iRead) \<Rightarrow> (iBytes, Some (decodeZigZag64 iRead))))"

definition ReadUint64FromBuffer ::
  "ubytetype list \<Rightarrow> uinttype \<Rightarrow> (uinttype \<times> ulongtype option) result" where
  "ReadUint64FromBuffer piBuffer iLen =
     rbind (ReadVarIntFromBuffer piBuffer iLen)
       (\<lambda>r. Inr (case r of None \<Rightarrow> (0, None) | Some (iBytes, iValue) \<Rightarrow> (iBytes, Some iValue)))"

subsection \<open>Floats, raw blocks and strings of the wire format\<close>

definition WriteFloatToBuffer ::
  "ubytetype list \<Rightarrow> uinttype \<Rightarrow> floattype \<Rightarrow> (uinttype \<times> ubytetype list) result" where
  "WriteFloatToBuffer piBuffer iLen fValue =
     (if INT32_SIZE > iLen then Inr (0, piBuffer)
      else WriteFixed32 piBuffer iLen (convertFloat32ToInt32 fValue))"

definition SizeofFloat :: uinttype where
  "SizeofFloat = FLOAT_SIZE"

text \<open>\<open>WriteDoubleToBuffer\<close> has no length test, unlike its float counterpart.\<close>

definition WriteDoubleToBuffer ::
  "ubytetype list \<Rightarrow> uinttype \<Rightarrow> doubletype \<Rightarrow> (uinttype \<times> ubytetype list) result" where
  "WriteDoubleToBuffer piBuffer iLen fValue =
     WriteFixed64 piBuffer iLen (convertFloat64ToInt64 fValue)"

definition SizeofDouble :: uinttype where
  "SizeofDouble = DOUBLE_SIZE"

definition ReadFloatFromBuffer ::
  "ubytetype list \<Rightarrow> uinttype \<Rightarrow> (uinttype \<times> floattype option) result" where
  "ReadFloatFromBuffer piBuffer iLen =
     (if FIXED32_SIZE > iLen then Inr (0, None)
      else rbind (ReadFixed32 piBuffer iLen)
             (\<lambda>(iSize, iVal). Inr (iSize, Some (convertInt32ToFloat32 iVal))))"

definition ReadDoubleFromBuffer ::
  "ubytetype list \<Rightarrow> uinttype \<Rightarrow> (uinttype \<times> doubletype option) result" where
  "ReadDoubleFromBuffer piBuffer iLen =
     (if FIXED64_SIZE > iLen then Inr (0, None)
      else rbind (ReadFixed64 piBuffer iLen)
             (\<lambda>(iSize, iVal). Inr (iSize, Some (convertInt64ToFloat64 iVal))))"

text \<open>
  \<open>piRaw\<close> is the memory behind the source pointer, of which \<open>iRawLen\<close> bytes are copied. The
  sum \<open>iRawLen + FIXED32_SIZE\<close> is a 32-bit sum.
\<close>

definition WriteRawToBuffer ::
  "ubytetype list \<Rightarrow> uinttype \<Rightarrow> ubytetype list \<Rightarrow> uinttype \<Rightarrow> (uinttype \<times> ubytetype list) result" where
  "WriteRawToBuffer piBuffer iLen piRaw iRawLen =
     (if iRawLen + FIXED32_SIZE > iLen then Inr (0, piBuffer)
      else rbind (WriteFixed32 piBuffer iLen iRawLen) (\<lambda>(_, piBuffer1).
        rbind (if iRawLen \<noteq> 0 then
                 rbind (memcpy_from piRaw (unat iRawLen)) (\<lambda>bs.
                 at_pos piBuffer1 (unat FIXED32_SIZE) (\<lambda>dst. rbind (memcpy_to dst bs) (\<lambda>dst'. Inr ((), dst'))))
               else Inr ((), piBuffer1))
          (\<lambda>(_, piBuffer2). Inr (iRawLen + FIXED32_SIZE, piBuffer2))))"

text \<open>\<open>WriteStringToBuffer(piBuffer, iLen, piStr, iStrLen)\<close> and its \<open>String\<close> overload.\<close>

definition WriteStringToBuffer ::
  "ubytetype list \<Rightarrow> uinttype \<Rightarrow> ubytetype list \<Rightarrow> uinttype \<Rightarrow> (uinttype \<times> ubytetype list) result" where
  "WriteStringToBuffer piBuffer iLen piStr iStrLen =
     (if iStrLen + FIXED32_SIZE > iLen then Inr (0, piBuffer)
      else rbind (WriteFixed32 piBuffer iLen iStrLen) (\<lambda>(_, piBuffer1).
        rbind (if iStrLen \<noteq> 0 then
                 rbind (memcpy_from piStr (unat iStrLen)) (\<lambda>bs.
                 at_pos piBuffer1 (unat FIXED32_SIZE) (\<lambda>dst. rbind (memcpy_to dst bs) (\<lambda>dst'. Inr ((), dst'))))
               else Inr ((), piBuffer1))
          (\<lambda>(_, piBuffer2). Inr (iStrLen + FIXED32_SIZE, piBuffer2))))"

definition WriteStringToBuffer_String ::
  "ubytetype list \<Rightarrow> uinttype \<Rightarrow> ubytetype list \<Rightarrow> (uinttype \<times> ubytetype list) result" where
  "WriteStringToBuffer_String piBuffer iLen cStr =
     WriteStringToBuffer piBuffer iLen cStr (of_nat (length cStr))"

definition SizeofRaw :: "uinttype \<Rightarrow> uinttype" where
  "SizeofRaw iRawLen = iRawLen + FIXED32_SIZE"

definition SizeofString :: "ubytetype list \<Rightarrow> uinttype" where
  "SizeofString cStr = of_nat (length cStr) + FIXED32_SIZE"

text \<open>
  \<open>ReadRawFromBuffer\<close> copies into the caller's \<open>piRaw\<close>; the result is the count, the changed
  destination and the value of \<open>iRawLen\<close> if it is assigned.
\<close>

definition ReadRawFromBuffer ::
  "ubytetype list \<Rightarrow> uinttype \<Rightarrow> ubytetype list \<Rightarrow> (uinttype \<times> ubytetype list \<times> uinttype option) result" where
  "ReadRawFromBuffer piBuffer iLen piRaw =
     (if FIXED32_SIZE > iLen then Inr (0, piRaw, None)
      else rbind (ReadFixed32 piBuffer iLen) (\<lambda>(_, iFound).
        if iFound > iLen - FIXED32_SIZE then Inr (0, piRaw, None)
        else rbind (if iFound \<noteq> 0 then
                      rbind (memcpy_from (drop (unat FIXED32_SIZE) piBuffer) (unat iFound)) (memcpy_to piRaw)
                    else Inr piRaw)
               (\<lambda>piRaw'. Inr (iFound + FIXED32_SIZE, piRaw', Some iFound))))"

text \<open>\<open>ReadStringFromBuffer\<close> into a \<open>String\<close>; an empty string leaves the target unassigned.\<close>

definition ReadStringFromBuffer ::
  "ubytetype list \<Rightarrow> uinttype \<Rightarrow> (uinttype \<times> ubytetype list option) result" where
  "ReadStringFromBuffer piBuffer iLen =
     (if FIXED32_SIZE > iLen then Inr (0, None)
      else rbind (ReadFixed32 piBuffer iLen) (\<lambda>(_, iFound).
        if iFound > iLen - FIXED32_SIZE then Inr (0, None)
        else if iFound \<noteq> 0 then
          rbind (memcpy_from (drop (unat FIXED32_SIZE) piBuffer) (unat iFound))
            (\<lambda>bs. Inr (iFound + FIXED32_SIZE, Some bs))
        else Inr (iFound + FIXED32_SIZE, None)))"

subsection \<open>What the integer routines write and read\<close>

text \<open>
  \<open>varint v\<close> is the base-128 encoding as a list of bytes; \<open>vlen\<close> its length as a function of
  the number. The writing loop stores exactly these bytes, the reading loop gives the number
  back, and \<open>VarIntLength\<close> is their count.
\<close>

function varint :: "'a::len word \<Rightarrow> ubytetype list" where
  "varint v = (if v > ucast LSB then ((ucast v AND LSB) OR MSB) # varint (drop_bit BITINC v)
               else [ucast v AND LSB])"
  by pat_completeness auto
termination
  by (relation "measure unat") (auto simp: drop_bit_BITINC_less)

declare varint.simps [simp del]


lemma varint_nonempty [simp]: "varint v \<noteq> []"
  by (subst varint.simps) simp

lemma WriteVarIntToBuffer_loop_eq:
  "WriteVarIntToBuffer_loop (pre @ buf) (length pre) v =
     (if length (varint v) \<le> length buf
      then Inr (length pre + length (varint v), pre @ varint v @ drop (length (varint v)) buf)
      else Inl OutOfBounds)"
proof (induction v arbitrary: pre buf rule: varint.induct)
  case (1 v)
  show ?case
  proof (cases buf)
    case Nil
    then show ?thesis
      by (subst WriteVarIntToBuffer_loop.simps) (simp add: poke_def)
  next
    case (Cons x rest)
    show ?thesis
    proof (cases "v > ucast LSB")
      case True
      let ?b = "(ucast v AND LSB) OR MSB"
      have "WriteVarIntToBuffer_loop (pre @ buf) (length pre) v =
            WriteVarIntToBuffer_loop ((pre @ [?b]) @ rest) (length (pre @ [?b])) (drop_bit BITINC v)"
        using True Cons by (subst WriteVarIntToBuffer_loop.simps) (simp add: poke_append)
      also have "\<dots> = (if length (varint (drop_bit BITINC v)) \<le> length rest
         then Inr (length (pre @ [?b]) + length (varint (drop_bit BITINC v)),
                   (pre @ [?b]) @ varint (drop_bit BITINC v) @ drop (length (varint (drop_bit BITINC v))) rest)
         else Inl OutOfBounds)"
        by (rule "1.IH" [OF True])
      finally show ?thesis
        using True Cons by (simp add: varint.simps [of v])
    next
      case False
      then show ?thesis
        using Cons by (subst WriteVarIntToBuffer_loop.simps)
          (simp add: poke_append varint.simps [of v])
    qed
  qed
qed

lemma MSB_set: "(((b :: ubytetype) AND LSB) OR MSB) AND MSB \<noteq> 0"
proof -
  have "bit (((b AND LSB) OR MSB) AND MSB) 7"
    by (simp add: bit_simps MSB_def bit_numeral_rec)
  then show ?thesis
    by (metis bit_0_eq bot_apply bot_bool_def)
qed

lemma MSB_clear [simp]: "((b :: ubytetype) AND LSB) AND MSB = 0"
  by (simp add: LSB_def MSB_def and.assoc)

lemma LSB_mask: "LSB = mask 7"
  by (simp add: LSB_def mask_eq_exp_minus_1)

lemma AND_LSB [simp]: "b AND LSB = take_bit BITINC b"
  by (simp add: LSB_mask take_bit_eq_mask BITINC_def)

lemma AND_ucast_LSB [simp]: "(w :: 'a::len word) AND ucast LSB = take_bit BITINC w"
proof (rule bit_word_eqI)
  fix n assume "n < LENGTH('a)"
  then show "bit (w AND ucast LSB) n = bit (take_bit BITINC w) n"
    by (auto simp: LSB_mask BITINC_def bit_simps)
qed

lemma take_bit_ucast_byte [simp]:
  "take_bit BITINC (ucast (take_bit BITINC (ucast (v :: 'a::len word) :: ubytetype)) :: 'a word) = take_bit BITINC v"
  by (rule bit_word_eqI) (auto simp: bit_simps BITINC_def)

lemma bit_MSB: "bit MSB n \<longleftrightarrow> n = 7"
proof -
  have "MSB = 2 ^ 7"
    by (simp add: MSB_def)
  then show ?thesis
    using bit_exp_iff [where 'a = ubytetype, of 7 n] by auto
qed

lemma take_bit_ucast_byte_MSB [simp]:
  "take_bit BITINC (ucast (take_bit BITINC (ucast (v :: 'a::len word) :: ubytetype) OR MSB) :: 'a word)
     = take_bit BITINC v"
  by (rule bit_word_eqI) (auto simp: bit_simps BITINC_def bit_MSB)

lemma unat_drop_BITINC: "unat (drop_bit BITINC v) = unat v div 128"
  by (simp add: BITINC_def unat_drop_bit_eq) (simp add: drop_bit_eq_div)

lemma ucast_LSB_less:
  fixes v :: "'a::len word"
  assumes "8 \<le> LENGTH('a)"
  shows "v > ucast LSB \<longleftrightarrow> 128 \<le> unat v"
proof -
  have "unat (ucast LSB :: 'a word) = 127"
    using assms by (simp add: LSB_def unsigned_ucast_eq take_bit_nat_eq_self
        order.strict_trans2 [OF _ power_increasing [OF assms]])
  then show ?thesis
    by (auto simp: word_less_nat_alt)
qed

lemma push_bit_split7:
  fixes v :: "'a::len word"
  shows "push_bit n (take_bit BITINC v) + push_bit (n + BITINC) (drop_bit BITINC v) = push_bit n v"
proof -
  have "push_bit n v = push_bit n (push_bit BITINC (drop_bit BITINC v) + take_bit BITINC v)"
    by (simp add: bits_ident)
  then show ?thesis
    by (simp add: push_bit_add add.commute)
qed

lemma ReadVarIntFromBuffer_loop_varint:
  fixes v :: "'a::len word"
  assumes "8 \<le> LENGTH('a)"
    and "piPos + length (varint v) \<le> Suc (unat iLen)"
    and "unat v * 2 ^ iBits < 2 ^ LENGTH('a)"
    and "iBits < LENGTH('a)"
  shows "ReadVarIntFromBuffer_loop (varint v @ rest) iLen piPos acc iBits =
           Inr (Some (piPos + length (varint v), acc + push_bit iBits v))"
  using assms(2-4)
proof (induction v arbitrary: piPos acc iBits rule: varint.induct)
  case (1 v)
  show ?case
  proof (cases "v > ucast LSB")
    case True
    then have big: "128 \<le> unat v"
      using ucast_LSB_less [OF assms(1)] by simp
    then have "2 ^ (iBits + 7) \<le> unat v * 2 ^ iBits"
      by (simp add: power_add)
    also have "\<dots> < 2 ^ LENGTH('a)"
      by (rule "1.prems"(2))
    finally have bits: "iBits + BITINC < LENGTH('a)"
      by (simp add: BITINC_def)
    have "unat (drop_bit BITINC v) * 2 ^ (iBits + BITINC) = (unat v div 128 * 128) * 2 ^ iBits"
      by (simp add: unat_drop_BITINC power_add) (simp add: BITINC_def)
    also have "\<dots> \<le> unat v * 2 ^ iBits"
      by (rule mult_le_mono1) simp
    finally have small: "unat (drop_bit BITINC v) * 2 ^ (iBits + BITINC) < 2 ^ LENGTH('a)"
      using "1.prems"(2) by linarith
    have len: "length (varint v) = Suc (length (varint (drop_bit BITINC v)))"
      using True by (simp add: varint.simps [of v])
    have "ReadVarIntFromBuffer_loop (varint v @ rest) iLen piPos acc iBits =
          ReadVarIntFromBuffer_loop (varint (drop_bit BITINC v) @ rest) iLen (Suc piPos)
            (acc + push_bit iBits (take_bit BITINC v)) (iBits + BITINC)"
      using True "1.prems" MSB_set [of "ucast v"] len by (simp add: varint.simps [of v])
    also have "\<dots> = Inr (Some (Suc piPos + length (varint (drop_bit BITINC v)),
            acc + push_bit iBits (take_bit BITINC v) + push_bit (iBits + BITINC) (drop_bit BITINC v)))"
      using "1.prems"(1) len by (intro "1.IH" [OF True _ small bits]) simp
    finally show ?thesis
      by (simp add: len add.assoc push_bit_split7)
  next
    case False
    then have "unat v < 128"
      using ucast_LSB_less [OF assms(1)] by simp
    then have v: "take_bit BITINC v = v"
      by (simp add: BITINC_def word_unat_eq_iff unsigned_take_bit_eq take_bit_nat_eq_self)
    from False have "varint v = [ucast v AND LSB]"
      by (simp add: varint.simps [of v])
    then show ?thesis
      using "1.prems" v MSB_clear [of "ucast v"] by (simp del: MSB_clear)
  qed
qed


fun vlen :: "nat \<Rightarrow> nat" where
  "vlen n = (if n < 128 then 1 else Suc (vlen (n div 128)))"

declare vlen.simps [simp del]

lemma length_varint_vlen:
  fixes v :: "'a::len word"
  assumes "8 \<le> LENGTH('a)"
  shows "length (varint v) = vlen (unat v)"
proof (induction v rule: varint.induct)
  case (1 v)
  then show ?case
    using ucast_LSB_less [OF assms, of v]
    by (auto simp: varint.simps [of v] vlen.simps [of "unat v"] unat_drop_BITINC)
qed

lemma vlen_le: "n < 128 ^ k \<Longrightarrow> 0 < k \<Longrightarrow> vlen n \<le> k"
proof (induction k arbitrary: n)
  case (Suc k)
  show ?case
  proof (cases "n < 128")
    case False
    then have "0 < k" using Suc.prems by (cases k) auto
    moreover have "n div 128 < 128 ^ k"
      using Suc.prems by (simp add: less_mult_imp_div_less mult.commute)
    ultimately show ?thesis
      using Suc.IH False by (subst vlen.simps) simp
  qed (subst vlen.simps, simp)
qed simp

lemma vlen_gt: "128 ^ k \<le> n \<Longrightarrow> k < vlen n"
proof (induction k arbitrary: n)
  case 0
  then show ?case by (subst vlen.simps) simp
next
  case (Suc k)
  then have "128 ^ k \<le> n div 128"
    by (simp add: less_eq_div_iff_mult_less_eq mult.commute)
  moreover have "128 \<le> n"
    using Suc.prems order.trans [of 128 "128 ^ Suc k" n] by simp
  ultimately show ?case
    using Suc.IH by (subst vlen.simps) simp
qed

lemma vlen_eq: "128 ^ k \<le> n \<Longrightarrow> n < 128 ^ Suc k \<Longrightarrow> vlen n = Suc k"
  using vlen_gt [of k n] vlen_le [of n "Suc k"] by simp

lemma vlen_1: "n < 128 \<Longrightarrow> vlen n = 1"
  by (subst vlen.simps) simp

lemma unat_VarIntLength:
  fixes v :: "'a::len word"
  assumes "8 \<le> LENGTH('a)" "LENGTH('a) \<le> 64"
  shows "unat (VarIntLength v) = vlen (unat v)"
proof -
  have "(2::nat) ^ LENGTH('a) \<le> 2 ^ 64"
    using assms(2) by (rule power_increasing) simp
  then have lt: "unat v < 2 ^ 64"
    by (rule order.strict_trans2 [OF unsigned_less])
  then have u: "unat (ucast v :: 64 word) = unat v"
    by (simp add: unsigned_ucast_eq take_bit_nat_eq_self)
  show ?thesis
    using lt vlen_1 [of "unat v"] vlen_eq [of 1 "unat v"] vlen_eq [of 2 "unat v"]
      vlen_eq [of 3 "unat v"] vlen_eq [of 4 "unat v"] vlen_eq [of 5 "unat v"]
      vlen_eq [of 6 "unat v"] vlen_eq [of 7 "unat v"] vlen_eq [of 8 "unat v"]
      vlen_eq [of 9 "unat v"]
    by (simp add: VarIntLength_def Let_def word_less_nat_alt u push_bit_eq_mult)
qed

subsection \<open>Zig-zag is a bijection\<close>

lemma minus_and_1: "- (w AND 1 :: 'a::len word) = (if bit w 0 then - 1 else 0)"
  by (simp add: and_one_eq bit_0 odd_iff_mod_2_eq_one [symmetric] mod2_eq_if)

lemma signed_drop_bit_top:
  "signed_drop_bit (LENGTH('a) - Suc 0) (w :: 'a::len word) = (if bit w (LENGTH('a) - Suc 0) then - 1 else 0)"
proof (rule bit_word_eqI)
  fix n assume "n < LENGTH('a)"
  then show "bit (signed_drop_bit (LENGTH('a) - Suc 0) w) n =
      bit (if bit w (LENGTH('a) - Suc 0) then - 1 else 0 :: 'a word) n"
    by (cases n) (auto simp: bit_simps)
qed

lemma bit_encodeZigZag:
  fixes v :: "'a::len word"
  assumes "n < LENGTH('a)"
  shows "bit (encodeZigZag (LENGTH('a) - Suc 0) v) n = ((0 < n \<and> bit v (n - 1)) \<noteq> bit v (LENGTH('a) - Suc 0))"
  using assms unfolding encodeZigZag_def bit_xor_iff signed_drop_bit_top bit_push_bit_iff
  by (auto simp:)

lemma bit_decodeZigZag:
  fixes u :: "'a::len word"
  assumes "n < LENGTH('a)"
  shows "bit (decodeZigZag u) n = (bit u (Suc n) \<noteq> bit u 0)"
  using assms by (auto simp: decodeZigZag_def bit_xor_iff minus_and_1 bit_drop_bit_eq)

lemma decode_encodeZigZag:
  "decodeZigZag (encodeZigZag (LENGTH('a) - Suc 0) v) = (v :: 'a::len word)"
proof (rule bit_word_eqI)
  fix n assume n: "n < LENGTH('a)"
  show "bit (decodeZigZag (encodeZigZag (LENGTH('a) - Suc 0) v)) n = bit v n"
  proof (cases "Suc n < LENGTH('a)")
    case True
    with n show ?thesis
      by (auto simp: bit_decodeZigZag bit_encodeZigZag)
  next
    case False
    with n have "n = LENGTH('a) - Suc 0" by simp
    with n show ?thesis
      using bit_encodeZigZag [of 0 v] bit_imp_le_length [of "encodeZigZag (LENGTH('a) - Suc 0) v" "Suc n"] False
      by (auto simp: bit_decodeZigZag)
  qed
qed

lemma encode_decodeZigZag:
  "encodeZigZag (LENGTH('a) - Suc 0) (decodeZigZag u) = (u :: 'a::len word)"
proof (rule bit_word_eqI)
  fix n assume n: "n < LENGTH('a)"
  have top: "bit (decodeZigZag u) (LENGTH('a) - Suc 0) = bit u 0"
    using bit_imp_le_length [of u "Suc (LENGTH('a) - Suc 0)"] by (auto simp: bit_decodeZigZag)
  with n show "bit (encodeZigZag (LENGTH('a) - Suc 0) (decodeZigZag u)) n = bit u n"
    by (cases n) (auto simp: bit_encodeZigZag bit_decodeZigZag)
qed

lemma uint_encodeZigZag:
  fixes v :: "'a::len word"
  shows "uint (encodeZigZag (LENGTH('a) - Suc 0) v) = (if 0 \<le> sint v then 2 * sint v else - 2 * sint v - 1)"
proof -
  have top: "bit v (LENGTH('a) - Suc 0) \<longleftrightarrow> sint v < 0"
    by (simp add: bit_last_iff)
  have upper: "sint v < 2 ^ (LENGTH('a) - Suc 0)" and lower: "- (2 ^ (LENGTH('a) - Suc 0)) \<le> sint v"
    using sint_lt [of v] sint_ge [of v] by simp_all
  have two: "(2::int) ^ LENGTH('a) = 2 * 2 ^ (LENGTH('a) - Suc 0)"
    by (cases "LENGTH('a)") auto
  have push: "push_bit 1 v = word_of_int (2 * sint v)"
    by (simp add: push_bit_eq_mult)
  show ?thesis
  proof (cases "0 \<le> sint v")
    case True
    with top have "encodeZigZag (LENGTH('a) - Suc 0) v = word_of_int (2 * sint v)"
      unfolding encodeZigZag_def signed_drop_bit_top push by simp
    then have "uint (encodeZigZag (LENGTH('a) - Suc 0) v) = take_bit LENGTH('a) (2 * sint v)"
      by (simp only: uint_word_of_int_eq)
    with True upper two show ?thesis
      by (simp add: take_bit_int_eq_self)
  next
    case False
    with top have "encodeZigZag (LENGTH('a) - Suc 0) v = NOT (word_of_int (2 * sint v))"
      unfolding encodeZigZag_def signed_drop_bit_top push by simp
    also have "\<dots> = word_of_int (NOT (2 * sint v))"
      by (simp only: of_int_not_eq)
    also have "NOT (2 * sint v) = - 2 * sint v - 1"
      by (simp only: not_eq_complement)
    finally have "uint (encodeZigZag (LENGTH('a) - Suc 0) v) = take_bit LENGTH('a) (- 2 * sint v - 1)"
      by (simp only: uint_word_of_int_eq)
    with False lower two show ?thesis
      by (simp add: take_bit_int_eq_self)
  qed
qed

subsection \<open>The interface of a wire codec\<close>

text \<open>
  What \<open>EncodeProtocol.h\<close> relies on for each scalar type: the size function announces the
  length of the encoding, the writer stores the encoding at the pointer and nothing behind
  it, the reader takes it back off. The six scalar codecs of the wire format are
  interpretations.
\<close>


lemma WriteVarIntToBuffer_eq:
  "WriteVarIntToBuffer buf iLen v =
     (if length (varint v) \<le> length buf
      then Inr (of_nat (length (varint v)), varint v @ drop (length (varint v)) buf)
      else Inl OutOfBounds)"
  using WriteVarIntToBuffer_loop_eq [of "[]" buf v] by (simp add: WriteVarIntToBuffer_def)

lemma ReadVarIntFromBuffer_varint:
  fixes v :: "'a::len word"
  assumes "8 \<le> LENGTH('a)" and "length (varint v) \<le> Suc (unat iLen)"
  shows "ReadVarIntFromBuffer (varint v @ rest) iLen = Inr (Some (of_nat (length (varint v)), v))"
  using ReadVarIntFromBuffer_loop_varint [of 0 v iLen 0 rest 0] assms
  by (simp add: ReadVarIntFromBuffer_def unsigned_less)

lemma VarIntLength_varint:
  fixes v :: "'a::len word"
  assumes "8 \<le> LENGTH('a)" "LENGTH('a) \<le> 64"
  shows "VarIntLength v = of_nat (length (varint v))"
  using unat_VarIntLength [OF assms, of v] length_varint_vlen [OF assms(1), of v] by (metis of_nat_unat ucast_id)

lemma length_varint32: "length (varint (v :: 32 word)) \<le> 5"
  using vlen_le [of "unat v" 5] unat_less [of v]
  by (simp add: length_varint_vlen)

lemma length_varint64: "length (varint (v :: 64 word)) \<le> 10"
  using vlen_le [of "unat v" 10] unat_less [of v]
  by (simp add: length_varint_vlen)

lemma ReadFixed32_bytes [codec_simps]: "ReadFixed32 (bytes32 v @ rest) iLen = Inr (FIXED32_SIZE, v)"
  by (simp add: ReadFixed32_def bytes32_def)

lemma ReadFixed64_bytes [codec_simps]: "ReadFixed64 (bytes64 v @ rest) iLen = Inr (FIXED64_SIZE, v)"
  by (simp add: ReadFixed64_def bytes64_def bytes32_def)

lemma WriteFixed32_eq:
  "WriteFixed32 buf iLen v =
     (if 4 \<le> length buf then Inr (FIXED32_SIZE, bytes32 v @ drop 4 buf) else Inl OutOfBounds)"
  by (simp add: WriteFixed32_def memcpy_to_def)

lemma WriteFixed64_eq:
  "WriteFixed64 buf iLen v =
     (if 8 \<le> length buf then Inr (FIXED64_SIZE, bytes64 v @ drop 8 buf) else Inl OutOfBounds)"
  by (simp add: WriteFixed64_def memcpy_to_def)

lemma decode_encodeZigZag32 [simp]: "decodeZigZag32 (encodeZigZag32 v) = v"
  using decode_encodeZigZag [of v] by (simp add: decodeZigZag32_def encodeZigZag32_def)

lemma decode_encodeZigZag64 [simp]: "decodeZigZag64 (encodeZigZag64 v) = v"
  using decode_encodeZigZag [of v] by (simp add: decodeZigZag64_def encodeZigZag64_def)

locale wire_codec =
  fixes enc :: "'v \<Rightarrow> ubytetype list"
    and szof :: "'v \<Rightarrow> uinttype"
    and wr :: "ubytetype list \<Rightarrow> uinttype \<Rightarrow> 'v \<Rightarrow> (uinttype \<times> ubytetype list) result"
    and rd :: "ubytetype list \<Rightarrow> uinttype \<Rightarrow> (uinttype \<times> 'v option) result"
  assumes enc_nonempty: "enc v \<noteq> []"
    and enc_short: "length (enc v) \<le> 10"
    and szof_enc: "szof v = of_nat (length (enc v))"
    and wr_enc: "length (enc v) \<le> length buf \<Longrightarrow> length (enc v) \<le> unat iLen \<Longrightarrow>
      wr buf iLen v = Inr (of_nat (length (enc v)), enc v @ drop (length (enc v)) buf)"
    and rd_enc: "length (enc v) \<le> unat iLen \<Longrightarrow>
      rd (enc v @ rest) iLen = Inr (of_nat (length (enc v)), Some v)"
begin

lemma unat_szof: "unat (szof v) = length (enc v)"
  using enc_short [of v] by (simp add: szof_enc unat_of_nat_small)

lemma szof_nonzero: "szof v \<noteq> 0"
  using unat_szof [of v] enc_nonempty [of v] by (metis length_0_conv unat_0)

lemma write_then_read:
  assumes "szof v \<le> iLen" and "unat iLen \<le> length buf"
  shows "\<exists>buf'. wr buf iLen v = Inr (szof v, buf') \<and> length buf' = length buf \<and>
      drop (unat (szof v)) buf' = drop (unat (szof v)) buf \<and>
      rd buf' iLen = Inr (szof v, Some v)"
proof -
  have "length (enc v) \<le> unat iLen"
    using assms(1) by (simp add: word_le_nat_alt unat_szof)
  with assms(2) show ?thesis
    by (simp add: wr_enc rd_enc unat_szof) (simp add: szof_enc)
qed

end

interpretation int32: wire_codec "\<lambda>v. varint (encodeZigZag32 v)" SizeofInt32 WriteInt32ToBuffer ReadInt32FromBuffer
proof
  fix v :: inttype and buf :: "ubytetype list" and iLen :: uinttype and rest :: "ubytetype list"
  show "varint (encodeZigZag32 v) \<noteq> []" by simp
  show "length (varint (encodeZigZag32 v)) \<le> 10"
    using length_varint32 [of "encodeZigZag32 v"] by simp
  show "SizeofInt32 v = of_nat (length (varint (encodeZigZag32 v)))"
    by (simp add: SizeofInt32_def VarIntLength_varint)
  show "WriteInt32ToBuffer buf iLen v = Inr (of_nat (length (varint (encodeZigZag32 v))),
      varint (encodeZigZag32 v) @ drop (length (varint (encodeZigZag32 v))) buf)"
    if "length (varint (encodeZigZag32 v)) \<le> length buf" using that
    by (simp add: WriteInt32ToBuffer_def WriteVarIntToBuffer_eq)
  show "ReadInt32FromBuffer (varint (encodeZigZag32 v) @ rest) iLen =
      Inr (of_nat (length (varint (encodeZigZag32 v))), Some v)"
    if "length (varint (encodeZigZag32 v)) \<le> unat iLen" using that
    by (simp add: ReadInt32FromBuffer_def ReadVarIntFromBuffer_varint)
qed

interpretation uint32: wire_codec varint SizeofUint32 WriteUint32ToBuffer ReadUint32FromBuffer
proof
  fix v :: uinttype and buf :: "ubytetype list" and iLen :: uinttype and rest :: "ubytetype list"
  show "varint v \<noteq> []" by simp
  show "length (varint v) \<le> 10"
    using length_varint32 [of v] by simp
  show "SizeofUint32 v = of_nat (length (varint v))"
    by (simp add: SizeofUint32_def VarIntLength_varint)
  show "WriteUint32ToBuffer buf iLen v =
      Inr (of_nat (length (varint v)), varint v @ drop (length (varint v)) buf)"
    if "length (varint v) \<le> length buf" using that
    by (simp add: WriteUint32ToBuffer_def WriteVarIntToBuffer_eq)
  show "ReadUint32FromBuffer (varint v @ rest) iLen = Inr (of_nat (length (varint v)), Some v)"
    if "length (varint v) \<le> unat iLen" using that
    by (simp add: ReadUint32FromBuffer_def ReadVarIntFromBuffer_varint)
qed

interpretation int64: wire_codec "\<lambda>v. varint (encodeZigZag64 v)" SizeofInt64 WriteInt64ToBuffer
  ReadInt64FromBuffer
proof
  fix v :: longtype and buf :: "ubytetype list" and iLen :: uinttype and rest :: "ubytetype list"
  show "varint (encodeZigZag64 v) \<noteq> []" by simp
  show "length (varint (encodeZigZag64 v)) \<le> 10"
    by (rule length_varint64)
  show "SizeofInt64 v = of_nat (length (varint (encodeZigZag64 v)))"
    by (simp add: SizeofInt64_def VarIntLength_varint)
  show "WriteInt64ToBuffer buf iLen v = Inr (of_nat (length (varint (encodeZigZag64 v))),
      varint (encodeZigZag64 v) @ drop (length (varint (encodeZigZag64 v))) buf)"
    if "length (varint (encodeZigZag64 v)) \<le> length buf" using that
    by (simp add: WriteInt64ToBuffer_def WriteVarIntToBuffer_eq)
  show "ReadInt64FromBuffer (varint (encodeZigZag64 v) @ rest) iLen =
      Inr (of_nat (length (varint (encodeZigZag64 v))), Some v)"
    if "length (varint (encodeZigZag64 v)) \<le> unat iLen" using that
    by (simp add: ReadInt64FromBuffer_def ReadVarIntFromBuffer_varint)
qed

interpretation uint64: wire_codec varint SizeofUint64 WriteUint64ToBuffer ReadUint64FromBuffer
proof
  fix v :: ulongtype and buf :: "ubytetype list" and iLen :: uinttype and rest :: "ubytetype list"
  show "varint v \<noteq> []" by simp
  show "length (varint v) \<le> 10"
    by (rule length_varint64)
  show "SizeofUint64 v = of_nat (length (varint v))"
    by (simp add: SizeofUint64_def VarIntLength_varint)
  show "WriteUint64ToBuffer buf iLen v =
      Inr (of_nat (length (varint v)), varint v @ drop (length (varint v)) buf)"
    if "length (varint v) \<le> length buf" using that
    by (simp add: WriteUint64ToBuffer_def WriteVarIntToBuffer_eq)
  show "ReadUint64FromBuffer (varint v @ rest) iLen = Inr (of_nat (length (varint v)), Some v)"
    if "length (varint v) \<le> unat iLen" using that
    by (simp add: ReadUint64FromBuffer_def ReadVarIntFromBuffer_varint)
qed

interpretation float: wire_codec "\<lambda>f. bytes32 (float_bits f)" "\<lambda>_. SizeofFloat" WriteFloatToBuffer
  ReadFloatFromBuffer
  by unfold_locales
    (auto simp: SizeofFloat_def wire_consts WriteFloatToBuffer_def ReadFloatFromBuffer_def
      WriteFixed32_eq ReadFixed32_bytes convertFloat32ToInt32_def convertInt32ToFloat32_def
      word_less_nat_alt)

interpretation double: wire_codec "\<lambda>f. bytes64 (double_bits f)" "\<lambda>_. SizeofDouble" WriteDoubleToBuffer
  ReadDoubleFromBuffer
  by unfold_locales
    (auto simp: SizeofDouble_def wire_consts WriteDoubleToBuffer_def ReadDoubleFromBuffer_def
      WriteFixed64_eq ReadFixed64_bytes convertFloat64ToInt64_def convertInt64ToFloat64_def
      word_less_nat_alt)

end
