(* ===== verification/EncodeWriter.thy ===== *)
theory EncodeWriter
  imports BinaryWireFormat
begin

section \<open>Encoding messages\<close>

text \<open>
  The constants and the class \<open>writer\<close> of
  \<^verbatim>\<open>src/PLATFORM/src/main/native/cxx/io/EncodeProtocol.h\<close>. A message is a header of four
  32-bit words (magic, version and flags, message id, payload length) followed by fields,
  each a 32-bit field header (type and id) and the value in the wire format.
\<close>

subsection \<open>Field types, header words, field headers\<close>

definition TYPE_ARRAY :: ubytetype where "TYPE_ARRAY = 0x80"
definition NIL :: ubytetype where "NIL = 0"
definition INT32 :: ubytetype where "INT32 = 1"
definition UINT32 :: ubytetype where "UINT32 = 2"
definition INT64 :: ubytetype where "INT64 = 3"
definition UINT64 :: ubytetype where "UINT64 = 4"
definition FLOAT :: ubytetype where "FLOAT = 5"
definition DOUBLE :: ubytetype where "DOUBLE = 6"
definition RAW :: ubytetype where "RAW = 7"
definition STRING :: ubytetype where "STRING = 8"
definition BUNDLE :: ubytetype where "BUNDLE = 10"
definition VOIDPTR :: ubytetype where "VOIDPTR = 11"

definition arrayType :: "ubytetype \<Rightarrow> ubytetype" where
  "arrayType iType = (TYPE_ARRAY OR iType)"

definition UINT32_ARRAY :: ubytetype where
  "UINT32_ARRAY = (TYPE_ARRAY OR UINT32)"

definition DEEP_MAGIC :: uinttype where "DEEP_MAGIC = 0x50454544"
definition VERSION :: uinttype where "VERSION = 0x00000001"
definition REPLY_FLAG :: uinttype where "REPLY_FLAG = 0x00000100"
definition FIRST_FLAG :: uinttype where "FIRST_FLAG = 0x00000200"
definition LAST_FLAG :: uinttype where "LAST_FLAG = 0x00000400"
definition BLOCK_FLAG :: uinttype where "BLOCK_FLAG = 0x00000800"
definition HEADER_SIZE :: uinttype where "HEADER_SIZE = FIXED32_SIZE * 4"

definition FIELD_HDR_SIZE :: uinttype where "FIELD_HDR_SIZE = FIXED32_SIZE"
definition FIELD_MAX :: uinttype where "FIELD_MAX = 256"
definition FIELD_BUNDLE_ID :: uinttype where "FIELD_BUNDLE_ID = 1"

lemmas type_consts = TYPE_ARRAY_def NIL_def INT32_def UINT32_def INT64_def UINT64_def FLOAT_def
  DOUBLE_def RAW_def STRING_def BUNDLE_def VOIDPTR_def UINT32_ARRAY_def arrayType_def
lemmas header_consts = DEEP_MAGIC_def VERSION_def REPLY_FLAG_def FIRST_FLAG_def LAST_FLAG_def
  BLOCK_FLAG_def HEADER_SIZE_def FIELD_HDR_SIZE_def FIELD_MAX_def FIELD_BUNDLE_ID_def

definition makeHeader :: "ubytetype \<Rightarrow> uinttype \<Rightarrow> uinttype" where
  "makeHeader iType iId = (push_bit 8 (0x00ffffff AND iId) OR ucast iType)"

definition getTypeId :: "uinttype \<Rightarrow> ubytetype \<times> uinttype" where
  "getTypeId iFieldHdr = (ucast (0x000000ff AND iFieldHdr), drop_bit 8 iFieldHdr AND 0x00ffffff)"

subsection \<open>The writer object\<close>

text \<open>
  \<open>w_piBuffer\<close> is the memory from \<open>m_piBuffer\<close> to the end of its allocation (\<open>None\<close> for the
  null pointer), \<open>w_piPos\<close> the offset of \<open>m_piPos\<close> in it. Fresh memory has arbitrary
  contents, given by a function \<open>junk\<close> of the offset.
\<close>

record writer =
  w_piBuffer :: "ubytetype list option"
  w_iActualLen :: uinttype
  w_iBufferLen :: uinttype
  w_iWritten :: uinttype
  w_piPos :: nat

definition new_bytes :: "(nat \<Rightarrow> ubytetype) \<Rightarrow> uinttype \<Rightarrow> ubytetype list" where
  "new_bytes junk n = map junk [0..<unat n]"

definition WRITE_SPINS :: "uinttype \<Rightarrow> writer \<Rightarrow> writer" where
  "WRITE_SPINS x w =
     w\<lparr>w_iBufferLen := w_iBufferLen w - x, w_piPos := w_piPos w + unat x,
       w_iWritten := w_iWritten w + x\<rparr>"

text \<open>One call \<open>f(m_piPos, m_iBufferLen)\<close> of a wire-format routine.\<close>

definition emit ::
  "(ubytetype list \<Rightarrow> uinttype \<Rightarrow> (uinttype \<times> ubytetype list) result) \<Rightarrow> writer \<Rightarrow>
     (uinttype \<times> writer) result" where
  "emit f w =
     (case w_piBuffer w of
        None \<Rightarrow> Inl NullDeref
      | Some buf \<Rightarrow> rbind (at_pos buf (w_piPos w) (\<lambda>suffix. f suffix (w_iBufferLen w)))
          (\<lambda>(n, buf'). Inr (n, w\<lparr>w_piBuffer := Some buf'\<rparr>)))"

text \<open>A word of the header: the code aborts if nothing is written.\<close>

definition init_word :: "uinttype \<Rightarrow> writer \<Rightarrow> writer result" where
  "init_word v w =
     rbind (emit (\<lambda>buf iLen. WriteFixed32 buf iLen v) w)
       (\<lambda>(iWritten, w'). if iWritten = 0 then Inl Aborted else Inr (WRITE_SPINS iWritten w'))"

definition writer_init :: "uinttype \<Rightarrow> uinttype \<Rightarrow> writer \<Rightarrow> writer result" where
  "writer_init iPayloadLen iMsgId w =
     rbind (init_word DEEP_MAGIC (w\<lparr>w_piPos := 0\<rparr>)) (\<lambda>w1.
     rbind (init_word VERSION w1) (\<lambda>w2.
     rbind (init_word iMsgId w2) (\<lambda>w3.
     init_word iPayloadLen w3)))"

text \<open>\<open>writer(iBufferLen, iMsgId)\<close>\<close>

definition writer_new :: "(nat \<Rightarrow> ubytetype) \<Rightarrow> uinttype \<Rightarrow> uinttype \<Rightarrow> writer result" where
  "writer_new junk iBufferLen iMsgId =
     (let iActualLen = iBufferLen + HEADER_SIZE in
      writer_init iBufferLen iMsgId
        \<lparr>w_piBuffer = Some (new_bytes junk iActualLen), w_iActualLen = iActualLen,
         w_iBufferLen = iActualLen, w_iWritten = 0, w_piPos = 0\<rparr>)"

text \<open>\<open>writer(piBuffer, iBufferLen, iPayloadLen, iMsgId, bBundleShim)\<close>\<close>

definition writer_around ::
  "ubytetype list \<Rightarrow> uinttype \<Rightarrow> uinttype \<Rightarrow> uinttype \<Rightarrow> bool \<Rightarrow> writer result" where
  "writer_around piBuffer iBufferLen iPayloadLen iMsgId bBundleShim =
     (if HEADER_SIZE > iBufferLen then Inl Aborted
      else rbind (writer_init iPayloadLen iMsgId
                   \<lparr>w_piBuffer = Some piBuffer, w_iActualLen = iBufferLen,
                    w_iBufferLen = iBufferLen, w_iWritten = 0, w_piPos = 0\<rparr>) (\<lambda>w.
        if bBundleShim then
          rbind (emit (\<lambda>buf iLen. WriteFixed32 buf iLen (makeHeader BUNDLE FIELD_BUNDLE_ID)) w)
            (\<lambda>(iWritten, w'). if iWritten = 0 then Inl Aborted
                               else Inr (w'\<lparr>w_iWritten := HEADER_SIZE + iPayloadLen\<rparr>))
        else Inr w))"

text \<open>
  \<open>writer(cClone)\<close> copies \<open>m_iActualLen\<close> bytes and sets \<open>m_piPos\<close> behind all of them, while
  \<open>m_iBufferLen\<close> and \<open>m_iWritten\<close> are those of the original.
\<close>

definition writer_clone :: "writer \<Rightarrow> writer result" where
  "writer_clone cClone =
     (case w_piBuffer cClone of
        None \<Rightarrow> if w_iActualLen cClone = 0
                then Inr (cClone\<lparr>w_piBuffer := Some [], w_piPos := 0\<rparr>) else Inl NullDeref
      | Some buf \<Rightarrow> rbind (memcpy_from buf (unat (w_iActualLen cClone)))
          (\<lambda>bs. Inr (cClone\<lparr>w_piBuffer := Some bs, w_piPos := unat (w_iActualLen cClone)\<rparr>)))"

subsection \<open>Flags and the finished buffer\<close>

definition setFlags_buffer :: "ubytetype list \<Rightarrow> uinttype \<Rightarrow> (inttype \<times> ubytetype list) result" where
  "setFlags_buffer piBuffer iFlags =
     rbind (ReadFixed32 (drop (unat FIXED32_SIZE) piBuffer) FIXED32_SIZE) (\<lambda>(iRead, iVerFlags).
       if iRead = 0 then Inl Aborted
       else rbind (at_pos piBuffer (unat FIXED32_SIZE)
                     (\<lambda>suffix. WriteFixed32 suffix FIXED32_SIZE (iVerFlags OR (VERSION OR iFlags))))
              (\<lambda>(iWritten, piBuffer'). if iWritten = 0 then Inl Aborted else Inr (0, piBuffer')))"

definition setFlags :: "uinttype \<Rightarrow> writer \<Rightarrow> (inttype \<times> writer) result" where
  "setFlags iFlags w =
     (case w_piBuffer w of
        None \<Rightarrow> Inr (- 1, w)
      | Some buf \<Rightarrow>
          if w_iWritten w = 0 \<or> w_iWritten w < HEADER_SIZE then Inr (- 1, w)
          else rbind (setFlags_buffer buf iFlags)
                 (\<lambda>(r, buf'). Inr (r, w\<lparr>w_piBuffer := Some buf'\<rparr>)))"

definition setIsReply :: "writer \<Rightarrow> (inttype \<times> writer) result" where
  "setIsReply w = setFlags REPLY_FLAG w"

text \<open>\<open>getFlags\<close> gives the return code and the out parameter if it is assigned.\<close>

definition getFlags :: "writer \<Rightarrow> (inttype \<times> uinttype option) result" where
  "getFlags w =
     (case w_piBuffer w of
        None \<Rightarrow> Inr (- 1, None)
      | Some buf \<Rightarrow>
          if w_iWritten w = 0 \<or> w_iWritten w < HEADER_SIZE then Inr (- 1, None)
          else rbind (ReadFixed32 (drop (unat FIXED32_SIZE) buf) FIXED32_SIZE)
                 (\<lambda>(iRead, iFlags). if iRead = 0 then Inl Aborted else Inr (0, Some iFlags)))"

text \<open>\<open>getMutableBuffer\<close>: the return code, the two out parameters and the emptied writer.\<close>

definition getMutableBuffer :: "writer \<Rightarrow> inttype \<times> ubytetype list option \<times> uinttype \<times> writer" where
  "getMutableBuffer w =
     (0, w_piBuffer w, w_iWritten w,
      w\<lparr>w_piBuffer := None, w_iActualLen := 0, w_iBufferLen := 0, w_piPos := 0\<rparr>)"

definition getSize :: "writer \<Rightarrow> uinttype" where
  "getSize w = w_iWritten w"

definition getBufferRef :: "writer \<Rightarrow> ubytetype list option" where
  "getBufferRef w = w_piBuffer w"

subsection \<open>Sizes of fields\<close>

definition sizeOfInt32 :: "inttype \<Rightarrow> uinttype" where
  "sizeOfInt32 iValue = SizeofInt32 iValue + FIELD_HDR_SIZE"

definition sizeOfUint32 :: "uinttype \<Rightarrow> uinttype" where
  "sizeOfUint32 iValue = SizeofUint32 iValue + FIELD_HDR_SIZE"

definition sizeOfInt64 :: "longtype \<Rightarrow> uinttype" where
  "sizeOfInt64 iValue = SizeofInt64 iValue + FIELD_HDR_SIZE"

definition sizeOfUint64 :: "ulongtype \<Rightarrow> uinttype" where
  "sizeOfUint64 iValue = SizeofUint64 iValue + FIELD_HDR_SIZE"

definition sizeOfFloat :: uinttype where
  "sizeOfFloat = SizeofFloat + FIELD_HDR_SIZE"

definition sizeOfDouble :: uinttype where
  "sizeOfDouble = SizeofDouble + FIELD_HDR_SIZE"

definition sizeOfString :: "ubytetype list \<Rightarrow> uinttype" where
  "sizeOfString cValue = SizeofString cValue + FIELD_HDR_SIZE"

definition sizeOfRaw :: "uinttype \<Rightarrow> uinttype" where
  "sizeOfRaw iRawLen = SizeofRaw iRawLen + FIELD_HDR_SIZE"

definition sizeOfUint32Array :: "uinttype list \<Rightarrow> uinttype" where
  "sizeOfUint32Array cValues =
     foldl (\<lambda>iSize v. iSize + SizeofUint32 v) FIELD_HDR_SIZE cValues
       + SizeofUint32 (of_nat (length cValues))"

subsection \<open>Setting fields\<close>

text \<open>
  All \<open>set...Field\<close> methods have one shape: the field number and the announced size are
  checked, the field header is written, then the value. A value routine that returns
  \<open>0\<close> leaves the header behind and gives \<open>-1\<close>.
\<close>

definition set_field ::
  "ubytetype \<Rightarrow> uinttype \<Rightarrow> (ubytetype list \<Rightarrow> uinttype \<Rightarrow> (uinttype \<times> ubytetype list) result) \<Rightarrow>
     uinttype \<Rightarrow> writer \<Rightarrow> (inttype \<times> writer) result" where
  "set_field iType iSize write_value iFieldNum w =
     (if FIELD_MAX \<le> iFieldNum then Inr (- 1, w)
      else if w_iBufferLen w < iSize then Inr (- 1, w)
      else rbind (emit (\<lambda>buf iLen. WriteFixed32 buf iLen (makeHeader iType iFieldNum)) w)
        (\<lambda>(iWritten, w1).
          if iWritten = 0 then Inr (- 1, w1)
          else rbind (emit write_value (WRITE_SPINS iWritten w1))
            (\<lambda>(iWritten2, w2).
              if iWritten2 = 0 then Inr (- 1, w2) else Inr (0, WRITE_SPINS iWritten2 w2))))"

definition setInt32Field :: "uinttype \<Rightarrow> inttype \<Rightarrow> writer \<Rightarrow> (inttype \<times> writer) result" where
  "setInt32Field iFieldNum iValue =
     set_field INT32 (sizeOfInt32 iValue) (\<lambda>buf iLen. WriteInt32ToBuffer buf iLen iValue) iFieldNum"

definition setUint32Field :: "uinttype \<Rightarrow> uinttype \<Rightarrow> writer \<Rightarrow> (inttype \<times> writer) result" where
  "setUint32Field iFieldNum iValue =
     set_field UINT32 (sizeOfUint32 iValue) (\<lambda>buf iLen. WriteUint32ToBuffer buf iLen iValue) iFieldNum"

definition setInt64Field :: "uinttype \<Rightarrow> longtype \<Rightarrow> writer \<Rightarrow> (inttype \<times> writer) result" where
  "setInt64Field iFieldNum iValue =
     set_field INT64 (sizeOfInt64 iValue) (\<lambda>buf iLen. WriteInt64ToBuffer buf iLen iValue) iFieldNum"

definition setUint64Field :: "uinttype \<Rightarrow> ulongtype \<Rightarrow> writer \<Rightarrow> (inttype \<times> writer) result" where
  "setUint64Field iFieldNum iValue =
     set_field UINT64 (sizeOfUint64 iValue) (\<lambda>buf iLen. WriteUint64ToBuffer buf iLen iValue) iFieldNum"

definition setFloatField :: "uinttype \<Rightarrow> floattype \<Rightarrow> writer \<Rightarrow> (inttype \<times> writer) result" where
  "setFloatField iFieldNum fValue =
     set_field FLOAT sizeOfFloat (\<lambda>buf iLen. WriteFloatToBuffer buf iLen fValue) iFieldNum"

text \<open>\<open>setDoubleField\<close> checks for \<open>sizeOfFloat\<close> bytes.\<close>

definition setDoubleField :: "uinttype \<Rightarrow> doubletype \<Rightarrow> writer \<Rightarrow> (inttype \<times> writer) result" where
  "setDoubleField iFieldNum fValue =
     set_field DOUBLE sizeOfFloat (\<lambda>buf iLen. WriteDoubleToBuffer buf iLen fValue) iFieldNum"

definition setStringField :: "uinttype \<Rightarrow> ubytetype list \<Rightarrow> writer \<Rightarrow> (inttype \<times> writer) result" where
  "setStringField iFieldNum cValue =
     set_field STRING (sizeOfString cValue)
       (\<lambda>buf iLen. WriteStringToBuffer_String buf iLen cValue) iFieldNum"

definition setRawField ::
  "uinttype \<Rightarrow> ubytetype list \<Rightarrow> uinttype \<Rightarrow> writer \<Rightarrow> (inttype \<times> writer) result" where
  "setRawField iFieldNum piRaw iRawLen =
     set_field RAW (sizeOfRaw iRawLen)
       (\<lambda>buf iLen. WriteRawToBuffer buf iLen piRaw iRawLen) iFieldNum"

text \<open>The loop over the array elements.\<close>

fun write_array_values :: "uinttype list \<Rightarrow> writer \<Rightarrow> (inttype \<times> writer) result" where
  "write_array_values [] w = Inr (0, w)"
| "write_array_values (v # vs) w =
     rbind (emit (\<lambda>buf iLen. WriteUint32ToBuffer buf iLen v) w) (\<lambda>(iWritten, w1).
       if iWritten = 0 then Inr (- 1, w1) else write_array_values vs (WRITE_SPINS iWritten w1))"

definition setUint32ArrayField :: "uinttype \<Rightarrow> uinttype list \<Rightarrow> writer \<Rightarrow> (inttype \<times> writer) result" where
  "setUint32ArrayField iFieldNum cValues w =
     (if FIELD_MAX \<le> iFieldNum then Inr (- 1, w)
      else if w_iBufferLen w < sizeOfUint32Array cValues then Inr (- 1, w)
      else rbind (emit (\<lambda>buf iLen. WriteFixed32 buf iLen (makeHeader (arrayType UINT32) iFieldNum)) w)
        (\<lambda>(iWritten, w1).
          if iWritten = 0 then Inr (- 1, w1)
          else rbind (emit (\<lambda>buf iLen. WriteUint32ToBuffer buf iLen (of_nat (length cValues)))
                        (WRITE_SPINS iWritten w1))
            (\<lambda>(iWritten2, w2). write_array_values cValues (WRITE_SPINS iWritten2 w2))))"

subsection \<open>The state of a writer and what a routine appends\<close>

text \<open>
  \<open>writer_inv\<close> ties the counters to the memory: the position is the number of bytes written,
  and the bytes written and still free fit the allocation and 32 bits. \<open>appends w bs w'\<close> says
  that \<open>w'\<close> is \<open>w\<close> with \<open>bs\<close> written behind its bytes and nothing else changed.
\<close>

definition writer_inv :: "writer \<Rightarrow> bool" where
  "writer_inv w \<longleftrightarrow>
     (case w_piBuffer w of
        None \<Rightarrow> False
      | Some buf \<Rightarrow> w_piPos w = unat (w_iWritten w) \<and>
          unat (w_iWritten w) + unat (w_iBufferLen w) \<le> length buf \<and>
          unat (w_iWritten w) + unat (w_iBufferLen w) < 2 ^ 32)"

definition buffer_of :: "writer \<Rightarrow> ubytetype list" where
  "buffer_of w = (case w_piBuffer w of None \<Rightarrow> [] | Some buf \<Rightarrow> buf)"

definition written_bytes :: "writer \<Rightarrow> ubytetype list" where
  "written_bytes w = take (unat (w_iWritten w)) (buffer_of w)"

definition appends :: "writer \<Rightarrow> ubytetype list \<Rightarrow> writer \<Rightarrow> bool" where
  "appends w bs w' \<longleftrightarrow>
     writer_inv w' \<and> written_bytes w' = written_bytes w @ bs \<and>
     unat (w_iWritten w') = unat (w_iWritten w) + length bs \<and>
     unat (w_iBufferLen w') + length bs = unat (w_iBufferLen w) \<and>
     w_iActualLen w' = w_iActualLen w \<and>
     length (buffer_of w') = length (buffer_of w) \<and>
     drop (w_piPos w') (buffer_of w') = drop (w_piPos w') (buffer_of w)"

lemma appends_pos: "appends w bs w' \<Longrightarrow> w_piPos w' = unat (w_iWritten w) + length bs"
  by (auto simp: appends_def writer_inv_def split: option.splits)

lemma appends_inv: "appends w bs w' \<Longrightarrow> writer_inv w'"
  by (simp add: appends_def)

lemma appends_room: "appends w bs w' \<Longrightarrow> unat (w_iBufferLen w') = unat (w_iBufferLen w) - length bs"
  by (auto simp: appends_def)

lemma written_length: "writer_inv w \<Longrightarrow> length (written_bytes w) = unat (w_iWritten w)"
  by (auto simp: writer_inv_def written_bytes_def buffer_of_def split: option.splits)

lemma appends_trans:
  assumes 1: "appends w as w'" and 2: "appends w' bs w''"
  shows "appends w (as @ bs) w''"
proof -
  have 3: "w_piPos w'' = w_piPos w' + length bs"
    using appends_pos [OF 1] appends_pos [OF 2] 1 by (simp add: appends_def)
  have "drop (w_piPos w'') (buffer_of w'') = drop (w_piPos w'') (buffer_of w')"
    using 2 by (simp add: appends_def)
  also have "\<dots> = drop (length bs) (drop (w_piPos w') (buffer_of w'))"
    by (simp add: 3 add.commute)
  also have "\<dots> = drop (length bs) (drop (w_piPos w') (buffer_of w))"
    using 1 by (simp add: appends_def)
  finally have "drop (w_piPos w'') (buffer_of w'') = drop (w_piPos w'') (buffer_of w)"
    by (simp add: 3 add.commute)
  with 1 2 show ?thesis
    unfolding appends_def by simp
qed

text \<open>A routine that stores \<open>bs\<close> where \<open>n\<close> bytes may be written.\<close>

definition stores :: "(ubytetype list \<Rightarrow> uinttype \<Rightarrow> (uinttype \<times> ubytetype list) result) \<Rightarrow>
    ubytetype list \<Rightarrow> uinttype \<Rightarrow> bool" where
  "stores f bs iLen \<longleftrightarrow>
     (\<forall>buf. length bs \<le> length buf \<longrightarrow> f buf iLen = Inr (of_nat (length bs), bs @ drop (length bs) buf))"

lemma emit_stores:
  assumes inv: "writer_inv w" and st: "stores f bs (w_iBufferLen w)"
    and len: "length bs \<le> unat (w_iBufferLen w)"
  shows "\<exists>w1. emit f w = Inr (of_nat (length bs), w1) \<and> appends w bs (WRITE_SPINS (of_nat (length bs)) w1)"
proof -
  obtain buf where buf: "w_piBuffer w = Some buf" and pos: "w_piPos w = unat (w_iWritten w)"
    and fits: "unat (w_iWritten w) + unat (w_iBufferLen w) \<le> length buf"
    and small: "unat (w_iWritten w) + unat (w_iBufferLen w) < 2 ^ 32"
    using inv by (auto simp: writer_inv_def split: option.splits)
  define n where "n = (of_nat (length bs) :: uinttype)"
  have n: "unat n = length bs"
    using len small by (simp add: n_def unat_of_nat_small)
  have le: "n \<le> w_iBufferLen w"
    using len by (simp add: word_le_nat_alt n)
  define w1 where "w1 = w\<lparr>w_piBuffer := Some (take (w_piPos w) buf @ bs @ drop (w_piPos w + length bs) buf)\<rparr>"
  have "emit f w = Inr (n, w1)"
    using st fits len pos
    by (simp add: emit_def buf at_pos_def stores_def w1_def n_def add.commute)
  moreover have wr: "unat (w_iWritten w + n) = unat (w_iWritten w) + length bs"
    using len small n by (simp add: unat_word_ariths)
  moreover have bl: "unat (w_iBufferLen w - n) = unat (w_iBufferLen w) - length bs"
    using le n by (simp add: unat_sub)
  have "appends w bs (WRITE_SPINS n w1)"
    using wr bl len fits small pos n
    by (simp add: appends_def writer_inv_def WRITE_SPINS_def w1_def written_bytes_def buffer_of_def buf)
  ultimately show ?thesis
    by (auto simp: n_def)
qed

lemma stores_WriteFixed32: "stores (\<lambda>buf iLen. WriteFixed32 buf iLen v) (bytes32 v) iLen"
  by (simp add: stores_def WriteFixed32_eq wire_consts)

text \<open>The field template stores header and value, or refuses and changes nothing.\<close>

definition field_bytes :: "ubytetype \<Rightarrow> uinttype \<Rightarrow> ubytetype list \<Rightarrow> ubytetype list" where
  "field_bytes iType iFieldNum val = bytes32 (makeHeader iType iFieldNum) @ val"

lemma set_field_refused:
  "FIELD_MAX \<le> iFieldNum \<or> w_iBufferLen w < iSize \<Longrightarrow>
     set_field iType iSize wv iFieldNum w = Inr (- 1, w)"
  by (auto simp: set_field_def)

lemma set_field_accepted:
  assumes inv: "writer_inv w" and num: "iFieldNum < FIELD_MAX" and space: "iSize \<le> w_iBufferLen w"
    and room: "4 + length val \<le> unat (w_iBufferLen w)" and nonempty: "val \<noteq> []"
    and st: "\<And>iLen. unat iLen = unat (w_iBufferLen w) - 4 \<Longrightarrow> stores wv val iLen"
  shows "\<exists>w'. set_field iType iSize wv iFieldNum w = Inr (0, w') \<and>
     appends w (field_bytes iType iFieldNum val) w'"
proof -
  let ?h = "bytes32 (makeHeader iType iFieldNum)"
  obtain w1 where 1: "emit (\<lambda>buf iLen. WriteFixed32 buf iLen (makeHeader iType iFieldNum)) w =
      Inr (of_nat (length ?h), w1)" and a1: "appends w ?h (WRITE_SPINS (of_nat (length ?h)) w1)"
    using emit_stores [OF inv stores_WriteFixed32] room by (metis add_leD1 length_bytes32)
  define w2 where "w2 = WRITE_SPINS 4 w1"
  have a1: "appends w ?h w2"
    using a1 by (simp add: w2_def)
  have inv2: "writer_inv w2" and room2: "unat (w_iBufferLen w2) = unat (w_iBufferLen w) - 4"
    using a1 by (auto simp: appends_def)
  have len2: "length val \<le> unat (w_iBufferLen w2)"
    using room room2 by simp
  obtain w3 where 2: "emit wv w2 = Inr (of_nat (length val), w3)"
    and a2: "appends w2 val (WRITE_SPINS (of_nat (length val)) w3)"
    using emit_stores [OF inv2 st [OF room2] len2] by auto
  have "(of_nat (length val) :: uinttype) \<noteq> 0"
    using nonempty room unat_less [of "w_iBufferLen w"] of_nat_eq_0_small [of "length val", where 'a = 32]
    by simp
  then have "set_field iType iSize wv iFieldNum w = Inr (0, WRITE_SPINS (of_nat (length val)) w3)"
    using num space 1 2 by (simp add: set_field_def w2_def [symmetric] not_le not_less leD)
  with appends_trans [OF a1 a2] show ?thesis
    by (simp add: field_bytes_def)
qed

subsection \<open>Typed fields\<close>

text \<open>
  A field as a value, its bytes on the wire, and the method that sets it; \<open>set_values\<close> is a
  client that sets a list of fields and stops at the first refusal.
\<close>

datatype field_val =
    FInt32 inttype
  | FUint32 uinttype
  | FInt64 longtype
  | FUint64 ulongtype
  | FFloat floattype
  | FDouble doubletype
  | FString "ubytetype list"
  | FRaw "ubytetype list"
  | FUint32Array "uinttype list"

fun val_type :: "field_val \<Rightarrow> ubytetype" where
  "val_type (FInt32 _) = INT32"
| "val_type (FUint32 _) = UINT32"
| "val_type (FInt64 _) = INT64"
| "val_type (FUint64 _) = UINT64"
| "val_type (FFloat _) = FLOAT"
| "val_type (FDouble _) = DOUBLE"
| "val_type (FString _) = STRING"
| "val_type (FRaw _) = RAW"
| "val_type (FUint32Array _) = UINT32_ARRAY"

fun val_bytes :: "field_val \<Rightarrow> ubytetype list" where
  "val_bytes (FInt32 v) = varint (encodeZigZag32 v)"
| "val_bytes (FUint32 v) = varint v"
| "val_bytes (FInt64 v) = varint (encodeZigZag64 v)"
| "val_bytes (FUint64 v) = varint v"
| "val_bytes (FFloat f) = bytes32 (float_bits f)"
| "val_bytes (FDouble f) = bytes64 (double_bits f)"
| "val_bytes (FString s) = bytes32 (of_nat (length s)) @ s"
| "val_bytes (FRaw s) = bytes32 (of_nat (length s)) @ s"
| "val_bytes (FUint32Array vs) = varint (of_nat (length vs) :: uinttype) @ concat (map varint vs)"

fun set_value :: "uinttype \<Rightarrow> field_val \<Rightarrow> writer \<Rightarrow> (inttype \<times> writer) result" where
  "set_value n (FInt32 v) = setInt32Field n v"
| "set_value n (FUint32 v) = setUint32Field n v"
| "set_value n (FInt64 v) = setInt64Field n v"
| "set_value n (FUint64 v) = setUint64Field n v"
| "set_value n (FFloat f) = setFloatField n f"
| "set_value n (FDouble f) = setDoubleField n f"
| "set_value n (FString s) = setStringField n s"
| "set_value n (FRaw s) = setRawField n s (of_nat (length s))"
| "set_value n (FUint32Array vs) = setUint32ArrayField n vs"

definition encoded_field :: "uinttype \<times> field_val \<Rightarrow> ubytetype list" where
  "encoded_field f = field_bytes (val_type (snd f)) (fst f) (val_bytes (snd f))"

lemma val_bytes_nonempty [simp]: "val_bytes v \<noteq> []"
  by (cases v) auto

context wire_codec
begin

lemma stores_wr: "length (enc v) \<le> unat iLen \<Longrightarrow> stores (\<lambda>buf iLen. wr buf iLen v) (enc v) iLen"
  by (simp add: stores_def wr_enc)

lemma unat_field_size: "unat (szof v + FIELD_HDR_SIZE) = 4 + length (enc v)"
  using unat_szof [of v] enc_short [of v]
  by (simp add: header_consts wire_consts unat_word_ariths)

lemma set_codec_accepted:
  assumes "writer_inv w" and "iFieldNum < FIELD_MAX"
    and "4 + length (enc v) \<le> unat (w_iBufferLen w)"
  shows "\<exists>w'. set_field iType (szof v + FIELD_HDR_SIZE) (\<lambda>buf iLen. wr buf iLen v) iFieldNum w = Inr (0, w') \<and>
     appends w (field_bytes iType iFieldNum (enc v)) w'"
  using assms
  by (intro set_field_accepted stores_wr)
    (auto simp: word_le_nat_alt unat_field_size enc_nonempty)

lemma set_codec_refused:
  assumes "unat (w_iBufferLen w) < 4 + length (enc v)"
  shows "set_field iType (szof v + FIELD_HDR_SIZE) wv iFieldNum w = Inr (- 1, w)"
  using assms by (intro set_field_refused) (simp add: word_less_nat_alt unat_field_size)

end

lemma WriteRaw_WriteString: "WriteRawToBuffer = WriteStringToBuffer"
  by (intro ext) (simp add: WriteRawToBuffer_def WriteStringToBuffer_def)

lemma stores_WriteString:
  assumes len: "4 + length s \<le> unat iLen"
  shows "stores (\<lambda>buf iLen. WriteStringToBuffer buf iLen s (of_nat (length s))) (bytes32 (of_nat (length s)) @ s) iLen"
proof -
  define n where "n = (of_nat (length s) :: uinttype)"
  have small: "4 + length s < 2 ^ 32"
    using len unat_less [of iLen] by simp
  then have n: "unat n = length s"
    by (simp add: n_def unat_of_nat_small)
  have n4: "unat (n + 4) = 4 + length s"
    using n small by (simp add: unat_word_ariths)
  then have le: "\<not> iLen < n + 4"
    using len by (simp add: word_less_nat_alt)
  have n0: "n = 0 \<longleftrightarrow> s = []"
    using n by (metis length_0_conv unat_eq_zero)
  have "WriteStringToBuffer buf iLen s n = Inr (n + 4, bytes32 n @ s @ drop (4 + length s) buf)"
    if "4 + length s \<le> length buf" for buf
  proof (cases "s = []")
    case True
    with that n0 le show ?thesis
      by (simp add: WriteStringToBuffer_def WriteFixed32_eq wire_consts)
  next
    case False
    with that n0 le n show ?thesis
      by (simp add: WriteStringToBuffer_def WriteFixed32_eq wire_consts at_pos_def memcpy_from_def
          memcpy_to_def) (simp add: add.commute)
  qed
  moreover have "n + 4 = of_nat (length (bytes32 n @ s))"
    by (simp add: n_def)
  ultimately show ?thesis
    by (simp add: stores_def n_def)
qed

lemma foldl_sizes:
  "foldl (\<lambda>iSize v. iSize + SizeofUint32 v) acc vs = acc + of_nat (length (concat (map varint vs)))"
  by (induction vs arbitrary: acc) (auto simp: uint32.szof_enc add.assoc)

lemma sizeOfUint32Array_eq:
  "sizeOfUint32Array vs = of_nat (4 + length (val_bytes (FUint32Array vs)))"
  by (simp only: sizeOfUint32Array_def foldl_sizes) (simp add: uint32.szof_enc header_consts wire_consts)

lemma write_array_values_appends:
  assumes "writer_inv w" and "length (concat (map varint vs)) \<le> unat (w_iBufferLen w)"
  shows "\<exists>w'. write_array_values vs w = Inr (0, w') \<and> appends w (concat (map varint vs)) w'"
  using assms
proof (induction vs arbitrary: w)
  case Nil
  then show ?case
    by (auto simp: appends_def)
next
  case (Cons v vs)
  let ?n = "of_nat (length (varint v)) :: uinttype"
  obtain w1 where 1: "emit (\<lambda>buf iLen. WriteUint32ToBuffer buf iLen v) w = Inr (?n, w1)"
    and a1: "appends w (varint v) (WRITE_SPINS ?n w1)"
    using emit_stores [OF Cons.prems(1) uint32.stores_wr [of v "w_iBufferLen w"]] Cons.prems(2) by auto
  have n: "?n \<noteq> 0"
    using uint32.szof_nonzero [of v] by (simp add: uint32.szof_enc)
  have "writer_inv (WRITE_SPINS ?n w1)"
    and "length (concat (map varint vs)) \<le> unat (w_iBufferLen (WRITE_SPINS ?n w1))"
    using a1 Cons.prems(2) by (auto simp: appends_def)
  then obtain w' where "write_array_values vs (WRITE_SPINS ?n w1) = Inr (0, w')"
    and "appends (WRITE_SPINS ?n w1) (concat (map varint vs)) w'"
    using Cons.IH by blast
  with 1 n appends_trans [OF a1] show ?case
    by auto
qed

lemma setUint32ArrayField_accepted:
  assumes inv: "writer_inv w" and num: "n < FIELD_MAX"
    and room: "4 + length (val_bytes (FUint32Array vs)) \<le> unat (w_iBufferLen w)"
  shows "\<exists>w'. setUint32ArrayField n vs w = Inr (0, w') \<and> appends w (encoded_field (n, FUint32Array vs)) w'"
proof -
  let ?h = "bytes32 (makeHeader (arrayType UINT32) n)"
  let ?c = "of_nat (length vs) :: uinttype"
  let ?l = "of_nat (length (varint ?c)) :: uinttype"
  have "sizeOfUint32Array vs \<le> w_iBufferLen w"
    using room unat_less [of "w_iBufferLen w"]
    by (simp add: sizeOfUint32Array_eq word_le_nat_alt unat_of_nat_small del: val_bytes.simps of_nat_add)
  then have fits: "\<not> w_iBufferLen w < sizeOfUint32Array vs"
    by simp
  obtain w1 where 1: "emit (\<lambda>buf iLen. WriteFixed32 buf iLen (makeHeader (arrayType UINT32) n)) w = Inr (4, w1)"
    and a1: "appends w ?h (WRITE_SPINS 4 w1)"
    using emit_stores [OF inv stores_WriteFixed32 [of "makeHeader (arrayType UINT32) n"]] room by auto
  then have inv1: "writer_inv (WRITE_SPINS 4 w1)"
    and room1: "length (val_bytes (FUint32Array vs)) \<le> unat (w_iBufferLen (WRITE_SPINS 4 w1))"
    using room by (auto simp: appends_def)
  obtain w2 where 2: "emit (\<lambda>buf iLen. WriteUint32ToBuffer buf iLen ?c) (WRITE_SPINS 4 w1) = Inr (?l, w2)"
    and a2: "appends (WRITE_SPINS 4 w1) (varint ?c) (WRITE_SPINS ?l w2)"
    using emit_stores [OF inv1 uint32.stores_wr [of ?c "w_iBufferLen (WRITE_SPINS 4 w1)"]] room1 by auto
  have "writer_inv (WRITE_SPINS ?l w2)"
    and "length (concat (map varint vs)) \<le> unat (w_iBufferLen (WRITE_SPINS ?l w2))"
    using a2 room1 by (auto simp: appends_def)
  then obtain w' where 3: "write_array_values vs (WRITE_SPINS ?l w2) = Inr (0, w')"
    and a3: "appends (WRITE_SPINS ?l w2) (concat (map varint vs)) w'"
    using write_array_values_appends by blast
  have "setUint32ArrayField n vs w = Inr (0, w')"
    using num fits 1 2 3 by (simp add: setUint32ArrayField_def not_le)
  moreover have "appends w (encoded_field (n, FUint32Array vs)) w'"
    using appends_trans [OF appends_trans [OF a1 a2] a3]
    by (simp add: encoded_field_def field_bytes_def type_consts)
  ultimately show ?thesis by blast
qed

lemma unat_string_size:
  assumes "8 + length s < 2 ^ 32"
  shows "unat (sizeOfString s) = 4 + length (bytes32 (of_nat (length s)) @ s)"
  using assms by (simp add: sizeOfString_def SizeofString_def header_consts wire_consts
      unat_word_ariths unat_of_nat)

lemma sizeOfRaw_String: "sizeOfRaw (of_nat (length s)) = sizeOfString s"
  by (simp add: sizeOfRaw_def sizeOfString_def SizeofRaw_def SizeofString_def)

lemma set_string_accepted:
  assumes inv: "writer_inv w" and num: "n < FIELD_MAX"
    and room: "8 + length s \<le> unat (w_iBufferLen w)"
  shows "\<exists>w'. set_field iType (sizeOfString s)
        (\<lambda>buf iLen. WriteStringToBuffer buf iLen s (of_nat (length s))) n w = Inr (0, w') \<and>
     appends w (field_bytes iType n (bytes32 (of_nat (length s)) @ s)) w'"
proof -
  have small: "8 + length s < 2 ^ 32"
    using room unat_less [of "w_iBufferLen w"] by simp
  show ?thesis
    using inv num room unat_string_size [OF small]
    by (intro set_field_accepted stores_WriteString) (auto simp: word_le_nat_alt)
qed

lemma set_value_accepted:
  assumes inv: "writer_inv w" and num: "n < FIELD_MAX"
    and room: "length (encoded_field (n, v)) \<le> unat (w_iBufferLen w)"
  shows "\<exists>w'. set_value n v w = Inr (0, w') \<and> appends w (encoded_field (n, v)) w'"
proof -
  have room': "4 + length (val_bytes v) \<le> unat (w_iBufferLen w)"
    using room by (simp add: encoded_field_def field_bytes_def)
  show ?thesis
  proof (cases v)
    case (FInt32 x)
    with int32.set_codec_accepted [OF inv num] room' show ?thesis
      by (simp add: setInt32Field_def sizeOfInt32_def encoded_field_def)
  next
    case (FUint32 x)
    with uint32.set_codec_accepted [OF inv num] room' show ?thesis
      by (simp add: setUint32Field_def sizeOfUint32_def encoded_field_def)
  next
    case (FInt64 x)
    with int64.set_codec_accepted [OF inv num] room' show ?thesis
      by (simp add: setInt64Field_def sizeOfInt64_def encoded_field_def)
  next
    case (FUint64 x)
    with uint64.set_codec_accepted [OF inv num] room' show ?thesis
      by (simp add: setUint64Field_def sizeOfUint64_def encoded_field_def)
  next
    case (FFloat x)
    with float.set_codec_accepted [OF inv num] room' show ?thesis
      by (simp add: setFloatField_def sizeOfFloat_def encoded_field_def)
  next
    case (FDouble x)
    have "\<exists>w'. set_field DOUBLE sizeOfFloat (\<lambda>buf iLen. WriteDoubleToBuffer buf iLen x) n w = Inr (0, w') \<and>
        appends w (field_bytes DOUBLE n (bytes64 (double_bits x))) w'"
      using inv num room' FDouble
      by (intro set_field_accepted double.stores_wr)
        (auto simp: sizeOfFloat_def SizeofFloat_def header_consts wire_consts word_le_nat_alt)
    with FDouble show ?thesis
      by (simp add: setDoubleField_def encoded_field_def)
  next
    case (FString s)
    with set_string_accepted [OF inv num, of s] room' show ?thesis
      by (simp add: setStringField_def WriteStringToBuffer_String_def encoded_field_def)
  next
    case (FRaw s)
    with set_string_accepted [OF inv num, of s] room' show ?thesis
      by (simp add: setRawField_def WriteRaw_WriteString sizeOfRaw_String encoded_field_def)
  next
    case (FUint32Array vs)
    with setUint32ArrayField_accepted [OF inv num, of vs] room' show ?thesis
      by simp
  qed
qed

subsection \<open>Constructing a message\<close>

lemma init_word_appends:
  assumes "writer_inv w" and "4 \<le> unat (w_iBufferLen w)"
  shows "\<exists>w'. init_word v w = Inr w' \<and> appends w (bytes32 v) w'"
proof -
  obtain w1 where "emit (\<lambda>buf iLen. WriteFixed32 buf iLen v) w = Inr (4, w1)"
    and "appends w (bytes32 v) (WRITE_SPINS 4 w1)"
    using emit_stores [OF assms(1) stores_WriteFixed32 [of v]] assms(2) by auto
  then show ?thesis
    by (simp add: init_word_def)
qed

definition message_header :: "uinttype \<Rightarrow> uinttype \<Rightarrow> uinttype \<Rightarrow> ubytetype list" where
  "message_header iVerFlags iMsgId iPayloadLen =
     bytes32 DEEP_MAGIC @ bytes32 iVerFlags @ bytes32 iMsgId @ bytes32 iPayloadLen"

lemma length_message_header [simp]: "length (message_header f i n) = 16"
  by (simp add: message_header_def)

lemma writer_init_appends:
  assumes inv: "writer_inv w" and pos: "w_iWritten w = 0" and room: "16 \<le> unat (w_iBufferLen w)"
  shows "\<exists>w'. writer_init iPayloadLen iMsgId w = Inr w' \<and>
     appends w (message_header VERSION iMsgId iPayloadLen) w'"
proof -
  have w: "w\<lparr>w_piPos := 0\<rparr> = w"
    using inv pos by (auto simp: writer_inv_def split: option.splits)
  note step = init_word_appends [OF appends_inv]
  obtain w1 where 1: "init_word DEEP_MAGIC w = Inr w1" "appends w (bytes32 DEEP_MAGIC) w1"
    using init_word_appends [OF inv, of DEEP_MAGIC] room by auto
  have r1: "4 \<le> unat (w_iBufferLen w1)" "unat (w_iBufferLen w1) = unat (w_iBufferLen w) - 4"
    using appends_room [OF 1(2)] room by simp_all
  obtain w2 where 2: "init_word VERSION w1 = Inr w2" "appends w1 (bytes32 VERSION) w2"
    using step [OF 1(2) r1(1), of VERSION] by auto
  have r2: "4 \<le> unat (w_iBufferLen w2)" "unat (w_iBufferLen w2) = unat (w_iBufferLen w) - 8"
    using appends_room [OF 2(2)] r1 room by simp_all
  obtain w3 where 3: "init_word iMsgId w2 = Inr w3" "appends w2 (bytes32 iMsgId) w3"
    using step [OF 2(2) r2(1), of iMsgId] by auto
  have r3: "4 \<le> unat (w_iBufferLen w3)"
    using appends_room [OF 3(2)] r2 room by simp
  obtain w4 where 4: "init_word iPayloadLen w3 = Inr w4" "appends w3 (bytes32 iPayloadLen) w4"
    using step [OF 3(2) r3, of iPayloadLen] by auto
  have "appends w (message_header VERSION iMsgId iPayloadLen) w4"
    using appends_trans [OF appends_trans [OF appends_trans [OF 1(2) 2(2)] 3(2)] 4(2)]
    by (simp add: message_header_def)
  with 1 2 3 4 show ?thesis
    by (simp add: writer_init_def w)
qed

lemma length_new_bytes [simp]: "length (new_bytes junk n) = unat n"
  by (simp add: new_bytes_def)

lemma writer_new_ok:
  assumes "unat iBufferLen + 16 < 2 ^ 32"
  shows "\<exists>w. writer_new junk iBufferLen iMsgId = Inr w \<and> writer_inv w \<and>
     written_bytes w = message_header VERSION iMsgId iBufferLen \<and>
     w_iBufferLen w = iBufferLen \<and> length (buffer_of w) = 16 + unat iBufferLen"
proof -
  define a where "a = iBufferLen + HEADER_SIZE"
  have a: "unat a = unat iBufferLen + 16"
    using assms by (simp add: a_def header_consts wire_consts unat_word_ariths)
  define w0 where "w0 = \<lparr>w_piBuffer = Some (new_bytes junk a), w_iActualLen = a,
         w_iBufferLen = a, w_iWritten = 0, w_piPos = 0\<rparr>"
  have inv: "writer_inv w0"
    using assms a by (simp add: writer_inv_def w0_def)
  have room: "16 \<le> unat (w_iBufferLen w0)"
    using a by (simp add: w0_def)
  have len: "length (buffer_of w0) = 16 + unat iBufferLen" and empty: "written_bytes w0 = []"
    using a by (simp_all add: w0_def buffer_of_def written_bytes_def)
  obtain w where 1: "writer_init iBufferLen iMsgId w0 = Inr w"
    and 2: "appends w0 (message_header VERSION iMsgId iBufferLen) w"
    using writer_init_appends [OF inv _ room] by (auto simp: w0_def)
  have "unat (w_iBufferLen w) = unat iBufferLen"
    using appends_room [OF 2] a by (simp add: w0_def)
  then have "w_iBufferLen w = iBufferLen"
    by (simp add: word_unat_eq_iff)
  moreover have "writer_new junk iBufferLen iMsgId = Inr w"
    using 1 by (simp add: writer_new_def a_def [symmetric] w0_def [symmetric] Let_def)
  ultimately show ?thesis
    using 2 len empty by (auto simp: appends_def)
qed

fun set_values :: "(uinttype \<times> field_val) list \<Rightarrow> writer \<Rightarrow> (inttype \<times> writer) result" where
  "set_values [] w = Inr (0, w)"
| "set_values ((n, v) # fs) w =
     rbind (set_value n v w) (\<lambda>(r, w'). if r = 0 then set_values fs w' else Inr (r, w'))"

lemma set_values_accepted:
  assumes "writer_inv w" and "\<forall>(n, v) \<in> set fs. n < FIELD_MAX"
    and "length (concat (map encoded_field fs)) \<le> unat (w_iBufferLen w)"
  shows "\<exists>w'. set_values fs w = Inr (0, w') \<and> appends w (concat (map encoded_field fs)) w'"
  using assms
proof (induction fs arbitrary: w)
  case Nil
  then show ?case by (auto simp: appends_def)
next
  case (Cons f fs)
  obtain n v where f: "f = (n, v)" by fastforce
  obtain w1 where 1: "set_value n v w = Inr (0, w1)" and a1: "appends w (encoded_field (n, v)) w1"
    using set_value_accepted [of w n v] Cons.prems f by auto
  have "writer_inv w1" and "length (concat (map encoded_field fs)) \<le> unat (w_iBufferLen w1)"
    using a1 Cons.prems(3) f by (auto simp: appends_def)
  then obtain w' where "set_values fs w1 = Inr (0, w')" and "appends w1 (concat (map encoded_field fs)) w'"
    using Cons.IH Cons.prems(2) by auto
  with 1 appends_trans [OF a1] f show ?case by auto
qed

lemma set_value_refused:
  assumes "n \<ge> FIELD_MAX \<or> unat (w_iBufferLen w) < length (encoded_field (n, v))"
    and "\<forall>f. v \<noteq> FDouble f" and "length (encoded_field (n, v)) < 2 ^ 32"
  shows "set_value n v w = Inr (- 1, w)"
proof (cases "n \<ge> FIELD_MAX")
  case True
  then show ?thesis
    by (cases v) (auto simp: setInt32Field_def setUint32Field_def setInt64Field_def setUint64Field_def
        setFloatField_def setDoubleField_def setStringField_def setRawField_def setUint32ArrayField_def
        set_field_refused)
next
  case False
  with assms have room: "unat (w_iBufferLen w) < 4 + length (val_bytes v)"
    by (simp add: encoded_field_def field_bytes_def)
  show ?thesis
  proof (cases v)
    case (FInt32 x)
    with int32.set_codec_refused room show ?thesis
      by (simp add: setInt32Field_def sizeOfInt32_def)
  next
    case (FUint32 x)
    with uint32.set_codec_refused room show ?thesis
      by (simp add: setUint32Field_def sizeOfUint32_def)
  next
    case (FInt64 x)
    with int64.set_codec_refused room show ?thesis
      by (simp add: setInt64Field_def sizeOfInt64_def)
  next
    case (FUint64 x)
    with uint64.set_codec_refused room show ?thesis
      by (simp add: setUint64Field_def sizeOfUint64_def)
  next
    case (FFloat x)
    with float.set_codec_refused room show ?thesis
      by (simp add: setFloatField_def sizeOfFloat_def)
  next
    case (FDouble x)
    with assms(2) show ?thesis by simp
  next
    case (FString s)
    with room unat_string_size [of s] assms(3) show ?thesis
      by (simp add: setStringField_def set_field_refused word_less_nat_alt encoded_field_def field_bytes_def)
  next
    case (FRaw s)
    with room unat_string_size [of s] assms(3) show ?thesis
      by (simp add: setRawField_def sizeOfRaw_String set_field_refused word_less_nat_alt encoded_field_def field_bytes_def)
  next
    case (FUint32Array vs)
    have "unat (sizeOfUint32Array vs) = 4 + length (val_bytes v)"
      using assms(3) FUint32Array
      by (simp add: sizeOfUint32Array_eq unat_of_nat_small encoded_field_def field_bytes_def del: val_bytes.simps of_nat_add)
    with room FUint32Array show ?thesis
      by (simp add: setUint32ArrayField_def word_less_nat_alt)
  qed
qed

text \<open>The room the guards of the setters ask for: what the field takes, but that of a \<open>float\<close> for a \<open>double\<close>.\<close>

definition guarded_room :: "uinttype \<Rightarrow> field_val \<Rightarrow> nat" where
  "guarded_room n v = (case v of FDouble f \<Rightarrow> unat sizeOfFloat | _ \<Rightarrow> length (encoded_field (n, v)))"

lemma set_value_guard:
  assumes "n \<ge> FIELD_MAX \<or> unat (w_iBufferLen w) < guarded_room n v" "length (encoded_field (n, v)) < 2 ^ 32"
  shows "set_value n v w = Inr (- 1, w)"
proof (cases "\<exists>f. v = FDouble f")
  case True
  then show ?thesis using assms(1) by (auto simp: guarded_room_def setDoubleField_def word_less_nat_alt intro!: set_field_refused)
next
  case False
  then have "guarded_room n v = length (encoded_field (n, v))" by (simp add: guarded_room_def split: field_val.split)
  with set_value_refused [of n w v] False assms show ?thesis by simp
qed

lemma setDoubleField_overrun:
  assumes inv: "writer_inv w" and num: "n < FIELD_MAX"
    and exact: "length (buffer_of w) = unat (w_iWritten w) + unat (w_iBufferLen w)"
    and room: "8 \<le> unat (w_iBufferLen w)" "unat (w_iBufferLen w) < 12"
  shows "setDoubleField n f w = Inl OutOfBounds"
proof -
  let ?h = "makeHeader DOUBLE n"
  obtain w1 where 1: "emit (\<lambda>buf iLen. WriteFixed32 buf iLen ?h) w = Inr (4, w1)"
    and a1: "appends w (bytes32 ?h) (WRITE_SPINS 4 w1)"
    using emit_stores [OF inv stores_WriteFixed32 [of ?h]] room by auto
  define w2 where "w2 = WRITE_SPINS 4 w1"
  obtain buf where buf: "w_piBuffer w2 = Some buf"
    using a1 by (auto simp: appends_def writer_inv_def w2_def split: option.splits)
  have "length buf - w_piPos w2 < 8" and "w_piPos w2 \<le> length buf"
    using a1 exact room appends_pos [OF a1] buf
    by (auto simp: appends_def w2_def [symmetric] buffer_of_def)
  then have "emit (\<lambda>buf iLen. WriteDoubleToBuffer buf iLen f) w2 = Inl OutOfBounds"
    by (simp add: emit_def buf at_pos_def WriteDoubleToBuffer_def WriteFixed64_eq)
  moreover have "\<not> w_iBufferLen w < sizeOfFloat"
    using room by (simp add: sizeOfFloat_def SizeofFloat_def header_consts wire_consts word_less_nat_alt)
  ultimately show ?thesis
    using num 1 by (simp add: setDoubleField_def set_field_def w2_def not_le)
qed

subsection \<open>Flags and field headers\<close>

lemma setFlags_buffer_header:
  "setFlags_buffer (message_header vf i n @ rest) iFlags =
     Inr (0, message_header (vf OR (VERSION OR iFlags)) i n @ rest)"
  by (simp add: setFlags_buffer_def message_header_def at_pos_def wire_consts ReadFixed32_bytes WriteFixed32_eq)

lemma setFlags_accumulates:
  assumes inv: "writer_inv w" and hdr: "written_bytes w = message_header vf i n @ body"
  shows "\<exists>w'. setFlags iFlags w = Inr (0, w') \<and> writer_inv w' \<and>
     written_bytes w' = message_header (vf OR (VERSION OR iFlags)) i n @ body \<and>
     w_iWritten w' = w_iWritten w \<and> w_iBufferLen w' = w_iBufferLen w"
proof -
  obtain buf where buf: "w_piBuffer w = Some buf" and fits: "unat (w_iWritten w) \<le> length buf"
    using inv by (auto simp: writer_inv_def split: option.splits)
  define rest where "rest = body @ drop (unat (w_iWritten w)) buf"
  have "buf = take (unat (w_iWritten w)) buf @ drop (unat (w_iWritten w)) buf"
    by simp
  also have "take (unat (w_iWritten w)) buf = message_header vf i n @ body"
    using hdr buf by (simp add: written_bytes_def buffer_of_def)
  finally have b: "buf = message_header vf i n @ rest"
    by (simp add: rest_def)
  have len: "unat (w_iWritten w) = 16 + length body"
    using written_length [OF inv] hdr by simp
  then have big: "\<not> w_iWritten w < HEADER_SIZE" "w_iWritten w \<noteq> 0"
    by (auto simp: word_less_nat_alt header_consts wire_consts)
  define w' where "w' = w\<lparr>w_piBuffer := Some (message_header (vf OR (VERSION OR iFlags)) i n @ rest)\<rparr>"
  have "setFlags iFlags w = Inr (0, w')"
    using big by (simp add: setFlags_def buf w'_def) (simp add: b setFlags_buffer_header)
  moreover have "writer_inv w'"
    using inv buf b by (simp add: writer_inv_def w'_def)
  moreover have "written_bytes w' = message_header (vf OR (VERSION OR iFlags)) i n @ body"
    using len by (simp add: written_bytes_def buffer_of_def w'_def rest_def)
  ultimately show ?thesis
    by (auto simp: w'_def)
qed

lemma getFlags_header:
  assumes "writer_inv w" and hdr: "written_bytes w = message_header vf i n @ body"
  shows "getFlags w = Inr (0, Some vf)"
proof -
  obtain buf where buf: "w_piBuffer w = Some buf" and fits: "unat (w_iWritten w) \<le> length buf"
    using assms(1) by (auto simp: writer_inv_def split: option.splits)
  have b: "buf = message_header vf i n @ body @ drop (unat (w_iWritten w)) buf"
    using hdr buf by (metis append_assoc append_take_drop_id buffer_of_def option.simps(5) written_bytes_def)
  have "unat (w_iWritten w) = 16 + length body"
    using written_length [OF assms(1)] hdr by simp
  then have big: "\<not> w_iWritten w < HEADER_SIZE" "w_iWritten w \<noteq> 0"
    by (auto simp: word_less_nat_alt header_consts wire_consts)
  have "ReadFixed32 (drop 4 buf) iLen = Inr (4, vf)" for iLen
    by (subst b) (simp add: message_header_def ReadFixed32_bytes wire_consts)
  with big show ?thesis
    by (simp add: getFlags_def buf wire_consts)
qed

lemma getTypeId_makeHeader:
  "getTypeId (makeHeader iType iId) = (iType, iId AND 0x00ffffff)"
proof -
  have m24: "(0x00ffffff :: uinttype) = mask 24" and m8: "(0x000000ff :: uinttype) = mask 8"
    by (simp_all add: mask_eq_exp_minus_1)
  have "ucast (0x000000ff AND makeHeader iType iId) = iType"
    unfolding makeHeader_def m24 m8 by (rule bit_word_eqI) (auto simp: bit_simps)
  moreover have "drop_bit 8 (makeHeader iType iId) AND 0x00ffffff = iId AND 0x00ffffff"
    unfolding makeHeader_def m24
    by (rule bit_word_eqI) (auto simp: bit_simps dest: bit_imp_le_length)
  ultimately show ?thesis
    by (simp add: getTypeId_def)
qed

lemma field_id_mask: "n < FIELD_MAX \<Longrightarrow> n AND 0x00ffffff = n"
proof -
  assume "n < FIELD_MAX"
  then have "unat n < 2 ^ 24"
    by (simp add: FIELD_MAX_def word_less_nat_alt)
  then have "take_bit 24 n = n"
    by (simp add: word_unat_eq_iff unsigned_take_bit_eq take_bit_nat_eq_self)
  then show ?thesis
    by (simp add: take_bit_eq_mask mask_eq_exp_minus_1)
qed

lemma writer_clone_position:
  assumes "writer_inv w" and "unat (w_iActualLen w) \<le> length (buffer_of w)"
  shows "\<exists>c. writer_clone w = Inr c \<and> w_piPos c = length (buffer_of c) \<and>
     w_iWritten c = w_iWritten w \<and> w_iBufferLen c = w_iBufferLen w"
  using assms by (auto simp: writer_clone_def writer_inv_def memcpy_from_def buffer_of_def split: option.splits)

end
