(* ===== verification/EncodeReader.thy ===== *)
theory EncodeReader
  imports EncodeWriter
begin

section \<open>Decoding messages\<close>

text \<open>
  The classes \<open>reader\<close> and \<open>renderReader\<close> of
  \<^verbatim>\<open>src/PLATFORM/src/main/native/cxx/io/EncodeProtocol.h\<close>. The reader keeps one bucket per
  field id; \<open>decodeFields\<close> walks the buffer and fills them, the \<open>get...\<close> methods look them up.
\<close>

subsection \<open>Buckets\<close>

text \<open>
  The union \<open>values\<close>: a scalar occupies its 64 bits, a 32-bit member written over a pointer
  leaves only its low half known, and the three pointer members are told apart by what they
  point to. A \<open>RawPtr\<close> is the memory from the pointer to the end of its allocation. The null
  pointer is \<open>Scalar 0\<close>.
\<close>

datatype value_union =
    Scalar ulongtype
  | LowHalf uinttype
  | RawPtr "ubytetype list"
  | ArrayPtr "uinttype list"
  | VoidPtr ulongtype

definition put32 :: "uinttype \<Rightarrow> value_union \<Rightarrow> value_union" where
  "put32 x v =
     (case v of
        Scalar b \<Rightarrow> Scalar (push_bit 32 (drop_bit 32 b) OR ucast x)
      | _ \<Rightarrow> LowHalf x)"

definition get32 :: "value_union \<Rightarrow> uinttype result" where
  "get32 v = (case v of Scalar b \<Rightarrow> Inr (ucast b) | LowHalf x \<Rightarrow> Inr x | _ \<Rightarrow> Inl PointerBits)"

definition get64 :: "value_union \<Rightarrow> ulongtype result" where
  "get64 v = (case v of Scalar b \<Rightarrow> Inr b | _ \<Rightarrow> Inl PointerBits)"

record fieldBucket =
  fb_iType :: ubytetype
  fb_cValues :: value_union
  fb_iEncodedLen :: uinttype

definition empty_bucket :: fieldBucket where
  "empty_bucket = \<lparr>fb_iType = NIL, fb_cValues = Scalar 0, fb_iEncodedLen = 0\<rparr>"

text \<open>\<open>m_iFields[FIELD_MAX]\<close>, by field id; an id outside the array is a fault where it is used.\<close>

type_synonym buckets = "uinttype \<Rightarrow> fieldBucket"

definition put_bucket :: "uinttype \<Rightarrow> ubytetype \<Rightarrow> value_union \<Rightarrow> uinttype \<Rightarrow> buckets \<Rightarrow> buckets" where
  "put_bucket iId iType v n fs = fs(iId := \<lparr>fb_iType = iType, fb_cValues = v, fb_iEncodedLen = n\<rparr>)"

record reader =
  r_piBuffer :: "ubytetype list option"
  r_iBufferLen :: uinttype
  r_iMsgId :: uinttype
  r_iFields :: buckets
  r_iFlags :: uinttype
  r_bCopyAll :: bool

definition reader_new :: "ubytetype list option \<Rightarrow> uinttype \<Rightarrow> bool \<Rightarrow> reader" where
  "reader_new piBuffer iBufferLen bCopyAll =
     \<lparr>r_piBuffer = piBuffer, r_iBufferLen = iBufferLen, r_iMsgId = 0,
      r_iFields = (\<lambda>_. empty_bucket), r_iFlags = 0, r_bCopyAll = bCopyAll\<rparr>"

text \<open>\<open>reader(iMsgId)\<close>, used by \<open>renderReader\<close>\<close>

definition reader_render :: "uinttype \<Rightarrow> reader" where
  "reader_render iMsgId =
     \<lparr>r_piBuffer = None, r_iBufferLen = 0, r_iMsgId = iMsgId,
      r_iFields = (\<lambda>_. empty_bucket), r_iFlags = FIRST_FLAG OR LAST_FLAG, r_bCopyAll = True\<rparr>"

subsection \<open>Decoding one field\<close>

text \<open>
  The loop over the elements of an array field: \<open>last\<close> is \<open>iArrayRead\<close> after the last call,
  and a failed read ends the loop. The result is \<open>iArrayRead\<close>, \<open>iLen2\<close> and the elements read.
\<close>

fun read_array_values ::
  "nat \<Rightarrow> ubytetype list \<Rightarrow> uinttype \<Rightarrow> uinttype \<Rightarrow> (uinttype \<times> uinttype \<times> uinttype list) result" where
  "read_array_values 0 piArrayPos iLen2 iArrayRead = Inr (iArrayRead, iLen2, [])"
| "read_array_values (Suc k) piArrayPos iLen2 iArrayRead =
     rbind (ReadUint32FromBuffer piArrayPos iLen2) (\<lambda>(n, iValue).
       if n = 0 then Inr (0, iLen2, [])
       else rbind (read_array_values k (drop (unat n) piArrayPos) (iLen2 - n) n)
              (\<lambda>(m, l, vs). Inr (m, l, (case iValue of None \<Rightarrow> 0 | Some v \<Rightarrow> v) # vs)))"

text \<open>
  The case \<open>UINT32_ARRAY\<close>: the count, then the old array of the bucket is deleted, a new one of
  \<open>iCount\<close> zeroes is allocated (the length is an \<open>int\<close>, and a negative one throws) and filled.
  \<open>iRead\<close> keeps its old value if the last read failed.
\<close>

definition decode_array ::
  "ubytetype list \<Rightarrow> uinttype \<Rightarrow> uinttype \<Rightarrow> uinttype \<Rightarrow> buckets \<Rightarrow> (uinttype \<times> buckets) result" where
  "decode_array piPos iLen iRead iId fs =
     rbind (ReadUint32FromBuffer piPos iLen) (\<lambda>(iArrayRead, iCountOut).
       let iCount = (case iCountOut of None \<Rightarrow> 0 | Some c \<Rightarrow> c) in
       if iArrayRead = 0 then
         Inr (iRead, put_bucket iId UINT32_ARRAY (fb_cValues (fs iId)) 0 fs)
       else
         rbind (case fb_cValues (fs iId) of
                  Scalar b \<Rightarrow> if b = 0 then Inr () else Inl InvalidDelete
                | ArrayPtr _ \<Rightarrow> Inr ()
                | _ \<Rightarrow> Inl InvalidDelete) (\<lambda>_.
         if sint iCount < 0 then Inl (Thrown ''bad_array_new_length'')
         else rbind (read_array_values (unat iCount) (drop (unat iArrayRead) piPos)
                      (iLen - iArrayRead) iArrayRead)
                (\<lambda>(iLast, iLen2, vs).
                  Inr (if iLast \<noteq> 0 then iLen - iLen2 else iRead,
                       put_bucket iId UINT32_ARRAY
                         (ArrayPtr (vs @ replicate (unat iCount - length vs) 0)) iCount fs))))"

text \<open>
  One pass of the \<open>switch\<close>. \<open>piPos\<close> is an offset into the buffer, \<open>iRead\<close> the variable of that
  name on entry. \<open>Inl code\<close> leaves \<open>decodeFields\<close> with that return value, \<open>Inr (piPos, iLen,
  iRead, fs)\<close> falls out of the \<open>switch\<close>.
\<close>

definition scalar_case ::
  "nat \<Rightarrow> uinttype \<Rightarrow> ubytetype \<Rightarrow> uinttype \<Rightarrow> buckets \<Rightarrow> ('v \<Rightarrow> value_union \<Rightarrow> value_union) \<Rightarrow> 'v \<Rightarrow>
     (uinttype \<times> 'v option) result \<Rightarrow>
     (inttype + nat \<times> uinttype \<times> uinttype \<times> buckets) result" where
  "scalar_case piPos iLen iType iId fs put zero r =
     rbind r (\<lambda>(iRead, iVal).
       Inr (Inr (piPos, iLen, iRead,
         put_bucket iId iType
           (put (case iVal of None \<Rightarrow> zero | Some v \<Rightarrow> v) (fb_cValues (fs iId))) iRead fs)))"

definition decode_field ::
  "bool \<Rightarrow> ubytetype list \<Rightarrow> nat \<Rightarrow> uinttype \<Rightarrow> uinttype \<Rightarrow> ubytetype \<Rightarrow> uinttype \<Rightarrow> buckets \<Rightarrow>
     (inttype + nat \<times> uinttype \<times> uinttype \<times> buckets) result" where
  "decode_field bCopyAll buf piPos iLen iRead iType iId fs =
     (let p = drop piPos buf in
      if iType = INT32 then
        scalar_case piPos iLen iType iId fs put32 0 (ReadInt32FromBuffer p iLen)
      else if iType = UINT32 then
        scalar_case piPos iLen iType iId fs put32 0 (ReadUint32FromBuffer p iLen)
      else if iType = UINT32_ARRAY then
        rbind (decode_array p iLen iRead iId fs) (\<lambda>(iRead', fs'). Inr (Inr (piPos, iLen, iRead', fs')))
      else if iType = INT64 then
        scalar_case piPos iLen iType iId fs (\<lambda>x _. Scalar x) 0 (ReadInt64FromBuffer p iLen)
      else if iType = UINT64 then
        scalar_case piPos iLen iType iId fs (\<lambda>x _. Scalar x) 0 (ReadUint64FromBuffer p iLen)
      else if iType = FLOAT then
        scalar_case piPos iLen iType iId fs (\<lambda>f. put32 (float_bits f)) (Float32 0) (ReadFloatFromBuffer p iLen)
      else if iType = DOUBLE then
        scalar_case piPos iLen iType iId fs (\<lambda>f _. Scalar (double_bits f)) (Float64 0)
          (ReadDoubleFromBuffer p iLen)
      else if iType = RAW \<or> iType = STRING then
        rbind (ReadFixed32 p iLen) (\<lambda>(n, iRawLen).
          if n = 0 then Inr (Inl (- 4))
          else let piPos' = piPos + unat n; iLen' = iLen - n in
            rbind (if bCopyAll then memcpy_from (drop piPos' buf) (unat iRawLen)
                   else Inr (drop piPos' buf))
              (\<lambda>raw. Inr (Inr (piPos', iLen', iRawLen, put_bucket iId iType (RawPtr raw) iRawLen fs))))
      else if iType = BUNDLE then
        (if FIELD_BUNDLE_ID \<noteq> iId then Inr (Inl (- 2))
         else if unat HEADER_SIZE + unat FIELD_HDR_SIZE \<noteq> piPos then Inr (Inl (- 4))
         else Inr (Inr (piPos, iLen, iLen, put_bucket iId iType (RawPtr p) iLen fs)))
      else Inr (Inl (- 1)))"

subsection \<open>Decoding a message\<close>

lemma decode_field_pos:
  "decode_field bCopyAll buf piPos iLen iRead iType iId fs = Inr (Inr (piPos', r)) \<Longrightarrow> piPos \<le> piPos'"
  by (auto simp: decode_field_def scalar_case_def Let_def result_simps split: if_splits)

lemma ReadFixed32_Inr: "ReadFixed32 buf iLen = Inr r \<Longrightarrow> 4 \<le> length buf \<and> fst r = FIXED32_SIZE"
  by (auto simp: ReadFixed32_def split: list.splits)

function decode_loop ::
  "bool \<Rightarrow> ubytetype list \<Rightarrow> nat \<Rightarrow> uinttype \<Rightarrow> buckets \<Rightarrow> (inttype \<times> buckets) result" where
  "decode_loop bCopyAll buf piPos iLen fs =
     (if iLen = 0 then Inr (0, fs)
      else rbind (ReadFixed32 (drop piPos buf) iLen) (\<lambda>(iRead, iFieldHdr).
        if iRead = 0 then Inl Aborted
        else let (iType, iId) = getTypeId iFieldHdr in
          if FIELD_MAX \<le> iId then Inr (- 2, fs)
          else rbind (decode_field bCopyAll buf (piPos + unat iRead) (iLen - iRead) iRead iType iId fs)
            (\<lambda>r. case r of
               Inl code \<Rightarrow> Inr (code, fs)
             | Inr (piPos', iLen', iRead', fs') \<Rightarrow>
                 if iRead' = 0 \<and> iType \<noteq> RAW \<and> iType \<noteq> STRING then Inr (- 5, fs')
                 else decode_loop bCopyAll buf (piPos' + unat iRead') (iLen' - iRead') fs')))"
  by pat_completeness auto
termination
  by (relation "measure (\<lambda>(bCopyAll, buf, piPos, iLen, fs). length buf - piPos)")
    (auto dest!: ReadFixed32_Inr decode_field_pos simp: wire_consts)

declare decode_loop.simps [simp del]

text \<open>
  \<open>decodeFields\<close>: the four header words, then the loop. The test of the payload length is a
  32-bit sum, and \<open>m_iBufferLen\<close> is set to it.
\<close>

definition decodeFields :: "reader \<Rightarrow> (inttype \<times> reader) result" where
  "decodeFields rd =
     (case r_piBuffer rd of
        None \<Rightarrow> Inr (0, rd)
      | Some buf \<Rightarrow>
          if r_iBufferLen rd = 0 then Inr (0, rd)
          else
            rbind (ReadFixed32 buf (r_iBufferLen rd)) (\<lambda>(n1, iMagic).
            if n1 = 0 \<or> DEEP_MAGIC \<noteq> iMagic then Inl Aborted
            else rbind (ReadFixed32 (drop 4 buf) (r_iBufferLen rd - 4)) (\<lambda>(n2, iVer).
            if n2 = 0 \<or> VERSION \<noteq> VERSION AND iVer then Inl Aborted
            else rbind (ReadFixed32 (drop 8 buf) (r_iBufferLen rd - 8)) (\<lambda>(n3, iMsgId).
            if n3 = 0 then Inl Aborted
            else rbind (ReadFixed32 (drop 12 buf) (r_iBufferLen rd - 12)) (\<lambda>(n4, iPayloadLen).
            if n4 = 0 then Inl Aborted
            else if iPayloadLen + HEADER_SIZE > r_iBufferLen rd then Inl Aborted
            else rbind (decode_loop (r_bCopyAll rd) buf 16 iPayloadLen (r_iFields rd)) (\<lambda>(code, fs).
              Inr (code, rd\<lparr>r_iFlags := iVer AND 0x0000ff00, r_iMsgId := iMsgId,
                            r_iBufferLen := iPayloadLen + HEADER_SIZE, r_iFields := fs\<rparr>)))))))"

subsection \<open>Looking fields up\<close>

definition getMsgId :: "reader \<Rightarrow> uinttype" where
  "getMsgId rd = r_iMsgId rd"

definition isReply :: "reader \<Rightarrow> bool" where
  "isReply rd \<longleftrightarrow> REPLY_FLAG AND r_iFlags rd \<noteq> 0"

definition isFirst :: "reader \<Rightarrow> bool" where
  "isFirst rd \<longleftrightarrow> FIRST_FLAG AND r_iFlags rd \<noteq> 0"

definition isLast :: "reader \<Rightarrow> bool" where
  "isLast rd \<longleftrightarrow> LAST_FLAG AND r_iFlags rd \<noteq> 0"

definition toBlock :: "reader \<Rightarrow> bool" where
  "toBlock rd \<longleftrightarrow> BLOCK_FLAG AND r_iFlags rd \<noteq> 0"

definition getEncodedLength :: "reader \<Rightarrow> uinttype" where
  "getEncodedLength rd = r_iBufferLen rd"

text \<open>
  The scalar getters share the three tests; the result is the return code and the out
  parameter if it is assigned.
\<close>

definition get_scalar ::
  "ubytetype \<Rightarrow> (value_union \<Rightarrow> 'v result) \<Rightarrow> uinttype \<Rightarrow> reader \<Rightarrow> (inttype \<times> 'v option) result" where
  "get_scalar iType get iId rd =
     (if FIELD_MAX \<le> iId then Inr (- 1, None)
      else if iType \<noteq> fb_iType (r_iFields rd iId) then Inr (- 2, None)
      else if fb_iEncodedLen (r_iFields rd iId) = 0 then Inr (- 3, None)
      else rbind (get (fb_cValues (r_iFields rd iId))) (\<lambda>v. Inr (0, Some v)))"

definition getInt32Field :: "uinttype \<Rightarrow> reader \<Rightarrow> (inttype \<times> inttype option) result" where
  "getInt32Field = get_scalar INT32 get32"

definition getUint32Field :: "uinttype \<Rightarrow> reader \<Rightarrow> (inttype \<times> uinttype option) result" where
  "getUint32Field = get_scalar UINT32 get32"

definition getInt64Field :: "uinttype \<Rightarrow> reader \<Rightarrow> (inttype \<times> longtype option) result" where
  "getInt64Field = get_scalar INT64 get64"

definition getUint64Field :: "uinttype \<Rightarrow> reader \<Rightarrow> (inttype \<times> ulongtype option) result" where
  "getUint64Field = get_scalar UINT64 get64"

definition getFloatField :: "uinttype \<Rightarrow> reader \<Rightarrow> (inttype \<times> floattype option) result" where
  "getFloatField = get_scalar FLOAT (\<lambda>v. rbind (get32 v) (\<lambda>b. Inr (Float32 b)))"

definition getDoubleField :: "uinttype \<Rightarrow> reader \<Rightarrow> (inttype \<times> doubletype option) result" where
  "getDoubleField = get_scalar DOUBLE (\<lambda>v. rbind (get64 v) (\<lambda>b. Inr (Float64 b)))"

text \<open>The bytes behind the raw pointer of a bucket.\<close>

definition raw_bytes :: "value_union \<Rightarrow> uinttype \<Rightarrow> ubytetype list result" where
  "raw_bytes v n = (case v of RawPtr mem \<Rightarrow> memcpy_from mem (unat n) | _ \<Rightarrow> Inl NullDeref)"

definition getStringField :: "uinttype \<Rightarrow> reader \<Rightarrow> (inttype \<times> ubytetype list option) result" where
  "getStringField iId rd =
     (if FIELD_MAX \<le> iId then Inr (- 1, None)
      else if STRING \<noteq> fb_iType (r_iFields rd iId) then Inr (- 2, None)
      else if fb_iEncodedLen (r_iFields rd iId) = 0 then Inr (0, Some [])
      else rbind (raw_bytes (fb_cValues (r_iFields rd iId)) (fb_iEncodedLen (r_iFields rd iId)))
             (\<lambda>bs. Inr (0, Some bs)))"

text \<open>
  \<open>getRawFieldRef\<close> and \<open>getStringFieldRef\<close> return the pointer itself (\<open>Scalar 0\<close> for an empty
  value) and the size; nothing is dereferenced.
\<close>

definition get_ref :: "ubytetype \<Rightarrow> uinttype \<Rightarrow> reader \<Rightarrow> inttype \<times> (value_union \<times> uinttype) option" where
  "get_ref iType iId rd =
     (if FIELD_MAX \<le> iId then (- 1, None)
      else if iType \<noteq> fb_iType (r_iFields rd iId) then (- 2, None)
      else (0, Some (if fb_iEncodedLen (r_iFields rd iId) = 0 then Scalar 0
                     else fb_cValues (r_iFields rd iId), fb_iEncodedLen (r_iFields rd iId))))"

definition getRawFieldRef :: "uinttype \<Rightarrow> reader \<Rightarrow> inttype \<times> (value_union \<times> uinttype) option" where
  "getRawFieldRef = get_ref RAW"

definition getStringFieldRef :: "uinttype \<Rightarrow> reader \<Rightarrow> inttype \<times> (value_union \<times> uinttype) option" where
  "getStringFieldRef = get_ref STRING"

text \<open>\<open>getUint32ArrayField\<close> hands the array over and empties the bucket.\<close>

definition getUint32ArrayField :: "uinttype \<Rightarrow> reader \<Rightarrow> inttype \<times> value_union option \<times> reader" where
  "getUint32ArrayField iId rd =
     (if FIELD_MAX \<le> iId then (- 1, None, rd)
      else if UINT32_ARRAY \<noteq> fb_iType (r_iFields rd iId) then (- 2, None, rd)
      else (0, Some (fb_cValues (r_iFields rd iId)),
            rd\<lparr>r_iFields := put_bucket iId UINT32_ARRAY (Scalar 0) 0 (r_iFields rd)\<rparr>))"

definition getBundleBuffer :: "reader \<Rightarrow> inttype \<times> (value_union \<times> uinttype) option" where
  "getBundleBuffer rd =
     (let b = r_iFields rd FIELD_BUNDLE_ID in
      if BUNDLE \<noteq> fb_iType b then (- 2, None)
      else (0, Some (if fb_iEncodedLen b = 0 then Scalar 0 else fb_cValues b, fb_iEncodedLen b)))"

definition getVoidPtr :: "uinttype \<Rightarrow> reader \<Rightarrow> inttype \<times> value_union option" where
  "getVoidPtr iId rd =
     (if FIELD_MAX \<le> iId then (- 1, None)
      else if VOIDPTR \<noteq> fb_iType (r_iFields rd iId) then (- 2, None)
      else (0, Some (fb_cValues (r_iFields rd iId))))"

subsection \<open>Copying a reader\<close>

text \<open>
  In the copy constructor the loop that copies an array field declares its own \<open>i\<close>, so its
  bound is the encoded length of field \<open>i\<close> for the running \<open>i\<close>, not of the field being copied.
  \<open>operator[]\<close> of \<open>array\<close> throws when the index is out of range.
\<close>

function copy_array_loop :: "buckets \<Rightarrow> uinttype list \<Rightarrow> nat \<Rightarrow> uinttype list \<Rightarrow> uinttype list result" where
  "copy_array_loop fs old i new =
     (if unat FIELD_MAX \<le> i then Inl OutOfBounds
      else if i < unat (fb_iEncodedLen (fs (of_nat i))) then
        (if i < length new \<and> i < length old
         then copy_array_loop fs old (Suc i) (new[i := old ! i])
         else Inl (Thrown ''ArrayIndexOutOfBoundsException''))
      else Inr new)"
  by pat_completeness auto
termination
  by (relation "measure (\<lambda>(fs, old, i, new). unat FIELD_MAX - i)") auto

declare copy_array_loop.simps [simp del]

text \<open>The union of a bucket under construction is not initialised: \<open>junk\<close>.\<close>

definition copy_bucket :: "value_union \<Rightarrow> buckets \<Rightarrow> fieldBucket \<Rightarrow> fieldBucket result" where
  "copy_bucket junk fs b =
     (let t = fb_iType b; n = fb_iEncodedLen b in
      if t = INT32 \<or> t = UINT32 \<or> t = FLOAT then
        rbind (get32 (fb_cValues b)) (\<lambda>x. Inr \<lparr>fb_iType = t, fb_cValues = put32 x junk, fb_iEncodedLen = n\<rparr>)
      else if t = INT64 \<or> t = UINT64 \<or> t = DOUBLE then
        rbind (get64 (fb_cValues b)) (\<lambda>x. Inr \<lparr>fb_iType = t, fb_cValues = Scalar x, fb_iEncodedLen = n\<rparr>)
      else if t = UINT32_ARRAY then
        if sint n < 0 then Inl (Thrown ''bad_array_new_length'')
        else
          rbind (case fb_cValues b of ArrayPtr old \<Rightarrow> copy_array_loop fs old 0 (replicate (unat n) 0)
                 | _ \<Rightarrow> if fb_iEncodedLen (fs 0) = 0 then Inr (replicate (unat n) 0) else Inl NullDeref)
            (\<lambda>new. Inr \<lparr>fb_iType = t, fb_cValues = ArrayPtr new, fb_iEncodedLen = n\<rparr>)
      else if t = RAW \<or> t = STRING \<or> t = BUNDLE then
        rbind (raw_bytes (fb_cValues b) n)
          (\<lambda>bs. Inr \<lparr>fb_iType = t, fb_cValues = RawPtr bs, fb_iEncodedLen = n\<rparr>)
      else Inr \<lparr>fb_iType = t, fb_cValues = junk, fb_iEncodedLen = n\<rparr>)"

text \<open>The loop over the field ids, in order; \<open>m_iMsgId\<close> and \<open>m_iFlags\<close> are set to \<open>0\<close>.\<close>

fun copy_buckets :: "value_union \<Rightarrow> buckets \<Rightarrow> uinttype list \<Rightarrow> buckets \<Rightarrow> buckets result" where
  "copy_buckets junk fs [] acc = Inr acc"
| "copy_buckets junk fs (i # is) acc =
     rbind (copy_bucket junk fs (fs i)) (\<lambda>b. copy_buckets junk fs is (acc(i := b)))"

definition reader_copy :: "value_union \<Rightarrow> reader \<Rightarrow> reader result" where
  "reader_copy junk cReader =
     rbind (copy_buckets junk (r_iFields cReader) (map of_nat [0..<unat FIELD_MAX]) (\<lambda>_. empty_bucket))
       (\<lambda>fs. Inr \<lparr>r_piBuffer = None, r_iBufferLen = r_iBufferLen cReader, r_iMsgId = 0,
                   r_iFields = fs, r_iFlags = 0, r_bCopyAll = True\<rparr>)"

subsection \<open>Rendering a reader without a buffer\<close>

record renderReader =
  rr_pcReader :: "reader option"

definition renderReader_new :: "uinttype \<Rightarrow> renderReader" where
  "renderReader_new iMsgId = \<lparr>rr_pcReader = Some (reader_render iMsgId)\<rparr>"

definition mutableReader :: "renderReader \<Rightarrow> reader option \<times> renderReader" where
  "mutableReader rr = (rr_pcReader rr, rr\<lparr>rr_pcReader := None\<rparr>)"

definition render_field ::
  "ubytetype \<Rightarrow> (value_union \<Rightarrow> value_union) \<Rightarrow> uinttype \<Rightarrow> uinttype \<Rightarrow> renderReader \<Rightarrow> inttype \<times> renderReader" where
  "render_field iType put n iFieldNum rr =
     (case rr_pcReader rr of
        None \<Rightarrow> (- 1, rr)
      | Some rd \<Rightarrow>
          if FIELD_MAX \<le> iFieldNum then (- 2, rr)
          else (0, rr\<lparr>rr_pcReader :=
                 Some (rd\<lparr>r_iFields := put_bucket iFieldNum iType
                        (put (fb_cValues (r_iFields rd iFieldNum))) n (r_iFields rd)\<rparr>)\<rparr>))"

definition render_setInt32Field :: "uinttype \<Rightarrow> inttype \<Rightarrow> renderReader \<Rightarrow> inttype \<times> renderReader" where
  "render_setInt32Field iFieldNum iValue = render_field INT32 (put32 iValue) 4 iFieldNum"

definition render_setUint32Field :: "uinttype \<Rightarrow> uinttype \<Rightarrow> renderReader \<Rightarrow> inttype \<times> renderReader" where
  "render_setUint32Field iFieldNum iValue = render_field UINT32 (put32 iValue) 4 iFieldNum"

definition render_setInt64Field :: "uinttype \<Rightarrow> longtype \<Rightarrow> renderReader \<Rightarrow> inttype \<times> renderReader" where
  "render_setInt64Field iFieldNum iValue = render_field INT64 (\<lambda>_. Scalar iValue) 8 iFieldNum"

definition render_setUint64Field :: "uinttype \<Rightarrow> ulongtype \<Rightarrow> renderReader \<Rightarrow> inttype \<times> renderReader" where
  "render_setUint64Field iFieldNum iValue = render_field UINT64 (\<lambda>_. Scalar iValue) 8 iFieldNum"

definition render_setFloatField :: "uinttype \<Rightarrow> floattype \<Rightarrow> renderReader \<Rightarrow> inttype \<times> renderReader" where
  "render_setFloatField iFieldNum fValue = render_field FLOAT (put32 (float_bits fValue)) 4 iFieldNum"

definition render_setDoubleField :: "uinttype \<Rightarrow> doubletype \<Rightarrow> renderReader \<Rightarrow> inttype \<times> renderReader" where
  "render_setDoubleField iFieldNum fValue = render_field DOUBLE (\<lambda>_. Scalar (double_bits fValue)) 8 iFieldNum"

definition render_setVoidPtr :: "uinttype \<Rightarrow> ulongtype \<Rightarrow> renderReader \<Rightarrow> inttype \<times> renderReader" where
  "render_setVoidPtr iFieldNum pPtr = render_field VOIDPTR (\<lambda>_. VoidPtr pPtr) 8 iFieldNum"

text \<open>The copy of \<open>iRawLen\<close> bytes from \<open>piRaw\<close> into a fresh block.\<close>

definition render_setRawField ::
  "uinttype \<Rightarrow> ubytetype list \<Rightarrow> uinttype \<Rightarrow> renderReader \<Rightarrow> (inttype \<times> renderReader) result" where
  "render_setRawField iFieldNum piRaw iRawLen rr =
     (case rr_pcReader rr of
        None \<Rightarrow> Inr (- 1, rr)
      | Some rd \<Rightarrow>
          if FIELD_MAX \<le> iFieldNum then Inr (- 2, rr)
          else rbind (memcpy_from piRaw (unat iRawLen))
                 (\<lambda>bs. Inr (render_field RAW (\<lambda>_. RawPtr bs) iRawLen iFieldNum rr)))"

text \<open>
  \<open>setStringField\<close> stores the type after \<open>setRawField\<close> whatever that returned: through a null
  reader or past the end of \<open>m_iFields\<close> where it refused.
\<close>

definition render_setStringField ::
  "uinttype \<Rightarrow> ubytetype list \<Rightarrow> renderReader \<Rightarrow> (inttype \<times> renderReader) result" where
  "render_setStringField iFieldNum cValue rr =
     rbind (render_setRawField iFieldNum cValue (of_nat (length cValue)) rr) (\<lambda>(iRetVal, rr').
       case rr_pcReader rr' of
         None \<Rightarrow> Inl NullDeref
       | Some rd \<Rightarrow>
           if FIELD_MAX \<le> iFieldNum then Inl OutOfBounds
           else Inr (iRetVal, rr'\<lparr>rr_pcReader :=
                  Some (rd\<lparr>r_iFields := (r_iFields rd)(iFieldNum :=
                        (r_iFields rd iFieldNum)\<lparr>fb_iType := STRING\<rparr>)\<rparr>)\<rparr>))"

subsection \<open>Decoding what a writer encoded\<close>

text \<open>A bucket that holds a value, as the getters of its type see it.\<close>

fun holds_field :: "fieldBucket \<Rightarrow> field_val \<Rightarrow> bool" where
  "holds_field b (FInt32 x) \<longleftrightarrow> fb_iType b = INT32 \<and> fb_iEncodedLen b \<noteq> 0 \<and> get32 (fb_cValues b) = Inr x"
| "holds_field b (FUint32 x) \<longleftrightarrow> fb_iType b = UINT32 \<and> fb_iEncodedLen b \<noteq> 0 \<and> get32 (fb_cValues b) = Inr x"
| "holds_field b (FInt64 x) \<longleftrightarrow> fb_iType b = INT64 \<and> fb_iEncodedLen b \<noteq> 0 \<and> get64 (fb_cValues b) = Inr x"
| "holds_field b (FUint64 x) \<longleftrightarrow> fb_iType b = UINT64 \<and> fb_iEncodedLen b \<noteq> 0 \<and> get64 (fb_cValues b) = Inr x"
| "holds_field b (FFloat f) \<longleftrightarrow>
     fb_iType b = FLOAT \<and> fb_iEncodedLen b \<noteq> 0 \<and> get32 (fb_cValues b) = Inr (float_bits f)"
| "holds_field b (FDouble f) \<longleftrightarrow>
     fb_iType b = DOUBLE \<and> fb_iEncodedLen b \<noteq> 0 \<and> get64 (fb_cValues b) = Inr (double_bits f)"
| "holds_field b (FString s) \<longleftrightarrow>
     fb_iType b = STRING \<and> unat (fb_iEncodedLen b) = length s \<and>
     raw_bytes (fb_cValues b) (fb_iEncodedLen b) = Inr s"
| "holds_field b (FRaw s) \<longleftrightarrow>
     fb_iType b = RAW \<and> unat (fb_iEncodedLen b) = length s \<and>
     raw_bytes (fb_cValues b) (fb_iEncodedLen b) = Inr s"
| "holds_field b (FUint32Array vs) \<longleftrightarrow>
     fb_iType b = UINT32_ARRAY \<and> unat (fb_iEncodedLen b) = length vs \<and> fb_cValues b = ArrayPtr vs"

fun wf_val :: "field_val \<Rightarrow> bool" where
  "wf_val (FUint32Array vs) \<longleftrightarrow> length vs < 2 ^ 31"
| "wf_val _ \<longleftrightarrow> True"

lemma put32_get32 [simp]: "get32 (put32 x (Scalar b)) = Inr x"
proof -
  have "ucast (push_bit 32 (drop_bit 32 b) OR ucast x :: ulongtype) = x"
    by (rule bit_word_eqI) (auto simp: bit_simps)
  then show ?thesis
    by (simp add: get32_def put32_def)
qed

lemma of_nat_wire_len: "of_nat (length bs) \<noteq> (0 :: uinttype)" if "bs \<noteq> []" "length bs \<le> 10"
  using that of_nat_eq_0_small [of "length bs", where 'a = 32] by simp

text \<open>What one pass of the switch does on an encoded value.\<close>

definition decodes :: "bool \<Rightarrow> ubytetype list \<Rightarrow> nat \<Rightarrow> uinttype \<Rightarrow> uinttype \<Rightarrow> field_val \<Rightarrow> buckets \<Rightarrow> bool" where
  "decodes cp buf pos iLen iId v fs \<longleftrightarrow>
     (\<exists>pos' iLen' iRead' b.
        decode_field cp buf pos iLen FIXED32_SIZE (val_type v) iId fs = Inr (Inr (pos', iLen', iRead', fs(iId := b))) \<and>
        holds_field b v \<and>
        pos' + unat iRead' = pos + length (val_bytes v) \<and>
        iLen' - iRead' = iLen - of_nat (length (val_bytes v)) \<and>
        (iRead' = 0 \<longrightarrow> val_type v = RAW \<or> val_type v = STRING))"

lemma decodesI:
  assumes "decode_field cp buf pos iLen FIXED32_SIZE (val_type v) iId fs = Inr (Inr (pos', iLen', iRead', fs(iId := b)))"
    and "holds_field b v" and "pos' + unat iRead' = pos + length (val_bytes v)"
    and "iLen' - iRead' = iLen - of_nat (length (val_bytes v))"
    and "iRead' = 0 \<longrightarrow> val_type v = RAW \<or> val_type v = STRING"
  shows "decodes cp buf pos iLen iId v fs"
  using assms unfolding decodes_def by blast

lemma decodes_scalar:
  assumes df: "decode_field cp buf pos iLen FIXED32_SIZE (val_type v) iId fs =
      scalar_case pos iLen (val_type v) iId fs put zero (Inr (of_nat (length (val_bytes v)), Some x))"
    and short: "length (val_bytes v) \<le> 10"
    and holds: "\<And>n. n \<noteq> 0 \<Longrightarrow> holds_field \<lparr>fb_iType = val_type v, fb_cValues = put x (fb_cValues (fs iId)),
        fb_iEncodedLen = n\<rparr> v"
  shows "decodes cp buf pos iLen iId v fs"
proof -
  let ?n = "of_nat (length (val_bytes v)) :: uinttype"
  have n: "?n \<noteq> 0" "unat ?n = length (val_bytes v)"
    using short of_nat_wire_len [of "val_bytes v"] by (simp_all add: unat_of_nat_small)
  let ?b = "\<lparr>fb_iType = val_type v, fb_cValues = put x (fb_cValues (fs iId)), fb_iEncodedLen = ?n\<rparr>"
  have "decode_field cp buf pos iLen FIXED32_SIZE (val_type v) iId fs = Inr (Inr (pos, iLen, ?n, fs(iId := ?b)))"
    by (simp add: df scalar_case_def put_bucket_def)
  from this holds [OF n(1)] show ?thesis
    by (rule decodesI) (simp_all add: n)
qed

lemma read_array_values_varints:
  assumes "length (concat (map varint vs)) \<le> unat iLen2"
  shows "\<exists>m. read_array_values (length vs) (concat (map varint vs) @ rest) iLen2 iArrayRead =
     Inr (m, iLen2 - of_nat (length (concat (map varint vs))), vs) \<and> (iArrayRead \<noteq> 0 \<longrightarrow> m \<noteq> 0)"
  using assms
proof (induction vs arbitrary: iLen2 iArrayRead)
  case Nil
  then show ?case by simp
next
  case (Cons v vs)
  let ?n = "of_nat (length (varint v)) :: uinttype"
  have n: "?n \<noteq> 0" "unat ?n = length (varint v)"
    using length_varint32 [of v] of_nat_wire_len [of "varint v"] by (simp_all add: unat_of_nat_small)
  have rd: "ReadUint32FromBuffer (varint v @ concat (map varint vs) @ rest) iLen2 = Inr (?n, Some v)"
    using Cons.prems by (intro uint32.rd_enc) simp
  have le: "?n \<le> iLen2"
    using Cons.prems n by (simp add: word_le_nat_alt)
  have "length (concat (map varint vs)) \<le> unat (iLen2 - ?n)"
    using Cons.prems n unat_sub [OF le] by simp
  from Cons.IH [OF this, of ?n] obtain m where
    "read_array_values (length vs) (concat (map varint vs) @ rest) (iLen2 - ?n) ?n =
       Inr (m, iLen2 - ?n - of_nat (length (concat (map varint vs))), vs)" "m \<noteq> 0"
    using n by auto
  with rd n show ?case
    by (simp add: algebra_simps)
qed

lemma decodes_array:
  assumes at: "drop pos buf = val_bytes (FUint32Array vs) @ rest"
    and room: "length (val_bytes (FUint32Array vs)) \<le> unat iLen"
    and fresh: "fb_cValues (fs iId) = Scalar 0" and wf: "wf_val (FUint32Array vs)"
  shows "decodes cp buf pos iLen iId (FUint32Array vs) fs"
proof -
  let ?c = "of_nat (length vs) :: uinttype"
  let ?n = "of_nat (length (varint ?c)) :: uinttype"
  let ?all = "val_bytes (FUint32Array vs)"
  have n: "?n \<noteq> 0" "unat ?n = length (varint ?c)"
    using length_varint32 [of ?c] of_nat_wire_len [of "varint ?c"] by (simp_all add: unat_of_nat_small)
  have c: "unat ?c = length vs" "0 \<le> sint ?c"
    using wf by (simp_all add: unat_of_nat_small sint_uint signed_take_bit_int_eq_self_iff uint_nat bit_iff_odd)
  have rd: "ReadUint32FromBuffer (varint ?c @ concat (map varint vs) @ rest) iLen = Inr (?n, Some ?c)"
    using room by (intro uint32.rd_enc) simp
  have le: "?n \<le> iLen"
    using room n by (simp add: word_le_nat_alt)
  have "length (concat (map varint vs)) \<le> unat (iLen - ?n)"
    using room n unat_sub [OF le] by simp
  then obtain m where "read_array_values (length vs) (concat (map varint vs) @ rest) (iLen - ?n) ?n =
       Inr (m, iLen - ?n - of_nat (length (concat (map varint vs))), vs)" "m \<noteq> 0"
    using read_array_values_varints n by blast
  with rd n c fresh have dec: "decode_array (drop pos buf) iLen FIXED32_SIZE iId fs =
      Inr (of_nat (length ?all), put_bucket iId UINT32_ARRAY (ArrayPtr vs) ?c fs)"
    by (simp add: at decode_array_def not_less Let_def)
  have df: "decode_field cp buf pos iLen FIXED32_SIZE UINT32_ARRAY iId fs =
      Inr (Inr (pos, iLen, of_nat (length ?all),
        fs(iId := \<lparr>fb_iType = UINT32_ARRAY, fb_cValues = ArrayPtr vs, fb_iEncodedLen = ?c\<rparr>)))"
    using dec by (simp add: decode_field_def put_bucket_def type_consts Let_def)
  have a: "unat (of_nat (length ?all) :: uinttype) = length ?all"
    using room unat_less [of iLen] by (intro unat_of_nat_small) (simp del: val_bytes.simps)
  moreover have "(of_nat (length ?all) :: uinttype) \<noteq> 0"
    using a by (metis length_0_conv unat_0 val_bytes_nonempty)
  ultimately show ?thesis
    using c df by (intro decodesI) (auto simp del: val_bytes.simps)
qed

lemma decodes_blob:
  assumes at: "drop pos buf = bytes32 (of_nat (length s)) @ s @ rest"
    and room: "4 + length s \<le> unat iLen" and v: "v = FRaw s \<or> v = FString s"
  shows "decodes cp buf pos iLen iId v fs"
proof -
  let ?n = "of_nat (length s) :: uinttype"
  have n: "unat ?n = length s"
    using room unat_less [of iLen] by (intro unat_of_nat_small) simp
  have vb: "val_bytes v = bytes32 ?n @ s" and vt: "val_type v = RAW \<or> val_type v = STRING"
    using v by auto
  have at': "drop (pos + 4) buf = s @ rest"
    using at by (metis add.commute append_eq_conv_conj drop_drop length_bytes32)
  define raw where "raw = (if cp then s else s @ rest)"
  have raw: "(if cp then memcpy_from (drop (pos + 4) buf) (unat ?n) else Inr (drop (pos + 4) buf)) = Inr raw"
    using n by (simp add: at' memcpy_from_def raw_def)
  have df: "decode_field cp buf pos iLen FIXED32_SIZE (val_type v) iId fs =
      Inr (Inr (pos + 4, iLen - 4, ?n,
        fs(iId := \<lparr>fb_iType = val_type v, fb_cValues = RawPtr raw, fb_iEncodedLen = ?n\<rparr>)))"
    using vt raw at
    by (auto simp: decode_field_def put_bucket_def type_consts Let_def ReadFixed32_bytes wire_consts)
  have "holds_field \<lparr>fb_iType = val_type v, fb_cValues = RawPtr raw, fb_iEncodedLen = ?n\<rparr> v"
    using v n by (auto simp: raw_bytes_def raw_def memcpy_from_def)
  from df this show ?thesis
    by (rule decodesI) (use vt n in \<open>simp_all add: vb\<close>)
qed

lemma decodes_value:
  assumes at: "drop pos buf = val_bytes v @ rest" and room: "length (val_bytes v) \<le> unat iLen"
    and fresh: "fb_cValues (fs iId) = Scalar 0" and wf: "wf_val v"
  shows "decodes cp buf pos iLen iId v fs"
proof (cases v)
  case (FInt32 x)
  with int32.rd_enc [of x] int32.enc_short [of x] at room fresh show ?thesis
    by (intro decodes_scalar [where put = put32]) (auto simp: decode_field_def)
next
  case (FUint32 x)
  with uint32.rd_enc [of x] uint32.enc_short [of x] at room fresh show ?thesis
    by (intro decodes_scalar [where put = put32]) (auto simp: decode_field_def type_consts)
next
  case (FInt64 x)
  with int64.rd_enc [of x] int64.enc_short [of x] at room fresh show ?thesis
    by (intro decodes_scalar [where put = "\<lambda>x _. Scalar x"]) (auto simp: decode_field_def type_consts get64_def)
next
  case (FUint64 x)
  with uint64.rd_enc [of x] uint64.enc_short [of x] at room fresh show ?thesis
    by (intro decodes_scalar [where put = "\<lambda>x _. Scalar x"]) (auto simp: decode_field_def type_consts get64_def)
next
  case (FFloat x)
  with float.rd_enc [of x] at room fresh show ?thesis
    by (intro decodes_scalar [where put = "\<lambda>f. put32 (float_bits f)"]) (auto simp: decode_field_def type_consts)
next
  case (FDouble x)
  with double.rd_enc [of x] at room fresh show ?thesis
    by (intro decodes_scalar [where put = "\<lambda>f _. Scalar (double_bits f)"])
      (auto simp: decode_field_def type_consts get64_def)
next
  case (FString s)
  with at room show ?thesis
    by (intro decodes_blob [of _ _ s rest]) auto
next
  case (FRaw s)
  with at room show ?thesis
    by (intro decodes_blob [of _ _ s rest]) auto
next
  case (FUint32Array vs)
  with decodes_array assms show ?thesis by blast
qed

text \<open>The buckets after decoding a list of fields.\<close>

definition holds_fields :: "buckets \<Rightarrow> (uinttype \<times> field_val) list \<Rightarrow> buckets \<Rightarrow> bool" where
  "holds_fields fs0 vs fs \<longleftrightarrow>
     (\<forall>(n, v) \<in> set vs. holds_field (fs n) v) \<and> (\<forall>n. n \<notin> fst ` set vs \<longrightarrow> fs n = fs0 n)"

lemma decode_loop_field:
  assumes at: "drop pos buf = encoded_field (n, v) @ rest"
    and room: "length (encoded_field (n, v)) \<le> unat iLen"
    and num: "n < FIELD_MAX" and fresh: "fb_cValues (fs n) = Scalar 0" and wf: "wf_val v"
  shows "\<exists>b. holds_field b v \<and>
     decode_loop cp buf pos iLen fs =
       decode_loop cp buf (pos + length (encoded_field (n, v)))
         (iLen - of_nat (length (encoded_field (n, v)))) (fs(n := b))"
proof -
  let ?h = "makeHeader (val_type v) n"
  have at1: "drop pos buf = bytes32 ?h @ val_bytes v @ rest"
    using at by (simp add: encoded_field_def field_bytes_def)
  then have at2: "drop (pos + 4) buf = val_bytes v @ rest"
    by (metis add.commute append_eq_conv_conj drop_drop length_bytes32)
  have room1: "4 + length (val_bytes v) \<le> unat iLen"
    using room by (simp add: encoded_field_def field_bytes_def)
  have room2: "length (val_bytes v) \<le> unat (iLen - 4)"
  proof -
    have "4 \<le> iLen" using room1 by (simp add: word_le_nat_alt)
    with room1 show ?thesis by (simp add: unat_sub)
  qed
  have th: "getTypeId ?h = (val_type v, n)"
    using getTypeId_makeHeader [of "val_type v" n] field_id_mask [OF num] by simp
  from decodes_value [where cp = cp and fs = fs and iId = n, OF at2 room2 fresh wf] obtain pos' iLen' iRead' b where
    df: "decode_field cp buf (pos + 4) (iLen - 4) 4 (val_type v) n fs = Inr (Inr (pos', iLen', iRead', fs(n := b)))"
    and b: "holds_field b v" and pos: "pos' + unat iRead' = pos + 4 + length (val_bytes v)"
    and len: "iLen' - iRead' = iLen - 4 - of_nat (length (val_bytes v))"
    and zero: "iRead' = 0 \<longrightarrow> val_type v = RAW \<or> val_type v = STRING"
    unfolding decodes_def by (auto simp: wire_consts)
  have nz: "iLen \<noteq> 0" using room1 by auto
  have lf: "length (encoded_field (n, v)) = 4 + length (val_bytes v)"
    by (simp add: encoded_field_def field_bytes_def)
  have "decode_loop cp buf pos iLen fs = decode_loop cp buf (pos' + unat iRead') (iLen' - iRead') (fs(n := b))"
    using nz num zero
    by (subst decode_loop.simps) (auto simp: at1 ReadFixed32_bytes th df wire_consts not_le [symmetric])
  with b show ?thesis
    by (auto simp: pos len lf algebra_simps)
qed

lemma decode_loop_fields:
  assumes "drop pos buf = concat (map encoded_field vs) @ rest"
    and "unat iLen = length (concat (map encoded_field vs))"
    and "\<forall>(n, v) \<in> set vs. n < FIELD_MAX \<and> wf_val v \<and> fb_cValues (fs n) = Scalar 0"
    and "distinct (map fst vs)"
  shows "\<exists>fs'. decode_loop cp buf pos iLen fs = Inr (0, fs') \<and> holds_fields fs vs fs'"
  using assms
proof (induction vs arbitrary: pos iLen fs)
  case Nil
  then have "iLen = 0" by (simp add: unat_eq_0)
  then show ?case
    by (subst decode_loop.simps) (simp add: holds_fields_def)
next
  case (Cons f vs)
  obtain n v where f: "f = (n, v)" by fastforce
  let ?e = "encoded_field (n, v)"
  have room: "length ?e \<le> unat iLen"
    using Cons.prems(2) f by simp
  obtain b where b: "holds_field b v" and step: "decode_loop cp buf pos iLen fs =
       decode_loop cp buf (pos + length ?e) (iLen - of_nat (length ?e)) (fs(n := b))"
    using decode_loop_field [OF _ room, of pos buf "concat (map encoded_field vs) @ rest" fs cp] Cons.prems(1,3) f
    by auto
  have small: "unat (of_nat (length ?e) :: uinttype) = length ?e"
    using room unat_less [of iLen] by (intro unat_of_nat_small) simp
  have le: "of_nat (length ?e) \<le> iLen"
    using room small by (simp add: word_le_nat_alt)
  have at: "drop (pos + length ?e) buf = concat (map encoded_field vs) @ rest"
    using Cons.prems(1) f by (metis add.commute append.assoc append_eq_conv_conj concat.simps(2) drop_drop list.simps(9))
  have len: "unat (iLen - of_nat (length ?e)) = length (concat (map encoded_field vs))"
    using Cons.prems(2) f small unat_sub [OF le] by simp
  have other: "\<forall>(n', v') \<in> set vs. n' < FIELD_MAX \<and> wf_val v' \<and> fb_cValues ((fs(n := b)) n') = Scalar 0"
    using Cons.prems(3,4) f by (fastforce simp: image_iff)
  have dist: "distinct (map fst vs)"
    using Cons.prems(4) by simp
  obtain fs' where "decode_loop cp buf (pos + length ?e) (iLen - of_nat (length ?e)) (fs(n := b)) = Inr (0, fs')"
    and h: "holds_fields (fs(n := b)) vs fs'"
    using Cons.IH [OF at len other dist] by blast
  moreover have "fs' n = b"
    using h Cons.prems(4) f by (auto simp: holds_fields_def)
  ultimately show ?case
    using step b h f by (auto simp: holds_fields_def)
qed

subsection \<open>Decoding a whole message\<close>

lemma decodeFields_message:
  assumes buf: "buf = message_header vf iMsgId (of_nat n) @ concat (map encoded_field vs) @ rest"
    and n: "n = length (concat (map encoded_field vs))"
    and ver: "VERSION AND vf = VERSION" and len: "16 + n \<le> unat iBufferLen"
    and ids: "\<forall>(k, v) \<in> set vs. k < FIELD_MAX \<and> wf_val v" and dist: "distinct (map fst vs)"
  shows "\<exists>fs. decodeFields (reader_new (Some buf) iBufferLen cp) =
     Inr (0, \<lparr>r_piBuffer = Some buf, r_iBufferLen = of_nat (16 + n), r_iMsgId = iMsgId, r_iFields = fs,
              r_iFlags = vf AND 0x0000ff00, r_bCopyAll = cp\<rparr>) \<and>
     holds_fields (\<lambda>_. empty_bucket) vs fs"
proof -
  have u: "unat (of_nat n :: uinttype) = n" "unat (of_nat (16 + n) :: uinttype) = 16 + n"
    using len unat_less [of iBufferLen] by (auto intro!: unat_of_nat_small simp del: of_nat_add)
  have sum: "of_nat n + HEADER_SIZE = (of_nat (16 + n) :: uinttype)"
    by (simp add: header_consts wire_consts)
  have le: "\<not> iBufferLen < of_nat (16 + n)"
    using len u by (simp add: word_less_nat_alt del: of_nat_add)
  have at: "drop 16 buf = concat (map encoded_field vs) @ rest"
    by (simp add: buf)
  obtain fs where "decode_loop cp buf 16 (of_nat n) (\<lambda>_. empty_bucket) = Inr (0, fs)"
    and h: "holds_fields (\<lambda>_. empty_bucket) vs fs"
    using decode_loop_fields [where cp = cp, OF at, of "of_nat n" "\<lambda>_. empty_bucket"] ids dist u n
    by (auto simp: empty_bucket_def)
  moreover have "ReadFixed32 buf l = Inr (4, DEEP_MAGIC)" "ReadFixed32 (drop 4 buf) l = Inr (4, vf)"
      "ReadFixed32 (drop 8 buf) l = Inr (4, iMsgId)" "ReadFixed32 (drop 12 buf) l = Inr (4, of_nat n)" for l
    by (simp_all add: buf message_header_def ReadFixed32_bytes wire_consts)
  moreover have "iBufferLen \<noteq> 0"
    using len by auto
  ultimately have "decodeFields (reader_new (Some buf) iBufferLen cp) =
     Inr (0, \<lparr>r_piBuffer = Some buf, r_iBufferLen = of_nat (16 + n), r_iMsgId = iMsgId, r_iFields = fs,
              r_iFlags = vf AND 0x0000ff00, r_bCopyAll = cp\<rparr>)"
    using ver le by (simp add: decodeFields_def reader_new_def sum del: of_nat_add)
  with h show ?thesis by blast
qed

text \<open>What the getter of the type of a field returns.\<close>

fun field_reads :: "reader \<Rightarrow> uinttype \<Rightarrow> field_val \<Rightarrow> bool" where
  "field_reads rd n (FInt32 x) \<longleftrightarrow> getInt32Field n rd = Inr (0, Some x)"
| "field_reads rd n (FUint32 x) \<longleftrightarrow> getUint32Field n rd = Inr (0, Some x)"
| "field_reads rd n (FInt64 x) \<longleftrightarrow> getInt64Field n rd = Inr (0, Some x)"
| "field_reads rd n (FUint64 x) \<longleftrightarrow> getUint64Field n rd = Inr (0, Some x)"
| "field_reads rd n (FFloat f) \<longleftrightarrow> getFloatField n rd = Inr (0, Some f)"
| "field_reads rd n (FDouble f) \<longleftrightarrow> getDoubleField n rd = Inr (0, Some f)"
| "field_reads rd n (FString s) \<longleftrightarrow> getStringField n rd = Inr (0, Some s)"
| "field_reads rd n (FRaw s) \<longleftrightarrow>
     (\<exists>p iSize. getRawFieldRef n rd = (0, Some (p, iSize)) \<and> unat iSize = length s \<and>
        (s \<noteq> [] \<longrightarrow> raw_bytes p iSize = Inr s))"
| "field_reads rd n (FUint32Array vs) \<longleftrightarrow>
     (\<exists>rd'. getUint32ArrayField n rd = (0, Some (ArrayPtr vs), rd'))"

lemma holds_field_reads:
  assumes "holds_field (r_iFields rd n) v" and "n < FIELD_MAX"
  shows "field_reads rd n v"
  using assms
  by (cases v) (auto simp: getInt32Field_def getUint32Field_def getInt64Field_def getUint64Field_def
      getFloatField_def getDoubleField_def get_scalar_def getStringField_def getRawFieldRef_def get_ref_def
      getUint32ArrayField_def unat_eq_0 not_le [symmetric])

text \<open>A field that was not in the message: every getter answers \<open>-2\<close>.\<close>

definition field_absent :: "reader \<Rightarrow> uinttype \<Rightarrow> bool" where
  "field_absent rd n \<longleftrightarrow>
     getInt32Field n rd = Inr (- 2, None) \<and> getUint32Field n rd = Inr (- 2, None) \<and>
     getInt64Field n rd = Inr (- 2, None) \<and> getUint64Field n rd = Inr (- 2, None) \<and>
     getFloatField n rd = Inr (- 2, None) \<and> getDoubleField n rd = Inr (- 2, None) \<and>
     getStringField n rd = Inr (- 2, None) \<and> getRawFieldRef n rd = (- 2, None) \<and>
     getStringFieldRef n rd = (- 2, None) \<and> getUint32ArrayField n rd = (- 2, None, rd) \<and>
     getVoidPtr n rd = (- 2, None)"

lemma empty_bucket_absent:
  assumes "r_iFields rd n = empty_bucket" and "n < FIELD_MAX"
  shows "field_absent rd n"
  using assms
  by (auto simp: field_absent_def getInt32Field_def getUint32Field_def getInt64Field_def getUint64Field_def
      getFloatField_def getDoubleField_def get_scalar_def getStringField_def getRawFieldRef_def get_ref_def
      getStringFieldRef_def getVoidPtr_def getUint32ArrayField_def empty_bucket_def type_consts not_le [symmetric])

lemma decodeFields_getters:
  assumes h: "holds_fields (\<lambda>_. empty_bucket) vs (r_iFields rd)"
    and ids: "\<forall>(k, v) \<in> set vs. k < FIELD_MAX \<and> wf_val v"
  shows "\<forall>(n, v) \<in> set vs. field_reads rd n v" and "\<forall>n < FIELD_MAX. n \<notin> fst ` set vs \<longrightarrow> field_absent rd n"
  using h ids by (auto simp: holds_fields_def intro!: holds_field_reads empty_bucket_absent)

text \<open>The payload length of a header is added to \<open>HEADER_SIZE\<close> in 32 bits before it is compared.\<close>

lemma decodeFields_length_wrap:
  assumes ver: "VERSION AND vf = VERSION" and n: "2 ^ 32 - 16 \<le> unat n"
  shows "decodeFields (reader_new (Some (message_header vf i n)) 16 cp) = Inl OutOfBounds"
proof -
  have "unat (n + 16) = unat n + 16 - 2 ^ 32"
    using n unat_less [of n] by (simp add: unat_word_ariths le_mod_geq)
  then have "n + 16 \<le> 16"
    using unat_less [of n] by (simp add: word_le_nat_alt)
  moreover have "decode_loop cp (message_header vf i n) 16 n fs = Inl OutOfBounds" for fs
    using n by (subst decode_loop.simps) (auto simp: ReadFixed32_def)
  moreover have "ReadFixed32 (message_header vf i n) l = Inr (4, DEEP_MAGIC)"
      "ReadFixed32 (drop 4 (message_header vf i n)) l = Inr (4, vf)"
      "ReadFixed32 (drop 8 (message_header vf i n)) l = Inr (4, i)"
      "ReadFixed32 (drop 12 (message_header vf i n)) l = Inr (4, n)" for l
    using ReadFixed32_bytes [of n "[]"]
    by (simp_all add: message_header_def ReadFixed32_bytes wire_consts)
  ultimately show ?thesis
    using ver by (simp add: decodeFields_def reader_new_def header_consts wire_consts not_less)
qed

subsection \<open>Rendered and copied readers\<close>

text \<open>The method of \<open>renderReader\<close> for the type of a value; there is none for arrays.\<close>

fun render_value :: "uinttype \<Rightarrow> field_val \<Rightarrow> renderReader \<Rightarrow> (inttype \<times> renderReader) result" where
  "render_value n (FInt32 x) rr = Inr (render_setInt32Field n x rr)"
| "render_value n (FUint32 x) rr = Inr (render_setUint32Field n x rr)"
| "render_value n (FInt64 x) rr = Inr (render_setInt64Field n x rr)"
| "render_value n (FUint64 x) rr = Inr (render_setUint64Field n x rr)"
| "render_value n (FFloat x) rr = Inr (render_setFloatField n x rr)"
| "render_value n (FDouble x) rr = Inr (render_setDoubleField n x rr)"
| "render_value n (FString s) rr = render_setStringField n s rr"
| "render_value n (FRaw s) rr = render_setRawField n s (of_nat (length s)) rr"
| "render_value n (FUint32Array _) rr = Inl Aborted"

lemmas render_defs = render_setInt32Field_def render_setUint32Field_def render_setInt64Field_def
  render_setUint64Field_def render_setFloatField_def render_setDoubleField_def render_setStringField_def
  render_setRawField_def render_field_def put_bucket_def

lemma get32_put32 [simp]: "get32 (put32 x v) = Inr x"
  by (cases v) (simp_all add: put32_get32, simp_all add: put32_def get32_def)

lemma render_value_holds:
  assumes "rr_pcReader rr = Some rd" and "n < FIELD_MAX" and "\<forall>vs. v \<noteq> FUint32Array vs"
    and "length (val_bytes v) < 2 ^ 32"
  shows "\<exists>b. render_value n v rr = Inr (0, rr\<lparr>rr_pcReader := Some (rd\<lparr>r_iFields := (r_iFields rd)(n := b)\<rparr>)\<rparr>) \<and>
     holds_field b v"
  using assms
  by (cases v) (auto simp: render_defs get64_def raw_bytes_def memcpy_from_def unat_of_nat_small not_le [symmetric])

lemma copy_buckets_copies:
  assumes "copy_buckets junk fs is acc = Inr fs'" and "i \<in> set is" and "distinct is"
  shows "copy_bucket junk fs (fs i) = Inr (fs' i)"
proof -
  have keep: "copy_buckets junk fs is acc = Inr fs' \<Longrightarrow> i \<notin> set is \<Longrightarrow> fs' i = acc i" for "is" acc
    by (induction "is" arbitrary: acc) (auto simp: result_simps)
  show ?thesis
    using assms by (induction "is" arbitrary: acc) (auto simp: result_simps dest: keep)
qed

end
