(* ===== verification/MsgBundle.thy ===== *)
theory MsgBundle
  imports EncodeReader
begin

section \<open>Bundles of messages\<close>

text \<open>
  \<^verbatim>\<open>src/PLATFORM/src/main/native/cxx/io/MsgBundle.h\<close>: a bundle writer collects encoded messages
  in one buffer of \<open>BUNDLE_SIZE\<close> bytes, behind space for a message header and a field header;
  \<open>close\<close> fills these in and hands the buffer over as one message with a single field of type
  \<open>BUNDLE\<close>. A bundle reader takes the messages off one by one.

  The writer returned by \<open>reserve\<close> works in the memory of the bundle, from \<open>m_iWritten\<close> on. The
  model keeps that window in the writer; \<open>reserve\<close> and \<open>finalizeReservation\<close> copy it back with
  \<open>write_back\<close>, which is what the shared memory holds as long as the bundle is not used in
  between.
\<close>

definition MSG_ID_PREFIX :: uinttype where "MSG_ID_PREFIX = 0x00020000"

definition BUNDLE_SIZE :: uinttype where "BUNDLE_SIZE = push_bit 2 4096"

definition BUNDLE_PREAMBLE :: uinttype where "BUNDLE_PREAMBLE = HEADER_SIZE + FIELD_HDR_SIZE"

lemmas bundle_consts = BUNDLE_SIZE_def BUNDLE_PREAMBLE_def

subsection \<open>The bundle writer\<close>

record bundle_writer =
  bw_piBuffer :: "ubytetype list option"
  bw_iBufferLen :: uinttype
  bw_iWritten :: uinttype

definition bundle_writer_new :: "(nat \<Rightarrow> ubytetype) \<Rightarrow> bundle_writer" where
  "bundle_writer_new junk =
     \<lparr>bw_piBuffer = Some (new_bytes junk BUNDLE_SIZE), bw_iBufferLen = BUNDLE_SIZE,
      bw_iWritten = BUNDLE_PREAMBLE\<rparr>"

definition write_back :: "ubytetype list \<Rightarrow> writer \<Rightarrow> bundle_writer \<Rightarrow> bundle_writer" where
  "write_back buf w bw =
     (case w_piBuffer w of
        None \<Rightarrow> bw
      | Some window \<Rightarrow> bw\<lparr>bw_piBuffer := Some (take (unat (bw_iWritten bw)) buf @ window)\<rparr>)"

text \<open>After \<open>close\<close> the buffer is null and \<open>&m_piBuffer[m_iWritten]\<close> points nowhere.\<close>

definition reserve :: "uinttype \<Rightarrow> uinttype \<Rightarrow> bundle_writer \<Rightarrow> (writer \<times> bundle_writer) result" where
  "reserve iBufferLen iMsgId bw =
     (let iRemain = bw_iBufferLen bw - bw_iWritten bw; iReserve = iBufferLen + HEADER_SIZE in
      if iRemain < iReserve then Inl (Thrown ''Reservation exceeds remaining buffer size.'')
      else case bw_piBuffer bw of
        None \<Rightarrow> if bw_iWritten bw = 0 then Inl (Thrown ''Internal buffer error.'') else Inl NullDeref
      | Some buf \<Rightarrow>
          rbind (writer_around (drop (unat (bw_iWritten bw)) buf) iReserve iBufferLen iMsgId False)
            (\<lambda>w. Inr (w, write_back buf w bw)))"

definition append_msg :: "writer \<Rightarrow> bundle_writer \<Rightarrow> (inttype \<times> bundle_writer) result" where
  "append_msg pcMsg bw =
     (case getMutableBuffer pcMsg of (code, piBuffer, iBufferLen, pcMsg') \<Rightarrow>
        if code \<noteq> 0 then Inl (Thrown ''Unable to extract buffer from the supplied writer.'')
        else if bw_iBufferLen bw - bw_iWritten bw < iBufferLen
        then Inl (Thrown ''Reservation exceeds remaining buffer size.'')
        else case bw_piBuffer bw of
          None \<Rightarrow> if bw_iWritten bw = 0 then Inl (Thrown ''Internal buffer error.'') else Inl NullDeref
        | Some buf \<Rightarrow>
            rbind (case piBuffer of None \<Rightarrow> if iBufferLen = 0 then Inr [] else Inl NullDeref
                   | Some src \<Rightarrow> memcpy_from src (unat iBufferLen)) (\<lambda>bs.
            rbind (at_pos buf (unat (bw_iWritten bw)) (\<lambda>suffix. rbind (memcpy_to suffix bs) (\<lambda>s. Inr ((), s))))
              (\<lambda>(_, buf'). Inr (0, bw\<lparr>bw_piBuffer := Some buf', bw_iWritten := bw_iWritten bw + iBufferLen\<rparr>))))"

definition finalizeReservation :: "writer \<Rightarrow> bundle_writer \<Rightarrow> (inttype \<times> bundle_writer) result" where
  "finalizeReservation pcWriter bw =
     (case getMutableBuffer pcWriter of (code, piBuffer, iBufferLen, pcWriter') \<Rightarrow>
        if code \<noteq> 0 then Inr (- 1, bw)
        else
          let bw1 = (case bw_piBuffer bw of None \<Rightarrow> bw | Some buf \<Rightarrow> write_back buf pcWriter bw);
              bw2 = bw1\<lparr>bw_iWritten := bw_iWritten bw1 + iBufferLen\<rparr> in
          if bw_iWritten bw2 > bw_iBufferLen bw2
          then Inl (Thrown ''Finalize operation caused buffer overrun.'')
          else Inr (0, bw2))"

definition remainingSpace :: "bundle_writer \<Rightarrow> uinttype result" where
  "remainingSpace bw =
     (if bw_iWritten bw > bw_iBufferLen bw
      then Inl (Thrown ''Remaining space detected a buffer error.'')
      else Inr (bw_iBufferLen bw - bw_iWritten bw))"

definition bundle_open :: "(nat \<Rightarrow> ubytetype) \<Rightarrow> bundle_writer \<Rightarrow> inttype \<times> bundle_writer" where
  "bundle_open junk bw =
     (0, \<lparr>bw_piBuffer = (case bw_piBuffer bw of None \<Rightarrow> Some (new_bytes junk BUNDLE_SIZE) | Some buf \<Rightarrow> Some buf),
          bw_iBufferLen = BUNDLE_SIZE, bw_iWritten = BUNDLE_PREAMBLE\<rparr>)"

text \<open>The result is the return code, the writer handed out and the emptied bundle.\<close>

definition bundle_close :: "uinttype \<Rightarrow> bundle_writer \<Rightarrow> (inttype \<times> writer option \<times> bundle_writer) result" where
  "bundle_close iMsgId bw =
     (if bw_iWritten bw > bw_iBufferLen bw then Inl (Thrown ''Mutable buffer error discovered.'')
      else if bw_iWritten bw = 0 then Inr (- 1, None, bw)
      else if HEADER_SIZE > bw_iWritten bw then Inl (Thrown ''Written length is incorrect.'')
      else case bw_piBuffer bw of
        None \<Rightarrow> Inl NullDeref
      | Some buf \<Rightarrow>
          rbind (writer_around buf (bw_iBufferLen bw) (bw_iWritten bw - HEADER_SIZE) iMsgId True)
            (\<lambda>w. Inr (0, Some w, bw\<lparr>bw_piBuffer := None, bw_iBufferLen := 0\<rparr>)))"

subsection \<open>The bundle reader\<close>

record bundle_reader =
  br_piPos :: "ubytetype list"
  br_iSize :: uinttype

definition bundle_reader_new :: "ubytetype list \<Rightarrow> uinttype \<Rightarrow> bundle_reader" where
  "bundle_reader_new pBuffer iSize = \<lparr>br_piPos = pBuffer, br_iSize = iSize\<rparr>"

definition getNextMsg :: "bundle_reader \<Rightarrow> (reader option \<times> bundle_reader) result" where
  "getNextMsg br =
     (if br_iSize br = 0 then Inr (None, br)
      else rbind (decodeFields (reader_new (Some (br_piPos br)) (br_iSize br) True)) (\<lambda>(code, pcReader).
        if code \<noteq> 0 then Inl (Thrown ''Unable to decode the message.'')
        else let iSize = getEncodedLength pcReader in
          if iSize > br_iSize br then Inl (Thrown ''Bad Message payload length decoded.'')
          else Inr (Some pcReader,
                 \<lparr>br_piPos = drop (unat iSize) (br_piPos br), br_iSize = br_iSize br - iSize\<rparr>)))"

subsection \<open>The invariant of an open bundle\<close>

definition bundle_inv :: "bundle_writer \<Rightarrow> bool" where
  "bundle_inv bw \<longleftrightarrow>
     (case bw_piBuffer bw of
        None \<Rightarrow> False
      | Some buf \<Rightarrow> length buf = unat BUNDLE_SIZE \<and> bw_iBufferLen bw = BUNDLE_SIZE \<and>
          unat BUNDLE_PREAMBLE \<le> unat (bw_iWritten bw) \<and> unat (bw_iWritten bw) \<le> unat BUNDLE_SIZE)"

definition bundled :: "bundle_writer \<Rightarrow> ubytetype list" where
  "bundled bw =
     (case bw_piBuffer bw of
        None \<Rightarrow> []
      | Some buf \<Rightarrow> drop (unat BUNDLE_PREAMBLE) (take (unat (bw_iWritten bw)) buf))"

definition bundle_room :: "bundle_writer \<Rightarrow> nat" where
  "bundle_room bw = unat BUNDLE_SIZE - unat (bw_iWritten bw)"

lemma unat_BUNDLE_SIZE [simp]: "unat BUNDLE_SIZE = 16384"
  by (simp add: BUNDLE_SIZE_def)

lemma unat_BUNDLE_PREAMBLE [simp]: "unat BUNDLE_PREAMBLE = 20"
  by (simp add: BUNDLE_PREAMBLE_def header_consts wire_consts)

lemma bundle_writer_new_inv: "bundle_inv (bundle_writer_new junk)" "bundled (bundle_writer_new junk) = []"
  "bundle_room (bundle_writer_new junk) = 16364"
  by (simp_all add: bundle_inv_def bundle_writer_new_def bundled_def bundle_room_def)

lemma bundle_open_inv:
  assumes "bundle_inv bw \<or> bw_piBuffer bw = None"
  shows "\<exists>bw'. bundle_open junk bw = (0, bw') \<and> bundle_inv bw' \<and> bundled bw' = [] \<and> bundle_room bw' = 16364"
  using assms by (auto simp: bundle_open_def bundle_inv_def bundled_def bundle_room_def split: option.splits)

lemma bundle_invE:
  assumes "bundle_inv bw"
  obtains buf where "bw_piBuffer bw = Some buf" "length buf = 16384" "bw_iBufferLen bw = BUNDLE_SIZE"
    "20 \<le> unat (bw_iWritten bw)" "unat (bw_iWritten bw) \<le> 16384"
    "unat (bw_iBufferLen bw - bw_iWritten bw) = bundle_room bw"
proof -
  have "bw_iWritten bw \<le> BUNDLE_SIZE"
    using assms by (auto simp: bundle_inv_def word_le_nat_alt split: option.splits)
  from unat_sub [OF this] assms that show ?thesis
    by (auto simp: bundle_inv_def bundle_room_def split: option.splits)
qed

lemma remainingSpace_room:
  assumes "bundle_inv bw"
  shows "\<exists>n. remainingSpace bw = Inr n \<and> unat n = bundle_room bw"
  using assms by (elim bundle_invE) (simp add: remainingSpace_def word_less_nat_alt)

lemma bundle_extend:
  assumes inv: "bundle_inv bw" and buf: "bw_piBuffer bw = Some buf"
    and len: "length bs \<le> bundle_room bw" and tail: "length tail = 16384 - unat (bw_iWritten bw) - length bs"
    and bw': "bw' = \<lparr>bw_piBuffer = Some (take (unat (bw_iWritten bw)) buf @ bs @ tail),
        bw_iBufferLen = BUNDLE_SIZE, bw_iWritten = bw_iWritten bw + of_nat (length bs)\<rparr>"
  shows "bundle_inv bw' \<and> bundled bw' = bundled bw @ bs \<and> bundle_room bw' = bundle_room bw - length bs"
proof -
  have b: "length buf = 16384" "20 \<le> unat (bw_iWritten bw)" "unat (bw_iWritten bw) \<le> 16384"
    using inv buf by (auto elim: bundle_invE)
  have "length bs \<le> 16384 - unat (bw_iWritten bw)"
    using len by (simp add: bundle_room_def)
  then have w: "unat (bw_iWritten bw + of_nat (length bs)) = unat (bw_iWritten bw) + length bs"
    using b by (simp add: unat_word_ariths unat_of_nat)
  show ?thesis
    using b w len tail by (simp add: bw' bundle_inv_def bundled_def buf bundle_room_def drop_take)
qed

subsection \<open>Adding messages\<close>

lemma append_msg_ok:
  assumes inv: "bundle_inv bw" and w: "writer_inv w" and fits: "length (written_bytes w) \<le> bundle_room bw"
  shows "\<exists>bw'. append_msg w bw = Inr (0, bw') \<and> bundle_inv bw' \<and>
     bundled bw' = bundled bw @ written_bytes w \<and> bundle_room bw' = bundle_room bw - length (written_bytes w)"
proof -
  let ?bs = "written_bytes w"
  obtain buf where buf: "bw_piBuffer bw = Some buf" "length buf = 16384" "bw_iBufferLen bw = BUNDLE_SIZE"
    "unat (bw_iWritten bw) \<le> 16384" and rem: "unat (bw_iBufferLen bw - bw_iWritten bw) = bundle_room bw"
    using inv by (elim bundle_invE)
  obtain src where src: "w_piBuffer w = Some src" "unat (w_iWritten w) \<le> length src"
    using w by (auto simp: writer_inv_def split: option.splits)
  have len: "unat (w_iWritten w) = length ?bs"
    using written_length [OF w] by simp
  have copy: "memcpy_from src (unat (w_iWritten w)) = Inr ?bs"
    using src by (simp add: memcpy_from_def written_bytes_def buffer_of_def)
  have fits': "length ?bs \<le> 16384 - unat (bw_iWritten bw)"
    using fits by (simp add: bundle_room_def)
  have ok: "\<not> bw_iBufferLen bw - bw_iWritten bw < w_iWritten w"
    using fits rem len by (simp add: word_less_nat_alt)
  have wr: "w_iWritten w = of_nat (length ?bs)"
    by (simp add: written_length [OF w])
  let ?bw' = "\<lparr>bw_piBuffer = Some (take (unat (bw_iWritten bw)) buf @ ?bs @ drop (unat (bw_iWritten bw) + length ?bs) buf),
        bw_iBufferLen = BUNDLE_SIZE, bw_iWritten = bw_iWritten bw + of_nat (length ?bs)\<rparr>"
  have "append_msg w bw = Inr (0, ?bw')"
    using ok copy src buf fits' wr
    by (simp add: append_msg_def getMutableBuffer_def at_pos_def memcpy_to_def add.commute)
  with bundle_extend [OF inv buf(1) fits _ refl] buf show ?thesis
    by (intro exI [of _ ?bw']) simp
qed

lemma append_msg_refused:
  assumes inv: "bundle_inv bw" and w: "writer_inv w" and full: "bundle_room bw < length (written_bytes w)"
  shows "append_msg w bw = Inl (Thrown ''Reservation exceeds remaining buffer size.'')"
  using inv full written_length [OF w]
  by (elim bundle_invE) (simp add: append_msg_def getMutableBuffer_def word_less_nat_alt)

lemma reserve_ok:
  assumes inv: "bundle_inv bw" and fits: "16 + unat iBufferLen \<le> bundle_room bw"
  shows "\<exists>w bw'. reserve iBufferLen iMsgId bw = Inr (w, bw') \<and> bundle_inv bw' \<and> bundled bw' = bundled bw \<and>
     bw_iWritten bw' = bw_iWritten bw \<and>
     writer_inv w \<and> written_bytes w = message_header VERSION iMsgId iBufferLen \<and>
     w_iBufferLen w = iBufferLen \<and> length (buffer_of w) = bundle_room bw"
proof -
  obtain buf where buf: "bw_piBuffer bw = Some buf" "length buf = 16384" "bw_iBufferLen bw = BUNDLE_SIZE"
    "20 \<le> unat (bw_iWritten bw)" "unat (bw_iWritten bw) \<le> 16384"
    and rem: "unat (bw_iBufferLen bw - bw_iWritten bw) = bundle_room bw"
    using inv by (elim bundle_invE)
  have room: "bundle_room bw = 16384 - unat (bw_iWritten bw)"
    by (simp add: bundle_room_def)
  define a where "a = iBufferLen + HEADER_SIZE"
  have a: "unat a = 16 + unat iBufferLen"
    using fits room by (simp add: a_def header_consts wire_consts unat_word_ariths)
  define w0 where "w0 = \<lparr>w_piBuffer = Some (drop (unat (bw_iWritten bw)) buf), w_iActualLen = a,
         w_iBufferLen = a, w_iWritten = 0, w_piPos = 0\<rparr>"
  have inv0: "writer_inv w0"
    using fits room a buf by (simp add: writer_inv_def w0_def)
  have r0: "16 \<le> unat (w_iBufferLen w0)"
    using a by (simp add: w0_def)
  obtain w where 1: "writer_init iBufferLen iMsgId w0 = Inr w"
    and 2: "appends w0 (message_header VERSION iMsgId iBufferLen) w"
    using writer_init_appends [OF inv0 _ r0] by (auto simp: w0_def)
  have "unat (w_iBufferLen w) = unat iBufferLen"
    using appends_room [OF 2] a by (simp add: w0_def)
  then have bl: "w_iBufferLen w = iBufferLen"
    by (simp add: word_unat_eq_iff)
  have "written_bytes w0 = []" "length (buffer_of w0) = bundle_room bw"
    using buf room by (simp_all add: w0_def written_bytes_def buffer_of_def)
  then have wb: "written_bytes w = message_header VERSION iMsgId iBufferLen" and lb: "length (buffer_of w) = bundle_room bw"
    using 2 by (simp_all add: appends_def)
  obtain win where win: "w_piBuffer w = Some win"
    using 2 by (auto simp: appends_def writer_inv_def split: option.splits)
  have lw: "length win = 16384 - unat (bw_iWritten bw)"
    using lb win room by (simp add: buffer_of_def)
  have "\<not> HEADER_SIZE > a"
    using a by (simp add: word_less_nat_alt header_consts wire_consts)
  then have "reserve iBufferLen iMsgId bw = Inr (w, write_back buf w bw)"
    using buf rem fits a 1
    by (simp add: reserve_def a_def [symmetric] Let_def word_less_nat_alt writer_around_def w0_def)
  moreover have "bundle_inv (write_back buf w bw)" "bundled (write_back buf w bw) = bundled bw"
    "bw_iWritten (write_back buf w bw) = bw_iWritten bw"
    using buf win lw by (simp_all add: write_back_def bundle_inv_def bundled_def)
  ultimately show ?thesis
    using 2 wb lb bl by (auto simp: appends_def)
qed

lemma reserve_refused:
  assumes "bundle_inv bw" and "bundle_room bw < 16 + unat iBufferLen" and "16 + unat iBufferLen < 2 ^ 32"
  shows "reserve iBufferLen iMsgId bw = Inl (Thrown ''Reservation exceeds remaining buffer size.'')"
proof -
  have "unat (iBufferLen + HEADER_SIZE) = 16 + unat iBufferLen"
    using assms(3) by (simp add: header_consts wire_consts unat_word_ariths)
  with assms(1,2) show ?thesis
    by (elim bundle_invE) (simp add: reserve_def Let_def word_less_nat_alt)
qed

lemma finalizeReservation_ok:
  assumes inv: "bundle_inv bw" and w: "writer_inv w" and win: "length (buffer_of w) = bundle_room bw"
  shows "\<exists>bw'. finalizeReservation w bw = Inr (0, bw') \<and> bundle_inv bw' \<and>
     bundled bw' = bundled bw @ written_bytes w \<and> bundle_room bw' = bundle_room bw - length (written_bytes w)"
proof -
  let ?bs = "written_bytes w"
  obtain buf where buf: "bw_piBuffer bw = Some buf" "length buf = 16384" "bw_iBufferLen bw = BUNDLE_SIZE"
    "unat (bw_iWritten bw) \<le> 16384"
    using inv by (elim bundle_invE)
  obtain src where src: "w_piBuffer w = Some src" "unat (w_iWritten w) \<le> length src"
    using w by (auto simp: writer_inv_def split: option.splits)
  have len: "unat (w_iWritten w) = length ?bs" and wr: "w_iWritten w = of_nat (length ?bs)"
    by (simp_all add: written_length [OF w])
  have "?bs = take (length ?bs) src"
    unfolding len [symmetric] using src by (simp add: written_bytes_def buffer_of_def)
  then have split: "?bs @ drop (length ?bs) src = src"
    by (metis append_take_drop_id)
  have ls: "length src = bundle_room bw"
    using src win by (simp add: buffer_of_def)
  have fits: "length ?bs \<le> bundle_room bw"
    using src len ls by simp
  let ?bw' = "\<lparr>bw_piBuffer = Some (take (unat (bw_iWritten bw)) buf @ ?bs @ drop (length ?bs) src),
        bw_iBufferLen = BUNDLE_SIZE, bw_iWritten = bw_iWritten bw + of_nat (length ?bs)\<rparr>"
  have ext: "bundle_inv ?bw' \<and> bundled ?bw' = bundled bw @ ?bs \<and> bundle_room ?bw' = bundle_room bw - length ?bs"
    by (rule bundle_extend [OF inv buf(1) fits _ refl]) (simp add: ls bundle_room_def)
  then have "\<not> bw_iWritten ?bw' > BUNDLE_SIZE"
    by (auto simp: bundle_inv_def word_less_nat_alt)
  then have "finalizeReservation w bw = Inr (0, ?bw')"
    using buf src split wr
    by (simp add: finalizeReservation_def getMutableBuffer_def write_back_def Let_def)
  with ext show ?thesis
    by (intro exI [of _ ?bw']) simp
qed

text \<open>
  A client that adds messages in either way: as a reservation in the bundle, or encoded in a
  writer of its own and appended.
\<close>

type_synonym message = "uinttype \<times> (uinttype \<times> field_val) list"

definition payload :: "message \<Rightarrow> ubytetype list" where
  "payload m = concat (map encoded_field (snd m))"

definition encoded_message :: "message \<Rightarrow> ubytetype list" where
  "encoded_message m = message_header VERSION (fst m) (of_nat (length (payload m))) @ payload m"

definition wf_message :: "message \<Rightarrow> bool" where
  "wf_message m \<longleftrightarrow>
     (\<forall>(n, v) \<in> set (snd m). n < FIELD_MAX \<and> wf_val v) \<and> distinct (map fst (snd m)) \<and>
     length (encoded_message m) < 2 ^ 32"

definition bundle_message :: "(nat \<Rightarrow> ubytetype) \<Rightarrow> bool \<Rightarrow> message \<Rightarrow> bundle_writer \<Rightarrow>
    (inttype \<times> bundle_writer) result" where
  "bundle_message junk in_place m bw =
     (let n = of_nat (length (payload m)) in
      if in_place then
        rbind (reserve n (fst m) bw) (\<lambda>(w, bw1).
        rbind (set_values (snd m) w) (\<lambda>(r, w').
          if r \<noteq> 0 then Inr (r, bw1) else finalizeReservation w' bw1))
      else
        rbind (writer_new junk n (fst m)) (\<lambda>w.
        rbind (set_values (snd m) w) (\<lambda>(r, w').
          if r \<noteq> 0 then Inr (r, bw) else append_msg w' bw)))"

fun bundle_messages :: "(nat \<Rightarrow> ubytetype) \<Rightarrow> (bool \<times> message) list \<Rightarrow> bundle_writer \<Rightarrow>
    (inttype \<times> bundle_writer) result" where
  "bundle_messages junk [] bw = Inr (0, bw)"
| "bundle_messages junk ((in_place, m) # ms) bw =
     rbind (bundle_message junk in_place m bw) (\<lambda>(r, bw').
       if r \<noteq> 0 then Inr (r, bw') else bundle_messages junk ms bw')"

lemma length_encoded_message [simp]: "length (encoded_message m) = 16 + length (payload m)"
  by (simp add: encoded_message_def)

lemma set_values_message:
  assumes wf: "wf_message m" and inv: "writer_inv w" and len: "unat (w_iBufferLen w) = length (payload m)"
    and hdr: "written_bytes w = message_header VERSION (fst m) (of_nat (length (payload m)))"
  shows "\<exists>w'. set_values (snd m) w = Inr (0, w') \<and> writer_inv w' \<and> written_bytes w' = encoded_message m \<and>
     length (buffer_of w') = length (buffer_of w)"
proof -
  obtain w' where "set_values (snd m) w = Inr (0, w')" and "appends w (payload m) w'"
    using set_values_accepted [OF inv, of "snd m"] wf len by (auto simp: wf_message_def payload_def)
  with hdr show ?thesis
    by (auto simp: appends_def encoded_message_def)
qed

lemma encode_message:
  assumes wf: "wf_message m"
  shows "\<exists>w w'. writer_new junk (of_nat (length (payload m))) (fst m) = Inr w \<and>
     set_values (snd m) w = Inr (0, w') \<and> writer_inv w' \<and> written_bytes w' = encoded_message m"
proof -
  have n: "unat (of_nat (length (payload m)) :: uinttype) = length (payload m)"
    using wf by (intro unat_of_nat_small) (simp add: wf_message_def)
  obtain w where "writer_new junk (of_nat (length (payload m))) (fst m) = Inr w" and "writer_inv w"
    and "written_bytes w = message_header VERSION (fst m) (of_nat (length (payload m)))"
    and "w_iBufferLen w = of_nat (length (payload m))"
    using writer_new_ok [of "of_nat (length (payload m))" junk "fst m"] wf n
    by (auto simp: wf_message_def)
  with set_values_message [OF wf, of w] n show ?thesis
    by auto
qed

lemma bundle_message_ok:
  assumes inv: "bundle_inv bw" and wf: "wf_message m" and fits: "length (encoded_message m) \<le> bundle_room bw"
  shows "\<exists>bw'. bundle_message junk in_place m bw = Inr (0, bw') \<and> bundle_inv bw' \<and>
     bundled bw' = bundled bw @ encoded_message m \<and> bundle_room bw' = bundle_room bw - length (encoded_message m)"
proof (cases in_place)
  case True
  let ?n = "of_nat (length (payload m)) :: uinttype"
  have n: "unat ?n = length (payload m)"
    using wf by (intro unat_of_nat_small) (simp add: wf_message_def)
  obtain w bw1 where 1: "reserve ?n (fst m) bw = Inr (w, bw1)" "bundle_inv bw1" "bundled bw1 = bundled bw"
      "bw_iWritten bw1 = bw_iWritten bw" "writer_inv w" "written_bytes w = message_header VERSION (fst m) ?n"
      "w_iBufferLen w = ?n" "length (buffer_of w) = bundle_room bw"
    using reserve_ok [OF inv, of ?n "fst m"] fits n by auto
  obtain w' where 2: "set_values (snd m) w = Inr (0, w')" "writer_inv w'" "written_bytes w' = encoded_message m"
      "length (buffer_of w') = length (buffer_of w)"
    using set_values_message [OF wf, of w] 1 n by auto
  have "bundle_room bw1 = bundle_room bw"
    using 1(4) by (simp add: bundle_room_def)
  with finalizeReservation_ok [OF 1(2) 2(2)] 1 2 True show ?thesis
    by (auto simp: bundle_message_def Let_def)
next
  case False
  obtain w w' where 1: "writer_new junk (of_nat (length (payload m))) (fst m) = Inr w"
    "set_values (snd m) w = Inr (0, w')" "writer_inv w'" "written_bytes w' = encoded_message m"
    using encode_message [OF wf] by blast
  with append_msg_ok [OF inv 1(3)] fits False show ?thesis
    by (auto simp: bundle_message_def Let_def)
qed

lemma bundle_messages_ok:
  assumes "bundle_inv bw" and "\<forall>(_, m) \<in> set ms. wf_message m"
    and "length (concat (map (\<lambda>im. encoded_message (snd im)) ms)) \<le> bundle_room bw"
  shows "\<exists>bw'. bundle_messages junk ms bw = Inr (0, bw') \<and> bundle_inv bw' \<and>
     bundled bw' = bundled bw @ concat (map (\<lambda>im. encoded_message (snd im)) ms)"
  using assms
proof (induction ms arbitrary: bw)
  case Nil
  then show ?case by simp
next
  case (Cons im ms)
  obtain i m where im: "im = (i, m)" by (rule prod.exhaust)
  have fits: "length (encoded_message m) \<le> bundle_room bw" and wf: "wf_message m"
    using Cons.prems(2,3) im by simp_all
  obtain bw1 where 1: "bundle_message junk i m bw = Inr (0, bw1)" "bundle_inv bw1"
    "bundled bw1 = bundled bw @ encoded_message m" "bundle_room bw1 = bundle_room bw - length (encoded_message m)"
    using bundle_message_ok [OF Cons.prems(1) wf fits, of junk i] by blast
  have "length (concat (map (\<lambda>im. encoded_message (snd im)) ms)) \<le> bundle_room bw1"
    using Cons.prems(3) im 1(4) by simp
  with Cons.IH [OF 1(2)] Cons.prems(2) obtain bw' where "bundle_messages junk ms bw1 = Inr (0, bw')"
    "bundle_inv bw'" "bundled bw' = bundled bw1 @ concat (map (\<lambda>im. encoded_message (snd im)) ms)"
    by auto
  with 1 im show ?case
    by auto
qed

subsection \<open>Closing a bundle and reading it back\<close>

lemma bundle_close_ok:
  assumes inv: "bundle_inv bw"
  shows "\<exists>w rest. bundle_close iMsgId bw = Inr (0, Some w, bw\<lparr>bw_piBuffer := None, bw_iBufferLen := 0\<rparr>) \<and>
     w_piBuffer w = Some (message_header VERSION iMsgId (of_nat (4 + length (bundled bw))) @
       bytes32 (makeHeader BUNDLE FIELD_BUNDLE_ID) @ bundled bw @ rest) \<and>
     unat (getSize w) = 20 + length (bundled bw)"
proof -
  obtain buf where buf: "bw_piBuffer bw = Some buf" "length buf = 16384" "bw_iBufferLen bw = BUNDLE_SIZE"
    "20 \<le> unat (bw_iWritten bw)" "unat (bw_iWritten bw) \<le> 16384"
    using inv by (elim bundle_invE)
  have lb: "length (bundled bw) = unat (bw_iWritten bw) - 20"
    using buf by (simp add: bundled_def)
  let ?n = "bw_iWritten bw - HEADER_SIZE"
  have "HEADER_SIZE \<le> bw_iWritten bw"
    using buf by (simp add: word_le_nat_alt header_consts wire_consts)
  then have un: "unat ?n = 4 + length (bundled bw)"
    using lb buf by (simp add: unat_sub) (simp add: header_consts wire_consts)
  then have n: "?n = of_nat (4 + length (bundled bw))"
    by (metis of_nat_unat ucast_id)
  define w0 where "w0 = \<lparr>w_piBuffer = Some buf, w_iActualLen = BUNDLE_SIZE,
         w_iBufferLen = BUNDLE_SIZE, w_iWritten = 0, w_piPos = 0\<rparr>"
  have inv0: "writer_inv w0"
    using buf by (simp add: writer_inv_def w0_def)
  have r0: "16 \<le> unat (w_iBufferLen w0)"
    by (simp add: w0_def)
  let ?h = "message_header VERSION iMsgId ?n" and ?f = "makeHeader BUNDLE FIELD_BUNDLE_ID"
  obtain w1 where 1: "writer_init ?n iMsgId w0 = Inr w1" and 2: "appends w0 ?h w1"
    using writer_init_appends [OF inv0 _ r0] by (auto simp: w0_def)
  have "4 \<le> unat (w_iBufferLen w1)"
    using appends_room [OF 2] by (simp add: w0_def)
  then obtain w2 where 3: "emit (\<lambda>b l. WriteFixed32 b l ?f) w1 = Inr (4, w2)"
    and 4: "appends w1 (bytes32 ?f) (WRITE_SPINS 4 w2)"
    using emit_stores [OF appends_inv [OF 2] stores_WriteFixed32 [of ?f]] by auto
  define w3 where "w3 = WRITE_SPINS 4 w2"
  have 5: "appends w0 (?h @ bytes32 ?f) w3"
    using appends_trans [OF 2 4] by (simp add: w3_def)
  obtain buf' where buf': "w_piBuffer w2 = Some buf'"
    using appends_inv [OF 5] by (auto simp: writer_inv_def w3_def WRITE_SPINS_def split: option.splits)
  have pos: "w_piPos w3 = 20" "unat (w_iWritten w3) = 20"
    using 5 appends_pos [OF 5] by (simp_all add: appends_def w0_def)
  have "buf' = take 20 buf' @ drop 20 buf'"
    by simp
  also have "take 20 buf' = written_bytes w3"
    using pos buf' by (simp add: written_bytes_def buffer_of_def) (simp add: w3_def WRITE_SPINS_def)
  also have "written_bytes w3 = ?h @ bytes32 ?f"
    using 5 by (simp add: appends_def) (simp add: written_bytes_def w0_def)
  also have "drop 20 buf' = drop 20 buf"
    using 5 pos buf' by (simp add: appends_def buffer_of_def w3_def WRITE_SPINS_def w0_def)
  also have "drop 20 buf = bundled bw @ drop (unat (bw_iWritten bw)) buf"
    using buf by (simp add: bundled_def drop_take) (metis append_take_drop_id drop_drop le_add_diff_inverse2)
  finally have b': "buf' = ?h @ bytes32 ?f @ bundled bw @ drop (unat (bw_iWritten bw)) buf"
    by simp
  define w where "w = w2\<lparr>w_iWritten := HEADER_SIZE + ?n\<rparr>"
  have "bundle_close iMsgId bw = Inr (0, Some w, bw\<lparr>bw_piBuffer := None, bw_iBufferLen := 0\<rparr>)"
    using buf 1 3
    by (auto simp: bundle_close_def word_less_nat_alt writer_around_def w0_def w_def header_consts wire_consts)
  moreover have "getSize w = bw_iWritten bw"
    by (simp add: getSize_def w_def)
  ultimately show ?thesis
    using buf' b' n lb buf by (intro exI [of _ w]) (auto simp: w_def)
qed

text \<open>The message a closed bundle is: its one field holds the bundled bytes.\<close>

lemma decodeFields_bundle:
  assumes buf: "buf = message_header VERSION iMsgId (of_nat (4 + length bs)) @ bytes32 (makeHeader BUNDLE FIELD_BUNDLE_ID) @ bs @ rest"
    and len: "unat iBufferLen = 20 + length bs" and ne: "bs \<noteq> []"
  shows "\<exists>rd. decodeFields (reader_new (Some buf) iBufferLen cp) = Inr (0, rd) \<and> getMsgId rd = iMsgId \<and>
     getBundleBuffer rd = (0, Some (RawPtr (bs @ rest), of_nat (length bs)))"
proof -
  let ?n = "of_nat (4 + length bs) :: uinttype"
  have small: "20 + length bs < 2 ^ 32"
    using len unat_less [of iBufferLen] by simp
  have u: "unat (of_nat (length bs) :: uinttype) = length bs" "unat ?n = 4 + length bs"
    using small by (simp_all add: unat_of_nat_small del: of_nat_add)
  have nz: "(of_nat (length bs) :: uinttype) \<noteq> 0" "?n \<noteq> 0"
    using u ne by (metis length_0_conv unat_0, metis add_is_0 numeral_neq_zero unat_0)
  have le: "\<not> iBufferLen < ?n + HEADER_SIZE"
    using len u small by (simp add: word_less_nat_alt header_consts wire_consts unat_word_ariths)
  have at: "drop 16 buf = bytes32 (makeHeader BUNDLE FIELD_BUNDLE_ID) @ bs @ rest" "drop 20 buf = bs @ rest"
    by (simp_all add: buf)
  have th: "getTypeId (makeHeader BUNDLE FIELD_BUNDLE_ID) = (BUNDLE, FIELD_BUNDLE_ID)"
    using getTypeId_makeHeader [of BUNDLE FIELD_BUNDLE_ID] by (simp add: FIELD_BUNDLE_ID_def)
  let ?fs = "put_bucket FIELD_BUNDLE_ID BUNDLE (RawPtr (bs @ rest)) (of_nat (length bs)) (\<lambda>_. empty_bucket)"
  have df: "decode_field cp buf 20 (of_nat (length bs)) 4 BUNDLE FIELD_BUNDLE_ID (\<lambda>_. empty_bucket) =
      Inr (Inr (20, of_nat (length bs), of_nat (length bs), ?fs))"
    by (simp add: decode_field_def type_consts header_consts wire_consts at)
  have n4: "?n - 4 = of_nat (length bs)"
    by simp
  have loop: "decode_loop cp buf 16 ?n (\<lambda>_. empty_bucket) = Inr (0, ?fs)"
    using nz by (subst decode_loop.simps, simp add: at ReadFixed32_bytes th df wire_consts n4 del: of_nat_add)
      (simp add: header_consts word_le_nat_alt, subst decode_loop.simps, simp)
  have "ReadFixed32 buf l = Inr (4, DEEP_MAGIC)" "ReadFixed32 (drop 4 buf) l = Inr (4, VERSION)"
      "ReadFixed32 (drop 8 buf) l = Inr (4, iMsgId)" "ReadFixed32 (drop 12 buf) l = Inr (4, ?n)" for l
    by (simp_all add: buf message_header_def ReadFixed32_bytes wire_consts)
  moreover have "iBufferLen \<noteq> 0"
    using len by auto
  ultimately show ?thesis
    using le loop nz by (simp add: decodeFields_def reader_new_def getMsgId_def getBundleBuffer_def
        put_bucket_def Let_def del: of_nat_add)
qed

text \<open>A reader that holds a message: its id, its fields, and no other field.\<close>

definition message_reads :: "reader \<Rightarrow> message \<Rightarrow> bool" where
  "message_reads rd m \<longleftrightarrow>
     getMsgId rd = fst m \<and> (\<forall>(n, v) \<in> set (snd m). field_reads rd n v) \<and>
     (\<forall>n < FIELD_MAX. n \<notin> fst ` set (snd m) \<longrightarrow> field_absent rd n)"

lemma decode_message:
  assumes wf: "wf_message m" and len: "length (encoded_message m) \<le> unat iBufferLen"
  shows "\<exists>rd. decodeFields (reader_new (Some (encoded_message m @ rest)) iBufferLen cp) = Inr (0, rd) \<and>
     message_reads rd m \<and> getEncodedLength rd = of_nat (length (encoded_message m))"
proof -
  have ids: "\<forall>(n, v) \<in> set (snd m). n < FIELD_MAX \<and> wf_val v" and dist: "distinct (map fst (snd m))"
    using wf by (auto simp: wf_message_def)
  have buf: "encoded_message m @ rest = message_header VERSION (fst m) (of_nat (length (payload m))) @
      concat (map encoded_field (snd m)) @ rest"
    by (simp add: encoded_message_def payload_def)
  have len': "16 + length (payload m) \<le> unat iBufferLen"
    using len by simp
  obtain rd where rd: "decodeFields (reader_new (Some (encoded_message m @ rest)) iBufferLen cp) = Inr (0, rd)"
      "r_iMsgId rd = fst m" "r_iBufferLen rd = of_nat (16 + length (payload m))"
    and h: "holds_fields (\<lambda>_. empty_bucket) (snd m) (r_iFields rd)"
    using decodeFields_message [where cp = cp, OF buf _ _ len' ids dist] by (auto simp: payload_def)
  have "message_reads rd m"
    using rd(2) decodeFields_getters [OF h ids] by (simp add: message_reads_def getMsgId_def)
  with rd show ?thesis
    by (auto simp: getEncodedLength_def)
qed

lemma getNextMsg_message:
  assumes wf: "wf_message m" and pos: "br_piPos br = encoded_message m @ rest"
    and len: "length (encoded_message m) \<le> unat (br_iSize br)"
  shows "\<exists>rd br'. getNextMsg br = Inr (Some rd, br') \<and> message_reads rd m \<and> br_piPos br' = rest \<and>
     unat (br_iSize br') = unat (br_iSize br) - length (encoded_message m)"
proof -
  let ?n = "of_nat (length (encoded_message m)) :: uinttype"
  have n: "unat ?n = length (encoded_message m)"
    using wf by (intro unat_of_nat_small) (simp add: wf_message_def)
  have le: "?n \<le> br_iSize br"
    using len by (simp add: word_le_nat_alt n del: length_encoded_message)
  obtain rd where "decodeFields (reader_new (Some (br_piPos br)) (br_iSize br) True) = Inr (0, rd)"
    "message_reads rd m" "getEncodedLength rd = ?n"
    using decode_message [OF wf len, of rest True] pos by auto
  moreover have "br_iSize br \<noteq> 0"
    using len by auto
  ultimately show ?thesis
    using le n unat_sub [OF le] pos
    by (auto simp: getNextMsg_def Let_def simp del: length_encoded_message)
qed

text \<open>A client that takes messages off until there are none.\<close>

fun read_messages :: "nat \<Rightarrow> bundle_reader \<Rightarrow> reader list option result" where
  "read_messages 0 br = Inr None"
| "read_messages (Suc k) br =
     rbind (getNextMsg br) (\<lambda>(r, br').
       case r of
         None \<Rightarrow> Inr (Some [])
       | Some rd \<Rightarrow> rbind (read_messages k br') (\<lambda>rds. Inr (map_option (Cons rd) rds)))"

lemma read_messages_all:
  assumes "\<forall>m \<in> set ms. wf_message m" and "br_piPos br = concat (map encoded_message ms) @ rest"
    and "unat (br_iSize br) = length (concat (map encoded_message ms))" and "length ms < k"
  shows "\<exists>rds. read_messages k br = Inr (Some rds) \<and> list_all2 message_reads rds ms"
  using assms
proof (induction ms arbitrary: br k)
  case Nil
  then have "br_iSize br = 0" by (simp add: unat_eq_0)
  with Nil.prems(4) show ?case
    by (cases k) (auto simp: getNextMsg_def)
next
  case (Cons m ms)
  obtain j where k: "k = Suc j" "length ms < j"
    using Cons.prems(4) by (cases k) auto
  have wf: "wf_message m" and pos: "br_piPos br = encoded_message m @ concat (map encoded_message ms) @ rest"
    and len: "length (encoded_message m) \<le> unat (br_iSize br)"
    using Cons.prems by simp_all
  obtain rd br' where 1: "getNextMsg br = Inr (Some rd, br')" "message_reads rd m"
      "br_piPos br' = concat (map encoded_message ms) @ rest"
      "unat (br_iSize br') = length (concat (map encoded_message ms))"
    using getNextMsg_message [OF wf pos len] Cons.prems(3) by auto
  obtain rds where "read_messages j br' = Inr (Some rds)" "list_all2 message_reads rds ms"
    using Cons.IH [OF _ 1(3,4) k(2)] Cons.prems(1) by auto
  with 1 k show ?case by auto
qed

text \<open>
  After \<open>close\<close> the writer still has its old \<open>m_iWritten\<close> and no buffer, so the remaining space
  wraps around and a reservation is made at a null pointer.
\<close>

lemma reserve_after_close:
  assumes "bw_piBuffer bw = None" and "bw_iBufferLen bw = 0"
    and "0 < unat (bw_iWritten bw)" and "unat (bw_iWritten bw) \<le> 16384" and "unat iBufferLen < 2 ^ 31"
  shows "reserve iBufferLen iMsgId bw = Inl NullDeref"
proof -
  have "unat (- bw_iWritten bw) = 2 ^ 32 - unat (bw_iWritten bw)"
    using assms(3,4) unat_sub_if' [of 0 "bw_iWritten bw"] by simp
  moreover have "unat (iBufferLen + HEADER_SIZE) = 16 + unat iBufferLen"
    using assms(5) by (simp add: header_consts wire_consts unat_word_ariths)
  ultimately show ?thesis
    using assms by (auto simp: reserve_def Let_def word_less_nat_alt)
qed

text \<open>A bundle with nothing in it: the field of length \<open>0\<close> counts as a failed read.\<close>

lemma decodeFields_empty_bundle:
  assumes buf: "buf = message_header VERSION iMsgId 4 @ bytes32 (makeHeader BUNDLE FIELD_BUNDLE_ID) @ rest"
  shows "\<exists>rd. decodeFields (reader_new (Some buf) 20 cp) = Inr (- 5, rd)"
proof -
  have at: "drop 16 buf = bytes32 (makeHeader BUNDLE FIELD_BUNDLE_ID) @ rest"
    by (simp add: buf)
  have th: "getTypeId (makeHeader BUNDLE FIELD_BUNDLE_ID) = (BUNDLE, FIELD_BUNDLE_ID)"
    using getTypeId_makeHeader [of BUNDLE FIELD_BUNDLE_ID] by (simp add: FIELD_BUNDLE_ID_def)
  have "\<exists>fs. decode_loop cp buf 16 4 (\<lambda>_. empty_bucket) = Inr (- 5, fs)"
    by (subst decode_loop.simps, simp add: at ReadFixed32_bytes th wire_consts)
      (simp add: wire_consts decode_field_def type_consts header_consts word_le_nat_alt)
  moreover have "ReadFixed32 buf l = Inr (4, DEEP_MAGIC)" "ReadFixed32 (drop 4 buf) l = Inr (4, VERSION)"
      "ReadFixed32 (drop 8 buf) l = Inr (4, iMsgId)" "ReadFixed32 (drop 12 buf) l = Inr (4, 4)" for l
    by (simp_all add: buf message_header_def ReadFixed32_bytes wire_consts)
  ultimately show ?thesis
    by (auto simp: decodeFields_def reader_new_def header_consts wire_consts)
qed

end
