(* ===== verification/TreeNode.thy ===== *)
theory TreeNode
  imports Prelude
begin

section \<open>Nodes of the search tree\<close>

text \<open>
  The classes \<open>Node\<close>, \<open>Leaf\<close> and \<open>Branch\<close> inside \<open>TreeMap\<close>
  (\<^verbatim>\<open>src/PLATFORM/src/main/native/cxx/util/TreeMap.h\<close> and \<^verbatim>\<open>TreeMap.cxx\<close>), a B*-tree that keeps
  entries in its branches as well. A leaf is its array of entries up to \<open>m_lastIndex\<close>. A branch
  is the node of item \<open>0\<close> and the items from \<open>1\<close> on, each an entry and the node to its right;
  the entry of item \<open>0\<close> is scratch space that is stored before it is read and is not kept.

  Nodes carry parent pointers in the source and notify their parent when they are full or low.
  Here an operation runs along the path from the root, a list of child indices, and returns to
  each branch whether the child below it notifies. Arrays have a fixed capacity: a store or
  load outside of it is the fault \<open>OutOfBounds\<close>.
\<close>

datatype 'e node =
    Leaf "'e list"
  | Branch "'e node" "('e \<times> 'e node) list"

type_synonym 'e branch = "'e node \<times> ('e \<times> 'e node) list"

record limits =
  m_leafLowWater :: nat
  m_leafMaxIndex :: nat
  m_branchLowWater :: nat
  m_branchMaxIndex :: nat

text \<open>The numbers \<open>initialize\<close> computes from the order.\<close>

definition limits_of :: "nat \<Rightarrow> limits" where
  "limits_of order =
     (let leafMaxIndex = 2 * (order + 1) - 1 in
      \<lparr>m_leafLowWater = ((leafMaxIndex + 1) - 1) div 2 - 1, m_leafMaxIndex = leafMaxIndex,
       m_branchLowWater = (order - 1) div 2, m_branchMaxIndex = order\<rparr>)"

fun isLeaf :: "'e node \<Rightarrow> bool" where
  "isLeaf (Leaf _) = True"
| "isLeaf (Branch _ _) = False"

text \<open>\<open>m_lastIndex + 1\<close> of a leaf and \<open>m_lastIndex\<close> of a branch; \<open>getVirtualEntries\<close> adds one to both.\<close>

fun getPhysicalEntries :: "'e node \<Rightarrow> nat" where
  "getPhysicalEntries (Leaf xs) = length xs"
| "getPhysicalEntries (Branch c its) = length its"

definition getVirtualEntries :: "'e node \<Rightarrow> nat" where
  "getVirtualEntries t = getPhysicalEntries t + 1"

fun getMaxPhysicalEntries :: "limits \<Rightarrow> 'e node \<Rightarrow> nat" where
  "getMaxPhysicalEntries self (Leaf xs) = m_leafMaxIndex self + 1"
| "getMaxPhysicalEntries self (Branch c its) = m_branchMaxIndex self"

text \<open>\<open>m_lastIndex\<close> of either class.\<close>

fun lastIndex :: "'e node \<Rightarrow> int" where
  "lastIndex (Leaf xs) = int (length xs) - 1"
| "lastIndex (Branch c its) = int (length its)"

fun getMaxIndex :: "limits \<Rightarrow> 'e node \<Rightarrow> int" where
  "getMaxIndex self (Leaf xs) = int (m_leafMaxIndex self)"
| "getMaxIndex self (Branch c its) = int (m_branchMaxIndex self)"

definition isFull :: "limits \<Rightarrow> 'e node \<Rightarrow> bool" where
  "isFull self t \<longleftrightarrow> lastIndex t = getMaxIndex self t"

definition isAlmostFull :: "limits \<Rightarrow> 'e node \<Rightarrow> bool" where
  "isAlmostFull self t \<longleftrightarrow> lastIndex t \<ge> getMaxIndex self t - 1"

fun isLow :: "limits \<Rightarrow> 'e node \<Rightarrow> bool" where
  "isLow self (Leaf xs) \<longleftrightarrow> int (length xs) - 1 < int (m_leafLowWater self)"
| "isLow self (Branch c its) \<longleftrightarrow> int (length its) < int (m_branchLowWater self)"

subsection \<open>Items of a branch\<close>

definition getNode :: "'e branch \<Rightarrow> nat \<Rightarrow> 'e node" where
  "getNode b i = (if i = 0 then fst b else snd (snd b ! (i - 1)))"

definition getObject :: "'e branch \<Rightarrow> nat \<Rightarrow> 'e" where
  "getObject b i = fst (snd b ! (i - 1))"

definition setNode :: "nat \<Rightarrow> 'e node \<Rightarrow> 'e branch \<Rightarrow> 'e branch" where
  "setNode i t b =
     (if i = 0 then (t, snd b) else (fst b, (snd b)[i - 1 := (fst (snd b ! (i - 1)), t)]))"

definition setObject :: "nat \<Rightarrow> 'e \<Rightarrow> 'e branch \<Rightarrow> 'e branch" where
  "setObject i e b = (fst b, (snd b)[i - 1 := (e, snd (snd b ! (i - 1)))])"

definition insertElement :: "limits \<Rightarrow> 'e node \<Rightarrow> 'e \<Rightarrow> nat \<Rightarrow> 'e branch \<Rightarrow> 'e branch result" where
  "insertElement self t e i b =
     (if 1 \<le> i \<and> i \<le> length (snd b) + 1 \<and> length (snd b) + 1 \<le> m_branchMaxIndex self
      then Inr (fst b, take (i - 1) (snd b) @ (e, t) # drop (i - 1) (snd b))
      else Inl OutOfBounds)"

text \<open>The shift of \<open>removeItem\<close>; the notification that follows it is in \<open>branch_isLow\<close>.\<close>

definition removeItem_shift :: "nat \<Rightarrow> 'e branch \<Rightarrow> 'e branch" where
  "removeItem_shift i b = (fst b, take (i - 1) (snd b) @ drop i (snd b))"

subsection \<open>Moving entries between two leaves\<close>

text \<open>
  Each operation works on the two arrays and the entry of the parent between them, and returns
  all three. Counts are signed: they are differences in the source.
\<close>

definition leaf_append :: "limits \<Rightarrow> 'e \<Rightarrow> 'e list \<Rightarrow> 'e list result" where
  "leaf_append self e xs = (if length xs \<le> m_leafMaxIndex self then Inr (xs @ [e]) else Inl OutOfBounds)"

definition leaf_appendFrom :: "limits \<Rightarrow> 'e list \<Rightarrow> int \<Rightarrow> int \<Rightarrow> 'e list \<Rightarrow> 'e list result" where
  "leaf_appendFrom self source begin end xs =
     (if begin > end then Inr xs
      else if 0 \<le> begin \<and> end < int (length source) \<and>
              int (length xs) + (end - begin + 1) \<le> int (m_leafMaxIndex self) + 1
      then Inr (xs @ take (nat (end - begin + 1)) (drop (nat begin) source))
      else Inl OutOfBounds)"

definition leaf_shiftLeft :: "int \<Rightarrow> 'e list \<Rightarrow> 'e list result" where
  "leaf_shiftLeft count xs =
     (if count \<le> 0 then Inr xs
      else if count \<le> int (length xs) then Inr (drop (nat count) xs) else Inl OutOfBounds)"

text \<open>\<open>this->pushLeft(indexFromHere, lNode, pIndex)\<close> gives \<open>(lNode, the entry, this)\<close>.\<close>

definition leaf_pushLeft :: "limits \<Rightarrow> int \<Rightarrow> 'e list \<Rightarrow> 'e \<Rightarrow> 'e list \<Rightarrow> ('e list \<times> 'e \<times> 'e list) result" where
  "leaf_pushLeft self indexFromHere lNode sep this =
     rbind (leaf_append self sep lNode) (\<lambda>l1.
     rbind (if indexFromHere > 1 then leaf_appendFrom self this 0 (indexFromHere - 2) l1 else Inr l1) (\<lambda>l2.
     rbind (if 1 \<le> indexFromHere then peek this (nat (indexFromHere - 1)) else Inl OutOfBounds) (\<lambda>sep'.
     rbind (leaf_shiftLeft indexFromHere this) (\<lambda>this'. Inr (l2, sep', this')))))"

text \<open>
  \<open>this->pushRight(indexFromHere, rNode, pIndex)\<close> gives \<open>(this, the entry, rNode)\<close>: the entries
  of \<open>rNode\<close> move up by \<open>indexFromHere\<close>, the entry of the parent goes in front of them, the
  entries behind \<open>begin\<close> in front of it, and the one at \<open>begin\<close> to the parent.
\<close>

definition leaf_pushRight :: "limits \<Rightarrow> int \<Rightarrow> 'e list \<Rightarrow> 'e \<Rightarrow> 'e list \<Rightarrow> ('e list \<times> 'e \<times> 'e list) result" where
  "leaf_pushRight self indexFromHere this sep rNode =
     (let begin = int (length this) - indexFromHere in
      if 1 \<le> indexFromHere \<and> 0 \<le> begin \<and>
         int (length rNode) + indexFromHere \<le> int (m_leafMaxIndex self) + 1
      then Inr (take (nat begin) this, this ! nat begin, drop (nat begin + 1) this @ sep # rNode)
      else Inl OutOfBounds)"

subsection \<open>Moving items between two branches\<close>

text \<open>
  With the entry of the parent stored in item \<open>0\<close> of the right branch, the items of both are one
  sequence. A count that is not positive makes \<open>pushLeft\<close> do nothing.
\<close>

definition branch_pushLeft ::
  "limits \<Rightarrow> int \<Rightarrow> 'e branch \<Rightarrow> 'e \<Rightarrow> 'e branch \<Rightarrow> ('e branch \<times> 'e \<times> 'e branch) result" where
  "branch_pushLeft self indexFromHere lNode sep this =
     (let items = (sep, fst this) # snd this; i = nat indexFromHere in
      if i \<le> length (snd this) \<and> length (snd lNode) + i \<le> m_branchMaxIndex self
      then Inr ((fst lNode, snd lNode @ take i items), fst (items ! i), (snd (items ! i), drop (i + 1) items))
      else Inl OutOfBounds)"

definition branch_pushRight ::
  "limits \<Rightarrow> int \<Rightarrow> 'e branch \<Rightarrow> 'e \<Rightarrow> 'e branch \<Rightarrow> ('e branch \<times> 'e \<times> 'e branch) result" where
  "branch_pushRight self indexFromHere this sep rNode =
     (let n = length (snd this); i = nat indexFromHere;
          items = drop (n - i) (snd this) @ (sep, fst rNode) # snd rNode in
      if 0 \<le> indexFromHere \<and> i \<le> n \<and> length (snd rNode) + i \<le> m_branchMaxIndex self
      then Inr ((fst this, take (n - i) (snd this)), fst (hd items), (snd (hd items), tl items))
      else Inl OutOfBounds)"

subsection \<open>Balancing, merging and splitting siblings\<close>

text \<open>
  The source has each of these twice, for leaves and for branches, with the same arithmetic.
  Siblings of different classes would be a wrong cast.
\<close>

fun pushLeft :: "limits \<Rightarrow> int \<Rightarrow> 'e node \<Rightarrow> 'e \<Rightarrow> 'e node \<Rightarrow> ('e node \<times> 'e \<times> 'e node) result" where
  "pushLeft self n (Leaf ls) sep (Leaf rs) =
     rbind (leaf_pushLeft self n ls sep rs) (\<lambda>(l, s, r). Inr (Leaf l, s, Leaf r))"
| "pushLeft self n (Branch lc ls) sep (Branch rc rs) =
     rbind (branch_pushLeft self n (lc, ls) sep (rc, rs))
       (\<lambda>(l, s, r). Inr (Branch (fst l) (snd l), s, Branch (fst r) (snd r)))"
| "pushLeft self n _ sep _ = Inl BadCast"

fun pushRight :: "limits \<Rightarrow> int \<Rightarrow> 'e node \<Rightarrow> 'e \<Rightarrow> 'e node \<Rightarrow> ('e node \<times> 'e \<times> 'e node) result" where
  "pushRight self n (Leaf ls) sep (Leaf rs) =
     rbind (leaf_pushRight self n ls sep rs) (\<lambda>(l, s, r). Inr (Leaf l, s, Leaf r))"
| "pushRight self n (Branch lc ls) sep (Branch rc rs) =
     rbind (branch_pushRight self n (lc, ls) sep (rc, rs))
       (\<lambda>(l, s, r). Inr (Branch (fst l) (snd l), s, Branch (fst r) (snd r)))"
| "pushRight self n _ sep _ = Inl BadCast"

text \<open>\<open>rNode->balanceWithLeft(lNode)\<close>, \<open>lNode->balanceWithRight(rNode)\<close>, \<open>lNode->balanceWith(rNode)\<close>.\<close>

definition balanceWithLeft :: "limits \<Rightarrow> 'e node \<Rightarrow> 'e \<Rightarrow> 'e node \<Rightarrow> ('e node \<times> 'e \<times> 'e node) result" where
  "balanceWithLeft self lNode sep this =
     (let newSize = (getVirtualEntries this + getPhysicalEntries lNode) div 2 in
      pushLeft self (int (getPhysicalEntries this) - int newSize) lNode sep this)"

definition balanceWithRight :: "limits \<Rightarrow> 'e node \<Rightarrow> 'e \<Rightarrow> 'e node \<Rightarrow> ('e node \<times> 'e \<times> 'e node) result" where
  "balanceWithRight self this sep rNode =
     (let newSize = (getPhysicalEntries this + getVirtualEntries rNode) div 2 in
      pushRight self (int (getPhysicalEntries this) - int newSize) this sep rNode)"

definition balanceWith :: "limits \<Rightarrow> 'e node \<Rightarrow> 'e \<Rightarrow> 'e node \<Rightarrow> ('e node \<times> 'e \<times> 'e node) result" where
  "balanceWith self this sep rNode =
     (if getPhysicalEntries this < getVirtualEntries rNode
      then balanceWithLeft self this sep rNode
      else balanceWithRight self this sep rNode)"

text \<open>\<open>mergeWithRight\<close> without the \<open>removeItem\<close> of the parent: the merged left sibling.\<close>

fun mergeWithRight :: "limits \<Rightarrow> 'e node \<Rightarrow> 'e \<Rightarrow> 'e node \<Rightarrow> 'e node result" where
  "mergeWithRight self (Leaf ls) sep (Leaf rs) =
     rbind (leaf_pushLeft self (int (length rs)) ls sep rs) (\<lambda>(l, s, r).
     rbind (leaf_append self s l) (\<lambda>l'. Inr (Leaf l')))"
| "mergeWithRight self (Branch lc ls) sep (Branch rc rs) =
     rbind (if length rs > 0 then branch_pushLeft self (int (length rs)) (lc, ls) sep (rc, rs)
            else Inr ((lc, ls), sep, (rc, rs))) (\<lambda>(l, s, r).
       if length (snd l) + 1 \<le> m_branchMaxIndex self
       then Inr (Branch (fst l) (snd l @ [(s, fst r)])) else Inl OutOfBounds)"
| "mergeWithRight self _ sep _ = Inl BadCast"

text \<open>
  \<open>lNode->splitWith(rNode)\<close> without the insertion into the parent: three siblings and the two
  entries between them, of which the first goes with the new node. The test \<open>indexFromHere > 2\<close>
  is that of the source.
\<close>

definition leaf_splitWith :: "limits \<Rightarrow> 'e list \<Rightarrow> 'e \<Rightarrow> 'e list \<Rightarrow>
    ('e list \<times> 'e \<times> 'e list \<times> 'e \<times> 'e list) result" where
  "leaf_splitWith self this sep rNode =
     (let numberOfKeys = length this + (length rNode + 1);
          newSizeOne3rd = numberOfKeys div 3;
          newSizeOneHalf = (numberOfKeys - newSizeOne3rd) div 2;
          newSizeOfNode = numberOfKeys - newSizeOne3rd - newSizeOneHalf;
          indexFromHere = int (length this) - int newSizeOne3rd;
          indexFromNode = int (length rNode + 1) - int newSizeOfNode in
      if this = [] then Inl OutOfBounds
      else
        rbind (leaf_pushRight self (indexFromHere - 1) (butlast this) (last this) []) (\<lambda>(l, s1, n).
        rbind (leaf_pushLeft self indexFromNode n sep rNode) (\<lambda>(n', s2, r).
          Inr (l, s1, n', s2, r))))"

definition branch_splitWith :: "limits \<Rightarrow> 'e branch \<Rightarrow> 'e \<Rightarrow> 'e branch \<Rightarrow>
    ('e branch \<times> 'e \<times> 'e branch \<times> 'e \<times> 'e branch) result" where
  "branch_splitWith self this sep rNode =
     (let numberOfKeys = length (snd this) + (length (snd rNode) + 1);
          newSizeOne3rd = numberOfKeys div 3;
          newSizeOneHalf = (numberOfKeys - newSizeOne3rd) div 2;
          newSizeOfNode = numberOfKeys - newSizeOne3rd - newSizeOneHalf;
          indexFromHere = int (length (snd this)) - int newSizeOne3rd;
          indexFromNode = int (length (snd rNode) + 1) - int newSizeOfNode in
      if indexFromHere > 0 then
        let (k, c) = last (snd this); this1 = (fst this, butlast (snd this)) in
        rbind (if indexFromHere > 2 then branch_pushRight self (indexFromHere - 1) this1 k (c, [])
               else Inr (this1, k, (c, []))) (\<lambda>(l, s1, n).
        rbind (branch_pushLeft self indexFromNode n sep rNode) (\<lambda>(n', s2, r).
          Inr (l, s1, n', s2, r)))
      else
        case snd rNode of
          [] \<Rightarrow> Inl OutOfBounds
        | (k, c) # its \<Rightarrow>
            rbind (branch_pushLeft self (indexFromNode - 1) (fst rNode, []) k (c, its)) (\<lambda>(n, s2, r).
              Inr (this, sep, n, s2, r)))"

fun splitWith :: "limits \<Rightarrow> 'e node \<Rightarrow> 'e \<Rightarrow> 'e node \<Rightarrow>
    ('e node \<times> 'e \<times> 'e node \<times> 'e \<times> 'e node) result" where
  "splitWith self (Leaf ls) sep (Leaf rs) =
     rbind (leaf_splitWith self ls sep rs) (\<lambda>(l, s1, n, s2, r). Inr (Leaf l, s1, Leaf n, s2, Leaf r))"
| "splitWith self (Branch lc ls) sep (Branch rc rs) =
     rbind (branch_splitWith self (lc, ls) sep (rc, rs)) (\<lambda>(l, s1, n, s2, r).
       Inr (Branch (fst l) (snd l), s1, Branch (fst n) (snd n), s2, Branch (fst r) (snd r)))"
| "splitWith self _ sep _ = Inl BadCast"

text \<open>\<open>notifyRootFull\<close>: a new root above the old one, which \<open>split\<close> cuts in two.\<close>

fun notifyRootFull :: "limits \<Rightarrow> 'e node \<Rightarrow> 'e node result" where
  "notifyRootFull self (Leaf xs) =
     (if xs = [] then Inl OutOfBounds
      else rbind (balanceWithRight self (Leaf (butlast xs)) (last xs) (Leaf []))
             (\<lambda>(l, s, r). Inr (Branch l [(s, r)])))"
| "notifyRootFull self (Branch c its) =
     (if its = [] then Inl OutOfBounds
      else rbind (balanceWithRight self (Branch c (butlast its)) (fst (last its)) (Branch (snd (last its)) []))
             (\<lambda>(l, s, r). Inr (Branch l [(s, r)])))"

subsection \<open>What a branch does when a child notifies\<close>

text \<open>
  \<open>this->isFull(node, sequential)\<close> for the child at \<open>index\<close>. The result says whether the branch,
  after a split, notifies its own parent.
\<close>

definition split_children :: "limits \<Rightarrow> nat \<Rightarrow> 'e branch \<Rightarrow> (bool \<times> 'e branch) result" where
  "split_children self kIndex b =
     rbind (splitWith self (getNode b (kIndex - 1)) (getObject b kIndex) (getNode b kIndex)) (\<lambda>(l, s1, n, s2, r).
     rbind (insertElement self n s1 kIndex b) (\<lambda>b'.
       let b'' = setObject (kIndex + 1) s2 (setNode (kIndex + 1) r (setNode (kIndex - 1) l b')) in
       Inr (isFull self (Branch (fst b'') (snd b'')), b'')))"

definition balance_children ::
  "('e node \<Rightarrow> 'e \<Rightarrow> 'e node \<Rightarrow> ('e node \<times> 'e \<times> 'e node) result) \<Rightarrow> nat \<Rightarrow> 'e branch \<Rightarrow> (bool \<times> 'e branch) result" where
  "balance_children f pIndex b =
     rbind (f (getNode b (pIndex - 1)) (getObject b pIndex) (getNode b pIndex)) (\<lambda>(l, s, r).
       Inr (False, setObject pIndex s (setNode pIndex r (setNode (pIndex - 1) l b))))"

definition branch_isFull :: "limits \<Rightarrow> nat \<Rightarrow> bool \<Rightarrow> 'e branch \<Rightarrow> (bool \<times> 'e branch) result" where
  "branch_isFull self i sequential b =
     (let index = (if sequential \<and> isLeaf (getNode b i) then length (snd b) else i);
          hasRight = index < length (snd b);
          hasLeft = index > 0;
          rightFull = (hasRight \<and> isAlmostFull self (getNode b (index + 1)));
          leftFull = (hasLeft \<and> isAlmostFull self (getNode b (index - 1))) in
      if rightFull then
        (if leftFull then split_children self index b
         else if hasLeft then balance_children (balanceWithLeft self) index b
         else split_children self (index + 1) b)
      else if hasRight then balance_children (balanceWithRight self) (index + 1) b
      else if leftFull then split_children self index b
      else if hasLeft then balance_children (balanceWithLeft self) index b
      else Inr (False, b))"

text \<open>\<open>this->isLow(node)\<close> for the child at \<open>index\<close>; after a merge the branch may be low itself.\<close>

definition merge_children :: "limits \<Rightarrow> nat \<Rightarrow> 'e branch \<Rightarrow> (bool \<times> 'e branch) result" where
  "merge_children self pIndex b =
     rbind (mergeWithRight self (getNode b (pIndex - 1)) (getObject b pIndex) (getNode b pIndex)) (\<lambda>l.
       let b' = removeItem_shift pIndex (setNode (pIndex - 1) l b) in
       Inr (isLow self (Branch (fst b') (snd b')), b'))"

definition branch_isLow :: "limits \<Rightarrow> nat \<Rightarrow> 'e branch \<Rightarrow> (bool \<times> 'e branch) result" where
  "branch_isLow self index b =
     (let node = getNode b index;
          hasRight = index < length (snd b);
          hasLeft = index > 0 in
      if hasRight \<and> getPhysicalEntries node + getVirtualEntries (getNode b (index + 1)) \<ge> getMaxPhysicalEntries self node
      then balance_children (balanceWith self) (index + 1) b
      else if hasLeft \<and> getVirtualEntries node + getPhysicalEntries (getNode b (index - 1)) \<ge> getMaxPhysicalEntries self node
      then balance_children (balanceWith self) index b
      else if hasLeft then merge_children self index b
      else if hasRight then merge_children self (index + 1) b
      else Inr (False, b))"

subsection \<open>Insertion and removal along a path\<close>

definition leaf_insert :: "limits \<Rightarrow> 'e \<Rightarrow> nat \<Rightarrow> 'e list \<Rightarrow> 'e list result" where
  "leaf_insert self e i xs =
     (if i \<le> length xs \<and> length xs \<le> m_leafMaxIndex self
      then Inr (take i xs @ e # drop i xs) else Inl OutOfBounds)"

text \<open>
  \<open>Leaf::insert\<close> at the end of the path, and the notifications that follow it upwards; the flag
  says whether the node notifies its parent.
\<close>

fun insert_at :: "limits \<Rightarrow> bool \<Rightarrow> nat list \<Rightarrow> nat \<Rightarrow> 'e \<Rightarrow> 'e node \<Rightarrow> (bool \<times> 'e node) result" where
  "insert_at self sequential [] index e (Leaf xs) =
     rbind (leaf_insert self e index xs) (\<lambda>xs'. Inr (isFull self (Leaf xs'), Leaf xs'))"
| "insert_at self sequential (i # path) index e (Branch c its) =
     rbind (insert_at self sequential path index e (getNode (c, its) i)) (\<lambda>(notify, t).
       let b = setNode i t (c, its) in
       if notify
       then rbind (branch_isFull self i sequential b) (\<lambda>(notify', b'). Inr (notify', Branch (fst b') (snd b')))
       else Inr (False, Branch (fst b) (snd b)))"
| "insert_at self sequential _ index e _ = Inl BadCast"

definition leaf_remove :: "nat \<Rightarrow> 'e list \<Rightarrow> 'e list result" where
  "leaf_remove i xs = (if i < length xs then Inr (take i xs @ drop (Suc i) xs) else Inl OutOfBounds)"

fun remove_leaf_at :: "limits \<Rightarrow> nat list \<Rightarrow> nat \<Rightarrow> 'e node \<Rightarrow> (bool \<times> 'e node) result" where
  "remove_leaf_at self [] index (Leaf xs) =
     rbind (leaf_remove index xs) (\<lambda>xs'. Inr (isLow self (Leaf xs'), Leaf xs'))"
| "remove_leaf_at self (i # path) index (Branch c its) =
     rbind (remove_leaf_at self path index (getNode (c, its) i)) (\<lambda>(notify, t).
       let b = setNode i t (c, its) in
       if notify
       then rbind (branch_isLow self i b) (\<lambda>(notify', b'). Inr (notify', Branch (fst b') (snd b')))
       else Inr (False, Branch (fst b) (snd b)))"
| "remove_leaf_at self _ index _ = Inl BadCast"

fun firstLeaf :: "'e node \<Rightarrow> 'e list" where
  "firstLeaf (Leaf xs) = xs"
| "firstLeaf (Branch c its) = firstLeaf c"

fun first_path :: "'e node \<Rightarrow> nat list" where
  "first_path (Leaf xs) = []"
| "first_path (Branch c its) = 0 # first_path c"

lemma size_last_item [termination_simp]:
  "its \<noteq> [] \<Longrightarrow> size (snd (last its)) < Suc (size_list (\<lambda>x. Suc (size (snd x))) its + n)"
  by (rule le_imp_less_Suc, rule trans_le_add1, rule size_list_estimation' [of "last its"]) auto

lemma size_nth_item [termination_simp]:
  "i < length its \<Longrightarrow> size (snd (its ! i)) < Suc (size_list (\<lambda>x. Suc (size (snd x))) its + n)"
  by (rule le_imp_less_Suc, rule trans_le_add1, rule size_list_estimation' [of "its ! i"]) auto

fun lastLeaf :: "'e node \<Rightarrow> 'e list" where
  "lastLeaf (Leaf xs) = xs"
| "lastLeaf (Branch c its) = (if its = [] then lastLeaf c else lastLeaf (snd (last its)))"

fun last_path :: "'e node \<Rightarrow> nat list" where
  "last_path (Leaf xs) = []"
| "last_path (Branch c its) = length its # (if its = [] then last_path c else last_path (snd (last its)))"

text \<open>
  \<open>remove\<close> of the node at the path: a leaf drops the entry, a branch takes the first entry of
  the leaf behind it into its place and removes it there.
\<close>

fun remove_at :: "limits \<Rightarrow> nat list \<Rightarrow> nat \<Rightarrow> 'e node \<Rightarrow> (bool \<times> 'e node) result" where
  "remove_at self [] index (Leaf xs) = remove_leaf_at self [] index (Leaf xs)"
| "remove_at self [] index (Branch c its) =
     (let t = getNode (c, its) index; b = setObject index (hd (firstLeaf t)) (c, its) in
      remove_leaf_at self (index # first_path t) 0 (Branch (fst b) (snd b)))"
| "remove_at self (i # path) index (Branch c its) =
     rbind (remove_at self path index (getNode (c, its) i)) (\<lambda>(notify, t).
       let b = setNode i t (c, its) in
       if notify
       then rbind (branch_isLow self i b) (\<lambda>(notify', b'). Inr (notify', Branch (fst b') (snd b')))
       else Inr (False, Branch (fst b) (snd b)))"
| "remove_at self (i # path) index (Leaf xs) = Inl BadCast"


subsection \<open>Searching\<close>

text \<open>\<open>Comparator<T>::compare\<close> for the integer types.\<close>

definition compare :: "'k::linorder \<Rightarrow> 'k \<Rightarrow> int" where
  "compare o1 o2 = (if o1 < o2 then - 1 else if o1 = o2 then 0 else 1)"

text \<open>
  The search in one node, over the keys of its entries: \<open>base\<close> is the index of the first one,
  \<open>0\<close> in a leaf and \<open>1\<close> in a branch. The loop ends at an equal key or with \<open>start\<close> and \<open>last\<close>;
  then a scan from \<open>start\<close> to \<open>last\<close> (here \<open>upper\<close>) looks for a greater key.
\<close>

datatype search_result =
    Found nat
  | Before nat
  | AtEnd

function bsearch_loop :: "'k::linorder list \<Rightarrow> int \<Rightarrow> 'k \<Rightarrow> int \<Rightarrow> int \<Rightarrow> int \<Rightarrow> int + int \<times> int" where
  "bsearch_loop ks base what start finish upper =
     (if start \<le> finish then
        let mid = (start + finish) div 2; weight = compare (ks ! nat (mid - base)) what in
        if weight = 0 then Inl mid
        else if weight < 0 then bsearch_loop ks base what (mid + 1) finish upper
        else bsearch_loop ks base what start (mid - 1) finish
      else Inr (start, upper))"
  by pat_completeness auto
termination
  by (relation "measure (\<lambda>(ks, base, what, start, finish, upper). nat (finish - start + 1))") auto

declare bsearch_loop.simps [simp del]

function bsearch_scan :: "'k::linorder list \<Rightarrow> int \<Rightarrow> 'k \<Rightarrow> int \<Rightarrow> int \<Rightarrow> search_result" where
  "bsearch_scan ks base what i upper =
     (if i \<le> upper then
        (if compare (ks ! nat (i - base)) what > 0 then Before (nat i) else bsearch_scan ks base what (i + 1) upper)
      else AtEnd)"
  by pat_completeness auto
termination
  by (relation "measure (\<lambda>(ks, base, what, i, upper). nat (upper - i + 1))") auto

declare bsearch_scan.simps [simp del]

definition node_search :: "'k::linorder list \<Rightarrow> int \<Rightarrow> 'k \<Rightarrow> search_result" where
  "node_search ks base what =
     (case bsearch_loop ks base what base (base + int (length ks) - 1) (- 1) of
        Inl mid \<Rightarrow> Found (nat mid)
      | Inr (start, upper) \<Rightarrow> if upper \<noteq> - 1 then bsearch_scan ks base what start upper else AtEnd)"

lemma bsearch_loop_upper:
  "bsearch_loop ks base what start finish upper = Inr (s, u) \<Longrightarrow> u \<le> max finish upper"
proof (induction ks base what start finish upper rule: bsearch_loop.induct)
  case (1 ks base what start finish upper)
  let ?mid = "(start + finish) div 2"
  let ?w = "compare (ks ! nat (?mid - base)) what"
  show ?case
  proof (cases "start \<le> finish")
    case True
    then have "?mid \<le> finish" by simp
    with True "1.prems" "1.IH" show ?thesis
      by (cases "?w = 0"; cases "?w < 0")
        (auto simp: bsearch_loop.simps [of ks base what start] Let_def le_max_iff_disj)
  next
    case False
    with "1.prems" show ?thesis
      by (simp add: bsearch_loop.simps [of ks base what start])
  qed
qed

lemma bsearch_scan_Before: "bsearch_scan ks base what i upper = Before j \<Longrightarrow> int j \<le> max 0 upper"
proof (induction ks base what i upper rule: bsearch_scan.induct)
  case (1 ks base what i upper)
  from "1.prems" show ?case
    by (subst (asm) bsearch_scan.simps) (auto split: if_splits dest: "1.IH")
qed

lemma node_search_Before: "node_search ks base what = Before j \<Longrightarrow> 0 \<le> base \<Longrightarrow> int j \<le> base + int (length ks)"
  by (auto simp: node_search_def split: sum.splits if_splits dest!: bsearch_scan_Before bsearch_loop_upper)

text \<open>
  \<open>find\<close>: the entry or null, the node it is in or belongs to as a path, the location there, and
  whether \<open>*end\<close> is set, that is, whether the key is behind all others.
\<close>

lemma size_getNode: "i \<le> length its \<Longrightarrow> size (getNode (c, its) i) < size (Branch c its)"
proof (cases i)
  case (Suc j)
  assume "i \<le> length its"
  with Suc have "its ! j \<in> set its" by simp
  then have "size (snd (its ! j)) \<le> size_list (size_prod (\<lambda>_. 0) size) its"
    by (rule size_list_estimation') (cases "its ! j"; simp)
  with Suc show ?thesis
    by (simp add: getNode_def)
qed (simp add: getNode_def)

function node_find :: "('k::linorder \<times> 'v) node \<Rightarrow> 'k \<Rightarrow> ('k \<times> 'v) option \<times> nat list \<times> nat \<times> bool" where
  "node_find (Leaf xs) what =
     (case node_search (map fst xs) 0 what of
        Found i \<Rightarrow> (Some (xs ! i), [], i, False)
      | Before i \<Rightarrow> (None, [], i, False)
      | AtEnd \<Rightarrow> (None, [], length xs, True))"
| "node_find (Branch c its) what =
     (case node_search (map (fst \<circ> fst) its) 1 what of
        Found i \<Rightarrow> (Some (getObject (c, its) i), [], i, False)
      | Before i \<Rightarrow>
          (case node_find (getNode (c, its) (i - 1)) what of (x, path, loc, e) \<Rightarrow> (x, (i - 1) # path, loc, False))
      | AtEnd \<Rightarrow>
          (case node_find (getNode (c, its) (length its)) what of (x, path, loc, e) \<Rightarrow> (x, length its # path, loc, e)))"
  by pat_completeness auto
termination
proof (relation "measure (\<lambda>(t, what). size t)", goal_cases)
  case (2 c its what i)
  then show ?case
    using node_search_Before [of "map (fst \<circ> fst) its" 1 what i] size_getNode [of "i - 1" its c]
    by auto
next
  case (3 c its what)
  then show ?case
    using size_getNode [of "length its" its c] by simp
qed simp

end
