(* ===== verification/TreeShape.thy ===== *)
theory TreeShape
  imports TreeNode
begin

section \<open>The shape of the tree under insertion and removal\<close>

text \<open>
  The entries of a tree in order, the invariant on its height and on the number of entries in
  its nodes, and the lemmas that every rebalancing step keeps both: balancing, merging and
  splitting siblings, what a branch does when a child is full or low, and insertion and removal
  along a path. None of the steps runs into a fault on a tree in shape.
\<close>

subsection \<open>The entries of a tree in order\<close>

fun inorder :: "'e node \<Rightarrow> 'e list" where
  "inorder (Leaf xs) = xs"
| "inorder (Branch c its) = inorder c @ concat (map (\<lambda>it. fst it # inorder (snd it)) its)"

definition flat :: "('e \<times> 'e node) list \<Rightarrow> 'e list" where
  "flat its = concat (map (\<lambda>it. fst it # inorder (snd it)) its)"

lemma inorder_Branch [simp]: "inorder (Branch c its) = inorder c @ flat its"
  by (simp add: flat_def)

declare inorder.simps(2) [simp del]

lemma flat_simps [simp]:
  "flat [] = []" "flat (it # its) = fst it # inorder (snd it) @ flat its"
  "flat (as @ bs) = flat as @ flat bs"
  by (simp_all add: flat_def)

text \<open>
  A branch seen from one of its children: what stands before the child, the child, and the
  items behind it.
\<close>

type_synonym 'e before = "('e node \<times> ('e \<times> 'e node) list \<times> 'e) option"

fun plug :: "'e before \<Rightarrow> 'e node \<Rightarrow> ('e \<times> 'e node) list \<Rightarrow> 'e branch" where
  "plug None t its = (t, its)"
| "plug (Some (c, as, a)) t its = (c, as @ (a, t) # its)"

fun zlen :: "'e before \<Rightarrow> nat" where
  "zlen None = 0"
| "zlen (Some (c, as, a)) = Suc (length as)"

fun front :: "'e before \<Rightarrow> 'e list" where
  "front None = []"
| "front (Some (c, as, a)) = inorder c @ flat as @ [a]"

definition node_of :: "'e branch \<Rightarrow> 'e node" where
  "node_of b = Branch (fst b) (snd b)"

lemma node_of_simps [simp]: "getPhysicalEntries (node_of b) = length (snd b)" "isLeaf (node_of b) = False"
  by (simp_all add: node_of_def)

lemma plugE:
  assumes "i \<le> length (snd b)"
  obtains z its where "b = plug z (getNode b i) its" "zlen z = i"
proof (cases i)
  case 0
  then have "b = plug None (getNode b i) (snd b)"
    by (simp add: getNode_def)
  with 0 show ?thesis
    using that [of None] by simp
next
  case (Suc j)
  let ?z = "Some (fst b, take j (snd b), fst (snd b ! j))"
  have "b = plug ?z (getNode b i) (drop i (snd b))"
    using Suc assms by (simp add: getNode_def id_take_nth_drop [symmetric] prod_eq_iff)
  with Suc assms show ?thesis
    using that [of ?z] by simp
qed

lemma plugE_right:
  assumes "i < length (snd b)"
  obtains z e t its where "b = plug z (getNode b i) ((e, t) # its)" "zlen z = i"
proof -
  obtain z its where b: "b = plug z (getNode b i) its" and z: "zlen z = i"
    using assms by (meson less_imp_le plugE)
  then have "its \<noteq> []"
    using assms by (cases z rule: zlen.cases) (metis fst_conv snd_conv plug.simps length_append list.size(3) nat_less_le less_irrefl zlen.simps add_0 length_Cons add_Suc_right add_0_right)+
  then obtain e t its' where "its = (e, t) # its'"
    by (metis list.exhaust prod.exhaust)
  with b z that show ?thesis by metis
qed

lemma plug_simps [simp]:
  "length (snd (plug z t its)) = zlen z + length its"
  "getNode (plug z t its) (zlen z) = t"
  "setNode (zlen z) t' (plug z t its) = plug z t' its"
  "getNode (plug z t ((e, u) # its)) (Suc (zlen z)) = u"
  "getObject (plug z t ((e, u) # its)) (Suc (zlen z)) = e"
  "setNode (Suc (zlen z)) u' (plug z t ((e, u) # its)) = plug z t ((e, u') # its)"
  "setObject (Suc (zlen z)) e' (plug z t ((e, u) # its)) = plug z t ((e', u) # its)"
  "setNode (Suc (Suc (zlen z))) v' (plug z t (it # (e, v) # its)) = plug z t (it # (e, v') # its)"
  "setObject (Suc (Suc (zlen z))) e' (plug z t (it # (e, v) # its)) = plug z t (it # (e', v) # its)"
  "removeItem_shift (Suc (zlen z)) (plug z t (it # its)) = plug z t its"
  by (cases "(z, t, its)" rule: plug.cases;
      simp add: getNode_def setNode_def getObject_def setObject_def removeItem_shift_def nth_append list_update_append)+

lemma insertElement_plug [simp]:
  "insertElement self u e (Suc (zlen z)) (plug z t its) =
     (if zlen z + length its < m_branchMaxIndex self then Inr (plug z t ((e, u) # its)) else Inl OutOfBounds)"
  by (cases "(z, t, its)" rule: plug.cases) (auto simp: insertElement_def)

lemma inorder_plug [simp]: "inorder (node_of (plug z t its)) = front z @ inorder t @ flat its"
  by (cases "(z, t, its)" rule: plug.cases) (auto simp: node_of_def)


subsection \<open>The shape invariant\<close>

text \<open>
  For order \<open>n \<ge> 3\<close>: all leaves at the same depth, between \<open>n\<close> and \<open>2n+1\<close> entries in a leaf,
  between \<open>min_items n\<close> and \<open>n-1\<close> items in a branch, except at the root. The lower bound of a
  branch is its low-water mark, but for order \<open>5\<close>, where a split leaves a branch of one item.
\<close>

definition min_items :: "nat \<Rightarrow> nat" where
  "min_items n = (if n = 5 then 1 else (n - 1) div 2)"

fun ok :: "nat \<Rightarrow> nat \<Rightarrow> 'e node \<Rightarrow> bool" where
  "ok n 0 (Leaf xs) \<longleftrightarrow> n \<le> length xs \<and> length xs \<le> 2 * n + 1"
| "ok n (Suc h) (Branch c its) \<longleftrightarrow>
     min_items n \<le> length its \<and> length its \<le> n - 1 \<and> ok n h c \<and> (\<forall>it \<in> set its. ok n h (snd it))"
| "ok n _ _ \<longleftrightarrow> False"

text \<open>Everything below a node is in shape, whatever its own size.\<close>

fun kids :: "nat \<Rightarrow> nat \<Rightarrow> 'e node \<Rightarrow> bool" where
  "kids n 0 (Leaf xs) \<longleftrightarrow> True"
| "kids n (Suc h) (Branch c its) \<longleftrightarrow> ok n h c \<and> (\<forall>it \<in> set its. ok n h (snd it))"
| "kids n _ _ \<longleftrightarrow> False"

fun lo :: "nat \<Rightarrow> 'e node \<Rightarrow> nat" where
  "lo n (Leaf _) = n"
| "lo n (Branch _ _) = min_items n"

fun hi :: "nat \<Rightarrow> 'e node \<Rightarrow> nat" where
  "hi n (Leaf _) = 2 * n + 1"
| "hi n (Branch _ _) = n - 1"

lemma lo_hi_node_of [simp]: "hi n (node_of b) = n - 1" "lo n (node_of b) = min_items n"
  by (simp_all add: node_of_def)

abbreviation phys :: "'e node \<Rightarrow> nat" where
  "phys \<equiv> getPhysicalEntries"

lemma ok_kids: "ok n h t \<longleftrightarrow> kids n h t \<and> lo n t \<le> phys t \<and> phys t \<le> hi n t"
  by (cases "(n, h, t)" rule: ok.cases) auto

lemma lo_kids: "kids n h t \<Longrightarrow> lo n t = (if h = 0 then n else min_items n)"
  and hi_kids: "kids n h t \<Longrightarrow> hi n t = (if h = 0 then 2 * n + 1 else n - 1)"
  by (cases "(n, h, t)" rule: kids.cases; simp)+

lemma limits_of_simps [simp]:
  "m_leafMaxIndex (limits_of n) = 2 * n + 1" "m_branchMaxIndex (limits_of n) = n"
  "m_leafLowWater (limits_of n) = n - 1" "m_branchLowWater (limits_of n) = (n - 1) div 2"
  by (simp_all add: limits_of_def Let_def)

lemma max_kids: "kids n h t \<Longrightarrow> 3 \<le> n \<Longrightarrow> getMaxPhysicalEntries (limits_of n) t = Suc (hi n t)"
  by (cases "(n, h, t)" rule: kids.cases) auto

lemma isFull_kids: "kids n h t \<Longrightarrow> 3 \<le> n \<Longrightarrow> isFull (limits_of n) t \<longleftrightarrow> phys t = Suc (hi n t)"
  by (cases "(n, h, t)" rule: kids.cases) (auto simp: isFull_def)

lemma isAlmostFull_kids: "kids n h t \<Longrightarrow> 3 \<le> n \<Longrightarrow> isAlmostFull (limits_of n) t \<longleftrightarrow> phys t \<ge> hi n t"
  by (cases "(n, h, t)" rule: kids.cases) (auto simp: isAlmostFull_def)

lemma isLow_kids:
  "kids n h t \<Longrightarrow> 3 \<le> n \<Longrightarrow> isLow (limits_of n) t \<longleftrightarrow> phys t < (if h = 0 then n else (n - 1) div 2)"
  by (cases "(n, h, t)" rule: kids.cases) auto

lemma kids_same: "kids n h t \<Longrightarrow> kids n h u \<Longrightarrow>
   (\<exists>xs ys. h = 0 \<and> t = Leaf xs \<and> u = Leaf ys) \<or>
   (\<exists>h' c its d jts. h = Suc h' \<and> t = Branch c its \<and> u = Branch d jts)"
  by (cases h; cases t; cases u) auto

text \<open>Children of a branch in shape.\<close>

fun before_ok :: "nat \<Rightarrow> nat \<Rightarrow> 'e before \<Rightarrow> bool" where
  "before_ok n h None \<longleftrightarrow> True"
| "before_ok n h (Some (c, as, a)) \<longleftrightarrow> ok n h c \<and> (\<forall>it \<in> set as. ok n h (snd it))"

definition items_ok :: "nat \<Rightarrow> nat \<Rightarrow> ('e \<times> 'e node) list \<Rightarrow> bool" where
  "items_ok n h its \<longleftrightarrow> (\<forall>it \<in> set its. ok n h (snd it))"

lemma items_ok_simps [simp]:
  "items_ok n h []" "items_ok n h (it # its) \<longleftrightarrow> ok n h (snd it) \<and> items_ok n h its"
  "items_ok n h (as @ bs) \<longleftrightarrow> items_ok n h as \<and> items_ok n h bs"
  by (auto simp: items_ok_def)

lemma items_ok_take_drop: "items_ok n h its \<Longrightarrow> items_ok n h (take k its) \<and> items_ok n h (drop k its)"
  by (auto simp: items_ok_def dest: in_set_takeD in_set_dropD)

lemma kids_Branch: "kids n h (Branch c its) \<longleftrightarrow> (\<exists>h'. h = Suc h' \<and> ok n h' c \<and> items_ok n h' its)"
  by (cases h) (auto simp: items_ok_def)

lemma kids_Leaf [simp]: "kids n h (Leaf xs) \<longleftrightarrow> h = 0"
  by (cases h) auto

lemma kids_plug: "kids n (Suc h) (node_of (plug z t its)) \<longleftrightarrow> before_ok n h z \<and> ok n h t \<and> items_ok n h its"
  by (cases "(z, t, its)" rule: plug.cases) (auto simp: node_of_def kids_Branch items_ok_def)

subsection \<open>Moving entries keeps them in order\<close>

lemma leaf_pushLeft_ok:
  assumes "1 \<le> n" "n \<le> length rs" "length ls + n \<le> m_leafMaxIndex self + 1"
  shows "leaf_pushLeft self (int n) ls sep rs = Inr (ls @ sep # take (n - 1) rs, rs ! (n - 1), drop n rs)"
proof -
  have "leaf_append self sep ls = Inr (ls @ [sep])"
    using assms by (simp add: leaf_append_def)
  moreover have "(if int n > 1 then leaf_appendFrom self rs 0 (int n - 2) (ls @ [sep]) else Inr (ls @ [sep])) =
      Inr (ls @ sep # take (n - 1) rs)"
  proof (cases "n = 1")
    case False
    then have "nat (int n - 2 - 0 + 1) = n - 1"
      using assms(1) by simp
    with False assms show ?thesis
      by (simp add: leaf_appendFrom_def)
  qed simp
  moreover have "peek rs (nat (int n - 1)) = Inr (rs ! (n - 1))"
    using assms by (simp add: peek_def nat_diff_distrib)
  ultimately show ?thesis
    using assms by (simp add: leaf_pushLeft_def leaf_shiftLeft_def)
qed

lemma leaf_pushRight_ok:
  assumes "1 \<le> n" "n \<le> length ls" "length rs + n \<le> m_leafMaxIndex self + 1"
  shows "leaf_pushRight self (int n) ls sep rs =
     Inr (take (length ls - n) ls, ls ! (length ls - n), drop (Suc (length ls - n)) ls @ sep # rs)"
proof -
  have "nat (int (length ls) - int n) = length ls - n"
    using assms by simp
  with assms show ?thesis
    by (simp add: leaf_pushRight_def Let_def)
qed

text \<open>What is moved from one sibling to the other.\<close>

definition moved :: "nat \<Rightarrow> nat \<Rightarrow> 'e node \<Rightarrow> 'e \<Rightarrow> 'e node \<Rightarrow> 'e node \<times> 'e \<times> 'e node \<Rightarrow> bool" where
  "moved n h l sep r res \<longleftrightarrow>
     (case res of (l', s', r') \<Rightarrow> kids n h l' \<and> kids n h r' \<and>
        inorder l' @ s' # inorder r' = inorder l @ sep # inorder r \<and> phys l' + phys r' = phys l + phys r)"

lemma pushLeft_ok:
  assumes k: "kids n h l" "kids n h r" and n: "3 \<le> n" and i: "i \<le> phys r" "h = 0 \<longrightarrow> 1 \<le> i"
    and cap: "phys l + i \<le> Suc (hi n l)"
  shows "\<exists>l' s' r'. pushLeft (limits_of n) (int i) l sep r = Inr (l', s', r') \<and>
     moved n h l sep r (l', s', r') \<and> phys l' = phys l + i"
  using kids_same [OF k]
proof (elim disjE exE conjE)
  fix xs ys assume [simp]: "h = 0" "l = Leaf xs" "r = Leaf ys"
  have i': "1 \<le> i" "i \<le> length ys" "length xs + i \<le> m_leafMaxIndex (limits_of n) + 1"
    using i cap by simp_all
  have "ys = take (i - 1) ys @ ys ! (i - 1) # drop i ys"
    using i' by (metis Suc_diff_1 Suc_le_eq id_take_nth_drop less_le_trans One_nat_def diff_less zero_less_one)
  with leaf_pushLeft_ok [OF i', of sep] i' show ?thesis
    by (auto simp: moved_def)
next
  fix h' c its d jts assume [simp]: "h = Suc h'" "l = Branch c its" "r = Branch d jts"
  define items where "items = (sep, d) # jts"
  have le: "i < length items" "length its + i \<le> n"
    using i cap n by (simp_all add: items_def)
  have split: "items = take i items @ items ! i # drop (Suc i) items"
    using le by (intro id_take_nth_drop) simp
  have all: "items_ok n h' items" "items_ok n h' its" "ok n h' c"
    using k by (simp_all add: kids_Branch items_def)
  have "pushLeft (limits_of n) (int i) l sep r = Inr (Branch c (its @ take i items), fst (items ! i),
      Branch (snd (items ! i)) (drop (Suc i) items))"
    using le by (simp add: branch_pushLeft_def Let_def items_def)
  moreover have "inorder l @ sep # inorder r = inorder c @ flat its @ flat (take i items @ items ! i # drop (Suc i) items)"
    by (subst split [symmetric]) (simp add: items_def)
  moreover have "items_ok n h' (take i items @ items ! i # drop (Suc i) items)"
    using all(1) split by simp
  moreover have "length items = Suc (phys r)"
    by (simp add: items_def)
  ultimately show ?thesis
    using all le by (auto simp: moved_def kids_Branch)
qed

lemma pushRight_ok:
  assumes k: "kids n h l" "kids n h r" and n: "3 \<le> n" and i: "i \<le> phys l" "h = 0 \<longrightarrow> 1 \<le> i"
    and cap: "phys r + i \<le> Suc (hi n r)"
  shows "\<exists>l' s' r'. pushRight (limits_of n) (int i) l sep r = Inr (l', s', r') \<and>
     moved n h l sep r (l', s', r') \<and> phys r' = phys r + i"
  using kids_same [OF k]
proof (elim disjE exE conjE)
  fix xs ys assume [simp]: "h = 0" "l = Leaf xs" "r = Leaf ys"
  have i': "1 \<le> i" "i \<le> length xs" "length ys + i \<le> m_leafMaxIndex (limits_of n) + 1"
    using i cap by simp_all
  have "xs = take (length xs - i) xs @ xs ! (length xs - i) # drop (Suc (length xs - i)) xs"
    using i' by (intro id_take_nth_drop) simp
  then have "inorder l @ sep # inorder r = (take (length xs - i) xs @ xs ! (length xs - i) # drop (Suc (length xs - i)) xs) @ sep # ys"
    by simp
  with leaf_pushRight_ok [OF i', of sep] i' show ?thesis
    by (auto simp: moved_def)
next
  fix h' c its d jts assume [simp]: "h = Suc h'" "l = Branch c its" "r = Branch d jts"
  let ?m = "length its - i"
  define items where "items = drop ?m its @ (sep, d) # jts"
  have le: "i \<le> length its" "length jts + i \<le> n"
    using i cap n by simp_all
  have ne: "items \<noteq> []" by (simp add: items_def)
  then have split: "items = hd items # tl items" by simp
  have all: "items_ok n h' items" "items_ok n h' (take ?m its)" "ok n h' c"
    using k items_ok_take_drop [of n h' its ?m] by (simp_all add: kids_Branch items_def)
  have "pushRight (limits_of n) (int i) l sep r = Inr (Branch c (take ?m its), fst (hd items), Branch (snd (hd items)) (tl items))"
    using le by (simp add: branch_pushRight_def Let_def items_def)
  moreover have "inorder l @ sep # inorder r = inorder c @ flat (take ?m its @ items)"
  proof -
    have "flat its = flat (take ?m its) @ flat (drop ?m its)"
      by (metis append_take_drop_id flat_simps(3))
    then show ?thesis by (simp add: items_def)
  qed
  moreover have "flat items = fst (hd items) # inorder (snd (hd items)) @ flat (tl items)"
    by (subst split) simp
  moreover have "ok n h' (snd (hd items))" "items_ok n h' (tl items)"
    using all(1) by (subst (asm) split, simp)+
  moreover have "length (tl items) = i + phys r"
    using le by (simp add: items_def)
  ultimately show ?thesis
    using all le by (auto simp: moved_def kids_Branch)
qed

subsection \<open>Balancing, merging and splitting siblings\<close>

lemma balanceWithLeft_ok:
  assumes k: "kids n h l" "kids n h r" and n: "3 \<le> n"
    and gap: "phys l + (if h = 0 then 2 else 1) \<le> phys r" and cap: "phys r \<le> Suc (hi n r)"
  shows "\<exists>l' s' r'. balanceWithLeft (limits_of n) l sep r = Inr (l', s', r') \<and> moved n h l sep r (l', s', r') \<and>
     phys l' = (phys l + phys r) div 2 \<and> phys r' = Suc (phys l + phys r) div 2"
proof -
  let ?new = "(phys r + 1 + phys l) div 2" and ?i = "phys r - (phys r + 1 + phys l) div 2"
  have h: "hi n l = hi n r"
    using k by (simp add: hi_kids)
  have "?new \<le> phys r" and i: "h = 0 \<longrightarrow> 1 \<le> ?i" "phys l + ?i \<le> Suc (hi n l)"
    using gap cap h by (auto split: if_splits)
  then have "balanceWithLeft (limits_of n) l sep r = pushLeft (limits_of n) (int ?i) l sep r"
    by (simp add: balanceWithLeft_def getVirtualEntries_def Let_def of_nat_diff)
  moreover obtain l' s' r' where "pushLeft (limits_of n) (int ?i) l sep r = Inr (l', s', r')"
    and m: "moved n h l sep r (l', s', r')" and p: "phys l' = phys l + ?i"
    using pushLeft_ok [OF k n _ i, of sep] by auto
  moreover have "phys l' = (phys l + phys r) div 2" "phys r' = Suc (phys l + phys r) div 2"
    using m p \<open>?new \<le> phys r\<close> by (auto simp: moved_def)
  ultimately show ?thesis by auto
qed

lemma balanceWithRight_ok:
  assumes k: "kids n h l" "kids n h r" and n: "3 \<le> n"
    and gap: "phys r + (if h = 0 then 2 else 1) \<le> phys l" and cap: "phys l \<le> Suc (hi n l)"
  shows "\<exists>l' s' r'. balanceWithRight (limits_of n) l sep r = Inr (l', s', r') \<and> moved n h l sep r (l', s', r') \<and>
     phys l' = Suc (phys l + phys r) div 2 \<and> phys r' = (phys l + phys r) div 2"
proof -
  let ?new = "(phys l + (phys r + 1)) div 2" and ?i = "phys l - (phys l + (phys r + 1)) div 2"
  have h: "hi n l = hi n r"
    using k by (simp add: hi_kids)
  have "?new \<le> phys l" and i: "h = 0 \<longrightarrow> 1 \<le> ?i" "phys r + ?i \<le> Suc (hi n r)"
    using gap cap h by (auto split: if_splits)
  then have "balanceWithRight (limits_of n) l sep r = pushRight (limits_of n) (int ?i) l sep r"
    by (simp add: balanceWithRight_def getVirtualEntries_def Let_def of_nat_diff)
  moreover obtain l' s' r' where "pushRight (limits_of n) (int ?i) l sep r = Inr (l', s', r')"
    and m: "moved n h l sep r (l', s', r')" and p: "phys r' = phys r + ?i"
    using pushRight_ok [OF k n _ i, of sep] by auto
  moreover have "phys l' = Suc (phys l + phys r) div 2" "phys r' = (phys l + phys r) div 2"
    using m p \<open>?new \<le> phys l\<close> by (auto simp: moved_def)
  ultimately show ?thesis by auto
qed

lemma mergeWithRight_ok:
  assumes k: "kids n h l" "kids n h r" and n: "3 \<le> n" and ne: "h = 0 \<longrightarrow> 1 \<le> phys r"
    and cap: "phys l + phys r + 1 \<le> Suc (hi n l)"
  shows "\<exists>l'. mergeWithRight (limits_of n) l sep r = Inr l' \<and> kids n h l' \<and>
     inorder l' = inorder l @ sep # inorder r \<and> phys l' = phys l + phys r + 1"
  using kids_same [OF k]
proof (elim disjE exE conjE)
  fix xs ys assume [simp]: "h = 0" "l = Leaf xs" "r = Leaf ys"
  have i: "1 \<le> length ys" "length ys \<le> length ys" "length xs + length ys \<le> m_leafMaxIndex (limits_of n) + 1"
    using ne cap by simp_all
  have "take (length ys - 1) ys @ [ys ! (length ys - 1)] = ys"
    using i(1) by (metis append_butlast_last_id butlast_conv_take last_conv_nth length_0_conv not_one_le_zero)
  with leaf_pushLeft_ok [OF i, of sep] i(1) cap show ?thesis
    by (simp add: leaf_append_def)
next
  fix h' c its d jts assume [simp]: "h = Suc h'" "l = Branch c its" "r = Branch d jts"
  define items where "items = (sep, d) # jts"
  have split: "take (length jts) items @ [items ! length jts] = items"
    unfolding items_def by (metis length_Cons lessI take_Suc_conv_app_nth take_all order_refl)
  have "mergeWithRight (limits_of n) l sep r = Inr (Branch c (its @ items))"
  proof (cases "jts = []")
    case True
    then show ?thesis
      using cap n by (simp add: items_def)
  next
    case False
    then have "branch_pushLeft (limits_of n) (int (length jts)) (c, its) sep (d, jts) =
       Inr ((c, its @ take (length jts) items), fst (items ! length jts), (snd (items ! length jts), []))"
      using cap n by (simp add: branch_pushLeft_def Let_def items_def)
    then show ?thesis
      using False cap n split by (simp add: prod.collapse)
  qed
  then show ?thesis
    using k by (simp add: items_def kids_Branch)
qed

text \<open>Three siblings from two, with all three in shape.\<close>

definition three :: "nat \<Rightarrow> nat \<Rightarrow> 'e node \<Rightarrow> 'e \<Rightarrow> 'e node \<Rightarrow> 'e node \<times> 'e \<times> 'e node \<times> 'e \<times> 'e node \<Rightarrow> bool" where
  "three n h l sep r res \<longleftrightarrow>
     (case res of (l', s1, m, s2, r') \<Rightarrow> ok n h l' \<and> ok n h m \<and> ok n h r' \<and>
        inorder l' @ s1 # inorder m @ s2 # inorder r' = inorder l @ sep # inorder r)"

lemma leaf_splitWith_ok:
  assumes n: "3 \<le> n" and len: "length ls + length rs = 4 * n + 3" "2 * n + 1 \<le> length ls" "2 * n + 1 \<le> length rs"
  shows "\<exists>l s1 m s2 r. leaf_splitWith (limits_of n) ls sep rs = Inr (l, s1, m, s2, r) \<and>
     three n 0 (Leaf ls) sep (Leaf rs) (Leaf l, s1, Leaf m, s2, Leaf r)"
proof -
  let ?T = "4 * n + 4"
  define third where "third = ?T div 3"
  define half where "half = (?T - third) div 2"
  define node where "node = ?T - third - half"
  have sizes: "n + 1 \<le> third" "third < 2 * n" "n + 1 \<le> half" "half \<le> 2 * n" "n + 1 \<le> node" "node \<le> 2 * n"
    "third + half + node = ?T"
    using n by (auto simp: third_def half_def node_def)
  define a where "a = length ls - third - 1"
  define b where "b = length rs + 1 - node"
  have ab: "1 \<le> a" "1 \<le> b" "a + b = half - 1" "b \<le> length rs"
    using sizes len n by (simp_all add: a_def b_def)
  have ne: "ls \<noteq> []" using len by auto
  obtain l s1 m where 1: "leaf_pushRight (limits_of n) (int a) (butlast ls) (last ls) [] = Inr (l, s1, m)"
    and 2: "l = take (length (butlast ls) - a) (butlast ls)" "s1 = butlast ls ! (length (butlast ls) - a)"
      "m = drop (Suc (length (butlast ls) - a)) (butlast ls) @ [last ls]"
    using leaf_pushRight_ok [of a "butlast ls" "[]" "limits_of n" "last ls"] ab sizes by (auto simp: a_def)
  have "butlast ls = l @ s1 # drop (Suc (length (butlast ls) - a)) (butlast ls)"
    unfolding 2 using ab by (intro id_take_nth_drop) (auto simp: a_def)
  then have ls: "ls = l @ s1 # m"
    using ne 2(3) by (metis append.assoc append_Cons append_butlast_last_id)
  have ll: "length l = third" "length m = a"
    using 2 len sizes ab by (simp_all add: a_def)
  obtain m' s2 r where 3: "leaf_pushLeft (limits_of n) (int b) m sep rs = Inr (m', s2, r)"
    and 4: "m' = m @ sep # take (b - 1) rs" "s2 = rs ! (b - 1)" "r = drop b rs"
    using leaf_pushLeft_ok [of b rs m "limits_of n" sep] ab ll sizes by auto
  have rs: "rs = take (b - 1) rs @ s2 # r"
    unfolding 4 using ab id_take_nth_drop [of "b - 1" rs] by simp
  have i1: "int (length ls) - int third - 1 = int a" and i2: "int (length rs + 1) - int node = int b"
    using sizes len by (simp_all add: a_def b_def of_nat_diff)
  have keys: "length ls + (length rs + 1) = ?T"
    using len by simp
  have "leaf_splitWith (limits_of n) ls sep rs =
      rbind (leaf_pushRight (limits_of n) (int (length ls) - int third - 1) (butlast ls) (last ls) []) (\<lambda>(l, s1, m).
      rbind (leaf_pushLeft (limits_of n) (int (length rs + 1) - int node) m sep rs) (\<lambda>(m', s2, r). Inr (l, s1, m', s2, r)))"
    unfolding leaf_splitWith_def keys Let_def third_def half_def node_def using ne by (simp only: if_False)
  then have "leaf_splitWith (limits_of n) ls sep rs = Inr (l, s1, m', s2, r)"
    by (simp only: i1 i2 1 3 rbind.simps prod.case)
  moreover have "inorder (Leaf l) @ s1 # inorder (Leaf m') @ s2 # inorder (Leaf r) = ls @ sep # rs"
    using ls rs 4(1) by (metis append.assoc append_Cons inorder.simps(1))
  moreover have "length m' = half - 1" "length r = node - 1"
    using 4 ab ll sizes len by (simp_all add: b_def)
  ultimately show ?thesis
    using ll sizes by (auto simp: three_def)
qed

lemma branch_pushRight_new:
  assumes "i \<le> length its" "i \<le> m_branchMaxIndex self" "its' = drop (length its - i) its @ [(k, c)]"
  shows "branch_pushRight self (int i) (d, its) k (c, []) =
     Inr ((d, take (length its - i) its), fst (hd its'), (snd (hd its'), tl its'))"
  using assms by (simp add: branch_pushRight_def Let_def)

text \<open>
  For branches the two sizes are \<open>n\<close> and \<open>n-1\<close>. \<open>a\<close> is the number of items moved out of the
  left branch into the new one besides the one the new branch starts with.
\<close>

lemma branch_split_sizes:
  assumes n: "3 \<le> (n :: nat)" and l: "l = n \<or> l = n - 1" and r: "l + r = 2 * n - 1"
    and third: "third = 2 * n div 3" and half: "half = (2 * n - third) div 2" and node: "node = 2 * n - third - half"
    and pos: "third < l" and a: "a = (if l - third > 2 then l - third - 1 else 0)" and b: "b = r + 1 - node"
  shows "min_items n \<le> l - 1 - a \<and> l - 1 - a \<le> n - 1 \<and> min_items n \<le> a + b \<and> a + b \<le> n - 1 \<and>
     min_items n \<le> r - b \<and> r - b \<le> n - 1"
proof (cases "n < 10")
  case True
  have r': "r = 2 * n - 1 - l"
    using r by simp
  from True n have "n = 3 \<or> n = 4 \<or> n = 5 \<or> n = 6 \<or> n = 7 \<or> n = 8 \<or> n = 9"
    by auto
  then show ?thesis
    using l pos unfolding a b node half third r' by (elim disjE) (simp_all add: min_items_def)
next
  case False
  have 1: "3 * third \<le> 2 * n" "2 * n \<le> 3 * third + 2" "2 * half \<le> 2 * n - third" "2 * n - third \<le> 2 * half + 1"
    using third half by linarith+
  have 2: "2 * min_items n \<le> n - 1"
    using False by (simp add: min_items_def)
  have "l - third > 2"
    using False l 1 by linarith
  then have 3: "a + third + 1 = l"
    using a by simp
  have 4: "third + half + node = 2 * n" "node \<le> r"
    using 1 node r l False by linarith+
  then have "b + node = r + 1"
    using b by simp
  with 1 2 3 4 l r False show ?thesis
    by linarith
qed

lemma branch_splitWith_here:
  assumes n: "3 \<le> n" and all: "ok n h c" "items_ok n h its" "ok n h d" "items_ok n h jts"
    and len: "length its + length jts = 2 * n - 1" "length its = n \<or> length jts = n"
    and third: "third = (2 * n) div 3" and pos: "third < length its"
  shows "\<exists>l s1 m s2 r. branch_splitWith (limits_of n) (c, its) sep (d, jts) = Inr (l, s1, m, s2, r) \<and>
     three n (Suc h) (Branch c its) sep (Branch d jts) (node_of l, s1, node_of m, s2, node_of r)"
proof -
  let ?T = "2 * n"
  define half where "half = (?T - third) div 2"
  define node where "node = ?T - third - half"
  define a where "a = (if length its - third > 2 then length its - third - 1 else 0)"
  define b where "b = length jts + 1 - node"
  have T: "third + half + node = ?T" "third \<le> half" "half \<le> node" "node \<le> half + 1" "2 \<le> node"
    using third n by (simp_all add: half_def node_def)
  have node: "node < length jts + 1" "1 \<le> b"
    using T third len n by (auto simp: b_def)
  define its1 where "its1 = butlast its"
  obtain k t where kt: "last its = (k, t)" by fastforce
  have ne: "its \<noteq> []" using pos by auto
  then have its: "its = its1 @ [(k, t)]"
    using kt by (metis append_butlast_last_id its1_def)
  have a: "a \<le> length its1" "a \<le> n"
    using len its by (auto simp: a_def)
  define m where "m = drop (length its1 - a) its1 @ [(k, t)]"
  have sm: "m = hd m # tl m" by (simp add: m_def)
  have lm: "length (tl m) = a" using a by (simp add: m_def)
  have im: "its = take (length its1 - a) its1 @ m"
    by (simp add: its m_def)
  have push1: "(if int (length its) - int third > 2 then branch_pushRight (limits_of n) (int (length its) - int third - 1) (c, its1) k (t, [])
      else Inr ((c, its1), k, (t, []))) = Inr ((c, take (length its1 - a) its1), fst (hd m), (snd (hd m), tl m))"
  proof (cases "length its - third > 2")
    case True
    then have "int (length its) - int third - 1 = int a"
      using pos by (simp add: a_def of_nat_diff)
    with True show ?thesis
      using branch_pushRight_new [OF a(1), of "limits_of n" m k t c] a(2) pos by (simp add: m_def)
  next
    case False
    then have "\<not> int (length its) - int third > 2"
      by simp
    with False show ?thesis
      using pos by (simp add: a_def m_def)
  qed
  define items where "items = (sep, d) # jts"
  have cap: "a + b \<le> n" "b \<le> length jts"
    using T len node by (auto simp: a_def b_def split: if_splits)
  have si: "items = take b items @ items ! b # drop (Suc b) items"
    using cap by (intro id_take_nth_drop) (simp add: items_def)
  have push2: "branch_pushLeft (limits_of n) (int b) (snd (hd m), tl m) sep (d, jts) =
      Inr ((snd (hd m), tl m @ take b items), fst (items ! b), (snd (items ! b), drop (Suc b) items))"
    using cap lm by (simp add: branch_pushLeft_def Let_def items_def)
  have i2: "int (length jts + 1) - int node = int b"
    using node by (simp add: b_def of_nat_diff)
  have keys: "length its + (length jts + 1) = ?T"
    using len n by simp
  have "branch_splitWith (limits_of n) (c, its) sep (d, jts) =
      Inr ((c, take (length its1 - a) its1), fst (hd m), (snd (hd m), tl m @ take b items), fst (items ! b),
        (snd (items ! b), drop (Suc b) items))"
  proof -
    have "branch_splitWith (limits_of n) (c, its) sep (d, jts) =
      rbind (if int (length its) - int third > 2 then branch_pushRight (limits_of n) (int (length its) - int third - 1) (c, its1) k (t, [])
         else Inr ((c, its1), k, (t, []))) (\<lambda>(l, s1, m).
      rbind (branch_pushLeft (limits_of n) (int (length jts + 1) - int node) m sep (d, jts)) (\<lambda>(m', s2, r). Inr (l, s1, m', s2, r)))"
      unfolding branch_splitWith_def fst_conv snd_conv keys Let_def half_def node_def third its1_def kt prod.case
      using pos third by simp
    then show ?thesis
      by (simp only: push1 push2 i2 rbind.simps prod.case)
  qed
  moreover have "inorder (Branch c its) @ sep # inorder (Branch d jts) =
      inorder c @ flat (take (length its1 - a) its1) @ flat m @ flat (take b items @ items ! b # drop (Suc b) items)"
    by (subst si [symmetric], subst im) (simp add: items_def)
  moreover have "flat m = fst (hd m) # inorder (snd (hd m)) @ flat (tl m)"
    by (subst sm) simp
  moreover have "items_ok n h (take (length its1 - a) its1)" "ok n h (snd (hd m))" "items_ok n h (tl m)"
    using all(2) by (subst (asm) im, subst (asm) sm, simp)+
  moreover have "items_ok n h (take b items @ items ! b # drop (Suc b) items)"
    using all si by (simp add: items_def)
  moreover have "min_items n \<le> length its1 - a" "length its1 - a \<le> n - 1" "min_items n \<le> a + b" "a + b \<le> n - 1"
      "min_items n \<le> length jts - b" "length jts - b \<le> n - 1"
  proof -
    have "length its = n \<or> length its = n - 1"
      using len n by linarith
    from branch_split_sizes [OF n this len(1) third half_def node_def pos a_def b_def]
    show "min_items n \<le> length its1 - a" "length its1 - a \<le> n - 1" "min_items n \<le> a + b" "a + b \<le> n - 1"
      "min_items n \<le> length jts - b" "length jts - b \<le> n - 1"
      by (simp_all add: its)
  qed
  moreover have "length items = Suc (length jts)" by (simp add: items_def)
  ultimately show ?thesis
    using all cap lm a by (auto simp: three_def node_of_def ok_kids [of n "Suc h"] kids_Branch)
qed

text \<open>The other arm is taken for order \<open>3\<close> only, with two and three items.\<close>

lemma branch_splitWith_there:
  assumes all: "ok 3 h c" "items_ok 3 h its" "ok 3 h d" "items_ok 3 h jts"
    and len: "length its = 2" "length jts = 3"
  shows "\<exists>l s1 m s2 r. branch_splitWith (limits_of 3) (c, its) sep (d, jts) = Inr (l, s1, m, s2, r) \<and>
     three 3 (Suc h) (Branch c its) sep (Branch d jts) (node_of l, s1, node_of m, s2, node_of r)"
proof -
  obtain j1 j2 j3 where jts: "jts = [j1, j2, j3]"
    using len(2) by (auto simp: numeral_3_eq_3 length_Suc_conv)
  have "branch_splitWith (limits_of 3) (c, its) sep (d, jts) =
      Inr ((c, its), sep, (d, [j1]), fst j2, (snd j2, [j3]))"
    using len by (simp add: branch_splitWith_def jts branch_pushLeft_def Let_def split: prod.splits)
  then show ?thesis
    using all len by (auto simp: jts three_def node_of_def min_items_def items_ok_def)
qed

lemma branch_splitWith_ok:
  assumes n: "3 \<le> n" and all: "ok n h c" "items_ok n h its" "ok n h d" "items_ok n h jts"
    and len: "length its + length jts = 2 * n - 1" "length its = n \<or> length jts = n"
  shows "\<exists>l s1 m s2 r. branch_splitWith (limits_of n) (c, its) sep (d, jts) = Inr (l, s1, m, s2, r) \<and>
     three n (Suc h) (Branch c its) sep (Branch d jts) (node_of l, s1, node_of m, s2, node_of r)"
proof (cases "2 * n div 3 < length its")
  case True
  from branch_splitWith_here [OF n all len refl this] show ?thesis .
next
  case False
  then have "n = 3" "length its = 2" "length jts = 3" using len n by auto
  with branch_splitWith_there [of h c its d jts sep] all show ?thesis by auto
qed

lemma splitWith_ok:
  assumes k: "kids n h l" "kids n h r" and n: "3 \<le> n"
    and len: "phys l + phys r = Suc (2 * hi n l)" "hi n l \<le> phys l" "hi n r \<le> phys r"
  shows "\<exists>res. splitWith (limits_of n) l sep r = Inr res \<and> three n h l sep r res"
  using kids_same [OF k]
proof (elim disjE exE conjE)
  fix xs ys assume [simp]: "h = 0" "l = Leaf xs" "r = Leaf ys"
  show ?thesis
    using leaf_splitWith_ok [OF n, of xs ys sep] len by auto
next
  fix h' c its d jts assume [simp]: "h = Suc h'" "l = Branch c its" "r = Branch d jts"
  have all: "ok n h' c" "items_ok n h' its" "ok n h' d" "items_ok n h' jts"
    using k by (simp_all add: kids_Branch)
  have "length its + length jts = 2 * n - 1" "length its = n \<or> length jts = n"
    using len n by auto
  from branch_splitWith_ok [OF n all this, of sep] show ?thesis
    by (auto simp: node_of_def)
qed

text \<open>
  The three branches a split leaves are at or above the low-water mark, but for the new one when the
  order is \<open>5\<close> and the left branch is the full one.
\<close>

lemma branch_split_low:
  assumes n: "3 \<le> n" and k: "kids n (Suc h) (Branch c its)" "kids n (Suc h) (Branch d jts)"
    and len: "length its + length jts = 2 * n - 1" "length its = n \<or> length jts = n"
  shows "\<exists>l s1 m s2 r. branch_splitWith (limits_of n) (c, its) sep (d, jts) = Inr (l, s1, m, s2, r) \<and>
     \<not> isLow (limits_of n) (node_of l) \<and> (isLow (limits_of n) (node_of m) \<longleftrightarrow> n = 5 \<and> length its = 5) \<and>
     \<not> isLow (limits_of n) (node_of r)"
proof (cases "n = 5")
  case False
  have "ok n h c" "items_ok n h its" "ok n h d" "items_ok n h jts" using k by (simp_all add: items_ok_def)
  from branch_splitWith_ok [OF n this len, of sep] obtain l s1 m s2 r where
    b: "branch_splitWith (limits_of n) (c, its) sep (d, jts) = Inr (l, s1, m, s2, r)"
    "three n (Suc h) (Branch c its) sep (Branch d jts) (node_of l, s1, node_of m, s2, node_of r)" by blast
  from b(2) False have "\<not> isLow (limits_of n) (node_of l) \<and> \<not> isLow (limits_of n) (node_of m) \<and> \<not> isLow (limits_of n) (node_of r)"
    by (simp add: three_def ok_kids node_of_def min_items_def not_less)
  with b(1) False show ?thesis by simp
next
  case True
  note [simp] = branch_splitWith_def branch_pushLeft_def Let_def node_of_def
  from len(2) show ?thesis
  proof
    assume "length its = n"
    then have "length its = 5" "length jts = 4" using True len(1) by simp_all
    then obtain i1 i2 i3 i4 i5 j1 j2 j3 j4 where "its = [i1, i2, i3, i4, i5]" "jts = [j1, j2, j3, j4]"
      by (auto simp: numeral_eq_Suc length_Suc_conv)
    then show ?thesis using True by (simp split: prod.splits)
  next
    assume "length jts = n"
    then have "length jts = 5" "length its = 4" using True len(1) by simp_all
    then obtain i1 i2 i3 i4 j5 j1 j2 j3 j4 where "its = [i1, i2, i3, i4]" "jts = [j1, j2, j3, j4, j5]"
      by (auto simp: numeral_eq_Suc length_Suc_conv)
    then show ?thesis using True by (simp split: prod.splits)
  qed
qed

subsection \<open>The root\<close>

text \<open>A whole tree: the root may be smaller than other nodes, but it is not empty.\<close>

definition root_ok :: "nat \<Rightarrow> nat \<Rightarrow> 'e node \<Rightarrow> bool" where
  "root_ok n h t \<longleftrightarrow> kids n h t \<and> 1 \<le> phys t \<and> phys t \<le> hi n t"

lemma notifyRootFull_ok:
  assumes k: "kids n h t" and n: "3 \<le> n" and full: "phys t = Suc (hi n t)"
  shows "\<exists>t'. notifyRootFull (limits_of n) t = Inr t' \<and> root_ok n (Suc h) t' \<and> inorder t' = inorder t"
proof -
  have "\<exists>l s r. kids n h l \<and> kids n h r \<and> inorder l @ s # inorder r = inorder t \<and>
      phys l = hi n t \<and> phys r = 0 \<and> notifyRootFull (limits_of n) t =
        rbind (balanceWithRight (limits_of n) l s r) (\<lambda>(l', s', r'). Inr (Branch l' [(s', r')]))"
  proof (cases t)
    case (Leaf xs)
    then have "xs \<noteq> []" using full by auto
    with Leaf k full show ?thesis
      by (intro exI [of _ "Leaf (butlast xs)"] exI [of _ "last xs"] exI [of _ "Leaf []"]) auto
  next
    case (Branch c its)
    then have ne: "its \<noteq> []" using full n by auto
    have "items_ok n (h - 1) (butlast its)" "ok n (h - 1) (snd (last its))" "ok n (h - 1) c" "h = Suc (h - 1)"
      using k Branch ne by (fastforce simp: kids_Branch items_ok_def dest: in_set_butlastD)+
    moreover have "flat its = flat (butlast its) @ fst (last its) # inorder (snd (last its))"
      using flat_simps(3) [of "butlast its" "[last its]"] ne by simp
    ultimately show ?thesis
      using Branch ne full n
      by (intro exI [of _ "Branch c (butlast its)"] exI [of _ "fst (last its)"] exI [of _ "Branch (snd (last its)) []"])
        (auto simp: kids_Branch intro!: exI [of _ "h - 1"])
  qed
  then obtain l s r where 1: "kids n h l" "kids n h r" "inorder l @ s # inorder r = inorder t"
      "phys l = hi n t" "phys r = 0" and 2: "notifyRootFull (limits_of n) t =
        rbind (balanceWithRight (limits_of n) l s r) (\<lambda>(l', s', r'). Inr (Branch l' [(s', r')]))"
    by auto
  have h: "hi n l = hi n t"
    using 1(1) k by (simp add: hi_kids)
  obtain l' s' r' where 3: "balanceWithRight (limits_of n) l s r = Inr (l', s', r')" "moved n h l s r (l', s', r')"
    and sz: "phys l' = Suc (phys l) div 2" "phys r' = phys l div 2"
  proof -
    have "phys r + (if h = 0 then 2 else 1) \<le> phys l" "phys l \<le> Suc (hi n l)"
      using 1(4,5) n k h by (auto simp: hi_kids)
    from balanceWithRight_ok [OF 1(1,2) n this, of s] 1(5) show ?thesis
      using that by auto
  qed
  have "(n - Suc 0) div 2 \<le> n div 2" "n div 2 \<le> n - Suc 0"
    using n by simp_all
  then have "ok n h l'" "ok n h r'"
    using 3(2) sz 1(4) n k by (auto simp: moved_def ok_kids lo_kids hi_kids min_items_def)
  with 1(3) 2 3 n show ?thesis
    by (auto simp: moved_def root_ok_def kids_Branch)
qed

subsection \<open>What a branch does when a child is full\<close>

lemma balance_children_ok:
  assumes f: "f l sep r = Inr (l', s', r')" and m: "moved n h l sep r (l', s', r')" and ok: "ok n h l'" "ok n h r'"
    and b: "b = plug z l ((sep, r) # its)" "before_ok n h z" "items_ok n h its"
  shows "\<exists>b'. balance_children f (Suc (zlen z)) b = Inr (False, b') \<and> kids n (Suc h) (node_of b') \<and>
     inorder (node_of b') = inorder (node_of b) \<and> length (snd b') = length (snd b)"
  using assms by (auto simp: balance_children_def kids_plug moved_def)

lemma split_children_ok:
  assumes f: "splitWith (limits_of n) l sep r = Inr res" and t: "three n h l sep r res"
    and b: "b = plug z l ((sep, r) # its)" "before_ok n h z" "items_ok n h its" and len: "length (snd b) \<le> n - 1"
    and n: "3 \<le> n"
  shows "\<exists>b'. split_children (limits_of n) (Suc (zlen z)) b = Inr (length (snd b') = n, b') \<and> kids n (Suc h) (node_of b') \<and>
     inorder (node_of b') = inorder (node_of b) \<and> length (snd b') = Suc (length (snd b))"
proof -
  obtain l' s1 m s2 r' where res: "res = (l', s1, m, s2, r')"
    by (cases res) auto
  have k: "kids n (Suc h) (node_of (plug z l' ((s1, m) # (s2, r') # its)))"
    using t b by (simp add: kids_plug three_def res)
  then have full: "isFull (limits_of n) (node_of (plug z l' ((s1, m) # (s2, r') # its))) \<longleftrightarrow> length (snd b) + 1 = n"
    using n b by (auto simp: isFull_kids [OF k n])
  have "zlen z + length ((sep, r) # its) < n"
    using len b n by simp
  then have "split_children (limits_of n) (Suc (zlen z)) b =
      Inr (length (snd b) + 1 = n, plug z l' ((s1, m) # (s2, r') # its))"
    using f full by (simp add: split_children_def b(1) res Let_def node_of_def [symmetric])
  with k t b show ?thesis
    by (intro exI [of _ "plug z l' ((s1, m) # (s2, r') # its)"]) (simp add: three_def res)
qed

lemma beforeE:
  assumes "before_ok n h z" and "0 < zlen z"
  obtains z' l a where "before_ok n h z'" "ok n h l" "zlen z = Suc (zlen z')"
    "\<And>t its. plug z t its = plug z' l ((a, t) # its)"
proof (cases z rule: zlen.cases)
  case 1
  with assms show ?thesis by simp
next
  case (2 c as a)
  show ?thesis
  proof (cases as rule: rev_cases)
    case Nil
    with 2 assms that [of None c a] show ?thesis by simp
  next
    case (snoc as' it)
    with 2 assms that [of "Some (c, as', fst it)" "snd it" a] show ?thesis by simp
  qed
qed

lemma isFull_balanceLeft:
  assumes n: "3 \<le> n" and k: "kids n h t" "phys t = Suc (hi n t)" and l: "ok n h l" "phys l < hi n l"
  shows "\<exists>l' s' r'. balanceWithLeft (limits_of n) l sep t = Inr (l', s', r') \<and> moved n h l sep t (l', s', r') \<and>
     ok n h l' \<and> ok n h r'"
proof -
  have kl: "kids n h l" and e: "hi n l = hi n t" "lo n l = lo n t" and lo: "lo n l \<le> phys l"
    using k l by (auto simp: ok_kids lo_kids hi_kids)
  have gap: "phys l + (if h = 0 then 2 else 1) \<le> phys t" "phys t \<le> Suc (hi n t)"
    using k l e by auto
  obtain l' s' r' where "balanceWithLeft (limits_of n) l sep t = Inr (l', s', r')" and m: "moved n h l sep t (l', s', r')"
    and "phys l' = (phys l + phys t) div 2" "phys r' = Suc (phys l + phys t) div 2"
    using balanceWithLeft_ok [OF kl k(1) n gap] by blast
  moreover have "lo n l' = lo n l" "hi n l' = hi n l" "lo n r' = lo n l" "hi n r' = hi n l"
    using m kl by (auto simp: moved_def lo_kids hi_kids)
  ultimately show ?thesis
    using k l e lo by (auto simp: moved_def ok_kids)
qed

lemma isFull_balanceRight:
  assumes n: "3 \<le> n" and k: "kids n h t" "phys t = Suc (hi n t)" and r: "ok n h r" "phys r < hi n r"
  shows "\<exists>l' s' r'. balanceWithRight (limits_of n) t sep r = Inr (l', s', r') \<and> moved n h t sep r (l', s', r') \<and>
     ok n h l' \<and> ok n h r'"
proof -
  have kr: "kids n h r" and e: "hi n r = hi n t" "lo n r = lo n t" and lo: "lo n r \<le> phys r"
    using k r by (auto simp: ok_kids lo_kids hi_kids)
  have gap: "phys r + (if h = 0 then 2 else 1) \<le> phys t" "phys t \<le> Suc (hi n t)"
    using k r e by auto
  obtain l' s' r' where "balanceWithRight (limits_of n) t sep r = Inr (l', s', r')" and m: "moved n h t sep r (l', s', r')"
    and "phys l' = Suc (phys t + phys r) div 2" "phys r' = (phys t + phys r) div 2"
    using balanceWithRight_ok [OF k(1) kr n gap] by blast
  moreover have "lo n l' = lo n r" "hi n l' = hi n r" "lo n r' = lo n r" "hi n r' = hi n r"
    using m kr by (auto simp: moved_def lo_kids hi_kids)
  ultimately show ?thesis
    using k r e lo by (auto simp: moved_def ok_kids)
qed

lemma branch_isFull_ok:
  assumes n: "3 \<le> n" and b: "b = plug z t its" "before_ok n h z" "items_ok n h its"
    and t: "kids n h t" "phys t = Suc (hi n t)" and len: "1 \<le> length (snd b)" "length (snd b) \<le> n - 1"
    and seq: "sequential \<longrightarrow> h \<noteq> 0 \<or> its = []"
  shows "\<exists>b'. branch_isFull (limits_of n) (zlen z) sequential b = Inr (length (snd b') = n, b') \<and>
     kids n (Suc h) (node_of b') \<and> inorder (node_of b') = inorder (node_of b) \<and>
     length (snd b) \<le> length (snd b') \<and> length (snd b') \<le> n"
proof -
  let ?P = "\<lambda>res. \<exists>b'. res = Inr (length (snd b') = n, b') \<and>
     kids n (Suc h) (node_of b') \<and> inorder (node_of b') = inorder (node_of b) \<and>
     length (snd b) \<le> length (snd b') \<and> length (snd b') \<le> n"
  have idx: "(if sequential \<and> isLeaf (getNode b (zlen z)) then length (snd b) else zlen z) = zlen z"
    using seq t b by (cases t; cases h) auto
  have bal: "?P (balance_children f (Suc (zlen z')) b)"
    if "\<exists>l' s' r'. f l sep r = Inr (l', s', r') \<and> moved n h l sep r (l', s', r') \<and> ok n h l' \<and> ok n h r'"
      "b = plug z' l ((sep, r) # its')" "before_ok n h z'" "items_ok n h its'" for f l sep r z' its'
    using balance_children_ok [of f l sep r _ _ _ n h b z' its'] that len n by fastforce
  have spl: "?P (split_children (limits_of n) (Suc (zlen z')) b)"
    if "kids n h l" "kids n h r" "phys l + phys r = Suc (2 * hi n l)" "hi n l \<le> phys l" "hi n r \<le> phys r"
      "b = plug z' l ((sep, r) # its')" "before_ok n h z'" "items_ok n h its'" for l sep r z' its'
    using splitWith_ok [OF that(1,2) n that(3-5), of sep] split_children_ok [OF _ _ that(6-8) len(2) n] len n
    by fastforce
  have sib: "kids n h u" "hi n u = hi n t" "isAlmostFull (limits_of n) u \<Longrightarrow> phys u = hi n u"
      "\<not> isAlmostFull (limits_of n) u \<Longrightarrow> phys u < hi n u" if "ok n h u" for u
    using that t n isAlmostFull_kids [of n h u] by (auto simp: ok_kids hi_kids)
  have right: "\<exists>s r its'. its = (s, r) # its' \<and> ok n h r \<and> items_ok n h its'" if "its \<noteq> []"
    using that b(3) by (cases its) auto
  have left: "\<exists>z' l a. before_ok n h z' \<and> ok n h l \<and> zlen z = Suc (zlen z') \<and> b = plug z' l ((a, t) # its)" if "0 < zlen z"
    using beforeE [OF b(2) that] b(1) by metis
  have splL: "?P (split_children (limits_of n) (zlen z) b)" if pos: "0 < zlen z" and alm: "isAlmostFull (limits_of n) (getNode b (zlen z - 1))"
  proof -
    obtain z' l a where l: "before_ok n h z'" "ok n h l" "zlen z = Suc (zlen z')" "b = plug z' l ((a, t) # its)"
      using left [OF pos] by blast
    then have "phys l = hi n t"
      using sib(2,3) [OF l(2)] alm by simp
    with spl [OF sib(1) [OF l(2)] t(1) _ _ _ l(4,1) b(3)] sib(2) [OF l(2)] t(2) l(3) show ?thesis
      by simp
  qed
  have balL: "?P (balance_children (balanceWithLeft (limits_of n)) (zlen z) b)"
    if pos: "0 < zlen z" and alm: "\<not> isAlmostFull (limits_of n) (getNode b (zlen z - 1))"
  proof -
    obtain z' l a where l: "before_ok n h z'" "ok n h l" "zlen z = Suc (zlen z')" "b = plug z' l ((a, t) # its)"
      using left [OF pos] by blast
    then have "phys l < hi n l"
      using sib(4) [OF l(2)] alm by simp
    from bal [of "balanceWithLeft (limits_of n)", OF isFull_balanceLeft [OF n t l(2) this, of a] l(4,1) b(3)] l(3) show ?thesis
      by simp
  qed
  show ?thesis
  proof (cases "its = []")
    case True
    then have "0 < zlen z" "length (snd b) = zlen z"
      using len b(1) by simp_all
    then show ?thesis
      unfolding branch_isFull_def idx Let_def using splL balL by simp
  next
    case False
    then obtain s r its' where its: "its = (s, r) # its'" and r: "ok n h r" and rest: "items_ok n h its'"
      using right by blast
    have bz: "b = plug z t ((s, r) # its')" "zlen z < length (snd b)"
      by (simp_all add: b its)
    have nr: "getNode b (zlen z + 1) = r"
      by (simp add: bz)
    have splR: "?P (split_children (limits_of n) (zlen z + 1) b)" if "isAlmostFull (limits_of n) r"
      using spl [OF t(1) sib(1) [OF r] _ _ _ bz(1) b(2) rest] sib(2,3) [OF r] that t(2) by simp
    have balR: "?P (balance_children (balanceWithRight (limits_of n)) (zlen z + 1) b)" if "\<not> isAlmostFull (limits_of n) r"
      using bal [of "balanceWithRight (limits_of n)", OF isFull_balanceRight [OF n t r sib(4) [OF r that], of s] bz(1) b(2) rest] by simp
    show ?thesis
      unfolding branch_isFull_def idx Let_def nr using splL balL splR balR bz(2) by (cases "0 < zlen z") simp_all
  qed
qed

subsection \<open>Inserting along a path\<close>

text \<open>
  A place in a tree, as a path to a leaf and a location in it, cuts the entries in two.
\<close>

fun leaf_place :: "nat list \<Rightarrow> nat \<Rightarrow> 'e node \<Rightarrow> bool" where
  "leaf_place [] i (Leaf xs) \<longleftrightarrow> i \<le> length xs"
| "leaf_place (j # path) i (Branch c its) \<longleftrightarrow> j \<le> length its \<and> leaf_place path i (getNode (c, its) j)"
| "leaf_place _ _ _ \<longleftrightarrow> False"

definition left_part :: "nat \<Rightarrow> 'e branch \<Rightarrow> 'e list" where
  "left_part i b = (if i = 0 then [] else inorder (fst b) @ flat (take (i - 1) (snd b)) @ [getObject b i])"

definition right_part :: "nat \<Rightarrow> 'e branch \<Rightarrow> 'e list" where
  "right_part i b = flat (drop i (snd b))"

fun cut_at :: "nat list \<Rightarrow> nat \<Rightarrow> 'e node \<Rightarrow> 'e list \<times> 'e list" where
  "cut_at [] i (Leaf xs) = (take i xs, drop i xs)"
| "cut_at (j # path) i (Branch c its) =
     (case cut_at path i (getNode (c, its) j) of (as, bs) \<Rightarrow> (left_part j (c, its) @ as, bs @ right_part j (c, its)))"
| "cut_at _ _ _ = ([], [])"

lemma parts_plug [simp]:
  "left_part (zlen z) (plug z t its) = front z" "right_part (zlen z) (plug z t its) = flat its"
  by (cases "(z, t, its)" rule: plug.cases; simp add: left_part_def right_part_def getObject_def)+

lemma parts_plug_Suc [simp]:
  "left_part (Suc (zlen z)) (plug z t ((e, u) # its)) = front z @ inorder t @ [e]"
  "right_part (Suc (zlen z)) (plug z t ((e, u) # its)) = flat its"
  "inorder (fst (plug z t ((e, u) # its))) @ flat (take (zlen z) (snd (plug z t ((e, u) # its)))) = front z @ inorder t"
  by (cases "(z, t, its)" rule: plug.cases; simp add: left_part_def right_part_def getObject_def nth_append)+

lemma kids_children:
  assumes "kids n (Suc h) (node_of (plug z t its))"
  shows "before_ok n h z" "ok n h t" "items_ok n h its"
  using assms by (simp_all add: kids_plug)

lemma insert_at_ok:
  assumes n: "3 \<le> n" and "leaf_place path i t" "kids n h t" "h \<noteq> 0 \<longrightarrow> 1 \<le> phys t" "phys t \<le> hi n t"
    and "sequential \<longrightarrow> path = last_path t"
  shows "\<exists>t'. insert_at (limits_of n) sequential path i e t = Inr (phys t' = Suc (hi n t'), t') \<and> kids n h t' \<and>
     phys t \<le> phys t' \<and> phys t' \<le> Suc (hi n t') \<and>
     inorder t' = fst (cut_at path i t) @ e # snd (cut_at path i t)"
  using assms(2-)
proof (induction path i t arbitrary: h rule: leaf_place.induct)
  case (1 i xs)
  then have i: "i \<le> length xs" "length xs \<le> m_leafMaxIndex (limits_of n)"
    by simp_all
  then have "leaf_insert (limits_of n) e i xs = Inr (take i xs @ e # drop i xs)"
    by (simp add: leaf_insert_def)
  then show ?case
    using 1 i n by (simp add: isFull_kids [where h = 0])
next
  case (2 j path i c its)
  obtain h' where h: "h = Suc h'"
    using "2.prems"(2) by (cases h) auto
  have j: "j \<le> length its"
    using "2.prems"(1) by simp
  let ?u = "getNode (c, its) j"
  obtain z its' where b: "(c, its) = plug z ?u its'" and z: "zlen z = j"
    using plugE [of j "(c, its)"] j by auto
  have nb: "Branch c its = node_of (plug z ?u its')"
    unfolding b [symmetric] by (simp add: node_of_def)
  note ch = kids_children [OF "2.prems"(2) [unfolded h nb]]
  have u: "kids n h' ?u" "lo n ?u \<le> phys ?u" "phys ?u \<le> hi n ?u"
    using ch(2) by (simp_all add: ok_kids)
  have "h' \<noteq> 0 \<longrightarrow> 1 \<le> phys ?u"
    using u n by (auto simp: lo_kids min_items_def split: if_splits)
  moreover have lp: "sequential \<longrightarrow> path = last_path ?u \<and> j = length its"
    using "2.prems"(5) by (auto simp: getNode_def last_conv_nth)
  ultimately obtain u' where u': "insert_at (limits_of n) sequential path i e ?u = Inr (phys u' = Suc (hi n u'), u')"
    "kids n h' u'" "phys ?u \<le> phys u'" "phys u' \<le> Suc (hi n u')"
    "inorder u' = fst (cut_at path i ?u) @ e # snd (cut_at path i ?u)"
    using "2.IH" [OF _ u(1) _ u(3)] "2.prems"(1) by auto
  have set: "setNode j u' (c, its) = plug z u' its'"
    by (subst b, subst z [symmetric]) simp
  have len: "length its = zlen z + length its'"
    using b plug_simps(1) [of z ?u its'] by (metis snd_conv)
  have cutb: "cut_at (j # path) i (Branch c its) = (front z @ fst (cut_at path i ?u), snd (cut_at path i ?u) @ flat its')"
    using b z parts_plug [of z ?u its'] by (auto split: prod.splits)
  have e: "lo n u' = lo n ?u" "hi n u' = hi n ?u"
    using u(1) u'(2) by (simp_all add: lo_kids hi_kids)
  show ?case
  proof (cases "phys u' = Suc (hi n u')")
    case True
    have "1 \<le> length (snd (plug z u' its'))" "length (snd (plug z u' its')) \<le> n - 1"
      using "2.prems"(3,4) h len by simp_all
    moreover have "sequential \<longrightarrow> h' \<noteq> 0 \<or> its' = []"
      using lp z len by auto
    ultimately obtain b' where b': "branch_isFull (limits_of n) (zlen z) sequential (plug z u' its') = Inr (length (snd b') = n, b')"
      "kids n (Suc h') (node_of b')" "inorder (node_of b') = inorder (node_of (plug z u' its'))"
      "length (snd (plug z u' its')) \<le> length (snd b')" "length (snd b') \<le> n"
      using branch_isFull_ok [OF n refl ch(1,3) u'(2) True, of sequential] by blast
    have "insert_at (limits_of n) sequential (j # path) i e (Branch c its) = Inr (length (snd b') = n, node_of b')"
      using u'(1) True b'(1) z by (simp add: set Let_def node_of_def)
    with b' u'(5) cutb h len n show ?thesis
      by (intro exI [of _ "node_of b'"]) auto
  next
    case False
    then have ok: "ok n h' u'"
      using u' u e by (simp add: ok_kids)
    have "insert_at (limits_of n) sequential (j # path) i e (Branch c its) = Inr (False, node_of (plug z u' its'))"
      using u'(1) False by (simp add: set Let_def node_of_def)
    moreover have "kids n h (node_of (plug z u' its'))"
      using ch ok h by (simp add: kids_plug)
    ultimately show ?thesis
      using u'(5) cutb len "2.prems"(4) n by (intro exI [of _ "node_of (plug z u' its')"]) auto
  qed
qed auto

subsection \<open>What a branch does when a child is low\<close>

text \<open>The size below which a node of height \<open>h\<close> is low.\<close>

definition low :: "nat \<Rightarrow> nat \<Rightarrow> nat" where
  "low n h = (if h = 0 then n else (n - 1) div 2)"

lemma lo_le_low: "kids n h t \<Longrightarrow> 3 \<le> n \<Longrightarrow> lo n t \<le> low n h \<and> 1 \<le> lo n t"
  by (auto simp: lo_kids low_def min_items_def)

lemma low_balance:
  assumes n: "3 \<le> n" and t: "kids n h t" "phys t < low n h" and s: "ok n h s" and sum: "hi n t \<le> phys t + phys s"
  shows "phys t + (if h = 0 then 2 else 1) \<le> phys s" "phys s \<le> Suc (hi n s)"
    "lo n t \<le> (phys t + phys s) div 2" "Suc (phys t + phys s) div 2 \<le> hi n t"
proof -
  have e: "hi n s = hi n t" and le: "phys s \<le> hi n t" "lo n t \<le> low n h"
    using t s n lo_le_low [OF t(1) n] by (auto simp: ok_kids hi_kids)
  have "2 * low n h \<le> hi n t"
    using t(1) n by (auto simp: low_def hi_kids)
  with e le t(2) sum show "phys t + (if h = 0 then 2 else 1) \<le> phys s" "phys s \<le> Suc (hi n s)"
    "lo n t \<le> (phys t + phys s) div 2" "Suc (phys t + phys s) div 2 \<le> hi n t"
    by auto
qed

lemma isLow_balanceRight:
  assumes n: "3 \<le> n" and t: "kids n h t" "phys t < low n h" and r: "ok n h r" and sum: "hi n t \<le> phys t + phys r"
  shows "\<exists>l' s' r'. balanceWith (limits_of n) t sep r = Inr (l', s', r') \<and> moved n h t sep r (l', s', r') \<and>
     ok n h l' \<and> ok n h r'"
proof -
  note a = low_balance [OF n t r sum]
  have kr: "kids n h r"
    using r by (simp add: ok_kids)
  obtain l' s' r' where 1: "balanceWithLeft (limits_of n) t sep r = Inr (l', s', r')" and m: "moved n h t sep r (l', s', r')"
    and "phys l' = (phys t + phys r) div 2" "phys r' = Suc (phys t + phys r) div 2"
    using balanceWithLeft_ok [OF t(1) kr n a(1,2)] by blast
  moreover have "lo n l' = lo n t" "hi n l' = hi n t" "lo n r' = lo n t" "hi n r' = hi n t"
    using m t(1) by (auto simp: moved_def lo_kids hi_kids)
  moreover have "balanceWith (limits_of n) t sep r = balanceWithLeft (limits_of n) t sep r"
    using a(1) by (simp add: balanceWith_def getVirtualEntries_def split: if_splits)
  ultimately show ?thesis
    using a by (auto simp: moved_def ok_kids)
qed

lemma isLow_balanceLeft:
  assumes n: "3 \<le> n" and t: "kids n h t" "phys t < low n h" and l: "ok n h l" and sum: "hi n t \<le> phys t + phys l"
  shows "\<exists>l' s' r'. balanceWith (limits_of n) l sep t = Inr (l', s', r') \<and> moved n h l sep t (l', s', r') \<and>
     ok n h l' \<and> ok n h r'"
proof -
  note a = low_balance [OF n t l sum]
  have kl: "kids n h l"
    using l by (simp add: ok_kids)
  obtain l' s' r' where 1: "balanceWithRight (limits_of n) l sep t = Inr (l', s', r')" and m: "moved n h l sep t (l', s', r')"
    and "phys l' = Suc (phys l + phys t) div 2" "phys r' = (phys l + phys t) div 2"
    using balanceWithRight_ok [OF kl t(1) n a(1,2)] by blast
  moreover have "lo n l' = lo n t" "hi n l' = hi n t" "lo n r' = lo n t" "hi n r' = hi n t"
    using m t(1) by (auto simp: moved_def lo_kids hi_kids)
  moreover have "balanceWith (limits_of n) l sep t = balanceWithRight (limits_of n) l sep t"
    using a(1) by (simp add: balanceWith_def getVirtualEntries_def split: if_splits)
  ultimately show ?thesis
    using a by (auto simp: moved_def ok_kids algebra_simps)
qed

text \<open>The outcome for a branch, or any node, from which something may have been taken.\<close>

definition shrunk :: "nat \<Rightarrow> nat \<Rightarrow> 'e node \<Rightarrow> bool \<Rightarrow> 'e node \<Rightarrow> bool" where
  "shrunk n h t notify t' \<longleftrightarrow> kids n h t' \<and> phys t' \<le> phys t \<and> phys t \<le> Suc (phys t') \<and>
     (if notify then phys t' < low n h \<and> phys t = Suc (phys t') else phys t' = phys t \<or> low n h \<le> phys t')"

lemma merge_children_ok:
  assumes n: "3 \<le> n" and k: "kids n h l" "kids n h r" and sum: "phys l + phys r < hi n l"
    and lo: "lo n l \<le> phys l \<or> lo n l \<le> phys r" and ne: "h = 0 \<longrightarrow> 1 \<le> phys r"
    and b: "b = plug z l ((sep, r) # its)" "before_ok n h z" "items_ok n h its"
  shows "\<exists>notify b'. merge_children (limits_of n) (Suc (zlen z)) b = Inr (notify, b') \<and>
     shrunk n (Suc h) (node_of b) notify (node_of b') \<and> inorder (node_of b') = inorder (node_of b)"
proof -
  obtain l' where l': "mergeWithRight (limits_of n) l sep r = Inr l'" "kids n h l'"
    "inorder l' = inorder l @ sep # inorder r" "phys l' = phys l + phys r + 1"
    using mergeWithRight_ok [OF k n ne, of sep] sum by auto
  have "lo n l' = lo n l" "hi n l' = hi n l"
    using l'(2) k by (simp_all add: lo_kids hi_kids)
  then have "ok n h l'"
    using l' sum lo by (auto simp: ok_kids)
  then have kb: "kids n (Suc h) (node_of (plug z l' its))"
    using b by (simp add: kids_plug)
  have "merge_children (limits_of n) (Suc (zlen z)) b = Inr (zlen z + length its < (n - 1) div 2, plug z l' its)"
    using l'(1) isLow_kids [OF kb n] by (simp add: merge_children_def b(1) Let_def node_of_def [symmetric])
  then show ?thesis
    using kb l'(3) b by (auto simp: shrunk_def low_def)
qed

lemma branch_isLow_ok:
  assumes n: "3 \<le> n" and b: "b = plug z t its" "before_ok n h z" "items_ok n h its"
    and t: "kids n h t" "phys t < low n h" "lo n t \<le> Suc (phys t)" and len: "1 \<le> length (snd b)"
  shows "\<exists>notify b'. branch_isLow (limits_of n) (zlen z) b = Inr (notify, b') \<and>
     shrunk n (Suc h) (node_of b) notify (node_of b') \<and> inorder (node_of b') = inorder (node_of b)"
proof -
  let ?P = "\<lambda>res. \<exists>notify b'. res = Inr (notify, b') \<and>
     shrunk n (Suc h) (node_of b) notify (node_of b') \<and> inorder (node_of b') = inorder (node_of b)"
  have bal: "?P (balance_children f (Suc (zlen z')) b)"
    if "\<exists>l' s' r'. f l sep r = Inr (l', s', r') \<and> moved n h l sep r (l', s', r') \<and> ok n h l' \<and> ok n h r'"
      "b = plug z' l ((sep, r) # its')" "before_ok n h z'" "items_ok n h its'" for f l sep r z' its'
    using balance_children_ok [of f l sep r _ _ _ n h b z' its'] that by (fastforce simp: shrunk_def)
  have mx: "getMaxPhysicalEntries (limits_of n) t = Suc (hi n t)"
    using max_kids [OF t(1) n] .
  have ne: "h = 0 \<longrightarrow> 1 \<le> phys t"
    using t n by (auto simp: lo_kids)
  have sib: "kids n h u \<and> hi n u = hi n t \<and> lo n u = lo n t \<and> lo n u \<le> phys u \<and> 1 \<le> phys u" if "ok n h u" for u
    using that t n lo_le_low [of n h u] by (auto simp: ok_kids hi_kids lo_kids)
  have gt: "getNode b (zlen z) = t"
    by (simp add: b)
  have left: "\<exists>z' l a. before_ok n h z' \<and> ok n h l \<and> zlen z = Suc (zlen z') \<and> b = plug z' l ((a, t) # its)" if "0 < zlen z"
    using beforeE [OF b(2) that] b(1) by metis
  have balL: "?P (balance_children (balanceWith (limits_of n)) (zlen z) b)"
    if pos: "0 < zlen z" and sum: "getVirtualEntries t + phys (getNode b (zlen z - 1)) \<ge> Suc (hi n t)"
  proof -
    obtain z' l a where l: "before_ok n h z'" "ok n h l" "zlen z = Suc (zlen z')" "b = plug z' l ((a, t) # its)"
      using left [OF pos] by blast
    then have "hi n t \<le> phys t + phys l"
      using sum by (simp add: getVirtualEntries_def)
    from bal [of "balanceWith (limits_of n)", OF isLow_balanceLeft [OF n t(1,2) l(2) this, of a] l(4,1) b(3)] l(3)
    show ?thesis by simp
  qed
  have merL: "?P (merge_children (limits_of n) (zlen z) b)"
    if pos: "0 < zlen z" and sum: "\<not> getVirtualEntries t + phys (getNode b (zlen z - 1)) \<ge> Suc (hi n t)"
  proof -
    obtain z' l a where l: "before_ok n h z'" "ok n h l" "zlen z = Suc (zlen z')" "b = plug z' l ((a, t) # its)"
      using left [OF pos] by blast
    then have "phys l + phys t < hi n l"
      using sum sib [OF l(2)] by (simp add: getVirtualEntries_def)
    from merge_children_ok [OF n _ t(1) this _ ne l(4,1) b(3)] sib [OF l(2)] l(3) show ?thesis by simp
  qed
  show ?thesis
  proof (cases "its = []")
    case True
    then have "0 < zlen z" "length (snd b) = zlen z"
      using len b(1) by simp_all
    then show ?thesis
      unfolding branch_isLow_def Let_def gt mx using balL merL by simp
  next
    case False
    then obtain s r its' where its: "its = (s, r) # its'" and r: "ok n h r" and rest: "items_ok n h its'"
      using b(3) by (cases its) auto
    have bz: "b = plug z t ((s, r) # its')" "zlen z < length (snd b)"
      by (simp_all add: b its)
    have nr: "getNode b (zlen z + 1) = r"
      by (simp add: bz)
    have balR: "?P (balance_children (balanceWith (limits_of n)) (zlen z + 1) b)"
      if "phys t + getVirtualEntries r \<ge> Suc (hi n t)"
    proof -
      have "hi n t \<le> phys t + phys r"
        using that by (simp add: getVirtualEntries_def)
      from bal [of "balanceWith (limits_of n)", OF isLow_balanceRight [OF n t(1,2) r this, of s] bz(1) b(2) rest]
      show ?thesis by simp
    qed
    have merR: "?P (merge_children (limits_of n) (zlen z + 1) b)"
      if "\<not> phys t + getVirtualEntries r \<ge> Suc (hi n t)"
      using merge_children_ok [OF n t(1) _ _ _ _ bz(1) b(2) rest] sib [OF r] that
      by (simp add: getVirtualEntries_def)
    show ?thesis
      unfolding branch_isLow_def Let_def gt nr mx using balL merL balR merR bz(2)
      by (cases "0 < zlen z"; cases "phys t + getVirtualEntries r \<ge> Suc (hi n t)") simp_all
  qed
qed

subsection \<open>Removing along a path\<close>

fun leaf_entry :: "nat list \<Rightarrow> nat \<Rightarrow> 'e node \<Rightarrow> bool" where
  "leaf_entry [] i (Leaf xs) \<longleftrightarrow> i < length xs"
| "leaf_entry (j # path) i (Branch c its) \<longleftrightarrow> j \<le> length its \<and> leaf_entry path i (getNode (c, its) j)"
| "leaf_entry _ _ _ \<longleftrightarrow> False"

text \<open>How the outcome for a child becomes the outcome for the branch.\<close>

lemma shrunk_child:
  assumes n: "3 \<le> n" and b: "(c, its) = plug z u its'" and ch: "before_ok n h z" "ok n h u" "items_ok n h its'"
    and u': "shrunk n h u notify u'" and len: "1 \<le> length its"
  shows "\<exists>notify' b'. (let b = setNode (zlen z) u' (c, its) in
       if notify then rbind (branch_isLow (limits_of n) (zlen z) b) (\<lambda>(notify', b'). Inr (notify', Branch (fst b') (snd b')))
       else Inr (False, Branch (fst b) (snd b))) = Inr (notify', node_of b') \<and>
     shrunk n (Suc h) (Branch c its) notify' (node_of b') \<and>
     inorder (node_of b') = front z @ inorder u' @ flat its'"
proof -
  have set: "setNode (zlen z) u' (c, its) = plug z u' its'"
    by (subst b) simp
  have len': "length its = zlen z + length its'"
    using b plug_simps(1) [of z u its'] by (metis snd_conv)
  have k: "kids n h u'" and e: "lo n u' = lo n u" "hi n u' = hi n u"
    using u' ch(2) by (auto simp: shrunk_def ok_kids lo_kids hi_kids)
  show ?thesis
  proof (cases notify)
    case True
    then have "phys u' < low n h" "lo n u' \<le> Suc (phys u')" "1 \<le> length (snd (plug z u' its'))"
      using u' ch(2) e len len' by (auto simp: shrunk_def ok_kids)
    from branch_isLow_ok [OF n refl ch(1,3) k this] obtain notify' b' where
      "branch_isLow (limits_of n) (zlen z) (plug z u' its') = Inr (notify', b')"
      "shrunk n (Suc h) (node_of (plug z u' its')) notify' (node_of b')"
      "inorder (node_of b') = inorder (node_of (plug z u' its'))"
      by blast
    with True len' show ?thesis
      by (intro exI [of _ notify'] exI [of _ b']) (auto simp: set Let_def shrunk_def node_of_def [symmetric] split: if_splits)
  next
    case False
    then have "ok n h u'"
      using u' ch(2) e k lo_le_low [OF k n] by (auto simp: shrunk_def ok_kids)
    then have "kids n (Suc h) (node_of (plug z u' its'))"
      using ch by (simp add: kids_plug)
    with False len' show ?thesis
      by (intro exI [of _ False] exI [of _ "plug z u' its'"]) (simp add: set Let_def shrunk_def node_of_def [symmetric])
  qed
qed

lemma leaf_entry_cut: "leaf_entry path i t \<Longrightarrow> snd (cut_at path i t) \<noteq> []"
  by (induction path i t rule: leaf_entry.induct) (auto split: prod.splits)

lemma remove_leaf_at_ok:
  assumes n: "3 \<le> n" and "leaf_entry path i t" "kids n h t" "h \<noteq> 0 \<longrightarrow> 1 \<le> phys t"
  shows "\<exists>notify t'. remove_leaf_at (limits_of n) path i t = Inr (notify, t') \<and> shrunk n h t notify t' \<and>
     inorder t' = fst (cut_at path i t) @ tl (snd (cut_at path i t))"
  using assms(2-)
proof (induction path i t arbitrary: h rule: leaf_entry.induct)
  case (1 i xs)
  then have "leaf_remove i xs = Inr (take i xs @ drop (Suc i) xs)"
    by (simp add: leaf_remove_def)
  moreover have "drop i xs = xs ! i # drop (Suc i) xs"
    using 1 by (simp add: Cons_nth_drop_Suc)
  ultimately show ?case
    using 1 n by (auto simp: shrunk_def low_def isLow_kids [where h = 0])
next
  case (2 j path i c its)
  obtain h' where h: "h = Suc h'"
    using "2.prems"(2) by (cases h) auto
  have j: "j \<le> length its"
    using "2.prems"(1) by simp
  let ?u = "getNode (c, its) j"
  obtain z its' where b: "(c, its) = plug z ?u its'" and z: "zlen z = j"
    using plugE [of j "(c, its)"] j by auto
  have nb: "Branch c its = node_of (plug z ?u its')"
    unfolding b [symmetric] by (simp add: node_of_def)
  note ch = kids_children [OF "2.prems"(2) [unfolded h nb]]
  have u: "kids n h' ?u" "h' \<noteq> 0 \<longrightarrow> 1 \<le> phys ?u"
    using ch(2) n lo_le_low [of n h' ?u] by (auto simp: ok_kids)
  obtain notify u' where u': "remove_leaf_at (limits_of n) path i ?u = Inr (notify, u')" "shrunk n h' ?u notify u'"
    "inorder u' = fst (cut_at path i ?u) @ tl (snd (cut_at path i ?u))"
    using "2.IH" [OF _ u] "2.prems"(1) by auto
  have "1 \<le> length its"
    using "2.prems"(3) h by simp
  from shrunk_child [OF n b ch u'(2) this] obtain notify' b' where
    "remove_leaf_at (limits_of n) (j # path) i (Branch c its) = Inr (notify', node_of b')"
    "shrunk n (Suc h') (Branch c its) notify' (node_of b')" "inorder (node_of b') = front z @ inorder u' @ flat its'"
    unfolding z by (auto simp: u'(1))
  moreover have "cut_at (j # path) i (Branch c its) = (front z @ fst (cut_at path i ?u), snd (cut_at path i ?u) @ flat its')"
    using b z parts_plug [of z ?u its'] by (auto split: prod.splits)
  moreover have "snd (cut_at path i ?u) \<noteq> []"
    using leaf_entry_cut [of path i ?u] "2.prems"(1) by simp
  ultimately show ?case
    using u'(3) h by auto
qed auto

text \<open>Any entry, in a leaf or in a branch, and what stands before and behind it.\<close>

fun entry_place :: "nat list \<Rightarrow> nat \<Rightarrow> 'e node \<Rightarrow> bool" where
  "entry_place [] i (Leaf xs) \<longleftrightarrow> i < length xs"
| "entry_place [] i (Branch c its) \<longleftrightarrow> 1 \<le> i \<and> i \<le> length its"
| "entry_place (j # path) i (Branch c its) \<longleftrightarrow> j \<le> length its \<and> entry_place path i (getNode (c, its) j)"
| "entry_place (j # path) i (Leaf xs) \<longleftrightarrow> False"

fun around :: "nat list \<Rightarrow> nat \<Rightarrow> 'e node \<Rightarrow> 'e list \<times> 'e list" where
  "around [] i (Leaf xs) = (take i xs, drop (Suc i) xs)"
| "around [] i (Branch c its) =
     (inorder c @ flat (take (i - 1) its), inorder (getNode (c, its) i) @ flat (drop i its))"
| "around (j # path) i (Branch c its) =
     (case around path i (getNode (c, its) j) of (as, bs) \<Rightarrow> (left_part j (c, its) @ as, bs @ right_part j (c, its)))"
| "around (j # path) i (Leaf xs) = ([], [])"

lemma first_entry:
  assumes "3 \<le> n" "ok n h t"
  shows "leaf_entry (first_path t) 0 t" "cut_at (first_path t) 0 t = ([], inorder t)"
    "firstLeaf t \<noteq> []" "hd (firstLeaf t) = hd (inorder t)" "inorder t \<noteq> []"
  using assms
  by (induction n h t rule: ok.induct) (auto simp: getNode_def left_part_def right_part_def split: prod.splits)

lemma remove_at_branch:
  assumes n: "3 \<le> n" and i: "1 \<le> i" "i \<le> length its" and k: "kids n h (Branch c its)"
  shows "\<exists>notify t'. remove_at (limits_of n) [] i (Branch c its) = Inr (notify, t') \<and>
     shrunk n h (Branch c its) notify t' \<and>
     inorder t' = fst (around [] i (Branch c its)) @ snd (around [] i (Branch c its))"
proof -
  obtain h' where h: "h = Suc h'"
    using k by (cases h) auto
  have "i - 1 < length (snd (c, its))"
    using i by simp
  from plugE_right [OF this] obtain z e t its' where b: "(c, its) = plug z (getNode (c, its) (i - 1)) ((e, t) # its')"
    and z: "zlen z = i - 1"
    by metis
  define l where "l = getNode (c, its) (i - 1)"
  have b: "(c, its) = plug z l ((e, t) # its')" and z: "i = Suc (zlen z)"
    using b z i by (simp_all add: l_def)
  have nb: "Branch c its = node_of (plug z l ((e, t) # its'))"
    unfolding b [symmetric] by (simp add: node_of_def)
  note ch = kids_children [OF k [unfolded h nb]]
  have t: "ok n h' t"
    using ch by simp
  note fst = first_entry [OF n t]
  define x where "x = hd (inorder t)"
  define d where "d = fst (plug z l ((x, t) # its'))"
  define jts where "jts = snd (plug z l ((x, t) # its'))"
  have dj: "(d, jts) = plug z l ((x, t) # its')"
    by (simp add: d_def jts_def)
  have gt: "getNode (c, its) i = t" "getNode (d, jts) i = t"
    by (simp_all add: b dj z)
  have len: "length jts = length its"
    using b dj by (metis length_Cons plug_simps(1) snd_conv)
  have rem: "remove_at (limits_of n) [] i (Branch c its) = remove_leaf_at (limits_of n) (i # first_path t) 0 (Branch d jts)"
  proof -
    have "setObject i (hd (firstLeaf t)) (c, its) = (d, jts)"
      using fst(4) by (simp add: b z x_def dj)
    then show ?thesis
      by (simp add: Let_def gt(1) del: remove_leaf_at.simps)
  qed
  have kd: "kids n h (Branch d jts)"
  proof -
    have "Branch d jts = node_of (plug z l ((x, t) # its'))"
      by (simp add: node_of_def d_def jts_def)
    then show ?thesis
      using ch h by (simp add: kids_plug)
  qed
  have "leaf_entry (i # first_path t) 0 (Branch d jts)"
    using i len fst(1) gt by simp
  from remove_leaf_at_ok [OF n this kd] obtain notify t' where
    "remove_leaf_at (limits_of n) (i # first_path t) 0 (Branch d jts) = Inr (notify, t')"
    "shrunk n h (Branch d jts) notify t'" and io: "inorder t' =
      fst (cut_at (i # first_path t) 0 (Branch d jts)) @ tl (snd (cut_at (i # first_path t) 0 (Branch d jts)))"
    using i len by auto
  moreover have "cut_at (i # first_path t) 0 (Branch d jts) = (front z @ inorder l @ [x], inorder t @ flat its')"
    using fst(2) gt(2) by (simp add: dj z)
  moreover have "around [] i (Branch c its) = (front z @ inorder l, inorder t @ flat its')"
    using parts_plug_Suc(2,3) [of z l e t its'] gt(1) by (simp add: b [symmetric] z right_part_def)
  moreover have "inorder t = x # tl (inorder t)"
    using fst(5) by (simp add: x_def)
  ultimately show ?thesis
    using len rem fst(5) by (auto simp: shrunk_def)
qed

lemma remove_at_ok:
  assumes n: "3 \<le> n" and "entry_place path i t" "kids n h t" "h \<noteq> 0 \<longrightarrow> 1 \<le> phys t"
  shows "\<exists>notify t'. remove_at (limits_of n) path i t = Inr (notify, t') \<and> shrunk n h t notify t' \<and>
     inorder t' = fst (around path i t) @ snd (around path i t)"
  using assms(2-)
proof (induction path i t arbitrary: h rule: entry_place.induct)
  case (1 i xs)
  then have "leaf_entry [] i (Leaf xs)" by simp
  from remove_leaf_at_ok [OF n this "1.prems"(2,3)] 1 show ?case
    by (auto simp: drop_Suc tl_drop)
next
  case (2 i c its)
  then have "1 \<le> i" "i \<le> length its" by simp_all
  then show ?case
    by (rule remove_at_branch [OF n _ _ "2.prems"(2)])
next
  case (3 j path i c its)
  obtain h' where h: "h = Suc h'"
    using "3.prems"(2) by (cases h) auto
  have j: "j \<le> length its"
    using "3.prems"(1) by simp
  let ?u = "getNode (c, its) j"
  obtain z its' where b: "(c, its) = plug z ?u its'" and z: "zlen z = j"
    using plugE [of j "(c, its)"] j by auto
  have nb: "Branch c its = node_of (plug z ?u its')"
    unfolding b [symmetric] by (simp add: node_of_def)
  note ch = kids_children [OF "3.prems"(2) [unfolded h nb]]
  have u: "kids n h' ?u" "h' \<noteq> 0 \<longrightarrow> 1 \<le> phys ?u"
    using ch(2) n lo_le_low [of n h' ?u] by (auto simp: ok_kids)
  obtain notify u' where u': "remove_at (limits_of n) path i ?u = Inr (notify, u')" "shrunk n h' ?u notify u'"
    "inorder u' = fst (around path i ?u) @ snd (around path i ?u)"
    using "3.IH" [OF _ u] "3.prems"(1) by auto
  have "1 \<le> length its"
    using "3.prems"(3) h by simp
  from shrunk_child [OF n b ch u'(2) this] obtain notify' b' where
    "remove_at (limits_of n) (j # path) i (Branch c its) = Inr (notify', node_of b')"
    "shrunk n (Suc h') (Branch c its) notify' (node_of b')" "inorder (node_of b') = front z @ inorder u' @ flat its'"
    unfolding z by (auto simp: u'(1))
  moreover have "around (j # path) i (Branch c its) = (front z @ fst (around path i ?u), snd (around path i ?u) @ flat its')"
    using b z parts_plug [of z ?u its'] by (auto split: prod.splits)
  ultimately show ?case
    using u'(3) h by auto
qed auto
end
