(* ===== verification/TreeSearch.thy ===== *)
theory TreeSearch
  imports TreeShape
begin

section \<open>Searching the tree\<close>

text \<open>
  The binary search of a node agrees with counting the smaller keys, and \<open>find\<close> returns the
  entry with the key or the place where it belongs.
\<close>

subsection \<open>The search in one node\<close>

text \<open>The specification: how many keys are smaller, and whether the next one is equal.\<close>

definition smaller :: "'k::linorder list \<Rightarrow> 'k \<Rightarrow> nat" where
  "smaller ks what = length (takeWhile (\<lambda>k. k < what) ks)"

definition search_spec :: "'k::linorder list \<Rightarrow> nat \<Rightarrow> 'k \<Rightarrow> search_result" where
  "search_spec ks base what =
     (let i = smaller ks what in
      if i = length ks then AtEnd else if ks ! i = what then Found (base + i) else Before (base + i))"

lemma strict_sorted_nth:
  "sorted_wrt (<) ks \<Longrightarrow> i < j \<Longrightarrow> j < length ks \<Longrightarrow> ks ! i < (ks ! j :: 'k::linorder)"
  by (rule sorted_wrt_nth_less)

lemma smaller_nth: "i < smaller ks what \<Longrightarrow> ks ! i < what"
  unfolding smaller_def by (metis (mono_tags, lifting) nth_mem set_takeWhileD takeWhile_nth)

lemma smaller_le: "smaller ks what \<le> length ks"
  by (simp add: smaller_def length_takeWhile_le)

lemma smaller_at: "smaller ks what < length ks \<Longrightarrow> \<not> ks ! smaller ks what < what"
  unfolding smaller_def by (rule nth_length_takeWhile)

lemma smaller_ge:
  assumes "sorted_wrt (<) ks" "smaller ks what \<le> i" "i < length ks"
  shows "what \<le> ks ! i" and "smaller ks what < i \<longrightarrow> what < ks ! i"
proof -
  have "what \<le> ks ! smaller ks what"
    using smaller_at [of ks what] assms by simp
  moreover have "ks ! smaller ks what < ks ! i" if "smaller ks what < i"
    using strict_sorted_nth [OF assms(1) that assms(3)] .
  ultimately show "what \<le> ks ! i" "smaller ks what < i \<longrightarrow> what < ks ! i"
    using assms(2) by (fastforce simp: le_less)+
qed

lemma compare_less: "compare a b < 0 \<longleftrightarrow> a < b" and compare_eq: "compare a b = 0 \<longleftrightarrow> a = b"
  and compare_greater: "compare a b > 0 \<longleftrightarrow> b < a"
  by (auto simp: compare_def)

lemma bsearch_loop_spec:
  fixes ks :: "'k::linorder list"
  assumes p: "p = smaller ks what" and sorted: "sorted_wrt (<) ks" and base: "0 \<le> base"
    and "base \<le> start" "finish < base + int (length ks)" "start \<le> base + int p" "base + int p \<le> finish + 1"
    and "if upper = - 1 then finish = base + int (length ks) - 1
         else finish < upper \<and> upper < base + int (length ks) \<and> what < ks ! nat (finish + 1 - base)"
  shows "case bsearch_loop ks base what start finish upper of
       Inl i \<Rightarrow> i = base + int p \<and> p < length ks \<and> ks ! p = what
     | Inr (s, u) \<Rightarrow> s = base + int p \<and>
         (if u = - 1 then p = length ks else p < length ks \<and> what < ks ! p \<and> s \<le> u \<and> u < base + int (length ks))"
  using assms(4-)
proof (induction "nat (finish - start + 1)" arbitrary: start finish upper rule: less_induct)
  case less
  show ?case
  proof (cases "start \<le> finish")
    case False
    then have e: "start = finish + 1" "start = base + int p"
      using less.prems by linarith+
    then have "nat (finish + 1 - base) = p"
      by simp
    with e False less.prems show ?thesis
      by (subst bsearch_loop.simps) (auto split: if_splits)
  next
    case True
    define mid where "mid = (start + finish) div 2"
    define m where "m = nat (mid - base)"
    have mid: "start \<le> mid" "mid \<le> finish"
      using True by (simp_all add: mid_def)
    have m: "mid = base + int m" "m < length ks"
      using mid less.prems(1,2) by (simp_all add: m_def)
    have unf: "bsearch_loop ks base what start finish upper =
       (if ks ! m = what then Inl mid
        else if ks ! m < what then bsearch_loop ks base what (mid + 1) finish upper
        else bsearch_loop ks base what start (mid - 1) finish)"
      using True by (subst bsearch_loop.simps)
        (simp add: Let_def compare_less compare_eq mid_def [symmetric] m_def [symmetric])
    consider "ks ! m = what" | "ks ! m < what" | "what < ks ! m"
      by (meson linorder_less_linear)
    then show ?thesis
    proof cases
      case 1
      have "\<not> m < p" "\<not> p < m"
        using 1 smaller_nth [of m ks what] smaller_ge(2) [OF sorted _ m(2), of what] p by auto
      with 1 unf m show ?thesis by simp
    next
      case 2
      then have "m < p"
        using smaller_ge(1) [OF sorted _ m(2), of what] p by (simp add: not_le [symmetric]) (meson leD not_le_imp_less)
      with 2 unf less.hyps [of finish "mid + 1" upper] less.prems mid m show ?thesis by simp
    next
      case 3
      then have "p \<le> m"
        using smaller_nth [of m ks what] p by (meson not_le order.asym)
      moreover have "nat (mid - 1 + 1 - base) = m"
        by (simp add: m_def)
      moreover have "finish \<noteq> - 1"
        using mid less.prems(1) base by linarith
      moreover have "\<not> ks ! m < what" "ks ! m \<noteq> what"
        using 3 by auto
      ultimately show ?thesis
        using 3 unf less.hyps [of "mid - 1" start finish] less.prems mid m by simp
    qed
  qed
qed

lemma node_search_spec:
  fixes ks :: "'k::linorder list"
  assumes "sorted_wrt (<) ks"
  shows "node_search ks (int base) what = search_spec ks base what"
proof -
  let ?p = "smaller ks what"
  have "case bsearch_loop ks (int base) what (int base) (int base + int (length ks) - 1) (- 1) of
       Inl i \<Rightarrow> i = int base + int ?p \<and> ?p < length ks \<and> ks ! ?p = what
     | Inr (s, u) \<Rightarrow> s = int base + int ?p \<and>
         (if u = - 1 then ?p = length ks
          else ?p < length ks \<and> what < ks ! ?p \<and> s \<le> u \<and> u < int base + int (length ks))"
    using smaller_le [of ks what] by (intro bsearch_loop_spec [OF refl assms]) auto
  then consider "bsearch_loop ks (int base) what (int base) (int base + int (length ks) - 1) (- 1) = Inl (int base + int ?p)"
      "?p < length ks" "ks ! ?p = what"
    | u where "bsearch_loop ks (int base) what (int base) (int base + int (length ks) - 1) (- 1) = Inr (int base + int ?p, u)"
      "if u = - 1 then ?p = length ks else ?p < length ks \<and> what < ks ! ?p \<and> int base + int ?p \<le> u"
    by (auto split: sum.splits prod.splits if_splits)
  then show ?thesis
  proof cases
    case 1
    then show ?thesis
      by (simp add: node_search_def search_spec_def nat_add_distrib Let_def)
  next
    case (2 u)
    have "bsearch_scan ks (int base) what (int base + int ?p) u = Before (base + ?p)" if "u \<noteq> - 1"
      using 2(2) that by (subst bsearch_scan.simps) (simp add: compare_greater nat_add_distrib)
    with 2 show ?thesis
      by (auto simp: node_search_def search_spec_def Let_def split: if_splits)
  qed
qed

subsection \<open>The search in the tree\<close>

definition sorted_node :: "('k::linorder \<times> 'v) node \<Rightarrow> bool" where
  "sorted_node t \<longleftrightarrow> sorted_wrt (<) (map fst (inorder t))"

definition below_key :: "('k::linorder \<times> 'v) list \<Rightarrow> 'k \<Rightarrow> bool" where
  "below_key xs k \<longleftrightarrow> (\<forall>x \<in> set xs. fst x < k)"

definition above_key :: "('k::linorder \<times> 'v) list \<Rightarrow> 'k \<Rightarrow> bool" where
  "above_key xs k \<longleftrightarrow> (\<forall>x \<in> set xs. k < fst x)"

lemma below_key_simps [simp]:
  "below_key [] k" "below_key (x # xs) k \<longleftrightarrow> fst x < k \<and> below_key xs k" "below_key (xs @ ys) k \<longleftrightarrow> below_key xs k \<and> below_key ys k"
  and above_key_simps [simp]:
  "above_key [] k" "above_key (x # xs) k \<longleftrightarrow> k < fst x \<and> above_key xs k" "above_key (xs @ ys) k \<longleftrightarrow> above_key xs k \<and> above_key ys k"
  by (auto simp: below_key_def above_key_def)

lemma leaf_place_cut: "leaf_place path i t \<Longrightarrow> fst (cut_at path i t) @ snd (cut_at path i t) = inorder t"
proof (induction path i t rule: leaf_place.induct)
  case (2 j path i c its)
  then obtain z its' where b: "(c, its) = plug z (getNode (c, its) j) its'" and z: "zlen z = j"
    using plugE [of j "(c, its)"] by auto
  have "inorder (Branch c its) = front z @ inorder (getNode (c, its) j) @ flat its'"
    using inorder_plug [of z "getNode (c, its) j" its'] by (simp add: b [symmetric] node_of_def)
  with 2 b z parts_plug [of z "getNode (c, its) j" its'] show ?case
    by (auto split: prod.splits)
qed auto

text \<open>What \<open>find\<close> promises.\<close>

definition found :: "('k::linorder \<times> 'v) node \<Rightarrow> 'k \<Rightarrow> ('k \<times> 'v) option \<times> nat list \<times> nat \<times> bool \<Rightarrow> bool" where
  "found t what res \<longleftrightarrow>
     (case res of (x, path, i, e) \<Rightarrow>
       (case x of
          Some y \<Rightarrow> fst y = what \<and> entry_place path i t \<and>
            inorder t = fst (around path i t) @ y # snd (around path i t) \<and> \<not> e
        | None \<Rightarrow> leaf_place path i t \<and> below_key (fst (cut_at path i t)) what \<and> above_key (snd (cut_at path i t)) what \<and>
            (e \<longrightarrow> path = last_path t \<and> snd (cut_at path i t) = [])))"

lemma sorted_append_below:
  "sorted_wrt (<) (map fst (xs @ y # zs)) \<Longrightarrow> fst y \<le> k \<Longrightarrow> below_key xs k"
  "sorted_wrt (<) (map fst (xs @ y # zs)) \<Longrightarrow> k \<le> fst y \<Longrightarrow> above_key zs k"
  by (auto simp: below_key_def above_key_def sorted_wrt_append)

lemma items_keys_sorted:
  "sorted_wrt (<) (map fst (flat its)) \<Longrightarrow> sorted_wrt (<) (map (fst \<circ> fst) its)"
proof (induction its)
  case (Cons it its)
  have "set (map (fst \<circ> fst) its) \<subseteq> set (map fst (flat its))"
    by (auto simp: flat_def)
  with Cons show ?case
    by (auto simp: sorted_wrt_append)
qed simp

lemma found_leaf:
  assumes "sorted_wrt (<) (map fst xs)"
  shows "found (Leaf xs) what (node_find (Leaf xs) what)"
proof -
  let ?p = "smaller (map fst xs) what"
  have le: "?p \<le> length xs"
    using smaller_le [of "map fst xs" what] by simp
  have b: "below_key (take ?p xs) what"
  proof -
    have "fst (xs ! j) < what" if "j < ?p" for j
      using smaller_nth [OF that] that le by simp
    then show ?thesis
      by (fastforce simp: below_key_def in_set_conv_nth)
  qed
  have a: "above_key (drop ?p xs) what" if "?p = length xs \<or> fst (xs ! ?p) \<noteq> what"
  proof -
    have "what < fst (xs ! j)" if "?p \<le> j" "j < length xs" for j
      using smaller_ge [OF assms, of what j] that \<open>?p = length xs \<or> fst (xs ! ?p) \<noteq> what\<close>
      by (cases "j = ?p") auto
    then have "what < fst (drop ?p xs ! j)" if "j < length (drop ?p xs)" for j
      using that by simp
    then show ?thesis
      unfolding above_key_def by (metis in_set_conv_nth)
  qed
  have spec: "node_search (map fst xs) 0 what = search_spec (map fst xs) 0 what"
    using node_search_spec [OF assms, of 0 what] by simp
  show ?thesis
  proof (cases "?p < length xs \<and> fst (xs ! ?p) = what")
    case True
    moreover have "xs = take ?p xs @ xs ! ?p # drop (Suc ?p) xs"
      using True by (intro id_take_nth_drop) simp
    ultimately show ?thesis
      by (simp add: spec search_spec_def Let_def found_def)
  next
    case False
    then have "above_key (drop ?p xs) what"
      using a le by auto
    with False b le show ?thesis
      by (auto simp: spec search_spec_def Let_def found_def)
  qed
qed

text \<open>The child the search goes on in, and that everything beside it is out of question.\<close>

lemma branch_step:
  assumes sorted: "sorted_node (Branch c its)" and ks: "ks = map (fst \<circ> fst) its" and p: "p = smaller ks what"
    and nf: "p < length ks \<longrightarrow> ks ! p \<noteq> what"
  obtains z its' where "(c, its) = plug z (getNode (c, its) p) its'" "zlen z = p" "p \<le> length its"
    "below_key (front z) what" "above_key (flat its') what" "sorted_node (getNode (c, its) p)"
proof -
  have le: "p \<le> length its"
    using smaller_le [of ks what] by (simp add: p ks)
  then obtain z its' where b: "(c, its) = plug z (getNode (c, its) p) its'" and z: "zlen z = p"
    using plugE [of p "(c, its)"] by auto
  define u where "u = getNode (c, its) p"
  have b: "(c, its) = plug z u its'"
    using b by (simp add: u_def)
  have io: "inorder (Branch c its) = front z @ inorder u @ flat its'"
    using inorder_plug [of z u its'] by (simp add: b [symmetric] node_of_def)
  have srt: "sorted_wrt (<) (map fst (front z @ inorder u @ flat its'))"
    using sorted unfolding sorted_node_def io .
  have sits: "sorted_wrt (<) ks"
    unfolding ks using sorted by (intro items_keys_sorted) (simp add: sorted_node_def sorted_wrt_append)
  have "below_key (front z) what"
  proof (cases z rule: front.cases)
    case (2 c' as a)
    then have "ks ! (p - 1) = fst a" "0 < p"
      using b z by (auto simp: ks nth_append)
    then have "fst a < what"
      using smaller_nth [of "p - 1" ks what] by (simp add: p)
    moreover have "below_key (inorder c' @ flat as) what"
      using srt 2 \<open>fst a < what\<close> by (intro sorted_append_below(1) [of _ a "inorder u @ flat its'"]) auto
    ultimately show ?thesis
      using 2 by simp
  qed simp
  moreover have "above_key (flat its') what"
  proof (cases its')
    case (Cons it its'')
    have "p < length ks" "ks ! p = fst (fst it)"
      using b z Cons by (cases z rule: front.cases; auto simp: ks nth_append)+
    then have "what < fst (fst it)"
      using nf smaller_at [of ks what] p by fastforce
    then show ?thesis
      using srt Cons sorted_append_below(2) [of "front z @ inorder u" "fst it" "inorder (snd it) @ flat its''" what]
      by auto
  qed simp
  moreover have "sorted_node u"
    using srt by (simp add: sorted_node_def sorted_wrt_append)
  ultimately show ?thesis
    using that [of z its'] b z le unfolding u_def by blast
qed

lemma found_child:
  assumes b: "(c, its) = plug z u its'" and j: "zlen z = j" "j \<le> length its" "getNode (c, its) j = u"
    and beside: "below_key (front z) what" "above_key (flat its') what" and f: "found u what (x, path, i, e)"
    and e': "e' \<longrightarrow> e \<and> j = length its"
  shows "found (Branch c its) what (x, j # path, i, e')"
proof -
  have io: "inorder (Branch c its) = front z @ inorder u @ flat its'"
    using inorder_plug [of z u its'] by (simp add: b [symmetric] node_of_def)
  have parts: "left_part j (c, its) = front z" "right_part j (c, its) = flat its'"
    using parts_plug [of z u its'] b j by simp_all
  have last: "last_path (Branch c its) = j # last_path u \<and> its' = []" if "j = length its"
    using that j b by (cases z rule: front.cases) (auto simp: getNode_def last_conv_nth)
  show ?thesis
  proof (cases x)
    case None
    with f beside j e' last parts show ?thesis
      by (auto simp: found_def split: prod.splits)
  next
    case (Some y)
    with f j io parts e' show ?thesis
      by (auto simp: found_def split: prod.splits)
  qed
qed

lemma node_find_found:
  assumes "sorted_node t"
  shows "found t what (node_find t what)"
  using assms
proof (induction t what rule: node_find.induct)
  case (1 xs what)
  then show ?case
    by (intro found_leaf) (simp add: sorted_node_def)
next
  case (2 c its what)
  define ks where "ks = map (fst \<circ> fst) its"
  define p where "p = smaller ks what"
  have sks: "sorted_wrt (<) ks"
    unfolding ks_def using "2.prems" by (intro items_keys_sorted) (simp add: sorted_node_def sorted_wrt_append)
  have spec: "node_search ks 1 what = search_spec ks 1 what"
    using node_search_spec [OF sks, of 1 what] by simp
  show ?case
  proof (cases "p < length ks \<and> ks ! p = what")
    case True
    then have "node_find (Branch c its) what = (Some (getObject (c, its) (Suc p)), [], Suc p, False)"
      using spec by (simp add: ks_def [symmetric] search_spec_def p_def Let_def)
    moreover have "its = take p its @ its ! p # drop (Suc p) its"
      using True by (intro id_take_nth_drop) (simp add: ks_def)
    then have "flat its = flat (take p its) @ fst (its ! p) # inorder (snd (its ! p)) @ flat (drop (Suc p) its)"
      by (metis flat_simps(2,3))
    ultimately show ?thesis
      using True by (auto simp: found_def getObject_def getNode_def ks_def)
  next
    case False
    then obtain z its' where st: "(c, its) = plug z (getNode (c, its) p) its'" "zlen z = p" "p \<le> length its"
      "below_key (front z) what" "above_key (flat its') what" "sorted_node (getNode (c, its) p)"
      using branch_step [OF "2.prems" ks_def p_def] by blast
    obtain x path i e where r: "node_find (getNode (c, its) p) what = (x, path, i, e)"
      by (cases "node_find (getNode (c, its) p) what") auto
    show ?thesis
    proof (cases "p = length its")
      case True
      then have s: "node_search (map (fst \<circ> fst) its) 1 what = AtEnd"
        using spec by (simp add: ks_def search_spec_def p_def Let_def)
      have "found (getNode (c, its) p) what (x, path, i, e)"
        using "2.IH"(2) [OF s] True st(6) r by simp
      from found_child [OF st(1,2,3) refl st(4,5) this, of e] s r True show ?thesis
        by simp
    next
      case False
      with st(3) \<open>\<not> (p < length ks \<and> ks ! p = what)\<close>
      have s: "node_search (map (fst \<circ> fst) its) 1 what = Before (Suc p)"
        using spec by (simp add: ks_def search_spec_def p_def Let_def)
      have "found (getNode (c, its) p) what (x, path, i, e)"
        using "2.IH"(1) [OF s] st(6) r by simp
      from found_child [OF st(1,2,3) refl st(4,5) this, of False] s r show ?thesis
        by simp
    qed
  qed
qed

end
