(* ===== verification/Contracts.thy ===== *)
theory Contracts
  imports Prelude
begin

section \<open>Interfaces of the containers\<close>

text \<open>
  What a client of a map, a set, a list and an iterator relies on, as locales: the operations it
  calls and the laws they promise. The lemmas proved here hold of every implementation;
  \<^verbatim>\<open>TreeMap.thy\<close>, \<^verbatim>\<open>TreeIterator.thy\<close>, \<^verbatim>\<open>HashMap.thy\<close>, \<^verbatim>\<open>HashSet.thy\<close>, \<^verbatim>\<open>ArrayList.thy\<close> and
  \<^verbatim>\<open>QueueSet.thy\<close> show the laws for the containers of the program.
\<close>

subsection \<open>Maps\<close>

datatype ('k, 'v) map_op =
    Put 'k 'v
  | Remove 'k
  | Get 'k

type_synonym ('k, 'v) entry = "('k \<times> 'v) option"

text \<open>The operations on a map as a function: the entry that was there before, and the new map.\<close>

fun spec_op :: "('k, 'v) map_op \<Rightarrow> ('k \<rightharpoonup> 'v) \<Rightarrow> ('k, 'v) entry \<times> ('k \<rightharpoonup> 'v)" where
  "spec_op (Put k v) c = (map_option (Pair k) (c k), c(k \<mapsto> v))"
| "spec_op (Remove k) c = (map_option (Pair k) (c k), c(k := None))"
| "spec_op (Get k) c = (map_option (Pair k) (c k), c)"

fun spec_ops :: "('k, 'v) map_op list \<Rightarrow> ('k \<rightharpoonup> 'v) \<Rightarrow> ('k, 'v) entry list \<times> ('k \<rightharpoonup> 'v)" where
  "spec_ops [] c = ([], c)"
| "spec_ops (x # xs) c = (case spec_op x c of (r, c') \<Rightarrow> case spec_ops xs c' of (rs, c'') \<Rightarrow> (r # rs, c''))"

text \<open>The same sequence run on an implementation.\<close>

fun run_op :: "('k \<Rightarrow> 'v \<Rightarrow> 'm \<Rightarrow> (('k, 'v) entry \<times> 'm) result) \<Rightarrow> ('k \<Rightarrow> 'm \<Rightarrow> (('k, 'v) entry \<times> 'm) result) \<Rightarrow>
    ('k \<Rightarrow> 'm \<Rightarrow> ('k, 'v) entry result) \<Rightarrow> ('k, 'v) map_op \<Rightarrow> 'm \<Rightarrow> (('k, 'v) entry \<times> 'm) result" where
  "run_op put rem get (Put k v) m = put k v m"
| "run_op put rem get (Remove k) m = rem k m"
| "run_op put rem get (Get k) m = rbind (get k m) (\<lambda>r. Inr (r, m))"

fun run_ops :: "(('k, 'v) map_op \<Rightarrow> 'm \<Rightarrow> (('k, 'v) entry \<times> 'm) result) \<Rightarrow> ('k, 'v) map_op list \<Rightarrow> 'm \<Rightarrow>
    (('k, 'v) entry list \<times> 'm) result" where
  "run_ops f [] m = Inr ([], m)"
| "run_ops f (x # xs) m = rbind (f x m) (\<lambda>(r, m'). rbind (run_ops f xs m') (\<lambda>(rs, m''). Inr (r # rs, m'')))"

locale map_store =
  fixes put :: "'k \<Rightarrow> 'v \<Rightarrow> 'm \<Rightarrow> (('k, 'v) entry \<times> 'm) result"
    and rem :: "'k \<Rightarrow> 'm \<Rightarrow> (('k, 'v) entry \<times> 'm) result"
    and get :: "'k \<Rightarrow> 'm \<Rightarrow> ('k, 'v) entry result"
    and inv :: "'m \<Rightarrow> bool"
    and abs :: "'m \<Rightarrow> 'k \<rightharpoonup> 'v"
    and capacity :: nat
  assumes finite_abs: "inv m \<Longrightarrow> finite (dom (abs m))"
    and put_law: "inv m \<Longrightarrow> card (dom (abs m)) < capacity \<Longrightarrow>
      \<exists>m'. put k v m = Inr (map_option (Pair k) (abs m k), m') \<and> inv m' \<and> abs m' = (abs m)(k \<mapsto> v)"
    and rem_law: "inv m \<Longrightarrow> card (dom (abs m)) < capacity \<Longrightarrow>
      \<exists>m'. rem k m = Inr (map_option (Pair k) (abs m k), m') \<and> inv m' \<and> abs m' = (abs m)(k := None)"
    and get_law: "inv m \<Longrightarrow> get k m = Inr (map_option (Pair k) (abs m k))"
begin

lemma run_op_ok:
  assumes "inv m" "card (dom (abs m)) < capacity"
  shows "\<exists>m'. run_op put rem get x m = Inr (fst (spec_op x (abs m)), m') \<and> inv m' \<and> abs m' = snd (spec_op x (abs m)) \<and>
     card (dom (abs m')) \<le> Suc (card (dom (abs m)))"
proof (cases x)
  case (Put k v)
  obtain m' where p: "put k v m = Inr (map_option (Pair k) (abs m k), m')" "inv m'" "abs m' = (abs m)(k \<mapsto> v)"
    using put_law [OF assms] by blast
  then have "card (dom (abs m')) \<le> Suc (card (dom (abs m)))"
    using card_insert_le_m1 [of "Suc (card (dom (abs m)))" "dom (abs m)" k] by simp
  with p Put show ?thesis by simp
next
  case (Remove k)
  obtain m' where p: "rem k m = Inr (map_option (Pair k) (abs m k), m')" "inv m'" "abs m' = (abs m)(k := None)"
    using rem_law [OF assms] by blast
  moreover have "card (dom (abs m) - {k}) \<le> Suc (card (dom (abs m)))"
    by (meson Diff_subset card_mono finite_abs [OF assms(1)] le_SucI)
  ultimately show ?thesis
    using Remove by simp
next
  case (Get k)
  with assms(1) show ?thesis by (simp add: get_law)
qed

text \<open>Any sequence of operations runs without a fault and gives what the function gives.\<close>

lemma run_ops_ok:
  assumes "inv m" "card (dom (abs m)) + length xs \<le> capacity"
  shows "\<exists>m'. run_ops (run_op put rem get) xs m = Inr (fst (spec_ops xs (abs m)), m') \<and> inv m' \<and>
     abs m' = snd (spec_ops xs (abs m))"
  using assms
proof (induction xs arbitrary: m)
  case (Cons x xs)
  obtain m' where 1: "run_op put rem get x m = Inr (fst (spec_op x (abs m)), m')" "inv m'"
    "abs m' = snd (spec_op x (abs m))" "card (dom (abs m')) \<le> Suc (card (dom (abs m)))"
    using run_op_ok [of m x] Cons.prems by auto
  with Cons.IH [of m'] Cons.prems(2) show ?case
    by (auto split: prod.splits)
qed simp

end

subsection \<open>Sets\<close>

datatype 'e set_op =
    AddElem 'e
  | RemoveElem 'e
  | HasElem 'e

text \<open>The operations on a set: whether it changed, or whether the element is there, and the new set.\<close>

fun spec_set_op :: "'e set_op \<Rightarrow> 'e set \<Rightarrow> bool \<times> 'e set" where
  "spec_set_op (AddElem x) A = (x \<notin> A, insert x A)"
| "spec_set_op (RemoveElem x) A = (x \<in> A, A - {x})"
| "spec_set_op (HasElem x) A = (x \<in> A, A)"

fun spec_set_ops :: "'e set_op list \<Rightarrow> 'e set \<Rightarrow> bool list \<times> 'e set" where
  "spec_set_ops [] A = ([], A)"
| "spec_set_ops (x # xs) A = (case spec_set_op x A of (b, B) \<Rightarrow> case spec_set_ops xs B of (bs, C) \<Rightarrow> (b # bs, C))"

fun run_set_op :: "('e \<Rightarrow> 's \<Rightarrow> (bool \<times> 's) result) \<Rightarrow> ('e \<Rightarrow> 's \<Rightarrow> (bool \<times> 's) result) \<Rightarrow> ('e \<Rightarrow> 's \<Rightarrow> bool result) \<Rightarrow>
    'e set_op \<Rightarrow> 's \<Rightarrow> (bool \<times> 's) result" where
  "run_set_op add rem has (AddElem x) s = add x s"
| "run_set_op add rem has (RemoveElem x) s = rem x s"
| "run_set_op add rem has (HasElem x) s = rbind (has x s) (\<lambda>b. Inr (b, s))"

fun run_set_ops :: "('e set_op \<Rightarrow> 's \<Rightarrow> (bool \<times> 's) result) \<Rightarrow> 'e set_op list \<Rightarrow> 's \<Rightarrow> (bool list \<times> 's) result" where
  "run_set_ops f [] s = Inr ([], s)"
| "run_set_ops f (x # xs) s = rbind (f x s) (\<lambda>(b, s'). rbind (run_set_ops f xs s') (\<lambda>(bs, s''). Inr (b # bs, s'')))"

locale set_store =
  fixes add :: "'e \<Rightarrow> 's \<Rightarrow> (bool \<times> 's) result"
    and rem :: "'e \<Rightarrow> 's \<Rightarrow> (bool \<times> 's) result"
    and has :: "'e \<Rightarrow> 's \<Rightarrow> bool result"
    and inv :: "'s \<Rightarrow> bool"
    and abs :: "'s \<Rightarrow> 'e set"
    and capacity :: nat
  assumes finite_set: "inv s \<Longrightarrow> finite (abs s)"
    and add_law: "inv s \<Longrightarrow> card (abs s) < capacity \<Longrightarrow> \<exists>s'. add x s = Inr (x \<notin> abs s, s') \<and> inv s' \<and> abs s' = insert x (abs s)"
    and rem_law: "inv s \<Longrightarrow> card (abs s) < capacity \<Longrightarrow> \<exists>s'. rem x s = Inr (x \<in> abs s, s') \<and> inv s' \<and> abs s' = abs s - {x}"
    and has_law: "inv s \<Longrightarrow> has x s = Inr (x \<in> abs s)"
begin

lemma run_set_op_ok:
  assumes "inv s" "card (abs s) < capacity"
  shows "\<exists>s'. run_set_op add rem has x s = Inr (fst (spec_set_op x (abs s)), s') \<and> inv s' \<and> abs s' = snd (spec_set_op x (abs s)) \<and>
     card (abs s') \<le> Suc (card (abs s))"
proof (cases x)
  case (AddElem y)
  obtain s' where "add y s = Inr (y \<notin> abs s, s')" "inv s'" "abs s' = insert y (abs s)" using add_law [OF assms] by blast
  with AddElem show ?thesis by (simp add: card_insert_if finite_set [OF assms(1)])
next
  case (RemoveElem y)
  obtain s' where s': "rem y s = Inr (y \<in> abs s, s')" "inv s'" "abs s' = abs s - {y}" using rem_law [OF assms] by blast
  have "card (abs s - {y}) \<le> Suc (card (abs s))" by (auto simp: card_Diff_singleton_if)
  with s' RemoveElem show ?thesis by simp
next
  case (HasElem y)
  with assms(1) show ?thesis by (simp add: has_law)
qed

text \<open>Any sequence of operations runs without a fault and answers as the set does.\<close>

lemma run_set_ops_ok:
  assumes "inv s" "card (abs s) + length xs \<le> capacity"
  shows "\<exists>s'. run_set_ops (run_set_op add rem has) xs s = Inr (fst (spec_set_ops xs (abs s)), s') \<and> inv s' \<and>
     abs s' = snd (spec_set_ops xs (abs s))"
  using assms
proof (induction xs arbitrary: s)
  case (Cons x xs)
  obtain s' where "run_set_op add rem has x s = Inr (fst (spec_set_op x (abs s)), s')" "inv s'"
    "abs s' = snd (spec_set_op x (abs s))" "card (abs s') \<le> Suc (card (abs s))"
    using run_set_op_ok [of s x] Cons.prems by auto
  with Cons.IH [of s'] Cons.prems(2) show ?case
    by (auto split: prod.splits)
qed simp

end

subsection \<open>Lists\<close>

datatype 'e list_op =
    AddLast 'e
  | AddAt nat 'e
  | RemoveAt nat
  | SetAt nat 'e
  | GetAt nat
  | IndexOf 'e

datatype 'e list_res = Done | Element 'e | Index "nat option"

fun position_of :: "'e \<Rightarrow> 'e list \<Rightarrow> nat option" where
  "position_of e [] = None"
| "position_of e (x # xs) = (if x = e then Some 0 else map_option Suc (position_of e xs))"

text \<open>The operations on a list; one whose index is out of range has no meaning.\<close>

fun spec_list_op :: "'e list_op \<Rightarrow> 'e list \<Rightarrow> ('e list_res \<times> 'e list) option" where
  "spec_list_op (AddLast e) xs = Some (Done, xs @ [e])"
| "spec_list_op (AddAt i e) xs = (if i \<le> length xs then Some (Done, take i xs @ e # drop i xs) else None)"
| "spec_list_op (RemoveAt i) xs = (if i < length xs then Some (Element (xs ! i), take i xs @ drop (Suc i) xs) else None)"
| "spec_list_op (SetAt i e) xs = (if i < length xs then Some (Element (xs ! i), xs[i := e]) else None)"
| "spec_list_op (GetAt i) xs = (if i < length xs then Some (Element (xs ! i), xs) else None)"
| "spec_list_op (IndexOf e) xs = Some (Index (position_of e xs), xs)"

fun spec_list_ops :: "'e list_op list \<Rightarrow> 'e list \<Rightarrow> ('e list_res list \<times> 'e list) option" where
  "spec_list_ops [] xs = Some ([], xs)"
| "spec_list_ops (x # ops) xs =
     (case spec_list_op x xs of
        None \<Rightarrow> None
      | Some (r, ys) \<Rightarrow> map_option (\<lambda>(rs, zs). (r # rs, zs)) (spec_list_ops ops ys))"

fun run_list_ops :: "('e list_op \<Rightarrow> 's \<Rightarrow> ('e list_res \<times> 's) result) \<Rightarrow> 'e list_op list \<Rightarrow> 's \<Rightarrow> ('e list_res list \<times> 's) result" where
  "run_list_ops f [] s = Inr ([], s)"
| "run_list_ops f (x # ops) s = rbind (f x s) (\<lambda>(r, s'). rbind (run_list_ops f ops s') (\<lambda>(rs, s''). Inr (r # rs, s'')))"

text \<open>What a client of a list relies on: an operation in range does what it does on a list.\<close>

locale list_store =
  fixes exec :: "'e list_op \<Rightarrow> 's \<Rightarrow> ('e list_res \<times> 's) result"
    and rep :: "'s \<Rightarrow> 'e list \<Rightarrow> bool"
    and capacity :: nat
  assumes exec_law: "rep s xs \<Longrightarrow> length xs < capacity \<Longrightarrow> spec_list_op x xs = Some (r, ys) \<Longrightarrow> \<exists>s'. exec x s = Inr (r, s') \<and> rep s' ys"
begin

lemma spec_list_op_length: "spec_list_op x xs = Some (r, ys) \<Longrightarrow> length ys \<le> Suc (length xs)"
  by (cases x) (auto split: if_splits)

lemma run_list_ops_ok:
  "rep s xs \<Longrightarrow> length xs + length ops \<le> capacity \<Longrightarrow> spec_list_ops ops xs = Some (rs, ys) \<Longrightarrow>
     \<exists>s'. run_list_ops exec ops s = Inr (rs, s') \<and> rep s' ys"
proof (induction ops arbitrary: s xs rs)
  case (Cons x ops)
  obtain r zs rs' where x: "spec_list_op x xs = Some (r, zs)" "spec_list_ops ops zs = Some (rs', ys)" "rs = r # rs'"
    using Cons.prems(3) by (auto split: option.splits)
  obtain s' where s': "exec x s = Inr (r, s')" "rep s' zs" using exec_law [OF Cons.prems(1) _ x(1)] Cons.prems(2) by auto
  obtain s'' where "run_list_ops exec ops s' = Inr (rs', s'')" "rep s'' ys"
    using Cons.IH [OF s'(2) _ x(2)] spec_list_op_length [OF x(1)] Cons.prems(2) by auto
  with s'(1) x(3) show ?case by simp
qed simp

end

subsection \<open>Iterators\<close>

text \<open>The loop of a client that reads everything; the fuel bounds the tests of \<open>hasNext\<close>.\<close>

fun drain :: "('i \<Rightarrow> bool) \<Rightarrow> ('i \<Rightarrow> ('e option \<times> 'i) result) \<Rightarrow> nat \<Rightarrow> 'i \<Rightarrow> 'e option list option result" where
  "drain has nxt 0 it = Inr None"
| "drain has nxt (Suc n) it =
     (if has it
      then rbind (nxt it) (\<lambda>(e, it'). rbind (drain has nxt n it') (\<lambda>r. Inr (map_option (Cons e) r)))
      else Inr (Some []))"

text \<open>The same loop with a body that changes a state: a fold over what the iterator gives.\<close>

fun iterate :: "('i \<Rightarrow> bool) \<Rightarrow> ('i \<Rightarrow> ('e option \<times> 'i) result) \<Rightarrow> nat \<Rightarrow> 'i \<Rightarrow> ('e \<Rightarrow> 's \<Rightarrow> 's result) \<Rightarrow> 's \<Rightarrow> 's option result" where
  "iterate has nxt 0 it f s = Inr None"
| "iterate has nxt (Suc n) it f s =
     (if has it
      then rbind (nxt it) (\<lambda>(e, it').
        case e of
          None \<Rightarrow> Inl NullDeref
        | Some y \<Rightarrow> rbind (f y s) (\<lambda>s'. iterate has nxt n it' f s'))
      else Inr (Some s))"

fun rfold :: "('a \<Rightarrow> 's \<Rightarrow> 's result) \<Rightarrow> 'a list \<Rightarrow> 's \<Rightarrow> 's result" where
  "rfold f [] s = Inr s"
| "rfold f (x # xs) s = rbind (f x s) (rfold f xs)"

definition done_with :: "'s result \<Rightarrow> 's option result" where
  "done_with r = rbind r (\<lambda>s. Inr (Some s))"

lemma done_with_simps [simp]: "done_with (Inr s) = Inr (Some s)" "done_with (rbind r f) = rbind r (\<lambda>x. done_with (f x))"
  by (cases r; simp add: done_with_def)+

locale cursor_iterator =
  fixes has :: "'i \<Rightarrow> bool"
    and nxt :: "'i \<Rightarrow> ('e option \<times> 'i) result"
    and ok :: "'i \<Rightarrow> bool"
    and remaining :: "'i \<Rightarrow> 'e list"
  assumes has_law: "ok it \<Longrightarrow> has it \<longleftrightarrow> remaining it \<noteq> []"
    and next_law: "ok it \<Longrightarrow> remaining it = e # es \<Longrightarrow> \<exists>it'. nxt it = Inr (Some e, it') \<and> ok it' \<and> remaining it' = es"
begin

lemma drain_ok: "ok it \<Longrightarrow> length (remaining it) < n \<Longrightarrow> drain has nxt n it = Inr (Some (map Some (remaining it)))"
proof (induction n arbitrary: it)
  case (Suc n)
  show ?case
  proof (cases "remaining it")
    case Nil
    with has_law [OF Suc.prems(1)] show ?thesis by simp
  next
    case (Cons e es)
    obtain it' where "nxt it = Inr (Some e, it')" "ok it'" "remaining it' = es"
      using next_law [OF Suc.prems(1) Cons] by blast
    with Suc.IH [of it'] has_law [OF Suc.prems(1)] Cons Suc.prems(2) show ?thesis by simp
  qed
qed simp

lemma iterate_ok: "ok it \<Longrightarrow> length (remaining it) < n \<Longrightarrow> iterate has nxt n it f s = done_with (rfold f (remaining it) s)"
proof (induction n arbitrary: it s)
  case (Suc n)
  show ?case
  proof (cases "remaining it")
    case Nil
    with has_law [OF Suc.prems(1)] show ?thesis by simp
  next
    case (Cons e es)
    obtain it' where it': "nxt it = Inr (Some e, it')" "ok it'" "remaining it' = es"
      using next_law [OF Suc.prems(1) Cons] by blast
    then have "iterate has nxt n it' f = (\<lambda>s'. done_with (rfold f es s'))"
      using Suc.IH [of it'] Cons Suc.prems(2) by auto
    with it'(1) has_law [OF Suc.prems(1)] Cons show ?thesis by simp
  qed
qed simp

end

end
