(* ===== verification/TreeMap.thy ===== *)
theory TreeMap
  imports TreeSearch Contracts
begin

section \<open>The tree map\<close>

text \<open>
  The class \<open>TreeMap\<close> of \<^verbatim>\<open>src/PLATFORM/src/main/native/cxx/util/TreeMap.h\<close> and \<^verbatim>\<open>TreeMap.cxx\<close>,
  as the build compiles it (\<^verbatim>\<open>CXX_UTIL_TREE_BSEARCH\<close>, \<^verbatim>\<open>COM_DEEPIS_DB_INDEX_REF\<close> and
  \<^verbatim>\<open>COM_DEEPIS_DB_CARDINALITY\<close> on) and with the default comparator, whose constructor passes no key
  parts, so that \<open>m_cardinality\<close> is null. Keys and values are values; releasing the memory of keys
  and entries is not modelled. The counters \<open>m_pEntries\<close> and \<open>m_vEntries\<close>, of the signed type
  \<open>inttype\<close>, are words of 32 bits in two's complement, which the increments wrap as the compiled code does
  (the language leaves the overflow, after \<open>2 ^ 31 - 1\<close> entries, undefined); what is read from them is signed.
\<close>

record ('k, 'v) treemap =
  m_root :: "('k \<times> 'v) node option"
  m_pEntries :: inttype
  m_vEntries :: inttype
  m_modification :: uinttype
  m_limits :: limits
  m_stateFlags :: ubytetype

subsection \<open>Flags and counters\<close>

definition set_flag :: "ubytetype \<Rightarrow> bool \<Rightarrow> ('k, 'v) treemap \<Rightarrow> ('k, 'v) treemap" where
  "set_flag bits flag m =
     m\<lparr>m_stateFlags := (if flag then m_stateFlags m OR bits else m_stateFlags m AND NOT bits)\<rparr>"

definition setVirtualSizeEnabled :: "bool \<Rightarrow> ('k, 'v) treemap \<Rightarrow> ('k, 'v) treemap" where
  "setVirtualSizeEnabled = set_flag 0x01"

definition setDeleteValue :: "bool \<Rightarrow> ('k, 'v) treemap \<Rightarrow> ('k, 'v) treemap" where
  "setDeleteValue = set_flag 0x02"

definition setDeleteKey :: "bool \<Rightarrow> ('k, 'v) treemap \<Rightarrow> ('k, 'v) treemap" where
  "setDeleteKey = set_flag 0x04"

definition setCardinalityEnabled :: "bool \<Rightarrow> ('k, 'v) treemap \<Rightarrow> ('k, 'v) treemap" where
  "setCardinalityEnabled = set_flag 0x08"

definition setStatisticsEnabled :: "bool \<Rightarrow> ('k, 'v) treemap \<Rightarrow> ('k, 'v) treemap" where
  "setStatisticsEnabled flag m = setCardinalityEnabled flag (setVirtualSizeEnabled flag m)"

definition getVirtualSizeEnabled :: "('k, 'v) treemap \<Rightarrow> bool" where
  "getVirtualSizeEnabled m \<longleftrightarrow> m_stateFlags m AND 0x01 \<noteq> 0"

definition getDeleteValue :: "('k, 'v) treemap \<Rightarrow> bool" where
  "getDeleteValue m \<longleftrightarrow> m_stateFlags m AND 0x02 \<noteq> 0"

definition getDeleteKey :: "('k, 'v) treemap \<Rightarrow> bool" where
  "getDeleteKey m \<longleftrightarrow> m_stateFlags m AND 0x04 \<noteq> 0"

definition getCardinalityEnabled :: "('k, 'v) treemap \<Rightarrow> bool" where
  "getCardinalityEnabled m \<longleftrightarrow> m_stateFlags m AND 0x08 \<noteq> 0"

definition getStatisticsEnabled :: "('k, 'v) treemap \<Rightarrow> bool" where
  "getStatisticsEnabled m \<longleftrightarrow> getVirtualSizeEnabled m \<and> getCardinalityEnabled m"

definition incrementEntries :: "('k, 'v) treemap \<Rightarrow> ('k, 'v) treemap" where
  "incrementEntries m =
     m\<lparr>m_pEntries := m_pEntries m + 1,
       m_vEntries := (if getVirtualSizeEnabled m then m_vEntries m + 1 else m_vEntries m),
       m_modification := m_modification m + 1\<rparr>"

definition decrementEntries :: "('k, 'v) treemap \<Rightarrow> ('k, 'v) treemap" where
  "decrementEntries m =
     m\<lparr>m_pEntries := m_pEntries m - 1,
       m_vEntries := (if getVirtualSizeEnabled m then m_vEntries m - 1 else m_vEntries m),
       m_modification := m_modification m + 1\<rparr>"

subsection \<open>Construction\<close>

definition INITIAL_ORDER :: "8 word" where
  "INITIAL_ORDER = 3"

text \<open>The order is a signed byte.\<close>

definition effective_order :: "8 word \<Rightarrow> nat" where
  "effective_order order = nat (sint (if sint order < sint INITIAL_ORDER then INITIAL_ORDER else order))"

definition treemap_new :: "8 word \<Rightarrow> bool \<Rightarrow> bool \<Rightarrow> ('k, 'v) treemap" where
  "treemap_new order delkey delval =
     setDeleteValue delval (setDeleteKey delkey
       \<lparr>m_root = None, m_pEntries = 0, m_vEntries = 0, m_modification = 0,
        m_limits = limits_of (effective_order order), m_stateFlags = 0\<rparr>)"

subsection \<open>Lookup\<close>

definition getEntry :: "'k::linorder \<Rightarrow> ('k, 'v) treemap \<Rightarrow> ('k \<times> 'v) option" where
  "getEntry key m = (case m_root m of None \<Rightarrow> None | Some t \<Rightarrow> fst (node_find t key))"

text \<open>\<open>get\<close> gives the value; the entry found tells \<open>*status\<close> and \<open>*retkey\<close>.\<close>

definition tree_get :: "'k::linorder \<Rightarrow> ('k, 'v) treemap \<Rightarrow> 'v option" where
  "tree_get key m =
     (case m_root m of
        None \<Rightarrow> None
      | Some t \<Rightarrow> (case node_find t key of (x, _) \<Rightarrow> map_option snd x))"

definition containsKey :: "'k::linorder \<Rightarrow> ('k, 'v) treemap \<Rightarrow> bool" where
  "containsKey key m = (case m_root m of None \<Rightarrow> False | Some t \<Rightarrow> fst (node_find t key) \<noteq> None)"

text \<open>\<open>size\<close> returns the counter, a signed number.\<close>

definition tree_size :: "('k, 'v) treemap \<Rightarrow> int" where
  "tree_size m = sint (m_pEntries m)"

definition isEmpty :: "('k, 'v) treemap \<Rightarrow> bool" where
  "isEmpty m \<longleftrightarrow> tree_size m = 0"

definition firstEntry :: "('k, 'v) treemap \<Rightarrow> ('k \<times> 'v) option" where
  "firstEntry m = (case m_root m of None \<Rightarrow> None | Some t \<Rightarrow> Some (firstLeaf t ! 0))"

definition lastEntry :: "('k, 'v) treemap \<Rightarrow> ('k \<times> 'v) option" where
  "lastEntry m = (case m_root m of None \<Rightarrow> None | Some t \<Rightarrow> Some (lastLeaf t ! (length (lastLeaf t) - 1)))"

subsection \<open>Insertion\<close>

text \<open>\<open>x->setKey\<close> and \<open>x->setValue\<close> on the entry at a place.\<close>

fun set_entry :: "nat list \<Rightarrow> nat \<Rightarrow> 'e \<Rightarrow> 'e node \<Rightarrow> 'e node" where
  "set_entry [] i e (Leaf xs) = Leaf (xs[i := e])"
| "set_entry [] i e (Branch c its) = node_of (setObject i e (c, its))"
| "set_entry (j # path) i e (Branch c its) = node_of (setNode j (set_entry path i e (getNode (c, its) j)) (c, its))"
| "set_entry (j # path) i e (Leaf xs) = Leaf xs"

text \<open>\<open>n->insert\<close> with the notification of the map when the root is full.\<close>

definition tree_insert :: "limits \<Rightarrow> bool \<Rightarrow> nat list \<Rightarrow> nat \<Rightarrow> 'e \<Rightarrow> 'e node \<Rightarrow> 'e node result" where
  "tree_insert self sequential path index e t =
     rbind (insert_at self sequential path index e t) (\<lambda>(notify, t').
       if notify then notifyRootFull self t' else Inr t')"

text \<open>\<open>put\<close> gives the entry that had the key before.\<close>

definition tree_put :: "'k::linorder \<Rightarrow> 'v \<Rightarrow> ('k, 'v) treemap \<Rightarrow> (('k \<times> 'v) option \<times> ('k, 'v) treemap) result" where
  "tree_put key val m =
     (case m_root m of
        None \<Rightarrow> Inr (None, incrementEntries (m\<lparr>m_root := Some (Leaf [(key, val)])\<rparr>))
      | Some t \<Rightarrow>
          (case node_find t key of (x, path, index, _) \<Rightarrow>
             (case x of
                Some y \<Rightarrow> Inr (Some y, m\<lparr>m_root := Some (set_entry path index (key, val) t),
                                        m_modification := m_modification m + 1\<rparr>)
              | None \<Rightarrow> rbind (tree_insert (m_limits m) False path index (key, val) t)
                          (\<lambda>t'. Inr (None, incrementEntries (m\<lparr>m_root := Some t'\<rparr>))))))"

text \<open>\<open>add(key, val)\<close> appends without looking at the key.\<close>

definition tree_append :: "'k::linorder \<Rightarrow> 'v \<Rightarrow> ('k, 'v) treemap \<Rightarrow> ('k, 'v) treemap result" where
  "tree_append key val m =
     (case m_root m of
        None \<Rightarrow> Inr (incrementEntries (m\<lparr>m_root := Some (Leaf [(key, val)])\<rparr>))
      | Some t \<Rightarrow> rbind (tree_insert (m_limits m) True (last_path t) (length (lastLeaf t)) (key, val) t)
                   (\<lambda>t'. Inr (incrementEntries (m\<lparr>m_root := Some t'\<rparr>))))"

text \<open>\<open>add(key, val, retkey, last, replace)\<close>: the old entry, \<open>*last\<close> and the map.\<close>

definition tree_add :: "'k::linorder \<Rightarrow> 'v \<Rightarrow> bool \<Rightarrow> ('k, 'v) treemap \<Rightarrow>
    (('k \<times> 'v) option \<times> bool \<times> ('k, 'v) treemap) result" where
  "tree_add key val replace m =
     (case m_root m of
        None \<Rightarrow> Inr (None, \<not> getCardinalityEnabled m, incrementEntries (m\<lparr>m_root := Some (Leaf [(key, val)])\<rparr>))
      | Some t \<Rightarrow>
          (case node_find t key of (x, path, index, e) \<Rightarrow>
             (case x of
                Some y \<Rightarrow> Inr (Some y, e, if replace then m\<lparr>m_root := Some (set_entry path index (key, val) t)\<rparr> else m)
              | None \<Rightarrow> rbind (tree_insert (m_limits m) e path index (key, val) t)
                          (\<lambda>t'. Inr (None, e \<and> \<not> getCardinalityEnabled m, incrementEntries (m\<lparr>m_root := Some t'\<rparr>))))))"

subsection \<open>Removal\<close>

definition tree_clear :: "('k, 'v) treemap \<Rightarrow> ('k, 'v) treemap" where
  "tree_clear m =
     (case m_root m of
        None \<Rightarrow> m
      | Some t \<Rightarrow> m\<lparr>m_root := None, m_pEntries := 0, m_modification := m_modification m + 1,
                    m_vEntries := (if getVirtualSizeEnabled m then 0 else m_vEntries m)\<rparr>)"

fun notifyRootEmpty :: "'e node \<Rightarrow> 'e node option" where
  "notifyRootEmpty (Leaf xs) = None"
| "notifyRootEmpty (Branch c its) = Some (getNode (c, its) 0)"

definition tree_delete :: "limits \<Rightarrow> nat list \<Rightarrow> nat \<Rightarrow> 'e node \<Rightarrow> 'e node option result" where
  "tree_delete self path index t =
     rbind (remove_at self path index t) (\<lambda>(notify, t').
       Inr (if notify \<and> getPhysicalEntries t' = 0 then notifyRootEmpty t' else Some t'))"

definition tree_remove :: "'k::linorder \<Rightarrow> ('k, 'v) treemap \<Rightarrow> (('k \<times> 'v) option \<times> ('k, 'v) treemap) result" where
  "tree_remove key m =
     (case m_root m of
        None \<Rightarrow> Inr (None, m)
      | Some t \<Rightarrow>
          (case node_find t key of (x, path, index, _) \<Rightarrow>
             (case x of
                None \<Rightarrow> Inr (None, m)
              | Some y \<Rightarrow> rbind (tree_delete (m_limits m) path index t) (\<lambda>root.
                   let m1 = decrementEntries (m\<lparr>m_root := root\<rparr>) in
                   Inr (Some y, if tree_size m1 = 0 then tree_clear m1 else m1)))))"

subsection \<open>Moving the contents to another map\<close>

definition transfer :: "('k, 'v) treemap \<Rightarrow> ('k, 'v) treemap \<Rightarrow> ('k, 'v) treemap \<times> ('k, 'v) treemap" where
  "transfer this tree =
     (this\<lparr>m_root := None, m_pEntries := 0, m_modification := m_modification this + 1,
           m_vEntries := (if getVirtualSizeEnabled this then 0 else m_vEntries this)\<rparr>,
      tree\<lparr>m_limits := m_limits this,
           m_vEntries := (if getVirtualSizeEnabled tree then m_vEntries this else m_vEntries tree),
           m_modification := m_modification tree + 1, m_stateFlags := m_stateFlags this,
           m_pEntries := m_pEntries this, m_root := m_root this\<rparr>)"

definition vsize_set :: "inttype \<Rightarrow> ('k, 'v) treemap \<Rightarrow> inttype \<times> ('k, 'v) treemap" where
  "vsize_set nEntries m = (m_vEntries m, m\<lparr>m_vEntries := nEntries\<rparr>)"


subsection \<open>The map a tree represents\<close>

definition entries :: "('k, 'v) treemap \<Rightarrow> ('k \<times> 'v) list" where
  "entries m = (case m_root m of None \<Rightarrow> [] | Some t \<Rightarrow> inorder t)"

definition contents :: "('k, 'v) treemap \<Rightarrow> 'k \<rightharpoonup> 'v" where
  "contents m = map_of (entries m)"

text \<open>The invariant: limits of an order, the tree in shape and sorted, the counter right.\<close>

definition tree_ok :: "('k::linorder \<times> 'v) node \<Rightarrow> nat \<Rightarrow> bool" where
  "tree_ok t n \<longleftrightarrow> (\<exists>h. root_ok n h t) \<and> sorted_node t"

definition tree_inv :: "('k::linorder, 'v) treemap \<Rightarrow> bool" where
  "tree_inv m \<longleftrightarrow>
     (\<exists>n \<ge> 3. m_limits m = limits_of n \<and> (\<forall>t. m_root m = Some t \<longrightarrow> tree_ok t n)) \<and>
     m_pEntries m = of_nat (length (entries m))"

lemma root_okD:
  assumes "root_ok n h t" "3 \<le> n"
  shows "kids n h t" "h \<noteq> 0 \<longrightarrow> 1 \<le> phys t" "phys t \<le> hi n t" "inorder t \<noteq> []"
proof -
  show "kids n h t" "h \<noteq> 0 \<longrightarrow> 1 \<le> phys t" "phys t \<le> hi n t"
    using assms by (simp_all add: root_ok_def)
  show "inorder t \<noteq> []"
  proof (cases t)
    case (Branch c its)
    then have "its \<noteq> []"
      using assms by (auto simp: root_ok_def)
    with Branch show ?thesis by (cases its) simp_all
  qed (use assms in \<open>auto simp: root_ok_def\<close>)
qed

lemma map_of_insert:
  assumes "below_key as k"
  shows "map_of (as @ (k, v) # bs) = (map_of (as @ bs))(k \<mapsto> v)"
proof -
  have "map_of as k = None"
    using assms by (auto simp: below_key_def map_of_eq_None_iff)
  then show ?thesis
    by (auto simp: fun_eq_iff map_add_def split: option.splits)
qed

lemma map_of_delete:
  assumes "below_key as k" "above_key bs k" "fst y = k"
  shows "map_of (as @ bs) = (map_of (as @ y # bs))(k := None)"
proof -
  have "map_of as k = None" "map_of bs k = None"
    using assms by (auto simp: below_key_def above_key_def map_of_eq_None_iff)
  then show ?thesis
    using assms(3) by (cases y) (auto simp: fun_eq_iff map_add_def split: option.splits)
qed

lemma sorted_insert:
  assumes "sorted_wrt (<) (map fst (as @ bs))" "below_key as k" "above_key bs k"
  shows "sorted_wrt (<) (map fst (as @ (k, v) # bs))"
  using assms by (auto simp: below_key_def above_key_def sorted_wrt_append)

lemma sorted_delete: "sorted_wrt (<) (map fst (as @ y # bs)) \<Longrightarrow> sorted_wrt (<) (map fst (as @ bs))"
  by (auto simp: sorted_wrt_append)

subsection \<open>Lookup\<close>

lemma node_find_map:
  assumes "sorted_node t"
  shows "map_option snd (fst (node_find t key)) = map_of (inorder t) key"
    and "fst (node_find t key) = map_option (Pair key) (map_of (inorder t) key)"
proof -
  obtain x path i e where r: "node_find t key = (x, path, i, e)"
    by (cases "node_find t key") auto
  have f: "found t key (x, path, i, e)"
    using node_find_found [OF assms, of key] r by simp
  have srt: "sorted_wrt (<) (map fst (inorder t))"
    using assms by (simp add: sorted_node_def)
  have "x = map_option (Pair key) (map_of (inorder t) key)"
  proof (cases x)
    case None
    then have "below_key (fst (cut_at path i t)) key" "above_key (snd (cut_at path i t)) key"
      "inorder t = fst (cut_at path i t) @ snd (cut_at path i t)"
      using f leaf_place_cut [of path i t] by (auto simp: found_def)
    then have "map_of (inorder t) key = None"
      by (auto simp: map_of_eq_None_iff below_key_def above_key_def)
    with None show ?thesis by simp
  next
    case (Some y)
    then have io: "inorder t = fst (around path i t) @ y # snd (around path i t)" and y: "fst y = key"
      using f by (auto simp: found_def)
    have "below_key (fst (around path i t)) key"
      using srt unfolding io by (rule sorted_append_below(1)) (simp add: y)
    then have "map_of (inorder t) key = Some (snd y)"
      using y map_of_insert [of "fst (around path i t)" key "snd y" "snd (around path i t)"] unfolding io by (cases y) simp
    with Some y show ?thesis by (cases y) simp
  qed
  with r show "map_option snd (fst (node_find t key)) = map_of (inorder t) key"
    and "fst (node_find t key) = map_option (Pair key) (map_of (inorder t) key)"
    by (auto simp: option.map_comp comp_def option.map_ident)
qed

lemma tree_get_contents: "tree_inv m \<Longrightarrow> tree_get key m = contents m key"
  and getEntry_contents: "tree_inv m \<Longrightarrow> getEntry key m = map_option (Pair key) (contents m key)"
  and containsKey_contents: "tree_inv m \<Longrightarrow> containsKey key m \<longleftrightarrow> key \<in> dom (contents m)"
  by (auto simp: tree_get_def getEntry_def containsKey_def contents_def entries_def tree_inv_def tree_ok_def
      node_find_map(2) case_prod_unfold option.map_comp comp_def option.map_ident split: option.splits)

subsection \<open>Insertion\<close>

lemma tree_insert_ok:
  assumes n: "3 \<le> n" and t: "root_ok n h t" and place: "leaf_place path i t"
    and seq: "sequential \<longrightarrow> path = last_path t"
  shows "\<exists>t' h'. tree_insert (limits_of n) sequential path i e t = Inr t' \<and> root_ok n h' t' \<and>
     inorder t' = fst (cut_at path i t) @ e # snd (cut_at path i t)"
proof -
  note d = root_okD [OF t n]
  obtain t' where 1: "insert_at (limits_of n) sequential path i e t = Inr (phys t' = Suc (hi n t'), t')"
    and 2: "kids n h t'" "phys t \<le> phys t'" "phys t' \<le> Suc (hi n t')"
    and 3: "inorder t' = fst (cut_at path i t) @ e # snd (cut_at path i t)"
    using insert_at_ok [OF n place d(1,2,3) seq] by blast
  show ?thesis
  proof (cases "phys t' = Suc (hi n t')")
    case True
    with notifyRootFull_ok [OF 2(1) n True] 1 3 show ?thesis
      by (auto simp: tree_insert_def)
  next
    case False
    then have "root_ok n h t'"
      using 2 t by (auto simp: root_ok_def)
    with False 1 3 show ?thesis
      by (auto simp: tree_insert_def)
  qed
qed

text \<open>Replacing an entry changes nothing but that entry.\<close>

lemma set_entry_ok:
  assumes "entry_place path i t" "kids n h t"
  shows "kids n h (set_entry path i e t)" "phys (set_entry path i e t) = phys t"
    "inorder (set_entry path i e t) = fst (around path i t) @ e # snd (around path i t)"
proof -
  have "kids n h (set_entry path i e t) \<and> phys (set_entry path i e t) = phys t \<and>
     inorder (set_entry path i e t) = fst (around path i t) @ e # snd (around path i t)"
    using assms
  proof (induction path i t arbitrary: h rule: entry_place.induct)
    case (1 i xs)
    then show ?case by (simp add: upd_conv_take_nth_drop)
  next
    case (2 i c its)
    obtain h' where h: "h = Suc h'"
      using "2.prems"(2) by (cases h) auto
    have "i - 1 < length (snd (c, its))"
      using "2.prems"(1) by auto
    from plugE_right [OF this] obtain z a t its' where b: "(c, its) = plug z (getNode (c, its) (i - 1)) ((a, t) # its')"
      and z: "zlen z = i - 1"
      by metis
    define l where "l = getNode (c, its) (i - 1)"
    have b: "(c, its) = plug z l ((a, t) # its')" and z: "i = Suc (zlen z)"
      using b z "2.prems"(1) by (simp_all add: l_def)
    have nb: "Branch c its = node_of (plug z l ((a, t) # its'))"
      unfolding b [symmetric] by (simp add: node_of_def)
    note ch = kids_children [OF "2.prems"(2) [unfolded h nb]]
    have "set_entry [] i e (Branch c its) = node_of (plug z l ((e, t) # its'))"
      by (simp add: b z)
    moreover have "around [] i (Branch c its) = (front z @ inorder l, inorder t @ flat its')"
      using parts_plug_Suc(2,3) [of z l a t its'] plug_simps(4) [of z l a t its']
      by (simp add: b [symmetric] z right_part_def)
    moreover have "length its = length (snd (plug z l ((a, t) # its')))"
      by (simp add: b [symmetric])
    ultimately show ?case
      using ch h by (simp add: kids_plug)
  next
    case (3 j path i c its)
    obtain h' where h: "h = Suc h'"
      using "3.prems"(2) by (cases h) auto
    let ?u = "getNode (c, its) j" and ?u' = "set_entry path i e (getNode (c, its) j)"
    obtain z its' where b: "(c, its) = plug z ?u its'" and z: "zlen z = j"
      using plugE [of j "(c, its)"] "3.prems"(1) by auto
    have nb: "Branch c its = node_of (plug z ?u its')"
      unfolding b [symmetric] by (simp add: node_of_def)
    note ch = kids_children [OF "3.prems"(2) [unfolded h nb]]
    have u: "kids n h' ?u' \<and> phys ?u' = phys ?u \<and> inorder ?u' = fst (around path i ?u) @ e # snd (around path i ?u)"
      using "3.IH" [of h'] "3.prems"(1) ch(2) by (simp add: ok_kids)
    then have "ok n h' ?u'"
      using ch(2) by (auto simp: ok_kids lo_kids hi_kids)
    have set: "set_entry (j # path) i e (Branch c its) = node_of (plug z ?u' its')"
      using b z plug_simps(3) [of z ?u' ?u its'] by simp
    have len: "length its = zlen z + length its'"
      using b plug_simps(1) [of z ?u its'] by (metis snd_conv)
    have "around (j # path) i (Branch c its) = (front z @ fst (around path i ?u), snd (around path i ?u) @ flat its')"
      using b z parts_plug [of z ?u its'] by (auto split: prod.splits)
    then show ?case
      using set len ch u h \<open>ok n h' ?u'\<close> by (simp add: kids_plug del: set_entry.simps)
  qed auto
  then show "kids n h (set_entry path i e t)" "phys (set_entry path i e t) = phys t"
    "inorder (set_entry path i e t) = fst (around path i t) @ e # snd (around path i t)"
    by simp_all
qed


text \<open>The outcome of an operation: the new map is well formed and represents \<open>f\<close>.\<close>

definition becomes :: "('k::linorder, 'v) treemap \<Rightarrow> ('k, 'v) treemap \<Rightarrow> ('k \<rightharpoonup> 'v) \<Rightarrow> bool" where
  "becomes m m' f \<longleftrightarrow> tree_inv m' \<and> contents m' = f \<and> m_limits m' = m_limits m"

lemma entries_incr [simp]: "entries (incrementEntries m) = entries m" "entries (decrementEntries m) = entries m"
  "m_root (incrementEntries m) = m_root m" "m_limits (incrementEntries m) = m_limits m"
  "m_pEntries (incrementEntries m) = m_pEntries m + 1"
  "m_root (decrementEntries m) = m_root m" "m_limits (decrementEntries m) = m_limits m"
  "m_pEntries (decrementEntries m) = m_pEntries m - 1"
  by (simp_all add: incrementEntries_def decrementEntries_def entries_def)

lemma grown:
  assumes inv: "tree_inv m" and t: "m_limits m = limits_of n" "3 \<le> n" "root_ok n h t'"
    and old: "entries m = as @ bs" and new: "inorder t' = as @ (k, v) # bs" and k: "below_key as k" "above_key bs k"
  shows "becomes m (incrementEntries (m\<lparr>m_root := Some t'\<rparr>)) ((contents m)(k \<mapsto> v))"
proof -
  have srt: "sorted_wrt (<) (map fst (as @ bs))"
    using inv old by (cases "m_root m") (auto simp: tree_inv_def entries_def tree_ok_def sorted_node_def)
  have e: "entries (m\<lparr>m_root := Some t'\<rparr>) = as @ (k, v) # bs"
    by (simp add: entries_def new)
  have "sorted_node t'"
    using sorted_insert [OF srt k] by (simp add: sorted_node_def new)
  with t(3) have "tree_ok t' n"
    by (auto simp: tree_ok_def)
  moreover have "m_pEntries m = of_nat (length (as @ bs))"
    using inv old by (simp add: tree_inv_def)
  ultimately show ?thesis
    using t old map_of_insert [OF k(1), of v bs] e
    by (auto simp: becomes_def tree_inv_def contents_def)
qed

lemma tree_inv_single:
  assumes "tree_inv m" "m_root m = None"
  shows "becomes m (incrementEntries (m\<lparr>m_root := Some (Leaf [(k, v)])\<rparr>)) ((contents m)(k \<mapsto> v))"
proof -
  obtain n where n: "3 \<le> n" "m_limits m = limits_of n"
    using assms by (auto simp: tree_inv_def)
  have "root_ok n 0 (Leaf [(k, v)])"
    using n by (simp add: root_ok_def)
  from grown [OF assms(1) n(2,1) this, of "[]" "[]" k v] assms(2) show ?thesis
    by (simp add: entries_def)
qed

lemma find_cases:
  assumes inv: "tree_inv m" and t: "m_root m = Some t" and r: "node_find t key = (x, path, i, e)"
  obtains (absent) n h where "x = None" "3 \<le> n" "m_limits m = limits_of n" "root_ok n h t" "leaf_place path i t"
      "entries m = fst (cut_at path i t) @ snd (cut_at path i t)" "below_key (fst (cut_at path i t)) key"
      "above_key (snd (cut_at path i t)) key" "e \<longrightarrow> path = last_path t" "contents m key = None"
    | (present) n h y where "x = Some y" "fst y = key" "3 \<le> n" "m_limits m = limits_of n" "root_ok n h t"
      "entry_place path i t" "entries m = fst (around path i t) @ y # snd (around path i t)"
      "below_key (fst (around path i t)) key" "above_key (snd (around path i t)) key" "\<not> e"
      "contents m key = Some (snd y)"
proof -
  obtain n h where n: "3 \<le> n" "m_limits m = limits_of n" "root_ok n h t" and srt: "sorted_node t"
    using inv t by (auto simp: tree_inv_def tree_ok_def)
  have f: "found t key (x, path, i, e)"
    using node_find_found [OF srt, of key] r by simp
  have em: "entries m = inorder t"
    by (simp add: entries_def t)
  have x: "x = map_option (Pair key) (contents m key)"
    using node_find_map(2) [OF srt, of key] r em by (simp add: contents_def)
  show ?thesis
  proof (cases x)
    case None
    with f n em x absent leaf_place_cut [of path i t] show ?thesis
      by (auto simp: found_def)
  next
    case (Some y)
    with f have io: "inorder t = fst (around path i t) @ y # snd (around path i t)" and y: "fst y = key"
      and pl: "entry_place path i t" "\<not> e"
      by (auto simp: found_def)
    have s: "sorted_wrt (<) (map fst (fst (around path i t) @ y # snd (around path i t)))"
      using srt io by (simp add: sorted_node_def)
    have "contents m key = Some (snd y)"
      using x Some by (cases "contents m key") auto
    with present [OF Some y n pl(1)] io em sorted_append_below [OF s, of key] y pl(2) show ?thesis
      by simp
  qed
qed

lemma replaced:
  assumes inv: "tree_inv m" and n: "3 \<le> n" "m_limits m = limits_of n" and t: "m_root m = Some t" "root_ok n h t"
    and pl: "entry_place path i t" "entries m = fst (around path i t) @ y # snd (around path i t)" "fst y = k"
  shows "becomes m (m\<lparr>m_root := Some (set_entry path i (k, v) t)\<rparr>) ((contents m)(k \<mapsto> v))"
proof -
  let ?as = "fst (around path i t)" and ?bs = "snd (around path i t)" and ?t' = "set_entry path i (k, v) t"
  have srt: "sorted_wrt (<) (map fst (?as @ y # ?bs))"
    using inv t pl(2) by (auto simp: tree_inv_def entries_def tree_ok_def sorted_node_def)
  note s = set_entry_ok [OF pl(1) root_okD(1) [OF t(2) n(1)], of "(k, v)"]
  have hi: "hi n ?t' = hi n t"
    using s(1) root_okD(1) [OF t(2) n(1)] by (simp add: hi_kids)
  have "below_key ?as k" "above_key ?bs k"
    using sorted_append_below [OF srt, of k] pl(3) by simp_all
  then have "map_of (?as @ (k, v) # ?bs) = (map_of (?as @ y # ?bs))(k \<mapsto> v)"
    using pl(3) by (cases y) (simp add: map_of_insert del: map_of_append)
  moreover have "root_ok n h ?t'"
    using t(2) s hi by (simp add: root_ok_def)
  moreover have "sorted_node ?t'"
    using srt pl(3) by (simp add: sorted_node_def s(3))
  moreover have "m_pEntries m = of_nat (length (?as @ y # ?bs))"
    using inv pl(2) by (simp add: tree_inv_def)
  ultimately show ?thesis
    using n pl(2) s(3) by (auto simp: becomes_def tree_inv_def tree_ok_def contents_def entries_def)
qed

lemma becomes_modification: "becomes m m' f \<Longrightarrow> becomes m (m'\<lparr>m_modification := x\<rparr>) f"
  by (auto simp: becomes_def tree_inv_def contents_def entries_def)

lemma tree_put_ok:
  assumes "tree_inv m"
  shows "\<exists>m'. tree_put key val m = Inr (map_option (Pair key) (contents m key), m') \<and>
     becomes m m' ((contents m)(key \<mapsto> val))"
proof (cases "m_root m")
  case None
  with tree_inv_single [OF assms None] show ?thesis
    by (auto simp: tree_put_def contents_def entries_def)
next
  case (Some t)
  obtain x path i e where r: "node_find t key = (x, path, i, e)"
    by (cases "node_find t key") auto
  from assms Some r show ?thesis
  proof (cases rule: find_cases)
    case (absent n h)
    from tree_insert_ok [OF absent(2,4,5), of False "(key, val)"] obtain t' h' where
      "tree_insert (limits_of n) False path i (key, val) t = Inr t'" "root_ok n h' t'"
      "inorder t' = fst (cut_at path i t) @ (key, val) # snd (cut_at path i t)"
      by auto
    with grown [OF assms absent(3,2) _ absent(6) _ absent(7,8), of h' t' val] Some r absent show ?thesis
      by (auto simp: tree_put_def)
  next
    case (present n h y)
    then have "y = (key, snd y)" by (metis prod.collapse)
    with replaced [OF assms present(3,4) Some present(5,6,7,2), of val] present Some r show ?thesis
      by (auto simp: tree_put_def becomes_modification)
  qed
qed

lemma last_place:
  "leaf_place (last_path t) (length (lastLeaf t)) t \<and> cut_at (last_path t) (length (lastLeaf t)) t = (inorder t, [])"
proof (induction t rule: last_path.induct)
  case (2 c its)
  show ?case
  proof (cases "its = []")
    case True
    with 2 show ?thesis by (simp add: getNode_def left_part_def right_part_def)
  next
    case False
    then have "getNode (c, its) (length its) = snd (last its)" "getObject (c, its) (length its) = fst (last its)"
      by (simp_all add: getNode_def getObject_def last_conv_nth)
    moreover have "its = butlast its @ [last its]"
      using False by simp
    then have "flat its = flat (butlast its) @ fst (last its) # inorder (snd (last its))"
      by (metis append_Nil2 flat_simps)
    ultimately show ?thesis
      using 2 False by (simp add: left_part_def right_part_def butlast_conv_take)
  qed
qed simp

lemma tree_append_ok:
  assumes inv: "tree_inv m" and last: "\<forall>k \<in> dom (contents m). k < key"
  shows "\<exists>m'. tree_append key val m = Inr m' \<and> becomes m m' ((contents m)(key \<mapsto> val)) \<and>
     entries m' = entries m @ [(key, val)]"
proof (cases "m_root m")
  case None
  with tree_inv_single [OF inv None] show ?thesis
    by (auto simp: tree_append_def entries_def)
next
  case (Some t)
  then obtain n h where n: "3 \<le> n" "m_limits m = limits_of n" "root_ok n h t"
    using inv by (auto simp: tree_inv_def tree_ok_def)
  from tree_insert_ok [OF n(1,3), of "last_path t" "length (lastLeaf t)" True "(key, val)"] last_place [of t]
  obtain t' h' where t': "tree_insert (limits_of n) True (last_path t) (length (lastLeaf t)) (key, val) t = Inr t'"
    "root_ok n h' t'" "inorder t' = inorder t @ [(key, val)]"
    by auto
  have "below_key (entries m) key"
    using last by (force simp: below_key_def contents_def dom_map_of_conv_image_fst)
  with grown [OF inv n(2,1) t'(2), of "entries m" "[]" key val] t' n Some show ?thesis
    by (auto simp: tree_append_def entries_def)
qed

text \<open>Whatever the key is, it comes last; the order is kept exactly if it belongs there.\<close>

lemma tree_append_any:
  assumes inv: "tree_inv m"
  shows "\<exists>m'. tree_append key val m = Inr m' \<and> entries m' = entries m @ [(key, val)] \<and>
     (tree_inv m' \<longleftrightarrow> (\<forall>k \<in> dom (contents m). k < key))"
proof (cases "\<forall>k \<in> dom (contents m). k < key")
  case True
  then show ?thesis using tree_append_ok [OF inv, of key val] by (auto simp: becomes_def)
next
  case False
  then obtain t where t: "m_root m = Some t" by (cases "m_root m") (auto simp: contents_def entries_def)
  then obtain n h where n: "3 \<le> n" "m_limits m = limits_of n" "root_ok n h t"
    using inv by (auto simp: tree_inv_def tree_ok_def)
  from tree_insert_ok [OF n(1,3), of "last_path t" "length (lastLeaf t)" True "(key, val)"] last_place [of t]
  obtain t' where t': "tree_insert (limits_of n) True (last_path t) (length (lastLeaf t)) (key, val) t = Inr t'"
    "inorder t' = inorder t @ [(key, val)]"
    by auto
  let ?m = "incrementEntries (m\<lparr>m_root := Some t'\<rparr>)"
  have e: "entries ?m = entries m @ [(key, val)]" using t t'(2) by (simp add: entries_def)
  have "\<not> tree_inv ?m"
  proof
    assume "tree_inv ?m"
    then have "sorted_wrt (<) (map fst (entries ?m))" by (auto simp: tree_inv_def tree_ok_def sorted_node_def entries_def)
    then have "sorted_wrt (<) (map fst (entries m) @ [key])" unfolding e by simp
    then show False using False by (auto simp: sorted_wrt_append contents_def dom_map_of_conv_image_fst)
  qed
  with False e t'(1) n(2) t show ?thesis by (simp add: tree_append_def)
qed

lemma tree_add_ok:
  assumes "tree_inv m"
  shows "\<exists>last m'. tree_add key val replace m = Inr (map_option (Pair key) (contents m key), last, m') \<and>
     becomes m m' (if replace \<or> key \<notin> dom (contents m) then (contents m)(key \<mapsto> val) else contents m)"
proof (cases "m_root m")
  case None
  with tree_inv_single [OF assms None] show ?thesis
    by (auto simp: tree_add_def contents_def entries_def)
next
  case (Some t)
  obtain x path i e where r: "node_find t key = (x, path, i, e)"
    by (cases "node_find t key") auto
  from assms Some r show ?thesis
  proof (cases rule: find_cases)
    case (absent n h)
    from tree_insert_ok [OF absent(2,4,5,9), of "(key, val)"] obtain t' h' where
      "tree_insert (limits_of n) e path i (key, val) t = Inr t'" "root_ok n h' t'"
      "inorder t' = fst (cut_at path i t) @ (key, val) # snd (cut_at path i t)"
      by auto
    with grown [OF assms absent(3,2) _ absent(6) _ absent(7,8), of h' t' val] Some r absent show ?thesis
      by (auto simp: tree_add_def)
  next
    case (present n h y)
    then have "y = (key, snd y)" by (metis prod.collapse)
    moreover have "becomes m m (contents m)"
      using assms by (simp add: becomes_def)
    ultimately show ?thesis
      using replaced [OF assms present(3,4) Some present(5,6,7,2), of val] present Some r
      by (auto simp: tree_add_def)
  qed
qed

subsection \<open>Removal\<close>

lemma tree_delete_ok:
  assumes n: "3 \<le> n" and t: "root_ok n h t" and pl: "entry_place path i t"
  shows "\<exists>root. tree_delete (limits_of n) path i t = Inr root \<and>
     (case root of None \<Rightarrow> [] | Some t' \<Rightarrow> inorder t') = fst (around path i t) @ snd (around path i t) \<and>
     (\<forall>t'. root = Some t' \<longrightarrow> (\<exists>h'. root_ok n h' t'))"
proof -
  note d = root_okD [OF t n]
  obtain notify t' where 1: "remove_at (limits_of n) path i t = Inr (notify, t')" and s: "shrunk n h t notify t'"
    and 2: "inorder t' = fst (around path i t) @ snd (around path i t)"
    using remove_at_ok [OF n pl d(1,2)] by blast
  have k: "kids n h t'" and hi: "hi n t' = hi n t" and low: "1 \<le> low n h"
    using s d(1) n by (auto simp: shrunk_def hi_kids low_def)
  show ?thesis
  proof (cases "notify \<and> phys t' = 0")
    case True
    show ?thesis
    proof (cases t')
      case (Leaf xs)
      with True 1 2 show ?thesis
        by (auto simp: tree_delete_def)
    next
      case (Branch c its)
      then obtain h' where h: "h = Suc h'" "ok n h' c"
        using k by (auto simp: kids_Branch)
      then have "root_ok n h' c"
        using lo_le_low [of n h' c] n by (auto simp: ok_kids root_ok_def)
      with Branch True 1 2 show ?thesis
        by (auto simp: tree_delete_def getNode_def)
    qed
  next
    case False
    then have "root_ok n h t'"
      using s t k hi low by (auto simp: shrunk_def root_ok_def split: if_splits)
    with False 1 2 show ?thesis
      by (auto simp: tree_delete_def)
  qed
qed

lemma tree_remove_ok:
  assumes inv: "tree_inv m" and small: "length (entries m) < 2 ^ 32"
  shows "\<exists>m'. tree_remove key m = Inr (map_option (Pair key) (contents m key), m') \<and>
     becomes m m' ((contents m)(key := None)) \<and> length (entries m') \<le> length (entries m)"
proof (cases "m_root m")
  case None
  then have "contents m = Map.empty" by (simp add: contents_def entries_def)
  with None inv show ?thesis
    by (auto simp: tree_remove_def becomes_def)
next
  case (Some t)
  obtain x path i e where r: "node_find t key = (x, path, i, e)"
    by (cases "node_find t key") auto
  from inv Some r show ?thesis
  proof (cases rule: find_cases)
    case (absent n h)
    then have "(contents m)(key := None) = contents m" by auto
    with absent Some r inv show ?thesis
      by (auto simp: tree_remove_def becomes_def)
  next
    case (present n h y)
    let ?as = "fst (around path i t)" and ?bs = "snd (around path i t)"
    obtain root where root: "tree_delete (limits_of n) path i t = Inr root"
      "(case root of None \<Rightarrow> [] | Some t' \<Rightarrow> inorder t') = ?as @ ?bs" "\<forall>t'. root = Some t' \<longrightarrow> (\<exists>h'. root_ok n h' t')"
      using tree_delete_ok [OF present(3,5,6)] by blast
    define m1 where "m1 = decrementEntries (m\<lparr>m_root := root\<rparr>)"
    have e1: "entries m1 = ?as @ ?bs"
      using root(2) by (simp add: m1_def entries_def)
    have "m_pEntries m = of_nat (length (?as @ y # ?bs))"
      using inv present(7) by (simp add: tree_inv_def)
    then have size: "m_pEntries m1 = of_nat (length (?as @ ?bs))"
      by (simp add: m1_def)
    have zero: "m_root m1 = None" if "tree_size m1 = 0"
    proof -
      have "length (?as @ ?bs) < 2 ^ 32"
        using small present(7) by simp
      then have "?as @ ?bs = []"
        using that size of_nat_eq_0_small [of "length (?as @ ?bs)", where 'a = 32] by (simp add: tree_size_def signed_eq_0_iff)
      then show ?thesis
        using root(2,3) root_okD(4) [OF _ present(3)]
        by (cases root) (auto simp: m1_def decrementEntries_def)
    qed
    have clr: "(if tree_size m1 = 0 then tree_clear m1 else m1) = m1"
      using zero by (simp add: tree_clear_def)
    have "sorted_wrt (<) (map fst (?as @ y # ?bs))"
      using inv Some present(7) by (auto simp: tree_inv_def tree_ok_def sorted_node_def entries_def)
    then have srt: "sorted_wrt (<) (map fst (?as @ ?bs))"
      by (rule sorted_delete)
    have "tree_inv m1"
    proof -
      have "\<forall>t'. m_root m1 = Some t' \<longrightarrow> tree_ok t' n"
        using root(2,3) srt by (auto simp: m1_def decrementEntries_def tree_ok_def sorted_node_def)
      with present(3,4) size e1 show ?thesis
        by (auto simp: tree_inv_def m1_def)
    qed
    moreover have "contents m1 = (contents m)(key := None)"
      using map_of_delete [OF present(8,9,2)] e1 present(7) by (simp add: contents_def)
    ultimately have "becomes m m1 ((contents m)(key := None))"
      by (simp add: becomes_def m1_def)
    moreover have "y = (key, snd y)"
      using present(2) by (metis prod.collapse)
    ultimately show ?thesis
      using present Some r root(1) clr e1 by (auto simp: tree_remove_def Let_def m1_def [symmetric])
  qed
qed

lemma effective_order_ge: "3 \<le> effective_order order"
  by (auto simp: effective_order_def INITIAL_ORDER_def)

lemma treemap_new_ok: "tree_inv (treemap_new order delkey delval)" "entries (treemap_new order delkey delval) = []"
  using effective_order_ge [of order]
  by (auto simp: tree_inv_def treemap_new_def setDeleteValue_def setDeleteKey_def set_flag_def entries_def)

lemma tree_clear_ok: "tree_inv m \<Longrightarrow> tree_inv (tree_clear m) \<and> entries (tree_clear m) = []"
  by (auto simp: tree_clear_def tree_inv_def entries_def split: option.splits)

lemma transfer_ok:
  assumes "tree_inv this" "transfer this tree = (this', tree')"
  shows "tree_inv this'" "tree_inv tree'" "entries this' = []" "entries tree' = entries this"
  using assms by (auto simp: transfer_def tree_inv_def entries_def)

lemma kids_leaves:
  assumes "kids n h t" "3 \<le> n" "1 \<le> phys t"
  shows "firstLeaf t \<noteq> [] \<and> hd (firstLeaf t) = hd (inorder t)"
    and "lastLeaf t \<noteq> [] \<and> last (lastLeaf t) = last (inorder t)"
proof -
  show "firstLeaf t \<noteq> [] \<and> hd (firstLeaf t) = hd (inorder t)"
  proof (cases t)
    case (Branch c its)
    then obtain h' where "ok n h' c"
      using assms(1) by (auto simp: kids_Branch)
    from first_entry [OF assms(2) this] Branch show ?thesis by simp
  qed (use assms in auto)
  show "lastLeaf t \<noteq> [] \<and> last (lastLeaf t) = last (inorder t)"
    using assms
  proof (induction t arbitrary: h rule: lastLeaf.induct)
    case (2 c its)
    from "2.prems" have ne: "its \<noteq> []" by auto
    obtain h' where its: "items_ok n h' its"
      using "2.prems"(1) by (auto simp: kids_Branch)
    obtain its' e u where i: "its = its' @ [(e, u)]"
      using ne by (metis rev_exhaust prod.exhaust)
    then have u: "ok n h' u"
      using its by simp
    then have "kids n h' u" "1 \<le> phys u"
      using lo_le_low [of n h' u] "2.prems"(2) by (auto simp: ok_kids)
    with first_entry(5) [OF "2.prems"(2) u] "2.IH"(2) [OF ne, of h'] i "2.prems"(2) have "lastLeaf u \<noteq> []" "last (lastLeaf u) = last (inorder u)" "inorder u \<noteq> []"
      by auto
    with i show ?case by simp
  qed auto
qed

lemma root_leaves:
  assumes "tree_inv m" "m_root m = Some t"
  shows "firstLeaf t \<noteq> [] \<and> hd (firstLeaf t) = hd (inorder t)" "lastLeaf t \<noteq> [] \<and> last (lastLeaf t) = last (inorder t)"
    "inorder t \<noteq> []"
proof -
  obtain n h where n: "3 \<le> n" and t: "root_ok n h t"
    using assms by (auto simp: tree_inv_def tree_ok_def)
  note d = root_okD [OF t n]
  have "1 \<le> phys t"
    using d(1,2,4) by (cases t) (auto simp: kids_Branch Suc_le_eq)
  from kids_leaves [OF d(1) n this] d(4)
  show "firstLeaf t \<noteq> [] \<and> hd (firstLeaf t) = hd (inorder t)" "lastLeaf t \<noteq> [] \<and> last (lastLeaf t) = last (inorder t)"
    "inorder t \<noteq> []"
    by simp_all
qed

lemma firstEntry_entries: "tree_inv m \<Longrightarrow> firstEntry m = (if entries m = [] then None else Some (hd (entries m)))"
  and lastEntry_entries: "tree_inv m \<Longrightarrow> lastEntry m = (if entries m = [] then None else Some (last (entries m)))"
  using root_leaves [of m]
  by (auto simp: firstEntry_def lastEntry_def entries_def hd_conv_nth last_conv_nth split: option.splits)

subsection \<open>The tree map keeps the contract of a map\<close>

lemma length_entries: "tree_inv m \<Longrightarrow> length (entries m) = card (dom (contents m))"
proof -
  assume "tree_inv m"
  then have "distinct (map fst (entries m))"
    by (auto simp: tree_inv_def tree_ok_def sorted_node_def entries_def strict_sorted_iff split: option.splits)
  then have "card (set (map fst (entries m))) = length (map fst (entries m))"
    by (rule distinct_card)
  then show ?thesis
    by (simp add: contents_def dom_map_of_conv_image_fst)
qed

interpretation tm: map_store tree_put tree_remove "\<lambda>k m. Inr (getEntry k m)" tree_inv contents "2 ^ 32"
proof unfold_locales
  fix m :: "('a, 'b) treemap" and k :: 'a and v :: 'b
  assume inv: "tree_inv m"
  show "finite (dom (contents m))"
    by (simp add: contents_def finite_dom_map_of)
  show "\<exists>m'. tree_put k v m = Inr (map_option (Pair k) (contents m k), m') \<and> tree_inv m' \<and> contents m' = (contents m)(k \<mapsto> v)"
    using tree_put_ok [OF inv, of k v] by (auto simp: becomes_def)
  show "Inr (getEntry k m) = Inr (map_option (Pair k) (contents m k))"
    by (simp add: getEntry_contents [OF inv])
  show "\<exists>m'. tree_remove k m = Inr (map_option (Pair k) (contents m k), m') \<and> tree_inv m' \<and> contents m' = (contents m)(k := None)"
    if "card (dom (contents m)) < 2 ^ 32"
    using tree_remove_ok [OF inv, of k] that length_entries [OF inv] by (auto simp: becomes_def)
qed

subsection \<open>The depth of the tree, and changes of the counter\<close>

lemma ok_entries: "ok n h t \<Longrightarrow> 3 \<le> n \<Longrightarrow> n * 2 ^ h \<le> length (inorder t)"
proof (induction n h t rule: ok.induct)
  case (2 n h c its)
  then have "min_items n \<le> length its" "1 \<le> min_items n"
    by (simp, use "2.prems"(2) in \<open>cases "n = 5"; simp add: min_items_def; linarith\<close>)
  then obtain it its' where its: "its = it # its'" by (cases its) auto
  with 2 have "n * 2 ^ h \<le> length (inorder c)" "n * 2 ^ h \<le> length (inorder (snd it))" by auto
  with its show ?case by simp
qed auto

lemma leaf_place_height: "leaf_place path i t \<Longrightarrow> kids n h t \<Longrightarrow> length path \<le> h"
proof (induction path i t arbitrary: h rule: leaf_place.induct)
  case (2 j path i c its)
  then obtain h' where h: "h = Suc h'" "ok n h' c" "items_ok n h' its" by (auto simp: kids_Branch)
  then have "kids n h' (getNode (c, its) j)"
    using 2 by (auto simp: getNode_def items_ok_def ok_kids)
  with 2 h show ?case by auto
qed auto

lemma entry_place_height: "entry_place path i t \<Longrightarrow> kids n h t \<Longrightarrow> length path \<le> h"
proof (induction path i t arbitrary: h rule: entry_place.induct)
  case (3 j path i c its)
  then obtain h' where h: "h = Suc h'" "ok n h' c" "items_ok n h' its" by (auto simp: kids_Branch)
  then have "kids n h' (getNode (c, its) j)"
    using 3 by (auto simp: getNode_def items_ok_def ok_kids)
  with 3 h show ?case by auto
qed auto

lemma root_entries:
  assumes t: "root_ok n h t" and n: "3 \<le> n" and h: "0 < h"
  shows "n * 2 ^ h \<le> length (inorder t)"
proof -
  note d = root_okD [OF t n]
  obtain c its h' where b: "t = Branch c its" "h = Suc h'"
    using d(1) h by (cases t) (auto simp: kids_Branch)
  then obtain it its' where its: "its = it # its'"
    using d(2) by (cases its) auto
  have "ok n h' c" "ok n h' (snd it)"
    using d(1) b its by (auto simp: kids_Branch)
  then have "n * 2 ^ h' \<le> length (inorder c)" "n * 2 ^ h' \<le> length (inorder (snd it))"
    using ok_entries n by blast+
  with b its show ?thesis by simp
qed

lemma node_find_depth:
  assumes inv: "tree_inv m" and t: "m_root m = Some t" and r: "node_find t key = (x, path, i, e)" and "path \<noteq> []"
  shows "3 * 2 ^ length path \<le> length (entries m)"
proof -
  have step: "3 * 2 ^ length path \<le> length (entries m)" if "length path \<le> h" "root_ok n h t" "3 \<le> n" for n h
  proof -
    have "3 * 2 ^ length path \<le> n * 2 ^ h"
      using that by (intro mult_mono power_increasing) auto
    also have "\<dots> \<le> length (inorder t)"
      using root_entries [OF that(2,3)] that(1) assms(4) by (cases h) auto
    finally show ?thesis by (simp add: entries_def t)
  qed
  from inv t r show ?thesis
  proof (cases rule: find_cases)
    case (absent n h)
    with leaf_place_height [of path i t n h] root_okD(1) [of n h t] step show ?thesis by auto
  next
    case (present n h y)
    with entry_place_height [of path i t n h] root_okD(1) [of n h t] step show ?thesis by auto
  qed
qed

lemma m_modification_put:
  assumes "tree_put key val m = Inr (r, m')"
  shows "m_modification m' = m_modification m + 1"
  using assms by (auto simp: tree_put_def incrementEntries_def result_simps split: option.splits prod.splits)

lemma m_modification_remove:
  assumes "tree_remove key m = Inr (Some y, m')"
  shows "m_modification m' \<noteq> m_modification m"
proof -
  have "(1::uinttype) + 1 \<noteq> 0" by simp
  then show ?thesis
    using assms by (auto simp: tree_remove_def decrementEntries_def tree_clear_def Let_def result_simps add.assoc
        split: option.splits prod.splits if_splits)
qed

end
