(* ===== verification/TreeNavigate.thy ===== *)
theory TreeNavigate
  imports TreeMap
begin

section \<open>Neighbours of a key and of a position\<close>

text \<open>
  \<open>lower\<close>, \<open>higher\<close> and the map operations built on them, and the step from one position of the
  tree to the next or the previous one. A position is what the code keeps as \<open>Node*\<close> and
  \<open>inttype\<close>: here the path from the root to the node, and an index in it that may be \<open>-1\<close>. The
  walk along \<open>m_parent\<close> drops the last step of the path, and that step is the \<open>instanceIndex\<close>.
\<close>

subsection \<open>Entries below and above a key\<close>

text \<open>\<open>Leaf::lower\<close>: the entry, \<open>*location\<close> and \<open>*next\<close>; \<open>i\<close> counts down from \<open>m_lastIndex + 1\<close>.\<close>

fun leaf_lower :: "('k::linorder \<times> 'v) list \<Rightarrow> 'k \<Rightarrow> nat \<Rightarrow> ('k \<times> 'v) option \<Rightarrow>
    ('k \<times> 'v) option \<times> nat \<times> ('k \<times> 'v) option" where
  "leaf_lower xs what 0 next_entry = (None, length xs, next_entry)"
| "leaf_lower xs what (Suc i) next_entry =
     (if compare (fst (xs ! i)) what < 0 then (Some (xs ! i), i, next_entry)
      else leaf_lower xs what i (Some (xs ! i)))"

text \<open>\<open>Leaf::higher\<close>: \<open>i\<close> counts up to \<open>m_lastIndex\<close>.\<close>

function leaf_higher :: "('k::linorder \<times> 'v) list \<Rightarrow> 'k \<Rightarrow> nat \<Rightarrow> ('k \<times> 'v) option \<Rightarrow>
    ('k \<times> 'v) option \<times> nat \<times> ('k \<times> 'v) option" where
  "leaf_higher xs what i prev_entry =
     (if i < length xs then
        (if compare (fst (xs ! i)) what > 0 then (Some (xs ! i), i, prev_entry)
         else leaf_higher xs what (i + 1) (Some (xs ! i)))
      else (None, length xs, prev_entry))"
  by pat_completeness auto
termination
  by (relation "measure (\<lambda>(xs, what, i, prev_entry). length xs - i)") auto

declare leaf_higher.simps [simp del]

text \<open>The loops of \<open>Branch::lower\<close> and \<open>Branch::higher\<close>: the index they stop at.\<close>

fun branch_lower_index :: "('k::linorder \<times> 'v) branch \<Rightarrow> 'k \<Rightarrow> nat \<Rightarrow> nat" where
  "branch_lower_index b what 0 = 0"
| "branch_lower_index b what (Suc i) =
     (if compare (fst (getObject b (Suc i))) what < 0 then Suc i else branch_lower_index b what i)"

function branch_higher_index :: "('k::linorder \<times> 'v) branch \<Rightarrow> 'k \<Rightarrow> nat \<Rightarrow> nat" where
  "branch_higher_index b what i =
     (if i \<le> length (snd b) then
        (if compare (fst (getObject b i)) what > 0 then i else branch_higher_index b what (i + 1))
      else Suc (length (snd b)))"
  by pat_completeness auto
termination
  by (relation "measure (\<lambda>(b, what, i). Suc (length (snd b)) - i)") auto

declare branch_higher_index.simps [simp del]

lemma branch_lower_index_le: "branch_lower_index b what i \<le> i"
  by (induction i) auto

lemma branch_higher_index_le: "branch_higher_index b what i \<le> Suc (length (snd b))"
  by (induction b what i rule: branch_higher_index.induct) (subst branch_higher_index.simps, auto)

text \<open>\<open>Node::lower\<close>: the entry, \<open>*block\<close> as a path, \<open>*location\<close>, \<open>*next\<close>.\<close>

function node_lower :: "('k::linorder \<times> 'v) node \<Rightarrow> 'k \<Rightarrow>
    ('k \<times> 'v) option \<times> nat list \<times> nat \<times> ('k \<times> 'v) option" where
  "node_lower (Leaf xs) what = (case leaf_lower xs what (length xs) None of (x, loc, nxt) \<Rightarrow> (x, [], loc, nxt))"
| "node_lower (Branch c its) what =
     (let i = branch_lower_index (c, its) what (length its) in
      case node_lower (getNode (c, its) i) what of (x, path, loc, nxt) \<Rightarrow>
        if i > 0
        then (case x of
                None \<Rightarrow> (Some (getObject (c, its) i), [], i, nxt)
              | Some y \<Rightarrow> (Some y, i # path, loc,
                  if nxt = None \<and> i \<noteq> length its then Some (getObject (c, its) (i + 1)) else nxt))
        else (x, 0 # path, loc, if nxt = None \<and> length its \<noteq> 0 then Some (getObject (c, its) 1) else nxt))"
  by pat_completeness auto
termination
proof (relation "measure (\<lambda>(t, what). size t)", goal_cases)
  case (2 c its what i)
  then show ?case
    using branch_lower_index_le [of "(c, its)" what "length its"] size_getNode [of i its c] by auto
qed simp

function node_higher :: "('k::linorder \<times> 'v) node \<Rightarrow> 'k \<Rightarrow>
    ('k \<times> 'v) option \<times> nat list \<times> nat \<times> ('k \<times> 'v) option" where
  "node_higher (Leaf xs) what = (case leaf_higher xs what 0 None of (x, loc, prv) \<Rightarrow> (x, [], loc, prv))"
| "node_higher (Branch c its) what =
     (let i = branch_higher_index (c, its) what 1 in
      case node_higher (getNode (c, its) (i - 1)) what of (x, path, loc, prv) \<Rightarrow>
        if i \<le> length its
        then (case x of
                None \<Rightarrow> (Some (getObject (c, its) i), [], i, prv)
              | Some y \<Rightarrow> (Some y, (i - 1) # path, loc,
                  if prv = None \<and> i > 1 then Some (getObject (c, its) (i - 1)) else prv))
        else (x, length its # path, loc,
              if prv = None \<and> length its \<noteq> 0 then Some (getObject (c, its) (length its)) else prv))"
  by pat_completeness auto
termination
proof (relation "measure (\<lambda>(t, what). size t)", goal_cases)
  case (2 c its what i)
  then show ?case
    using branch_higher_index_le [of "(c, its)" what 1] size_getNode [of "i - 1" its c] by auto
qed simp

definition lowerEntry :: "'k::linorder \<Rightarrow> ('k, 'v) treemap \<Rightarrow> ('k \<times> 'v) option" where
  "lowerEntry key m = (case m_root m of None \<Rightarrow> None | Some t \<Rightarrow> fst (node_lower t key))"

definition higherEntry :: "'k::linorder \<Rightarrow> ('k, 'v) treemap \<Rightarrow> ('k \<times> 'v) option" where
  "higherEntry key m = (case m_root m of None \<Rightarrow> None | Some t \<Rightarrow> fst (node_higher t key))"

definition floorEntry :: "'k::linorder \<Rightarrow> ('k, 'v) treemap \<Rightarrow> ('k \<times> 'v) option" where
  "floorEntry key m =
     (case m_root m of
        None \<Rightarrow> None
      | Some t \<Rightarrow>
          (case node_lower t key of (x, _, _, nxt) \<Rightarrow>
             (case nxt of
                Some e \<Rightarrow> if compare (fst e) key = 0 then Some e else x
              | None \<Rightarrow> x)))"

definition ceilingEntry :: "'k::linorder \<Rightarrow> ('k, 'v) treemap \<Rightarrow> ('k \<times> 'v) option" where
  "ceilingEntry key m =
     (case m_root m of
        None \<Rightarrow> None
      | Some t \<Rightarrow>
          (case node_higher t key of (x, _, _, prv) \<Rightarrow>
             (case prv of
                Some e \<Rightarrow> if compare (fst e) key = 0 then Some e else x
              | None \<Rightarrow> x)))"

text \<open>The key variants give the null key and a false status on null: here \<open>None\<close>.\<close>

definition firstKey :: "('k, 'v) treemap \<Rightarrow> 'k option" where
  "firstKey m = map_option fst (firstEntry m)"

definition lastKey :: "('k, 'v) treemap \<Rightarrow> 'k option" where
  "lastKey m = map_option fst (lastEntry m)"

definition lowerKey :: "'k::linorder \<Rightarrow> ('k, 'v) treemap \<Rightarrow> 'k option" where
  "lowerKey key m = map_option fst (lowerEntry key m)"

definition higherKey :: "'k::linorder \<Rightarrow> ('k, 'v) treemap \<Rightarrow> 'k option" where
  "higherKey key m = map_option fst (higherEntry key m)"

definition floorKey :: "'k::linorder \<Rightarrow> ('k, 'v) treemap \<Rightarrow> 'k option" where
  "floorKey key m = map_option fst (floorEntry key m)"

definition ceilingKey :: "'k::linorder \<Rightarrow> ('k, 'v) treemap \<Rightarrow> 'k option" where
  "ceilingKey key m = map_option fst (ceilingEntry key m)"

subsection \<open>The next and the previous entry\<close>

text \<open>\<open>node_at\<close> follows the child pointers of a path.\<close>

fun node_at :: "'e node \<Rightarrow> nat list \<Rightarrow> 'e node" where
  "node_at t [] = t"
| "node_at (Branch c its) (i # path) = node_at (getNode (c, its) i) path"
| "node_at (Leaf xs) (i # path) = Leaf xs"

text \<open>\<open>Node::getEntry\<close>, null outside the entries of the node.\<close>

fun node_getEntry :: "'e node \<Rightarrow> int \<Rightarrow> 'e option" where
  "node_getEntry (Leaf xs) i = (if 0 \<le> i \<and> i < int (length xs) then Some (xs ! nat i) else None)"
| "node_getEntry (Branch c its) i = (if 0 < i \<and> i \<le> int (length its) then Some (getObject (c, its) (nat i)) else None)"

type_synonym 'e step = "('e \<times> nat list \<times> int) option"

text \<open>\<open>Node::nextEntry\<close> and \<open>Node::previousEntry\<close>, with the path from the node to \<open>*block\<close>.\<close>

fun node_nextEntry :: "'e node \<Rightarrow> int \<Rightarrow> 'e step" where
  "node_nextEntry (Leaf xs) i =
     (if i < int (length xs) - 1 then Some (xs ! nat (i + 1), [], i + 1) else None)"
| "node_nextEntry (Branch c its) i =
     (if i \<le> int (length its)
      then let t = getNode (c, its) (nat i) in Some (firstLeaf t ! 0, nat i # first_path t, 0)
      else None)"

fun node_previousEntry :: "'e node \<Rightarrow> int \<Rightarrow> 'e step" where
  "node_previousEntry (Leaf xs) i = (if i > 0 then Some (xs ! nat (i - 1), [], i - 1) else None)"
| "node_previousEntry (Branch c its) i =
     (if i > 0
      then let t = getNode (c, its) (nat (i - 1)); l = int (length (lastLeaf t)) - 1 in
           Some (lastLeaf t ! nat l, nat (i - 1) # last_path t, l)
      else None)"

text \<open>The loops over \<open>m_parent\<close> in \<open>nextEntry\<close> and \<open>previousEntry\<close>.\<close>

function climb_next :: "'e node \<Rightarrow> nat list \<Rightarrow> 'e step" where
  "climb_next t path =
     (if path = [] then None
      else let parent = butlast path; i = int (last path) + 1 in
           (case node_getEntry (node_at t parent) i of
              Some e \<Rightarrow> Some (e, parent, i)
            | None \<Rightarrow> climb_next t parent))"
  by pat_completeness auto
termination
  by (relation "measure (\<lambda>(t, path). length path)") auto

function climb_previous :: "'e node \<Rightarrow> nat list \<Rightarrow> 'e step" where
  "climb_previous t path =
     (if path = [] then None
      else let parent = butlast path; i = int (last path) in
           (case node_getEntry (node_at t parent) i of
              Some e \<Rightarrow> Some (e, parent, i)
            | None \<Rightarrow> climb_previous t parent))"
  by pat_completeness auto
termination
  by (relation "measure (\<lambda>(t, path). length path)") auto

declare climb_next.simps [simp del] climb_previous.simps [simp del]

definition nextEntry :: "'e node \<Rightarrow> nat list \<Rightarrow> int \<Rightarrow> 'e step" where
  "nextEntry t path i =
     (case node_nextEntry (node_at t path) i of
        Some (e, p, j) \<Rightarrow> Some (e, path @ p, j)
      | None \<Rightarrow> climb_next t path)"

definition previousEntry :: "'e node \<Rightarrow> nat list \<Rightarrow> int \<Rightarrow> 'e step" where
  "previousEntry t path i =
     (case node_previousEntry (node_at t path) i of
        Some (e, p, j) \<Rightarrow> Some (e, path @ p, j)
      | None \<Rightarrow> climb_previous t path)"

text \<open>
  \<open>hasNextEntry\<close> and \<open>hasPreviousEntry\<close> repeat those loops and tell whether an entry is found;
  a null node has neither.
\<close>

definition hasNextEntry :: "'e node \<Rightarrow> (nat list \<times> int) option \<Rightarrow> bool" where
  "hasNextEntry t cursor =
     (case cursor of
        None \<Rightarrow> False
      | Some (path, i) \<Rightarrow>
          (case node_nextEntry (node_at t path) i of
             Some _ \<Rightarrow> True
           | None \<Rightarrow> climb_next t path \<noteq> None))"

definition hasPreviousEntry :: "'e node \<Rightarrow> (nat list \<times> int) option \<Rightarrow> bool" where
  "hasPreviousEntry t cursor =
     (case cursor of
        None \<Rightarrow> False
      | Some (path, i) \<Rightarrow>
          (case node_previousEntry (node_at t path) i of
             Some _ \<Rightarrow> True
           | None \<Rightarrow> climb_previous t path \<noteq> None))"

subsection \<open>Trees without empty leaves\<close>

fun filled :: "'e node \<Rightarrow> bool" where
  "filled (Leaf xs) \<longleftrightarrow> xs \<noteq> []"
| "filled (Branch c its) \<longleftrightarrow> filled c \<and> (\<forall>it \<in> set its. filled (snd it))"

lemma ok_filled: "ok n h t \<Longrightarrow> 3 \<le> n \<Longrightarrow> filled t"
  by (induction n h t rule: ok.induct) auto

lemma tree_inv_filled:
  assumes "tree_inv m" "m_root m = Some t"
  shows "filled t" "sorted_node t"
proof -
  obtain n h where n: "3 \<le> n" and t: "root_ok n h t" and "sorted_node t"
    using assms by (auto simp: tree_inv_def tree_ok_def)
  then show "sorted_node t" by simp
  from root_okD [OF t n] n show "filled t"
    by (cases t) (auto simp: kids_Branch items_ok_def intro: ok_filled)
qed

lemma filled_leaves:
  assumes "filled t"
  shows "inorder t \<noteq> []" "firstLeaf t \<noteq> []" "firstLeaf t ! 0 = hd (inorder t)"
    "lastLeaf t \<noteq> []" "lastLeaf t ! (length (lastLeaf t) - 1) = last (inorder t)"
proof -
  show first: "firstLeaf t \<noteq> []" "inorder t \<noteq> []" "firstLeaf t ! 0 = hd (inorder t)"
    using assms by (induction t rule: firstLeaf.induct) (auto simp: hd_conv_nth nth_append)
  have "lastLeaf t \<noteq> [] \<and> last (lastLeaf t) = last (inorder t) \<and> inorder t \<noteq> []"
    using assms
  proof (induction t rule: lastLeaf.induct)
    case (2 c its)
    show ?case
    proof (cases "its = []")
      case False
      then obtain its' e u where "its = its' @ [(e, u)]"
        by (metis rev_exhaust prod.exhaust)
      with 2 show ?thesis by auto
    qed (use 2 in auto)
  qed auto
  then show "lastLeaf t \<noteq> []" "lastLeaf t ! (length (lastLeaf t) - 1) = last (inorder t)"
    by (auto simp: last_conv_nth [symmetric] simp del: One_nat_def)
qed

lemma filled_child: "filled (Branch c its) \<Longrightarrow> i \<le> length its \<Longrightarrow> filled (getNode (c, its) i)"
  by (auto simp: getNode_def)

text \<open>A branch at one of its children: the entries before, in and behind it.\<close>

lemma branch_at:
  assumes i: "i \<le> length its"
  obtains z its' where "(c, its) = plug z (getNode (c, its) i) its'" "zlen z = i"
    "inorder (Branch c its) = front z @ inorder (getNode (c, its) i) @ flat its'"
    "i > 0 \<longrightarrow> front z \<noteq> [] \<and> last (front z) = getObject (c, its) i \<and> butlast (front z) = inorder c @ flat (take (i - 1) its)"
    "i = 0 \<longrightarrow> front z = []"
    "i < length its \<longrightarrow> flat its' \<noteq> [] \<and> hd (flat its') = getObject (c, its) (i + 1)"
    "i = length its \<longrightarrow> flat its' = []" "flat its' = flat (drop i its)"
    "left_part i (c, its) = front z" "right_part i (c, its) = flat its'"
proof -
  obtain z its' where b: "(c, its) = plug z (getNode (c, its) i) its'" and z: "zlen z = i"
    using plugE [of i "(c, its)"] i by auto
  let ?u = "getNode (c, its) i"
  have nb: "Branch c its = node_of (plug z ?u its')"
    unfolding b [symmetric] by (simp add: node_of_def)
  have len: "length its = i + length its'"
    using b plug_simps(1) [of z ?u its'] z by (metis snd_conv)
  have 1: "inorder (Branch c its) = front z @ inorder ?u @ flat its'"
    unfolding nb by simp
  have parts: "left_part i (c, its) = front z" "right_part i (c, its) = flat its'"
    using parts_plug [of z ?u its'] b z by simp_all
  then have dr: "flat its' = flat (drop i its)" and fr: "i = 0 \<Longrightarrow> front z = []"
    "i > 0 \<Longrightarrow> front z = inorder c @ flat (take (i - 1) its) @ [getObject (c, its) i]"
    by (simp_all add: left_part_def right_part_def)
  have "hd (flat (drop i its)) = getObject (c, its) (i + 1) \<and> flat (drop i its) \<noteq> []" if "i < length its"
    using Cons_nth_drop_Suc [OF that, symmetric] by (simp add: getObject_def)
  with that [OF b z 1] fr dr len parts show ?thesis
    by (auto simp: butlast_append)
qed

lemma around_plug:
  "around (i # path) j (Branch c its) =
     (left_part i (c, its) @ fst (around path j (getNode (c, its) i)), snd (around path j (getNode (c, its) i)) @ right_part i (c, its))"
  by (auto split: prod.splits)

lemma sorted_node_child:
  assumes "sorted_node (Branch c its)" "i \<le> length its"
  shows "sorted_node (getNode (c, its) i)"
proof -
  obtain z its' where "inorder (Branch c its) = front z @ inorder (getNode (c, its) i) @ flat its'"
    by (rule branch_at [OF assms(2), of c])
  with assms(1) show ?thesis
    by (simp add: sorted_node_def sorted_wrt_append del: inorder_Branch)
qed

subsection \<open>The entries below and above a key\<close>

lemma takeWhile_middle:
  assumes "\<forall>x \<in> set f. P x" "\<forall>x \<in> set r. \<not> P x"
  shows "takeWhile P (f @ u @ r) = f @ takeWhile P u" "dropWhile P (f @ u @ r) = dropWhile P u @ r"
proof -
  have "takeWhile P (u @ r) = takeWhile P u \<and> dropWhile P (u @ r) = dropWhile P u @ r"
    using assms(2) by (induction u) (cases r; auto)+
  then show "takeWhile P (f @ u @ r) = f @ takeWhile P u" "dropWhile P (f @ u @ r) = dropWhile P u @ r"
    using assms(1) by simp_all
qed

definition lower_part :: "'k::linorder \<Rightarrow> ('k \<times> 'v) list \<Rightarrow> ('k \<times> 'v) list" where
  "lower_part what = takeWhile (\<lambda>e. fst e < what)"

definition lower_rest :: "'k::linorder \<Rightarrow> ('k \<times> 'v) list \<Rightarrow> ('k \<times> 'v) list" where
  "lower_rest what = dropWhile (\<lambda>e. fst e < what)"

definition higher_part :: "'k::linorder \<Rightarrow> ('k \<times> 'v) list \<Rightarrow> ('k \<times> 'v) list" where
  "higher_part what = takeWhile (\<lambda>e. fst e \<le> what)"

definition higher_rest :: "'k::linorder \<Rightarrow> ('k \<times> 'v) list \<Rightarrow> ('k \<times> 'v) list" where
  "higher_rest what = dropWhile (\<lambda>e. fst e \<le> what)"

definition opt_last :: "'a list \<Rightarrow> 'a option" where
  "opt_last xs = (if xs = [] then None else Some (last xs))"

definition opt_hd :: "'a list \<Rightarrow> 'a option" where
  "opt_hd xs = (if xs = [] then None else Some (hd xs))"

lemma lower_part_eq: "lower_part what xs @ lower_rest what xs = xs"
  and higher_part_eq: "higher_part what xs @ higher_rest what xs = xs"
  by (simp_all add: lower_part_def lower_rest_def higher_part_def higher_rest_def)

lemma lower_take: "lower_part what xs = take (length (lower_part what xs)) xs"
    "lower_rest what xs = drop (length (lower_part what xs)) xs"
  and higher_take: "higher_part what xs = take (length (higher_part what xs)) xs"
    "higher_rest what xs = drop (length (higher_part what xs)) xs"
  using lower_part_eq [of what xs] higher_part_eq [of what xs] by (metis append_eq_conv_conj)+

lemma opt_hd_drop: "i < length xs \<Longrightarrow> opt_hd (drop i xs) = Some (xs ! i)"
  and opt_last_take: "i < length xs \<Longrightarrow> opt_last (take (Suc i) xs) = Some (xs ! i)"
  by (auto simp: opt_hd_def opt_last_def hd_drop_conv_nth take_Suc_conv_app_nth)

lemma leaf_lower_ok:
  assumes "sorted_wrt (<) (map fst xs)" "length (lower_part what xs) \<le> i" "i \<le> length xs" "nxt = opt_hd (drop i xs)"
  shows "leaf_lower xs what i nxt =
     (opt_last (lower_part what xs), if lower_part what xs = [] then length xs else length (lower_part what xs) - 1,
      opt_hd (lower_rest what xs))"
  using assms
proof (induction xs what i nxt rule: leaf_lower.induct)
  case (1 xs what nxt)
  then show ?case
    using lower_take(2) [of what xs] by (simp add: opt_last_def)
next
  case (2 xs what i nxt)
  have p: "length (lower_part what xs) = smaller (map fst xs) what"
    by (simp add: lower_part_def smaller_def takeWhile_map comp_def)
  have i: "i < length xs" using "2.prems" by simp
  show ?case
  proof (cases "length (lower_part what xs) = Suc i")
    case True
    then have "fst (xs ! i) < what"
      using smaller_nth [of i "map fst xs" what] p i by simp
    moreover have "opt_last (lower_part what xs) = Some (xs ! i)" "opt_hd (lower_rest what xs) = nxt"
      using lower_take [of what xs] True opt_last_take [OF i] "2.prems"(4) by simp_all
    ultimately show ?thesis
      using True by (auto simp: compare_less)
  next
    case False
    then have "\<not> fst (xs ! i) < what"
      using smaller_ge(1) [OF "2.prems"(1), of what i] p i "2.prems"(2) by (simp add: not_less)
    with False 2 i show ?thesis
      by (simp add: compare_less opt_hd_drop)
  qed
qed

lemma leaf_higher_ok:
  assumes "sorted_wrt (<) (map fst xs)" "i \<le> length (higher_part what xs)" "prv = opt_last (take i xs)"
  shows "leaf_higher xs what i prv =
     (opt_hd (higher_rest what xs), length (higher_part what xs), opt_last (higher_part what xs))"
  using assms
proof (induction xs what i prv rule: leaf_higher.induct)
  case (1 xs what i prv)
  let ?p = "length (higher_part what xs)"
  have le: "?p \<le> length xs"
    by (simp add: higher_part_def length_takeWhile_le)
  show ?case
  proof (cases "i = ?p")
    case True
    have "what < fst (xs ! i)" if "i < length xs"
      using nth_length_takeWhile [of "\<lambda>e. fst e \<le> what" xs] that True by (simp add: higher_part_def)
    with True "1.prems" le higher_take [of what xs] show ?thesis
      by (subst leaf_higher.simps) (auto simp: compare_greater opt_hd_drop opt_hd_def hd_drop_conv_nth)
  next
    case False
    then have i: "i < ?p" "i < length xs" using "1.prems" le by simp_all
    then have "fst (xs ! i) \<le> what"
      using set_takeWhileD [of "xs ! i" "\<lambda>e. fst e \<le> what" xs] nth_mem [OF i(1)]
      by (metis higher_part_def takeWhile_nth)
    with i 1 show ?thesis
      by (subst leaf_higher.simps) (simp add: compare_greater opt_last_take)
  qed
qed


lemma branch_lower_index_ok:
  "(branch_lower_index b what i > 0 \<longrightarrow> fst (getObject b (branch_lower_index b what i)) < what) \<and>
   (\<forall>j. branch_lower_index b what i < j \<and> j \<le> i \<longrightarrow> what \<le> fst (getObject b j))"
  by (induction i) (auto simp: compare_less not_less le_Suc_eq)

lemma branch_higher_index_ok:
  assumes "\<forall>j. 1 \<le> j \<and> j < i \<longrightarrow> fst (getObject b j) \<le> what" "1 \<le> i" "i \<le> Suc (length (snd b))"
  defines "r \<equiv> branch_higher_index b what i"
  shows "(r \<le> length (snd b) \<longrightarrow> what < fst (getObject b r)) \<and> 1 \<le> r \<and> r \<le> Suc (length (snd b)) \<and>
    (\<forall>j. 1 \<le> j \<and> j < r \<longrightarrow> fst (getObject b j) \<le> what)"
  using assms(1-3) unfolding r_def
proof (induction b what i rule: branch_higher_index.induct)
  case (1 b what i)
  show ?case
  proof (cases "i \<le> length (snd b) \<and> \<not> what < fst (getObject b i)")
    case True
    with 1 show ?thesis
      by (subst (1 2 3 4 5) branch_higher_index.simps) (auto simp: compare_greater not_less less_Suc_eq)
  next
    case False
    then have "branch_higher_index b what i = i"
      using "1.prems"(3) by (subst branch_higher_index.simps) (auto simp: compare_greater)
    with False "1.prems" show ?thesis by auto
  qed
qed


lemma sorted_spread:
  assumes "sorted_wrt (<) (map fst xs)"
  shows "xs \<noteq> [] \<Longrightarrow> fst (last xs) < k \<Longrightarrow> \<forall>e \<in> set xs. fst e < (k::'k::linorder)"
    and "xs \<noteq> [] \<Longrightarrow> fst (last xs) \<le> k \<Longrightarrow> \<forall>e \<in> set xs. fst e \<le> k"
    and "xs \<noteq> [] \<Longrightarrow> k \<le> fst (hd xs) \<Longrightarrow> \<forall>e \<in> set xs. k \<le> fst e"
    and "xs \<noteq> [] \<Longrightarrow> k < fst (hd xs) \<Longrightarrow> \<forall>e \<in> set xs. k < fst e"
proof -
  have l: "\<forall>e \<in> set xs. fst e \<le> fst (last xs)" if "xs \<noteq> []"
    using that assms by (cases xs rule: rev_cases) (auto simp: sorted_wrt_append)
  have h: "\<forall>e \<in> set xs. fst (hd xs) \<le> fst e" if "xs \<noteq> []"
    using that assms by (cases xs) auto
  show "xs \<noteq> [] \<Longrightarrow> fst (last xs) < k \<Longrightarrow> \<forall>e \<in> set xs. fst e < k"
    "xs \<noteq> [] \<Longrightarrow> fst (last xs) \<le> k \<Longrightarrow> \<forall>e \<in> set xs. fst e \<le> k"
    using l by fastforce+
  show "xs \<noteq> [] \<Longrightarrow> k \<le> fst (hd xs) \<Longrightarrow> \<forall>e \<in> set xs. k \<le> fst e"
    "xs \<noteq> [] \<Longrightarrow> k < fst (hd xs) \<Longrightarrow> \<forall>e \<in> set xs. k < fst e"
    using h by fastforce+
qed

text \<open>What \<open>lower\<close> and \<open>higher\<close> return.\<close>

definition lower_ok :: "('k::linorder \<times> 'v) node \<Rightarrow> 'k \<Rightarrow> ('k \<times> 'v) option \<times> nat list \<times> nat \<times> ('k \<times> 'v) option \<Rightarrow> bool" where
  "lower_ok t what r \<longleftrightarrow> (case r of (x, path, loc, nxt) \<Rightarrow>
     (let ls = lower_part what (inorder t); rs = lower_rest what (inorder t) in
      x = opt_last ls \<and> nxt = opt_hd rs \<and>
      (if ls = [] then path = first_path t \<and> loc = length (firstLeaf t)
       else entry_place path loc t \<and> around path loc t = (butlast ls, rs))))"

definition higher_ok :: "('k::linorder \<times> 'v) node \<Rightarrow> 'k \<Rightarrow> ('k \<times> 'v) option \<times> nat list \<times> nat \<times> ('k \<times> 'v) option \<Rightarrow> bool" where
  "higher_ok t what r \<longleftrightarrow> (case r of (x, path, loc, prv) \<Rightarrow>
     (let ls = higher_part what (inorder t); rs = higher_rest what (inorder t) in
      x = opt_hd rs \<and> prv = opt_last ls \<and>
      (if rs = [] then path = last_path t \<and> loc = length (lastLeaf t)
       else entry_place path loc t \<and> around path loc t = (ls, tl rs))))"

declare node_lower.simps(2) [simp del] node_higher.simps(2) [simp del]

lemma node_lower_ok:
  assumes "sorted_node t" "filled t"
  shows "lower_ok t what (node_lower t what)"
  using assms
proof (induction t what rule: node_lower.induct)
  case (1 xs what)
  let ?p = "length (lower_part what xs)"
  have "?p \<le> length xs"
    by (simp add: lower_part_def length_takeWhile_le)
  moreover have "?p - 1 < length xs" "butlast (lower_part what xs) = take (?p - 1) xs" "lower_rest what xs = drop (Suc (?p - 1)) xs"
    if "lower_part what xs \<noteq> []"
  proof -
    have p: "?p \<noteq> 0" using that by simp
    show "?p - 1 < length xs" using p calculation by linarith
    show "lower_rest what xs = drop (Suc (?p - 1)) xs"
      using p lower_take(2) [of what xs] by simp
    show "butlast (lower_part what xs) = take (?p - 1) xs"
      by (subst lower_take(1)) (simp add: butlast_take calculation)
  qed
  ultimately show ?case
    using "1.prems" leaf_lower_ok [of xs what "length xs" None]
    by (auto simp: lower_ok_def sorted_node_def opt_hd_def Let_def)
next
  case (2 c its what)
  define i where "i = branch_lower_index (c, its) what (length its)"
  define u where "u = getNode (c, its) i"
  have i: "i \<le> length its"
    by (simp add: i_def branch_lower_index_le)
  have idx: "i > 0 \<Longrightarrow> fst (getObject (c, its) i) < what" "i < length its \<Longrightarrow> what \<le> fst (getObject (c, its) (i + 1))"
    using branch_lower_index_ok [of "(c, its)" what "length its"] by (simp_all add: i_def [symmetric])
  obtain z its' where plg: "(c, its) = plug z u its'" "zlen z = i"
    and io: "inorder (Branch c its) = front z @ inorder u @ flat its'"
    and fr: "i > 0 \<longrightarrow> front z \<noteq> [] \<and> last (front z) = getObject (c, its) i \<and> butlast (front z) = inorder c @ flat (take (i - 1) its)"
      "i = 0 \<longrightarrow> front z = []"
    and ba: "i < length its \<longrightarrow> flat its' \<noteq> [] \<and> hd (flat its') = getObject (c, its) (i + 1)"
      "i = length its \<longrightarrow> flat its' = []" "flat its' = flat (drop i its)"
    and parts: "left_part i (c, its) = front z" "right_part i (c, its) = flat its'"
    by (rule branch_at [OF i, of c, folded u_def])
  have srt: "sorted_wrt (<) (map fst (front z))" "sorted_wrt (<) (map fst (flat its'))"
    using "2.prems"(1) io by (simp_all add: sorted_node_def sorted_wrt_append del: inorder_Branch)
  have "\<forall>e \<in> set (front z). fst e < what"
  proof (cases "i = 0")
    case False
    with fr(1) idx(1) show ?thesis
      by (intro sorted_spread(1) [OF srt(1)]) simp_all
  qed (use fr(2) in simp)
  moreover have "\<forall>e \<in> set (flat its'). \<not> fst e < what"
  proof (cases "i = length its")
    case False
    then have "\<forall>e \<in> set (flat its'). what \<le> fst e"
      using i ba(1) idx(2) by (intro sorted_spread(3) [OF srt(2)]) simp_all
    then show ?thesis by (simp add: not_less)
  qed (use ba(2) in simp)
  ultimately have sp: "lower_part what (inorder (Branch c its)) = front z @ lower_part what (inorder u)"
    "lower_rest what (inorder (Branch c its)) = lower_rest what (inorder u) @ flat its'"
    unfolding lower_part_def lower_rest_def io by (rule takeWhile_middle)+
  have "filled u" "sorted_node u"
    using filled_child [OF "2.prems"(2) i] sorted_node_child [OF "2.prems"(1) i] by (simp_all add: u_def)
  then have IH: "lower_ok u what (node_lower u what)" and ne: "inorder u \<noteq> []"
    using "2.IH" [OF i_def [unfolded u_def]] filled_leaves(1) [of u] unfolding u_def by simp_all
  obtain x path loc nxt where r: "node_lower u what = (x, path, loc, nxt)"
    by (cases "node_lower u what") auto
  have res: "node_lower (Branch c its) what =
     (if i > 0
      then (case x of
              None \<Rightarrow> (Some (getObject (c, its) i), [], i, nxt)
            | Some y \<Rightarrow> (Some y, i # path, loc,
                if nxt = None \<and> i \<noteq> length its then Some (getObject (c, its) (i + 1)) else nxt))
      else (x, 0 # path, loc, if nxt = None \<and> length its \<noteq> 0 then Some (getObject (c, its) 1) else nxt))"
    using r by (simp add: node_lower.simps(2) i_def [symmetric] u_def [symmetric] Let_def)
  have all: "lower_part what (inorder u) = [] \<Longrightarrow> lower_rest what (inorder u) = inorder u"
    using lower_part_eq [of what "inorder u"] by simp
  show ?case
  proof (cases "lower_part what (inorder u) = [] \<and> i > 0")
    case True
    then have "x = None" "nxt = opt_hd (inorder u)"
      using IH r all by (simp_all add: lower_ok_def Let_def opt_last_def)
    then have "node_lower (Branch c its) what = (Some (last (front z)), [], i, opt_hd (inorder u @ flat its'))"
      using res True fr(1) ne by (simp add: opt_hd_def)
    moreover have "entry_place [] i (Branch c its)" "around [] i (Branch c its) = (butlast (front z), inorder u @ flat its')"
      using True i fr(1) ba(3) by (simp_all add: u_def [symmetric])
    ultimately show ?thesis
      using True fr(1) all unfolding lower_ok_def sp by (simp add: Let_def opt_last_def)
  next
    case False
    then have x: "x \<noteq> None \<or> i = 0"
      using IH r by (auto simp: lower_ok_def Let_def opt_last_def)
    have nx: "(if nxt = None \<and> i \<noteq> length its then Some (getObject (c, its) (i + 1)) else nxt) = opt_hd (lower_rest what (inorder u) @ flat its')"
      using IH r ba(1,2) i by (cases "i = length its") (auto simp: lower_ok_def Let_def opt_hd_def)
    have xx: "opt_last (front z @ lower_part what (inorder u)) = x"
      using IH r fr(2) False by (auto simp: lower_ok_def Let_def opt_last_def)
    have r2: "node_lower (Branch c its) what = (x, i # path, loc, opt_hd (lower_rest what (inorder u) @ flat its'))"
      using res x nx by (cases "i = 0") auto
    show ?thesis
    proof (cases "lower_part what (inorder u) = []")
      case True
      with False have "i = 0" by simp
      with True IH r r2 fr(2) xx show ?thesis
        unfolding lower_ok_def sp by (simp add: Let_def u_def getNode_def)
    next
      case False
      with IH r r2 xx i parts show ?thesis
        unfolding lower_ok_def sp by (simp add: Let_def u_def [symmetric] butlast_append)
    qed
  qed
qed


lemma node_higher_ok:
  assumes "sorted_node t" "filled t"
  shows "higher_ok t what (node_higher t what)"
  using assms
proof (induction t what rule: node_higher.induct)
  case (1 xs what)
  let ?p = "length (higher_part what xs)"
  have "?p < length xs" "higher_part what xs = take ?p xs" "tl (higher_rest what xs) = drop (Suc ?p) xs"
    if "higher_rest what xs \<noteq> []"
    using that higher_take [of what xs] by (simp_all add: tl_drop drop_Suc)
  moreover have "higher_rest what xs = [] \<Longrightarrow> ?p = length xs"
    using higher_part_eq [of what xs] by simp
  ultimately show ?case
    using "1.prems" leaf_higher_ok [of xs 0 what None]
    by (simp add: higher_ok_def sorted_node_def opt_last_def Let_def)
next
  case (2 c its what)
  define k where "k = branch_higher_index (c, its) what 1"
  define i where "i = k - 1"
  define u where "u = getNode (c, its) i"
  have kk: "(k \<le> length its \<longrightarrow> what < fst (getObject (c, its) k)) \<and> 1 \<le> k \<and> k \<le> Suc (length its) \<and>
    (\<forall>j. 1 \<le> j \<and> j < k \<longrightarrow> fst (getObject (c, its) j) \<le> what)"
    using branch_higher_index_ok [of 1 "(c, its)" what] by (simp add: k_def)
  then have "1 \<le> k" "k \<le> Suc (length its)" by blast+
  then have i: "i \<le> length its" and k: "k = i + 1"
    unfolding i_def by linarith+
  have idx: "i > 0 \<Longrightarrow> fst (getObject (c, its) i) \<le> what" "i < length its \<Longrightarrow> what < fst (getObject (c, its) (i + 1))"
    using kk by (simp_all add: k)
  obtain z its' where plg: "(c, its) = plug z u its'" "zlen z = i"
    and io: "inorder (Branch c its) = front z @ inorder u @ flat its'"
    and fr: "i > 0 \<longrightarrow> front z \<noteq> [] \<and> last (front z) = getObject (c, its) i \<and> butlast (front z) = inorder c @ flat (take (i - 1) its)"
      "i = 0 \<longrightarrow> front z = []"
    and ba: "i < length its \<longrightarrow> flat its' \<noteq> [] \<and> hd (flat its') = getObject (c, its) (i + 1)"
      "i = length its \<longrightarrow> flat its' = []" "flat its' = flat (drop i its)"
    and parts: "left_part i (c, its) = front z" "right_part i (c, its) = flat its'"
    by (rule branch_at [OF i, of c, folded u_def])
  have srt: "sorted_wrt (<) (map fst (front z))" "sorted_wrt (<) (map fst (flat its'))"
    using "2.prems"(1) io by (simp_all add: sorted_node_def sorted_wrt_append del: inorder_Branch)
  have "\<forall>e \<in> set (front z). fst e \<le> what"
  proof (cases "i = 0")
    case False
    with fr(1) idx(1) show ?thesis
      by (intro sorted_spread(2) [OF srt(1)]) simp_all
  qed (use fr(2) in simp)
  moreover have "\<forall>e \<in> set (flat its'). \<not> fst e \<le> what"
  proof (cases "i = length its")
    case False
    then have "\<forall>e \<in> set (flat its'). what < fst e"
      using i ba(1) idx(2) by (intro sorted_spread(4) [OF srt(2)]) simp_all
    then show ?thesis by (simp add: not_le)
  qed (use ba(2) in simp)
  ultimately have sp: "higher_part what (inorder (Branch c its)) = front z @ higher_part what (inorder u)"
    "higher_rest what (inorder (Branch c its)) = higher_rest what (inorder u) @ flat its'"
    unfolding higher_part_def higher_rest_def io by (rule takeWhile_middle)+
  have "filled u" "sorted_node u"
    using filled_child [OF "2.prems"(2) i] sorted_node_child [OF "2.prems"(1) i] by (simp_all add: u_def)
  then have IH: "higher_ok u what (node_higher u what)" and ne: "inorder u \<noteq> []"
    using "2.IH" [OF k_def] filled_leaves(1) [of u] unfolding u_def i_def by simp_all
  obtain x path loc prv where r: "node_higher u what = (x, path, loc, prv)"
    by (cases "node_higher u what") auto
  have res: "node_higher (Branch c its) what =
     (if i < length its
      then (case x of
              None \<Rightarrow> (Some (getObject (c, its) (i + 1)), [], i + 1, prv)
            | Some y \<Rightarrow> (Some y, i # path, loc, if prv = None \<and> i > 0 then Some (getObject (c, its) i) else prv))
      else (x, length its # path, loc, if prv = None \<and> length its \<noteq> 0 then Some (getObject (c, its) (length its)) else prv))"
    unfolding node_higher.simps(2) Let_def k_def [symmetric]
    using r by (cases x) (simp_all add: k u_def [symmetric] Suc_le_eq)
  have all: "higher_rest what (inorder u) = [] \<Longrightarrow> higher_part what (inorder u) = inorder u"
    using higher_part_eq [of what "inorder u"] by simp
  show ?case
  proof (cases "higher_rest what (inorder u) = [] \<and> i < length its")
    case True
    then have "x = None" "prv = opt_last (inorder u)"
      using IH r all by (simp_all add: higher_ok_def Let_def opt_hd_def)
    then have "node_higher (Branch c its) what = (Some (hd (flat its')), [], i + 1, opt_last (front z @ inorder u))"
      using res True ba(1) ne by (simp add: opt_last_def)
    moreover have "around [] (i + 1) (Branch c its) = (front z @ inorder u, tl (flat its'))"
    proof -
      have "flat its' = getObject (c, its) (i + 1) # inorder (getNode (c, its) (i + 1)) @ flat (drop (i + 1) its)"
        unfolding ba(3) using True Cons_nth_drop_Suc [of i its, symmetric] by (simp add: getObject_def getNode_def)
      moreover have "inorder (Branch c its) = inorder c @ flat (take i its) @ flat (drop i its)"
        by (metis append_take_drop_id flat_simps(3) inorder_Branch)
      ultimately show ?thesis
        using io ba(3) by simp
    qed
    ultimately show ?thesis
      using True ba(1) all unfolding higher_ok_def sp by (simp add: Let_def opt_hd_def)
  next
    case False
    then have x: "x \<noteq> None \<or> i = length its"
      using IH r i by (auto simp: higher_ok_def Let_def opt_hd_def)
    have pv: "(if prv = None \<and> i > 0 then Some (getObject (c, its) i) else prv) = opt_last (front z @ higher_part what (inorder u))"
      using IH r fr by (cases "i = 0") (auto simp: higher_ok_def Let_def opt_last_def)
    have xx: "opt_hd (higher_rest what (inorder u) @ flat its') = x"
      using IH r ba(2) False i by (auto simp: higher_ok_def Let_def opt_hd_def)
    have r2: "node_higher (Branch c its) what = (x, i # path, loc, opt_last (front z @ higher_part what (inorder u)))"
      using res x pv i by (cases "i = length its") auto
    show ?thesis
    proof (cases "higher_rest what (inorder u) = []")
      case True
      with False i have e: "i = length its" by simp
      then have "last_path (Branch c its) = i # last_path u" "lastLeaf (Branch c its) = lastLeaf u"
        by (auto simp: u_def getNode_def last_conv_nth)
      with True IH r r2 e ba(2) xx show ?thesis
        unfolding higher_ok_def sp by (simp add: Let_def)
    next
      case False
      with IH r r2 xx i parts show ?thesis
        unfolding higher_ok_def sp by (simp add: Let_def u_def [symmetric])
    qed
  qed
qed


subsection \<open>The map operations on neighbours\<close>

lemma filter_takeWhile_sorted:
  assumes "sorted_wrt (<) (map fst xs)"
  shows "filter (\<lambda>e. fst e < k) xs = lower_part (k::'k::linorder) xs" "filter (\<lambda>e. fst e \<ge> k) xs = lower_rest k xs"
    "filter (\<lambda>e. fst e \<le> k) xs = higher_part k xs" "filter (\<lambda>e. fst e > k) xs = higher_rest k xs"
proof -
  have "filter (\<lambda>e. fst e < k) xs = lower_part k xs \<and> filter (\<lambda>e. fst e \<ge> k) xs = lower_rest k xs \<and>
    filter (\<lambda>e. fst e \<le> k) xs = higher_part k xs \<and> filter (\<lambda>e. fst e > k) xs = higher_rest k xs"
    using assms
  proof (induction xs)
    case (Cons e xs)
    have "\<forall>x \<in> set xs. fst e < fst x" using Cons.prems by auto
    then have "filter (\<lambda>e. fst e < k) xs = [] \<and> filter (\<lambda>e. fst e \<ge> k) xs = xs" if "k \<le> fst e"
      using that by (auto simp: filter_empty_conv filter_id_conv)
    moreover have "filter (\<lambda>e. fst e \<le> k) xs = [] \<and> filter (\<lambda>e. fst e > k) xs = xs" if "k < fst e"
      using that \<open>\<forall>x \<in> set xs. fst e < fst x\<close> by (auto simp: filter_empty_conv filter_id_conv)
    ultimately show ?case
      using Cons by (auto simp: lower_part_def lower_rest_def higher_part_def higher_rest_def not_less not_le)
  qed (simp_all add: lower_part_def lower_rest_def higher_part_def higher_rest_def)
  then show "filter (\<lambda>e. fst e < k) xs = lower_part k xs" "filter (\<lambda>e. fst e \<ge> k) xs = lower_rest k xs"
    "filter (\<lambda>e. fst e \<le> k) xs = higher_part k xs" "filter (\<lambda>e. fst e > k) xs = higher_rest k xs"
    by simp_all
qed


text \<open>An entry with the key itself, if there is one, is what the two splits differ in.\<close>

lemma lower_higher:
  assumes "sorted_wrt (<) (map fst xs)"
  shows "(\<exists>e. fst e = k \<and> lower_rest k xs = e # higher_rest k xs \<and> higher_part k xs = lower_part k xs @ [e]) \<or>
    (lower_rest k xs = higher_rest (k::'k::linorder) xs \<and> higher_part k xs = lower_part k xs \<and>
     (\<forall>e \<in> set xs. fst e \<noteq> k))"
  using assms
proof (induction xs)
  case (Cons e xs)
  have gt: "\<forall>x \<in> set xs. fst e < fst x" using Cons.prems by auto
  consider "fst e < k" | "fst e = k" | "k < fst e"
    by (meson linorder_less_linear)
  then show ?case
  proof cases
    case 1
    with Cons show ?thesis
      by (auto simp: lower_part_def lower_rest_def higher_part_def higher_rest_def)
  next
    case 2
    with gt have "takeWhile (\<lambda>x. fst x \<le> k) xs = []" "dropWhile (\<lambda>x. fst x \<le> k) xs = xs"
      by (cases xs; auto simp: not_le)+
    with 2 show ?thesis
      by (intro disjI1 exI [of _ e]) (simp add: lower_part_def lower_rest_def higher_part_def higher_rest_def)
  next
    case 3
    with gt show ?thesis
      by (auto simp: lower_part_def lower_rest_def higher_part_def higher_rest_def)
  qed
qed (simp add: lower_part_def lower_rest_def higher_part_def higher_rest_def)

lemma opt_ends [simp]: "opt_hd [] = None" "opt_hd (x # xs) = Some x" "opt_last [] = None" "opt_last (xs @ [x]) = Some x"
  by (simp_all add: opt_hd_def opt_last_def)

lemma opt_in: "opt_hd xs = Some e \<Longrightarrow> e \<in> set xs" "opt_last xs = Some e \<Longrightarrow> e \<in> set xs"
  by (auto simp: opt_hd_def opt_last_def split: if_splits)

lemma entries_sorted: "tree_inv m \<Longrightarrow> sorted_wrt (<) (map fst (entries m))"
  by (auto simp: tree_inv_def tree_ok_def sorted_node_def entries_def split: option.splits)

lemma neighbours:
  assumes "tree_inv m"
  shows "lowerEntry k m = opt_last (lower_part k (entries m))" "higherEntry k m = opt_hd (higher_rest k (entries m))"
    "floorEntry k m = opt_last (higher_part k (entries m))" "ceilingEntry k m = opt_hd (lower_rest k (entries m))"
proof -
  have none: "lower_part k [] = []" "higher_rest k [] = []" "higher_part k [] = []" "lower_rest k [] = []"
    by (simp_all add: lower_part_def lower_rest_def higher_part_def higher_rest_def)
  have "lowerEntry k m = opt_last (lower_part k (entries m)) \<and> higherEntry k m = opt_hd (higher_rest k (entries m)) \<and>
    floorEntry k m = opt_last (higher_part k (entries m)) \<and> ceilingEntry k m = opt_hd (lower_rest k (entries m))"
  proof (cases "m_root m")
    case None
    then show ?thesis
      by (simp add: lowerEntry_def higherEntry_def floorEntry_def ceilingEntry_def entries_def none)
  next
    case (Some t)
    have e: "entries m = inorder t" by (simp add: entries_def Some)
    obtain p i p' i' where lw: "node_lower t k = (opt_last (lower_part k (entries m)), p, i, opt_hd (lower_rest k (entries m)))"
      and hg: "node_higher t k = (opt_hd (higher_rest k (entries m)), p', i', opt_last (higher_part k (entries m)))"
      using node_lower_ok [OF tree_inv_filled(2,1) [OF assms Some], of k] node_higher_ok [OF tree_inv_filled(2,1) [OF assms Some], of k]
      by (cases "node_lower t k"; cases "node_higher t k") (auto simp: lower_ok_def higher_ok_def Let_def e)
    from lower_higher [OF entries_sorted [OF assms], of k] show ?thesis
    proof
      assume "\<exists>x. fst x = k \<and> lower_rest k (entries m) = x # higher_rest k (entries m) \<and> higher_part k (entries m) = lower_part k (entries m) @ [x]"
      with lw hg Some show ?thesis
        by (auto simp: lowerEntry_def higherEntry_def floorEntry_def ceilingEntry_def compare_eq)
    next
      assume n: "lower_rest k (entries m) = higher_rest k (entries m) \<and> higher_part k (entries m) = lower_part k (entries m) \<and>
        (\<forall>x \<in> set (entries m). fst x \<noteq> k)"
      then have "\<forall>x \<in> set (higher_part k (entries m)) \<union> set (lower_rest k (entries m)). fst x \<noteq> k"
        using set_append [of "higher_part k (entries m)" "higher_rest k (entries m)"]
          set_append [of "lower_part k (entries m)" "lower_rest k (entries m)"]
        unfolding higher_part_eq lower_part_eq by blast
      then have "fst x \<noteq> k" if "opt_last (lower_part k (entries m)) = Some x \<or> opt_hd (higher_rest k (entries m)) = Some x" for x
        using that n opt_in by (metis Un_iff)
      with lw hg Some n show ?thesis
        by (auto simp: lowerEntry_def higherEntry_def floorEntry_def ceilingEntry_def compare_eq split: option.splits)
    qed
  qed
  then show "lowerEntry k m = opt_last (lower_part k (entries m))" "higherEntry k m = opt_hd (higher_rest k (entries m))"
    "floorEntry k m = opt_last (higher_part k (entries m))" "ceilingEntry k m = opt_hd (lower_rest k (entries m))"
    by simp_all
qed

lemma neighbours_filter:
  assumes "tree_inv m"
  shows "lowerEntry k m = opt_last (filter (\<lambda>e. fst e < k) (entries m))"
    "higherEntry k m = opt_hd (filter (\<lambda>e. fst e > k) (entries m))"
    "floorEntry k m = opt_last (filter (\<lambda>e. fst e \<le> k) (entries m))"
    "ceilingEntry k m = opt_hd (filter (\<lambda>e. fst e \<ge> k) (entries m))"
  using neighbours [OF assms, of k] filter_takeWhile_sorted [OF entries_sorted [OF assms], of k] by simp_all

subsection \<open>Stepping from a position\<close>

text \<open>
  A position separates the entries up to it from those behind it. Before the first entry are the
  index \<open>-1\<close> of a leaf and \<open>0\<close> of a branch; an index one past the last entry stands behind the node.
\<close>

fun valid_pos :: "nat list \<Rightarrow> int \<Rightarrow> 'e node \<Rightarrow> bool" where
  "valid_pos [] i (Leaf xs) \<longleftrightarrow> - 1 \<le> i \<and> i \<le> int (length xs)"
| "valid_pos [] i (Branch c its) \<longleftrightarrow> 0 \<le> i \<and> i \<le> int (length its) + 1"
| "valid_pos (j # path) i (Branch c its) \<longleftrightarrow> j \<le> length its \<and> valid_pos path i (getNode (c, its) j)"
| "valid_pos (j # path) i (Leaf xs) \<longleftrightarrow> False"

fun behind :: "nat list \<Rightarrow> int \<Rightarrow> 'e node \<Rightarrow> 'e list" where
  "behind [] i (Leaf xs) = drop (nat (i + 1)) xs"
| "behind [] i (Branch c its) =
     (if i \<le> int (length its) then inorder (getNode (c, its) (nat i)) @ right_part (nat i) (c, its) else [])"
| "behind (j # path) i (Branch c its) = behind path i (getNode (c, its) j) @ right_part j (c, its)"
| "behind (j # path) i (Leaf xs) = []"

fun ahead :: "nat list \<Rightarrow> int \<Rightarrow> 'e node \<Rightarrow> 'e list" where
  "ahead [] i (Leaf xs) = take (nat i) xs"
| "ahead [] i (Branch c its) =
     (if 0 < i then left_part (nat (i - 1)) (c, its) @ inorder (getNode (c, its) (nat (i - 1))) else [])"
| "ahead (j # path) i (Branch c its) = left_part j (c, its) @ ahead path i (getNode (c, its) j)"
| "ahead (j # path) i (Leaf xs) = []"

lemma climb_next_Cons:
  "climb_next (Branch c its) (j # path) =
     (case climb_next (getNode (c, its) j) path of
        Some (e, p, i) \<Rightarrow> Some (e, j # p, i)
      | None \<Rightarrow> if j < length its then Some (getObject (c, its) (j + 1), [], int j + 1) else None)"
proof (induction path rule: rev_induct)
  case Nil
  show ?case
    by (subst climb_next.simps) (auto simp: climb_next.simps [of _ "[]"] nat_add_distrib)
next
  case (snoc a path)
  then show ?case
    by (subst (1 2) climb_next.simps) (auto simp: Let_def butlast_append split: option.splits)
qed

lemma climb_previous_Cons:
  "climb_previous (Branch c its) (j # path) =
     (case climb_previous (getNode (c, its) j) path of
        Some (e, p, i) \<Rightarrow> Some (e, j # p, i)
      | None \<Rightarrow> if 0 < j \<and> j \<le> length its then Some (getObject (c, its) j, [], int j) else None)"
proof (induction path rule: rev_induct)
  case Nil
  show ?case
    by (subst climb_previous.simps) (auto simp: climb_previous.simps [of _ "[]"])
next
  case (snoc a path)
  then show ?case
    by (subst (1 2) climb_previous.simps) (auto simp: Let_def butlast_append split: option.splits)
qed

text \<open>An entry at a position, and the entries before and behind it.\<close>

fun entry_at :: "nat list \<Rightarrow> int \<Rightarrow> 'e node \<Rightarrow> 'e option" where
  "entry_at [] i t = node_getEntry t i"
| "entry_at (j # path) i (Branch c its) = (if j \<le> length its then entry_at path i (getNode (c, its) j) else None)"
| "entry_at (j # path) i (Leaf xs) = None"

lemma entry_at_node: "entry_at path i t = Some e \<Longrightarrow> node_getEntry (node_at t path) i = Some e"
  by (induction path i t rule: entry_at.induct) (auto split: if_splits)

lemma entry_at_valid: "entry_at path i t = Some e \<Longrightarrow> valid_pos path i t"
  by (induction path i t rule: valid_pos.induct) (auto split: if_splits)

lemma entry_at_place:
  "entry_place path i t \<Longrightarrow> \<exists>e. entry_at path (int i) t = Some e"
  by (induction path i t rule: entry_place.induct) auto

lemma branch_inorder:
  "j \<le> length its \<Longrightarrow> inorder (Branch c its) = left_part j (c, its) @ inorder (getNode (c, its) j) @ right_part j (c, its)"
  by (rule branch_at [of j its c]) simp_all

lemma branch_object:
  assumes "0 < j" "j \<le> length its"
  shows "left_part j (c, its) = left_part (j - 1) (c, its) @ inorder (getNode (c, its) (j - 1)) @ [getObject (c, its) j]"
    "right_part (j - 1) (c, its) = getObject (c, its) j # inorder (getNode (c, its) j) @ right_part j (c, its)"
proof -
  have j: "j - 1 < length its" "Suc (j - 1) = j" using assms by simp_all
  show 2: "right_part (j - 1) (c, its) = getObject (c, its) j # inorder (getNode (c, its) j) @ right_part j (c, its)"
    using Cons_nth_drop_Suc [OF j(1), symmetric] assms(1) j(2) by (simp add: right_part_def getObject_def getNode_def)
  have "inorder (Branch c its) = (left_part (j - 1) (c, its) @ inorder (getNode (c, its) (j - 1)) @ [getObject (c, its) j]) @
      inorder (getNode (c, its) j) @ right_part j (c, its)"
    using branch_inorder [of "j - 1" its c] j 2 by simp
  then show "left_part j (c, its) = left_part (j - 1) (c, its) @ inorder (getNode (c, its) (j - 1)) @ [getObject (c, its) j]"
    using branch_inorder [OF assms(2), of c] by simp
qed

lemma entry_at_split:
  "entry_at path i t = Some e \<Longrightarrow> inorder t = ahead path i t @ e # behind path i t"
proof (induction path i t rule: ahead.induct)
  case (1 i xs)
  then show ?case
    by (auto simp: nat_add_distrib id_take_nth_drop split: if_splits)
next
  case (2 i c its)
  then have i: "0 < nat i" "nat i \<le> length its" and e: "e = getObject (c, its) (nat i)"
    by (auto split: if_splits)
  have "inorder (Branch c its) = left_part (nat i) (c, its) @ inorder (getNode (c, its) (nat i)) @ right_part (nat i) (c, its)"
    using branch_inorder [OF i(2), of c] .
  also have "left_part (nat i) (c, its) = left_part (nat i - 1) (c, its) @ inorder (getNode (c, its) (nat i - 1)) @ [e]"
    using branch_object(1) [OF i, of c] e by simp
  finally show ?case
    using i by (simp add: nat_diff_distrib nat_le_iff del: inorder_Branch)
next
  case (3 j path i c its)
  then show ?case
    using branch_inorder [of j its c] by (simp split: if_splits del: inorder_Branch)
qed simp

lemma first_pos:
  assumes "filled t"
  shows "entry_at (first_path t) 0 t = Some (hd (inorder t))" "behind (first_path t) 0 t = tl (inorder t)"
proof -
  have "entry_at (first_path t) 0 t = Some (hd (inorder t)) \<and> behind (first_path t) 0 t = tl (inorder t)"
    using assms
  proof (induction t rule: first_path.induct)
    case (2 c its)
    then show ?case
      using filled_leaves(1) [of c] by (simp add: getNode_def right_part_def tl_append split: list.split)
  qed (auto simp: hd_conv_nth drop_Suc)
  then show "entry_at (first_path t) 0 t = Some (hd (inorder t))" "behind (first_path t) 0 t = tl (inorder t)"
    by simp_all
qed

lemma last_pos:
  assumes "filled t"
  shows "entry_at (last_path t) (int (length (lastLeaf t)) - 1) t = Some (last (inorder t))"
    "ahead (last_path t) (int (length (lastLeaf t)) - 1) t = butlast (inorder t)"
proof -
  have "entry_at (last_path t) (int (length (lastLeaf t)) - 1) t = Some (last (inorder t)) \<and>
    ahead (last_path t) (int (length (lastLeaf t)) - 1) t = butlast (inorder t)"
    using assms
  proof (induction t rule: last_path.induct)
    case (1 xs)
    then show ?case
      by (auto simp: last_conv_nth nat_diff_distrib butlast_conv_take Suc_le_eq)
  next
    case (2 c its)
    let ?u = "getNode (c, its) (length its)"
    have u: "last_path (Branch c its) = length its # last_path ?u" "lastLeaf (Branch c its) = lastLeaf ?u"
      by (auto simp: getNode_def last_conv_nth)
    have f: "filled ?u"
      using filled_child [OF "2.prems"] by simp
    have IH: "entry_at (last_path ?u) (int (length (lastLeaf ?u)) - 1) ?u = Some (last (inorder ?u)) \<and>
        ahead (last_path ?u) (int (length (lastLeaf ?u)) - 1) ?u = butlast (inorder ?u)"
      using "2.IH" f by (cases "its = []") (auto simp: getNode_def last_conv_nth)
    have "inorder (Branch c its) = left_part (length its) (c, its) @ inorder ?u"
      using branch_inorder [of "length its" its c] by (simp add: right_part_def)
    with IH filled_leaves(1) [OF f] show ?case
      unfolding u by (simp add: butlast_append del: inorder_Branch)
  qed
  then show "entry_at (last_path t) (int (length (lastLeaf t)) - 1) t = Some (last (inorder t))"
    "ahead (last_path t) (int (length (lastLeaf t)) - 1) t = butlast (inorder t)"
    by simp_all
qed

lemma nextEntry_Cons:
  "nextEntry (Branch c its) (j # path) i =
     (case nextEntry (getNode (c, its) j) path i of
        Some (e, p, k) \<Rightarrow> Some (e, j # p, k)
      | None \<Rightarrow> if j < length its then Some (getObject (c, its) (j + 1), [], int j + 1) else None)"
  by (auto simp: nextEntry_def climb_next_Cons split: option.splits)

lemma previousEntry_Cons:
  "previousEntry (Branch c its) (j # path) i =
     (case previousEntry (getNode (c, its) j) path i of
        Some (e, p, k) \<Rightarrow> Some (e, j # p, k)
      | None \<Rightarrow> if 0 < j \<and> j \<le> length its then Some (getObject (c, its) j, [], int j) else None)"
  by (cases "node_previousEntry (node_at (getNode (c, its) j) path) i")
    (auto simp: previousEntry_def climb_previous_Cons)

lemma nextEntry_ok:
  assumes "filled t" "valid_pos path i t"
  shows "case nextEntry t path i of
       None \<Rightarrow> behind path i t = []
     | Some (e, p, j) \<Rightarrow> behind path i t = e # behind p j t \<and> entry_at p j t = Some e"
  using assms
proof (induction path i t rule: valid_pos.induct)
  case (1 i xs)
  then have "- 1 \<le> i" by simp
  then have "nat (i + 2) = Suc (nat (i + 1))" by linarith
  with 1 show ?case
    by (auto simp: nextEntry_def climb_next.simps Cons_nth_drop_Suc [symmetric] add.assoc)
next
  case (2 i c its)
  let ?u = "getNode (c, its) (nat i)"
  show ?case
  proof (cases "i \<le> int (length its)")
    case True
    then have "filled ?u" using filled_child [OF "2.prems"(1)] "2.prems"(2) by simp
    with True "2.prems"(2) first_pos [of ?u] filled_leaves(1,3) [of ?u] show ?thesis
      by (auto simp: nextEntry_def Let_def)
  qed (simp add: nextEntry_def climb_next.simps)
next
  case (3 j path i c its)
  let ?u = "getNode (c, its) j"
  have u: "filled ?u" and j: "j \<le> length its"
    using "3.prems" filled_child by auto
  have IH: "case nextEntry ?u path i of
       None \<Rightarrow> behind path i ?u = []
     | Some (e, p, k) \<Rightarrow> behind path i ?u = e # behind p k ?u \<and> entry_at p k ?u = Some e"
    using "3.IH" u "3.prems"(2) by simp
  show ?case
  proof (cases "nextEntry ?u path i")
    case None
    with IH j show ?thesis
      using branch_object(2) [of "Suc j" its c]
      by (auto simp: nextEntry_Cons nat_add_distrib right_part_def)
  next
    case (Some r)
    with IH j show ?thesis
      by (cases r) (simp add: nextEntry_Cons)
  qed
qed simp

lemma previousEntry_ok:
  assumes "filled t" "valid_pos path i t"
  shows "case previousEntry t path i of
       None \<Rightarrow> ahead path i t = []
     | Some (e, p, j) \<Rightarrow> ahead path i t = ahead p j t @ [e] \<and> entry_at p j t = Some e"
  using assms
proof (induction path i t rule: valid_pos.induct)
  case (1 i xs)
  show ?case
  proof (cases "0 < i")
    case True
    then obtain k where k: "i = int (Suc k)"
      by (metis gr0_implies_Suc pos_int_cases)
    then have "nat i = Suc k" "nat (i - 1) = k" by simp_all
    with True "1.prems" show ?thesis
      by (simp add: previousEntry_def take_Suc_conv_app_nth)
  qed (use "1.prems" in \<open>auto simp: previousEntry_def climb_previous.simps\<close>)
next
  case (2 i c its)
  let ?u = "getNode (c, its) (nat (i - 1))"
  show ?case
  proof (cases "0 < i")
    case True
    then have "filled ?u" using filled_child [OF "2.prems"(1)] "2.prems"(2) by simp
    note u = last_pos [OF this] filled_leaves(1,4,5) [OF this]
    have "nat (int (length (lastLeaf ?u)) - 1) = length (lastLeaf ?u) - 1" by linarith
    then have "lastLeaf ?u ! nat (int (length (lastLeaf ?u)) - 1) = last (inorder ?u)"
      using u by simp
    with True "2.prems"(2) u show ?thesis
      by (simp add: previousEntry_def Let_def nat_le_iff)
  qed (simp add: previousEntry_def climb_previous.simps)
next
  case (3 j path i c its)
  let ?u = "getNode (c, its) j"
  have u: "filled ?u" and j: "j \<le> length its"
    using "3.prems" filled_child by auto
  have IH: "case previousEntry ?u path i of
       None \<Rightarrow> ahead path i ?u = []
     | Some (e, p, k) \<Rightarrow> ahead path i ?u = ahead p k ?u @ [e] \<and> entry_at p k ?u = Some e"
    using "3.IH" u "3.prems"(2) by simp
  show ?case
  proof (cases "previousEntry ?u path i")
    case None
    with IH j show ?thesis
      using branch_object(1) [of j its c]
      by (auto simp: previousEntry_Cons nat_diff_distrib left_part_def)
  next
    case (Some r)
    with IH j show ?thesis
      by (cases r) (simp add: previousEntry_Cons)
  qed
qed simp

lemma hasNextEntry_eq: "hasNextEntry t (Some (path, i)) \<longleftrightarrow> nextEntry t path i \<noteq> None"
  and hasPreviousEntry_eq: "hasPreviousEntry t (Some (path, i)) \<longleftrightarrow> previousEntry t path i \<noteq> None"
  by (auto simp: hasNextEntry_def hasPreviousEntry_def nextEntry_def previousEntry_def split: option.splits)

end
