(* ===== verification/TreeIterator.thy ===== *)
theory TreeIterator
  imports TreeNavigate
begin

section \<open>Iterators and range views of the tree map\<close>

text \<open>
  The nested classes \<open>TreeMapIterator\<close>, \<open>EntrySet\<close>, \<open>KeySet\<close> and \<open>EntryMap\<close> of
  \<^verbatim>\<open>src/PLATFORM/src/main/native/cxx/util/TreeMap.h\<close>, and the operations of the map that use them:
  \<open>iterator\<close>, \<open>entrySet\<close>, \<open>putAll\<close>, \<open>headMap\<close>, \<open>subMap\<close>, \<open>tailMap\<close>. A cursor is a position or null.
  The map an iterator points to is an argument; a null map has no position to step from.
\<close>

type_synonym cursor = "(nat list \<times> int) option"

subsection \<open>\<open>TreeMapIterator\<close>\<close>

text \<open>The cursor stands at the entry that \<open>next\<close> returns.\<close>

record tree_iter =
  it_attached :: bool
  it_cursor :: cursor
  it_modification :: uinttype

text \<open>\<open>setEnd\<close>: behind the last item of the root.\<close>

definition end_cursor :: "'e node \<Rightarrow> cursor" where
  "end_cursor root = Some ([], lastIndex root + 1)"

text \<open>\<open>find\<close> as a cursor.\<close>

definition find_cursor :: "('k::linorder \<times> 'v) node \<Rightarrow> 'k \<Rightarrow> cursor" where
  "find_cursor root key = (case node_find root key of (_, path, index, _) \<Rightarrow> Some (path, int index))"

text \<open>\<open>reset(map, startKey, ceiling, exact)\<close>; a null start key is \<open>None\<close>, \<open>*exact\<close> unwritten is \<open>None\<close>.\<close>

definition iter_reset :: "('k::linorder, 'v) treemap \<Rightarrow> 'k option \<Rightarrow> bool \<Rightarrow> bool option \<times> tree_iter" where
  "iter_reset m startKey ceiling =
     (let it = \<lparr>it_attached = True, it_cursor = None, it_modification = m_modification m\<rparr> in
      case (m_root m, startKey) of
        (Some t, Some k) \<Rightarrow>
          (case (if ceiling then ceilingKey k m else floorKey k m) of
             Some key \<Rightarrow> (Some True, it\<lparr>it_cursor := find_cursor t key\<rparr>)
           | None \<Rightarrow> (Some False, it\<lparr>it_cursor := end_cursor t\<rparr>))
      | _ \<Rightarrow> (None, it))"

definition resetContainer :: "tree_iter \<Rightarrow> tree_iter" where
  "resetContainer it = it\<lparr>it_modification := 0, it_attached := False\<rparr>"

text \<open>\<open>getContainer(check)\<close> is not null.\<close>

definition getContainer :: "bool \<Rightarrow> ('k, 'v) treemap \<Rightarrow> tree_iter \<Rightarrow> bool" where
  "getContainer check m it \<longleftrightarrow> it_attached it \<and> \<not> (check \<and> m_modification m \<noteq> it_modification it)"

definition iter_isEnd :: "('k, 'v) treemap \<Rightarrow> tree_iter \<Rightarrow> bool" where
  "iter_isEnd m it \<longleftrightarrow>
     it_cursor it = None \<or> (case m_root m of None \<Rightarrow> False | Some t \<Rightarrow> it_cursor it = end_cursor t)"

definition iter_hasNext :: "('k, 'v) treemap \<Rightarrow> tree_iter \<Rightarrow> bool" where
  "iter_hasNext m it \<longleftrightarrow> \<not> iter_isEnd m it"

definition iter_hasPrevious :: "('k, 'v) treemap \<Rightarrow> tree_iter \<Rightarrow> bool" where
  "iter_hasPrevious m it = (case m_root m of None \<Rightarrow> False | Some t \<Rightarrow> hasPreviousEntry t (it_cursor it))"

definition iter_next :: "('k, 'v) treemap \<Rightarrow> tree_iter \<Rightarrow> ('k \<times> 'v) option \<times> tree_iter" where
  "iter_next m it =
     (if iter_isEnd m it then (None, it)
      else case (m_root m, it_cursor it) of
        (Some t, Some (path, i)) \<Rightarrow>
          (node_getEntry (node_at t path) i,
           it\<lparr>it_cursor := (case nextEntry t path i of
                              Some (_, p, j) \<Rightarrow> Some (p, j)
                            | None \<Rightarrow> end_cursor t)\<rparr>)
      | _ \<Rightarrow> (None, it))"

definition iter_previous :: "('k, 'v) treemap \<Rightarrow> tree_iter \<Rightarrow> ('k \<times> 'v) option \<times> tree_iter" where
  "iter_previous m it =
     (if iter_hasPrevious m it
      then case (m_root m, it_cursor it) of
        (Some t, Some (path, i)) \<Rightarrow>
          (case previousEntry t path i of
             Some (e, p, j) \<Rightarrow> (Some e, it\<lparr>it_cursor := Some (p, j)\<rparr>)
           | None \<Rightarrow> (None, it\<lparr>it_cursor := None\<rparr>))
      | _ \<Rightarrow> (None, it)
      else (None, it))"

subsection \<open>\<open>EntrySetIterator\<close> and \<open>KeySetIterator\<close>\<close>

text \<open>The start cursor stands at the entry \<open>next\<close> returned last.\<close>

record ('k, 'v) set_iter =
  es_entry :: "('k \<times> 'v) option"
  es_start :: cursor
  es_end :: cursor

definition start_cursor :: "('k, 'v) treemap \<Rightarrow> cursor" where
  "start_cursor m = map_option (\<lambda>t. ([], if isLeaf t then - 1 else 0)) (m_root m)"

definition es_reset :: "('k, 'v) treemap \<Rightarrow> cursor \<Rightarrow> cursor \<Rightarrow> ('k, 'v) set_iter" where
  "es_reset m start finish =
     \<lparr>es_entry = None, es_start = (case start of None \<Rightarrow> start_cursor m | Some c \<Rightarrow> Some c), es_end = finish\<rparr>"

definition es_atEnd :: "('k, 'v) set_iter \<Rightarrow> bool" where
  "es_atEnd it \<longleftrightarrow> es_end it \<noteq> None \<and> es_start it = es_end it"

definition es_hasNext :: "('k, 'v) treemap \<Rightarrow> ('k, 'v) set_iter \<Rightarrow> bool" where
  "es_hasNext m it =
     (if es_atEnd it then False
      else case m_root m of None \<Rightarrow> False | Some t \<Rightarrow> hasNextEntry t (es_start it))"

definition es_next :: "('k, 'v) treemap \<Rightarrow> ('k, 'v) set_iter \<Rightarrow> (('k \<times> 'v) option \<times> ('k, 'v) set_iter) result" where
  "es_next m it =
     (if es_atEnd it then Inr (None, it)
      else case (m_root m, es_start it) of
        (Some t, Some (path, i)) \<Rightarrow>
          Inr (case nextEntry t path i of
                 Some (e, p, j) \<Rightarrow> (Some e, it\<lparr>es_entry := Some e, es_start := Some (p, j)\<rparr>)
               | None \<Rightarrow> (None, it\<lparr>es_entry := None, es_start := None\<rparr>))
      | _ \<Rightarrow> Inl NullDeref)"

text \<open>\<open>KeySetIterator::next\<close> reads the key of the entry without a null test.\<close>

definition ks_next :: "('k, 'v) treemap \<Rightarrow> ('k, 'v) set_iter \<Rightarrow> ('k option \<times> ('k, 'v) set_iter) result" where
  "ks_next m it =
     (if es_atEnd it then Inr (None, it)
      else rbind (es_next m it) (\<lambda>(e, it').
        case e of None \<Rightarrow> Inl NullDeref | Some y \<Rightarrow> Inr (Some (fst y), it')))"

definition es_remove :: "('k::linorder, 'v) treemap \<Rightarrow> ('k, 'v) set_iter \<Rightarrow>
    (('k, 'v) treemap \<times> ('k, 'v) set_iter) result" where
  "es_remove m it =
     (case es_entry it of
        None \<Rightarrow> Inl NullDeref
      | Some e \<Rightarrow>
          (let lower = lowerEntry (fst e) m in
           rbind (tree_remove (fst e) m) (\<lambda>(_, m').
             case lower of
               None \<Rightarrow> Inr (m', es_reset m' None (es_end it))
             | Some l \<Rightarrow>
                 (case m_root m' of
                    None \<Rightarrow> Inl NullDeref
                  | Some t \<Rightarrow> Inr (m', it\<lparr>es_start := find_cursor t (fst l)\<rparr>)))))"

text \<open>\<open>EntrySetIterator::reset(startKey, ceiling)\<close>.\<close>

definition es_reset_key :: "('k::linorder, 'v) treemap \<Rightarrow> 'k option \<Rightarrow> bool \<Rightarrow> ('k, 'v) set_iter result" where
  "es_reset_key m startKey ceiling =
     (case m_root m of
        None \<Rightarrow> Inl (Thrown ''Failed to position iterator'')
      | Some t \<Rightarrow> Inr (es_reset m
          (case startKey of
             None \<Rightarrow> None
           | Some k \<Rightarrow>
               (case (if ceiling then ceilingKey k m else floorKey k m) of
                  Some key \<Rightarrow> find_cursor t key
                | None \<Rightarrow> end_cursor t)) None))"

subsection \<open>Views\<close>

text \<open>An \<open>EntrySet\<close>, \<open>KeySet\<close> or \<open>EntryMap\<close> keeps the start and the end of its range.\<close>

definition entrySet :: "('k, 'v) treemap \<Rightarrow> cursor \<times> cursor" where
  "entrySet m = (start_cursor m, None)"

definition headMap :: "'k::linorder \<Rightarrow> ('k, 'v) treemap \<Rightarrow> cursor \<times> cursor" where
  "headMap toKey m =
     (start_cursor m, case m_root m of None \<Rightarrow> None | Some t \<Rightarrow> find_cursor t toKey)"

definition lower_cursor :: "('k::linorder \<times> 'v) node \<Rightarrow> 'k \<Rightarrow> cursor" where
  "lower_cursor root key = (case node_lower root key of (_, path, loc, _) \<Rightarrow> Some (path, int loc))"

definition subMap :: "'k::linorder \<Rightarrow> 'k \<Rightarrow> ('k, 'v) treemap \<Rightarrow> cursor \<times> cursor" where
  "subMap fromKey toKey m =
     (case m_root m of
        None \<Rightarrow> (start_cursor m, None)
      | Some t \<Rightarrow> (lower_cursor t fromKey, find_cursor t toKey))"

definition tailMap :: "'k::linorder \<Rightarrow> ('k, 'v) treemap \<Rightarrow> cursor \<times> cursor" where
  "tailMap fromKey m =
     (case m_root m of None \<Rightarrow> (start_cursor m, None) | Some t \<Rightarrow> (lower_cursor t fromKey, None))"

definition set_iterator :: "('k, 'v) treemap \<Rightarrow> cursor \<times> cursor \<Rightarrow> ('k, 'v) set_iter" where
  "set_iterator m view = es_reset m (fst view) (snd view)"

text \<open>\<open>EntrySet::first\<close> and \<open>EntrySet::last\<close>.\<close>

definition range_first :: "('k, 'v) treemap \<Rightarrow> cursor \<times> cursor \<Rightarrow> ('k \<times> 'v) option" where
  "range_first m view =
     (case (m_root m, fst view) of
        (Some t, Some (path, i)) \<Rightarrow> map_option fst (nextEntry t path i)
      | _ \<Rightarrow> firstEntry m)"

definition range_last :: "('k, 'v) treemap \<Rightarrow> cursor \<times> cursor \<Rightarrow> ('k \<times> 'v) option" where
  "range_last m view =
     (case (m_root m, snd view) of
        (Some t, Some (path, i)) \<Rightarrow> node_getEntry (node_at t path) i
      | _ \<Rightarrow> lastEntry m)"

subsection \<open>Loops over an iterator\<close>

text \<open>
  \<open>while (iter->hasNext()) { entry = iter->next(); ... }\<close> with a body that may fail; the fuel bounds
  the number of tests of the condition and running out of it is \<open>None\<close>.
\<close>

fun es_loop :: "nat \<Rightarrow> ('k, 'v) treemap \<Rightarrow> ('k, 'v) set_iter \<Rightarrow> ('k \<times> 'v \<Rightarrow> 's \<Rightarrow> 's result) \<Rightarrow> 's \<Rightarrow> 's option result" where
  "es_loop 0 m it f s = Inr None"
| "es_loop (Suc n) m it f s =
     (if es_hasNext m it
      then rbind (es_next m it) (\<lambda>(e, it').
        case e of
          None \<Rightarrow> Inl NullDeref
        | Some y \<Rightarrow> rbind (f y s) (\<lambda>s'. es_loop n m it' f s'))
      else Inr (Some s))"

text \<open>The body of \<open>putAll\<close>, without and with a map that takes the replaced entries.\<close>

definition putAll_body :: "'k::linorder \<times> 'v \<Rightarrow> ('k, 'v) treemap \<times> ('k, 'v) treemap option \<Rightarrow>
    (('k, 'v) treemap \<times> ('k, 'v) treemap option) result" where
  "putAll_body e s =
     (case s of (this, fillmap) \<Rightarrow>
        rbind (tree_put (fst e) (snd e) this) (\<lambda>(old, this').
          case (fillmap, old) of
            (Some fm, Some y) \<Rightarrow> rbind (tree_put (fst y) (snd y) fm) (\<lambda>(_, fm'). Inr (this', Some fm'))
          | _ \<Rightarrow> Inr (this', fillmap)))"

definition putAll :: "nat \<Rightarrow> ('k::linorder, 'v) treemap \<Rightarrow> ('k, 'v) treemap option \<Rightarrow> ('k, 'v) treemap \<Rightarrow>
    (('k, 'v) treemap \<times> ('k, 'v) treemap option) option result" where
  "putAll fuel other fillmap this =
     es_loop fuel other (set_iterator other (entrySet other)) putAll_body (this, fillmap)"

subsection \<open>Positions are determined by what is behind them\<close>

lemma around_behind:
  "entry_place path i t \<Longrightarrow> around path i t = (ahead path (int i) t, behind path (int i) t)"
proof (induction path i t rule: entry_place.induct)
  case (1 i xs)
  then show ?case by (simp add: nat_add_distrib)
next
  case (2 i c its)
  then have "left_part i (c, its) = inorder c @ flat (take (i - 1) its) @ [getObject (c, its) i]"
    by (simp add: left_part_def)
  with branch_object(1) [of i its c] 2 show ?case
    by (simp add: nat_diff_distrib right_part_def)
next
  case (3 j path i c its)
  then show ?case by simp
qed simp

lemma right_part_longer:
  "k < l \<Longrightarrow> l \<le> length its \<Longrightarrow>
   length (inorder (getNode (c, its) l)) + length (right_part l (c, its)) < length (right_part k (c, its))"
proof (induction l)
  case (Suc l)
  note obj = branch_object(2) [of "Suc l" its c]
  show ?case
  proof (cases "k = l")
    case True
    with Suc.prems obj show ?thesis by simp
  next
    case False
    with Suc obj show ?thesis by simp
  qed
qed simp

lemma behind_shorter: "entry_at path i t = Some e \<Longrightarrow> length (behind path i t) < length (inorder t)"
  using entry_at_split [of path i t e] by simp

lemma behind_child:
  assumes "j \<le> length its" "entry_at path i (getNode (c, its) j) = Some e" "0 < k" "k \<le> length its"
  shows "length (behind (j # path) i (Branch c its)) \<noteq> length (behind [] (int k) (Branch c its))"
proof (cases "j < k")
  case True
  with right_part_longer [OF True assms(4), of c] assms show ?thesis by simp
next
  case False
  then have "length (inorder (getNode (c, its) j)) + length (right_part j (c, its)) \<le>
      length (inorder (getNode (c, its) k)) + length (right_part k (c, its))"
    using right_part_longer [of k j its c] assms(1) by (cases "j = k") auto
  with behind_shorter [OF assms(2)] assms(4) show ?thesis by simp
qed

lemma behind_inj:
  assumes "entry_at p i t = Some e" "entry_at q j t = Some e'" "length (behind p i t) = length (behind q j t)"
  shows "p = q \<and> i = j"
  using assms
proof (induction p i t arbitrary: q rule: entry_at.induct)
  case (1 i t)
  show ?case
  proof (cases t)
    case (Leaf xs)
    with 1 show ?thesis by (cases q) (auto split: if_splits)
  next
    case (Branch c its)
    then have i: "0 < i" "i \<le> int (length its)" using "1.prems"(1) by (auto split: if_splits)
    show ?thesis
    proof (cases q)
      case Nil
      then have j: "0 < j" "j \<le> int (length its)" using "1.prems"(2) Branch by (auto split: if_splits)
      have "\<not> nat i < nat j" "\<not> nat j < nat i"
        using right_part_longer [of "nat i" "nat j" its c] right_part_longer [of "nat j" "nat i" its c] i j "1.prems"(3) Branch Nil
        by (auto simp: nat_le_iff)
      then show ?thesis using i j Nil by simp
    next
      case (Cons k q')
      with "1.prems"(2) Branch have "k \<le> length its" "entry_at q' j (getNode (c, its) k) = Some e'"
        by (auto split: if_splits)
      from behind_child [OF this, of "nat i"] i Cons Branch "1.prems"(3) show ?thesis
        by (auto simp: nat_le_iff)
    qed
  qed
next
  case (2 k p i c its)
  then have k: "k \<le> length its" and pk: "entry_at p i (getNode (c, its) k) = Some e" by (auto split: if_splits)
  show ?case
  proof (cases q)
    case Nil
    then have j: "0 < j" "j \<le> int (length its)" using "2.prems"(2) by (auto split: if_splits)
    from behind_child [OF k pk, of "nat j"] j Nil "2.prems"(3) show ?thesis
      by (auto simp: nat_le_iff)
  next
    case (Cons l q')
    then have l: "l \<le> length its" and ql: "entry_at q' j (getNode (c, its) l) = Some e'"
      using "2.prems"(2) by (auto split: if_splits)
    have "\<not> k < l" "\<not> l < k"
      using right_part_longer [of k l its c] right_part_longer [of l k its c] k l behind_shorter [OF pk] behind_shorter [OF ql] "2.prems"(3) Cons
      by auto
    then have "k = l" by simp
    with "2.IH" [OF k pk, of q'] ql "2.prems"(3) Cons show ?thesis by simp
  qed
qed simp

subsection \<open>Cursors of the map\<close>

lemma start_cursor_ok:
  assumes "tree_inv m" "m_root m = Some t"
  obtains i where "start_cursor m = Some ([], i)" "valid_pos [] i t" "behind [] i t = entries m" "entry_at [] i t = None"
proof -
  have f: "filled t" using tree_inv_filled [OF assms] by simp
  let ?i = "if isLeaf t then - 1 else (0::int)"
  have "valid_pos [] ?i t \<and> behind [] ?i t = inorder t \<and> entry_at [] ?i t = None"
    by (cases t) (auto simp: getNode_def right_part_def)
  moreover have "start_cursor m = Some ([], ?i)" "entries m = inorder t"
    by (simp_all add: start_cursor_def entries_def assms(2))
  ultimately show ?thesis using that by auto
qed

lemma find_cursor_ok:
  assumes inv: "tree_inv m" and t: "m_root m = Some t" and key: "contents m key = Some v"
  obtains path i where "find_cursor t key = Some (path, i)" "entry_at path i t = Some (key, v)"
    "ahead path i t = lower_part key (entries m)" "behind path i t = higher_rest key (entries m)"
proof -
  obtain x path i e where r: "node_find t key = (x, path, i, e)"
    by (cases "node_find t key") auto
  from inv t r show ?thesis
  proof (cases rule: find_cases)
    case (present n h y)
    have y: "y = (key, v)" using present(2,11) key by (metis option.inject prod.collapse)
    have ar: "around path i t = (ahead path (int i) t, behind path (int i) t)"
      using around_behind [OF present(6)] .
    obtain y' where y': "entry_at path (int i) t = Some y'"
      using entry_at_place [OF present(6)] by blast
    have em: "entries m = ahead path (int i) t @ y # behind path (int i) t"
      using present(7) ar by simp
    moreover have "entries m = inorder t" by (simp add: entries_def t)
    ultimately have "y' = y"
      using entry_at_split [OF y'] by simp
    have "\<forall>x \<in> set (ahead path (int i) t). fst x < key" "\<forall>x \<in> set (behind path (int i) t). key < fst x"
      using present(8,9) ar by (simp_all add: below_key_def above_key_def)
    then have "lower_part key (entries m) = ahead path (int i) t" "higher_rest key (entries m) = behind path (int i) t"
      unfolding em using y takeWhile_middle(1) [of "ahead path (int i) t" "\<lambda>e. fst e < key" "[]" "y # behind path (int i) t"]
        takeWhile_middle(2) [of "ahead path (int i) t @ [y]" "\<lambda>e. fst e \<le> key" "behind path (int i) t" "[]"]
      by (fastforce simp: lower_part_def higher_rest_def less_imp_le not_le)+
    with that [of path "int i"] r y y' \<open>y' = y\<close> show ?thesis
      by (simp add: find_cursor_def)
  next
    case (absent n h)
    with key show ?thesis by simp
  qed
qed

subsection \<open>What a loop over an entry set does\<close>

text \<open>The loop is a fold over the entries the iterator has still to return.\<close>

definition pending :: "('k, 'v) treemap \<Rightarrow> ('k, 'v) set_iter \<Rightarrow> ('k \<times> 'v) list" where
  "pending m it =
     (case (m_root m, es_start it) of (Some t, Some (path, i)) \<Rightarrow> behind path i t | _ \<Rightarrow> [])"

definition iter_ok :: "('k, 'v) treemap \<Rightarrow> ('k, 'v) set_iter \<Rightarrow> bool" where
  "iter_ok m it \<longleftrightarrow> (\<forall>path i. es_start it = Some (path, i) \<longrightarrow> (\<exists>t. m_root m = Some t \<and> valid_pos path i t))"

lemma es_step:
  assumes inv: "tree_inv m" and ok: "iter_ok m it" and "\<not> es_atEnd it"
  shows "es_hasNext m it \<longleftrightarrow> pending m it \<noteq> []"
    and "pending m it = e # es \<Longrightarrow> \<exists>p i t. es_next m it = Inr (Some e, it\<lparr>es_entry := Some e, es_start := Some (p, i)\<rparr>) \<and>
      m_root m = Some t \<and> entry_at p i t = Some e \<and> behind p i t = es"
proof -
  have "(es_hasNext m it \<longleftrightarrow> pending m it \<noteq> []) \<and> (pending m it = e # es \<longrightarrow>
    (\<exists>p i t. es_next m it = Inr (Some e, it\<lparr>es_entry := Some e, es_start := Some (p, i)\<rparr>) \<and>
      m_root m = Some t \<and> entry_at p i t = Some e \<and> behind p i t = es))"
  proof (cases "es_start it")
    case None
    with assms(3) show ?thesis
      by (simp add: es_hasNext_def pending_def hasNextEntry_def split: option.splits)
  next
    case (Some c)
    then obtain path i t where c: "es_start it = Some (path, i)" and t: "m_root m = Some t" and v: "valid_pos path i t"
      using ok by (cases c) (auto simp: iter_ok_def)
    from nextEntry_ok [OF tree_inv_filled(1) [OF inv t] v] c t assms(3) show ?thesis
      by (cases "nextEntry t path i") (auto simp: es_hasNext_def es_next_def pending_def hasNextEntry_eq, blast)
  qed
  then show "es_hasNext m it \<longleftrightarrow> pending m it \<noteq> []"
    and "pending m it = e # es \<Longrightarrow> \<exists>p i t. es_next m it = Inr (Some e, it\<lparr>es_entry := Some e, es_start := Some (p, i)\<rparr>) \<and>
      m_root m = Some t \<and> entry_at p i t = Some e \<and> behind p i t = es"
    by simp_all
qed

lemma es_loop_ok:
  assumes "tree_inv m" "iter_ok m it" "es_end it = None" "length (pending m it) < n"
  shows "es_loop n m it f s = done_with (rfold f (pending m it) s)"
  using assms
proof (induction n arbitrary: it s)
  case (Suc n)
  have na: "\<not> es_atEnd it" using Suc.prems by (simp add: es_atEnd_def)
  show ?case
  proof (cases "pending m it")
    case Nil
    with es_step(1) [OF Suc.prems(1,2) na] show ?thesis by simp
  next
    case (Cons e es)
    obtain p i t where nx: "es_next m it = Inr (Some e, it\<lparr>es_entry := Some e, es_start := Some (p, i)\<rparr>)"
      and t: "m_root m = Some t" "entry_at p i t = Some e" "behind p i t = es"
      using es_step(2) [OF Suc.prems(1,2) na Cons] by blast
    let ?it = "it\<lparr>es_entry := Some e, es_start := Some (p, i)\<rparr>"
    have "iter_ok m ?it" "pending m ?it = es"
      using t entry_at_valid [OF t(2)] by (simp_all add: iter_ok_def pending_def)
    then have "es_loop n m ?it f = (\<lambda>s'. done_with (rfold f es s'))"
      using Suc.IH [of ?it] Suc.prems Cons by (intro ext) simp
    with es_step(1) [OF Suc.prems(1,2) na] Cons nx show ?thesis by simp
  qed
qed simp

text \<open>With an end position the loop stops after the entry there.\<close>

lemma es_loop_end:
  assumes "tree_inv m" "m_root m = Some t" "entry_at q j t = Some e" "iter_ok m it" "es_end it = Some (q, j)"
    and "pending m it = xs @ e # behind q j t" "length xs < n" "\<not> es_atEnd it"
  shows "es_loop (Suc n) m it f s = done_with (rfold f (xs @ [e]) s)"
  using assms
proof (induction n arbitrary: it s xs)
  case (Suc n)
  obtain y ys where y: "xs @ e # behind q j t = y # ys" by (cases xs) auto
  then have pd: "pending m it = y # ys" using Suc.prems(6) by simp
  obtain p i where nx: "es_next m it = Inr (Some y, it\<lparr>es_entry := Some y, es_start := Some (p, i)\<rparr>)"
    and pos: "entry_at p i t = Some y" "behind p i t = ys"
    using es_step(2) [OF Suc.prems(1,4,8) pd] Suc.prems(2) by auto
  let ?it = "it\<lparr>es_entry := Some y, es_start := Some (p, i)\<rparr>"
  have hn: "es_hasNext m it" using es_step(1) [OF Suc.prems(1,4,8)] pd by simp
  show ?case
  proof (cases xs)
    case Nil
    then have "y = e" "ys = behind q j t" using y by simp_all
    with behind_inj [OF pos(1) Suc.prems(3)] pos(2) have "p = q \<and> i = j" by simp
    then have "\<not> es_hasNext m ?it"
      using Suc.prems(5) by (simp add: es_hasNext_def es_atEnd_def)
    then have "es_loop (Suc n) m ?it f = (\<lambda>s'. done_with (Inr s'))"
      by (intro ext) simp
    with hn nx Nil \<open>y = e\<close> show ?thesis by (simp del: es_loop.simps add: es_loop.simps(2) [of "Suc n"])
  next
    case (Cons x xs')
    then have "y = x" "ys = xs' @ e # behind q j t" using y by simp_all
    then have "(p, i) \<noteq> (q, j)" using pos(2) by auto
    moreover have "iter_ok m ?it" "pending m ?it = xs' @ e # behind q j t"
      using pos Suc.prems(2) entry_at_valid [OF pos(1)] \<open>ys = _\<close> by (simp_all add: iter_ok_def pending_def)
    ultimately have "es_loop (Suc n) m ?it f = (\<lambda>s'. done_with (rfold f (xs' @ [e]) s'))"
      using Suc.IH [of ?it xs'] Suc.prems Cons by (intro ext) (simp add: es_atEnd_def)
    with hn nx Cons \<open>y = x\<close> show ?thesis by (simp del: es_loop.simps add: es_loop.simps(2) [of "Suc n"])
  qed
qed simp

subsection \<open>Views of a part of the map\<close>

lemma set_iterator_start:
  assumes "tree_inv m"
  shows "iter_ok m (set_iterator m (start_cursor m, fin))" "pending m (set_iterator m (start_cursor m, fin)) = entries m"
proof -
  have "iter_ok m (set_iterator m (start_cursor m, fin)) \<and> pending m (set_iterator m (start_cursor m, fin)) = entries m"
  proof (cases "m_root m")
    case None
    then show ?thesis
      by (simp add: set_iterator_def es_reset_def start_cursor_def iter_ok_def pending_def entries_def)
  next
    case (Some t)
    obtain i where "start_cursor m = Some ([], i)" "valid_pos [] i t" "behind [] i t = entries m"
      by (rule start_cursor_ok [OF assms Some])
    with Some show ?thesis
      by (simp add: set_iterator_def es_reset_def iter_ok_def pending_def)
  qed
  then show "iter_ok m (set_iterator m (start_cursor m, fin))" "pending m (set_iterator m (start_cursor m, fin)) = entries m"
    by simp_all
qed

lemma entrySet_loop:
  assumes "tree_inv m" "length (entries m) < n"
  shows "es_loop n m (set_iterator m (entrySet m)) f s = done_with (rfold f (entries m) s)"
  using es_loop_ok [OF assms(1) set_iterator_start(1) [OF assms(1), of None]] set_iterator_start(2) [OF assms(1), of None] assms(2)
  by (simp add: entrySet_def set_iterator_def es_reset_def)

lemma key_root: "contents m key = Some v \<Longrightarrow> \<exists>t. m_root m = Some t"
  by (cases "m_root m") (simp_all add: contents_def entries_def)

text \<open>The entries split at a key that is there.\<close>

lemma entries_at_key:
  assumes inv: "tree_inv m" and key: "contents m key = Some v"
  shows "entries m = lower_part key (entries m) @ (key, v) # higher_rest key (entries m)"
    "filter (\<lambda>e. fst e \<le> key) (entries m) = lower_part key (entries m) @ [(key, v)]"
proof -
  let ?ls = "lower_part key (entries m)" and ?rs = "higher_rest key (entries m)"
  obtain t where t: "m_root m = Some t" using key_root [OF key] by blast
  obtain path i where c: "entry_at path i t = Some (key, v)" "ahead path i t = ?ls" "behind path i t = ?rs"
    by (rule find_cursor_ok [OF inv t key])
  have "entries m = inorder t" by (simp add: entries_def t)
  then show split: "entries m = ?ls @ (key, v) # ?rs"
    using entry_at_split [OF c(1)] unfolding c(2,3) by (rule trans)
  have "(key, v) \<in> set (?ls @ (key, v) # ?rs)" by simp
  then have "(key, v) \<in> set (entries m)" unfolding split [symmetric] .
  with lower_higher [OF entries_sorted [OF inv], of key] obtain e where
    e: "lower_rest key (entries m) = e # ?rs" "higher_part key (entries m) = ?ls @ [e]"
    by fastforce
  have "?ls @ lower_rest key (entries m) = ?ls @ (key, v) # ?rs"
    unfolding lower_part_eq by (rule split)
  with e(1) have "e = (key, v)" by simp
  with e(2) filter_takeWhile_sorted(3) [OF entries_sorted [OF inv], of key]
  show "filter (\<lambda>e. fst e \<le> key) (entries m) = ?ls @ [(key, v)]" by simp
qed

lemma headMap_loop:
  assumes inv: "tree_inv m" and key: "contents m toKey = Some v" and n: "length (entries m) < n"
  shows "es_loop n m (set_iterator m (headMap toKey m)) f s =
     done_with (rfold f (filter (\<lambda>e. fst e \<le> toKey) (entries m)) s)"
proof -
  obtain t where t: "m_root m = Some t" using key_root [OF key] by blast
  obtain path i where c: "find_cursor t toKey = Some (path, i)" "entry_at path i t = Some (toKey, v)"
    "behind path i t = higher_rest toKey (entries m)"
    by (rule find_cursor_ok [OF inv t key])
  obtain j where "start_cursor m = Some ([], j)" "entry_at [] j t = None"
    by (rule start_cursor_ok [OF inv t])
  with c have na: "\<not> es_atEnd (set_iterator m (headMap toKey m))"
    by (auto simp: es_atEnd_def set_iterator_def es_reset_def headMap_def t)
  have hm: "headMap toKey m = (start_cursor m, Some (path, i))"
    by (simp add: headMap_def t c(1))
  let ?it = "set_iterator m (headMap toKey m)"
  obtain n' where n': "n = Suc n'" using n by (cases n) auto
  have "length (lower_part toKey (entries m)) < n'"
    using n n' arg_cong [OF entries_at_key(1) [OF inv key], of length] by simp
  moreover have "pending m ?it = lower_part toKey (entries m) @ (toKey, v) # behind path i t"
    unfolding hm set_iterator_start(2) [OF inv] c(3) by (rule entries_at_key(1) [OF inv key])
  moreover have "es_end ?it = Some (path, i)" "iter_ok m ?it"
    using set_iterator_start(1) [OF inv] by (simp_all add: hm set_iterator_def es_reset_def)
  ultimately show ?thesis
    unfolding n' entries_at_key(2) [OF inv key] by (intro es_loop_end [OF inv t c(2)] na)
qed

text \<open>The position \<open>lower\<close> gives.\<close>

lemma lower_cursor_ok:
  assumes inv: "tree_inv m" and t: "m_root m = Some t"
  obtains path i where "lower_cursor t key = Some (path, i)" "valid_pos path i t"
    "behind path i t = (if lower_part key (entries m) = [] then drop (length (firstLeaf t)) (entries m)
       else lower_rest key (entries m))"
proof -
  note ft = tree_inv_filled [OF inv t]
  obtain x path loc nxt where r: "node_lower t key = (x, path, loc, nxt)"
    by (cases "node_lower t key") auto
  have e: "entries m = inorder t" by (simp add: entries_def t)
  have lo: "lower_ok t key (x, path, loc, nxt)"
    using node_lower_ok [OF ft(2,1), of key] r by simp
  have fl: "valid_pos (first_path u) (int (length (firstLeaf u))) u \<and>
      behind (first_path u) (int (length (firstLeaf u))) u = drop (length (firstLeaf u)) (inorder u)" for u :: "('a \<times> 'b) node"
  proof (induction u rule: first_path.induct)
    case (2 c its)
    have "length (firstLeaf c) \<le> length (inorder c)"
      by (induction c rule: firstLeaf.induct) auto
    with 2 show ?case
      by (simp add: getNode_def right_part_def)
  qed (simp add: nat_add_distrib)
  show ?thesis
  proof (cases "lower_part key (entries m) = []")
    case True
    with lo e fl [of t] that [of path "int loc"] r show ?thesis
      by (simp add: lower_ok_def Let_def lower_cursor_def)
  next
    case False
    then have p: "entry_place path loc t" "snd (around path loc t) = lower_rest key (entries m)"
      using lo e by (simp_all add: lower_ok_def Let_def)
    have "valid_pos path (int loc) t"
      using entry_at_place [OF p(1)] by (auto dest: entry_at_valid)
    with p around_behind [OF p(1)] False that [of path "int loc"] r show ?thesis
      by (simp add: lower_cursor_def)
  qed
qed

lemma tailMap_loop:
  assumes inv: "tree_inv m" and n: "length (entries m) < n"
  shows "es_loop n m (set_iterator m (tailMap fromKey m)) f s =
     done_with (rfold f (if lower_part fromKey (entries m) = []
         then (case m_root m of None \<Rightarrow> [] | Some t \<Rightarrow> drop (length (firstLeaf t)) (entries m))
         else filter (\<lambda>e. fst e \<ge> fromKey) (entries m)) s)"
proof (cases "m_root m")
  case None
  then have "es_loop n m (set_iterator m (entrySet m)) f s = done_with (rfold f [] s)"
    using entrySet_loop [OF inv n] by (simp add: entries_def)
  with None show ?thesis
    by (simp add: tailMap_def entrySet_def entries_def lower_part_def)
next
  case (Some t)
  obtain path i where c: "lower_cursor t fromKey = Some (path, i)" "valid_pos path i t"
    "behind path i t = (if lower_part fromKey (entries m) = [] then drop (length (firstLeaf t)) (entries m)
       else lower_rest fromKey (entries m))"
    by (rule lower_cursor_ok [OF inv Some])
  let ?it = "set_iterator m (tailMap fromKey m)"
  have it: "es_start ?it = Some (path, i)" "es_end ?it = None"
    by (simp_all add: set_iterator_def es_reset_def tailMap_def Some c(1))
  then have "iter_ok m ?it" "pending m ?it = behind path i t"
    using c(2) Some by (simp_all add: iter_ok_def pending_def)
  moreover have "length (behind path i t) < n"
    using n c(3) lower_part_eq [of fromKey "entries m"] by (auto dest!: arg_cong [of _ _ length])
  ultimately show ?thesis
    using es_loop_ok [OF inv, of ?it n f s] it(2) c(3) Some
      filter_takeWhile_sorted(2) [OF entries_sorted [OF inv], of fromKey] by simp
qed

text \<open>An end position whose entry is not to come is never reached.\<close>

lemma es_loop_unreached:
  assumes "tree_inv m" "m_root m = Some t" "\<forall>e \<in> set (pending m it). entry_at q j t \<noteq> Some e" "iter_ok m it" "es_end it = Some (q, j)"
    "\<not> es_atEnd it" "length (pending m it) < n"
  shows "es_loop n m it f s = done_with (rfold f (pending m it) s)"
  using assms
proof (induction n arbitrary: it s)
  case (Suc n)
  show ?case
  proof (cases "pending m it")
    case Nil
    with es_step(1) [OF Suc.prems(1,4,6)] show ?thesis by simp
  next
    case (Cons e es)
    obtain p i where nx: "es_next m it = Inr (Some e, it\<lparr>es_entry := Some e, es_start := Some (p, i)\<rparr>)"
      and pos: "entry_at p i t = Some e" "behind p i t = es"
      using es_step(2) [OF Suc.prems(1,4,6) Cons] Suc.prems(2) by auto
    let ?it = "it\<lparr>es_entry := Some e, es_start := Some (p, i)\<rparr>"
    have "entry_at q j t \<noteq> Some e" "\<forall>e \<in> set es. entry_at q j t \<noteq> Some e" using Suc.prems(3) Cons by simp_all
    then have it: "iter_ok m ?it" "pending m ?it = es" "\<not> es_atEnd ?it" "\<forall>e \<in> set (pending m ?it). entry_at q j t \<noteq> Some e"
      using pos Suc.prems(2,5) entry_at_valid [OF pos(1)] by (auto simp: iter_ok_def pending_def es_atEnd_def)
    then have "es_loop n m ?it f = (\<lambda>s'. done_with (rfold f es s'))"
      using Suc.IH [OF Suc.prems(1,2) it(4,1) _ it(3)] Suc.prems(5,7) Cons by (intro ext) simp
    with es_step(1) [OF Suc.prems(1,4,6)] Cons nx show ?thesis by simp
  qed
qed simp

lemma lower_part_Nil:
  assumes "tree_inv m"
  shows "lower_part key (entries m) = [] \<longleftrightarrow> \<not> (\<exists>k \<in> dom (contents m). k < key)"
  using filter_takeWhile_sorted(1) [OF entries_sorted [OF assms], of key, symmetric]
  by (auto simp: filter_empty_conv contents_def dom_map_of_conv_image_fst)

lemma lower_cursor_first:
  assumes inv: "tree_inv m" and t: "m_root m = Some t" and no: "lower_part key (entries m) = []" and c: "lower_cursor t key = Some (path, i)"
  shows "entry_at path i t = None"
proof -
  note ft = tree_inv_filled [OF inv t]
  obtain x p loc nxt where r: "node_lower t key = (x, p, loc, nxt)" by (cases "node_lower t key") auto
  have "lower_ok t key (x, p, loc, nxt)" using node_lower_ok [OF ft(2,1), of key] r by simp
  moreover have "entries m = inorder t" by (simp add: entries_def t)
  ultimately have "path = first_path t" "i = int (length (firstLeaf t))" using no c r by (simp_all add: lower_ok_def Let_def lower_cursor_def)
  moreover have "entry_at (first_path u) (int (length (firstLeaf u))) u = None" for u :: "('a \<times> 'b) node"
    by (induction u rule: first_path.induct) (simp_all add: getNode_def)
  ultimately show ?thesis by simp
qed

lemma firstLeaf_prefix: "\<exists>r. inorder t = firstLeaf t @ r"
  by (induction t rule: firstLeaf.induct) auto

text \<open>What a loop from one position to the position of a key visits, when the loop may start behind that key.\<close>

lemma loop_to_key:
  assumes inv: "tree_inv m" and t: "m_root m = Some t" and key: "contents m toKey = Some v" and n: "length (entries m) < n"
    and q: "entry_at q j t = Some (toKey, v)" "behind q j t = higher_rest toKey (entries m)"
    and it: "iter_ok m it" "es_end it = Some (q, j)" "\<not> es_atEnd it" "entries m = pre @ pending m it"
  shows "es_loop n m it f s = done_with (rfold f (if toKey \<in> fst ` set (pending m it)
     then filter (\<lambda>e. fst e \<le> toKey) (pending m it) else pending m it) s)"
proof (cases "toKey \<in> fst ` set (pending m it)")
  case False
  then have "\<forall>e \<in> set (pending m it). entry_at q j t \<noteq> Some e" using q(1) by (metis fst_conv image_eqI option.inject)
  moreover have "length (pending m it) < n" using n it(4) by simp
  ultimately show ?thesis using False es_loop_unreached [OF inv t _ it(1,2,3)] by simp
next
  case True
  then obtain e where e: "e \<in> set (pending m it)" "fst e = toKey" by auto
  then obtain xs zs where p: "pending m it = xs @ e # zs" by (auto dest: split_list)
  have srt: "sorted_wrt (<) (map fst ((pre @ xs) @ e # zs))" using entries_sorted [OF inv] it(4) p by simp
  have "e \<in> set (entries m)" using e(1) it(4) by simp
  then have "contents m toKey = Some (snd e)"
    using entries_sorted [OF inv] e(2) by (auto simp: contents_def strict_sorted_iff intro!: map_of_is_SomeI)
  then have ev: "e = (toKey, v)" using key e(2) by (cases e) simp
  have "(pre @ xs) @ e # zs = lower_part toKey (entries m) @ e # higher_rest toKey (entries m)"
    using entries_at_key(1) [OF inv key] it(4) p ev by simp
  moreover have "e \<notin> set (pre @ xs)" "e \<notin> set zs" using srt by (auto simp: sorted_wrt_append)
  ultimately have zs: "zs = behind q j t" using append_Cons_eq_iff q(2) by metis
  have flt: "filter (\<lambda>e. fst e \<le> toKey) (pending m it) = xs @ [e]"
    unfolding p using srt e(2) by (auto simp: sorted_wrt_append filter_empty_conv filter_id_conv less_imp_le)
  obtain n' where n': "n = Suc n'" "length xs < n'" using n it(4) p by (cases n) auto
  show ?thesis
    using es_loop_end [OF inv t q(1) it(1,2) _ n'(2) it(3), of f s] True p zs flt ev n'(1) by simp
qed

lemma subMap_loop:
  assumes inv: "tree_inv m" and t: "m_root m = Some t" and key: "contents m toKey = Some v" and le: "fromKey \<le> toKey"
    and n: "length (entries m) < n"
  shows "es_loop n m (set_iterator m (subMap fromKey toKey m)) f s = done_with (rfold f
     (if lower_part fromKey (entries m) \<noteq> [] then filter (\<lambda>e. fromKey \<le> fst e \<and> fst e \<le> toKey) (entries m)
      else if toKey \<in> fst ` set (firstLeaf t) then drop (length (firstLeaf t)) (entries m)
      else filter (\<lambda>e. fst e \<le> toKey) (drop (length (firstLeaf t)) (entries m))) s)"
proof -
  obtain q j where q: "find_cursor t toKey = Some (q, j)" "entry_at q j t = Some (toKey, v)"
    "behind q j t = higher_rest toKey (entries m)"
    by (rule find_cursor_ok [OF inv t key])
  obtain path i where c: "lower_cursor t fromKey = Some (path, i)" "valid_pos path i t"
    "behind path i t = (if lower_part fromKey (entries m) = [] then drop (length (firstLeaf t)) (entries m)
       else lower_rest fromKey (entries m))"
    by (rule lower_cursor_ok [OF inv t])
  note srt = entries_sorted [OF inv]
  let ?it = "set_iterator m (subMap fromKey toKey m)"
  have it: "es_start ?it = Some (path, i)" "es_end ?it = Some (q, j)"
    by (simp_all add: set_iterator_def es_reset_def subMap_def t c(1) q(1))
  then have ok: "iter_ok m ?it" "pending m ?it = behind path i t"
    using c(2) t by (simp_all add: iter_ok_def pending_def)
  have toKey: "(toKey, v) \<in> set (entries m)" using key by (auto simp: contents_def dest: map_of_SomeD)
  show ?thesis
  proof (cases "lower_part fromKey (entries m) = []")
    case False
    have bh: "behind path i t = filter (\<lambda>e. fst e \<ge> fromKey) (entries m)"
      using c(3) filter_takeWhile_sorted(2) [OF srt] False by simp
    have "(toKey, v) \<in> set (behind path i t)" using toKey le bh by simp
    then have there: "toKey \<in> fst ` set (behind path i t)" by (rule image_eqI [rotated]) simp
    have "toKey \<notin> fst ` set (behind q j t)"
      unfolding q(3) filter_takeWhile_sorted(4) [OF srt, of toKey, symmetric] by auto
    with there have na: "\<not> es_atEnd ?it" by (auto simp: es_atEnd_def it)
    have pre: "entries m = lower_part fromKey (entries m) @ pending m ?it" using c(3) False lower_part_eq [of fromKey "entries m"] ok(2) by simp
    have "filter (\<lambda>e. fst e \<le> toKey) (pending m ?it) = filter (\<lambda>e. fromKey \<le> fst e \<and> fst e \<le> toKey) (entries m)"
      unfolding ok(2) bh filter_filter ..
    then show ?thesis
      using loop_to_key [OF inv t key n q(2,3) ok(1) it(2) na pre, of f s] False there ok(2) by simp
  next
    case True
    obtain r where r: "inorder t = firstLeaf t @ r" using firstLeaf_prefix by blast
    have e: "entries m = firstLeaf t @ r" by (simp add: entries_def t r)
    have bh: "pending m ?it = r" using c(3) True ok(2) e by simp
    have "set (map fst (firstLeaf t)) \<inter> set (map fst r) = {}" using srt unfolding e by (simp add: strict_sorted_iff)
    moreover have "toKey \<in> set (map fst (firstLeaf t)) \<union> set (map fst r)" using toKey unfolding e by force
    ultimately have sep: "toKey \<in> fst ` set r \<longleftrightarrow> toKey \<notin> fst ` set (firstLeaf t)" by auto
    have na: "\<not> es_atEnd ?it" using lower_cursor_first [OF inv t True c(1)] q(2) by (auto simp: es_atEnd_def it)
    have pre: "entries m = firstLeaf t @ pending m ?it" using e bh by simp
    have "drop (length (firstLeaf t)) (entries m) = r" by (simp add: e)
    then show ?thesis
      using loop_to_key [OF inv t key n q(2,3) ok(1) it(2) na pre, of f s] True bh sep by simp
  qed
qed

lemma leaf_place_pos:
  "leaf_place path i t \<Longrightarrow> valid_pos path (int i) t \<and> ahead path (int i) t = fst (cut_at path i t) \<and>
     (case entry_at path (int i) t of
        Some e \<Rightarrow> snd (cut_at path i t) = e # behind path (int i) t
      | None \<Rightarrow> behind path (int i) t = snd (cut_at path i t))"
proof (induction path i t rule: leaf_place.induct)
  case (1 i xs)
  then show ?case by (auto simp: nat_add_distrib Cons_nth_drop_Suc)
next
  case (2 j path i c its)
  then show ?case by (auto split: prod.splits option.splits)
qed auto

text \<open>
  With a key that is not there \<open>headMap\<close> ends behind the next greater entry, or, when the key belongs
  at the end of a leaf, not before the end of the map.
\<close>

lemma headMap_absent_loop:
  assumes inv: "tree_inv m" and key: "contents m toKey = None" and n: "length (entries m) < n"
  shows "\<exists>xs. (\<forall>f s. es_loop n m (set_iterator m (headMap toKey m)) f s = done_with (rfold f xs (s::'s))) \<and>
     (xs = entries m \<or> xs = take (Suc (length (filter (\<lambda>e. fst e < toKey) (entries m)))) (entries m))"
proof (cases "m_root m")
  case None
  then have "headMap toKey m = entrySet m" by (simp add: headMap_def entrySet_def)
  with entrySet_loop [OF inv n] show ?thesis by auto
next
  case (Some t)
  note t = Some
  obtain x path i e where r: "node_find t toKey = (x, path, i, e)"
    by (cases "node_find t toKey") auto
  let ?it = "set_iterator m (headMap toKey m)"
  have hm: "headMap toKey m = (start_cursor m, Some (path, int i))"
    by (simp add: headMap_def t find_cursor_def r)
  have it: "iter_ok m ?it" "pending m ?it = entries m" "es_end ?it = Some (path, int i)"
    using set_iterator_start [OF inv] by (simp_all add: hm set_iterator_def es_reset_def)
  obtain j where st: "start_cursor m = Some ([], j)" "entry_at [] j t = None" "behind [] j t = entries m"
    by (rule start_cursor_ok [OF inv t])
  from inv t r show ?thesis
  proof (cases rule: find_cases)
    case (absent k h)
    have na: "\<not> es_atEnd ?it"
    proof
      assume "es_atEnd ?it"
      then have "path = []" "int i = j"
        using st(1) by (simp_all add: es_atEnd_def hm set_iterator_def es_reset_def)
      moreover have "j < 0 \<or> \<not> isLeaf t"
        using st(1) t by (auto simp: start_cursor_def split: if_splits)
      ultimately show False
        using absent(5) by (cases t) auto
    qed
    note lp = leaf_place_pos [OF absent(5)]
    show ?thesis
    proof (cases "entry_at path (int i) t")
      case None
      have "es_loop n m ?it f s = done_with (rfold f (entries m) s)" for f and s :: 's
        using es_loop_unreached [OF inv t _ it(1,3) na, of n f s] None it(2) n by simp
      then show ?thesis by blast
    next
      case (Some y)
      define xs where "xs = fst (cut_at path i t)"
      have em: "entries m = xs @ y # behind path (int i) t"
        using absent(6) lp Some by (simp add: xs_def)
      have "filter (\<lambda>e. fst e < toKey) (entries m) = xs"
        unfolding em using absent(7,8) lp Some
        by (auto simp: below_key_def above_key_def xs_def filter_id_conv filter_empty_conv)
      then have "take (Suc (length (filter (\<lambda>e. fst e < toKey) (entries m)))) (entries m) = xs @ [y]"
        by (simp add: em)
      moreover obtain n' where n': "n = Suc n'" using n by (cases n) auto
      moreover have "length xs < n'"
        using n n' em by simp
      moreover have "pending m ?it = xs @ y # behind path (int i) t"
        unfolding it(2) by (rule em)
      ultimately have "es_loop n m ?it f s = done_with (rfold f (xs @ [y]) s)" for f and s :: 's
        unfolding n' by (intro es_loop_end [OF inv t Some it(1,3) _ _ na])
      with \<open>take _ _ = xs @ [y]\<close> show ?thesis by metis
    qed
  next
    case (present k h y)
    with key show ?thesis by simp
  qed
qed


subsection \<open>\<open>putAll\<close>\<close>

lemma putAll_fold:
  assumes "tree_inv this"
  shows "\<exists>this'. rfold putAll_body es (this, None) = Inr (this', None) \<and> tree_inv this' \<and>
     contents this' = fold (\<lambda>e c. c(fst e \<mapsto> snd e)) es (contents this)"
  using assms
proof (induction es arbitrary: this)
  case (Cons e es)
  obtain m1 where "tree_put (fst e) (snd e) this = Inr (map_option (Pair (fst e)) (contents this (fst e)), m1)"
    and b: "becomes this m1 ((contents this)(fst e \<mapsto> snd e))"
    using tree_put_ok [OF Cons.prems] by blast
  then have "putAll_body e (this, None) = Inr (m1, None)"
    by (simp add: putAll_body_def)
  with Cons.IH [of m1] b show ?case
    by (auto simp: becomes_def)
qed simp

lemma putAll_fold_fill:
  assumes "tree_inv this" "tree_inv fm" "distinct (map fst es)"
  shows "\<exists>this' fm'. rfold putAll_body es (this, Some fm) = Inr (this', Some fm') \<and> tree_inv this' \<and> tree_inv fm' \<and>
     contents this' = fold (\<lambda>e c. c(fst e \<mapsto> snd e)) es (contents this) \<and>
     contents fm' = contents fm ++ contents this |` (fst ` set es)"
  using assms
proof (induction es arbitrary: this fm)
  case (Cons e es)
  obtain m1 where p: "tree_put (fst e) (snd e) this = Inr (map_option (Pair (fst e)) (contents this (fst e)), m1)"
    and b: "tree_inv m1" "contents m1 = (contents this)(fst e \<mapsto> snd e)"
    using tree_put_ok [OF Cons.prems(1)] by (auto simp: becomes_def)
  have ne: "contents m1 |` (fst ` set es) = contents this |` (fst ` set es)"
    using Cons.prems(3) by (auto simp: b(2) restrict_map_def fun_eq_iff)
  have "\<exists>f1. putAll_body e (this, Some fm) = Inr (m1, Some f1) \<and> tree_inv f1 \<and>
      contents f1 ++ contents this |` (fst ` set es) = contents fm ++ contents this |` (fst ` set (e # es))"
  proof (cases "contents this (fst e)")
    case None
    with p have "putAll_body e (this, Some fm) = Inr (m1, Some fm)"
      by (simp add: putAll_body_def)
    moreover have "contents this |` (fst ` set (e # es)) = contents this |` (fst ` set es)"
      using None by (auto simp: restrict_map_def fun_eq_iff)
    ultimately show ?thesis using Cons.prems(2) by auto
  next
    case (Some v)
    obtain f1 where "tree_put (fst e) v fm = Inr (map_option (Pair (fst e)) (contents fm (fst e)), f1)"
      and f: "tree_inv f1" "contents f1 = (contents fm)(fst e \<mapsto> v)"
      using tree_put_ok [OF Cons.prems(2)] by (auto simp: becomes_def)
    with p Some have "putAll_body e (this, Some fm) = Inr (m1, Some f1)"
      by (simp add: putAll_body_def)
    moreover have "contents f1 ++ contents this |` (fst ` set es) = contents fm ++ contents this |` (fst ` set (e # es))"
      using Some f(2) by (auto simp: restrict_map_def map_add_def fun_eq_iff split: option.splits)
    ultimately show ?thesis using f by auto
  qed
  then obtain f1 where f1: "putAll_body e (this, Some fm) = Inr (m1, Some f1)" "tree_inv f1"
    "contents f1 ++ contents this |` (fst ` set es) = contents fm ++ contents this |` (fst ` set (e # es))"
    by blast
  obtain this' fm' where "rfold putAll_body es (m1, Some f1) = Inr (this', Some fm')" "tree_inv this'" "tree_inv fm'"
    "contents this' = fold (\<lambda>e c. c(fst e \<mapsto> snd e)) es (contents m1)"
    "contents fm' = contents f1 ++ contents m1 |` (fst ` set es)"
    using Cons.IH [OF b(1) f1(2)] Cons.prems(3) unfolding list.map distinct.simps by blast
  with f1 b(2) ne show ?case by (simp del: fun_upd_apply)
qed (simp add: restrict_map_def)

lemma fold_upd_map_add:
  "distinct (map fst es) \<Longrightarrow> fold (\<lambda>e c. c(fst e \<mapsto> snd e)) es c = c ++ map_of es"
proof (induction es arbitrary: c)
  case (Cons e es)
  then have "map_of es (fst e) = None" by (simp add: map_of_eq_None_iff)
  with Cons show ?case
    by (cases e) (auto simp: map_add_def fun_eq_iff split: option.splits)
qed simp

lemma entries_distinct: "tree_inv m \<Longrightarrow> distinct (map fst (entries m))"
  using entries_sorted [of m] by (simp add: strict_sorted_iff)

lemma putAll_ok:
  assumes "tree_inv other" "tree_inv this" "length (entries other) < fuel"
  shows "\<exists>this'. putAll fuel other None this = Inr (Some (this', None)) \<and> tree_inv this' \<and>
     contents this' = contents this ++ contents other"
proof -
  obtain this' where r: "rfold putAll_body (entries other) (this, None) = Inr (this', None)" "tree_inv this'"
    "contents this' = contents this ++ contents other"
    using putAll_fold [OF assms(2), of "entries other"]
    unfolding fold_upd_map_add [OF entries_distinct [OF assms(1)]] contents_def [of other, symmetric] by blast
  have "putAll fuel other None this = Inr (Some (this', None))"
    unfolding putAll_def entrySet_loop [OF assms(1,3)] r(1) by simp
  with r(2,3) show ?thesis by blast
qed

lemma putAll_fill_ok:
  assumes "tree_inv other" "tree_inv this" "tree_inv fm" "length (entries other) < fuel"
  shows "\<exists>this' fm'. putAll fuel other (Some fm) this = Inr (Some (this', Some fm')) \<and> tree_inv this' \<and> tree_inv fm' \<and>
     contents this' = contents this ++ contents other \<and>
     contents fm' = contents fm ++ contents this |` dom (contents other)"
proof -
  have d: "fst ` set (entries other) = dom (contents other)"
    by (simp add: contents_def dom_map_of_conv_image_fst)
  obtain this' fm' where r: "rfold putAll_body (entries other) (this, Some fm) = Inr (this', Some fm')"
    "tree_inv this'" "tree_inv fm'" "contents this' = contents this ++ contents other"
    "contents fm' = contents fm ++ contents this |` dom (contents other)"
    using putAll_fold_fill [OF assms(2,3) entries_distinct [OF assms(1)]]
    unfolding fold_upd_map_add [OF entries_distinct [OF assms(1)]] contents_def [of other, symmetric] d by blast
  have "putAll fuel other (Some fm) this = Inr (Some (this', Some fm'))"
    unfolding putAll_def entrySet_loop [OF assms(1,4)] r(1) by simp
  with r(2-) show ?thesis by blast
qed

subsection \<open>Removing while iterating\<close>

lemma sorted_map_of_eq:
  assumes "sorted_wrt (<) (map fst xs)" "sorted_wrt (<) (map fst ys)" "map_of xs = map_of ys"
  shows "xs = (ys :: ('k::linorder \<times> 'v) list)"
proof -
  have "set (map fst xs) = set (map fst ys)"
    using assms(3) by (metis dom_map_of_conv_image_fst list.set_map)
  then have k: "map fst xs = map fst ys"
    using assms(1,2) by (simp add: strict_sorted_equal)
  have "xs ! i = ys ! i" if "i < length xs" for i
  proof -
    have i: "i < length ys" "fst (xs ! i) = fst (ys ! i)"
      using that k by (metis length_map) (metis k length_map nth_map that)
    have "map_of xs (fst (xs ! i)) = Some (snd (xs ! i))" "map_of ys (fst (ys ! i)) = Some (snd (ys ! i))"
      using assms(1,2) that i(1) nth_mem [OF that] nth_mem [OF i(1)]
      by (auto simp: strict_sorted_iff intro!: map_of_is_SomeI simp del: nth_mem)
    with assms(3) i show ?thesis by (simp add: prod_eq_iff)
  qed
  with k show ?thesis by (metis length_map nth_equalityI)
qed

lemma tree_remove_entries:
  assumes inv: "tree_inv m" and small: "length (entries m) < 2 ^ 32"
  shows "\<exists>m'. tree_remove key m = Inr (map_option (Pair key) (contents m key), m') \<and> tree_inv m' \<and>
     entries m' = filter (\<lambda>e. fst e \<noteq> key) (entries m)"
proof -
  obtain m' where r: "tree_remove key m = Inr (map_option (Pair key) (contents m key), m')"
    and b: "tree_inv m'" "contents m' = (contents m)(key := None)"
    using tree_remove_ok [OF assms] by (auto simp: becomes_def)
  have "sorted_wrt (<) (map fst (filter (\<lambda>e. fst e \<noteq> key) (entries m)))"
    using entries_sorted [OF inv] by (induction "entries m" arbitrary: m rule: list.induct) (auto simp: sorted_wrt_map sorted_wrt_filter)
  moreover have "map_of (filter (\<lambda>e. fst e \<noteq> key) xs) = (map_of xs)(key := None)" for xs :: "('a \<times> 'b) list"
    by (induction xs) auto
  ultimately have "entries m' = filter (\<lambda>e. fst e \<noteq> key) (entries m)"
    using b entries_sorted [OF b(1)] by (intro sorted_map_of_eq) (simp_all add: contents_def)
  with r b(1) show ?thesis by blast
qed

lemma es_remove_ok:
  assumes inv: "tree_inv m" and small: "length (entries m) < 2 ^ 32"
    and it: "es_entry it = Some e" "es_start it = Some (p, i)" "es_end it = None"
    and pos: "m_root m = Some t" "entry_at p i t = Some e"
  shows "\<exists>m' it'. es_remove m it = Inr (m', it') \<and> tree_inv m' \<and> entries m' = filter (\<lambda>x. x \<noteq> e) (entries m) \<and>
     iter_ok m' it' \<and> es_end it' = None \<and> pending m' it' = pending m it"
proof -
  obtain k v where e: "e = (k, v)" by (cases e)
  have em: "entries m = ahead p i t @ e # behind p i t"
    using entry_at_split [OF pos(2)] pos(1) by (simp add: entries_def)
  note srt = entries_sorted [OF inv]
  have "map_of (entries m) k = Some v"
    using entries_distinct [OF inv] e by (intro map_of_is_SomeI) (simp_all add: em)
  then have key: "contents m k = Some v" by (simp add: contents_def)
  have lw: "lowerEntry k m = opt_last (ahead p i t)" "\<forall>x \<in> set (ahead p i t). fst x < k" "\<forall>x \<in> set (behind p i t). k < fst x"
  proof -
    show 1: "\<forall>x \<in> set (ahead p i t). fst x < k" "\<forall>x \<in> set (behind p i t). k < fst x"
      using srt e by (simp_all add: em sorted_wrt_append)
    then have "filter (\<lambda>e. fst e < k) (entries m) = ahead p i t"
      using e by (auto simp: em filter_id_conv filter_empty_conv)
    then show "lowerEntry k m = opt_last (ahead p i t)"
      using neighbours_filter(1) [OF inv, of k] by simp
  qed
  have del: "filter (\<lambda>x. fst x \<noteq> k) (entries m) = ahead p i t @ behind p i t" "filter (\<lambda>x. x \<noteq> e) (entries m) = ahead p i t @ behind p i t"
  proof -
    have "filter (\<lambda>x. fst x \<noteq> k) (ahead p i t) = ahead p i t" "filter (\<lambda>x. fst x \<noteq> k) (behind p i t) = behind p i t"
      "filter (\<lambda>x. x \<noteq> e) (ahead p i t) = ahead p i t" "filter (\<lambda>x. x \<noteq> e) (behind p i t) = behind p i t"
      using lw(2,3) e by (auto simp: filter_id_conv)
    then show "filter (\<lambda>x. fst x \<noteq> k) (entries m) = ahead p i t @ behind p i t"
      "filter (\<lambda>x. x \<noteq> e) (entries m) = ahead p i t @ behind p i t"
      using e by (simp_all add: em)
  qed
  obtain m' where r: "tree_remove k m = Inr (map_option (Pair k) (contents m k), m')" "tree_inv m'"
    "entries m' = ahead p i t @ behind p i t"
    using tree_remove_entries [OF inv small, of k] del by auto
  have pend: "pending m it = behind p i t" by (simp add: pending_def it pos)
  show ?thesis
  proof (cases "ahead p i t = []")
    case True
    then have rem: "es_remove m it = Inr (m', set_iterator m' (start_cursor m', None))"
      using it r(1) lw(1) by (simp add: es_remove_def e set_iterator_def es_reset_def split: option.split)
    with set_iterator_start [OF r(2), of None] r del pend True show ?thesis
      by (auto simp: set_iterator_def es_reset_def)
  next
    case False
    then obtain l where l: "lowerEntry k m = Some l" "l = last (ahead p i t)"
      using lw(1) by (simp add: opt_last_def)
    have "l \<in> set (entries m')" using l False r(3) by simp
    then have kl: "contents m' (fst l) = Some (snd l)"
      using entries_distinct [OF r(2)] by (simp add: contents_def map_of_is_SomeI)
    obtain t' where t': "m_root m' = Some t'" using key_root [OF kl] by blast
    obtain q j where q: "find_cursor t' (fst l) = Some (q, j)" "entry_at q j t' = Some (fst l, snd l)"
      "ahead q j t' = lower_part (fst l) (entries m')" "behind q j t' = higher_rest (fst l) (entries m')"
      by (rule find_cursor_ok [OF r(2) t' kl])
    have "behind q j t' = behind p i t"
    proof -
      have s: "entries m' = butlast (ahead p i t) @ l # behind p i t"
        using r(3) l(2) False by simp
      have "sorted_wrt (<) (map fst (butlast (ahead p i t) @ l # behind p i t))"
        using entries_sorted [OF r(2)] unfolding s .
      then have "filter (\<lambda>x. fst l < fst x) (entries m') = behind p i t"
        unfolding s by (force simp: sorted_wrt_append filter_id_conv filter_empty_conv)
      with q(4) filter_takeWhile_sorted(4) [OF entries_sorted [OF r(2)], of "fst l"] show ?thesis by simp
    qed
    with t' q(1,2) it r l(1) e del pend entry_at_valid [OF q(2)] show ?thesis
      by (auto simp: es_remove_def iter_ok_def pending_def)
  qed
qed

subsection \<open>The map iterator\<close>

definition iter_rest :: "('k, 'v) treemap \<Rightarrow> tree_iter \<Rightarrow> ('k \<times> 'v) list" where
  "iter_rest m it =
     (case (m_root m, it_cursor it) of
        (Some t, Some (path, i)) \<Rightarrow> (case entry_at path i t of Some e \<Rightarrow> e # behind path i t | None \<Rightarrow> [])
      | _ \<Rightarrow> [])"

definition iter_wf :: "('k, 'v) treemap \<Rightarrow> tree_iter \<Rightarrow> bool" where
  "iter_wf m it \<longleftrightarrow> (\<forall>path i. it_cursor it = Some (path, i) \<longrightarrow>
     (\<exists>t. m_root m = Some t \<and> (it_cursor it = end_cursor t \<or> entry_at path i t \<noteq> None)))"

lemma end_cursor_ok:
  assumes "filled t"
  shows "entry_at [] (lastIndex t + 1) t = None" "valid_pos [] (lastIndex t + 1) t" "ahead [] (lastIndex t + 1) t = inorder t"
proof -
  show "entry_at [] (lastIndex t + 1) t = None" "valid_pos [] (lastIndex t + 1) t"
    by (cases t; simp)+
  show "ahead [] (lastIndex t + 1) t = inorder t"
  proof (cases t)
    case (Branch c its)
    with branch_inorder [of "length its" its c] show ?thesis
      by (simp add: right_part_def del: inorder_Branch)
  qed simp
qed

lemma iter_end_iff:
  assumes inv: "tree_inv m" and wf: "iter_wf m it"
  shows "iter_isEnd m it \<longleftrightarrow> iter_rest m it = []"
proof (cases "it_cursor it")
  case (Some c)
  then obtain path i t where c: "it_cursor it = Some (path, i)" and t: "m_root m = Some t"
    and or: "it_cursor it = end_cursor t \<or> entry_at path i t \<noteq> None"
    using wf by (cases c) (auto simp: iter_wf_def)
  from or c t end_cursor_ok(1) [OF tree_inv_filled(1) [OF inv t]] show ?thesis
    by (auto simp: iter_isEnd_def iter_rest_def end_cursor_def split: option.splits)
qed (simp add: iter_isEnd_def iter_rest_def split: option.splits)

lemma iter_next_ok:
  assumes inv: "tree_inv m" and wf: "iter_wf m it" and rest: "iter_rest m it = e # es"
  obtains it' where "iter_next m it = (Some e, it')" "iter_wf m it'" "iter_rest m it' = es"
    "it_attached it' = it_attached it" "it_modification it' = it_modification it"
proof -
  obtain t path i where t: "m_root m = Some t" and c: "it_cursor it = Some (path, i)"
    and at: "entry_at path i t = Some e" "behind path i t = es"
    using rest by (auto simp: iter_rest_def split: option.splits)
  have f: "filled t" using tree_inv_filled [OF inv t] by simp
  have ne: "\<not> iter_isEnd m it" using iter_end_iff [OF inv wf] rest by simp
  define it' where "it' = it\<lparr>it_cursor := (case nextEntry t path i of Some (_, p, j) \<Rightarrow> Some (p, j) | None \<Rightarrow> end_cursor t)\<rparr>"
  have nx: "iter_next m it = (Some e, it')"
    using ne t c entry_at_node [OF at(1)] by (simp add: iter_next_def it'_def)
  have "iter_wf m it' \<and> iter_rest m it' = es"
    using nextEntry_ok [OF f entry_at_valid [OF at(1)]] at(2) t end_cursor_ok(1) [OF f]
    by (cases "nextEntry t path i") (auto simp: it'_def iter_wf_def iter_rest_def end_cursor_def)
  with nx that [of it'] show ?thesis by (simp add: it'_def)
qed

text \<open>Stepping forward and back again is where one was.\<close>

lemma iter_next_previous:
  assumes inv: "tree_inv m" and wf: "iter_wf m it" and nx: "iter_next m it = (Some e, it')"
  shows "iter_previous m it' = (Some e, it)"
proof -
  have "\<not> iter_isEnd m it" using nx by (auto simp: iter_next_def split: if_splits)
  then obtain y ys where "iter_rest m it = y # ys"
    using iter_end_iff [OF inv wf] by (cases "iter_rest m it") auto
  then obtain t path i where t: "m_root m = Some t" and c: "it_cursor it = Some (path, i)" and "entry_at path i t = Some y"
    by (auto simp: iter_rest_def split: option.splits)
  with nx \<open>\<not> iter_isEnd m it\<close> have at: "entry_at path i t = Some e"
    by (auto simp: iter_next_def dest: entry_at_node)
  have f: "filled t" using tree_inv_filled [OF inv t] by simp
  obtain q j where q: "it' = it\<lparr>it_cursor := Some (q, j)\<rparr>" "valid_pos q j t" "ahead q j t = ahead path i t @ [e]"
  proof (cases "nextEntry t path i")
    case None
    with nextEntry_ok [OF f entry_at_valid [OF at]] have "behind path i t = []" by simp
    with None that [of "[]" "lastIndex t + 1"] nx c t \<open>\<not> iter_isEnd m it\<close> end_cursor_ok [OF f] entry_at_split [OF at]
    show ?thesis by (auto simp: iter_next_def end_cursor_def)
  next
    case (Some r)
    then obtain e' p' j' where r: "nextEntry t path i = Some (e', p', j')" by (cases r) auto
    with nextEntry_ok [OF f entry_at_valid [OF at]] have "behind path i t = e' # behind p' j' t" "entry_at p' j' t = Some e'"
      by simp_all
    with entry_at_split [OF at] entry_at_split [of p' j' t e'] have "ahead p' j' t = ahead path i t @ [e]" by simp
    with r that [of p' j'] nx c t \<open>\<not> iter_isEnd m it\<close> entry_at_valid [OF \<open>entry_at p' j' t = Some e'\<close>]
    show ?thesis by (auto simp: iter_next_def)
  qed
  obtain e0 p0 j0 where pr: "previousEntry t q j = Some (e0, p0, j0)" "ahead q j t = ahead p0 j0 t @ [e0]" "entry_at p0 j0 t = Some e0"
    using previousEntry_ok [OF f q(2)] q(3) by (cases "previousEntry t q j") auto
  have "e0 = e" "ahead p0 j0 t = ahead path i t" using pr(2) q(3) by simp_all
  then have "behind p0 j0 t = behind path i t"
    using entry_at_split [OF at] entry_at_split [OF pr(3)] by simp
  with behind_inj [OF pr(3) at] have "p0 = path" "j0 = i" by simp_all
  with pr(1) q(1) t c \<open>e0 = e\<close> show ?thesis
    by (simp add: iter_previous_def iter_hasPrevious_def hasPreviousEntry_eq)
qed

lemma key_of_opt: "contents m (fst e) = Some (snd e)" if "tree_inv m" "e \<in> set (entries m)"
  using entries_distinct [OF that(1)] that(2) by (simp add: contents_def map_of_is_SomeI)

lemma find_rest:
  assumes "tree_inv m" "m_root m = Some t" "e \<in> set (entries m)"
  shows "iter_wf m \<lparr>it_attached = a, it_cursor = find_cursor t (fst e), it_modification = x\<rparr>"
    "iter_rest m \<lparr>it_attached = a, it_cursor = find_cursor t (fst e), it_modification = x\<rparr> =
       filter (\<lambda>x. fst x \<ge> fst e) (entries m)"
proof -
  note key = key_of_opt [OF assms(1,3)]
  obtain path i where c: "find_cursor t (fst e) = Some (path, i)" "entry_at path i t = Some (fst e, snd e)"
    "ahead path i t = lower_part (fst e) (entries m)" "behind path i t = higher_rest (fst e) (entries m)"
    by (rule find_cursor_ok [OF assms(1,2) key])
  then show "iter_wf m \<lparr>it_attached = a, it_cursor = find_cursor t (fst e), it_modification = x\<rparr>"
    using assms(2) by (simp add: iter_wf_def)
  have "lower_part (fst e) (entries m) @ lower_rest (fst e) (entries m) = lower_part (fst e) (entries m) @ e # higher_rest (fst e) (entries m)"
    using entries_at_key(1) [OF assms(1) key] lower_part_eq [of "fst e" "entries m"] by simp
  then have "lower_rest (fst e) (entries m) = e # higher_rest (fst e) (entries m)" by simp
  with c assms(2) filter_takeWhile_sorted(2) [OF entries_sorted [OF assms(1)], of "fst e"]
  show "iter_rest m \<lparr>it_attached = a, it_cursor = find_cursor t (fst e), it_modification = x\<rparr> =
       filter (\<lambda>x. fst x \<ge> fst e) (entries m)"
    by (simp add: iter_rest_def)
qed

lemma iter_reset_ok:
  assumes inv: "tree_inv m" and r: "iter_reset m (Some k) ceiling = (exact, it)"
  shows "iter_wf m it" "it_attached it" "it_modification it = m_modification m"
    "iter_rest m it = (if ceiling then filter (\<lambda>e. fst e \<ge> k) (entries m)
       else case floorKey k m of None \<Rightarrow> [] | Some k' \<Rightarrow> filter (\<lambda>e. fst e \<ge> k') (entries m))"
proof -
  show "it_attached it" "it_modification it = m_modification m"
    using r by (auto simp: iter_reset_def Let_def split: option.splits if_splits)
  have "iter_wf m it \<and> iter_rest m it = (if ceiling then filter (\<lambda>e. fst e \<ge> k) (entries m)
       else case floorKey k m of None \<Rightarrow> [] | Some k' \<Rightarrow> filter (\<lambda>e. fst e \<ge> k') (entries m))"
  proof (cases "m_root m")
    case None
    with r have "it_cursor it = None" "entries m = []" by (auto simp: iter_reset_def Let_def entries_def)
    with None show ?thesis
      by (auto simp: iter_wf_def iter_rest_def split: option.splits)
  next
    case (Some t)
    let ?x = "if ceiling then ceilingEntry k m else floorEntry k m"
    note nb = neighbours_filter [OF inv, of k]
    have endc: "iter_wf m \<lparr>it_attached = True, it_cursor = end_cursor t, it_modification = m_modification m\<rparr> \<and>
        iter_rest m \<lparr>it_attached = True, it_cursor = end_cursor t, it_modification = m_modification m\<rparr> = []"
      using Some end_cursor_ok(1) [OF tree_inv_filled(1) [OF inv Some]]
      by (simp add: iter_wf_def iter_rest_def end_cursor_def)
    have xk: "(if ceiling then ceilingKey k m else floorKey k m) = map_option fst ?x"
      by (simp add: ceilingKey_def floorKey_def)
    show ?thesis
    proof (cases ?x)
      case None
      with Some r xk have "it = \<lparr>it_attached = True, it_cursor = end_cursor t, it_modification = m_modification m\<rparr>"
        by (auto simp: iter_reset_def Let_def)
      moreover have "ceiling \<Longrightarrow> filter (\<lambda>e. fst e \<ge> k) (entries m) = []" "\<not> ceiling \<Longrightarrow> floorKey k m = None"
        using None nb xk by (auto simp: opt_hd_def split: if_splits)
      ultimately show ?thesis using endc by simp
    next
      case (Some e)
      have "e \<in> set (entries m)"
        using Some nb(3,4) opt_in [of _ e] by (cases ceiling) fastforce+
      moreover have "it = \<lparr>it_attached = True, it_cursor = find_cursor t (fst e), it_modification = m_modification m\<rparr>"
        using Some \<open>m_root m = Some t\<close> r xk by (auto simp: iter_reset_def Let_def)
      moreover have "filter (\<lambda>x. fst x \<ge> fst e) (entries m) = filter (\<lambda>x. fst x \<ge> k) (entries m)" if ce: ceiling
      proof -
        obtain es where es: "filter (\<lambda>e. fst e \<ge> k) (entries m) = e # es"
          using Some ce nb(4) by (auto simp: opt_hd_def neq_Nil_conv split: if_splits)
        have "sorted_wrt (<) (map fst (filter (\<lambda>e. fst e \<ge> k) (entries m)))"
          using entries_sorted [OF inv] by (simp add: sorted_wrt_map sorted_wrt_filter)
        then have "\<forall>x \<in> set (filter (\<lambda>e. fst e \<ge> k) (entries m)). fst e \<le> fst x"
          unfolding es by auto
        moreover have "k \<le> fst e" using filter_eq_ConsD [OF es] by auto
        ultimately show ?thesis by (auto intro!: filter_cong)
      qed
      moreover have "\<not> ceiling \<Longrightarrow> floorKey k m = Some (fst e)" using Some xk by simp
      ultimately show ?thesis
        using find_rest [OF inv \<open>m_root m = Some t\<close>, of e True "m_modification m"] by simp
    qed
  qed
  then show "iter_wf m it" "iter_rest m it = (if ceiling then filter (\<lambda>e. fst e \<ge> k) (entries m)
       else case floorKey k m of None \<Rightarrow> [] | Some k' \<Rightarrow> filter (\<lambda>e. fst e \<ge> k') (entries m))"
    by simp_all
qed

subsection \<open>The iterators keep the contract of an iterator\<close>

interpretation map_iterator: cursor_iterator "iter_hasNext m" "\<lambda>it. Inr (iter_next m it)"
    "\<lambda>it. tree_inv m \<and> iter_wf m it" "iter_rest m" for m :: "('k::linorder, 'v) treemap"
proof unfold_locales
  fix it :: tree_iter and e :: "'k \<times> 'v" and es
  assume ok: "tree_inv m \<and> iter_wf m it"
  then show "iter_hasNext m it \<longleftrightarrow> iter_rest m it \<noteq> []"
    using iter_end_iff [of m it] by (simp add: iter_hasNext_def)
  show "\<exists>it'. Inr (iter_next m it) = Inr (Some e, it') \<and> (tree_inv m \<and> iter_wf m it') \<and> iter_rest m it' = es"
    if "iter_rest m it = e # es"
    using ok that iter_next_ok [of m it e es] by auto
qed

lemma es_next_ok:
  assumes "tree_inv m \<and> iter_ok m it \<and> es_end it = None" "pending m it = e # es"
  shows "\<exists>it'. es_next m it = Inr (Some e, it') \<and> (tree_inv m \<and> iter_ok m it' \<and> es_end it' = None) \<and> pending m it' = es"
proof -
  have na: "\<not> es_atEnd it" using assms(1) by (simp add: es_atEnd_def)
  obtain p i t where "es_next m it = Inr (Some e, it\<lparr>es_entry := Some e, es_start := Some (p, i)\<rparr>)"
    "m_root m = Some t" "entry_at p i t = Some e" "behind p i t = es"
    using es_step(2) [OF _ _ na assms(2)] assms(1) by auto
  with assms(1) entry_at_valid [of p i t e] show ?thesis
    by (auto simp: iter_ok_def pending_def)
qed

interpretation entry_iterator: cursor_iterator "es_hasNext m" "es_next m"
    "\<lambda>it. tree_inv m \<and> iter_ok m it \<and> es_end it = None" "pending m" for m :: "('k::linorder, 'v) treemap"
proof unfold_locales
  fix it :: "('k, 'v) set_iter" and e es
  assume ok: "tree_inv m \<and> iter_ok m it \<and> es_end it = None"
  then show "es_hasNext m it \<longleftrightarrow> pending m it \<noteq> []"
    using es_step(1) [of m it] by (simp add: es_atEnd_def)
  show "\<exists>it'. es_next m it = Inr (Some e, it') \<and> (tree_inv m \<and> iter_ok m it' \<and> es_end it' = None) \<and> pending m it' = es"
    if "pending m it = e # es"
    by (rule es_next_ok [OF ok that])
qed

interpretation key_iterator: cursor_iterator "es_hasNext m" "ks_next m"
    "\<lambda>it. tree_inv m \<and> iter_ok m it \<and> es_end it = None" "\<lambda>it. map fst (pending m it)" for m :: "('k::linorder, 'v) treemap"
proof unfold_locales
  fix it :: "('k, 'v) set_iter" and k :: 'k and ks
  assume ok: "tree_inv m \<and> iter_ok m it \<and> es_end it = None"
  then show "es_hasNext m it \<longleftrightarrow> map fst (pending m it) \<noteq> []"
    using es_step(1) [of m it] by (simp add: es_atEnd_def)
  assume "map fst (pending m it) = k # ks"
  then obtain e es where p: "pending m it = e # es" "k = fst e" "ks = map fst es" by auto
  from es_next_ok [OF ok p(1)] p(2,3) ok
  show "\<exists>it'. ks_next m it = Inr (Some k, it') \<and> (tree_inv m \<and> iter_ok m it' \<and> es_end it' = None) \<and> map fst (pending m it') = ks"
    by (auto simp: ks_next_def es_atEnd_def)
qed

end
