(* ===== verification/ProbeCycle.thy ===== *)
theory ProbeCycle
  imports Prelude
begin

section \<open>The probe increments of the hash tables\<close>

text \<open>
  \<open>HashMap::getIndex\<close> and \<open>HashSet::getIndex\<close> step through a table of \<open>2 ^ n\<close> slots with an
  increment that is doubled and reduced by the polynomial of the table size. The theory
  shows when the increments take every value from \<open>1\<close> to \<open>2 ^ n - 1\<close>: the step is a linear
  bijection of the \<open>n\<close>-bit numbers, and it is a single cycle when the order of \<open>1\<close> is
  \<open>2 ^ n - 1\<close>, which is decided by powers computed with repeated squaring and a factorisation of
  \<open>2 ^ n - 1\<close>. Every polynomial of the table in the source up to \<open>2 ^ 27\<close> slots passes.
\<close>

subsection \<open>The step\<close>

definition next_incr :: "int \<Rightarrow> int \<Rightarrow> int \<Rightarrow> int" where
  "next_incr m poly incr = (let incr = push_bit 1 incr in if incr > m then incr XOR poly else incr)"

definition poly_of :: "nat \<Rightarrow> int \<Rightarrow> bool" where
  "poly_of n poly \<longleftrightarrow> 0 < n \<and> 2 ^ n \<le> poly \<and> poly < 2 ^ Suc n \<and> odd poly"

definition bits_of :: "nat \<Rightarrow> int set" where
  "bits_of n = {0..<2 ^ n}"

abbreviation step :: "nat \<Rightarrow> int \<Rightarrow> int \<Rightarrow> int" where
  "step n poly \<equiv> next_incr (2 ^ n - 1) poly"

lemma xor_eq_zero: "(a :: int) XOR b = 0 \<longleftrightarrow> a = b"
proof
  assume "a XOR b = 0"
  then have "(a XOR b) XOR b = b" by simp
  then show "a = b" by (simp add: xor.assoc)
qed simp

lemma bit_shift: "bit ((v :: int) * 2) i \<longleftrightarrow> 0 < i \<and> bit v (i - 1)"
  by (cases i) (auto simp: bit_Suc bit_0)

lemma bit_range: "v \<in> bits_of n \<longleftrightarrow> (\<forall>i \<ge> n. \<not> bit v i) \<and> 0 \<le> v"
proof -
  have "v \<in> bits_of n \<longleftrightarrow> take_bit n v = v"
    by (auto simp: bits_of_def take_bit_int_eq_self_iff)
  also have "\<dots> \<longleftrightarrow> (\<forall>i \<ge> n. \<not> bit v i)"
    by (metis bit_take_bit_iff bit_eq_iff not_le)
  also have "\<dots> \<longleftrightarrow> (\<forall>i \<ge> n. \<not> bit v i) \<and> 0 \<le> v"
    by (metis calculation bits_of_def atLeastLessThan_iff)
  finally show ?thesis .
qed

lemma bits_of_xor: "u \<in> bits_of n \<Longrightarrow> v \<in> bits_of n \<Longrightarrow> u XOR v \<in> bits_of n"
  by (auto simp: bit_range bit_simps)

lemma top_bit: "v \<in> bits_of (Suc n) \<Longrightarrow> bit v n \<longleftrightarrow> 2 ^ n \<le> v"
proof -
  assume "v \<in> bits_of (Suc n)"
  then have v: "0 \<le> v" "v < 2 * 2 ^ n" by (auto simp: bits_of_def)
  have "bit v n \<longleftrightarrow> odd (v div 2 ^ n)" by (simp add: bit_iff_odd)
  moreover have "v div 2 ^ n = (if 2 ^ n \<le> v then 1 else 0)"
  proof (cases "2 ^ n \<le> v")
    case True
    then have "v div 2 ^ n = 1"
      using v by (intro int_div_pos_eq [where r = "v - 2 ^ n"]) auto
    with True show ?thesis by simp
  next
    case False
    with v show ?thesis by simp
  qed
  ultimately show ?thesis by simp
qed

lemma step_xor:
  assumes "poly_of n poly" "v \<in> bits_of n"
  shows "step n poly v = push_bit 1 v XOR (if bit v (n - 1) then poly else 0)"
proof -
  obtain m where n: "n = Suc m" using assms(1) by (cases n) (auto simp: poly_of_def)
  have "bit v m \<longleftrightarrow> 2 ^ m \<le> v" using top_bit assms(2) n by blast
  then have "bit v m \<longleftrightarrow> push_bit 1 v > 2 ^ n - 1"
    by (auto simp: n push_bit_eq_mult)
  then show ?thesis by (simp add: next_incr_def n)
qed

lemma step_bits:
  assumes "poly_of n poly" "v \<in> bits_of n"
  shows "step n poly v \<in> bits_of n"
proof -
  obtain m where n: "n = Suc m" using assms(1) by (cases n) (auto simp: poly_of_def)
  have p: "poly \<in> bits_of (Suc n)" "bit poly n"
    using assms(1) top_bit [of poly n] by (auto simp: poly_of_def bits_of_def)
  have "\<not> bit (push_bit 1 v XOR (if bit v m then poly else 0)) i" if "i \<ge> n" for i
  proof (cases "i = n")
    case True
    with p(2) show ?thesis by (simp add: bit_simps bit_shift n)
  next
    case False
    with that have "i \<ge> Suc n" by simp
    with p(1) assms(2) show ?thesis by (auto simp: bit_range bit_simps bit_shift n)
  qed
  moreover have "0 \<le> push_bit 1 v XOR (if bit v m then poly else 0)"
    using p(1) assms(2) by (auto simp: bits_of_def)
  ultimately show ?thesis
    unfolding step_xor [OF assms] by (auto simp: bit_range n)
qed

lemma step_linear:
  assumes "poly_of n poly" "u \<in> bits_of n" "v \<in> bits_of n"
  shows "step n poly (u XOR v) = step n poly u XOR step n poly v"
  unfolding step_xor [OF assms(1,2)] step_xor [OF assms(1,3)] step_xor [OF assms(1) bits_of_xor [OF assms(2,3)]]
  by (rule bit_eqI) (auto simp: bit_simps)

lemma step_zero [simp]: "poly_of n poly \<Longrightarrow> step n poly 0 = 0"
  by (subst step_xor) (auto simp: bits_of_def)

lemma step_eq_zero:
  assumes "poly_of n poly" "v \<in> bits_of n" "step n poly v = 0"
  shows "v = 0"
proof (cases "bit v (n - 1)")
  case True
  then have "push_bit 1 v XOR poly = 0" using assms(3) by (simp add: step_xor [OF assms(1,2)])
  then have "push_bit 1 v = poly" by (simp only: xor_eq_zero)
  then have "even poly" by (metis even_push_bit_iff zero_neq_one)
  with assms(1) show ?thesis by (simp add: poly_of_def)
next
  case False
  then show ?thesis using assms(3) by (simp add: step_xor [OF assms(1,2)])
qed

lemma step_inj:
  assumes "poly_of n poly" "u \<in> bits_of n" "v \<in> bits_of n" "step n poly u = step n poly v"
  shows "u = v"
proof -
  have "step n poly (u XOR v) = 0" using assms(4) by (simp add: step_linear [OF assms(1-3)])
  then have "u XOR v = 0" by (rule step_eq_zero [OF assms(1) bits_of_xor [OF assms(2,3)]])
  then show ?thesis by (simp only: xor_eq_zero)
qed

subsection \<open>Powers of the step\<close>

lemma power_bits: "poly_of n poly \<Longrightarrow> v \<in> bits_of n \<Longrightarrow> (step n poly ^^ k) v \<in> bits_of n"
  by (induction k) (simp_all add: step_bits)

lemma power_linear:
  "poly_of n poly \<Longrightarrow> u \<in> bits_of n \<Longrightarrow> v \<in> bits_of n \<Longrightarrow>
     (step n poly ^^ k) (u XOR v) = (step n poly ^^ k) u XOR (step n poly ^^ k) v"
  by (induction k) (simp_all add: step_linear power_bits)

lemma power_zero: "poly_of n poly \<Longrightarrow> (step n poly ^^ k) 0 = 0"
  by (induction k) simp_all

lemma power_inj:
  "poly_of n poly \<Longrightarrow> u \<in> bits_of n \<Longrightarrow> v \<in> bits_of n \<Longrightarrow> (step n poly ^^ k) u = (step n poly ^^ k) v \<Longrightarrow> u = v"
proof (induction k)
  case (Suc k)
  from step_inj [OF Suc.prems(1) power_bits [OF Suc.prems(1,2)] power_bits [OF Suc.prems(1,3)]] Suc
  show ?case by simp
qed simp

lemma one_bits: "poly_of n poly \<Longrightarrow> 1 \<in> bits_of n"
  using one_less_power [of "2 :: int" n] by (auto simp: poly_of_def bits_of_def)

lemma power_nonzero: "poly_of n poly \<Longrightarrow> v \<in> bits_of n \<Longrightarrow> v \<noteq> 0 \<Longrightarrow> (step n poly ^^ k) v \<noteq> 0"
  using power_inj [of n poly v 0 k] by (auto simp: power_zero bits_of_def)

lemma power_cancel:
  assumes "poly_of n poly" "i \<le> j" "(step n poly ^^ i) 1 = (step n poly ^^ j) 1"
  shows "(step n poly ^^ (j - i)) 1 = 1"
proof -
  have "(step n poly ^^ (i + (j - i))) 1 = (step n poly ^^ i) ((step n poly ^^ (j - i)) 1)"
    by (simp only: funpow_add comp_apply)
  then have "(step n poly ^^ j) 1 = (step n poly ^^ i) ((step n poly ^^ (j - i)) 1)"
    using assms(2) by simp
  with assms(3) have "(step n poly ^^ i) 1 = (step n poly ^^ i) ((step n poly ^^ (j - i)) 1)" by simp
  from power_inj [OF assms(1) one_bits [OF assms(1)] power_bits [OF assms(1) one_bits [OF assms(1)]] this]
  show ?thesis by (rule sym)
qed

lemma power_fixed: "(step n poly ^^ d) 1 = 1 \<Longrightarrow> (step n poly ^^ (d * e)) 1 = 1"
  by (induction e) (simp_all add: funpow_add)

text \<open>If no smaller power of the step fixes \<open>1\<close>, its orbit is everything but \<open>0\<close>.\<close>

definition full_cycle :: "nat \<Rightarrow> int \<Rightarrow> bool" where
  "full_cycle n poly \<longleftrightarrow> poly_of n poly \<and> (\<forall>k. 0 < k \<and> k < 2 ^ n - 1 \<longrightarrow> (step n poly ^^ k) 1 \<noteq> 1)"

lemma orbit_one:
  assumes "full_cycle n poly"
  shows "(\<lambda>k. (step n poly ^^ k) 1) ` {..<2 ^ n - 1} = {1..<2 ^ n}"
proof (rule card_subset_eq)
  let ?f = "\<lambda>k. (step n poly ^^ k) 1"
  have p: "poly_of n poly" using assms by (simp add: full_cycle_def)
  show "?f ` {..<2 ^ n - 1} \<subseteq> {1..<2 ^ n}"
  proof (rule image_subsetI)
    fix k
    have "?f k \<in> bits_of n" "?f k \<noteq> 0"
      using power_bits [OF p one_bits [OF p]] power_nonzero [OF p one_bits [OF p]] by auto
    then show "?f k \<in> {1..<2 ^ n}" by (auto simp: bits_of_def)
  qed
  have "inj_on ?f {..<2 ^ n - 1}"
  proof (rule linorder_inj_onI)
    fix i j :: nat
    assume "i < j" "j \<in> {..<2 ^ n - 1}"
    with assms power_cancel [OF p, of i j] show "?f i \<noteq> ?f j" by (auto simp: full_cycle_def)
  qed auto
  then show "card (?f ` {..<2 ^ n - 1}) = card {1..<2 ^ n :: int}"
    by (simp add: card_image nat_diff_distrib nat_power_eq)
qed simp

lemma orbit:
  assumes "full_cycle n poly" "v \<in> {1..<2 ^ n}" "w \<in> {1..<2 ^ n}"
  shows "\<exists>k < 2 ^ n. (step n poly ^^ k) v = w"
proof -
  have p: "poly_of n poly" using assms(1) by (simp add: full_cycle_def)
  obtain i where i: "i < 2 ^ n - 1" "v = (step n poly ^^ i) 1"
    using assms(2) orbit_one [OF assms(1)] by (auto simp: image_iff set_eq_iff)
  have "step n poly ^^ i \<circ> step n poly ^^ j = step n poly ^^ j \<circ> step n poly ^^ i" for j
    by (simp flip: funpow_add add: add.commute)
  then have comm: "(step n poly ^^ j) v = (step n poly ^^ i) ((step n poly ^^ j) 1)" for j
    unfolding i(2) by (metis comp_apply)
  let ?S = "{1..<2 ^ n :: int}"
  have "inj_on (step n poly ^^ i) ?S"
    using power_inj [OF p] by (intro inj_onI) (auto simp: bits_of_def)
  moreover have "(step n poly ^^ i) ` ?S \<subseteq> ?S"
  proof (rule image_subsetI)
    fix u assume "u \<in> ?S"
    then have "u \<in> bits_of n" "u \<noteq> 0" by (auto simp: bits_of_def)
    then have "(step n poly ^^ i) u \<in> bits_of n" "(step n poly ^^ i) u \<noteq> 0"
      using power_bits [OF p] power_nonzero [OF p] by blast+
    then show "(step n poly ^^ i) u \<in> ?S" by (auto simp: bits_of_def)
  qed
  ultimately have "(step n poly ^^ i) ` ?S = ?S" by (simp add: endo_inj_surj)
  then obtain u where "u \<in> ?S" "w = (step n poly ^^ i) u" using assms(3) by blast
  moreover then obtain j where "j < 2 ^ n - 1" "u = (step n poly ^^ j) 1"
    using orbit_one [OF assms(1)] by (auto simp: image_iff set_eq_iff)
  ultimately show ?thesis using comm [of j] by (intro exI [of _ j]) auto
qed

subsection \<open>The order of the step\<close>

definition prime_number :: "nat \<Rightarrow> bool" where
  "prime_number p \<longleftrightarrow> 1 < p \<and> (\<forall>d. d dvd p \<longrightarrow> d = 1 \<or> d = p)"

lemma divisor_has_factor:
  assumes "list_all prime_number ps" "e dvd prod_list ps" "1 < e"
  shows "\<exists>p \<in> set ps. p dvd e"
  using assms
proof (induction ps)
  case (Cons p ps)
  show ?case
  proof (cases "p dvd e")
    case False
    have "gcd p e = 1 \<or> gcd p e = p" using Cons.prems(1) by (simp add: prime_number_def)
    with False have "coprime e p" by (metis coprime_iff_gcd_eq_1 gcd.commute gcd_dvd1)
    with Cons.prems(2) have "e dvd prod_list ps" by (simp add: coprime_dvd_mult_right_iff)
    with Cons show ?thesis by simp
  qed simp
qed simp

lemma full_cycleI:
  assumes poly: "poly_of n poly" and primes: "list_all prime_number ps" "prod_list ps = 2 ^ n - 1"
    and one: "(step n poly ^^ (2 ^ n - 1)) 1 = 1"
    and other: "\<And>p. p \<in> set ps \<Longrightarrow> (step n poly ^^ ((2 ^ n - 1) div p)) 1 \<noteq> 1"
  shows "full_cycle n poly"
  unfolding full_cycle_def
proof (intro conjI allI impI notI)
  fix k
  assume k: "0 < k \<and> k < 2 ^ n - 1" and fix1: "(step n poly ^^ k) 1 = 1"
  let ?N = "2 ^ n - 1 :: nat"
  define d where "d = (LEAST d. 0 < d \<and> (step n poly ^^ d) 1 = 1)"
  have d: "0 < d" "(step n poly ^^ d) 1 = 1"
    unfolding d_def using LeastI [of "\<lambda>d. 0 < d \<and> (step n poly ^^ d) 1 = 1" k] k fix1 by auto
  have least: "d \<le> i" if "0 < i" "(step n poly ^^ i) 1 = 1" for i
    unfolding d_def using that by (intro Least_le) simp
  have "(step n poly ^^ (d * (?N div d))) 1 = (step n poly ^^ ?N) 1"
    using one power_fixed [OF d(2)] by simp
  then have "(step n poly ^^ (?N mod d)) 1 = 1"
    using power_cancel [OF poly, of "d * (?N div d)" ?N] by (simp add: minus_mult_div_eq_mod)
  with least [of "?N mod d"] d(1) have "d dvd ?N"
    by (metis mod_eq_0_iff_dvd mod_less_divisor neq0_conv not_le)
  then obtain e where e: "?N = d * e" by blast
  have "1 < e"
    using least [of k] k fix1 e by (cases "e = 0 \<or> e = 1") auto
  moreover have "e dvd prod_list ps" using primes(2) e by simp
  ultimately obtain p where p: "p \<in> set ps" "p dvd e" using divisor_has_factor [OF primes(1)] by blast
  then have "0 < p" using primes(1) by (auto simp: list_all_iff prime_number_def)
  with p(2) e have "?N div p = d * (e div p)" by (auto simp: div_mult_swap)
  with other [OF p(1)] power_fixed [OF d(2)] show False by metis
qed (rule poly)

subsection \<open>Computing powers\<close>

text \<open>
  The powers are computed on lists of bits, the highest bit first: \<open>ps\<close> is the polynomial
  without its highest bit.
\<close>

definition bits_val :: "bool list \<Rightarrow> int \<Rightarrow> int" where
  "bits_val bs k = foldl (\<lambda>k b. if b then 2 * k + 1 else 2 * k) k bs"

fun xors :: "bool list \<Rightarrow> bool list \<Rightarrow> bool list" where
  "xors (a # as) (b # bs) = (a \<noteq> b) # xors as bs"
| "xors _ bs = bs"

fun bits_step :: "bool list \<Rightarrow> bool list \<Rightarrow> bool list" where
  "bits_step ps (True # as) = xors (as @ [False]) ps"
| "bits_step ps (False # as) = as @ [False]"
| "bits_step ps [] = []"

fun bits_mult :: "bool list \<Rightarrow> bool list \<Rightarrow> bool list \<Rightarrow> bool list \<Rightarrow> bool list" where
  "bits_mult ps acc [] v = acc"
| "bits_mult ps acc (True # as) v = bits_mult ps (xors (bits_step ps acc) v) as v"
| "bits_mult ps acc (False # as) v = bits_mult ps (bits_step ps acc) as v"

fun bits_power :: "bool list \<Rightarrow> bool list \<Rightarrow> bool list \<Rightarrow> bool list \<Rightarrow> bool list" where
  "bits_power ps zero [] a = a"
| "bits_power ps zero (True # bs) a = bits_power ps zero bs (bits_step ps (bits_mult ps zero a a))"
| "bits_power ps zero (False # bs) a = bits_power ps zero bs (bits_mult ps zero a a)"

fun bits_be :: "nat \<Rightarrow> int \<Rightarrow> bool list" where
  "bits_be 0 v = []"
| "bits_be (Suc n) v = bits_be n (v div 2) @ [odd v]"

lemma bits_val_simps [simp]:
  "bits_val [] k = k"
  "bits_val (True # bs) k = bits_val bs (2 * k + 1)"
  "bits_val (False # bs) k = bits_val bs (2 * k)"
  "bits_val (bs @ [b]) k = (if b then 2 * bits_val bs k + 1 else 2 * bits_val bs k)"
  by (simp_all add: bits_val_def)

lemma bits_val_start: "bits_val bs k = k * 2 ^ length bs + bits_val bs 0"
proof (induction bs arbitrary: k rule: rev_induct)
  case (snoc b bs)
  show ?case by (simp add: snoc [of k] algebra_simps)
qed simp

lemma bits_val_range: "bits_val bs 0 \<in> bits_of (length bs)"
  by (induction bs rule: rev_induct) (auto simp: bits_of_def)

lemma length_xors [simp]: "length as = length bs \<Longrightarrow> length (xors as bs) = length bs"
  by (induction as bs rule: xors.induct) auto

lemma xors_snoc: "length as = length bs \<Longrightarrow> xors (as @ [a]) (bs @ [b]) = xors as bs @ [a \<noteq> b]"
  by (induction as bs rule: xors.induct) auto

lemma xor_double:
  "(2 * k) XOR (2 * l) = 2 * (k XOR l)" "(2 * k + 1) XOR (2 * l) = 2 * (k XOR l) + 1"
  "(2 * k) XOR (2 * l + 1) = 2 * (k XOR l) + 1" "(2 * k + 1) XOR (2 * l + 1) = 2 * (k XOR l)" for k l :: int
  by (subst xor_rec; simp)+

lemma bits_val_xors: "length as = length bs \<Longrightarrow> bits_val (xors as bs) 0 = bits_val as 0 XOR bits_val bs 0"
proof (induction as arbitrary: bs rule: rev_induct)
  case (snoc a as)
  then obtain b bs' where "bs = bs' @ [b]" "length as = length bs'"
    by (cases bs rule: rev_cases) auto
  with snoc.IH show ?case by (auto simp: xors_snoc xor_double)
qed simp

lemma length_bits_step [simp]: "length ps = length as \<Longrightarrow> length (bits_step ps as) = length as"
  by (cases "(ps, as)" rule: bits_step.cases) auto

lemma length_bits_be [simp]: "length (bits_be n v) = n"
  by (induction n arbitrary: v) auto

lemma bits_val_be: "v \<in> bits_of n \<Longrightarrow> bits_val (bits_be n v) 0 = v"
proof (induction n arbitrary: v)
  case (Suc n)
  then have "v div 2 \<in> bits_of n" by (auto simp: bits_of_def)
  from Suc.IH [OF this] show ?case by auto
qed (simp add: bits_of_def)


text \<open>The list operations compute the step and its powers.\<close>

lemma top_xor: "x \<in> bits_of n \<Longrightarrow> 2 ^ n + x = 2 ^ n XOR x"
proof -
  assume x: "x \<in> bits_of n"
  then have d: "\<not> bit (2 ^ n) i \<or> \<not> bit x i" for i by (auto simp: bit_range bit_simps)
  then have "2 ^ n + x = 2 ^ n OR x" by (rule disjunctive_add)
  also have "\<dots> = 2 ^ n XOR x" using d by (intro bit_eqI) (auto simp: bit_or_iff bit_xor_iff)
  finally show ?thesis .
qed

lemma step_top:
  assumes "poly_of n poly" "k < n"
  shows "(step n poly ^^ k) 1 = 2 ^ k"
  using assms(2)
proof (induction k)
  case (Suc k)
  then have "(2 :: int) * 2 ^ k \<le> 2 ^ n - 1"
    using power_strict_increasing [of "Suc k" n "2 :: int"] by simp
  with Suc show ?case by (simp add: next_incr_def)
qed simp

lemma bits_step_val:
  assumes "poly_of n poly" "length ps = n" "bits_val ps 0 = poly - 2 ^ n" "length as = n"
  shows "bits_val (bits_step ps as) 0 = step n poly (bits_val as 0)"
proof -
  obtain a as' where as: "as = a # as'" "n = Suc (length as')"
    using assms(1,4) by (cases as) (auto simp: poly_of_def)
  note v = bits_val_range [of as', unfolded bits_of_def]
  show ?thesis
  proof (cases a)
    case True
    have "bits_val as 0 = 2 ^ length as' + bits_val as' 0"
      using True as bits_val_start [of as' 1] by simp
    then have e: "push_bit 1 (bits_val as 0) = 2 ^ n + 2 * bits_val as' 0" by (simp add: as(2))
    have "step n poly (bits_val as 0) = (2 ^ n + 2 * bits_val as' 0) XOR poly"
      unfolding next_incr_def e using v by (simp add: Let_def)
    also have "\<dots> = (2 * bits_val as' 0) XOR (poly - 2 ^ n)"
    proof -
      have "2 * bits_val as' 0 \<in> bits_of n" "poly - 2 ^ n \<in> bits_of n"
        using v assms(1) as(2) by (auto simp: bits_of_def poly_of_def)
      then have "2 ^ n + 2 * bits_val as' 0 = 2 ^ n XOR (2 * bits_val as' 0)" "poly = 2 ^ n XOR (poly - 2 ^ n)"
        using top_xor [of "2 * bits_val as' 0" n] top_xor [of "poly - 2 ^ n" n] by simp_all
      then show ?thesis by (metis xor.assoc xor.commute xor.left_neutral xor_self_eq)
    qed
    finally show ?thesis using assms(2,3) True as by (simp add: bits_val_xors)
  next
    case False
    with v as show ?thesis by (simp add: next_incr_def)
  qed
qed

lemma bits_mult_val:
  assumes "poly_of n poly" "length ps = n" "bits_val ps 0 = poly - 2 ^ n" "length v = n"
    "bits_val v 0 = (step n poly ^^ b) 1"
  shows "length acc = n \<Longrightarrow> length as \<le> n \<Longrightarrow> length (bits_mult ps acc as v) = n \<and>
     bits_val (bits_mult ps acc as v) 0 = (step n poly ^^ length as) (bits_val acc 0) XOR (step n poly ^^ b) (bits_val as 0)"
proof (induction as arbitrary: acc)
  case Nil
  then show ?case using power_zero [OF assms(1)] by simp
next
  case (Cons a as)
  let ?T = "step n poly"
  have acc: "bits_val acc 0 \<in> bits_of n" using bits_val_range [of acc] Cons.prems(1) by simp
  have s: "bits_val (bits_step ps acc) 0 = ?T (bits_val acc 0)" "length (bits_step ps acc) = n"
    using bits_step_val [OF assms(1-3) Cons.prems(1)] Cons.prems(1) assms(2) by simp_all
  have as: "bits_val as 0 \<in> bits_of n"
    using bits_val_range [of as] Cons.prems(2) by (auto simp: bit_range)
  show ?case
  proof (cases a)
    case False
    with Cons.IH [OF s(2)] Cons.prems(2) s(1) show ?thesis by (simp add: funpow_swap1)
  next
    case True
    have lead: "bits_val (a # as) 0 = (?T ^^ length as) 1 XOR bits_val as 0"
      using True bits_val_start [of as 1] top_xor [OF bits_val_range [of as]] step_top [OF assms(1), of "length as"]
        Cons.prems(2) by simp
    have swap: "(?T ^^ length as) ((?T ^^ b) 1) = (?T ^^ b) ((?T ^^ length as) 1)"
      by (metis add.commute comp_apply funpow_add)
    have x: "bits_val (xors (bits_step ps acc) v) 0 = ?T (bits_val acc 0) XOR (?T ^^ b) 1"
      "length (xors (bits_step ps acc) v) = n"
      using s assms(4,5) by (simp_all add: bits_val_xors)
    have "(?T ^^ length as) (?T (bits_val acc 0) XOR (?T ^^ b) 1) XOR (?T ^^ b) (bits_val as 0) =
        (?T ^^ Suc (length as)) (bits_val acc 0) XOR ((?T ^^ b) ((?T ^^ length as) 1) XOR (?T ^^ b) (bits_val as 0))"
      using power_linear [OF assms(1) step_bits [OF assms(1) acc] power_bits [OF assms(1) one_bits [OF assms(1)]], of "length as" b]
      swap by (simp add: funpow_swap1 xor.assoc)
    also have "\<dots> = (?T ^^ Suc (length as)) (bits_val acc 0) XOR (?T ^^ b) (bits_val (a # as) 0)"
      unfolding lead using power_linear [OF assms(1) power_bits [OF assms(1) one_bits [OF assms(1)]] as] by simp
    finally show ?thesis using Cons.IH [OF x(2)] Cons.prems(2) x(1) True by simp
  qed
qed

lemma bits_val_nonneg: "0 \<le> k \<Longrightarrow> 0 \<le> bits_val bs k"
  by (induction bs rule: rev_induct) auto

lemma nat_double: "0 \<le> k \<Longrightarrow> nat (2 * k) = nat k + nat k" "0 \<le> k \<Longrightarrow> nat (2 * k + 1) = Suc (nat k + nat k)"
  by linarith+

lemma bits_power_val:
  assumes "poly_of n poly" "length ps = n" "bits_val ps 0 = poly - 2 ^ n" "length zero = n" "bits_val zero 0 = 0"
  shows "0 \<le> k \<Longrightarrow> length a = n \<Longrightarrow> bits_val a 0 = (step n poly ^^ nat k) 1 \<Longrightarrow>
     length (bits_power ps zero bs a) = n \<and> bits_val (bits_power ps zero bs a) 0 = (step n poly ^^ nat (bits_val bs k)) 1"
proof (induction bs arbitrary: a k)
  case (Cons b bs)
  let ?T = "step n poly" and ?sq = "bits_mult ps zero a a"
  have sq: "length ?sq = n" "bits_val ?sq 0 = (?T ^^ (nat k + nat k)) 1"
    using bits_mult_val [OF assms(1-3) Cons.prems(2,3) assms(4), of a] Cons.prems(2,3) assms(5) power_zero [OF assms(1)]
    by (simp_all add: funpow_add)
  moreover have "bits_val (bits_step ps ?sq) 0 = (?T ^^ Suc (nat k + nat k)) 1" "length (bits_step ps ?sq) = n"
    using bits_step_val [OF assms(1-3) sq(1)] sq assms(2) by simp_all
  ultimately show ?case
    using Cons.IH [of "2 * k + 1" "bits_step ps ?sq"] Cons.IH [of "2 * k" ?sq] Cons.prems(1)
    by (cases b) (auto simp: nat_double simp del: funpow.simps)
qed simp

subsection \<open>Primality\<close>

function no_odd_divisor :: "int \<Rightarrow> int \<Rightarrow> bool" where
  "no_odd_divisor p d = (if p < d * d \<or> d < 1 then True else p mod d \<noteq> 0 \<and> no_odd_divisor p (d + 2))"
  by pat_completeness auto
termination
proof (relation "measure (\<lambda>(p, d). nat (p + 1 - d))", goal_cases)
  case (2 p d)
  then have "d * 1 \<le> d * d" by (intro mult_left_mono) auto
  with 2 have "d \<le> p" by linarith
  with 2 show ?case by auto
qed simp

declare no_odd_divisor.simps [simp del]

definition odd_prime :: "int \<Rightarrow> bool" where
  "odd_prime p \<longleftrightarrow> 1 < p \<and> odd p \<and> no_odd_divisor p 3"

lemma odd_prime_pos: "odd_prime p \<Longrightarrow> 0 < p"
  unfolding odd_prime_def by linarith

lemma no_odd_divisor_dvd:
  "no_odd_divisor p d \<Longrightarrow> odd d \<Longrightarrow> 0 < d \<Longrightarrow> odd i \<Longrightarrow> d \<le> i \<Longrightarrow> i * i \<le> p \<Longrightarrow> \<not> i dvd p"
proof (induction p d rule: no_odd_divisor.induct)
  case (1 p d)
  have "d * d \<le> i * i" using 1 by (intro mult_mono) auto
  then have "d * d \<le> p" using 1 by simp
  with 1 have p: "p mod d \<noteq> 0" "no_odd_divisor p (d + 2)" using no_odd_divisor.simps [of p d] by auto
  show ?case
  proof (cases "i = d")
    case True
    with p(1) show ?thesis by (simp add: mod_eq_0_iff_dvd)
  next
    case False
    then have "d < i" "i \<noteq> d + 1" using 1(3,5,6) by auto
    then have "d + 2 \<le> i" by simp
    with 1 p \<open>d * d \<le> p\<close> show ?thesis by simp
  qed
qed

lemma odd_prime_number:
  assumes "odd_prime p"
  shows "prime_number (nat p)"
  unfolding prime_number_def
proof (intro conjI allI impI)
  show "1 < nat p" using assms by (simp add: odd_prime_def)
  fix d
  assume "d dvd nat p"
  then obtain e where e: "nat p = d * e" by blast
  then have pe: "p = int d * int e" using assms by (metis int_nat_eq less_le_not_le less_trans odd_prime_def of_nat_mult zero_less_one)
  have small: "i = 1" if "i * i \<le> p" "i dvd p" "0 < i" for i
  proof (rule ccontr)
    assume "i \<noteq> 1"
    moreover have "odd i" using that(2) assms dvd_trans [of 2 i p] by (auto simp: odd_prime_def)
    ultimately have "3 \<le> i" using that(3) by (auto elim!: oddE)
    with that \<open>odd i\<close> assms no_odd_divisor_dvd [of p 3 i] show False by (simp add: odd_prime_def)
  qed
  have pos: "0 < int d" "0 < int e" using pe assms by (auto simp: odd_prime_def intro: ccontr)
  have "int d * int d \<le> p \<or> int e * int e \<le> p"
    using pe pos by (cases "int d \<le> int e") (auto intro: mult_mono)
  then show "d = 1 \<or> d = nat p" using small [of "int d"] small [of "int e"] pe pos e by auto
qed

subsection \<open>The test of a polynomial\<close>

definition cycle_check :: "nat \<Rightarrow> int \<Rightarrow> int list \<Rightarrow> bool" where
  "cycle_check n poly qs \<longleftrightarrow>
     (let ps = bits_be n (poly - 2 ^ n); zero = bits_be n 0; one = bits_be n 1; top = 2 ^ n - 1 in
      0 < n \<and> 2 ^ n \<le> poly \<and> poly < 2 ^ Suc n \<and> odd poly \<and> prod_list qs = top \<and> list_all odd_prime qs \<and>
      bits_power ps zero (bits_be n top) one = one \<and>
      list_all (\<lambda>q. bits_power ps zero (bits_be n (top div q)) one \<noteq> one) qs)"

lemma bits_be_inj: "length as = n \<Longrightarrow> bits_val as 0 = v \<Longrightarrow> bits_be n v = as"
proof (induction n arbitrary: as v)
  case (Suc n)
  then obtain b bs where "as = bs @ [b]" by (cases as rule: rev_cases) auto
  with Suc show ?case by (cases b) auto
qed simp

lemma prod_list_nat: "list_all (\<lambda>q. 0 < q) qs \<Longrightarrow> prod_list (map nat qs) = nat (prod_list qs)"
  by (induction qs) (auto simp: nat_mult_distrib)

lemma cycle_checkI:
  assumes "cycle_check n poly qs"
  shows "full_cycle n poly"
proof (rule full_cycleI)
  define ps where "ps = bits_be n (poly - 2 ^ n)"
  have c: "poly_of n poly" "prod_list qs = 2 ^ n - 1" "list_all odd_prime qs"
    "bits_power ps (bits_be n 0) (bits_be n (2 ^ n - 1)) (bits_be n 1) = bits_be n 1"
    "\<And>q. q \<in> set qs \<Longrightarrow> bits_power ps (bits_be n 0) (bits_be n ((2 ^ n - 1) div q)) (bits_be n 1) \<noteq> bits_be n 1"
    using assms unfolding cycle_check_def poly_of_def ps_def list_all_iff Let_def by blast+
  have val: "bits_val (bits_be n v) 0 = v" if "0 \<le> v" "v < 2 ^ n" for v
    using that by (simp add: bits_val_be bits_of_def)
  have one: "bits_val (bits_be n 1) 0 = 1" "bits_val (bits_be n 0) 0 = 0"
    using one_bits [OF c(1)] by (simp_all add: bits_val_be bits_of_def)
  have ps: "length ps = n" "bits_val ps 0 = poly - 2 ^ n"
    using c(1) val [of "poly - 2 ^ n"] by (simp_all add: ps_def poly_of_def)
  have pow: "(step n poly ^^ nat v) 1 = bits_val (bits_power ps (bits_be n 0) (bits_be n v) (bits_be n 1)) 0"
    if "0 \<le> v" "v < 2 ^ n" for v
    using bits_power_val [OF c(1) ps length_bits_be one(2), of 0 "bits_be n 1" "bits_be n v"] one val [OF that] by simp
  show "poly_of n poly" by (fact c)
  show "list_all prime_number (map nat qs)"
    using c(3) odd_prime_number by (auto simp: list_all_iff)
  have pos: "list_all (\<lambda>q. 0 < q) qs" using c(3) odd_prime_pos by (simp add: list_all_iff)
  have top: "nat (2 ^ n - 1) = 2 ^ n - 1" by (simp add: nat_diff_distrib nat_power_eq)
  show "prod_list (map nat qs) = 2 ^ n - 1" using prod_list_nat [OF pos] c(2) top by simp
  show "(step n poly ^^ (2 ^ n - 1)) 1 = 1" using pow [of "2 ^ n - 1"] c(4) one top by simp
  fix p
  assume "p \<in> set (map nat qs)"
  then obtain q where q: "q \<in> set qs" "p = nat q" by auto
  have qpos: "0 < q" using q pos by (auto simp: list_all_iff)
  have e: "(2 ^ n - 1) div p = nat ((2 ^ n - 1) div q)"
    using qpos q(2) top by (simp add: nat_div_distrib)
  have "(2 ^ n - 1) div q \<le> 2 ^ n - 1" using qpos zdiv_mono2 [of "2 ^ n - 1" 1 q] by simp
  then have r: "0 \<le> (2 ^ n - 1) div q" "(2 ^ n - 1) div q < 2 ^ n" using qpos by (simp_all add: pos_imp_zdiv_nonneg_iff)
  have len: "length (bits_power ps (bits_be n 0) bs (bits_be n 1)) = n" for bs
    using bits_power_val [OF c(1) ps length_bits_be one(2), of 0 "bits_be n 1" bs] one by simp
  show "(step n poly ^^ ((2 ^ n - 1) div p)) 1 \<noteq> 1"
    using pow [OF r] c(5) [OF q(1)] bits_be_inj [OF len, of "bits_be n ((2 ^ n - 1) div q)" 1] unfolding e by auto
qed

subsection \<open>The polynomials of the hash tables\<close>

text \<open>Each is tested with the prime factors of \<open>2 ^ n - 1\<close>.\<close>

lemma cycle_2: "full_cycle 2 7"
  by (rule cycle_checkI [where qs = "[3]"]) code_simp

lemma cycle_3: "full_cycle 3 11"
  by (rule cycle_checkI [where qs = "[7]"]) code_simp

lemma cycle_4: "full_cycle 4 19"
  by (rule cycle_checkI [where qs = "[3, 5]"]) code_simp

lemma cycle_5: "full_cycle 5 37"
  by (rule cycle_checkI [where qs = "[31]"]) code_simp

lemma cycle_6: "full_cycle 6 67"
  by (rule cycle_checkI [where qs = "[3, 3, 7]"]) code_simp

lemma cycle_7: "full_cycle 7 131"
  by (rule cycle_checkI [where qs = "[127]"]) code_simp

lemma cycle_8: "full_cycle 8 285"
  by (rule cycle_checkI [where qs = "[3, 5, 17]"]) code_simp

lemma cycle_9: "full_cycle 9 529"
  by (rule cycle_checkI [where qs = "[7, 73]"]) code_simp

lemma cycle_10: "full_cycle 10 1033"
  by (rule cycle_checkI [where qs = "[3, 11, 31]"]) code_simp

lemma cycle_11: "full_cycle 11 2053"
  by (rule cycle_checkI [where qs = "[23, 89]"]) code_simp

lemma cycle_12: "full_cycle 12 4179"
  by (rule cycle_checkI [where qs = "[3, 3, 5, 7, 13]"]) code_simp

lemma cycle_13: "full_cycle 13 8219"
  by (rule cycle_checkI [where qs = "[8191]"]) code_simp

lemma cycle_14: "full_cycle 14 16427"
  by (rule cycle_checkI [where qs = "[3, 43, 127]"]) code_simp

lemma cycle_15: "full_cycle 15 32771"
  by (rule cycle_checkI [where qs = "[7, 31, 151]"]) code_simp

lemma cycle_16: "full_cycle 16 65581"
  by (rule cycle_checkI [where qs = "[3, 5, 17, 257]"]) code_simp

lemma cycle_17: "full_cycle 17 131081"
  by (rule cycle_checkI [where qs = "[131071]"]) code_simp

lemma cycle_18: "full_cycle 18 262183"
  by (rule cycle_checkI [where qs = "[3, 3, 3, 7, 19, 73]"]) code_simp

lemma cycle_19: "full_cycle 19 524327"
  by (rule cycle_checkI [where qs = "[524287]"]) code_simp

lemma cycle_20: "full_cycle 20 1048585"
  by (rule cycle_checkI [where qs = "[3, 5, 5, 11, 31, 41]"]) code_simp

lemma cycle_21: "full_cycle 21 2097157"
  by (rule cycle_checkI [where qs = "[7, 7, 127, 337]"]) code_simp

lemma cycle_22: "full_cycle 22 4194307"
  by (rule cycle_checkI [where qs = "[3, 23, 89, 683]"]) code_simp

lemma cycle_23: "full_cycle 23 8388641"
  by (rule cycle_checkI [where qs = "[47, 178481]"]) code_simp

lemma cycle_24: "full_cycle 24 16777243"
  by (rule cycle_checkI [where qs = "[3, 3, 5, 7, 13, 17, 241]"]) code_simp

lemma cycle_25: "full_cycle 25 33554441"
  by (rule cycle_checkI [where qs = "[31, 601, 1801]"]) code_simp

lemma cycle_26: "full_cycle 26 67108935"
  by (rule cycle_checkI [where qs = "[3, 2731, 8191]"]) code_simp

lemma cycle_27: "full_cycle 27 134217767"
  by (rule cycle_checkI [where qs = "[7, 73, 262657]"]) code_simp

lemmas cycles =
  cycle_2 cycle_3 cycle_4 cycle_5 cycle_6 cycle_7 cycle_8 cycle_9 cycle_10 cycle_11 cycle_12 cycle_13 cycle_14
  cycle_15 cycle_16 cycle_17 cycle_18 cycle_19 cycle_20 cycle_21 cycle_22 cycle_23 cycle_24 cycle_25 cycle_26
  cycle_27

end
