(* ===== verification/HashTable.thy ===== *)
theory HashTable
  imports ProbeCycle Contracts
begin

section \<open>The table of the hash containers\<close>

text \<open>
  The open-addressing table that \<open>HashMap\<close> (\<^verbatim>\<open>src/PLATFORM/src/main/native/cxx/util/HashMap.h\<close>,
  \<^verbatim>\<open>HashMap.cxx\<close>) and \<open>HashSet\<close> (\<^verbatim>\<open>HashSet.h\<close>, \<^verbatim>\<open>HashSet.cxx\<close>) are both written with. A slot holds
  null, the reserve mark of a removed entry, or an entry. The counters are C \<open>int\<close>s: a result
  outside the type is the fault \<open>Overflow\<close>. The search loop has no exit of its own: a search
  that never stops is the fault \<open>NoReturn\<close>.
\<close>

subsection \<open>Data\<close>

datatype 'e slot = Null | Reserve | Entry (the_entry: 'e)

text \<open>
  What the element type brings: the key of an entry, \<open>Converter<K>::hashCode\<close>, the size of a slot
  in bytes. \<open>Converter<K>::equals\<close> is the equality of the model's keys.
\<close>

record ('e, 'k) converter =
  keyOf :: "'e \<Rightarrow> 'k"
  hashCode :: "'k \<Rightarrow> int"
  slotSize :: int

text \<open>\<open>HashSet\<close> has no \<open>m_capacity\<close>; its operations do not read the field.\<close>

record 'e hashtable =
  h_poly :: int
  h_fill :: int
  h_size :: int
  h_capacity :: int
  h_entries :: int
  h_stateFlags :: ubytetype
  h_table :: "'e slot list option"

definition RESIZE_FACTOR :: int where "RESIZE_FACTOR = 2"

definition RESIZE_LOW_WATER :: int where "RESIZE_LOW_WATER = 8"

definition RESIZE_HIGH_WATER :: int where "RESIZE_HIGH_WATER = 3"

definition INITIAL_CAPACITY :: int where "INITIAL_CAPACITY = 16"

definition POLYS :: "int list" where
  "POLYS = [4 + 3, 8 + 3, 16 + 3, 32 + 5, 64 + 3, 128 + 3, 256 + 29, 512 + 17, 1024 + 9, 2048 + 5,
     4096 + 83, 8192 + 27, 16384 + 43, 32768 + 3, 65536 + 45, 131072 + 9, 262144 + 39, 524288 + 39,
     1048576 + 9, 2097152 + 5, 4194304 + 3, 8388608 + 33, 16777216 + 27, 33554432 + 9, 67108864 + 71,
     134217728 + 39, 268435456 + 9, 536870912 + 5, 1073741824 + 83, 0]"

definition getFixed :: "'e hashtable \<Rightarrow> bool" where
  "getFixed h \<longleftrightarrow> h_stateFlags h AND 0x01 \<noteq> 0"

subsection \<open>Searching\<close>

text \<open>When the search stops at a slot; \<open>match\<close> asks for the key itself.\<close>

fun stops :: "('e, 'k) converter \<Rightarrow> 'k \<Rightarrow> bool \<Rightarrow> 'e slot \<Rightarrow> bool" where
  "stops c key match Null \<longleftrightarrow> True"
| "stops c key match Reserve \<longleftrightarrow> \<not> match"
| "stops c key match (Entry e) \<longleftrightarrow> keyOf c e = key"

text \<open>\<open>unsigned int mask = m_size - 1\<close>.\<close>

definition size_mask :: "'e hashtable \<Rightarrow> int" where
  "size_mask h = (h_size h - 1) mod 2 ^ 32"

definition first_index :: "int \<Rightarrow> int \<Rightarrow> int" where
  "first_index m hash = NOT hash AND m"

definition first_incr :: "int \<Rightarrow> int \<Rightarrow> int \<Rightarrow> int" where
  "first_incr m poly hash =
     (let incr = (hash XOR drop_bit 3 hash) AND m in
      if incr = 0 then m else if incr > m then incr XOR poly else incr)"

partial_function (option) probe_loop :: "('e slot \<Rightarrow> bool) \<Rightarrow> 'e slot list \<Rightarrow> int \<Rightarrow> int \<Rightarrow> int \<Rightarrow> int \<Rightarrow> nat result option" where
  "probe_loop stop table m poly i incr =
     (let index = nat ((i + incr) AND m) in
      case peek table index of
        Inl e \<Rightarrow> Some (Inl e)
      | Inr p \<Rightarrow> if stop p then Some (Inr index) else probe_loop stop table m poly i (next_incr m poly incr))"

declare probe_loop.simps [code]

definition getIndex :: "('e, 'k) converter \<Rightarrow> 'k \<Rightarrow> bool \<Rightarrow> 'e hashtable \<Rightarrow> nat result" where
  "getIndex c key match h =
     (case h_table h of
        None \<Rightarrow> Inl NullDeref
      | Some table \<Rightarrow>
          (let hash = hashCode c key; m = size_mask h; i = first_index m hash in
           rbind (peek table (nat i)) (\<lambda>p.
             if stops c key match p then Inr (nat i)
             else case probe_loop (stops c key match) table m (h_poly h) i (first_incr m (h_poly h) hash) of
               None \<Rightarrow> Inl NoReturn
             | Some r \<Rightarrow> r)))"

subsection \<open>Inserting and resizing\<close>

definition insertObject :: "'e slot \<Rightarrow> nat \<Rightarrow> 'e hashtable \<Rightarrow> ('e slot \<times> 'e hashtable) result" where
  "insertObject x index h =
     (case h_table h of
        None \<Rightarrow> Inl NullDeref
      | Some table \<Rightarrow>
          rbind (peek table index) (\<lambda>old.
          rbind (int32 (if old = Null then h_fill h + 1 else h_fill h)) (\<lambda>fill.
          rbind (int32 (h_entries h + 1)) (\<lambda>entries.
            Inr (old, h\<lparr>h_fill := fill, h_table := Some (table[index := x]), h_entries := entries\<rparr>)))))"

text \<open>The loop that chooses the size: \<open>None\<close> is the early return of \<open>-1\<close>.\<close>

function size_loop :: "nat \<Rightarrow> int \<Rightarrow> int \<Rightarrow> (int \<times> int) option result" where
  "size_loop i sz minused =
     (if i > 30 then Inr None
      else if sz > minused then rbind (peek POLYS i) (\<lambda>poly. Inr (Some (sz, poly)))
      else rbind (int32 (push_bit 1 sz)) (\<lambda>sz'. size_loop (i + 1) sz' minused))"
  by pat_completeness auto
termination
  by (relation "measure (\<lambda>(i, sz, minused). 31 - i)") auto

declare size_loop.simps [simp del]

text \<open>
  \<open>int msize = size * sizeof(...)\<close>, then \<open>malloc\<close> and \<open>memset\<close>: a negative \<open>msize\<close> is an
  enormous \<open>size_t\<close>, for which \<open>malloc\<close> gives null.
\<close>

definition new_table :: "('e, 'k) converter \<Rightarrow> int \<Rightarrow> 'e slot list result" where
  "new_table c sz =
     (let msize = signed_take_bit 31 (sz * slotSize c) in
      if msize < 0 then Inl NullDeref else Inr (replicate (nat (msize div slotSize c)) Null))"

fun reinsert :: "('e, 'k) converter \<Rightarrow> 'e slot list \<Rightarrow> 'e hashtable \<Rightarrow> 'e hashtable result" where
  "reinsert c [] h = Inr h"
| "reinsert c (Entry e # ps) h =
     rbind (getIndex c (keyOf c e) False h) (\<lambda>index.
     rbind (insertObject (Entry e) index h) (\<lambda>(_, h'). reinsert c ps h'))"
| "reinsert c (_ # ps) h = reinsert c ps h"

definition old_slots :: "'e hashtable \<Rightarrow> 'e slot list result" where
  "old_slots h =
     (if h_size h \<le> 0 then Inr []
      else case h_table h of None \<Rightarrow> Inl NullDeref | Some table \<Rightarrow> memcpy_from table (nat (h_size h)))"

definition resize :: "('e, 'k) converter \<Rightarrow> int \<Rightarrow> 'e hashtable \<Rightarrow> 'e hashtable result" where
  "resize c minused h =
     rbind (size_loop 0 4 minused) (\<lambda>r.
       case r of
         None \<Rightarrow> Inr h
       | Some (sz, poly) \<Rightarrow>
           rbind (new_table c sz) (\<lambda>table.
           rbind (old_slots h) (\<lambda>old.
             reinsert c old (h\<lparr>h_capacity := sz, h_fill := 0, h_entries := 0, h_size := sz, h_poly := poly,
                               h_table := Some table\<rparr>))))"

definition putIndex :: "('e, 'k) converter \<Rightarrow> 'k \<Rightarrow> 'e hashtable \<Rightarrow> (nat \<times> 'e hashtable) result" where
  "putIndex c key h =
     rbind (int32 (h_fill h * RESIZE_HIGH_WATER)) (\<lambda>high.
     rbind (int32 (h_size h * RESIZE_FACTOR)) (\<lambda>limit.
     rbind (if high \<ge> limit \<and> \<not> getFixed h
            then rbind (int32 (h_entries h * RESIZE_FACTOR)) (\<lambda>minused. resize c minused h)
            else Inr h) (\<lambda>h'.
     rbind (getIndex c key True h') (\<lambda>index.
     case h_table h' of
       None \<Rightarrow> Inl NullDeref
     | Some table \<Rightarrow>
         rbind (peek table index) (\<lambda>x.
         if x = Null \<or> x = Reserve
         then rbind (getIndex c key False h') (\<lambda>index'. Inr (index', h'))
         else Inr (index, h'))))))"

definition removeObject :: "('e, 'k) converter \<Rightarrow> nat \<Rightarrow> 'e hashtable \<Rightarrow> ('e slot \<times> 'e hashtable) result" where
  "removeObject c index h =
     (case h_table h of
        None \<Rightarrow> Inl NullDeref
      | Some table \<Rightarrow>
          rbind (peek table index) (\<lambda>p.
          rbind (if p \<noteq> Null \<and> p \<noteq> Reserve
                 then rbind (int32 (h_entries h - 1)) (\<lambda>entries.
                      rbind (int32 (h_fill h + 1)) (\<lambda>fill.
                        Inr (h\<lparr>h_fill := fill, h_table := Some (table[index := Reserve]), h_entries := entries\<rparr>)))
                 else Inr h) (\<lambda>h1.
          rbind (int32 (h_entries h1 * RESIZE_LOW_WATER)) (\<lambda>low.
          if low < h_size h1 \<and> \<not> getFixed h1
          then rbind (int32 (h_entries h1 * RESIZE_FACTOR)) (\<lambda>minused.
               rbind (resize c minused h1) (\<lambda>h2. Inr (p, h2)))
          else Inr (p, h1)))))"

definition ht_clear :: "'e hashtable \<Rightarrow> 'e hashtable" where
  "ht_clear h =
     (case h_table h of
        None \<Rightarrow> h
      | Some table \<Rightarrow> h\<lparr>h_table := None, h_size := 0, h_fill := 0, h_entries := 0\<rparr>)"

text \<open>
  What \<open>HashMap::put\<close> and \<open>HashSet::add\<close>, the two \<open>remove\<close>s, and \<open>get\<close> and \<open>contains\<close> have in
  common; the slot they return says what was in the table before.
\<close>

definition ht_put :: "('e, 'k) converter \<Rightarrow> 'e \<Rightarrow> 'e hashtable \<Rightarrow> ('e slot \<times> 'e hashtable) result" where
  "ht_put c e h =
     rbind (if h_table h = None then resize c INITIAL_CAPACITY h else Inr h) (\<lambda>h0.
     rbind (putIndex c (keyOf c e) h0) (\<lambda>(index, h1).
     rbind (insertObject (Entry e) index h1) (\<lambda>(x, h2).
       if x \<noteq> Null \<and> x \<noteq> Reserve
       then rbind (int32 (h_entries h2 - 1)) (\<lambda>entries. Inr (x, h2\<lparr>h_entries := entries\<rparr>))
       else Inr (x, h2))))"

definition ht_remove :: "('e, 'k) converter \<Rightarrow> 'k \<Rightarrow> 'e hashtable \<Rightarrow> ('e slot \<times> 'e hashtable) result" where
  "ht_remove c key h =
     (if h_table h = None then Inr (Null, h)
      else rbind (getIndex c key True h) (\<lambda>index. removeObject c index h))"

definition ht_get :: "('e, 'k) converter \<Rightarrow> 'k \<Rightarrow> 'e hashtable \<Rightarrow> 'e slot result" where
  "ht_get c key h =
     (case h_table h of
        None \<Rightarrow> Inr Null
      | Some table \<Rightarrow> rbind (getIndex c key True h) (\<lambda>index. peek table index))"

end
