(* ===== verification/HashSearch.thy ===== *)
theory HashSearch
  imports HashTable
begin

section \<open>Searching the table of the hash containers\<close>

text \<open>
  The slots a search visits form a path that covers the table (\<open>path_covers\<close>), so that a search
  returns exactly when some slot stops it (\<open>getIndex_least\<close>, \<open>getIndex_never\<close>). A table is well formed
  (\<open>placed\<close>) when no key is in it twice and every entry is on the path of its key before any null
  slot; filling, replacing and reserving a slot keep that.
\<close>

subsection \<open>The probe sequence\<close>

definition path :: "('e, 'k) converter \<Rightarrow> nat \<Rightarrow> int \<Rightarrow> 'k \<Rightarrow> nat \<Rightarrow> nat" where
  "path c n poly key j =
     (let m = 2 ^ n - 1; i = first_index m (hashCode c key) in
      case j of
        0 \<Rightarrow> nat i
      | Suc k \<Rightarrow> nat ((i + (next_incr m poly ^^ k) (first_incr m poly (hashCode c key))) AND m))"

lemma and_mask_mod: "x AND (2 ^ n - 1) = x mod 2 ^ n" for x :: int
  by (simp add: take_bit_eq_mod flip: mask_eq_exp_minus_1 take_bit_eq_mask)

lemma path_less: "path c n poly key j < 2 ^ n"
  by (auto simp: path_def first_index_def and_mask_mod Let_def nat_less_iff split: nat.splits)

lemma first_incr_range: "0 < n \<Longrightarrow> first_incr (2 ^ n - 1) poly hash \<in> {1..<2 ^ n}"
proof -
  assume "0 < n"
  then have "(1 :: int) < 2 ^ n" by simp
  moreover have "0 \<le> x mod 2 ^ n" "x mod 2 ^ n < 2 ^ n" for x :: int by simp_all
  ultimately show ?thesis
    unfolding first_incr_def and_mask_mod Let_def by (smt (verit) atLeastLessThan_iff)
qed

text \<open>The probe sequence of every key visits every slot.\<close>

lemma path_covers:
  assumes "full_cycle n poly" "p < 2 ^ n"
  shows "\<exists>j. path c n poly key j = p"
proof -
  let ?m = "2 ^ n - 1 :: int"
  define i where "i = first_index ?m (hashCode c key)"
  define d where "d = first_incr ?m poly (hashCode c key)"
  have n: "0 < n" using assms(1) by (simp add: full_cycle_def poly_of_def)
  have i: "0 \<le> i" "i < 2 ^ n" by (simp_all add: i_def first_index_def and_mask_mod)
  show ?thesis
  proof (cases "int p = i")
    case True
    then have "path c n poly key 0 = p" by (simp add: path_def i_def [symmetric] Let_def)
    then show ?thesis by blast
  next
    case False
    define w where "w = (int p - i) mod 2 ^ n"
    have "w \<noteq> 0"
    proof
      assume "w = 0"
      then have "int p mod 2 ^ n = i mod 2 ^ n" by (simp add: w_def mod_eq_dvd_iff mod_eq_0_iff_dvd)
      with i assms(2) False show False by simp
    qed
    moreover have "0 \<le> w" "w < 2 ^ n" by (simp_all add: w_def)
    ultimately have "w \<in> {1..<2 ^ n}" by simp
    then obtain k where k: "(next_incr ?m poly ^^ k) d = w"
      using orbit [OF assms(1)] first_incr_range [OF n] unfolding d_def by blast
    have "(i + w) mod 2 ^ n = int p" using assms(2) by (simp add: w_def mod_add_right_eq)
    then have "path c n poly key (Suc k) = p"
      using k by (simp add: path_def Let_def and_mask_mod flip: i_def d_def)
    then show ?thesis by blast
  qed
qed

subsection \<open>The search loop\<close>

lemma probe_loop_stops:
  assumes "\<And>k. nat ((i + (next_incr m poly ^^ k) d) AND m) < length table"
    and "\<And>k. k < j \<Longrightarrow> \<not> stop (table ! nat ((i + (next_incr m poly ^^ k) d) AND m))"
    and "stop (table ! nat ((i + (next_incr m poly ^^ j) d) AND m))"
  shows "probe_loop stop table m poly i d = Some (Inr (nat ((i + (next_incr m poly ^^ j) d) AND m)))"
  using assms
proof (induction j arbitrary: d)
  case 0
  from 0(1) [of 0] 0(3) show ?case by (subst probe_loop.simps) (simp add: peek_def)
next
  case (Suc j)
  have "probe_loop stop table m poly i (next_incr m poly d) =
      Some (Inr (nat ((i + (next_incr m poly ^^ j) (next_incr m poly d)) AND m)))"
  proof (rule Suc.IH)
    show "nat ((i + (next_incr m poly ^^ k) (next_incr m poly d)) AND m) < length table" for k
      using Suc.prems(1) [of "Suc k"] by (simp add: funpow_swap1)
    show "\<not> stop (table ! nat ((i + (next_incr m poly ^^ k) (next_incr m poly d)) AND m))" if "k < j" for k
      using Suc.prems(2) [of "Suc k"] that by (simp add: funpow_swap1)
    show "stop (table ! nat ((i + (next_incr m poly ^^ j) (next_incr m poly d)) AND m))"
      using Suc.prems(3) by (simp add: funpow_swap1)
  qed
  with Suc.prems(1) [of 0] Suc.prems(2) [of 0] show ?case
    by (subst probe_loop.simps) (simp add: peek_def funpow_swap1)
qed

lemma probe_loop_returns:
  assumes "probe_loop stop table m poly i d = Some r"
    and "\<And>k. nat ((i + (next_incr m poly ^^ k) d) AND m) < length table"
  shows "\<exists>k. stop (table ! nat ((i + (next_incr m poly ^^ k) d) AND m))"
  using assms
proof (induction rule: probe_loop.raw_induct [rotated 1, consumes 1])
  case (1 loop stop table m poly i d r)
  show ?case
  proof (cases "stop (table ! nat ((i + d) AND m))")
    case True
    then show ?thesis by (intro exI [of _ 0]) simp
  next
    case False
    have 2: "nat ((i + (next_incr m poly ^^ k) (next_incr m poly d)) AND m) < length table" for k
      using 1(3) [of "Suc k"] by (simp add: funpow_swap1)
    have "loop stop table m poly i (next_incr m poly d) = Some r"
      using 1(2) 1(3) [of 0] False by (simp add: peek_def)
    from 1(1) [OF this 2] obtain k where "stop (table ! nat ((i + (next_incr m poly ^^ k) (next_incr m poly d)) AND m))" ..
    then show ?thesis by (intro exI [of _ "Suc k"]) (simp add: funpow_swap1)
  qed
qed

text \<open>
  A proof notion: a table of \<open>2 ^ n\<close> slots whose polynomial generates all residues. That every polynomial of \<open>POLYS\<close>
  does is \<open>polys_cycle\<close> in \<^verbatim>\<open>HashInvariant.thy\<close>.
\<close>

definition shaped :: "nat \<Rightarrow> 'e slot list \<Rightarrow> 'e hashtable \<Rightarrow> bool" where
  "shaped n t h \<longleftrightarrow> h_table h = Some t \<and> 2 \<le> n \<and> n \<le> 27 \<and> h_size h = 2 ^ n \<and> length t = 2 ^ n \<and> full_cycle n (h_poly h)"

lemma size_mask_shaped: "shaped n t h \<Longrightarrow> size_mask h = 2 ^ n - 1"
proof -
  assume s: "shaped n t h"
  then have "(2 :: int) ^ n \<le> 2 ^ 27" by (intro power_increasing) (auto simp: shaped_def)
  then show ?thesis using s by (simp add: shaped_def size_mask_def)
qed

text \<open>The search returns the first slot on the path at which it stops, and returns only if there is one.\<close>

lemma getIndex_first:
  assumes s: "shaped n t h" and stop: "stops c key match (t ! path c n (h_poly h) key j)"
    and before: "\<And>i. i < j \<Longrightarrow> \<not> stops c key match (t ! path c n (h_poly h) key i)"
  shows "getIndex c key match h = Inr (path c n (h_poly h) key j)"
proof -
  have t: "h_table h = Some t" "length t = 2 ^ n" using s by (auto simp: shaped_def)
  have less: "path c n (h_poly h) key k < length t" for k using path_less t(2) by metis
  then have peek: "peek t (path c n (h_poly h) key k) = Inr (t ! path c n (h_poly h) key k)" for k
    by (simp add: peek_def)
  have start: "nat (first_index (2 ^ n - 1) (hashCode c key)) = path c n (h_poly h) key 0"
    by (simp add: path_def Let_def)
  have S: "nat ((first_index (2 ^ n - 1) (hashCode c key) + (next_incr (2 ^ n - 1) (h_poly h) ^^ k)
      (first_incr (2 ^ n - 1) (h_poly h) (hashCode c key))) AND (2 ^ n - 1)) = path c n (h_poly h) key (Suc k)" for k
    by (simp add: path_def Let_def)
  show ?thesis
  proof (cases j)
    case 0
    with stop show ?thesis
      by (simp add: getIndex_def t size_mask_shaped [OF s] peek start Let_def)
  next
    case (Suc k)
    have "probe_loop (stops c key match) t (2 ^ n - 1) (h_poly h) (first_index (2 ^ n - 1) (hashCode c key))
        (first_incr (2 ^ n - 1) (h_poly h) (hashCode c key)) = Some (Inr (path c n (h_poly h) key (Suc k)))"
      using probe_loop_stops [of "first_index (2 ^ n - 1) (hashCode c key)" "2 ^ n - 1" "h_poly h"
        "first_incr (2 ^ n - 1) (h_poly h) (hashCode c key)" t k "stops c key match"] less before stop
      unfolding S Suc by auto
    with before [of 0] Suc show ?thesis
      by (simp add: getIndex_def t size_mask_shaped [OF s] peek start Let_def)
  qed
qed


lemma getIndex_least:
  assumes s: "shaped n t h" and p: "p < length t" "stops c key match (t ! p)"
  obtains j where "getIndex c key match h = Inr (path c n (h_poly h) key j)"
    "stops c key match (t ! path c n (h_poly h) key j)"
    "\<And>i. i < j \<Longrightarrow> \<not> stops c key match (t ! path c n (h_poly h) key i)"
proof -
  let ?path = "path c n (h_poly h) key"
  have t: "length t = 2 ^ n" "full_cycle n (h_poly h)" using s by (auto simp: shaped_def)
  obtain j where "?path j = p" using path_covers [OF t(2), of p c key] p(1) t(1) by auto
  with p(2) have ex: "stops c key match (t ! ?path j)" by simp
  define j' where "j' = (LEAST j. stops c key match (t ! ?path j))"
  have 1: "stops c key match (t ! ?path j')" unfolding j'_def using ex by (rule LeastI)
  have 2: "\<not> stops c key match (t ! ?path i)" if "i < j'" for i
    using that not_less_Least unfolding j'_def by blast
  have "getIndex c key match h = Inr (?path j')" by (rule getIndex_first [OF s 1 2])
  with 1 2 show ?thesis by (intro that)
qed

lemma getIndex_never:
  assumes s: "shaped n t h" and no: "\<And>p. p < length t \<Longrightarrow> \<not> stops c key match (t ! p)"
  shows "getIndex c key match h = Inl NoReturn"
proof -
  let ?path = "path c n (h_poly h) key" and ?m = "2 ^ n - 1 :: int"
  let ?i = "first_index ?m (hashCode c key)" and ?d = "first_incr ?m (h_poly h) (hashCode c key)"
  have t: "h_table h = Some t" "length t = 2 ^ n" using s by (auto simp: shaped_def)
  have less: "?path k < length t" for k using path_less t(2) by metis
  then have peek: "peek t (?path k) = Inr (t ! ?path k)" for k by (simp add: peek_def)
  have start: "nat ?i = ?path 0" by (simp add: path_def Let_def)
  have S: "nat ((?i + (next_incr ?m (h_poly h) ^^ k) ?d) AND ?m) = ?path (Suc k)" for k
    by (simp add: path_def Let_def)
  have "probe_loop (stops c key match) t ?m (h_poly h) ?i ?d = None"
  proof (rule ccontr)
    assume "probe_loop (stops c key match) t ?m (h_poly h) ?i ?d \<noteq> None"
    then obtain r where "probe_loop (stops c key match) t ?m (h_poly h) ?i ?d = Some r" by blast
    from probe_loop_returns [OF this, unfolded S, OF less] no less show False by blast
  qed
  with no [OF less, of 0] show ?thesis
    by (simp add: getIndex_def t size_mask_shaped [OF s] peek start Let_def)
qed

subsection \<open>Where entries are\<close>

definition elems :: "'e slot list \<Rightarrow> 'e set" where
  "elems t = {e. Entry e \<in> set t}"

definition used :: "'e slot list \<Rightarrow> nat" where
  "used t = length (filter (\<lambda>s. s \<noteq> Null) t)"

definition live :: "'e slot list \<Rightarrow> nat" where
  "live t = length (filter (\<lambda>s. s \<noteq> Null \<and> s \<noteq> Reserve) t)"

text \<open>
  No key is twice in the table, and the path of the key of an entry leads to it through slots
  that are not null.
\<close>

definition placed :: "('e, 'k) converter \<Rightarrow> nat \<Rightarrow> int \<Rightarrow> 'e slot list \<Rightarrow> bool" where
  "placed c n poly t \<longleftrightarrow>
     (\<forall>p q a b. p < length t \<and> q < length t \<and> t ! p = Entry a \<and> t ! q = Entry b \<and> keyOf c a = keyOf c b \<longrightarrow> p = q) \<and>
     (\<forall>p e. p < length t \<and> t ! p = Entry e \<longrightarrow>
        (\<exists>j. path c n poly (keyOf c e) j = p \<and>
           (\<forall>i < j. t ! path c n poly (keyOf c e) i \<noteq> Null \<and> path c n poly (keyOf c e) i \<noteq> p)))"

lemma slot_cases: "(s \<noteq> Null \<and> s \<noteq> Reserve) \<longleftrightarrow> (\<exists>e. s = Entry e)"
  by (cases s) auto

lemma elems_iff: "e \<in> elems t \<longleftrightarrow> (\<exists>p < length t. t ! p = Entry e)"
  by (auto simp: elems_def in_set_conv_nth)

lemma placed_unique:
  "placed c n poly t \<Longrightarrow> p < length t \<Longrightarrow> q < length t \<Longrightarrow> t ! p = Entry a \<Longrightarrow> t ! q = Entry b \<Longrightarrow>
     keyOf c a = keyOf c b \<Longrightarrow> p = q"
  unfolding placed_def by blast

lemma placed_path:
  assumes "placed c n poly t" "p < length t" "t ! p = Entry e"
  obtains j where "path c n poly (keyOf c e) j = p"
    "\<And>i. i < j \<Longrightarrow> t ! path c n poly (keyOf c e) i \<noteq> Null \<and> path c n poly (keyOf c e) i \<noteq> p"
  using assms unfolding placed_def by blast

lemma elemsI: "p < length t \<Longrightarrow> t ! p = Entry e \<Longrightarrow> e \<in> elems t"
  by (auto simp: elems_iff)

lemma elems_inj: "placed c n poly t \<Longrightarrow> inj_on (keyOf c) (elems t)"
proof (rule inj_onI)
  fix a b
  assume t: "placed c n poly t" and k: "keyOf c a = keyOf c b" and "a \<in> elems t" "b \<in> elems t"
  then obtain p q where "p < length t" "t ! p = Entry a" "q < length t" "t ! q = Entry b" by (auto simp: elems_iff)
  with placed_unique [OF t, of p q a b] k show "a = b" by simp
qed

lemma filter_update:
  "p < length t \<Longrightarrow> length (filter P (t[p := x])) + of_bool (P (t ! p)) = length (filter P t) + of_bool (P x)"
proof (induction t arbitrary: p)
  case (Cons a t)
  then show ?case by (cases p) (auto split: if_splits)
qed simp

lemma used_update: "p < length t \<Longrightarrow> used (t[p := x]) + of_bool (t ! p \<noteq> Null) = used t + of_bool (x \<noteq> Null)"
  unfolding used_def by (rule filter_update)

lemma live_update:
  "p < length t \<Longrightarrow> live (t[p := x]) + of_bool (\<exists>e. t ! p = Entry e) = live t + of_bool (\<exists>e. x = Entry e)"
  unfolding live_def slot_cases by (rule filter_update)

lemma live_le_used: "live t \<le> used t"
  by (induction t) (auto simp: live_def used_def)

lemma used_less_Null: "used t < length t \<Longrightarrow> \<exists>p < length t. t ! p = Null"
proof (rule ccontr)
  assume "used t < length t" "\<not> (\<exists>p < length t. t ! p = Null)"
  then have "filter (\<lambda>s. s \<noteq> Null) t = t" by (auto simp: filter_id_conv in_set_conv_nth)
  with \<open>used t < length t\<close> show False by (simp add: used_def)
qed

lemma elems_update:
  assumes "p < length t" "\<And>q e. q < length t \<Longrightarrow> q \<noteq> p \<Longrightarrow> t ! q = Entry e \<Longrightarrow> t ! p \<noteq> Entry e"
  shows "elems (t[p := x]) = (elems t - {e. t ! p = Entry e}) \<union> {e. x = Entry e}"
proof (rule set_eqI)
  fix e
  have "e \<in> elems (t[p := x]) \<longleftrightarrow> x = Entry e \<or> (\<exists>q < length t. q \<noteq> p \<and> t ! q = Entry e)"
    using assms(1) unfolding elems_iff by (auto simp: nth_list_update split: if_splits)
  also have "\<dots> \<longleftrightarrow> e \<in> (elems t - {e. t ! p = Entry e}) \<union> {e. x = Entry e}"
    using assms by (auto simp: elems_iff)
  finally show "e \<in> elems (t[p := x]) \<longleftrightarrow> e \<in> (elems t - {e. t ! p = Entry e}) \<union> {e. x = Entry e}" .
qed

lemma card_elems: "placed c n poly t \<Longrightarrow> card (elems t) = live t"
proof -
  assume p: "placed c n poly t"
  let ?I = "{i. i < length t \<and> (\<exists>e. t ! i = Entry e)}"
  have "inj_on (\<lambda>i. the_entry (t ! i)) ?I"
    using placed_unique [OF p] by (intro inj_onI) auto
  then have "card ((\<lambda>i. the_entry (t ! i)) ` ?I) = card ?I" by (rule card_image)
  moreover have "(\<lambda>i. the_entry (t ! i)) ` ?I = elems t"
  proof (intro equalityI subsetI)
    fix e
    assume "e \<in> elems t"
    then obtain i where "i < length t" "t ! i = Entry e" by (auto simp: elems_iff)
    then show "e \<in> (\<lambda>i. the_entry (t ! i)) ` ?I" by (intro image_eqI [of _ _ i]) auto
  qed (auto intro: elemsI)
  ultimately have "card (elems t) = card ?I" by simp
  then show ?thesis by (simp add: live_def slot_cases length_filter_conv_card)
qed

subsection \<open>Searching a well-formed table\<close>

lemma getIndex_present:
  assumes s: "shaped n t h" and placed: "placed c n (h_poly h) t" and p: "p < length t" "t ! p = Entry e"
  shows "getIndex c (keyOf c e) True h = Inr p"
proof -
  obtain j where j: "path c n (h_poly h) (keyOf c e) j = p"
    "\<And>i. i < j \<Longrightarrow> t ! path c n (h_poly h) (keyOf c e) i \<noteq> Null \<and> path c n (h_poly h) (keyOf c e) i \<noteq> p"
    using placed_path [OF placed p] by metis
  have len: "length t = 2 ^ n" using s by (simp add: shaped_def)
  have "\<not> stops c (keyOf c e) True (t ! path c n (h_poly h) (keyOf c e) i)" if "i < j" for i
    using j(2) [OF that] placed_unique [OF placed _ p(1) _ p(2), of "path c n (h_poly h) (keyOf c e) i"]
      path_less [of c n "h_poly h" "keyOf c e" i] len
    by (cases "t ! path c n (h_poly h) (keyOf c e) i") auto
  with getIndex_first [OF s, of c "keyOf c e" True j] j(1) p(2) show ?thesis by simp
qed

lemma getIndex_absent:
  assumes s: "shaped n t h" and absent: "key \<notin> keyOf c ` elems t" and free: "used t < length t"
  shows "\<exists>p < length t. getIndex c key True h = Inr p \<and> t ! p = Null"
proof -
  have len: "length t = 2 ^ n" using s by (simp add: shaped_def)
  obtain p where p: "p < length t" "t ! p = Null" using used_less_Null [OF free] by blast
  then have "stops c key True (t ! p)" by simp
  from getIndex_least [OF s p(1) this] obtain j where
    j: "getIndex c key True h = Inr (path c n (h_poly h) key j)" "stops c key True (t ! path c n (h_poly h) key j)"
    by metis
  have less: "path c n (h_poly h) key j < length t" using path_less len by metis
  then have "t ! path c n (h_poly h) key j = Null"
    using j(2) absent elemsI [OF less] by (cases "t ! path c n (h_poly h) key j") auto
  with j(1) less show ?thesis by blast
qed

lemma getIndex_free:
  assumes s: "shaped n t h" and absent: "key \<notin> keyOf c ` elems t" and free: "used t < length t"
  obtains j where "getIndex c key False h = Inr (path c n (h_poly h) key j)"
    "t ! path c n (h_poly h) key j = Null \<or> t ! path c n (h_poly h) key j = Reserve"
    "\<And>i. i < j \<Longrightarrow> \<exists>e. t ! path c n (h_poly h) key i = Entry e"
proof -
  have len: "length t = 2 ^ n" using s by (simp add: shaped_def)
  obtain p where p: "p < length t" "t ! p = Null" using used_less_Null [OF free] by blast
  then have "stops c key False (t ! p)" by simp
  from getIndex_least [OF s p(1) this] obtain j where
    j: "getIndex c key False h = Inr (path c n (h_poly h) key j)" "stops c key False (t ! path c n (h_poly h) key j)"
      "\<forall>i < j. \<not> stops c key False (t ! path c n (h_poly h) key i)"
    by metis
  have less: "path c n (h_poly h) key j < length t" using path_less len by metis
  have "t ! path c n (h_poly h) key j = Null \<or> t ! path c n (h_poly h) key j = Reserve"
    using j(2) absent elemsI [OF less] by (cases "t ! path c n (h_poly h) key j") auto
  moreover have "\<exists>e. t ! path c n (h_poly h) key i = Entry e" if "i < j" for i
    using j(3) that by (cases "t ! path c n (h_poly h) key i") auto
  ultimately show ?thesis using j(1) by (intro that)
qed

subsection \<open>Changing a slot\<close>

lemma placed_insert:
  assumes placed: "placed c n poly t" and p: "p = path c n poly (keyOf c e) j" "p < length t"
    and free: "\<not> (\<exists>b. t ! p = Entry b)" and absent: "keyOf c e \<notin> keyOf c ` elems t"
    and before: "\<And>i. i < j \<Longrightarrow> \<exists>b. t ! path c n poly (keyOf c e) i = Entry b"
  shows "placed c n poly (t[p := Entry e])"
  unfolding placed_def
proof (intro conjI allI impI)
  fix q r a b
  assume a: "q < length (t[p := Entry e]) \<and> r < length (t[p := Entry e]) \<and>
    t[p := Entry e] ! q = Entry a \<and> t[p := Entry e] ! r = Entry b \<and> keyOf c a = keyOf c b"
  have "keyOf c x \<noteq> keyOf c e" if "s < length t" "t ! s = Entry x" for s x
    using elemsI [OF that] absent by (metis image_eqI)
  with a placed_unique [OF placed, of q r a b] show "q = r"
    by (cases "q = p"; cases "r = p") (auto simp: p(2))
next
  fix q a
  assume a: "q < length (t[p := Entry e]) \<and> t[p := Entry e] ! q = Entry a"
  show "\<exists>j. path c n poly (keyOf c a) j = q \<and> (\<forall>i < j. t[p := Entry e] ! path c n poly (keyOf c a) i \<noteq> Null \<and>
    path c n poly (keyOf c a) i \<noteq> q)"
  proof (cases "q = p")
    case True
    with a p(2) have "a = e" by simp
    moreover have "t[p := Entry e] ! path c n poly (keyOf c e) i \<noteq> Null \<and> path c n poly (keyOf c e) i \<noteq> p" if "i < j" for i
      using before [OF that] free p(2) by (auto simp: nth_list_update)
    ultimately show ?thesis using p(1) True by blast
  next
    case False
    with a have "q < length t" "t ! q = Entry a" by (auto simp: nth_list_update)
    then obtain k where "path c n poly (keyOf c a) k = q"
      "\<And>i. i < k \<Longrightarrow> t ! path c n poly (keyOf c a) i \<noteq> Null \<and> path c n poly (keyOf c a) i \<noteq> q"
      using placed_path [OF placed] by metis
    then show ?thesis using p(2) by (intro exI [of _ k]) (auto simp: nth_list_update)
  qed
qed

lemma placed_change:
  assumes placed: "placed c n poly t" and p: "p < length t" "t ! p = Entry e"
    and x: "x = Reserve \<or> (\<exists>e'. x = Entry e' \<and> keyOf c e' = keyOf c e)"
  shows "placed c n poly (t[p := x])"
proof -
  have old: "\<exists>b. t ! q = Entry b \<and> keyOf c b = keyOf c a" if "q < length t" "t[p := x] ! q = Entry a" for q a
    using that x p by (cases "q = p") auto
  have null: "t[p := x] ! q \<noteq> Null" if "t ! q \<noteq> Null" for q
    using that x p by (cases "q = p") auto
  show ?thesis
    unfolding placed_def
  proof (intro conjI allI impI)
    fix q r a b
    assume a: "q < length (t[p := x]) \<and> r < length (t[p := x]) \<and>
      t[p := x] ! q = Entry a \<and> t[p := x] ! r = Entry b \<and> keyOf c a = keyOf c b"
    then obtain a' b' where "t ! q = Entry a'" "t ! r = Entry b'" "keyOf c a' = keyOf c b'"
      using old [of q a] old [of r b] by auto
    with a placed_unique [OF placed, of q r a' b'] show "q = r" by simp
  next
    fix q a
    assume a: "q < length (t[p := x]) \<and> t[p := x] ! q = Entry a"
    then obtain b where b: "t ! q = Entry b" "keyOf c b = keyOf c a" "q < length t" using old [of q a] by auto
    obtain k where "path c n poly (keyOf c b) k = q"
      "\<And>i. i < k \<Longrightarrow> t ! path c n poly (keyOf c b) i \<noteq> Null \<and> path c n poly (keyOf c b) i \<noteq> q"
      using placed_path [OF placed b(3,1)] by metis
    with b(2) null show "\<exists>j. path c n poly (keyOf c a) j = q \<and> (\<forall>i < j. t[p := x] ! path c n poly (keyOf c a) i \<noteq> Null \<and>
        path c n poly (keyOf c a) i \<noteq> q)"
      by (intro exI [of _ k]) auto
  qed
qed

end
