(* ===== verification/HashInvariant.thy ===== *)
theory HashInvariant
  imports HashSearch
begin

section \<open>The invariant of the hash containers\<close>

text \<open>
  The invariant \<open>ht_inv\<close> of a table, the function \<open>ht_map\<close> from keys to entries it represents, and what
  the operations do to both: a table that may grow always has a null slot, never holds more
  than \<open>2 ^ 27\<close> slots while it has fewer than \<open>2 ^ 26\<close> entries, and none of its counters overflows.
\<close>

subsection \<open>Entries in table order\<close>

fun entry_list :: "'e slot list \<Rightarrow> 'e list" where
  "entry_list [] = []"
| "entry_list (Entry e # ps) = e # entry_list ps"
| "entry_list (_ # ps) = entry_list ps"

lemma entry_list_append [simp]: "entry_list (xs @ ys) = entry_list xs @ entry_list ys"
  by (induction xs rule: entry_list.induct) auto

lemma entry_list_Null [simp]: "entry_list (replicate n Null) = []"
  by (induction n) auto

lemma set_entry_list [simp]: "set (entry_list ps) = elems ps"
  by (induction ps rule: entry_list.induct) (auto simp: elems_def)

lemma length_entry_list [simp]: "length (entry_list ps) = live ps"
  by (induction ps rule: entry_list.induct) (auto simp: live_def)

lemma distinct_entry_keys: "placed c n poly t \<Longrightarrow> distinct (map (keyOf c) (entry_list t))"
  using card_elems [of c n poly t] elems_inj [of c n poly t] by (simp add: distinct_map card_distinct)

subsection \<open>Inserting\<close>

definition core :: "('e, 'k) converter \<Rightarrow> nat \<Rightarrow> 'e slot list \<Rightarrow> 'e hashtable \<Rightarrow> bool" where
  "core c n t h \<longleftrightarrow> shaped n t h \<and> placed c n (h_poly h) t \<and> h_entries h = int (live t) \<and> int (used t) \<le> h_fill h"

lemma core_update:
  assumes "core c n t h" "length t' = length t" "placed c n (h_poly h) t'" "int (used t') \<le> fill" "entries = int (live t')"
  shows "core c n t' (h\<lparr>h_fill := fill, h_table := Some t', h_entries := entries\<rparr>)"
  using assms by (simp add: core_def shaped_def)

definition inserted :: "'e \<Rightarrow> nat \<Rightarrow> 'e slot list \<Rightarrow> 'e hashtable \<Rightarrow> 'e hashtable" where
  "inserted e p t h =
     h\<lparr>h_fill := (if t ! p = Null then h_fill h + 1 else h_fill h), h_table := Some (t[p := Entry e]),
       h_entries := h_entries h + 1\<rparr>"

lemma inserted_simps [simp]:
  "h_fill (inserted e p t h) = (if t ! p = Null then h_fill h + 1 else h_fill h)"
  "h_entries (inserted e p t h) = h_entries h + 1" "h_table (inserted e p t h) = Some (t[p := Entry e])"
  "h_size (inserted e p t h) = h_size h" "h_poly (inserted e p t h) = h_poly h"
  "h_stateFlags (inserted e p t h) = h_stateFlags h" "h_capacity (inserted e p t h) = h_capacity h"
  by (simp_all add: inserted_def)

lemma insert_new:
  assumes core: "core c n t h" and absent: "keyOf c e \<notin> keyOf c ` elems t"
    and free: "used t < length t" and bound: "h_fill h + 1 < 2 ^ 31"
  shows "\<exists>p < length t. getIndex c (keyOf c e) False h = Inr p \<and> insertObject (Entry e) p h = Inr (t ! p, inserted e p t h) \<and>
    (t ! p = Null \<or> t ! p = Reserve) \<and> used (t[p := Entry e]) \<le> used t + 1 \<and>
    core c n (t[p := Entry e]) (inserted e p t h) \<and> elems (t[p := Entry e]) = insert e (elems t)"
proof -
  have s: "shaped n t h" and placed: "placed c n (h_poly h) t" and cnt: "h_entries h = int (live t)" "int (used t) \<le> h_fill h"
    using core by (auto simp: core_def)
  have t: "h_table h = Some t" "length t = 2 ^ n" using s by (auto simp: shaped_def)
  obtain j where j: "getIndex c (keyOf c e) False h = Inr (path c n (h_poly h) (keyOf c e) j)"
    "t ! path c n (h_poly h) (keyOf c e) j = Null \<or> t ! path c n (h_poly h) (keyOf c e) j = Reserve"
    "\<And>i. i < j \<Longrightarrow> \<exists>b. t ! path c n (h_poly h) (keyOf c e) i = Entry b"
    using getIndex_free [OF s absent free] by metis
  define p where "p = path c n (h_poly h) (keyOf c e) j"
  have p: "p < length t" using path_less t(2) by (metis p_def)
  have slot: "t ! p = Null \<or> t ! p = Reserve" using j(2) by (simp add: p_def)
  have live: "live (t[p := Entry e]) = live t + 1" using live_update [OF p, of "Entry e"] slot by auto
  have used: "used (t[p := Entry e]) + of_bool (t ! p \<noteq> Null) = used t + 1" using used_update [OF p, of "Entry e"] by simp
  have le: "int (live t) \<le> h_fill h" using live_le_used [of t] cnt(2) by linarith
  have "insertObject (Entry e) p h = Inr (t ! p, inserted e p t h)"
    using bound le p cnt(1) by (simp add: insertObject_def t peek_def int32_def inserted_def)
  moreover have "placed c n (h_poly h) (t[p := Entry e])"
    by (rule placed_insert [OF placed p_def p _ absent]) (use slot j(3) in auto)
  then have "core c n (t[p := Entry e]) (inserted e p t h)"
    unfolding inserted_def using used cnt live slot by (intro core_update [OF core]) (auto split: if_splits)
  moreover have "elems (t[p := Entry e]) = insert e (elems t)"
    using elems_update [OF p, of "Entry e"] slot by auto
  moreover have "used (t[p := Entry e]) \<le> used t + 1" using used by simp
  moreover have "getIndex c (keyOf c e) False h = Inr p" using j(1) by (simp add: p_def)
  ultimately show ?thesis using p slot by blast
qed

subsection \<open>Resizing\<close>

lemma reinsert_ok:
  assumes "core c n t h" "Reserve \<notin> set t" "h_fill h = h_entries h"
    and "distinct (map (keyOf c) (entry_list ps))" "keyOf c ` elems t \<inter> keyOf c ` elems ps = {}" "live t + live ps < 2 ^ n"
  shows "\<exists>t' k. reinsert c ps h = Inr (h\<lparr>h_fill := k, h_table := Some t', h_entries := k\<rparr>) \<and>
     core c n t' (h\<lparr>h_fill := k, h_table := Some t', h_entries := k\<rparr>) \<and> elems t' = elems t \<union> elems ps"
  using assms
proof (induction ps arbitrary: t h)
  case Nil
  then have "h\<lparr>h_fill := h_entries h, h_table := Some t, h_entries := h_entries h\<rparr> = h"
    by (auto simp: core_def shaped_def)
  with Nil show ?case by (intro exI [of _ t] exI [of _ "h_entries h"]) (simp add: elems_def)
next
  case (Cons s ps)
  show ?case
  proof (cases s)
    case (Entry e)
    have len: "length t = 2 ^ n" "n \<le> 27" "h_entries h = int (live t)"
      using Cons.prems(1) by (auto simp: core_def shaped_def)
    have pow: "(2 :: nat) ^ n \<le> 2 ^ 27" using len(2) by (intro power_increasing) auto
    have "used t = live t" using Cons.prems(2) by (auto simp: used_def live_def intro: arg_cong [where f = length] filter_cong)
    moreover have live: "live (s # ps) = Suc (live ps)" by (simp add: live_def Entry)
    ultimately have free: "used t < length t" using Cons.prems(6) len by simp
    have absent: "keyOf c e \<notin> keyOf c ` elems t" using Cons.prems(5) Entry by (auto simp: elems_def)
    have bound: "h_fill h + 1 < 2 ^ 31" using Cons.prems(3,6) len pow by (simp add: live)
    obtain p where p: "p < length t" and ins: "getIndex c (keyOf c e) False h = Inr p"
      "insertObject (Entry e) p h = Inr (t ! p, inserted e p t h)" "t ! p = Null \<or> t ! p = Reserve"
      and core': "core c n (t[p := Entry e]) (inserted e p t h)" and elems': "elems (t[p := Entry e]) = insert e (elems t)"
      using insert_new [OF Cons.prems(1) absent free bound] by blast
    have null: "t ! p = Null" using p ins(3) Cons.prems(2) by (metis nth_mem)
    have "Reserve \<notin> set (t[p := Entry e])" using Cons.prems(2) set_update_subset_insert [of t p "Entry e"] by auto
    moreover have "h_fill (inserted e p t h) = h_entries (inserted e p t h)" using null Cons.prems(3) by simp
    moreover have "distinct (map (keyOf c) (entry_list ps))" using Cons.prems(4) Entry by simp
    moreover have "keyOf c ` elems (t[p := Entry e]) \<inter> keyOf c ` elems ps = {}"
      using Cons.prems(4,5) Entry elems' by (auto simp: elems_def)
    moreover have "live (t[p := Entry e]) + live ps < 2 ^ n"
      using Cons.prems(6) live live_update [OF p, of "Entry e"] null by simp
    ultimately have "\<exists>t' k. reinsert c ps (inserted e p t h) =
        Inr ((inserted e p t h)\<lparr>h_fill := k, h_table := Some t', h_entries := k\<rparr>) \<and>
      core c n t' ((inserted e p t h)\<lparr>h_fill := k, h_table := Some t', h_entries := k\<rparr>) \<and>
      elems t' = elems (t[p := Entry e]) \<union> elems ps"
      by (rule Cons.IH [OF core'])
    moreover have "(inserted e p t h)\<lparr>h_fill := k, h_table := t', h_entries := k\<rparr> = h\<lparr>h_fill := k, h_table := t', h_entries := k\<rparr>" for k t'
      by (simp add: inserted_def)
    moreover have "elems (t[p := Entry e]) \<union> elems ps = elems t \<union> elems (s # ps)" by (auto simp: Entry elems_def elems' [unfolded elems_def])
    ultimately show ?thesis using ins(1,2) Entry by simp
  qed (use Cons in \<open>auto simp: elems_def live_def\<close>)
qed

lemma polys_cycle: "2 \<le> n \<Longrightarrow> n \<le> 27 \<Longrightarrow> full_cycle n (POLYS ! (n - 2))"
proof -
  assume n: "2 \<le> n" "n \<le> 27"
  have "list_all (\<lambda>i. full_cycle (i + 2) (POLYS ! i)) [0..<26]"
    using cycles by (simp add: upt_rec POLYS_def, simp add: numeral_eq_Suc)
  moreover have "n - 2 \<in> set [0..<26]" using n by auto
  ultimately have "full_cycle (n - 2 + 2) (POLYS ! (n - 2))" by (simp only: list_all_iff)
  moreover have "n - 2 + 2 = n" using n(1) by simp
  ultimately show ?thesis by (simp only:)
qed

lemma size_loop_ok:
  "i \<le> 25 \<Longrightarrow> minused < 2 ^ 27 \<Longrightarrow> \<exists>n. i + 2 \<le> n \<and> n \<le> 27 \<and> minused < 2 ^ n \<and>
     size_loop i (2 ^ (i + 2)) minused = Inr (Some (2 ^ n, POLYS ! (n - 2)))"
proof (induction "25 - i" arbitrary: i)
  case 0
  then have "i = 25" by simp
  with 0 show ?case by (subst size_loop.simps) (auto simp: POLYS_def peek_def)
next
  case (Suc k)
  show ?case
  proof (cases "minused < 2 ^ (i + 2)")
    case True
    have "i < length POLYS" using Suc.prems(1) by (simp add: POLYS_def)
    then have "size_loop i (2 ^ (i + 2)) minused = Inr (Some (2 ^ (i + 2), POLYS ! i))"
      using True Suc.prems(1) by (subst size_loop.simps) (simp add: peek_def)
    with True Suc.prems(1) show ?thesis by (intro exI [of _ "i + 2"]) simp
  next
    case False
    have i: "i < 25" using Suc.hyps(2) by simp
    then have "(2 :: int) ^ (i + 3) \<le> 2 ^ 28" by (intro power_increasing) auto
    moreover have "- 268435456 \<le> (2 :: int) ^ i" by (rule order_trans [of _ 0]) simp_all
    ultimately have "int32 (push_bit 1 (2 ^ (i + 2))) = Inr (2 ^ (Suc i + 2))"
      by (simp add: int32_def push_bit_eq_mult power_add)
    then have step: "size_loop i (2 ^ (i + 2)) minused = size_loop (Suc i) (2 ^ (Suc i + 2)) minused"
      using False i by (subst size_loop.simps) simp
    have "k = 25 - Suc i" "Suc i \<le> 25" using Suc.hyps(2) by simp_all
    then obtain n where "Suc i + 2 \<le> n" "n \<le> 27" "minused < 2 ^ n"
      "size_loop (Suc i) (2 ^ (Suc i + 2)) minused = Inr (Some (2 ^ n, POLYS ! (n - 2)))"
      using Suc.hyps(1) [of "Suc i"] Suc.prems(2) by blast
    then show ?thesis unfolding step by (intro exI [of _ n]) auto
  qed
qed


text \<open>The table is rebuilt: same entries, no reserve marks, at most half full.\<close>

definition converter_ok :: "('e, 'k) converter \<Rightarrow> bool" where
  "converter_ok c \<longleftrightarrow> 0 < slotSize c \<and> slotSize c \<le> 8"

lemma new_table_ok:
  assumes "converter_ok c" "n \<le> 27"
  shows "new_table c (2 ^ n) = Inr (replicate (2 ^ n) Null)"
proof -
  have p: "(2 :: int) ^ n \<le> 2 ^ 27" using assms(2) by (intro power_increasing) auto
  have "2 ^ n * slotSize c \<le> 2 ^ 27 * 8" using assms(1) p by (intro mult_mono) (auto simp: converter_ok_def)
  moreover have "0 \<le> 2 ^ n * slotSize c" using assms(1) by (simp add: converter_ok_def)
  ultimately have "signed_take_bit 31 (2 ^ n * slotSize c) = 2 ^ n * slotSize c"
    by (intro signed_take_bit_int_eq_self) auto
  then show ?thesis using assms(1) by (simp add: new_table_def converter_ok_def nat_power_eq Let_def not_less)
qed

definition tabled :: "('e, 'k) converter \<Rightarrow> 'e hashtable \<Rightarrow> bool" where
  "tabled c h \<longleftrightarrow> (\<exists>n t. core c n t h)"

definition ht_elems :: "'e hashtable \<Rightarrow> 'e set" where
  "ht_elems h = (case h_table h of None \<Rightarrow> {} | Some t \<Rightarrow> elems t)"

definition empty_table :: "'e hashtable \<Rightarrow> bool" where
  "empty_table h \<longleftrightarrow> h_table h = None \<and> h_size h = 0 \<and> h_fill h = 0 \<and> h_entries h = 0"

lemma core_empty:
  assumes "2 \<le> n" "n \<le> 27" "h_table h = Some (replicate (2 ^ n) Null)" "h_size h = 2 ^ n" "h_poly h = POLYS ! (n - 2)"
    "h_fill h = 0" "h_entries h = 0"
  shows "core c n (replicate (2 ^ n) Null) h"
  using assms polys_cycle [of n] by (auto simp: core_def shaped_def placed_def live_def used_def)

lemma resize_ok:
  assumes c: "converter_ok c" and h: "empty_table h \<or> (\<exists>n t. core c n t h)" and m: "2 * h_entries h \<le> minused" "minused < 2 ^ 27"
  shows "\<exists>n t h'. resize c minused h = Inr h' \<and> core c n t h' \<and> elems t = ht_elems h \<and> minused < 2 ^ n \<and>
     h_fill h' = h_entries h' \<and> h_entries h' = h_entries h \<and> h_stateFlags h' = h_stateFlags h \<and> h_capacity h' = h_size h'"
proof -
  obtain n where n: "2 \<le> n" "n \<le> 27" "minused < 2 ^ n" "size_loop 0 4 minused = Inr (Some (2 ^ n, POLYS ! (n - 2)))"
    using size_loop_ok [of 0 minused] m(2) by auto
  let ?h = "h\<lparr>h_capacity := 2 ^ n, h_fill := 0, h_entries := 0, h_size := 2 ^ n, h_poly := POLYS ! (n - 2),
    h_table := Some (replicate (2 ^ n) Null)\<rparr>"
  have core0: "core c n (replicate (2 ^ n) Null) ?h" by (rule core_empty) (use n in auto)
  obtain old where old: "old_slots h = Inr old" "elems old = ht_elems h" "distinct (map (keyOf c) (entry_list old))"
    "h_entries h = int (live old)"
  proof (cases "empty_table h")
    case True
    then show ?thesis by (intro that [of "[]"]) (auto simp: old_slots_def empty_table_def ht_elems_def elems_def live_def)
  next
    case False
    then obtain k t where t: "core c k t h" using h by blast
    then show ?thesis
      using distinct_entry_keys [of c k "h_poly h" t]
      by (intro that [of t]) (auto simp: core_def shaped_def old_slots_def ht_elems_def memcpy_from_def nat_power_eq)
  qed
  have "int (live old) < 2 ^ n" using old(4) m(1) n(3) by linarith
  then have "int (live old) < int (2 ^ n)" by simp
  then have "live old < 2 ^ n" by (simp only: of_nat_less_iff)
  then obtain t k where r: "reinsert c old ?h = Inr (?h\<lparr>h_fill := k, h_table := Some t, h_entries := k\<rparr>)"
    "core c n t (?h\<lparr>h_fill := k, h_table := Some t, h_entries := k\<rparr>)" "elems t = elems old"
    using reinsert_ok [OF core0, of old] old(3) by (auto simp: elems_def live_def)
  have "k = h_entries h"
    using r(2,3) old card_elems [of c n "POLYS ! (n - 2)" t] distinct_card [of "entry_list old"]
    by (simp add: core_def distinct_map)
  moreover have "resize c minused h = Inr (?h\<lparr>h_fill := k, h_table := Some t, h_entries := k\<rparr>)"
    using r(1) by (simp add: resize_def n(4) new_table_ok [OF c n(2)] old(1))
  ultimately show ?thesis
    using r(2,3) old(2) n(3)
    by (intro exI [of _ n] exI [of _ t] exI [of _ "?h\<lparr>h_fill := k, h_table := Some t, h_entries := k\<rparr>"]) simp
qed

subsection \<open>The map a table represents\<close>

fun slot_entry :: "'e slot \<Rightarrow> 'e option" where
  "slot_entry (Entry e) = Some e"
| "slot_entry _ = None"

definition ht_entries :: "'e hashtable \<Rightarrow> 'e list" where
  "ht_entries h = (case h_table h of None \<Rightarrow> [] | Some t \<Rightarrow> entry_list t)"

definition ht_map :: "('e, 'k) converter \<Rightarrow> 'e hashtable \<Rightarrow> 'k \<rightharpoonup> 'e" where
  "ht_map c h = map_of (map (\<lambda>e. (keyOf c e, e)) (ht_entries h))"

definition ht_inv :: "('e, 'k) converter \<Rightarrow> 'e hashtable \<Rightarrow> bool" where
  "ht_inv c h \<longleftrightarrow> empty_table h \<or>
     (\<exists>n t. core c n t h \<and> used t < 2 ^ n \<and> h_fill h + h_entries h \<le> 2 * 2 ^ n)"

lemma ht_elems_entries [simp]: "set (ht_entries h) = ht_elems h"
  by (simp add: ht_entries_def ht_elems_def split: option.splits)

lemma ht_inv_keys: "ht_inv c h \<Longrightarrow> distinct (map (keyOf c) (ht_entries h))"
  unfolding ht_inv_def
proof (elim disjE exE conjE)
  fix n t
  assume "core c n t h"
  then show ?thesis using distinct_entry_keys [of c n "h_poly h" t] by (simp add: core_def shaped_def ht_entries_def)
qed (simp add: empty_table_def ht_entries_def)

lemma ht_map_iff: "ht_inv c h \<Longrightarrow> ht_map c h k = Some e \<longleftrightarrow> e \<in> ht_elems h \<and> keyOf c e = k"
  using ht_inv_keys [of c h] unfolding ht_map_def by (subst map_of_eq_Some_iff) (auto simp: comp_def)

lemma ht_map_None: "ht_map c h k = None \<longleftrightarrow> k \<notin> keyOf c ` ht_elems h"
  by (simp add: ht_map_def map_of_eq_None_iff image_image)

lemma ht_map_eqI: "(\<And>k e. m k = Some e \<longleftrightarrow> m' k = Some e) \<Longrightarrow> m = m'" for m m' :: "'k \<rightharpoonup> 'e"
  by (rule ext) (metis option.exhaust)

lemma dom_ht_map: "dom (ht_map c h) = keyOf c ` ht_elems h"
  unfolding ht_map_def dom_map_of_conv_image_fst by (simp add: image_image)

lemma ht_inv_entries: "ht_inv c h \<Longrightarrow> h_entries h = int (length (ht_entries h))"
  unfolding ht_inv_def by (auto simp: empty_table_def core_def shaped_def ht_entries_def)

lemma ht_inv_size: "ht_inv c h \<Longrightarrow> h_entries h = int (card (dom (ht_map c h)))"
  using ht_inv_entries [of c h] distinct_card [OF ht_inv_keys [of c h]] by (simp add: dom_ht_map)

subsection \<open>Lookup\<close>

lemma search_ok:
  assumes "core c n t h" "used t < 2 ^ n"
  shows "\<exists>p < length t. getIndex c key True h = Inr p \<and>
    (t ! p = Null \<and> key \<notin> keyOf c ` elems t \<or> (\<exists>e. t ! p = Entry e \<and> keyOf c e = key))"
proof (cases "key \<in> keyOf c ` elems t")
  case True
  then obtain p e where "p < length t" "t ! p = Entry e" "key = keyOf c e" by (auto simp: elems_iff)
  moreover then have "getIndex c key True h = Inr p"
    using assms(1) getIndex_present [of n t h c p e] by (simp add: core_def)
  ultimately show ?thesis by blast
next
  case False
  have "length t = 2 ^ n" using assms(1) by (simp add: core_def shaped_def)
  with getIndex_absent [of n t h key c] assms False show ?thesis by (auto simp: core_def)
qed

lemma ht_get_ok:
  assumes "ht_inv c h"
  shows "\<exists>x. ht_get c key h = Inr x \<and> x \<noteq> Reserve \<and> slot_entry x = ht_map c h key"
proof -
  consider "empty_table h" | n t where "core c n t h" "used t < 2 ^ n" using assms by (auto simp: ht_inv_def)
  then show ?thesis
  proof cases
    case 1
    then show ?thesis by (simp add: ht_get_def empty_table_def ht_map_def ht_entries_def)
  next
    case 2
    then obtain p where p: "p < length t" "getIndex c key True h = Inr p"
      "t ! p = Null \<and> key \<notin> keyOf c ` elems t \<or> (\<exists>e. t ! p = Entry e \<and> keyOf c e = key)"
      using search_ok [OF 2, of key] by blast
    have t: "h_table h = Some t" using 2(1) by (simp add: core_def shaped_def)
    then have "ht_get c key h = Inr (t ! p)" using p by (simp add: ht_get_def peek_def)
    moreover have "slot_entry (t ! p) = ht_map c h key"
    proof (cases "t ! p")
      case Null
      with p(3) t show ?thesis using ht_map_None [of c h key] by (simp add: ht_elems_def)
    next
      case (Entry e)
      with p t have "e \<in> ht_elems h" "keyOf c e = key" by (auto simp: ht_elems_def intro: elemsI)
      with Entry show ?thesis using ht_map_iff [OF assms, of key e] by simp
    qed (use p(3) in auto)
    ultimately show ?thesis using p(3) by auto
  qed
qed

subsection \<open>Growing\<close>

lemma pow27: "n \<le> 27 \<Longrightarrow> (2 :: int) ^ n \<le> 134217728"
  using power_increasing [of n 27 "2 :: int"] by simp

lemma core_bounds:
  assumes "core c n t h"
  shows "0 \<le> h_entries h" "h_entries h \<le> h_fill h" "h_size h = 2 ^ n" "h_size h \<le> 134217728" "4 \<le> h_size h"
    "h_entries h = int (card (ht_elems h))" "h_table h = Some t" "length t = 2 ^ n" "int (used t) \<le> h_fill h"
  using assms live_le_used [of t] pow27 [of n] card_elems [of c n "h_poly h" t] power_increasing [of 2 n "2 :: int"]
  by (auto simp: core_def shaped_def ht_elems_def)

lemma grow_ok:
  assumes c: "converter_ok c" and core: "core c n t h" and sum: "h_fill h + h_entries h \<le> 2 * 2 ^ n"
    and few: "card (ht_elems h) < 2 ^ 26" and fixed: "\<not> getFixed h"
  shows "\<exists>n' t' h'. rbind (int32 (h_fill h * RESIZE_HIGH_WATER)) (\<lambda>high.
       rbind (int32 (h_size h * RESIZE_FACTOR)) (\<lambda>limit.
       rbind (if high \<ge> limit \<and> \<not> getFixed h
              then rbind (int32 (h_entries h * RESIZE_FACTOR)) (\<lambda>minused. resize c minused h)
              else Inr h) (\<lambda>h'. f h'))) = f h' \<and> core c n' t' h' \<and> elems t' = elems t \<and> used t' + 1 < 2 ^ n' \<and>
     h_fill h' + h_entries h' + 2 \<le> 2 * 2 ^ n' \<and> h_stateFlags h' = h_stateFlags h"
proof -
  note b = core_bounds [OF core]
  have ints: "int32 (h_fill h * RESIZE_HIGH_WATER) = Inr (h_fill h * 3)" "int32 (h_size h * RESIZE_FACTOR) = Inr (h_size h * 2)"
    "int32 (h_entries h * RESIZE_FACTOR) = Inr (h_entries h * 2)"
    using b(1-6) sum few by (simp_all add: int32_def RESIZE_HIGH_WATER_def RESIZE_FACTOR_def)
  show ?thesis
  proof (cases "h_fill h * 3 \<ge> h_size h * 2")
    case True
    have tab: "empty_table h \<or> (\<exists>n t. core c n t h)" using core by blast
    have m: "2 * h_entries h \<le> h_entries h * 2" "h_entries h * 2 < 2 ^ 27" using b(6) few by simp_all
    obtain n' t' h' where r: "resize c (h_entries h * 2) h = Inr h'" "core c n' t' h'" "elems t' = ht_elems h"
      "h_entries h * 2 < 2 ^ n'" "h_fill h' = h_entries h'" "h_entries h' = h_entries h" "h_stateFlags h' = h_stateFlags h"
      using resize_ok [OF c tab m] by auto
    note b' = core_bounds [OF r(2)]
    have "int (used t' + 1) < int (2 ^ n')" using b'(3,5,9) r(4-6) by simp
    then have "used t' + 1 < 2 ^ n'" by (simp only: of_nat_less_iff)
    moreover have "h_fill h' + h_entries h' + 2 \<le> 2 * 2 ^ n'" using b'(3,5) r(4-6) by linarith
    moreover have "elems t' = elems t" using r(3) b(7) by (simp add: ht_elems_def)
    ultimately show ?thesis using True fixed r(1,2,7) ints
      by (intro exI [of _ n'] exI [of _ t'] exI [of _ h']) simp
  next
    case False
    have "int (used t + 1) < int (2 ^ n)" using False b(3,5,9) by simp
    then have "used t + 1 < 2 ^ n" by (simp only: of_nat_less_iff)
    moreover have "h_fill h + h_entries h + 2 \<le> 2 * 2 ^ n" using False b(2,3,5) by linarith
    ultimately show ?thesis using False core ints by (intro exI [of _ n] exI [of _ t] exI [of _ h]) simp
  qed
qed

text \<open>Replacing the entry of a key: the count is adjusted after the insertion.\<close>

lemma replace_ok:
  assumes core: "core c n t h" and p: "p < length t" "t ! p = Entry x" "keyOf c x = keyOf c e" and bound: "h_fill h + 1 < 2 ^ 31"
  shows "insertObject (Entry e) p h = Inr (Entry x, inserted e p t h)"
    "core c n (t[p := Entry e]) ((inserted e p t h)\<lparr>h_entries := h_entries h\<rparr>)"
    "elems (t[p := Entry e]) = insert e (elems t - {x})" "used (t[p := Entry e]) = used t"
proof -
  note b = core_bounds [OF core]
  have placed: "placed c n (h_poly h) t" using core by (simp add: core_def)
  show "insertObject (Entry e) p h = Inr (Entry x, inserted e p t h)"
    using b(1,2,7) p bound by (simp add: insertObject_def peek_def int32_def inserted_def)
  show used: "used (t[p := Entry e]) = used t" using used_update [OF p(1), of "Entry e"] p(2) by simp
  have live: "live (t[p := Entry e]) = live t" using live_update [OF p(1), of "Entry e"] p(2) by simp
  have "(inserted e p t h)\<lparr>h_entries := h_entries h\<rparr> =
      h\<lparr>h_fill := h_fill h, h_table := Some (t[p := Entry e]), h_entries := h_entries h\<rparr>"
    by (simp add: inserted_def p(2))
  moreover have "core c n (t[p := Entry e]) (h\<lparr>h_fill := h_fill h, h_table := Some (t[p := Entry e]), h_entries := h_entries h\<rparr>)"
    using used live core placed_change [OF placed p(1,2), of "Entry e"] p(3)
    by (intro core_update [OF core]) (auto simp: core_def)
  ultimately show "core c n (t[p := Entry e]) ((inserted e p t h)\<lparr>h_entries := h_entries h\<rparr>)" by simp
  show "elems (t[p := Entry e]) = insert e (elems t - {x})"
    using elems_update [OF p(1), of "Entry e"] placed_unique [OF placed _ p(1)] p(2) by auto
qed

lemma elems_key_unique:
  "core c n t h \<Longrightarrow> p < length t \<Longrightarrow> t ! p = Entry x \<Longrightarrow> elems t - {x} = {y \<in> elems t. keyOf c y \<noteq> keyOf c x}"
  using elems_inj [of c n "h_poly h" t] elemsI [of p t x] by (auto simp: core_def inj_on_def)

subsection \<open>Insertion\<close>

lemma put_tabled:
  assumes c: "converter_ok c" and core: "core c n t h" and sum: "h_fill h + h_entries h \<le> 2 * 2 ^ n"
    and few: "card (ht_elems h) < 2 ^ 26" and fixed: "\<not> getFixed h"
  shows "\<exists>x h'. rbind (putIndex c (keyOf c e) h) (\<lambda>(index, h1).
     rbind (insertObject (Entry e) index h1) (\<lambda>(x, h2).
       if x \<noteq> Null \<and> x \<noteq> Reserve
       then rbind (int32 (h_entries h2 - 1)) (\<lambda>entries. Inr (x, h2\<lparr>h_entries := entries\<rparr>))
       else Inr (x, h2))) = Inr (x, h') \<and> ht_inv c h' \<and> h_stateFlags h' = h_stateFlags h \<and>
     ht_elems h' = insert e {y \<in> elems t. keyOf c y \<noteq> keyOf c e} \<and>
     (case slot_entry x of None \<Rightarrow> keyOf c e \<notin> keyOf c ` elems t | Some y \<Rightarrow> y \<in> elems t \<and> keyOf c y = keyOf c e)"
proof -
  let ?after = "\<lambda>h'. rbind (getIndex c (keyOf c e) True h') (\<lambda>index.
     case h_table h' of
       None \<Rightarrow> Inl NullDeref
     | Some table \<Rightarrow>
         rbind (peek table index) (\<lambda>x.
         if x = Null \<or> x = Reserve
         then rbind (getIndex c (keyOf c e) False h') (\<lambda>index'. Inr (index', h'))
         else Inr (index, h')))"
  obtain n' t' h1 where g: "putIndex c (keyOf c e) h = ?after h1" "core c n' t' h1" "elems t' = elems t" "used t' + 1 < 2 ^ n'"
    "h_fill h1 + h_entries h1 + 2 \<le> 2 * 2 ^ n'" "h_stateFlags h1 = h_stateFlags h"
    using grow_ok [OF c core sum few fixed, of ?after] unfolding putIndex_def by blast
  note b = core_bounds [OF g(2)]
  have bound: "h_fill h1 + 1 < 2 ^ 31" using b(1,3,4) g(5) by simp
  obtain p where p: "p < length t'" "getIndex c (keyOf c e) True h1 = Inr p"
    "t' ! p = Null \<and> keyOf c e \<notin> keyOf c ` elems t' \<or> (\<exists>x. t' ! p = Entry x \<and> keyOf c x = keyOf c e)"
    using search_ok [OF g(2), of "keyOf c e"] g(4) by auto
  show ?thesis
  proof (cases "t' ! p")
    case Null
    then have absent: "keyOf c e \<notin> keyOf c ` elems t'" using p(3) by simp
    obtain q where q: "q < length t'" "getIndex c (keyOf c e) False h1 = Inr q"
      "insertObject (Entry e) q h1 = Inr (t' ! q, inserted e q t' h1)" "t' ! q = Null \<or> t' ! q = Reserve"
      "used (t'[q := Entry e]) \<le> used t' + 1" "core c n' (t'[q := Entry e]) (inserted e q t' h1)"
      "elems (t'[q := Entry e]) = insert e (elems t')"
      using insert_new [OF g(2) absent _ bound] g(4) b(8) by auto
    have "putIndex c (keyOf c e) h = Inr (q, h1)" using g(1) p(1,2) Null q(2) b(7) by (simp add: peek_def)
    moreover have "ht_inv c (inserted e q t' h1)"
      using q(5,6) g(4,5) unfolding ht_inv_def by (intro disjI2 exI [of _ n'] exI [of _ "t'[q := Entry e]"]) auto
    moreover have "ht_elems (inserted e q t' h1) = insert e {y \<in> elems t. keyOf c y \<noteq> keyOf c e}"
      using q(7) absent g(3) by (auto simp: ht_elems_def image_iff)
    ultimately show ?thesis
      using q(3,4) g(3,6) absent by (intro exI [of _ "t' ! q"] exI [of _ "inserted e q t' h1"]) auto
  next
    case (Entry x)
    then have x: "keyOf c x = keyOf c e" "x \<in> elems t" using p(1,3) g(3) elemsI [of p t' x] by auto
    note r = replace_ok [OF g(2) p(1) Entry x(1) bound]
    have "putIndex c (keyOf c e) h = Inr (p, h1)" using g(1) p(1,2) Entry b(7) by (simp add: peek_def)
    moreover have "int32 (h_entries (inserted e p t' h1) - 1) = Inr (h_entries h1)"
      using b(1,2) bound by (simp add: int32_def)
    moreover have "ht_inv c ((inserted e p t' h1)\<lparr>h_entries := h_entries h1\<rparr>)"
      using r(2,4) g(4,5) Entry unfolding ht_inv_def by (intro disjI2 exI [of _ n'] exI [of _ "t'[p := Entry e]"]) auto
    moreover have "ht_elems ((inserted e p t' h1)\<lparr>h_entries := h_entries h1\<rparr>) = insert e {y \<in> elems t. keyOf c y \<noteq> keyOf c e}"
      using r(3) elems_key_unique [OF g(2) p(1) Entry] x(1) g(3) by (simp add: ht_elems_def)
    ultimately show ?thesis
      using r(1) g(6) x by (intro exI [of _ "Entry x"] exI [of _ "(inserted e p t' h1)\<lparr>h_entries := h_entries h1\<rparr>"]) auto
  qed (use p(3) in auto)
qed

lemma map_insert:
  assumes "ht_inv c h" "ht_inv c h'" "ht_elems h' = insert e {y \<in> ht_elems h. keyOf c y \<noteq> keyOf c e}"
  shows "ht_map c h' = (ht_map c h)(keyOf c e \<mapsto> e)"
  by (rule ht_map_eqI) (use assms in \<open>auto simp: ht_map_iff\<close>)

lemma map_remove:
  assumes "ht_inv c h" "ht_inv c h'" "ht_elems h' = {y \<in> ht_elems h. keyOf c y \<noteq> key}"
  shows "ht_map c h' = (ht_map c h)(key := None)"
  by (rule ht_map_eqI) (use assms in \<open>auto simp: ht_map_iff\<close>)

lemma ht_put_ok:
  assumes c: "converter_ok c" and inv: "ht_inv c h" and few: "card (dom (ht_map c h)) < 2 ^ 26" and fixed: "\<not> getFixed h"
  shows "\<exists>x h'. ht_put c e h = Inr (x, h') \<and> slot_entry x = ht_map c h (keyOf c e) \<and> ht_inv c h' \<and>
     ht_map c h' = (ht_map c h)(keyOf c e \<mapsto> e) \<and> h_stateFlags h' = h_stateFlags h"
proof -
  have card: "card (ht_elems h) < 2 ^ 26"
    using few ht_inv_size [OF inv] ht_inv_entries [OF inv] ht_elems_entries [of h] card_length [of "ht_entries h"] by simp
  have "\<exists>h0 n t. (if h_table h = None then resize c INITIAL_CAPACITY h else Inr h) = Inr h0 \<and> core c n t h0 \<and>
      elems t = ht_elems h \<and> h_fill h0 + h_entries h0 \<le> 2 * 2 ^ n \<and> h_stateFlags h0 = h_stateFlags h"
  proof (cases "empty_table h")
    case True
    then have e: "h_entries h = 0" "h_table h = None" by (auto simp: empty_table_def)
    obtain n t h0 where r: "resize c INITIAL_CAPACITY h = Inr h0" "core c n t h0" "elems t = ht_elems h"
      "h_fill h0 = h_entries h0" "h_entries h0 = 0" "h_stateFlags h0 = h_stateFlags h"
      using resize_ok [OF c disjI1 [OF True], of INITIAL_CAPACITY] e by (auto simp: INITIAL_CAPACITY_def)
    with e show ?thesis by (intro exI [of _ h0] exI [of _ n] exI [of _ t]) simp
  next
    case False
    then obtain n t where t: "core c n t h" "h_fill h + h_entries h \<le> 2 * 2 ^ n" using inv by (auto simp: ht_inv_def)
    then show ?thesis using core_bounds [OF t(1)] by (intro exI [of _ h] exI [of _ n] exI [of _ t]) (simp add: ht_elems_def)
  qed
  then obtain h0 n t where h0: "(if h_table h = None then resize c INITIAL_CAPACITY h else Inr h) = Inr h0" "core c n t h0"
    "elems t = ht_elems h" "h_fill h0 + h_entries h0 \<le> 2 * 2 ^ n" "h_stateFlags h0 = h_stateFlags h" by blast
  have "card (ht_elems h0) < 2 ^ 26" "\<not> getFixed h0"
    using card h0(3,5) core_bounds(7) [OF h0(2)] fixed by (simp_all add: ht_elems_def getFixed_def)
  from put_tabled [OF c h0(2,4) this, of e] obtain x h' where
    r: "ht_put c e h = Inr (x, h')" "ht_inv c h'" "h_stateFlags h' = h_stateFlags h0"
      "ht_elems h' = insert e {y \<in> elems t. keyOf c y \<noteq> keyOf c e}"
      "case slot_entry x of None \<Rightarrow> keyOf c e \<notin> keyOf c ` elems t | Some y \<Rightarrow> y \<in> elems t \<and> keyOf c y = keyOf c e"
    unfolding ht_put_def h0(1) by auto
  have "slot_entry x = ht_map c h (keyOf c e)"
  proof (cases "slot_entry x")
    case (Some y)
    then have "ht_map c h (keyOf c e) = Some y" using r(5) h0(3) ht_map_iff [OF inv] by simp
    with Some show ?thesis by simp
  qed (use r(5) h0(3) ht_map_None [of c h "keyOf c e"] in simp)
  with r h0(3,5) map_insert [OF inv r(2)] show ?thesis by auto
qed

subsection \<open>Removal\<close>

lemma shrink_ok:
  assumes c: "converter_ok c" and core: "core c n t h" "used t < 2 ^ n" and sum: "h_fill h + h_entries h \<le> 2 * 2 ^ n"
    and few: "card (ht_elems h) < 2 ^ 26"
  shows "\<exists>h'. rbind (int32 (h_entries h * RESIZE_LOW_WATER)) (\<lambda>low.
      if low < h_size h \<and> \<not> getFixed h
      then rbind (int32 (h_entries h * RESIZE_FACTOR)) (\<lambda>minused. rbind (resize c minused h) (\<lambda>h2. Inr (p, h2)))
      else Inr (p, h)) = Inr (p, h') \<and> ht_inv c h' \<and> ht_elems h' = ht_elems h \<and> h_stateFlags h' = h_stateFlags h"
proof -
  note b = core_bounds [OF core(1)]
  have ints: "int32 (h_entries h * RESIZE_LOW_WATER) = Inr (h_entries h * 8)"
    "int32 (h_entries h * RESIZE_FACTOR) = Inr (h_entries h * 2)"
    using b(6) few by (simp_all add: int32_def RESIZE_LOW_WATER_def RESIZE_FACTOR_def)
  have tab: "empty_table h \<or> (\<exists>n t. core c n t h)" using core(1) by blast
  have m: "2 * h_entries h \<le> h_entries h * 2" "h_entries h * 2 < 2 ^ 27" using b(6) few by simp_all
  show ?thesis
  proof (cases "h_entries h * 8 < h_size h \<and> \<not> getFixed h")
    case True
    obtain n' t' h' where r: "resize c (h_entries h * 2) h = Inr h'" "core c n' t' h'" "elems t' = ht_elems h"
      "h_entries h * 2 < 2 ^ n'" "h_fill h' = h_entries h'" "h_entries h' = h_entries h" "h_stateFlags h' = h_stateFlags h"
      using resize_ok [OF c tab m] by auto
    note b' = core_bounds [OF r(2)]
    have "int (used t') < 2 ^ n'" using b'(1,9) r(4-6) by linarith
    then have "int (used t') < int (2 ^ n')" by simp
    then have "used t' < 2 ^ n'" by (simp only: of_nat_less_iff)
    moreover have "h_fill h' + h_entries h' \<le> 2 * 2 ^ n'" using b'(1) r(4-6) by linarith
    ultimately have "ht_inv c h'" using r(2) by (auto simp: ht_inv_def)
    with True r b'(7) ints show ?thesis by (simp add: ht_elems_def)
  next
    case False
    have "ht_inv c h" using core sum by (auto simp: ht_inv_def)
    with False ints show ?thesis by (intro exI [of _ h]) auto
  qed
qed

lemma ht_remove_ok:
  assumes c: "converter_ok c" and inv: "ht_inv c h" and few: "card (dom (ht_map c h)) < 2 ^ 26"
  shows "\<exists>x h'. ht_remove c key h = Inr (x, h') \<and> slot_entry x = ht_map c h key \<and> ht_inv c h' \<and>
     ht_map c h' = (ht_map c h)(key := None) \<and> h_stateFlags h' = h_stateFlags h"
proof (cases "empty_table h")
  case True
  then have "ht_remove c key h = Inr (Null, h)" "ht_map c h = Map.empty"
    by (simp_all add: ht_remove_def empty_table_def ht_map_def ht_entries_def)
  with inv show ?thesis by simp
next
  case False
  then obtain n t where t: "core c n t h" "used t < 2 ^ n" "h_fill h + h_entries h \<le> 2 * 2 ^ n" using inv by (auto simp: ht_inv_def)
  note b = core_bounds [OF t(1)]
  have card: "card (ht_elems h) < 2 ^ 26" using few ht_inv_size [OF inv] b(6) by simp
  obtain p where p: "p < length t" "getIndex c key True h = Inr p"
    "t ! p = Null \<and> key \<notin> keyOf c ` elems t \<or> (\<exists>x. t ! p = Entry x \<and> keyOf c x = key)"
    using search_ok [OF t(1,2), of key] by auto
  have el: "ht_elems h = elems t" using b(7) by (simp add: ht_elems_def)
  show ?thesis
  proof (cases "t ! p")
    case Null
    then have absent: "key \<notin> keyOf c ` ht_elems h" using p(3) el by simp
    then have same: "ht_map c h key = None" by (simp add: ht_map_None)
    obtain h' where h': "ht_remove c key h = Inr (Null, h')" "ht_inv c h'" "ht_elems h' = ht_elems h" "h_stateFlags h' = h_stateFlags h"
      using shrink_ok [OF c t card, of Null] b(7) p(1,2) Null by (auto simp: ht_remove_def removeObject_def peek_def)
    have "ht_map c h' = (ht_map c h)(key := None)"
      by (rule map_remove [OF inv h'(2)]) (use h'(3) absent in auto)
    with h' same show ?thesis by simp
  next
    case (Entry x)
    then have x: "keyOf c x = key" "x \<in> ht_elems h" using p(1,3) elemsI [of p t x] el by auto
    let ?h = "h\<lparr>h_fill := h_fill h + 1, h_table := Some (t[p := Reserve]), h_entries := h_entries h - 1\<rparr>"
    have placed: "placed c n (h_poly h) t" using t(1) by (simp add: core_def)
    have used: "used (t[p := Reserve]) = used t" using used_update [OF p(1), of Reserve] Entry by simp
    have live: "live (t[p := Reserve]) + 1 = live t" using live_update [OF p(1), of Reserve] Entry by simp
    have core: "core c n (t[p := Reserve]) ?h"
      using used live t(1) placed_change [OF placed p(1) Entry, of Reserve]
      by (intro core_update [OF t(1)]) (auto simp: core_def)
    have "elems (t[p := Reserve]) = elems t - {x}"
      using elems_update [OF p(1), of Reserve] placed_unique [OF placed _ p(1)] Entry by auto
    then have el': "ht_elems ?h = {y \<in> ht_elems h. keyOf c y \<noteq> key}"
      using elems_key_unique [OF t(1) p(1) Entry] x(1) el by (simp add: ht_elems_def)
    have "card (ht_elems ?h) < 2 ^ 26"
      using card el' card_mono [of "ht_elems h" "ht_elems ?h"] ht_elems_entries [of h] finite_set [of "ht_entries h"] by auto
    then obtain h' where h': "rbind (int32 (h_entries ?h * RESIZE_LOW_WATER)) (\<lambda>low.
      if low < h_size ?h \<and> \<not> getFixed ?h
      then rbind (int32 (h_entries ?h * RESIZE_FACTOR)) (\<lambda>minused. rbind (resize c minused ?h) (\<lambda>h2. Inr (Entry x, h2)))
      else Inr (Entry x, ?h)) = Inr (Entry x, h')" "ht_inv c h'" "ht_elems h' = ht_elems ?h" "h_stateFlags h' = h_stateFlags ?h"
      using shrink_ok [OF c core, of "Entry x"] used t(2,3) by auto
    have "int32 (h_entries h - 1) = Inr (h_entries h - 1)" "int32 (h_fill h + 1) = Inr (h_fill h + 1)"
      using b(1-6) t(3) card by (simp_all add: int32_def)
    then have "ht_remove c key h = Inr (Entry x, h')"
      using h'(1) p(1,2) Entry b(7) by (simp add: ht_remove_def removeObject_def peek_def)
    moreover have "ht_map c h' = (ht_map c h)(key := None)"
      by (rule map_remove [OF inv h'(2)]) (use h'(3) el' in simp)
    moreover have "ht_map c h key = Some x" using ht_map_iff [OF inv] x by blast
    ultimately show ?thesis using h'(2,4) by simp
  qed (use p(3) in auto)
qed

end
