(* ===== verification/HashMap.thy ===== *)
theory HashMap
  imports HashInvariant
begin

section \<open>The hash map\<close>

text \<open>
  The class \<open>HashMap\<close> of \<^verbatim>\<open>src/PLATFORM/src/main/native/cxx/util/HashMap.h\<close> and \<^verbatim>\<open>HashMap.cxx\<close>: the
  operations of a map over the table of \<^verbatim>\<open>HashTable.thy\<close>, whose entries are pairs of a key and a
  value and whose slots are pointers. \<open>hash\<close> stands for \<open>Converter<K>::hashCode\<close>. Releasing
  the memory of keys, values and entries is not modelled.
\<close>

type_synonym ('k, 'v) hashmap = "('k \<times> 'v) hashtable"

definition entry_converter :: "('k \<Rightarrow> int) \<Rightarrow> ('k \<times> 'v, 'k) converter" where
  "entry_converter hash = \<lparr>keyOf = fst, hashCode = hash, slotSize = 8\<rparr>"

subsection \<open>Flags and construction\<close>

definition hm_setFlag :: "ubytetype \<Rightarrow> bool \<Rightarrow> 'e hashtable \<Rightarrow> 'e hashtable" where
  "hm_setFlag bits flag h =
     h\<lparr>h_stateFlags := (if flag then h_stateFlags h OR bits else h_stateFlags h AND NOT bits)\<rparr>"

definition hm_setDeleteKey :: "bool \<Rightarrow> 'e hashtable \<Rightarrow> 'e hashtable" where
  "hm_setDeleteKey = hm_setFlag 0x04"

definition hm_setDeleteValue :: "bool \<Rightarrow> 'e hashtable \<Rightarrow> 'e hashtable" where
  "hm_setDeleteValue = hm_setFlag 0x02"

definition hm_setFixed :: "bool \<Rightarrow> 'e hashtable \<Rightarrow> 'e hashtable" where
  "hm_setFixed = hm_setFlag 0x01"

definition hm_getDeleteKey :: "'e hashtable \<Rightarrow> bool" where
  "hm_getDeleteKey h \<longleftrightarrow> h_stateFlags h AND 0x04 \<noteq> 0"

definition hm_getDeleteValue :: "'e hashtable \<Rightarrow> bool" where
  "hm_getDeleteValue h \<longleftrightarrow> h_stateFlags h AND 0x02 \<noteq> 0"

definition hm_init :: "'e hashtable" where
  "hm_init = \<lparr>h_poly = 0, h_fill = 0, h_size = 0, h_capacity = 0, h_entries = 0, h_stateFlags = 0, h_table = None\<rparr>"

definition hm_new :: "('k \<Rightarrow> int) \<Rightarrow> int \<Rightarrow> bool \<Rightarrow> bool \<Rightarrow> bool \<Rightarrow> ('k, 'v) hashmap result" where
  "hm_new hash cap delkey delval fixed =
     rbind (if cap \<noteq> 0 then resize (entry_converter hash) cap hm_init else Inr hm_init) (\<lambda>h.
       Inr (hm_setFixed fixed (hm_setDeleteValue delval (hm_setDeleteKey delkey h))))"

subsection \<open>Operations\<close>

text \<open>The entry found tells the value returned, \<open>*retkey\<close> and \<open>*status\<close>.\<close>

definition hm_put :: "('k \<Rightarrow> int) \<Rightarrow> 'k \<Rightarrow> 'v \<Rightarrow> ('k, 'v) hashmap \<Rightarrow> (('k \<times> 'v) option \<times> ('k, 'v) hashmap) result" where
  "hm_put hash key val h =
     rbind (ht_put (entry_converter hash) (key, val) h) (\<lambda>(x, h'). Inr (slot_entry x, h'))"

definition hm_remove :: "('k \<Rightarrow> int) \<Rightarrow> 'k \<Rightarrow> ('k, 'v) hashmap \<Rightarrow> (('k \<times> 'v) option \<times> ('k, 'v) hashmap) result" where
  "hm_remove hash key h =
     rbind (ht_remove (entry_converter hash) key h) (\<lambda>(x, h'). Inr (slot_entry x, h'))"

definition hm_get :: "('k \<Rightarrow> int) \<Rightarrow> 'k \<Rightarrow> ('k, 'v) hashmap \<Rightarrow> ('k \<times> 'v) option result" where
  "hm_get hash key h = rbind (ht_get (entry_converter hash) key h) (\<lambda>x. Inr (slot_entry x))"

definition hm_containsKey :: "('k \<Rightarrow> int) \<Rightarrow> 'k \<Rightarrow> ('k, 'v) hashmap \<Rightarrow> bool result" where
  "hm_containsKey hash key h = rbind (hm_get hash key h) (\<lambda>r. Inr (r \<noteq> None))"

definition hm_containsValue :: "'v \<Rightarrow> ('k, 'v) hashmap \<Rightarrow> bool" where
  "hm_containsValue val h = False"

definition hm_size :: "('k, 'v) hashmap \<Rightarrow> int" where
  "hm_size h = h_entries h"

definition hm_isEmpty :: "('k, 'v) hashmap \<Rightarrow> bool" where
  "hm_isEmpty h \<longleftrightarrow> hm_size h = 0"

definition hm_capacity :: "('k, 'v) hashmap \<Rightarrow> int" where
  "hm_capacity h = h_capacity h"

definition hm_clear :: "('k, 'v) hashmap \<Rightarrow> ('k, 'v) hashmap" where
  "hm_clear h = ht_clear h"

subsection \<open>Iterators\<close>

record hash_iter =
  hi_prev :: nat
  hi_next :: nat

text \<open>\<open>moveNext\<close>: the next slot with an entry, or the end of the table.\<close>

function moveNext :: "'e hashtable \<Rightarrow> nat \<Rightarrow> nat result" where
  "moveNext h i =
     (if int i < h_size h
      then case h_table h of
             None \<Rightarrow> Inl NullDeref
           | Some table \<Rightarrow> rbind (peek table i) (\<lambda>p. if p \<noteq> Null \<and> p \<noteq> Reserve then Inr i else moveNext h (i + 1))
      else Inr i)"
  by pat_completeness auto
termination
  by (relation "measure (\<lambda>(h, i). nat (h_size h) - i)") auto

declare moveNext.simps [simp del]

definition hi_new :: "'e hashtable \<Rightarrow> hash_iter result" where
  "hi_new h = rbind (moveNext h 0) (\<lambda>n. Inr \<lparr>hi_prev = 0, hi_next = n\<rparr>)"

definition hi_hasNext :: "'e hashtable \<Rightarrow> hash_iter \<Rightarrow> bool" where
  "hi_hasNext h it \<longleftrightarrow> int (hi_next it) < h_size h"

definition hi_step :: "'e hashtable \<Rightarrow> hash_iter \<Rightarrow> ('e slot \<times> hash_iter) result" where
  "hi_step h it =
     (case h_table h of
        None \<Rightarrow> Inl NullDeref
      | Some table \<Rightarrow>
          rbind (peek table (hi_next it)) (\<lambda>p.
          rbind (moveNext h (hi_next it + 1)) (\<lambda>n. Inr (p, \<lparr>hi_prev = hi_next it, hi_next = n\<rparr>))))"

text \<open>
  Using the pointer a step returns: null is no object, the reserve mark points to something that
  is no \<open>MapEntry\<close>.
\<close>

fun slot_ref :: "'e slot \<Rightarrow> 'e option result" where
  "slot_ref Null = Inr None"
| "slot_ref Reserve = Inl BadCast"
| "slot_ref (Entry e) = Inr (Some e)"

fun slot_key :: "('k \<times> 'v) slot \<Rightarrow> 'k result" where
  "slot_key Null = Inl NullDeref"
| "slot_key Reserve = Inl BadCast"
| "slot_key (Entry e) = Inr (fst e)"

definition entryIter_next :: "'e hashtable \<Rightarrow> hash_iter \<Rightarrow> ('e option \<times> hash_iter) result" where
  "entryIter_next h it = rbind (hi_step h it) (\<lambda>(p, it'). rbind (slot_ref p) (\<lambda>e. Inr (e, it')))"

definition keyIter_next :: "('k, 'v) hashmap \<Rightarrow> hash_iter \<Rightarrow> ('k option \<times> hash_iter) result" where
  "keyIter_next h it = rbind (hi_step h it) (\<lambda>(p, it'). rbind (slot_key p) (\<lambda>k. Inr (Some k, it')))"

definition entryIter_remove :: "('k \<Rightarrow> int) \<Rightarrow> ('k, 'v) hashmap \<Rightarrow> hash_iter \<Rightarrow> (('k, 'v) hashmap \<times> hash_iter) result" where
  "entryIter_remove hash h it =
     (case h_table h of
        None \<Rightarrow> Inl NullDeref
      | Some table \<Rightarrow>
          rbind (peek table (hi_prev it)) (\<lambda>p.
          rbind (slot_key p) (\<lambda>k.
          rbind (hm_remove hash k h) (\<lambda>(_, h').
          rbind (moveNext h' (hi_prev it)) (\<lambda>n. Inr (h', it\<lparr>hi_next := n\<rparr>))))))"

definition keyIter_remove :: "('k \<Rightarrow> int) \<Rightarrow> ('k, 'v) hashmap \<Rightarrow> hash_iter \<Rightarrow> (('k, 'v) hashmap \<times> hash_iter) result" where
  "keyIter_remove = entryIter_remove"

subsection \<open>\<open>putAll\<close>\<close>

text \<open>The maps are the one changed and, when there is one, the one that takes the replaced entries.\<close>

definition hm_putAll_body :: "('k \<Rightarrow> int) \<Rightarrow> 'k \<times> 'v \<Rightarrow> ('k, 'v) hashmap \<times> ('k, 'v) hashmap option \<Rightarrow>
    (('k, 'v) hashmap \<times> ('k, 'v) hashmap option) result" where
  "hm_putAll_body hash = (\<lambda>(key, val) (this, fillmap).
     rbind (hm_put hash key val this) (\<lambda>(old, this').
       case (fillmap, old) of
         (Some fm, Some (retkey, val')) \<Rightarrow> rbind (hm_put hash retkey val' fm) (\<lambda>(_, fm'). Inr (this', Some fm'))
       | _ \<Rightarrow> Inr (this', fillmap)))"

definition hm_putAll :: "nat \<Rightarrow> ('k \<Rightarrow> int) \<Rightarrow> ('k, 'v) hashmap \<Rightarrow> ('k, 'v) hashmap option \<Rightarrow> ('k, 'v) hashmap \<Rightarrow>
    (('k, 'v) hashmap \<times> ('k, 'v) hashmap option) option result" where
  "hm_putAll fuel hash other fillmap this =
     rbind (hi_new other) (\<lambda>it.
       iterate (hi_hasNext other) (entryIter_next other) fuel it (hm_putAll_body hash) (this, fillmap))"

subsection \<open>The hash map as a map\<close>

definition hm_contents :: "('k, 'v) hashmap \<Rightarrow> 'k \<rightharpoonup> 'v" where
  "hm_contents h = map_of (ht_entries h)"

definition hm_inv :: "('k \<Rightarrow> int) \<Rightarrow> ('k, 'v) hashmap \<Rightarrow> bool" where
  "hm_inv hash h \<longleftrightarrow> ht_inv (entry_converter hash) h \<and> \<not> getFixed h"

lemma entry_converter_ok [simp]: "converter_ok (entry_converter hash)"
  by (simp add: converter_ok_def entry_converter_def)

lemma keyOf_entry [simp]: "keyOf (entry_converter hash) = fst"
  by (simp add: entry_converter_def)

lemma ht_map_contents: "ht_map (entry_converter hash) h k = map_option (Pair k) (hm_contents h k)"
proof -
  have "map_of (map (\<lambda>e. (fst e, e)) xs) k = map_option (Pair k) (map_of xs k)" for xs :: "('a \<times> 'b) list"
    by (induction xs) auto
  then show ?thesis by (simp add: ht_map_def hm_contents_def)
qed

lemma dom_contents: "dom (ht_map (entry_converter hash) h) = dom (hm_contents h)"
  by (auto simp: ht_map_contents)

lemma contents_update:
  assumes "ht_map (entry_converter hash) h' = (ht_map (entry_converter hash) h)(k := map_option (Pair k) v)"
  shows "hm_contents h' = (hm_contents h)(k := v)"
proof
  fix x
  have "map_option (Pair x) (hm_contents h' x) = map_option (Pair x) (((hm_contents h)(k := v)) x)"
    using fun_cong [OF assms, of x] by (auto simp: ht_map_contents)
  then show "hm_contents h' x = ((hm_contents h)(k := v)) x"
    by (rule option.inj_map_strong [rotated]) simp
qed

lemma hm_put_ok:
  assumes "hm_inv hash h" "card (dom (hm_contents h)) < 2 ^ 26"
  shows "\<exists>h'. hm_put hash k v h = Inr (map_option (Pair k) (hm_contents h k), h') \<and> hm_inv hash h' \<and>
     hm_contents h' = (hm_contents h)(k \<mapsto> v)"
proof -
  let ?c = "entry_converter hash"
  obtain x h' where r: "ht_put ?c (k, v) h = Inr (x, h')" "slot_entry x = ht_map ?c h k" "ht_inv ?c h'"
    "ht_map ?c h' = (ht_map ?c h)(k \<mapsto> (k, v))" "h_stateFlags h' = h_stateFlags h"
    using ht_put_ok [of ?c h "(k, v)"] assms by (auto simp: hm_inv_def dom_contents)
  have "hm_contents h' = (hm_contents h)(k \<mapsto> v)" using r(4) by (intro contents_update) simp
  with r assms(1) show ?thesis
    by (auto simp: hm_put_def ht_map_contents hm_inv_def getFixed_def)
qed

lemma hm_remove_ok:
  assumes "hm_inv hash h" "card (dom (hm_contents h)) < 2 ^ 26"
  shows "\<exists>h'. hm_remove hash k h = Inr (map_option (Pair k) (hm_contents h k), h') \<and> hm_inv hash h' \<and>
     hm_contents h' = (hm_contents h)(k := None)"
proof -
  let ?c = "entry_converter hash"
  obtain x h' where r: "ht_remove ?c k h = Inr (x, h')" "slot_entry x = ht_map ?c h k" "ht_inv ?c h'"
    "ht_map ?c h' = (ht_map ?c h)(k := None)" "h_stateFlags h' = h_stateFlags h"
    using ht_remove_ok [of ?c h k] assms by (auto simp: hm_inv_def dom_contents)
  have "hm_contents h' = (hm_contents h)(k := None)" using r(4) by (intro contents_update) simp
  with r assms(1) show ?thesis
    by (auto simp: hm_remove_def ht_map_contents hm_inv_def getFixed_def)
qed

lemma hm_get_ok: "ht_inv (entry_converter hash) h \<Longrightarrow> hm_get hash k h = Inr (map_option (Pair k) (hm_contents h k))"
  using ht_get_ok [of "entry_converter hash" h k] by (auto simp: hm_get_def ht_map_contents)

lemma hm_size_ok: "ht_inv (entry_converter hash) h \<Longrightarrow> hm_size h = int (card (dom (hm_contents h)))"
  using ht_inv_size [of "entry_converter hash" h] by (simp add: hm_size_def dom_contents)

interpretation hm: map_store "hm_put hash" "hm_remove hash" "hm_get hash" "hm_inv hash" hm_contents "2 ^ 26" for hash :: "'k \<Rightarrow> int"
proof unfold_locales
  fix h :: "('k, 'v) hashmap" and k :: 'k and v :: 'v
  assume inv: "hm_inv hash h"
  show "finite (dom (hm_contents h))" by (simp add: hm_contents_def finite_dom_map_of)
  show "hm_get hash k h = Inr (map_option (Pair k) (hm_contents h k))" using inv by (simp add: hm_get_ok hm_inv_def)
  assume "card (dom (hm_contents h)) < 2 ^ 26"
  with inv show "\<exists>h'. hm_put hash k v h = Inr (map_option (Pair k) (hm_contents h k), h') \<and> hm_inv hash h' \<and>
      hm_contents h' = (hm_contents h)(k \<mapsto> v)"
    "\<exists>h'. hm_remove hash k h = Inr (map_option (Pair k) (hm_contents h k), h') \<and> hm_inv hash h' \<and>
      hm_contents h' = (hm_contents h)(k := None)"
    by (rule hm_put_ok hm_remove_ok)+
qed

subsection \<open>Construction and clearing\<close>

lemma getFixed_odd: "getFixed h \<longleftrightarrow> odd (h_stateFlags h)"
  by (simp add: getFixed_def and_one_eq mod2_eq_if)

lemma getFixed_setFlag: "getFixed (hm_setFixed flag h) = flag" "getFixed (hm_setDeleteKey flag h) = getFixed h"
  "getFixed (hm_setDeleteValue flag h) = getFixed h"
  by (auto simp: getFixed_odd hm_setFixed_def hm_setDeleteKey_def hm_setDeleteValue_def hm_setFlag_def even_or_iff even_and_iff
    even_not_iff)

lemma ht_inv_flags: "ht_inv c (h\<lparr>h_stateFlags := f\<rparr>) = ht_inv c h"
  by (simp add: ht_inv_def empty_table_def core_def shaped_def)

lemma resize_fresh:
  assumes c: "converter_ok c" and e: "empty_table h" and cap: "0 \<le> cap" "cap < 2 ^ 27"
  shows "\<exists>h'. resize c cap h = Inr h' \<and> ht_inv c h' \<and> ht_elems h' = {} \<and> cap < h_capacity h'"
proof -
  obtain n t h' where r: "resize c cap h = Inr h'" "core c n t h'" "elems t = ht_elems h" "cap < 2 ^ n"
    "h_fill h' = h_entries h'" "h_entries h' = h_entries h" "h_capacity h' = h_size h'"
    using resize_ok [OF c disjI1 [OF e], of cap] cap e by (auto simp: empty_table_def)
  have e0: "h_entries h' = 0" "h_fill h' = 0" using r(5,6) e by (simp_all add: empty_table_def)
  note b = core_bounds [OF r(2)]
  have "ht_inv c h'" using r(2) b(9) e0 unfolding ht_inv_def by (intro disjI2 exI [of _ n] exI [of _ t]) simp
  moreover have "ht_elems h' = {}" using r(3) b(7) e by (simp add: ht_elems_def empty_table_def)
  ultimately show ?thesis using r(1,4,7) b(3) by simp
qed

lemma hm_new_ok:
  assumes "0 \<le> cap" "cap < 2 ^ 27"
  shows "\<exists>h. hm_new hash cap delkey delval fixed = Inr (h :: ('k, 'v) hashmap) \<and> ht_inv (entry_converter hash) h \<and>
     hm_contents h = Map.empty \<and> getFixed h = fixed \<and> (cap \<noteq> 0 \<longrightarrow> cap < hm_capacity h)"
proof -
  let ?c = "entry_converter hash :: ('k \<times> 'v, 'k) converter"
  let ?fl = "\<lambda>h :: ('k, 'v) hashmap. hm_setFixed fixed (hm_setDeleteValue delval (hm_setDeleteKey delkey h))"
  have fl: "ht_inv ?c (?fl h) = ht_inv ?c h" "hm_contents (?fl h) = hm_contents h" "getFixed (?fl h) = fixed"
    "hm_capacity (?fl h) = hm_capacity h" for h
    by (simp_all add: getFixed_setFlag, simp_all add: hm_setFixed_def hm_setDeleteValue_def hm_setDeleteKey_def hm_setFlag_def ht_inv_flags
      hm_contents_def ht_entries_def hm_capacity_def)
  have e: "empty_table (hm_init :: ('k, 'v) hashmap)" by (simp add: empty_table_def hm_init_def)
  show ?thesis
  proof (cases "cap = 0")
    case True
    with e show ?thesis
      by (simp add: hm_new_def fl) (simp add: ht_inv_def hm_contents_def ht_entries_def empty_table_def)
  next
    case False
    obtain h where r: "resize ?c cap hm_init = Inr h" "ht_inv ?c h" "ht_elems h = {}" "cap < h_capacity h"
      using resize_fresh [OF entry_converter_ok e assms, of hash] by auto
    have "set (ht_entries h) = {}" using r(3) by simp
    then have "hm_contents h = Map.empty" unfolding hm_contents_def by (simp only: set_empty map_of.simps)
    then show ?thesis using False r by (simp add: hm_new_def fl) (simp add: hm_capacity_def)
  qed
qed

lemma hm_clear_ok: "ht_inv (entry_converter hash) h \<Longrightarrow> ht_inv (entry_converter hash) (hm_clear h) \<and> hm_contents (hm_clear h) = Map.empty \<and>
    hm_size (hm_clear h) = 0"
  by (auto simp: hm_clear_def ht_clear_def ht_inv_def empty_table_def hm_contents_def ht_entries_def hm_size_def core_def shaped_def
    split: option.splits)

subsection \<open>Iteration\<close>

definition table_of :: "'e hashtable \<Rightarrow> 'e slot list" where
  "table_of h = (case h_table h of None \<Rightarrow> [] | Some t \<Rightarrow> t)"

definition sized :: "'e hashtable \<Rightarrow> bool" where
  "sized h \<longleftrightarrow> h_size h = int (length (table_of h))"

lemma ht_inv_sized: "ht_inv c h \<Longrightarrow> sized h"
  by (auto simp: ht_inv_def sized_def table_of_def empty_table_def core_def shaped_def)

lemma ht_entries_table: "ht_entries h = entry_list (table_of h)"
  by (simp add: ht_entries_def table_of_def split: option.splits)

definition hi_rest :: "'e hashtable \<Rightarrow> hash_iter \<Rightarrow> 'e list" where
  "hi_rest h it = entry_list (drop (hi_next it) (table_of h))"

definition hi_ok :: "'e hashtable \<Rightarrow> hash_iter \<Rightarrow> bool" where
  "hi_ok h it \<longleftrightarrow> sized h \<and> hi_next it \<le> length (table_of h) \<and>
     (hi_next it < length (table_of h) \<longrightarrow> (\<exists>e. table_of h ! hi_next it = Entry e))"

lemma moveNext_ok:
  assumes "sized h" "i \<le> length (table_of h)"
  shows "\<exists>n. moveNext h i = Inr n \<and> n \<le> length (table_of h) \<and> (n < length (table_of h) \<longrightarrow> (\<exists>e. table_of h ! n = Entry e)) \<and>
     entry_list (drop n (table_of h)) = entry_list (drop i (table_of h))"
  using assms
proof (induction "length (table_of h) - i" arbitrary: i)
  case 0
  then show ?case by (subst moveNext.simps) (auto simp: sized_def)
next
  case (Suc k)
  then have i: "i < length (table_of h)" by simp
  then obtain t where t: "h_table h = Some t" "table_of h = t" by (auto simp: table_of_def split: option.splits)
  show ?case
  proof (cases "t ! i")
    case (Entry e)
    then show ?thesis using i Suc.prems t by (subst moveNext.simps) (auto simp: sized_def peek_def)
  next
    case Null
    have "moveNext h i = moveNext h (i + 1)" using i Suc.prems t Null by (subst moveNext.simps) (auto simp: sized_def peek_def)
    moreover have "entry_list (drop i t) = entry_list (drop (i + 1) t)"
      using i t(2) Null by (simp add: Cons_nth_drop_Suc [symmetric])
    ultimately show ?thesis using Suc.hyps(1) [of "i + 1"] Suc.hyps(2) Suc.prems i t by simp
  next
    case Reserve
    have "moveNext h i = moveNext h (i + 1)" using i Suc.prems t Reserve by (subst moveNext.simps) (auto simp: sized_def peek_def)
    moreover have "entry_list (drop i t) = entry_list (drop (i + 1) t)"
      using i t(2) Reserve by (simp add: Cons_nth_drop_Suc [symmetric])
    ultimately show ?thesis using Suc.hyps(1) [of "i + 1"] Suc.hyps(2) Suc.prems i t by simp
  qed
qed

lemma hi_new_ok: "sized h \<Longrightarrow> \<exists>it. hi_new h = Inr it \<and> hi_ok h it \<and> hi_rest h it = ht_entries h"
  using moveNext_ok [of h 0] by (auto simp: hi_new_def hi_ok_def hi_rest_def ht_entries_table)

lemma hi_hasNext_ok: "hi_ok h it \<Longrightarrow> hi_hasNext h it \<longleftrightarrow> hi_rest h it \<noteq> []"
  by (cases "hi_next it < length (table_of h)")
    (auto simp: hi_ok_def hi_hasNext_def hi_rest_def sized_def Cons_nth_drop_Suc [symmetric])

lemma hi_step_ok:
  assumes "hi_ok h it" "hi_rest h it = e # es"
  shows "\<exists>it'. hi_step h it = Inr (Entry e, it') \<and> hi_ok h it' \<and> hi_rest h it' = es"
proof -
  have lt: "hi_next it < length (table_of h)" using assms by (auto simp: hi_ok_def hi_rest_def intro: ccontr)
  then obtain t where t: "h_table h = Some t" "table_of h = t" by (auto simp: table_of_def split: option.splits)
  obtain x where x: "t ! hi_next it = Entry x" using assms(1) lt t by (auto simp: hi_ok_def)
  have "x = e" "entry_list (drop (hi_next it + 1) t) = es"
    using assms(2) lt t(2) x by (simp_all add: hi_rest_def Cons_nth_drop_Suc [symmetric])
  moreover obtain n where "moveNext h (hi_next it + 1) = Inr n" "n \<le> length t" "n < length t \<longrightarrow> (\<exists>e. t ! n = Entry e)"
    "entry_list (drop n t) = entry_list (drop (hi_next it + 1) t)"
    using moveNext_ok [of h "hi_next it + 1"] assms(1) lt t(2) by (auto simp: hi_ok_def)
  ultimately show ?thesis using assms(1) lt t x by (auto simp: hi_step_def peek_def hi_ok_def hi_rest_def)
qed

interpretation hash_entry_iterator: cursor_iterator "hi_hasNext h" "entryIter_next h" "hi_ok h" "hi_rest h" for h :: "'e hashtable"
proof unfold_locales
  fix it e es
  assume ok: "hi_ok h it"
  then show "hi_hasNext h it \<longleftrightarrow> hi_rest h it \<noteq> []" by (rule hi_hasNext_ok)
  show "\<exists>it'. entryIter_next h it = Inr (Some e, it') \<and> hi_ok h it' \<and> hi_rest h it' = es" if "hi_rest h it = e # es"
    using hi_step_ok [OF ok that] by (auto simp: entryIter_next_def)
qed

interpretation hash_key_iterator: cursor_iterator "hi_hasNext h" "keyIter_next h" "hi_ok h" "\<lambda>it. map fst (hi_rest h it)"
  for h :: "('k, 'v) hashmap"
proof unfold_locales
  fix it k ks
  assume ok: "hi_ok h it"
  then show "hi_hasNext h it \<longleftrightarrow> map fst (hi_rest h it) \<noteq> []" by (simp add: hi_hasNext_ok)
  assume "map fst (hi_rest h it) = k # ks"
  then obtain e es where "hi_rest h it = e # es" "k = fst e" "ks = map fst es" by auto
  with hi_step_ok [OF ok, of e es]
  show "\<exists>it'. keyIter_next h it = Inr (Some k, it') \<and> hi_ok h it' \<and> map fst (hi_rest h it') = ks"
    by (auto simp: keyIter_next_def)
qed

subsection \<open>\<open>putAll\<close>\<close>

lemma hm_putAll_steps:
  assumes "hm_inv hash this" "card (dom (hm_contents this)) + length es \<le> 2 ^ 26" "distinct (map fst es)"
  shows "\<exists>this'. rfold (hm_putAll_body hash) es (this, None) = Inr (this', None) \<and> hm_inv hash this' \<and>
     hm_contents this' = hm_contents this ++ map_of es"
  using assms
proof (induction es arbitrary: this)
  case (Cons e es)
  obtain k v where e: "e = (k, v)" by (cases e)
  obtain h1 where h1: "hm_put hash k v this = Inr (map_option (Pair k) (hm_contents this k), h1)" "hm_inv hash h1"
    "hm_contents h1 = (hm_contents this)(k \<mapsto> v)"
    using hm_put_ok [OF Cons.prems(1), of k v] Cons.prems(2) by auto
  have "card (dom (hm_contents h1)) \<le> Suc (card (dom (hm_contents this)))"
    using card_insert_le_m1 [of "Suc (card (dom (hm_contents this)))" "dom (hm_contents this)" k] h1(3) by simp
  then obtain this' where r: "rfold (hm_putAll_body hash) es (h1, None) = Inr (this', None)" "hm_inv hash this'"
    "hm_contents this' = hm_contents h1 ++ map_of es"
    using Cons.IH [OF h1(2)] Cons.prems(2,3) by auto
  have "map_of es k = None" using Cons.prems(3) e by (simp add: map_of_eq_None_iff)
  then have "hm_contents this' = hm_contents this ++ map_of (e # es)"
    unfolding r(3) h1(3) e by (intro ext) (simp add: map_add_def split: option.splits)
  moreover have "hm_putAll_body hash e (this, None) = Inr (h1, None)" using h1(1) e by (simp add: hm_putAll_body_def)
  ultimately show ?case using r(1,2) by (intro exI [of _ this']) (simp del: map_of.simps)
qed simp

lemma hm_putAll_fill_steps:
  assumes "hm_inv hash this" "hm_inv hash fm" "card (dom (hm_contents this)) + length es \<le> 2 ^ 26"
    "card (dom (hm_contents fm)) + length es \<le> 2 ^ 26" "distinct (map fst es)"
  shows "\<exists>this' fm'. rfold (hm_putAll_body hash) es (this, Some fm) = Inr (this', Some fm') \<and> hm_inv hash this' \<and> hm_inv hash fm' \<and>
     hm_contents this' = hm_contents this ++ map_of es \<and>
     hm_contents fm' = hm_contents fm ++ (hm_contents this |` set (map fst es))"
  using assms
proof (induction es arbitrary: this fm)
  case (Cons e es)
  obtain k v where e: "e = (k, v)" by (cases e)
  obtain h1 where h1: "hm_put hash k v this = Inr (map_option (Pair k) (hm_contents this k), h1)" "hm_inv hash h1"
    "hm_contents h1 = (hm_contents this)(k \<mapsto> v)"
    using hm_put_ok [OF Cons.prems(1), of k v] Cons.prems(3) by auto
  have "\<exists>f1. hm_putAll_body hash e (this, Some fm) = Inr (h1, Some f1) \<and> hm_inv hash f1 \<and>
      hm_contents f1 = hm_contents fm ++ (hm_contents this |` {k})"
  proof (cases "hm_contents this k")
    case None
    then have "hm_contents this |` {k} = Map.empty" by (auto simp: restrict_map_def)
    with None h1(1) e Cons.prems(2) show ?thesis by (simp add: hm_putAll_body_def)
  next
    case (Some w)
    obtain f1 where "hm_put hash k w fm = Inr (map_option (Pair k) (hm_contents fm k), f1)" "hm_inv hash f1"
      "hm_contents f1 = (hm_contents fm)(k \<mapsto> w)"
      using hm_put_ok [OF Cons.prems(2), of k w] Cons.prems(4) by auto
    moreover have "(hm_contents fm)(k \<mapsto> w) = hm_contents fm ++ (hm_contents this |` {k})"
      using Some by (auto simp: map_add_def restrict_map_def split: option.splits)
    ultimately show ?thesis using Some h1(1) e by (simp add: hm_putAll_body_def)
  qed
  then obtain f1 where f1: "hm_putAll_body hash e (this, Some fm) = Inr (h1, Some f1)" "hm_inv hash f1"
    "hm_contents f1 = hm_contents fm ++ (hm_contents this |` {k})" by blast
  have "card (dom (hm_contents h1)) \<le> Suc (card (dom (hm_contents this)))"
    using card_insert_le_m1 [of "Suc (card (dom (hm_contents this)))" "dom (hm_contents this)" k] h1(3) by simp
  moreover have "card (dom (hm_contents f1)) \<le> Suc (card (dom (hm_contents fm)))"
  proof -
    have "dom (hm_contents f1) \<subseteq> insert k (dom (hm_contents fm))" using f1(3) by (auto simp: restrict_map_def split: if_splits)
    then have "card (dom (hm_contents f1)) \<le> card (insert k (dom (hm_contents fm)))"
      by (intro card_mono) (simp_all add: hm_contents_def finite_dom_map_of)
    also have "\<dots> \<le> Suc (card (dom (hm_contents fm)))"
      by (rule card_insert_le_m1) simp_all
    finally show ?thesis .
  qed
  ultimately obtain this' fm' where r: "rfold (hm_putAll_body hash) es (h1, Some f1) = Inr (this', Some fm')" "hm_inv hash this'" "hm_inv hash fm'"
    "hm_contents this' = hm_contents h1 ++ map_of es" "hm_contents fm' = hm_contents f1 ++ (hm_contents h1 |` set (map fst es))"
    using Cons.IH [OF h1(2) f1(2)] Cons.prems(3-5) by auto
  have k: "map_of es k = None" "k \<notin> set (map fst es)" using Cons.prems(5) e by (simp_all add: map_of_eq_None_iff)
  then have "hm_contents this' = hm_contents this ++ map_of (e # es)"
    unfolding r(4) h1(3) e by (intro ext) (simp add: map_add_def split: option.splits)
  moreover have "hm_contents fm' = hm_contents fm ++ (hm_contents this |` set (map fst (e # es)))"
    using k(2) unfolding r(5) f1(3) h1(3) e by (intro ext) (auto simp: map_add_def restrict_map_def split: option.splits)
  ultimately show ?case using r(1-3) f1(1) by (intro exI [of _ this'] exI [of _ fm']) (simp del: map_of.simps)
qed (simp add: restrict_map_def map_add_def)

lemma hm_putAll_fold:
  assumes "ht_inv (entry_converter hash) other" "length (ht_entries other) < fuel"
  shows "hm_putAll fuel hash other fillmap this = done_with (rfold (hm_putAll_body hash) (ht_entries other) (this, fillmap))"
proof -
  obtain it where "hi_new other = Inr it" "hi_ok other it" "hi_rest other it = ht_entries other"
    using hi_new_ok [OF ht_inv_sized [OF assms(1)]] by blast
  with hash_entry_iterator.iterate_ok [of other it fuel "hm_putAll_body hash" "(this, fillmap)"] assms(2)
  show ?thesis by (simp add: hm_putAll_def)
qed

lemma hm_entries_distinct: "ht_inv (entry_converter hash) h \<Longrightarrow> distinct (map fst (ht_entries h))"
  using ht_inv_keys [of "entry_converter hash" h] by simp

subsection \<open>Removal through an iterator\<close>

text \<open>Removal of an entry that is there, when no smaller table is built.\<close>

lemma ht_remove_in_place:
  assumes t: "core c n t h" and p: "p < length t" "t ! p = Entry e"
    and few: "h_size h \<le> (h_entries h - 1) * RESIZE_LOW_WATER" "h_entries h \<le> 2 ^ 26" "h_fill h < 2 ^ 31 - 1"
  shows "ht_remove c (keyOf c e) h =
     Inr (Entry e, h\<lparr>h_fill := h_fill h + 1, h_table := Some (t[p := Reserve]), h_entries := h_entries h - 1\<rparr>)"
proof -
  note b = core_bounds [OF t]
  have "getIndex c (keyOf c e) True h = Inr p"
    using t getIndex_present [of n t h c p e] p by (simp add: core_def)
  then show ?thesis using b(1,2,7) p few
    by (simp add: ht_remove_def removeObject_def peek_def int32_def RESIZE_LOW_WATER_def getFixed_def)
qed

text \<open>Where the iterator is after a removal: at the old position, in the table as it is then.\<close>

lemma entryIter_remove_ok:
  assumes inv: "hm_inv hash h" and few: "card (dom (hm_contents h)) < 2 ^ 26"
    and ok: "hi_ok h it" and nxt: "entryIter_next h it = Inr (Some e, it1)"
  shows "\<exists>h' it2. entryIter_remove hash h it1 = Inr (h', it2) \<and> hm_inv hash h' \<and>
     hm_contents h' = (hm_contents h)(fst e := None) \<and> hi_rest h' it2 = entry_list (drop (hi_next it) (table_of h')) \<and>
     (h_size h \<le> (h_entries h - 1) * RESIZE_LOW_WATER \<longrightarrow> hi_rest h' it2 = hi_rest h it1)"
proof -
  let ?c = "entry_converter hash" and ?p = "hi_next it"
  obtain t where t: "h_table h = Some t" "table_of h = t"
    using nxt by (cases "h_table h") (simp_all add: entryIter_next_def hi_step_def table_of_def)
  have p: "?p < length t" "t ! ?p = Entry e"
    using nxt t by (auto simp: entryIter_next_def hi_step_def peek_def result_simps split: if_splits elim!: slot_ref.elims)
  have it1: "hi_prev it1 = ?p" "hi_rest h it1 = entry_list (drop (Suc ?p) t)"
  proof -
    have "hi_rest h it = e # entry_list (drop (Suc ?p) t)" using p t(2) by (simp add: hi_rest_def Cons_nth_drop_Suc [symmetric])
    with hi_step_ok [OF ok] obtain it' where "hi_step h it = Inr (Entry e, it')" "hi_rest h it' = entry_list (drop (Suc ?p) t)" by blast
    moreover then have "it1 = it'" using nxt by (simp add: entryIter_next_def)
    moreover have "hi_prev it1 = ?p" using nxt t p by (auto simp: entryIter_next_def hi_step_def peek_def result_simps)
    ultimately show "hi_prev it1 = ?p" "hi_rest h it1 = entry_list (drop (Suc ?p) t)" by simp_all
  qed
  obtain h' where h': "hm_remove hash (fst e) h = Inr (map_option (Pair (fst e)) (hm_contents h (fst e)), h')" "hm_inv hash h'"
    "hm_contents h' = (hm_contents h)(fst e := None)" using hm_remove_ok [OF inv few] by blast
  have "sized h'" using h'(2) ht_inv_sized by (auto simp: hm_inv_def)
  have "\<exists>m. moveNext h' ?p = Inr m \<and> entry_list (drop m (table_of h')) = entry_list (drop ?p (table_of h'))"
  proof (cases "?p \<le> length (table_of h')")
    case True
    then show ?thesis using moveNext_ok [OF \<open>sized h'\<close>, of ?p] by blast
  next
    case False
    then have "moveNext h' ?p = Inr ?p" using \<open>sized h'\<close> by (subst moveNext.simps) (simp add: sized_def)
    then show ?thesis by blast
  qed
  then obtain m where m: "moveNext h' ?p = Inr m" "entry_list (drop m (table_of h')) = entry_list (drop ?p (table_of h'))" by blast
  have rem: "entryIter_remove hash h it1 = Inr (h', it1\<lparr>hi_next := m\<rparr>)"
    using p t(1) it1(1) h'(1) m(1) by (simp add: entryIter_remove_def peek_def)
  have "entry_list (drop ?p (table_of h')) = hi_rest h it1" if low: "h_size h \<le> (h_entries h - 1) * RESIZE_LOW_WATER"
  proof -
    have "\<not> empty_table h" using t(1) by (simp add: empty_table_def)
    then obtain n u where n: "core ?c n u h" "used u < 2 ^ n" "h_fill h + h_entries h \<le> 2 * 2 ^ n"
      using inv by (auto simp: hm_inv_def ht_inv_def)
    note b = core_bounds [OF n(1)]
    have "u = t" using b(7) t(1) by simp
    moreover have "h_entries h \<le> 2 ^ 26" using few hm_size_ok [of hash h] inv by (simp add: hm_inv_def hm_size_def)
    moreover have "h_fill h < 2 ^ 31 - 1" using n(3) b(1,3,4) by simp
    ultimately have "ht_remove ?c (fst e) h =
        Inr (Entry e, h\<lparr>h_fill := h_fill h + 1, h_table := Some (t[?p := Reserve]), h_entries := h_entries h - 1\<rparr>)"
      using ht_remove_in_place [OF n(1), of ?p e] p low by simp
    then have "table_of h' = t[?p := Reserve]" using h'(1) by (auto simp: hm_remove_def table_of_def)
    then show ?thesis using p(1) it1(2) by (simp add: Cons_nth_drop_Suc [symmetric] drop_update_swap)
  qed
  with rem h'(2,3) m(2) show ?thesis by (simp add: hi_rest_def)
qed

subsection \<open>A full table\<close>

text \<open>Without a null slot, a search for a key that is not in the table never ends.\<close>

lemma full_table_never:
  assumes "core (entry_converter hash) n t h" "Null \<notin> set t" "hm_contents h k = None"
  shows "hm_get hash k h = Inl NoReturn" "hm_remove hash k h = Inl NoReturn"
proof -
  let ?c = "entry_converter hash"
  note b = core_bounds [OF assms(1)]
  have absent: "k \<notin> fst ` elems t"
    using assms(3) b(7) by (simp add: hm_contents_def ht_entries_def map_of_eq_None_iff)
  have "getIndex ?c k True h = Inl NoReturn"
  proof (rule getIndex_never)
    show "shaped n t h" using assms(1) by (simp add: core_def)
    fix p
    assume p: "p < length t"
    then have "t ! p \<noteq> Null" using assms(2) by (metis nth_mem)
    then show "\<not> stops ?c k True (t ! p)"
      using absent elemsI [OF p] by (cases "t ! p") (auto simp: image_iff)
  qed
  then show "hm_get hash k h = Inl NoReturn" "hm_remove hash k h = Inl NoReturn"
    by (simp_all add: hm_get_def ht_get_def hm_remove_def ht_remove_def b(7))
qed

end
