(* ===== verification/HashSet.thy ===== *)
theory HashSet
  imports HashMap
begin

section \<open>The hash set\<close>

text \<open>
  The class \<open>HashSet\<close> of \<^verbatim>\<open>src/PLATFORM/src/main/native/cxx/util/HashSet.h\<close> and \<^verbatim>\<open>HashSet.cxx\<close>. Its table
  holds the elements themselves, and two values of the element type, \<open>NULL_VALUE\<close> and
  \<open>RESERVE\<close>, mark the free and the reserved slots: an element given to an operation is therefore
  a value of the type of slots, which may be one of the two marks. The code repeats the
  routines of the hash map; their models are the instances of the routines of \<^verbatim>\<open>HashTable.thy\<close>
  for such elements. \<open>hash\<close> stands for \<open>Converter<E>::hashCode\<close> and \<open>bytes\<close> for \<open>sizeof(E)\<close>. \<open>memset\<close>
  fills a new table with the bytes of \<open>NULL_VALUE\<close>, which for the types of \<^verbatim>\<open>Converter.cxx\<close> is
  \<open>0\<close> or \<open>-1\<close>, so that every slot reads \<open>NULL_VALUE\<close>.
\<close>

type_synonym 'e hashset = "'e hashtable"

definition element_converter :: "('e slot \<Rightarrow> int) \<Rightarrow> int \<Rightarrow> ('e, 'e slot) converter" where
  "element_converter hash bytes = \<lparr>keyOf = Entry, hashCode = hash, slotSize = bytes\<rparr>"

subsection \<open>The routines of the table\<close>

definition hs_getIndex :: "('e slot \<Rightarrow> int) \<Rightarrow> int \<Rightarrow> 'e slot \<Rightarrow> bool \<Rightarrow> 'e hashset \<Rightarrow> nat result" where
  "hs_getIndex hash bytes = getIndex (element_converter hash bytes)"

definition hs_putIndex :: "('e slot \<Rightarrow> int) \<Rightarrow> int \<Rightarrow> 'e slot \<Rightarrow> 'e hashset \<Rightarrow> (nat \<times> 'e hashset) result" where
  "hs_putIndex hash bytes = putIndex (element_converter hash bytes)"

definition hs_resize :: "('e slot \<Rightarrow> int) \<Rightarrow> int \<Rightarrow> int \<Rightarrow> 'e hashset \<Rightarrow> 'e hashset result" where
  "hs_resize hash bytes = resize (element_converter hash bytes)"

definition hs_removeObject :: "('e slot \<Rightarrow> int) \<Rightarrow> int \<Rightarrow> nat \<Rightarrow> 'e hashset \<Rightarrow> ('e slot \<times> 'e hashset) result" where
  "hs_removeObject hash bytes = removeObject (element_converter hash bytes)"

definition hs_insertObject :: "'e slot \<Rightarrow> nat \<Rightarrow> 'e hashset \<Rightarrow> ('e slot \<times> 'e hashset) result" where
  "hs_insertObject = insertObject"

subsection \<open>Operations\<close>

definition hs_new :: "('e slot \<Rightarrow> int) \<Rightarrow> int \<Rightarrow> int \<Rightarrow> bool \<Rightarrow> bool \<Rightarrow> 'e hashset result" where
  "hs_new hash bytes cap delelem fixed =
     rbind (if cap \<noteq> 0 then hs_resize hash bytes cap hm_init else Inr hm_init) (\<lambda>h.
       Inr (hm_setFixed fixed (hm_setDeleteValue delelem h)))"

text \<open>The copy constructor: \<open>malloc\<close> gives a table for every size, \<open>0\<close> included.\<close>

definition hs_copy :: "'e hashset \<Rightarrow> 'e hashset result" where
  "hs_copy h =
     (if h_size h \<le> 0 then Inr (h\<lparr>h_table := Some []\<rparr>)
      else case h_table h of
        None \<Rightarrow> Inl NullDeref
      | Some table \<Rightarrow> rbind (memcpy_from table (nat (h_size h))) (\<lambda>table'. Inr (h\<lparr>h_table := Some table'\<rparr>)))"

text \<open>
  The result says whether the element is new; the slot is \<open>*retelem\<close> when it is not. The two values that mark slots are
  refused. For a set of \<open>boolean\<close> they are the same value (\<^verbatim>\<open>Converter.cxx\<close>), \<open>false\<close>, which the model keeps apart; for the other
  element types they differ.
\<close>

definition hs_add :: "('e slot \<Rightarrow> int) \<Rightarrow> int \<Rightarrow> 'e slot \<Rightarrow> 'e hashset \<Rightarrow> (bool \<times> 'e slot \<times> 'e hashset) result" where
  "hs_add hash bytes elem h =
     (if elem = Null \<or> elem = Reserve then Inl (Thrown ''Cannot add null/reserve element to set.'')
      else
        rbind (if h_table h = None then hs_resize hash bytes INITIAL_CAPACITY h else Inr h) (\<lambda>h0.
        rbind (hs_putIndex hash bytes elem h0) (\<lambda>(index, h1).
        rbind (hs_insertObject elem index h1) (\<lambda>(oldelem, h2).
        rbind (if oldelem \<noteq> Null \<and> oldelem \<noteq> Reserve
               then rbind (int32 (h_entries h2 - 1)) (\<lambda>entries. Inr (h2\<lparr>h_entries := entries\<rparr>))
               else Inr h2) (\<lambda>h3.
          Inr (oldelem = Null \<or> oldelem = Reserve, oldelem, h3))))))"

text \<open>\<open>addAll\<close> over the elements the iterator of the collection gives; the list collects the ones replaced.\<close>

fun hs_addAll :: "('e slot \<Rightarrow> int) \<Rightarrow> int \<Rightarrow> 'e slot list \<Rightarrow> 'e hashset \<Rightarrow> (bool \<times> 'e slot list \<times> 'e hashset) result" where
  "hs_addAll hash bytes [] h = Inr (True, [], h)"
| "hs_addAll hash bytes (p # ps) h =
     rbind (hs_add hash bytes p h) (\<lambda>(new, old, h').
     rbind (hs_addAll hash bytes ps h') (\<lambda>(res, fillc, h'').
       if new then Inr (res, fillc, h'') else Inr (False, old # fillc, h'')))"

definition hs_remove :: "('e slot \<Rightarrow> int) \<Rightarrow> int \<Rightarrow> 'e slot \<Rightarrow> 'e hashset \<Rightarrow> (bool \<times> 'e slot \<times> 'e hashset) result" where
  "hs_remove hash bytes key h =
     (if h_table h = None then Inr (False, Null, h)
      else
        rbind (hs_getIndex hash bytes key True h) (\<lambda>index.
        rbind (hs_removeObject hash bytes index h) (\<lambda>(elem, h').
          Inr (elem \<noteq> Null \<and> elem \<noteq> Reserve, elem, h'))))"

definition hs_contains :: "('e slot \<Rightarrow> int) \<Rightarrow> int \<Rightarrow> 'e slot \<Rightarrow> 'e hashset \<Rightarrow> (bool \<times> 'e slot) result" where
  "hs_contains hash bytes key h =
     (case h_table h of
        None \<Rightarrow> Inr (False, Null)
      | Some table \<Rightarrow>
          rbind (hs_getIndex hash bytes key True h) (\<lambda>index.
          rbind (peek table index) (\<lambda>elem. Inr (elem \<noteq> Null \<and> elem \<noteq> Reserve, elem))))"

definition hs_isEmpty :: "'e hashset \<Rightarrow> bool" where
  "hs_isEmpty h = (if h_table h = None then False else False)"

definition hs_size :: "'e hashset \<Rightarrow> int" where
  "hs_size h = h_entries h"

definition hs_clear :: "'e hashset \<Rightarrow> 'e hashset" where
  "hs_clear h = ht_clear h"

text \<open>\<open>KeySetIterator\<close> walks the table as the iterators of the hash map do.\<close>

definition setIter_new :: "'e hashset \<Rightarrow> hash_iter result" where
  "setIter_new = hi_new"

definition setIter_next :: "'e hashset \<Rightarrow> hash_iter \<Rightarrow> ('e slot \<times> hash_iter) result" where
  "setIter_next = hi_step"

definition setIter_remove :: "('e slot \<Rightarrow> int) \<Rightarrow> int \<Rightarrow> 'e hashset \<Rightarrow> hash_iter \<Rightarrow> ('e hashset \<times> hash_iter) result" where
  "setIter_remove hash bytes h it =
     (case h_table h of
        None \<Rightarrow> Inl NullDeref
      | Some table \<Rightarrow>
          rbind (peek table (hi_prev it)) (\<lambda>p.
          rbind (hs_remove hash bytes p h) (\<lambda>(_, _, h').
          rbind (moveNext h' (hi_prev it)) (\<lambda>n. Inr (h', it\<lparr>hi_next := n\<rparr>)))))"

subsection \<open>The hash set as a set\<close>

definition hs_inv :: "('e slot \<Rightarrow> int) \<Rightarrow> int \<Rightarrow> 'e hashset \<Rightarrow> bool" where
  "hs_inv hash bytes h \<longleftrightarrow> ht_inv (element_converter hash bytes) h \<and> \<not> getFixed h"

definition elem_size :: "int \<Rightarrow> bool" where
  "elem_size bytes \<longleftrightarrow> 0 < bytes \<and> bytes \<le> 8"

lemma element_converter_ok: "elem_size bytes \<Longrightarrow> converter_ok (element_converter hash bytes)"
  by (simp add: converter_ok_def element_converter_def elem_size_def)

lemma keyOf_element [simp]: "keyOf (element_converter hash bytes) = Entry"
  by (simp add: element_converter_def)

lemma mem_ht_map: "x \<in> ht_elems h \<longleftrightarrow> ht_map (element_converter hash bytes) h (Entry x) \<noteq> None"
  by (auto simp: ht_map_None)

lemma elements_of_map:
  assumes "ht_map (element_converter hash bytes) h' = (ht_map (element_converter hash bytes) h)(Entry x := v)"
  shows "ht_elems h' = (if v = None then ht_elems h - {x} else insert x (ht_elems h))"
proof -
  have "y \<in> ht_elems h' \<longleftrightarrow> (if y = x then v \<noteq> None else y \<in> ht_elems h)" for y
    using mem_ht_map [of y h' hash bytes] mem_ht_map [of y h hash bytes] fun_cong [OF assms, of "Entry y"] by simp
  then show ?thesis by (cases "v = None") (simp_all add: set_eq_iff)
qed

lemma card_dom_elements: "card (dom (ht_map (element_converter hash bytes) h)) = card (ht_elems h)"
  unfolding dom_ht_map by (simp add: card_image inj_on_def)

lemma slot_none: "(x \<noteq> Null \<and> x \<noteq> Reserve) \<longleftrightarrow> slot_entry x \<noteq> None" "(x = Null \<or> x = Reserve) \<longleftrightarrow> slot_entry x = None"
  by (cases x; simp)+

lemma hs_add_eq:
  "hs_add hash bytes (Entry x) h = rbind (ht_put (element_converter hash bytes) x h) (\<lambda>(old, h'). Inr (slot_entry old = None, old, h'))"
  by (simp add: hs_add_def ht_put_def hs_resize_def hs_putIndex_def hs_insertObject_def rbind_assoc rbind_if split_def slot_none
    del: not_None_eq cong: rbind_cong if_cong)

lemma hs_remove_eq:
  "hs_remove hash bytes key h = rbind (ht_remove (element_converter hash bytes) key h) (\<lambda>(old, h'). Inr (slot_entry old \<noteq> None, old, h'))"
  by (simp add: hs_remove_def ht_remove_def hs_getIndex_def hs_removeObject_def rbind_assoc rbind_if split_def slot_none
    del: not_None_eq)

lemma hs_contains_eq:
  "hs_contains hash bytes key h = rbind (ht_get (element_converter hash bytes) key h) (\<lambda>x. Inr (slot_entry x \<noteq> None, x))"
  by (simp add: hs_contains_def ht_get_def hs_getIndex_def rbind_assoc slot_none del: not_None_eq split: option.splits)

lemma hs_add_ok:
  assumes "elem_size bytes" "hs_inv hash bytes h" "card (ht_elems h) < 2 ^ 26"
  shows "\<exists>old h'. hs_add hash bytes (Entry x) h = Inr (x \<notin> ht_elems h, old, h') \<and> hs_inv hash bytes h' \<and>
     ht_elems h' = insert x (ht_elems h)"
proof -
  let ?c = "element_converter hash bytes"
  obtain old h' where r: "ht_put ?c x h = Inr (old, h')" "slot_entry old = ht_map ?c h (Entry x)" "ht_inv ?c h'"
    "ht_map ?c h' = (ht_map ?c h)(Entry x \<mapsto> x)" "h_stateFlags h' = h_stateFlags h"
    using ht_put_ok [OF element_converter_ok [OF assms(1)], of hash h x] assms(2,3) by (auto simp: hs_inv_def card_dom_elements)
  moreover have "ht_elems h' = insert x (ht_elems h)" using elements_of_map [OF r(4)] by simp
  moreover have "slot_entry old = None \<longleftrightarrow> x \<notin> ht_elems h" using r(2) by (simp add: mem_ht_map [of _ _ hash bytes])
  ultimately show ?thesis using assms(2) by (auto simp: hs_add_eq hs_inv_def getFixed_def)
qed

lemma hs_remove_ok:
  assumes "elem_size bytes" "hs_inv hash bytes h" "card (ht_elems h) < 2 ^ 26"
  shows "\<exists>old h'. hs_remove hash bytes (Entry x) h = Inr (x \<in> ht_elems h, old, h') \<and> hs_inv hash bytes h' \<and>
     ht_elems h' = ht_elems h - {x}"
proof -
  let ?c = "element_converter hash bytes"
  obtain old h' where r: "ht_remove ?c (Entry x) h = Inr (old, h')" "slot_entry old = ht_map ?c h (Entry x)" "ht_inv ?c h'"
    "ht_map ?c h' = (ht_map ?c h)(Entry x := None)" "h_stateFlags h' = h_stateFlags h"
    using ht_remove_ok [OF element_converter_ok [OF assms(1)], of hash h "Entry x"] assms(2,3) by (auto simp: hs_inv_def card_dom_elements)
  moreover have "ht_elems h' = ht_elems h - {x}" using elements_of_map [OF r(4)] by simp
  moreover have "slot_entry old \<noteq> None \<longleftrightarrow> x \<in> ht_elems h" using r(2) by (simp add: mem_ht_map [of _ _ hash bytes])
  ultimately show ?thesis using assms(2) by (auto simp: hs_remove_eq hs_inv_def getFixed_def)
qed

lemma hs_contains_ok:
  assumes "hs_inv hash bytes h"
  shows "\<exists>elem. hs_contains hash bytes (Entry x) h = Inr (x \<in> ht_elems h, elem)"
  using ht_get_ok [of "element_converter hash bytes" h "Entry x"] assms
  by (auto simp: hs_contains_eq hs_inv_def mem_ht_map [of _ _ hash bytes])

lemma hs_marks:
  "hs_add hash bytes Null h = Inl (Thrown ''Cannot add null/reserve element to set.'')"
  "hs_add hash bytes Reserve h = Inl (Thrown ''Cannot add null/reserve element to set.'')"
  by (simp_all add: hs_add_def)

lemma hs_size_ok: "hs_inv hash bytes h \<Longrightarrow> hs_size h = int (card (ht_elems h))"
  using ht_inv_size [of "element_converter hash bytes" h] by (simp add: hs_size_def hs_inv_def card_dom_elements)

lemma hs_clear_ok: "hs_inv hash bytes h \<Longrightarrow> hs_inv hash bytes (hs_clear h) \<and> ht_elems (hs_clear h) = {} \<and> hs_size (hs_clear h) = 0"
  by (auto simp: hs_inv_def hs_clear_def ht_clear_def ht_inv_def empty_table_def ht_elems_def hs_size_def core_def shaped_def
    getFixed_def split: option.splits)

lemma hs_new_ok:
  assumes "elem_size bytes" "0 \<le> cap" "cap < 2 ^ 27"
  shows "\<exists>h. hs_new hash bytes cap delelem False = Inr h \<and> hs_inv hash bytes (h :: 'e hashset) \<and> ht_elems h = {}"
proof -
  let ?fl = "\<lambda>h :: 'e hashset. hm_setFixed False (hm_setDeleteValue delelem h)"
  have fl: "hs_inv hash bytes (?fl h) = ht_inv (element_converter hash bytes) h" "ht_elems (?fl h) = ht_elems h" for h
    by (simp_all add: hs_inv_def getFixed_setFlag)
      (simp_all add: hm_setFixed_def hm_setDeleteValue_def hm_setFlag_def ht_inv_flags ht_elems_def)
  have e: "empty_table (hm_init :: 'e hashset)" by (simp add: empty_table_def hm_init_def)
  obtain h where "(if cap \<noteq> 0 then hs_resize hash bytes cap hm_init else Inr hm_init) = Inr (h :: 'e hashset)"
    "ht_inv (element_converter hash bytes) h" "ht_elems h = {}"
  proof (cases "cap = 0")
    case True
    show ?thesis by (rule that [of hm_init]) (use True e in \<open>simp_all add: ht_inv_def ht_elems_def empty_table_def\<close>)
  next
    case False
    show ?thesis
      using resize_fresh [OF element_converter_ok [OF assms(1)] e assms(2,3), of hash] that False by (auto simp: hs_resize_def)
  qed
  then show ?thesis by (simp add: hs_new_def fl)
qed

subsection \<open>The contract of a set\<close>

definition hs_addElem :: "('e slot \<Rightarrow> int) \<Rightarrow> int \<Rightarrow> 'e \<Rightarrow> 'e hashset \<Rightarrow> (bool \<times> 'e hashset) result" where
  "hs_addElem hash bytes x h = rbind (hs_add hash bytes (Entry x) h) (\<lambda>(new, _, h'). Inr (new, h'))"

definition hs_removeElem :: "('e slot \<Rightarrow> int) \<Rightarrow> int \<Rightarrow> 'e \<Rightarrow> 'e hashset \<Rightarrow> (bool \<times> 'e hashset) result" where
  "hs_removeElem hash bytes x h = rbind (hs_remove hash bytes (Entry x) h) (\<lambda>(found, _, h'). Inr (found, h'))"

definition hs_hasElem :: "('e slot \<Rightarrow> int) \<Rightarrow> int \<Rightarrow> 'e \<Rightarrow> 'e hashset \<Rightarrow> bool result" where
  "hs_hasElem hash bytes x h = rbind (hs_contains hash bytes (Entry x) h) (\<lambda>(found, _). Inr found)"

interpretation hset: set_store "hs_addElem hash bytes" "hs_removeElem hash bytes" "hs_hasElem hash bytes"
  "\<lambda>h. elem_size bytes \<and> hs_inv hash bytes h" ht_elems "2 ^ 26" for hash :: "'e slot \<Rightarrow> int" and bytes
proof
  fix s :: "'e hashset" and x
  assume inv: "elem_size bytes \<and> hs_inv hash bytes s"
  show "finite (ht_elems s)" by (metis List.finite_set ht_elems_entries)
  show "hs_hasElem hash bytes x s = Inr (x \<in> ht_elems s)"
    using hs_contains_ok [of hash bytes s x] inv by (auto simp: hs_hasElem_def)
  assume few: "card (ht_elems s) < 2 ^ 26"
  show "\<exists>s'. hs_addElem hash bytes x s = Inr (x \<notin> ht_elems s, s') \<and> (elem_size bytes \<and> hs_inv hash bytes s') \<and> ht_elems s' = insert x (ht_elems s)"
    using hs_add_ok [of bytes hash s x] inv few by (auto simp: hs_addElem_def)
  show "\<exists>s'. hs_removeElem hash bytes x s = Inr (x \<in> ht_elems s, s') \<and> (elem_size bytes \<and> hs_inv hash bytes s') \<and> ht_elems s' = ht_elems s - {x}"
    using hs_remove_ok [of bytes hash s x] inv few by (auto simp: hs_removeElem_def)
qed

end
