(* ===== verification/ArrayList.thy ===== *)
theory ArrayList
  imports Contracts
begin

section \<open>The array list\<close>

text \<open>
  The class \<open>ArrayList\<close> of \<^verbatim>\<open>src/PLATFORM/src/main/native/cxx/util/ArrayList.h\<close>, as it is compiled without
  \<^verbatim>\<open>DEEP_DEBUG\<close>, that is without the checks of the index. A cell of the array that was never written is
  \<open>None\<close>, and reading it is the fault \<open>Uninitialised\<close>. \<open>equals\<close> is the equality of the model's elements;
  destroying elements is not modelled.
\<close>

record 'e arraylist =
  al_elements :: "'e option list"
  al_length :: int
  al_size :: int
  al_deleteValue :: bool

definition AL_INITIAL_CAPACITY :: int where
  "AL_INITIAL_CAPACITY = 4"

subsection \<open>Cells\<close>

definition cell_get :: "'e option list \<Rightarrow> int \<Rightarrow> 'e result" where
  "cell_get cells i =
     (if i < 0 then Inl OutOfBounds
      else rbind (peek cells (nat i)) (\<lambda>x. case x of None \<Rightarrow> Inl Uninitialised | Some e \<Rightarrow> Inr e))"

definition cell_set :: "'e option list \<Rightarrow> int \<Rightarrow> 'e \<Rightarrow> 'e option list result" where
  "cell_set cells i e = (if i < 0 then Inl OutOfBounds else poke cells (nat i) (Some e))"

text \<open>\<open>System::arraycopy\<close> within one array is \<open>memmove\<close>.\<close>

definition arraycopy :: "'a list \<Rightarrow> int \<Rightarrow> int \<Rightarrow> int \<Rightarrow> 'a list result" where
  "arraycopy xs srcPos destPos n =
     (if srcPos < 0 \<or> destPos < 0 \<or> n < 0 \<or> int (length xs) < srcPos + n \<or> int (length xs) < destPos + n then Inl OutOfBounds
      else Inr (take (nat destPos) xs @ take (nat n) (drop (nat srcPos) xs) @ drop (nat (destPos + n)) xs))"

subsection \<open>Construction and resizing\<close>

definition al_new :: "nat \<Rightarrow> bool \<Rightarrow> 'e arraylist" where
  "al_new initialCapacity deleteValue =
     \<lparr>al_elements = replicate initialCapacity None, al_length = int initialCapacity, al_size = 0, al_deleteValue = deleteValue\<rparr>"

definition al_copy :: "'e arraylist \<Rightarrow> 'e arraylist result" where
  "al_copy l =
     rbind (memcpy_from (al_elements l) (nat (al_size l))) (\<lambda>cells.
     rbind (memcpy_to (replicate (nat (al_length l)) None) cells) (\<lambda>new.
       Inr (l\<lparr>al_elements := new\<rparr>)))"

definition al_resize :: "'e arraylist \<Rightarrow> 'e arraylist result" where
  "al_resize al =
     rbind (int32 (al_size al * 3)) (\<lambda>x.
       let newLength = x div 2 in
       if newLength < AL_INITIAL_CAPACITY then Inr al
       else
         rbind (memcpy_from (al_elements al) (nat (al_size al))) (\<lambda>cells.
         rbind (memcpy_to (replicate (nat newLength) None) cells) (\<lambda>new.
           Inr (al\<lparr>al_elements := new, al_length := newLength\<rparr>))))"

subsection \<open>Operations\<close>

definition al_capacity :: "'e arraylist \<Rightarrow> int" where
  "al_capacity al = al_length al"

definition al_isEmpty :: "'e arraylist \<Rightarrow> bool" where
  "al_isEmpty al \<longleftrightarrow> al_size al = 0"

definition al_add :: "'e \<Rightarrow> 'e arraylist \<Rightarrow> 'e arraylist result" where
  "al_add element al =
     rbind (if al_size al = al_length al then al_resize al else Inr al) (\<lambda>a.
     rbind (cell_set (al_elements a) (al_size a) element) (\<lambda>cells.
       Inr (a\<lparr>al_elements := cells, al_size := al_size a + 1\<rparr>)))"

definition al_insert :: "int \<Rightarrow> 'e \<Rightarrow> 'e arraylist \<Rightarrow> 'e arraylist result" where
  "al_insert index element al =
     rbind (if al_size al = al_length al then al_resize al else Inr al) (\<lambda>a.
     rbind (if al_size a > index then arraycopy (al_elements a) index (index + 1) (al_size a - index)
            else Inr (al_elements a)) (\<lambda>cells.
     rbind (cell_set cells index element) (\<lambda>cells'.
       Inr (a\<lparr>al_elements := cells', al_size := al_size a + 1\<rparr>))))"

definition al_remove :: "int \<Rightarrow> 'e arraylist \<Rightarrow> ('e \<times> 'e arraylist) result" where
  "al_remove index al =
     rbind (cell_get (al_elements al) index) (\<lambda>element.
       let moveCount = (al_size al - index) - 1 in
       rbind (if moveCount > 0 then arraycopy (al_elements al) (index + 1) index moveCount else Inr (al_elements al)) (\<lambda>cells.
         let a = al\<lparr>al_elements := cells, al_size := al_size al - 1\<rparr> in
         rbind (if al_size a < al_length a div 3 then al_resize a else Inr a) (\<lambda>a'. Inr (element, a'))))"

definition al_get :: "int \<Rightarrow> 'e arraylist \<Rightarrow> 'e result" where
  "al_get index al = cell_get (al_elements al) index"

definition al_set :: "int \<Rightarrow> 'e \<Rightarrow> 'e arraylist \<Rightarrow> ('e \<times> 'e arraylist) result" where
  "al_set index element al =
     rbind (cell_get (al_elements al) index) (\<lambda>oldValue.
     rbind (cell_set (al_elements al) index element) (\<lambda>cells. Inr (oldValue, al\<lparr>al_elements := cells\<rparr>)))"

text \<open>The loops of \<open>indexOf\<close> and \<open>lastIndexOf\<close>.\<close>

function index_loop :: "'e \<Rightarrow> 'e arraylist \<Rightarrow> int \<Rightarrow> int result" where
  "index_loop element al i =
     (if i < al_size al
      then rbind (cell_get (al_elements al) i) (\<lambda>e. if e = element then Inr i else index_loop element al (i + 1))
      else Inr (- 1))"
  by pat_completeness auto
termination
  by (relation "measure (\<lambda>(element, al, i). nat (al_size al - i))") auto

declare index_loop.simps [simp del]

definition al_indexOf :: "'e \<Rightarrow> 'e arraylist \<Rightarrow> int result" where
  "al_indexOf element al = index_loop element al 0"

function last_loop :: "'e \<Rightarrow> 'e arraylist \<Rightarrow> int \<Rightarrow> int result" where
  "last_loop element al i =
     (if i \<ge> 0
      then rbind (cell_get (al_elements al) i) (\<lambda>e. if e = element then Inr i else last_loop element al (i - 1))
      else Inr (- 1))"
  by pat_completeness auto
termination
  by (relation "measure (\<lambda>(element, al, i). nat (i + 1))") auto

declare last_loop.simps [simp del]

definition al_lastIndexOf :: "'e \<Rightarrow> 'e arraylist \<Rightarrow> int result" where
  "al_lastIndexOf element al = last_loop element al (al_size al - 1)"

definition al_contains :: "'e \<Rightarrow> 'e arraylist \<Rightarrow> bool result" where
  "al_contains element al = rbind (index_loop element al 0) (\<lambda>i. Inr (i \<ge> 0))"

definition al_removeElement :: "'e \<Rightarrow> 'e arraylist \<Rightarrow> (bool \<times> 'e option \<times> 'e arraylist) result" where
  "al_removeElement element al =
     rbind (al_indexOf element al) (\<lambda>i.
       if i \<ge> 0 then rbind (al_remove i al) (\<lambda>(x, al'). Inr (True, Some x, al'))
       else Inr (False, None, al))"

definition al_reset :: "'e arraylist \<Rightarrow> 'e arraylist" where
  "al_reset al = al\<lparr>al_size := 0\<rparr>"

definition al_clear :: "'e arraylist \<Rightarrow> 'e arraylist result" where
  "al_clear al = al_resize (al_reset al)"

text \<open>The bulk operations take the elements the iterator of the other collection gives.\<close>

fun al_add_each :: "'e list \<Rightarrow> 'e arraylist \<Rightarrow> 'e arraylist result" where
  "al_add_each [] al = Inr al"
| "al_add_each (x # xs) al = rbind (al_add x al) (al_add_each xs)"

fun al_insert_each :: "int \<Rightarrow> 'e list \<Rightarrow> 'e arraylist \<Rightarrow> 'e arraylist result" where
  "al_insert_each index [] al = Inr al"
| "al_insert_each index (x # xs) al = rbind (al_insert index x al) (al_insert_each (index + 1) xs)"

definition al_addAll :: "'e list \<Rightarrow> 'e arraylist \<Rightarrow> (bool \<times> 'e arraylist) result" where
  "al_addAll c al = rbind (al_add_each c al) (\<lambda>al'. Inr (c \<noteq> [], al'))"

definition al_insertAll :: "int \<Rightarrow> 'e list \<Rightarrow> 'e arraylist \<Rightarrow> (bool \<times> 'e arraylist) result" where
  "al_insertAll index c al = rbind (al_insert_each index c al) (\<lambda>al'. Inr (c \<noteq> [], al'))"

fun al_containsAll :: "'e list \<Rightarrow> 'e arraylist \<Rightarrow> bool result" where
  "al_containsAll [] al = Inr True"
| "al_containsAll (x # xs) al = rbind (al_contains x al) (\<lambda>b. if b then al_containsAll xs al else Inr False)"

fun al_removeAll :: "'e list \<Rightarrow> 'e arraylist \<Rightarrow> (bool \<times> 'e arraylist) result" where
  "al_removeAll [] al = Inr (False, al)"
| "al_removeAll (x # xs) al =
     rbind (al_removeElement x al) (\<lambda>(removed, _, al').
     rbind (al_removeAll xs al') (\<lambda>(more, al''). Inr (removed \<or> more, al'')))"

subsection \<open>Iterators\<close>

text \<open>\<open>ArrayListIterator\<close> is its cursor; \<open>ArrayListListIterator\<close> also keeps the direction of the last move.\<close>

definition alIter_hasNext :: "'e arraylist \<Rightarrow> int \<Rightarrow> bool" where
  "alIter_hasNext al cursor \<longleftrightarrow> cursor < al_size al"

definition alIter_next :: "'e arraylist \<Rightarrow> int \<Rightarrow> ('e option \<times> int) result" where
  "alIter_next al cursor = rbind (cell_get (al_elements al) cursor) (\<lambda>e. Inr (Some e, cursor + 1))"

definition alIter_remove :: "'e arraylist \<Rightarrow> int \<Rightarrow> ('e arraylist \<times> int) result" where
  "alIter_remove al cursor = rbind (al_remove (cursor - 1) al) (\<lambda>(_, al'). Inr (al', cursor - 1))"

text \<open>\<open>retainAll\<close> removes through the iterator; the fuel bounds the tests of \<open>hasNext\<close>.\<close>

fun al_retainAll :: "nat \<Rightarrow> ('e \<Rightarrow> bool) \<Rightarrow> 'e arraylist \<Rightarrow> int \<Rightarrow> (bool \<times> 'e arraylist) option result" where
  "al_retainAll 0 c al cursor = Inr None"
| "al_retainAll (Suc n) c al cursor =
     (if alIter_hasNext al cursor
      then rbind (alIter_next al cursor) (\<lambda>(e, cursor').
        if c (the e) then al_retainAll n c al cursor'
        else rbind (alIter_remove al cursor') (\<lambda>(al', cursor'').
             rbind (al_retainAll n c al' cursor'') (\<lambda>r. Inr (map_option (\<lambda>(_, al''). (True, al'')) r))))
      else Inr (Some (False, al)))"

record list_iter =
  li_cursor :: int
  li_forward :: bool

definition li_new :: "int \<Rightarrow> list_iter" where
  "li_new index = \<lparr>li_cursor = index, li_forward = True\<rparr>"

definition li_hasNext :: "'e arraylist \<Rightarrow> list_iter \<Rightarrow> bool" where
  "li_hasNext al it \<longleftrightarrow> li_cursor it < al_size al"

definition li_next :: "'e arraylist \<Rightarrow> list_iter \<Rightarrow> ('e option \<times> list_iter) result" where
  "li_next al it =
     rbind (cell_get (al_elements al) (li_cursor it)) (\<lambda>e.
       Inr (Some e, \<lparr>li_cursor = li_cursor it + 1, li_forward = True\<rparr>))"

definition li_hasPrevious :: "list_iter \<Rightarrow> bool" where
  "li_hasPrevious it \<longleftrightarrow> li_cursor it > 0"

definition li_previous :: "'e arraylist \<Rightarrow> list_iter \<Rightarrow> ('e option \<times> list_iter) result" where
  "li_previous al it =
     rbind (cell_get (al_elements al) (li_cursor it - 1)) (\<lambda>e.
       Inr (Some e, \<lparr>li_cursor = li_cursor it - 1, li_forward = False\<rparr>))"

definition li_nextIndex :: "list_iter \<Rightarrow> int" where
  "li_nextIndex it = li_cursor it"

definition li_previousIndex :: "list_iter \<Rightarrow> int" where
  "li_previousIndex it = li_cursor it - 1"

definition li_remove :: "'e arraylist \<Rightarrow> list_iter \<Rightarrow> ('e arraylist \<times> list_iter) result" where
  "li_remove al it =
     (let cursor = (if li_forward it then li_cursor it - 1 else li_cursor it) in
      rbind (al_remove cursor al) (\<lambda>(_, al'). Inr (al', it\<lparr>li_cursor := cursor\<rparr>)))"

definition li_set :: "'e \<Rightarrow> 'e arraylist \<Rightarrow> list_iter \<Rightarrow> ('e arraylist \<times> list_iter) result" where
  "li_set element al it =
     (let cursor = (if li_forward it then li_cursor it - 1 else li_cursor it) in
      rbind (al_set cursor element al) (\<lambda>(_, al'). Inr (al', it\<lparr>li_cursor := cursor\<rparr>)))"

definition li_add :: "'e \<Rightarrow> 'e arraylist \<Rightarrow> list_iter \<Rightarrow> ('e arraylist \<times> list_iter) result" where
  "li_add element al it = rbind (al_insert (li_cursor it) element al) (\<lambda>al'. Inr (al', it\<lparr>li_cursor := li_cursor it + 1\<rparr>))"

subsection \<open>Whole lists\<close>

text \<open>\<open>toArray\<close> fills an array of the caller from the front.\<close>

fun toArray_loop :: "'e arraylist \<Rightarrow> 'e list \<Rightarrow> nat \<Rightarrow> nat \<Rightarrow> 'e list result" where
  "toArray_loop al arr i 0 = Inr arr"
| "toArray_loop al arr i (Suc n) =
     rbind (cell_get (al_elements al) (int i)) (\<lambda>e.
     rbind (poke arr i e) (\<lambda>arr'. toArray_loop al arr' (Suc i) n))"

definition al_toArray :: "'e arraylist \<Rightarrow> 'e list \<Rightarrow> 'e list result" where
  "al_toArray al arr = toArray_loop al arr 0 (nat (min (int (length arr)) (al_size al)))"

function equals_loop :: "'e arraylist \<Rightarrow> 'e arraylist \<Rightarrow> int \<Rightarrow> bool result" where
  "equals_loop al other i =
     (if i < al_size al
      then rbind (cell_get (al_elements al) i) (\<lambda>x.
           rbind (cell_get (al_elements other) i) (\<lambda>y. if x = y then equals_loop al other (i + 1) else Inr False))
      else Inr True)"
  by pat_completeness auto
termination
  by (relation "measure (\<lambda>(al, other, i). nat (al_size al - i))") auto

declare equals_loop.simps [simp del]

definition al_equals :: "'e arraylist \<Rightarrow> 'e arraylist \<Rightarrow> bool result" where
  "al_equals al other = (if al_size al \<noteq> al_size other then Inr False else equals_loop al other 0)"

subsection \<open>The list an array list holds\<close>

definition al_rep :: "'e arraylist \<Rightarrow> 'e list \<Rightarrow> bool" where
  "al_rep al xs \<longleftrightarrow>
     (\<exists>rest. al_elements al = map Some xs @ rest \<and> al_size al = int (length xs) \<and>
        al_length al = int (length xs + length rest) \<and> 3 \<le> length xs + length rest)"

lemma al_repI:
  "al_elements al = map Some xs @ rest \<Longrightarrow> al_size al = int (length xs) \<Longrightarrow>
     al_length al = int (length xs + length rest) \<Longrightarrow> 3 \<le> length xs + length rest \<Longrightarrow> al_rep al xs"
  unfolding al_rep_def by blast

lemma al_repE:
  assumes "al_rep al xs"
  obtains rest where "al_elements al = map Some xs @ rest" "al_size al = int (length xs)"
    "al_length al = int (length xs + length rest)" "3 \<le> length xs + length rest"
  using assms unfolding al_rep_def by blast

lemma al_rep_size: "al_rep al xs \<Longrightarrow> al_size al = int (length xs)"
  by (erule al_repE)

lemma al_rep_unique: "al_rep al xs \<Longrightarrow> al_rep al ys \<Longrightarrow> xs = ys"
  by (elim al_repE) (metis append_eq_append_conv length_map map_injective inj_Some of_nat_eq_iff)

lemma al_new_rep: "3 \<le> cap \<Longrightarrow> al_rep (al_new cap del) []"
  by (rule al_repI [of _ _ "replicate cap None"]) (simp_all add: al_new_def)

lemma cell_get_nth: "i < length xs \<Longrightarrow> cell_get (map Some xs @ rest) (int i) = Inr (xs ! i)"
  by (simp add: cell_get_def peek_def nth_append)

lemma cell_get_rep: "al_rep al xs \<Longrightarrow> i < length xs \<Longrightarrow> cell_get (al_elements al) (int i) = Inr (xs ! i)"
  by (erule al_repE) (simp add: cell_get_nth)

lemma cell_set_nth: "i < length xs \<Longrightarrow> cell_set (map Some xs @ rest) (int i) e = Inr (map Some (xs[i := e]) @ rest)"
  by (simp add: cell_set_def poke_def list_update_append1 map_update)

lemma al_get_ok: "al_rep al xs \<Longrightarrow> i < length xs \<Longrightarrow> al_get (int i) al = Inr (xs ! i)"
  by (simp add: al_get_def cell_get_rep)

lemma al_set_ok:
  assumes "al_rep al xs" "i < length xs"
  shows "\<exists>al'. al_set (int i) e al = Inr (xs ! i, al') \<and> al_rep al' (xs[i := e])"
  using assms(1)
proof (rule al_repE)
  fix rest
  assume r: "al_elements al = map Some xs @ rest" "al_size al = int (length xs)"
    "al_length al = int (length xs + length rest)" "3 \<le> length xs + length rest"
  have "al_rep (al\<lparr>al_elements := map Some (xs[i := e]) @ rest\<rparr>) (xs[i := e])"
    by (rule al_repI [of _ _ rest]) (simp_all add: r)
  then show ?thesis by (simp add: al_set_def r(1) cell_get_nth cell_set_nth assms(2))
qed

text \<open>\<open>resize\<close> keeps the list, and makes room when there is none.\<close>

definition al_max :: nat where
  "al_max = 715827882"

lemma al_resize_ok:
  assumes "al_rep al xs" "length xs \<le> al_max"
  shows "\<exists>al'. al_resize al = Inr al' \<and> al_rep al' xs \<and> (al_size al = al_length al \<longrightarrow> al_size al' < al_length al')"
  using assms(1)
proof (rule al_repE)
  fix rest
  assume r: "al_elements al = map Some xs @ rest" "al_size al = int (length xs)"
    "al_length al = int (length xs + length rest)" "3 \<le> length xs + length rest"
  have i: "int32 (int (length xs) * 3) = Inr (int (length xs * 3))" using assms(2) by (simp add: int32_def al_max_def)
  let ?n = "length xs * 3 div 2"
  have nn: "int (length xs * 3) div 2 = int ?n" by simp
  show ?thesis
  proof (cases "?n < 4")
    case True
    have "al_resize al = Inr al" using True by (simp add: al_resize_def r(2) i nn AL_INITIAL_CAPACITY_def del: of_nat_mult)
    moreover have "0 < length rest" using True r(4) by linarith
    ultimately show ?thesis using assms(1) by (simp add: r(2,3))
  next
    case False
    have n: "length xs < ?n" using False by linarith
    have "memcpy_to (replicate ?n None) (map Some xs) = Inr (map Some xs @ replicate (?n - length xs) None)"
      using n by (simp add: memcpy_to_def)
    then have a: "al_resize al = Inr (al\<lparr>al_elements := map Some xs @ replicate (?n - length xs) None, al_length := int ?n\<rparr>)"
      using False by (simp add: al_resize_def r(1,2) i nn memcpy_from_def AL_INITIAL_CAPACITY_def del: of_nat_mult)
    have "al_rep (al\<lparr>al_elements := map Some xs @ replicate (?n - length xs) None, al_length := int ?n\<rparr>) xs"
      using n False by (intro al_repI [of _ _ "replicate (?n - length xs) None"]) (simp_all add: r(2))
    with a n show ?thesis by (simp add: r(2))
  qed
qed

text \<open>The first lines of both \<open>add\<close>: there is room afterwards.\<close>

lemma al_room:
  assumes "al_rep al xs" "length xs \<le> al_max"
  obtains a y rest where "(if al_size al = al_length al then al_resize al else Inr al) = Inr a" "al_rep a xs"
    "al_elements a = map Some xs @ y # rest" "al_size a = int (length xs)" "al_length a = int (length xs + length (y # rest))"
    "3 \<le> length xs + length (y # rest)"
proof -
  obtain a where a: "(if al_size al = al_length al then al_resize al else Inr al) = Inr a" "al_rep a xs" "al_size a < al_length a"
  proof (cases "al_size al = al_length al")
    case True
    with al_resize_ok [OF assms] show ?thesis using that by auto
  next
    case False
    have "al_size al \<le> al_length al" using assms(1) by (rule al_repE) simp
    with False assms(1) show ?thesis using that [of al] by simp
  qed
  from a(2) show ?thesis
  proof (rule al_repE)
    fix rest
    assume r: "al_elements a = map Some xs @ rest" "al_size a = int (length xs)"
      "al_length a = int (length xs + length rest)" "3 \<le> length xs + length rest"
    show ?thesis
    proof (cases rest)
      case Nil
      then show ?thesis using a(3) r by simp
    next
      case (Cons y ys)
      show ?thesis by (rule that [of a y ys]) (use a r Cons in simp_all)
    qed
  qed
qed

lemma al_add_ok:
  assumes "al_rep al xs" "length xs \<le> al_max"
  shows "\<exists>al'. al_add e al = Inr al' \<and> al_rep al' (xs @ [e])"
  using assms
proof (rule al_room)
  fix a y rest
  assume r: "(if al_size al = al_length al then al_resize al else Inr al) = Inr a"
    "al_elements a = map Some xs @ y # rest" "al_size a = int (length xs)" "al_length a = int (length xs + length (y # rest))"
    "3 \<le> length xs + length (y # rest)"
  have "cell_set (al_elements a) (al_size a) e = Inr (map Some (xs @ [e]) @ rest)"
    using list_update_length [of "map Some xs" y rest "Some e"] by (simp add: r(2,3) cell_set_def poke_def)
  then have "al_add e al = Inr (a\<lparr>al_elements := map Some (xs @ [e]) @ rest, al_size := al_size a + 1\<rparr>)"
    by (simp add: al_add_def r(1))
  moreover have "al_rep (a\<lparr>al_elements := map Some (xs @ [e]) @ rest, al_size := al_size a + 1\<rparr>) (xs @ [e])"
    by (rule al_repI [of _ _ rest]) (use r in simp_all)
  ultimately show ?thesis by simp
qed

lemma al_insert_ok:
  assumes "al_rep al xs" "length xs \<le> al_max" "i \<le> length xs"
  shows "\<exists>al'. al_insert (int i) e al = Inr al' \<and> al_rep al' (take i xs @ e # drop i xs)"
  using assms(1,2)
proof (rule al_room)
  fix a y rest
  assume r: "(if al_size al = al_length al then al_resize al else Inr al) = Inr a"
    "al_elements a = map Some xs @ y # rest" "al_size a = int (length xs)" "al_length a = int (length xs + length (y # rest))"
    "3 \<le> length xs + length (y # rest)"
  obtain z where c: "(if al_size a > int i then arraycopy (al_elements a) (int i) (int i + 1) (al_size a - int i)
      else Inr (al_elements a)) = Inr (map Some (take i xs) @ z # map Some (drop i xs) @ rest)"
  proof (cases "i < length xs")
    case True
    have "nat (int i + 1) = Suc i" "nat (int (length xs) - int i) = length xs - i" "nat (int i + 1 + (int (length xs) - int i)) = Suc (length xs)"
      using True by simp_all
    moreover have "take (Suc i) (map Some xs @ y # rest) = map Some (take i xs) @ [Some (xs ! i)]"
      using True by (simp add: take_Suc_conv_app_nth take_map)
    ultimately show ?thesis using True that [of "Some (xs ! i)"] by (simp add: r(2,3) arraycopy_def drop_map)
  next
    case False
    then have "i = length xs" using assms(3) by simp
    then show ?thesis using that [of y] by (simp add: r(2,3))
  qed
  let ?ys = "take i xs @ e # drop i xs"
  have "cell_set (map Some (take i xs) @ z # map Some (drop i xs) @ rest) (int i) e = Inr (map Some ?ys @ rest)"
    using assms(3) by (simp add: cell_set_def poke_def list_update_append)
  then have "al_insert (int i) e al = Inr (a\<lparr>al_elements := map Some ?ys @ rest, al_size := al_size a + 1\<rparr>)"
    by (simp only: al_insert_def r(1) rbind.simps c)
  moreover have "al_rep (a\<lparr>al_elements := map Some ?ys @ rest, al_size := al_size a + 1\<rparr>) ?ys"
    by (rule al_repI [of _ _ rest]) (use r assms(3) in simp_all)
  ultimately show ?thesis by simp
qed

lemma al_remove_ok:
  assumes "al_rep al xs" "length xs \<le> al_max" "i < length xs"
  shows "\<exists>al'. al_remove (int i) al = Inr (xs ! i, al') \<and> al_rep al' (take i xs @ drop (Suc i) xs)"
  using assms(1)
proof (rule al_repE)
  fix rest
  let ?ys = "take i xs @ drop (Suc i) xs"
  assume r: "al_elements al = map Some xs @ rest" "al_size al = int (length xs)"
    "al_length al = int (length xs + length rest)" "3 \<le> length xs + length rest"
  have c: "(if al_size al - int i - 1 > 0 then arraycopy (al_elements al) (int i + 1) (int i) (al_size al - int i - 1)
      else Inr (al_elements al)) = Inr (map Some ?ys @ Some (last xs) # rest)"
  proof (cases "Suc i < length xs")
    case True
    have "nat (int i + 1) = Suc i" "nat (int (length xs) - int i - 1) = length xs - Suc i" "nat (int i + (int (length xs) - int i - 1)) = length xs - 1"
      using True by simp_all
    moreover have "drop (length xs - 1) (map Some xs @ rest) = Some (last xs) # rest"
      using True by (cases xs rule: rev_cases) simp_all
    ultimately show ?thesis using True by (simp add: r(1,2) arraycopy_def drop_map take_map)
  next
    case False
    then have "i = length xs - 1" using assms(3) by simp
    then have "map Some xs = map Some (take i xs) @ [Some (last xs)]" using assms(3) by (cases xs rule: rev_cases) simp_all
    then show ?thesis using False by (simp add: r(1,2))
  qed
  let ?a = "al\<lparr>al_elements := map Some ?ys @ Some (last xs) # rest, al_size := al_size al - 1\<rparr>"
  have rep: "al_rep ?a ?ys"
    by (rule al_repI [of _ _ "Some (last xs) # rest"]) (use r assms(3) in simp_all)
  have "length ?ys \<le> al_max" using assms(2) by simp
  then obtain b where "al_resize ?a = Inr b" "al_rep b ?ys" using al_resize_ok [OF rep] by blast
  then have "\<exists>a'. (if al_size ?a < al_length ?a div 3 then al_resize ?a else Inr ?a) = Inr a' \<and> al_rep a' ?ys"
    using rep by (cases "al_size ?a < al_length ?a div 3") simp_all
  then obtain a' where a': "(if al_size ?a < al_length ?a div 3 then al_resize ?a else Inr ?a) = Inr a'" "al_rep a' ?ys"
    by blast
  have g: "cell_get (al_elements al) (int i) = Inr (xs ! i)" by (rule cell_get_rep [OF assms(1,3)])
  have "al_remove (int i) al = Inr (xs ! i, a')"
    by (simp only: al_remove_def g rbind.simps Let_def c a'(1))
  with a'(2) show ?thesis by simp
qed


lemma al_clear_ok: "al_rep al xs \<Longrightarrow> al_clear al = Inr (al\<lparr>al_size := 0\<rparr>) \<and> al_rep (al\<lparr>al_size := 0\<rparr>) []"
  by (erule al_repE) (auto simp: al_clear_def al_reset_def al_resize_def int32_def AL_INITIAL_CAPACITY_def intro!: al_repI)

lemma al_copy_ok:
  assumes "al_rep al xs"
  shows "\<exists>al'. al_copy al = Inr al' \<and> al_rep al' xs"
  using assms
proof (rule al_repE)
  fix rest
  assume r: "al_elements al = map Some xs @ rest" "al_size al = int (length xs)"
    "al_length al = int (length xs + length rest)" "3 \<le> length xs + length rest"
  let ?new = "map Some xs @ replicate (length rest) None"
  have "al_copy al = Inr (al\<lparr>al_elements := ?new\<rparr>)"
    by (simp add: al_copy_def r(1,2,3) memcpy_from_def memcpy_to_def nat_add_distrib)
  moreover have "al_rep (al\<lparr>al_elements := ?new\<rparr>) xs"
    by (rule al_repI [of _ _ "replicate (length rest) None"]) (simp_all add: r(2,3,4))
  ultimately show ?thesis by simp
qed

subsection \<open>Searching\<close>

text \<open>What \<open>indexOf\<close> returns: the first position of the element, or -1.\<close>

definition index_int :: "nat option \<Rightarrow> int" where
  "index_int i = (case i of None \<Rightarrow> - 1 | Some n \<Rightarrow> int n)"

lemma index_int_simps [simp]: "index_int None = - 1" "index_int (Some n) = int n"
  by (simp_all add: index_int_def)

lemma position_of_None: "position_of e xs = None \<longleftrightarrow> e \<notin> set xs"
  by (induction xs) simp_all

lemma position_of_first: "i < length xs \<Longrightarrow> xs ! i = e \<Longrightarrow> e \<notin> set (take i xs) \<Longrightarrow> position_of e xs = Some i"
proof (induction xs arbitrary: i)
  case (Cons x xs)
  then show ?case by (cases i) auto
qed simp

lemma position_of_SomeD: "position_of e xs = Some i \<Longrightarrow> i < length xs \<and> xs ! i = e \<and> e \<notin> set (take i xs)"
  by (induction xs arbitrary: i) (auto split: if_splits)

lemma index_loop_ok:
  assumes "al_rep al xs" "i \<le> length xs"
  shows "index_loop e al (int i) = Inr (index_int (map_option ((+) i) (position_of e (drop i xs))))"
  using assms(2)
proof (induction "length xs - i" arbitrary: i)
  case 0
  then show ?case by (simp add: index_loop.simps [of e al] al_rep_size [OF assms(1)])
next
  case (Suc n)
  then have i: "i < length xs" by simp
  have "index_loop e al (int (Suc i)) = Inr (index_int (map_option ((+) (Suc i)) (position_of e (drop (Suc i) xs))))"
    by (rule Suc.hyps(1)) (use Suc in simp_all)
  then have "index_loop e al (int i + 1) = Inr (index_int (map_option ((+) (Suc i)) (position_of e (drop (Suc i) xs))))"
    by (simp add: add.commute)
  moreover have "drop i xs = xs ! i # drop (Suc i) xs" using i by (simp add: Cons_nth_drop_Suc)
  ultimately show ?case using i
    by (cases "position_of e (drop (Suc i) xs)")
      (simp_all add: index_loop.simps [of e al "int i"] al_rep_size [OF assms(1)] cell_get_rep [OF assms(1) i])
qed

lemma al_indexOf_ok: "al_rep al xs \<Longrightarrow> al_indexOf e al = Inr (index_int (position_of e xs))"
  using index_loop_ok [of al xs 0 e] by (cases "position_of e xs") (simp_all add: al_indexOf_def)

lemma al_contains_ok: "al_rep al xs \<Longrightarrow> al_contains e al = Inr (e \<in> set xs)"
  using index_loop_ok [of al xs 0 e]
  by (cases "position_of e xs") (auto simp: al_contains_def position_of_None dest: position_of_SomeD)

lemma last_loop_ok:
  assumes "al_rep al xs"
  shows "i \<le> length xs \<Longrightarrow> last_loop e al (int i - 1) =
    Inr (index_int (map_option (\<lambda>j. i - 1 - j) (position_of e (rev (take i xs)))))"
proof (induction i)
  case 0
  then show ?case by (simp add: last_loop.simps [of e al])
next
  case (Suc i)
  then have i: "i < length xs" by simp
  have "rev (take (Suc i) xs) = xs ! i # rev (take i xs)" using i by (simp add: take_Suc_conv_app_nth)
  with Suc.IH i show ?case
    by (simp add: last_loop.simps [of e al "int i"] cell_get_rep [OF assms i] option.map_comp comp_def)
qed

lemma al_lastIndexOf_ok:
  "al_rep al xs \<Longrightarrow> al_lastIndexOf e al = Inr (index_int (map_option (\<lambda>j. length xs - 1 - j) (position_of e (rev xs))))"
  using last_loop_ok [of al xs "length xs" e] by (simp add: al_lastIndexOf_def al_rep_size)

lemma remove1_position_of: "position_of e xs = Some i \<Longrightarrow> take i xs @ drop (Suc i) xs = remove1 e xs"
  by (induction xs arbitrary: i) (auto split: if_splits)

lemma al_removeElement_ok:
  assumes "al_rep al xs" "length xs \<le> al_max"
  shows "\<exists>al'. al_removeElement e al = Inr (e \<in> set xs, if e \<in> set xs then Some e else None, al') \<and> al_rep al' (remove1 e xs)"
proof (cases "position_of e xs")
  case None
  then have "e \<notin> set xs" by (simp add: position_of_None)
  then show ?thesis using assms(1)
    by (simp add: al_removeElement_def al_indexOf_ok [OF assms(1)] None remove1_idem)
next
  case (Some i)
  then have i: "i < length xs" "xs ! i = e" using position_of_SomeD [OF Some] by auto
  then have "e \<in> set xs" using nth_mem by blast
  moreover obtain al' where "al_remove (int i) al = Inr (e, al')" "al_rep al' (remove1 e xs)"
    using al_remove_ok [OF assms i(1)] remove1_position_of [OF Some] i(2) by auto
  ultimately show ?thesis by (simp add: al_removeElement_def al_indexOf_ok [OF assms(1)] Some)
qed

subsection \<open>Bulk operations\<close>

lemma al_add_each_ok: "al_rep al xs \<Longrightarrow> length xs + length ys \<le> al_max + 1 \<Longrightarrow> \<exists>al'. al_add_each ys al = Inr al' \<and> al_rep al' (xs @ ys)"
proof (induction ys arbitrary: al xs)
  case (Cons y ys)
  then obtain a where "al_add y al = Inr a" "al_rep a (xs @ [y])" using al_add_ok [of al xs y] by auto
  with Cons.IH [of a "xs @ [y]"] Cons.prems(2) show ?case by simp
qed simp

lemma al_insert_each_ok:
  "al_rep al xs \<Longrightarrow> i \<le> length xs \<Longrightarrow> length xs + length ys \<le> al_max + 1 \<Longrightarrow>
     \<exists>al'. al_insert_each (int i) ys al = Inr al' \<and> al_rep al' (take i xs @ ys @ drop i xs)"
proof (induction ys arbitrary: al xs i)
  case (Cons y ys)
  let ?xs = "take i xs @ y # drop i xs"
  obtain a where a: "al_insert (int i) y al = Inr a" "al_rep a ?xs" using al_insert_ok [of al xs i y] Cons.prems by auto
  have "take (Suc i) ?xs = take i xs @ [y]" "drop (Suc i) ?xs = drop i xs" using Cons.prems(2) by simp_all
  with Cons.IH [OF a(2), of "Suc i"] Cons.prems(2,3) obtain b where
    "al_insert_each (int (Suc i)) ys a = Inr b" "al_rep b (take i xs @ y # ys @ drop i xs)" by auto
  with a(1) show ?case by (simp add: add.commute)
qed simp

lemma al_addAll_ok:
  "al_rep al xs \<Longrightarrow> length xs + length ys \<le> al_max + 1 \<Longrightarrow> \<exists>al'. al_addAll ys al = Inr (ys \<noteq> [], al') \<and> al_rep al' (xs @ ys)"
  using al_add_each_ok [of al xs ys] by (auto simp: al_addAll_def)

lemma al_insertAll_ok:
  "al_rep al xs \<Longrightarrow> i \<le> length xs \<Longrightarrow> length xs + length ys \<le> al_max + 1 \<Longrightarrow>
     \<exists>al'. al_insertAll (int i) ys al = Inr (ys \<noteq> [], al') \<and> al_rep al' (take i xs @ ys @ drop i xs)"
  using al_insert_each_ok [of al xs i ys] by (auto simp: al_insertAll_def)

lemma al_containsAll_ok: "al_rep al xs \<Longrightarrow> al_containsAll ys al = Inr (set ys \<subseteq> set xs)"
  by (induction ys) (simp_all add: al_contains_ok)

lemma al_removeAll_ok:
  "al_rep al xs \<Longrightarrow> length xs \<le> al_max \<Longrightarrow>
     \<exists>al'. al_removeAll ys al = Inr (set ys \<inter> set xs \<noteq> {}, al') \<and> al_rep al' (fold remove1 ys xs)"
proof (induction ys arbitrary: al xs)
  case (Cons y ys)
  obtain a r where a: "al_removeElement y al = Inr (y \<in> set xs, r, a)" "al_rep a (remove1 y xs)"
    using al_removeElement_ok [OF Cons.prems, of y] by blast
  have l: "length (remove1 y xs) \<le> al_max" using Cons.prems(2) by (auto simp: length_remove1)
  have "y \<in> set xs \<or> set ys \<inter> set (remove1 y xs) \<noteq> {} \<longleftrightarrow> set (y # ys) \<inter> set xs \<noteq> {}"
    by (cases "y \<in> set xs") (auto simp: remove1_idem)
  with a Cons.IH [OF a(2) l] show ?case by auto
qed simp

subsection \<open>Whole-list operations\<close>

lemma equals_loop_ok:
  assumes "al_rep al xs" "al_rep other ys" "length ys = length xs"
  shows "i \<le> length xs \<Longrightarrow> equals_loop al other (int i) = Inr (drop i xs = drop i ys)"
proof (induction "length xs - i" arbitrary: i)
  case 0
  then show ?case using assms(3) by (simp add: equals_loop.simps [of al] al_rep_size [OF assms(1)])
next
  case (Suc n)
  then have i: "i < length xs" "i < length ys" using assms(3) by simp_all
  have "equals_loop al other (int (Suc i)) = Inr (drop (Suc i) xs = drop (Suc i) ys)"
    by (rule Suc.hyps(1)) (use Suc in simp_all)
  then have "equals_loop al other (int i + 1) = Inr (drop (Suc i) xs = drop (Suc i) ys)" by (simp add: add.commute)
  moreover have "drop i xs = xs ! i # drop (Suc i) xs" "drop i ys = ys ! i # drop (Suc i) ys"
    using i by (simp_all add: Cons_nth_drop_Suc)
  ultimately show ?case using i
    by (simp add: equals_loop.simps [of al other "int i"] al_rep_size [OF assms(1)] cell_get_rep [OF assms(1) i(1)]
      cell_get_rep [OF assms(2) i(2)])
qed

lemma al_equals_ok: "al_rep al xs \<Longrightarrow> al_rep other ys \<Longrightarrow> al_equals al other = Inr (xs = ys)"
  using equals_loop_ok [of al xs other ys 0] by (auto simp: al_equals_def al_rep_size)

lemma toArray_loop_ok:
  assumes "al_rep al xs"
  shows "i + n \<le> length xs \<Longrightarrow> i + n \<le> length arr \<Longrightarrow>
    toArray_loop al arr i n = Inr (take i arr @ take n (drop i xs) @ drop (i + n) arr)"
proof (induction n arbitrary: i arr)
  case (Suc n)
  then have i: "i < length xs" "i < length arr" by simp_all
  have "take n (drop (Suc i) xs) @ drop (Suc i + n) arr = take n (drop (Suc i) xs) @ drop (Suc i + n) (arr[i := xs ! i])" by simp
  moreover have "take (Suc n) (drop i xs) = xs ! i # take n (drop (Suc i) xs)" using i(1) by (metis Cons_nth_drop_Suc take_Suc_Cons)
  ultimately show ?case using Suc.IH [of "Suc i" "arr[i := xs ! i]"] Suc.prems i
    by (simp add: cell_get_rep [OF assms i(1)] poke_def take_Suc_conv_app_nth)
qed simp

lemma al_toArray_ok:
  assumes "al_rep al xs"
  shows "al_toArray al arr = Inr (take (length arr) xs @ drop (length xs) arr)"
proof -
  let ?n = "min (length arr) (length xs)"
  have n: "nat (min (int (length arr)) (al_size al)) = ?n" by (simp add: al_rep_size [OF assms] min_def)
  have "take ?n xs = take (length arr) xs" "drop ?n arr = drop (length xs) arr" by (simp_all add: min_def)
  then show ?thesis using toArray_loop_ok [OF assms, of 0 ?n arr] by (simp add: al_toArray_def n)
qed


subsection \<open>Iterating\<close>

definition al_list :: "'e arraylist \<Rightarrow> 'e list" where
  "al_list al = map the (take (nat (al_size al)) (al_elements al))"

lemma al_rep_list: "al_rep al xs \<Longrightarrow> al_list al = xs"
  by (erule al_repE) (simp add: al_list_def comp_def)

text \<open>An iterator together with the list it runs over.\<close>

definition alIter_step :: "'e arraylist \<times> int \<Rightarrow> ('e option \<times> ('e arraylist \<times> int)) result" where
  "alIter_step s = rbind (alIter_next (fst s) (snd s)) (\<lambda>(e, cursor). Inr (e, (fst s, cursor)))"

definition alIter_ok :: "'e arraylist \<times> int \<Rightarrow> bool" where
  "alIter_ok s \<longleftrightarrow> al_rep (fst s) (al_list (fst s)) \<and> 0 \<le> snd s"

lemma alIter_next_ok: "al_rep al xs \<Longrightarrow> i < length xs \<Longrightarrow> alIter_next al (int i) = Inr (Some (xs ! i), int i + 1)"
  by (simp add: alIter_next_def cell_get_rep)

interpretation array_iterator: cursor_iterator "\<lambda>s. alIter_hasNext (fst s) (snd s)" alIter_step alIter_ok
  "\<lambda>s. drop (nat (snd s)) (al_list (fst s))"
proof (unfold_locales, goal_cases)
  case (1 it)
  then have "al_size (fst it) = int (length (al_list (fst it)))" by (simp add: alIter_ok_def al_rep_size)
  then show ?case using 1 by (auto simp: alIter_hasNext_def alIter_ok_def)
next
  case (2 it e es)
  let ?i = "nat (snd it)" and ?xs = "al_list (fst it)"
  have i: "?i < length ?xs" using 2(2) by (metis drop_eq_Nil2 leI list.distinct(1))
  have "?xs ! ?i = e" "drop (Suc ?i) ?xs = es" using 2(2) i by (simp_all add: Cons_nth_drop_Suc [symmetric])
  moreover have "int ?i = snd it" "al_rep (fst it) ?xs" using 2(1) by (simp_all add: alIter_ok_def)
  moreover have "nat (snd it + 1) = Suc ?i" using 2(1) by (simp add: alIter_ok_def nat_add_distrib)
  ultimately show ?case using alIter_next_ok [of "fst it" ?xs ?i] i 2(1)
    by (simp add: alIter_step_def alIter_ok_def)
qed

lemma al_iterates: "al_rep al xs \<Longrightarrow> length xs < n \<Longrightarrow>
    drain (\<lambda>s. alIter_hasNext (fst s) (snd s)) alIter_step n (al, 0) = Inr (Some (map Some xs))"
  using array_iterator.drain_ok [of "(al, 0)" n] al_rep_list [of al xs] by (simp add: alIter_ok_def)

lemma alIter_remove_ok:
  assumes "al_rep al xs" "length xs \<le> al_max" "i < length xs"
  shows "\<exists>al'. alIter_remove al (int i + 1) = Inr (al', int i) \<and> al_rep al' (take i xs @ drop (Suc i) xs)"
  using al_remove_ok [OF assms] by (auto simp: alIter_remove_def)

lemma al_retainAll_ok:
  "al_rep al xs \<Longrightarrow> length xs \<le> al_max \<Longrightarrow> i \<le> length xs \<Longrightarrow> length xs - i < n \<Longrightarrow>
     \<exists>al'. al_retainAll n c al (int i) = Inr (Some (\<exists>x\<in>set (drop i xs). \<not> c x, al')) \<and>
       al_rep al' (take i xs @ filter c (drop i xs))"
proof (induction n arbitrary: al xs i)
  case (Suc n)
  show ?case
  proof (cases "i < length xs")
    case False
    then show ?thesis using Suc.prems(1,3) by (simp add: alIter_hasNext_def al_rep_size)
  next
    case i: True
    have h: "alIter_hasNext al (int i)" using i by (simp add: alIter_hasNext_def al_rep_size [OF Suc.prems(1)])
    have d: "drop i xs = xs ! i # drop (Suc i) xs" "take (Suc i) xs = take i xs @ [xs ! i]"
      using i by (simp_all add: Cons_nth_drop_Suc take_Suc_conv_app_nth)
    note nx = alIter_next_ok [OF Suc.prems(1) i]
    show ?thesis
    proof (cases "c (xs ! i)")
      case True
      have "\<exists>al'. al_retainAll n c al (int (Suc i)) = Inr (Some (\<exists>x\<in>set (drop (Suc i) xs). \<not> c x, al')) \<and>
          al_rep al' (take (Suc i) xs @ filter c (drop (Suc i) xs))"
        using Suc.prems i by (intro Suc.IH) simp_all
      with True h show ?thesis by (simp add: nx d add.commute)
    next
      case False
      let ?ys = "take i xs @ drop (Suc i) xs"
      obtain a where a: "alIter_remove al (int i + 1) = Inr (a, int i)" "al_rep a ?ys"
        using alIter_remove_ok [OF Suc.prems(1,2) i] by blast
      have y: "drop i ?ys = drop (Suc i) xs" "take i ?ys = take i xs" using i by simp_all
      have "\<exists>al'. al_retainAll n c a (int i) = Inr (Some (\<exists>x\<in>set (drop i ?ys). \<not> c x, al')) \<and>
          al_rep al' (take i ?ys @ filter c (drop i ?ys))"
        using Suc.prems i by (intro Suc.IH [OF a(2)]) auto
      with False h a(1) show ?thesis unfolding y by (auto simp add: nx d(1))
    qed
  qed
qed simp

subsection \<open>The list iterator\<close>

lemma li_next_ok:
  "al_rep al xs \<Longrightarrow> i < length xs \<Longrightarrow> li_cursor it = int i \<Longrightarrow>
     li_next al it = Inr (Some (xs ! i), \<lparr>li_cursor = int i + 1, li_forward = True\<rparr>)"
  by (simp add: li_next_def cell_get_rep)

lemma li_previous_ok:
  "al_rep al xs \<Longrightarrow> i < length xs \<Longrightarrow> li_cursor it = int i + 1 \<Longrightarrow>
     li_previous al it = Inr (Some (xs ! i), \<lparr>li_cursor = int i, li_forward = False\<rparr>)"
  by (simp add: li_previous_def cell_get_rep)

text \<open>The index of the element that \<open>remove\<close> and \<open>set\<close> act on.\<close>

definition li_current :: "list_iter \<Rightarrow> int" where
  "li_current it = (if li_forward it then li_cursor it - 1 else li_cursor it)"

lemma li_remove_ok:
  assumes "al_rep al xs" "length xs \<le> al_max" "i < length xs" "li_current it = int i"
  shows "\<exists>al'. li_remove al it = Inr (al', it\<lparr>li_cursor := int i\<rparr>) \<and> al_rep al' (take i xs @ drop (Suc i) xs)"
  using al_remove_ok [OF assms(1-3)] assms(4) by (auto simp: li_remove_def li_current_def)

lemma li_set_ok:
  assumes "al_rep al xs" "i < length xs" "li_current it = int i"
  shows "\<exists>al'. li_set e al it = Inr (al', it\<lparr>li_cursor := int i\<rparr>) \<and> al_rep al' (xs[i := e])"
  using al_set_ok [OF assms(1,2), of e] assms(3) by (auto simp: li_set_def li_current_def)

text \<open>\<open>set\<close> after \<open>next\<close> puts the cursor back, so that the next \<open>next\<close> returns the element just set.\<close>

lemma li_set_steps_back:
  assumes "al_rep al xs" "i < length xs" "li_cursor it = int i"
  shows "\<exists>it1 al1 it2. li_next al it = Inr (Some (xs ! i), it1) \<and> li_set e al it1 = Inr (al1, it2) \<and> al_rep al1 (xs[i := e]) \<and>
    li_cursor it2 = int i \<and> li_next al1 it2 = Inr (Some e, it1)"
proof -
  let ?it = "\<lparr>li_cursor = int i + 1, li_forward = True\<rparr>"
  obtain al1 where "li_set e al ?it = Inr (al1, ?it\<lparr>li_cursor := int i\<rparr>)" "al_rep al1 (xs[i := e])"
    using li_set_ok [OF assms(1,2), of ?it e] by (auto simp: li_current_def)
  with li_next_ok [OF assms] li_next_ok [of al1 "xs[i := e]" i "?it\<lparr>li_cursor := int i\<rparr>"] assms(2) show ?thesis
    by (intro exI [of _ ?it] exI [of _ al1] exI [of _ "?it\<lparr>li_cursor := int i\<rparr>"]) simp
qed

lemma li_add_ok:
  assumes "al_rep al xs" "length xs \<le> al_max" "i \<le> length xs" "li_cursor it = int i"
  shows "\<exists>al'. li_add e al it = Inr (al', it\<lparr>li_cursor := int i + 1\<rparr>) \<and> al_rep al' (take i xs @ e # drop i xs)"
  using al_insert_ok [OF assms(1-3), of e] assms(4) by (auto simp: li_add_def)

text \<open>A list that was created with less room than three elements never grows.\<close>

lemma al_add_each_small:
  assumes "cap < 3"
  shows "length xs \<le> cap \<Longrightarrow> \<exists>al. al_add_each xs (al_new cap del) = Inr al \<and> al_list al = xs"
    and "cap < length xs \<Longrightarrow> al_add_each xs (al_new cap del) = Inl OutOfBounds"
proof -
  have c: "cap = 0 \<or> cap = 1 \<or> cap = 2" using assms by linarith
  note small = al_add_def al_new_def al_resize_def int32_def AL_INITIAL_CAPACITY_def cell_set_def poke_def al_list_def
  show "length xs \<le> cap \<Longrightarrow> \<exists>al. al_add_each xs (al_new cap del) = Inr al \<and> al_list al = xs"
    using c by (cases xs; cases "tl xs"; cases "tl (tl xs)") (auto simp: small numeral_2_eq_2)
  show "cap < length xs \<Longrightarrow> al_add_each xs (al_new cap del) = Inl OutOfBounds"
  proof (cases xs)
    case (Cons a ys)
    assume "cap < length xs"
    with c Cons show ?thesis
      by (cases ys; cases "tl ys") (auto simp: small numeral_2_eq_2)
  qed simp
qed

subsection \<open>The array list as a list\<close>

fun al_op :: "'e list_op \<Rightarrow> 'e arraylist \<Rightarrow> ('e list_res \<times> 'e arraylist) result" where
  "al_op (AddLast e) al = rbind (al_add e al) (\<lambda>al'. Inr (Done, al'))"
| "al_op (AddAt i e) al = rbind (al_insert (int i) e al) (\<lambda>al'. Inr (Done, al'))"
| "al_op (RemoveAt i) al = rbind (al_remove (int i) al) (\<lambda>(e, al'). Inr (Element e, al'))"
| "al_op (SetAt i e) al = rbind (al_set (int i) e al) (\<lambda>(old, al'). Inr (Element old, al'))"
| "al_op (GetAt i) al = rbind (al_get (int i) al) (\<lambda>e. Inr (Element e, al))"
| "al_op (IndexOf e) al = rbind (al_indexOf e al) (\<lambda>i. Inr (Index (if i < 0 then None else Some (nat i)), al))"

interpretation array_list: list_store al_op al_rep "Suc al_max"
proof
  fix s :: "'e arraylist" and xs x r ys
  assume rep: "al_rep s xs" and len: "length xs < Suc al_max" and x: "spec_list_op x xs = Some (r, ys)"
  then have l: "length xs \<le> al_max" by simp
  show "\<exists>s'. al_op x s = Inr (r, s') \<and> al_rep s' ys"
  proof (cases x)
    case (AddLast e)
    with x al_add_ok [OF rep l, of e] show ?thesis by auto
  next
    case (AddAt i e)
    with x al_insert_ok [OF rep l, of i e] show ?thesis by (auto split: if_splits)
  next
    case (RemoveAt i)
    with x al_remove_ok [OF rep l, of i] show ?thesis by (auto split: if_splits)
  next
    case (SetAt i e)
    with x al_set_ok [OF rep, of i e] show ?thesis by (auto split: if_splits)
  next
    case (GetAt i)
    with x rep al_get_ok [OF rep, of i] show ?thesis by (auto split: if_splits)
  next
    case (IndexOf e)
    with x rep al_indexOf_ok [OF rep, of e] show ?thesis by (cases "position_of e xs") auto
  qed
qed

end
