(* ===== verification/PriorityQueue.thy ===== *)
theory PriorityQueue
  imports ArrayList TreeNode "HOL-Library.Multiset"
begin

section \<open>The priority queue\<close>

text \<open>
  The class \<open>PriorityQueue\<close> of \<^verbatim>\<open>src/PLATFORM/src/main/native/cxx/util/PriorityQueue.h\<close>: a binary heap in an
  array list. The comparator is a template argument of the class and an argument of the definitions; what
  the queue relies on is the locale \<open>comparator\<close>, which holds of \<open>Comparator\<close> on the integer types.
\<close>

record 'e pqueue =
  pq_deleteValue :: bool
  pq_elements :: "'e arraylist"

type_synonym 'e cmp = "'e \<Rightarrow> 'e \<Rightarrow> int"

definition PQ_INITIAL_CAPACITY :: nat where
  "PQ_INITIAL_CAPACITY = 4"

definition parentOf :: "int \<Rightarrow> int" where
  "parentOf child = drop_bit 1 (child - 1)"

definition leftChild :: "int \<Rightarrow> int result" where
  "leftChild parent = int32 (push_bit 1 parent + 1)"

definition pq_swap :: "'e arraylist \<Rightarrow> int \<Rightarrow> int \<Rightarrow> 'e arraylist result" where
  "pq_swap arr e1 e2 =
     rbind (al_get e1 arr) (\<lambda>v1.
     rbind (al_get e2 arr) (\<lambda>v2.
     rbind (al_set e1 v2 arr) (\<lambda>(_, arr1).
     rbind (al_set e2 v1 arr1) (\<lambda>(_, arr2). Inr arr2))))"

definition reheapifyLeft :: "'e cmp \<Rightarrow> int \<Rightarrow> 'e arraylist \<Rightarrow> (int \<times> 'e arraylist) result" where
  "reheapifyLeft cmp left q =
     (let parent = parentOf left in
      rbind (al_get left q) (\<lambda>l.
      rbind (al_get parent q) (\<lambda>p.
        if cmp l p < 0 then rbind (pq_swap q left parent) (\<lambda>q'. Inr (parent, q'))
        else Inr (- 1, q))))"

definition reheapifyRight :: "'e cmp \<Rightarrow> int \<Rightarrow> 'e arraylist \<Rightarrow> (int \<times> 'e arraylist) result" where
  "reheapifyRight cmp right q =
     (if right = 0 then Inr (- 1, q)
      else
        let parent = parentOf right in
        rbind (al_get parent q) (\<lambda>p.
        rbind (al_get right q) (\<lambda>r.
          if cmp p r > 0 then rbind (pq_swap q parent right) (\<lambda>q'. Inr (parent, q'))
          else Inr (- 1, q))))"

definition min_child :: "'e cmp \<Rightarrow> int \<Rightarrow> int \<Rightarrow> 'e arraylist \<Rightarrow> int result" where
  "min_child cmp left right q =
     (if right < al_size q
      then rbind (al_get left q) (\<lambda>l. rbind (al_get right q) (\<lambda>r. Inr (if cmp l r > 0 then right else left)))
      else Inr left)"

definition reheapifyParent :: "'e cmp \<Rightarrow> int \<Rightarrow> 'e arraylist \<Rightarrow> (int \<times> 'e arraylist) result" where
  "reheapifyParent cmp parent q =
     rbind (leftChild parent) (\<lambda>left.
     rbind (int32 (left + 1)) (\<lambda>right.
       if left \<ge> al_size q then Inr (- 1, q)
       else
         rbind (min_child cmp left right q) (\<lambda>minChild.
         rbind (al_get parent q) (\<lambda>p.
         rbind (al_get minChild q) (\<lambda>m.
           if cmp p m > 0 then rbind (pq_swap q parent minChild) (\<lambda>q'. Inr (minChild, q'))
           else Inr (- 1, q))))))"

definition isLeft :: "int \<Rightarrow> bool" where
  "isLeft child \<longleftrightarrow> child AND 1 = 1"

text \<open>What ends the loops: an index that could be read is not negative, and a swap keeps the size.\<close>

lemma al_get_nonneg: "al_get i q = Inr e \<Longrightarrow> 0 \<le> i"
  by (auto simp: al_get_def cell_get_def split: if_splits)

lemma al_set_size: "al_set i e q = Inr (r, q') \<Longrightarrow> al_size q' = al_size q"
  by (auto simp: al_set_def result_simps)

lemma pq_swap_size: "pq_swap q i j = Inr q' \<Longrightarrow> al_size q' = al_size q"
  by (auto simp: pq_swap_def result_simps dest!: al_set_size)

lemma reheapifyLeft_less: "reheapifyLeft cmp c q = Inr (c', q') \<Longrightarrow> nat (c' + 1) < nat (c + 1)"
  by (auto simp: reheapifyLeft_def parentOf_def drop_bit_eq_div Let_def result_simps split: if_splits dest!: al_get_nonneg)

lemma reheapifyRight_less: "reheapifyRight cmp c q = Inr (c', q') \<Longrightarrow> c \<noteq> - 1 \<Longrightarrow> nat (c' + 1) < nat (c + 1)"
  by (auto simp: reheapifyRight_def parentOf_def drop_bit_eq_div Let_def result_simps split: if_splits dest!: al_get_nonneg)

function reheapifyUp :: "'e cmp \<Rightarrow> int \<Rightarrow> 'e arraylist \<Rightarrow> 'e arraylist result" where
  "reheapifyUp cmp child q =
     (if child \<noteq> - 1
      then rbind (if isLeft child then reheapifyLeft cmp child q else reheapifyRight cmp child q)
             (\<lambda>x. reheapifyUp cmp (fst x) (snd x))
      else Inr q)"
  by pat_completeness auto
termination
  by (relation "measure (\<lambda>(cmp, child, q). nat (child + 1))")
    (auto split: if_splits dest: reheapifyLeft_less reheapifyRight_less)

declare reheapifyUp.simps [simp del]

lemma min_child_range: "min_child cmp left right q = Inr m \<Longrightarrow> left < right \<Longrightarrow> left < al_size q \<Longrightarrow> left \<le> m \<and> m < al_size q"
  by (auto simp: min_child_def result_simps split: if_splits)

lemma reheapifyParent_less:
  assumes "reheapifyParent cmp p q = Inr (p', q')" "p \<noteq> - 1"
  shows "p' = - 1 \<or> p < p' \<and> p' < al_size q \<and> al_size q' = al_size q"
proof -
  obtain left where l: "leftChild p = Inr left" "left = 2 * p + 1"
    using assms(1) by (auto simp: reheapifyParent_def leftChild_def int32_def push_bit_eq_mult result_simps split: if_splits)
  have "int32 (left + 1) = Inr (left + 1)"
    using assms(1) l(1) by (auto simp: reheapifyParent_def int32_def result_simps split: if_splits)
  with assms(1) l show ?thesis
    by (auto simp: reheapifyParent_def result_simps not_le split: if_splits dest!: al_get_nonneg pq_swap_size dest: min_child_range)
qed

function reheapifyDown :: "'e cmp \<Rightarrow> int \<Rightarrow> 'e arraylist \<Rightarrow> 'e arraylist result" where
  "reheapifyDown cmp parent q =
     (if parent \<noteq> - 1 then rbind (reheapifyParent cmp parent q) (\<lambda>x. reheapifyDown cmp (fst x) (snd x))
      else Inr q)"
  by pat_completeness auto
termination
  by (relation "measure (\<lambda>(cmp, parent, q). if parent = - 1 then 0 else Suc (nat (al_size q - parent)))")
    (auto dest!: reheapifyParent_less)

declare reheapifyDown.simps [simp del]

subsection \<open>Operations\<close>

definition pq_new :: "nat \<Rightarrow> bool \<Rightarrow> 'e pqueue" where
  "pq_new capacity deleteValue = \<lparr>pq_deleteValue = deleteValue, pq_elements = al_new capacity deleteValue\<rparr>"

definition pq_size :: "'e pqueue \<Rightarrow> int" where
  "pq_size q = al_size (pq_elements q)"

definition pq_isEmpty :: "'e pqueue \<Rightarrow> bool" where
  "pq_isEmpty q = al_isEmpty (pq_elements q)"

definition pq_get :: "int \<Rightarrow> 'e pqueue \<Rightarrow> 'e result" where
  "pq_get i q = al_get i (pq_elements q)"

definition pq_add :: "'e cmp \<Rightarrow> 'e \<Rightarrow> 'e pqueue \<Rightarrow> 'e pqueue result" where
  "pq_add cmp v q =
     rbind (al_add v (pq_elements q)) (\<lambda>a.
     rbind (reheapifyUp cmp (al_size a - 1) a) (\<lambda>a'. Inr (q\<lparr>pq_elements := a'\<rparr>)))"

fun pq_add_each :: "'e cmp \<Rightarrow> 'e list \<Rightarrow> 'e pqueue \<Rightarrow> 'e pqueue result" where
  "pq_add_each cmp [] q = Inr q"
| "pq_add_each cmp (x # xs) q = rbind (pq_add cmp x q) (pq_add_each cmp xs)"

definition pq_addAll :: "'e cmp \<Rightarrow> 'e list \<Rightarrow> 'e pqueue \<Rightarrow> (bool \<times> 'e pqueue) result" where
  "pq_addAll cmp c q = rbind (pq_add_each cmp c q) (\<lambda>q'. Inr (c \<noteq> [], q'))"

definition pq_removeAt :: "'e cmp \<Rightarrow> int \<Rightarrow> 'e pqueue \<Rightarrow> ('e \<times> 'e pqueue) result" where
  "pq_removeAt cmp i q =
     rbind (al_get i (pq_elements q)) (\<lambda>v.
     rbind (if al_size (pq_elements q) - i > 1
            then rbind (pq_swap (pq_elements q) i (al_size (pq_elements q) - 1)) (\<lambda>a.
                 rbind (al_remove (al_size a - 1) a) (\<lambda>(_, a'). reheapifyDown cmp i a'))
            else rbind (al_remove (al_size (pq_elements q) - 1) (pq_elements q)) (\<lambda>(_, a'). Inr a')) (\<lambda>a.
       Inr (v, q\<lparr>pq_elements := a\<rparr>)))"

definition pq_remove :: "'e cmp \<Rightarrow> 'e pqueue \<Rightarrow> ('e \<times> 'e pqueue) result" where
  "pq_remove cmp q = pq_removeAt cmp 0 q"

definition pq_clear :: "'e pqueue \<Rightarrow> 'e pqueue result" where
  "pq_clear q = rbind (al_clear (pq_elements q)) (\<lambda>a. Inr (q\<lparr>pq_elements := a\<rparr>))"

definition pq_indexOf :: "'e \<Rightarrow> 'e pqueue \<Rightarrow> int result" where
  "pq_indexOf e q = al_indexOf e (pq_elements q)"

definition pq_removeElement :: "'e cmp \<Rightarrow> 'e \<Rightarrow> 'e pqueue \<Rightarrow> (bool \<times> 'e option \<times> 'e pqueue) result" where
  "pq_removeElement cmp e q =
     rbind (pq_indexOf e q) (\<lambda>i.
       if i < 0 then Inr (False, None, q)
       else rbind (pq_removeAt cmp i q) (\<lambda>(v, q'). Inr (True, Some v, q')))"

subsection \<open>Swapping\<close>

definition swapped :: "'e list \<Rightarrow> nat \<Rightarrow> nat \<Rightarrow> 'e list" where
  "swapped xs i j = xs[i := xs ! j, j := xs ! i]"

lemma length_swapped [simp]: "length (swapped xs i j) = length xs"
  by (simp add: swapped_def)

lemma mset_swapped: "i < length xs \<Longrightarrow> j < length xs \<Longrightarrow> mset (swapped xs i j) = mset xs"
  unfolding swapped_def by (cases "i = j") (simp_all add: mset_swap)

lemma nth_swapped: "i < length xs \<Longrightarrow> j < length xs \<Longrightarrow> k < length xs \<Longrightarrow>
    swapped xs i j ! k = (if k = i then xs ! j else if k = j then xs ! i else xs ! k)"
  by (simp add: swapped_def nth_list_update)

lemma swapped_commute: "i < length xs \<Longrightarrow> j < length xs \<Longrightarrow> swapped xs i j = swapped xs j i"
  unfolding swapped_def by (cases "i = j") (simp_all add: list_update_swap)

lemma pq_swap_ok:
  assumes "al_rep a xs" "i < length xs" "j < length xs"
  shows "\<exists>a'. pq_swap a (int i) (int j) = Inr a' \<and> al_rep a' (swapped xs i j)"
proof -
  obtain a1 where 1: "al_set (int i) (xs ! j) a = Inr (xs ! i, a1)" "al_rep a1 (xs[i := xs ! j])"
    using al_set_ok [OF assms(1,2)] by blast
  obtain a2 r where "al_set (int j) (xs ! i) a1 = Inr (r, a2)" "al_rep a2 (swapped xs i j)"
    using al_set_ok [OF 1(2), of j "xs ! i"] assms(3) by (auto simp: swapped_def)
  then show ?thesis by (simp add: pq_swap_def al_get_ok [OF assms(1)] assms(2,3) 1(1))
qed


subsection \<open>Heap order\<close>

text \<open>The position above another one, and the order every position is in with the one above.\<close>

definition up_of :: "nat \<Rightarrow> nat" where
  "up_of i = (i - 1) div 2"

definition in_order :: "'e cmp \<Rightarrow> 'e list \<Rightarrow> nat \<Rightarrow> bool" where
  "in_order cmp xs i \<longleftrightarrow> i = 0 \<or> cmp (xs ! up_of i) (xs ! i) \<le> 0"

definition heap :: "'e cmp \<Rightarrow> 'e list \<Rightarrow> bool" where
  "heap cmp xs \<longleftrightarrow> (\<forall>i<length xs. in_order cmp xs i)"

text \<open>
  A heap but for one position, which may be smaller than the position above it (on the way up) or
  greater than those below it (on the way down).
\<close>

definition skips :: "'e cmp \<Rightarrow> 'e list \<Rightarrow> nat \<Rightarrow> bool" where
  "skips cmp xs k \<longleftrightarrow> (\<forall>i<length xs. 0 < i \<and> up_of i = k \<and> 0 < k \<longrightarrow> cmp (xs ! up_of k) (xs ! i) \<le> 0)"

definition heap_above :: "'e cmp \<Rightarrow> 'e list \<Rightarrow> nat \<Rightarrow> bool" where
  "heap_above cmp xs k \<longleftrightarrow> (\<forall>i<length xs. i \<noteq> k \<longrightarrow> in_order cmp xs i) \<and> skips cmp xs k"

definition heap_below :: "'e cmp \<Rightarrow> 'e list \<Rightarrow> nat \<Rightarrow> bool" where
  "heap_below cmp xs k \<longleftrightarrow> (\<forall>i<length xs. up_of i = k \<or> in_order cmp xs i) \<and> skips cmp xs k"

lemma up_of_less [simp]: "0 < i \<Longrightarrow> up_of i < i"
  by (simp add: up_of_def)

lemma up_of_bound: "i < n \<Longrightarrow> up_of i < n"
  by (cases i) (simp_all add: up_of_def)

lemma up_of_0 [simp]: "up_of 0 = 0"
  by (simp add: up_of_def)

lemma up_of_children: "0 < i \<Longrightarrow> up_of i = k \<longleftrightarrow> i = 2 * k + 1 \<or> i = 2 * k + 2"
  unfolding up_of_def by presburger

lemma parentOf_int: "0 < i \<Longrightarrow> parentOf (int i) = int (up_of i)"
  by (simp add: parentOf_def up_of_def drop_bit_eq_div of_nat_diff zdiv_int)

text \<open>What a comparator promises: it is antisymmetric and transitive.\<close>

locale comparator =
  fixes cmp :: "'e \<Rightarrow> 'e \<Rightarrow> int"
  assumes swap_law: "cmp x y < 0 \<longleftrightarrow> cmp y x > 0"
    and trans_law: "cmp x y \<le> 0 \<Longrightarrow> cmp y z \<le> 0 \<Longrightarrow> cmp x z \<le> 0"
begin

lemma total: "\<not> cmp x y \<le> 0 \<Longrightarrow> cmp y x \<le> 0"
  using swap_law [of y x] by linarith

lemma reflexive: "cmp x x \<le> 0"
  using swap_law [of x x] by linarith

text \<open>One step up: the smaller element changes place with the one above.\<close>

lemma heap_above_swap:
  assumes h: "heap_above cmp xs k" and k: "0 < k" "k < length xs" and less: "cmp (xs ! k) (xs ! up_of k) < 0"
  shows "heap_above cmp (swapped xs k (up_of k)) (up_of k)"
proof -
  let ?p = "up_of k" and ?ys = "swapped xs k (up_of k)"
  have p: "?p < k" "?p < length xs" using k by (simp_all add: order.strict_trans [of "up_of k" k])
  note nth = nth_swapped [OF k(2) p(2)]
  have le: "cmp (xs ! k) (xs ! ?p) \<le> 0" using less by simp
  have ord: "cmp (xs ! up_of i) (xs ! i) \<le> 0" if "i < length xs" "0 < i" "i \<noteq> k" for i
    using h that by (auto simp: heap_above_def in_order_def)
  have below: "cmp (xs ! ?p) (xs ! i) \<le> 0" if "i < length xs" "0 < i" "up_of i = k" for i
    using h k that by (auto simp: heap_above_def skips_def)
  note u = up_of_bound [of _ "length xs"]
  have "in_order cmp ?ys i" if i: "i < length xs" "i \<noteq> ?p" for i
  proof (cases "i = 0 \<or> i = k")
    case True
    then show ?thesis using le i k p by (auto simp: in_order_def nth)
  next
    case False
    consider "up_of i = k" | "up_of i = ?p" | "up_of i \<noteq> k" "up_of i \<noteq> ?p" by blast
    then show ?thesis
    proof cases
      case 1
      then show ?thesis using below [of i] False i k p by (simp add: in_order_def nth)
    next
      case 2
      then have "cmp (xs ! k) (xs ! i) \<le> 0" using trans_law [OF le] ord [of i] False i by simp
      then show ?thesis using 2 False i k p by (simp add: in_order_def nth)
    next
      case 3
      then show ?thesis using ord [of i] False i u [of i] by (simp add: in_order_def nth)
    qed
  qed
  moreover have "skips cmp ?ys ?p"
    unfolding skips_def
  proof (intro allI impI)
    fix i
    assume i: "i < length ?ys" "0 < i \<and> up_of i = ?p \<and> 0 < ?p"
    have up: "cmp (xs ! up_of ?p) (xs ! ?p) \<le> 0" using ord [of ?p] i p by simp
    have "up_of ?p < ?p" using i by simp
    then have "up_of ?p \<noteq> k" "up_of ?p \<noteq> ?p" using p by linarith+
    moreover have "cmp (xs ! up_of ?p) (xs ! i) \<le> 0" if "i \<noteq> k" using trans_law [OF up] ord [of i] i that by simp
    ultimately show "cmp (?ys ! up_of ?p) (?ys ! i) \<le> 0" using up i p u [of ?p] by (auto simp: nth)
  qed
  ultimately show ?thesis by (simp add: heap_above_def)
qed

lemma heap_above_done: "heap_above cmp xs k \<Longrightarrow> k = 0 \<or> \<not> cmp (xs ! k) (xs ! up_of k) < 0 \<Longrightarrow> heap cmp xs"
  using swap_law by (fastforce simp: heap_def heap_above_def in_order_def)

text \<open>One step down: the greater element changes place with the smaller of the two below.\<close>

lemma heap_below_swap:
  assumes h: "heap_below cmp xs k" and m: "0 < m" "m < length xs" "up_of m = k" and less: "cmp (xs ! m) (xs ! k) \<le> 0"
    and least: "\<And>i. i < length xs \<Longrightarrow> 0 < i \<Longrightarrow> up_of i = k \<Longrightarrow> cmp (xs ! m) (xs ! i) \<le> 0"
  shows "heap_below cmp (swapped xs k m) m"
proof -
  let ?ys = "swapped xs k m"
  have k: "k < m" "k < length xs" using m up_of_less [of m] by auto
  note nth = nth_swapped [OF k(2) m(2)]
  have ord: "cmp (xs ! up_of i) (xs ! i) \<le> 0" if "i < length xs" "0 < i" "up_of i \<noteq> k" for i
    using h that by (auto simp: heap_below_def in_order_def)
  have below: "cmp (xs ! up_of k) (xs ! i) \<le> 0" if "i < length xs" "0 < i" "up_of i = k" "0 < k" for i
    using h that by (auto simp: heap_below_def skips_def)
  note u = up_of_bound [of _ "length xs"]
  have "in_order cmp ?ys i" if i: "i < length xs" "up_of i \<noteq> m" for i
  proof (cases "i = 0")
    case True
    then show ?thesis by (simp add: in_order_def)
  next
    case False
    consider "up_of i = k" "i = m" | "up_of i = k" "i \<noteq> m" | "up_of i \<noteq> k" "i = k" | "up_of i \<noteq> k" "i \<noteq> k" by blast
    then show ?thesis
    proof cases
      case 1
      then show ?thesis using less k m by (simp add: in_order_def nth)
    next
      case 2
      then show ?thesis using least [of i] False i k up_of_less [of i] by (simp add: in_order_def nth)
    next
      case 3
      then show ?thesis using below [of m] False i k m u [of k] by (simp add: in_order_def nth)
    next
      case 4
      then show ?thesis using ord [of i] False i u [of i] m by (auto simp: in_order_def nth)
    qed
  qed
  moreover have "skips cmp ?ys m"
    unfolding skips_def
  proof (intro allI impI)
    fix i
    assume i: "i < length ?ys" "0 < i \<and> up_of i = m \<and> 0 < m"
    have "cmp (xs ! m) (xs ! i) \<le> 0" using ord [of i] i k by simp
    moreover have "i \<noteq> m" "i \<noteq> k" using i k up_of_less [of i] by auto
    ultimately show "cmp (?ys ! up_of m) (?ys ! i) \<le> 0" using i k m by (simp add: nth)
  qed
  ultimately show ?thesis by (auto simp: heap_below_def)
qed

lemma heap_below_done:
  "heap_below cmp xs k \<Longrightarrow> (\<And>i. i < length xs \<Longrightarrow> 0 < i \<Longrightarrow> up_of i = k \<Longrightarrow> cmp (xs ! k) (xs ! i) \<le> 0) \<Longrightarrow> heap cmp xs"
  by (auto simp: heap_def heap_below_def in_order_def)

lemma heap_least: "heap cmp xs \<Longrightarrow> i < length xs \<Longrightarrow> cmp (xs ! 0) (xs ! i) \<le> 0"
proof (induction i rule: less_induct)
  case (less i)
  show ?case
  proof (cases "i = 0")
    case False
    then have u: "up_of i < i" by simp
    then have "cmp (xs ! 0) (xs ! up_of i) \<le> 0" using less by simp
    moreover have "cmp (xs ! up_of i) (xs ! i) \<le> 0" using less.prems False by (auto simp: heap_def in_order_def)
    ultimately show ?thesis by (rule trans_law)
  qed (simp add: reflexive)
qed

text \<open>The steps of the code on the list the array holds.\<close>

lemma up_step:
  assumes q: "al_rep q xs" and i: "i < length xs"
  shows "\<exists>q'. (if isLeft (int i) then reheapifyLeft cmp (int i) q else reheapifyRight cmp (int i) q) =
      Inr (if i = 0 \<or> \<not> cmp (xs ! i) (xs ! up_of i) < 0 then (- 1, q) else (int (up_of i), q')) \<and>
    al_rep q' (swapped xs i (up_of i))"
proof -
  note u = up_of_bound [OF i]
  obtain q1 where 1: "pq_swap q (int i) (int (up_of i)) = Inr q1" "al_rep q1 (swapped xs i (up_of i))"
    using pq_swap_ok [OF q i u] by blast
  obtain q2 where 2: "pq_swap q (int (up_of i)) (int i) = Inr q2" "al_rep q2 (swapped xs i (up_of i))"
    using pq_swap_ok [OF q u i] swapped_commute [OF i u] by auto
  note g = al_get_ok [OF q i] al_get_ok [OF q u]
  have "isLeft (int i) \<Longrightarrow> 0 < i" by (cases i) (auto simp: isLeft_def)
  then have "reheapifyLeft cmp (int i) q = Inr (if i = 0 \<or> \<not> cmp (xs ! i) (xs ! up_of i) < 0 then (- 1, q) else (int (up_of i), q1))"
    if "isLeft (int i)" using that by (simp add: reheapifyLeft_def parentOf_int g 1(1))
  moreover have "reheapifyRight cmp (int i) q = Inr (if i = 0 \<or> \<not> cmp (xs ! i) (xs ! up_of i) < 0 then (- 1, q) else (int (up_of i), q2))"
    by (cases "i = 0") (simp_all add: reheapifyRight_def parentOf_int g 2(1) swap_law)
  ultimately show ?thesis using 1(2) 2(2) by (cases "isLeft (int i)") (auto intro!: exI [of _ q1] exI [of _ q2])
qed

lemma reheapifyUp_ok:
  "al_rep q xs \<Longrightarrow> i < length xs \<Longrightarrow>
     \<exists>q' ys. reheapifyUp cmp (int i) q = Inr q' \<and> al_rep q' ys \<and> mset ys = mset xs \<and> (heap_above cmp xs i \<longrightarrow> heap cmp ys)"
proof (induction i arbitrary: q xs rule: less_induct)
  case (less i)
  obtain q' where st: "(if isLeft (int i) then reheapifyLeft cmp (int i) q else reheapifyRight cmp (int i) q) =
      Inr (if i = 0 \<or> \<not> cmp (xs ! i) (xs ! up_of i) < 0 then (- 1, q) else (int (up_of i), q'))"
    "al_rep q' (swapped xs i (up_of i))"
    using up_step [OF less.prems(1,2)] by blast
  note r = reheapifyUp.simps [of cmp "int i" q]
  show ?case
  proof (cases "i = 0 \<or> \<not> cmp (xs ! i) (xs ! up_of i) < 0")
    case True
    then have "reheapifyUp cmp (int i) q = Inr q" using st(1) by (simp add: r reheapifyUp.simps [of cmp "- 1"])
    then show ?thesis using less.prems(1) heap_above_done [OF _ True] by blast
  next
    case False
    then have u: "up_of i < i" "up_of i < length xs" using up_of_bound [OF less.prems(2)] by simp_all
    have h: "heap_above cmp xs i \<longrightarrow> heap_above cmp (swapped xs i (up_of i)) (up_of i)"
      using False less.prems heap_above_swap [of xs i] by auto
    obtain q'' ys where "reheapifyUp cmp (int (up_of i)) q' = Inr q''" "al_rep q'' ys"
      "mset ys = mset (swapped xs i (up_of i))" "heap_above cmp (swapped xs i (up_of i)) (up_of i) \<longrightarrow> heap cmp ys"
      using less.IH [OF u(1) st(2)] u(2) by auto
    moreover have "reheapifyUp cmp (int i) q = reheapifyUp cmp (int (up_of i)) q'" using False st(1) by (simp add: r)
    ultimately show ?thesis using mset_swapped [OF less.prems(2) u(2)] h by auto
  qed
qed

lemma pq_add_ok:
  assumes "al_rep (pq_elements q) xs" "length xs \<le> al_max"
  shows "\<exists>q' ys. pq_add cmp v q = Inr q' \<and> al_rep (pq_elements q') ys \<and> mset ys = add_mset v (mset xs) \<and>
    (heap cmp xs \<longrightarrow> heap cmp ys)"
proof -
  obtain a where a: "al_add v (pq_elements q) = Inr a" "al_rep a (xs @ [v])"
    using al_add_ok [OF assms(1,2)] by blast
  have "in_order cmp (xs @ [v]) i" if "heap cmp xs" "i < length xs" for i
    using that up_of_bound [OF that(2)] by (auto simp: heap_def in_order_def nth_append)
  moreover have "up_of i \<noteq> length xs" if "i < Suc (length xs)" "0 < i" for i
    using that up_of_less [of i] by linarith
  ultimately have "heap cmp xs \<longrightarrow> heap_above cmp (xs @ [v]) (length xs)"
    by (auto simp: heap_above_def skips_def)
  then obtain a' ys where "reheapifyUp cmp (int (length xs)) a = Inr a'" "al_rep a' ys" "mset ys = mset (xs @ [v])"
    "heap cmp xs \<longrightarrow> heap cmp ys"
    using reheapifyUp_ok [OF a(2), of "length xs"] by auto
  moreover have "al_size a - 1 = int (length xs)" using al_rep_size [OF a(2)] by simp
  ultimately show ?thesis using a(1) by (auto simp: pq_add_def)
qed

lemma down_step:
  assumes q: "al_rep q xs" and i: "i < length xs" and l: "length xs \<le> al_max"
  shows "(\<forall>j<length xs. 0 < j \<and> up_of j = i \<longrightarrow> cmp (xs ! i) (xs ! j) \<le> 0) \<and> reheapifyParent cmp (int i) q = Inr (- 1, q) \<or>
    (\<exists>m q'. reheapifyParent cmp (int i) q = Inr (int m, q') \<and> al_rep q' (swapped xs i m) \<and> 0 < m \<and> m < length xs \<and> up_of m = i \<and>
      cmp (xs ! m) (xs ! i) \<le> 0 \<and> (\<forall>j<length xs. 0 < j \<and> up_of j = i \<longrightarrow> cmp (xs ! m) (xs ! j) \<le> 0))"
proof -
  have left: "leftChild (int i) = Inr (int (2 * i + 1))" "int32 (int (2 * i + 1) + 1) = Inr (int (2 * i + 2))"
    using i l by (simp_all add: leftChild_def int32_def push_bit_eq_mult al_max_def)
  note sz = al_rep_size [OF q]
  show ?thesis
  proof (cases "2 * i + 1 < length xs")
    case False
    then have "reheapifyParent cmp (int i) q = Inr (- 1, q)"
      using left sz by (simp add: reheapifyParent_def)
    moreover have "up_of j \<noteq> i" if "j < length xs" "0 < j" for j using False that by (auto simp: up_of_children)
    ultimately show ?thesis by blast
  next
    case lt: True
    define m where "m = (if 2 * i + 2 < length xs \<and> cmp (xs ! (2 * i + 1)) (xs ! (2 * i + 2)) > 0 then 2 * i + 2 else 2 * i + 1)"
    have m: "m < length xs" "0 < m" "up_of m = i" using lt by (auto simp: m_def up_of_children)
    have mc: "min_child cmp (int (2 * i + 1)) (int (2 * i + 2)) q = Inr (int m)"
      using lt al_get_ok [OF q, of "2 * i + 1"] al_get_ok [OF q, of "2 * i + 2"]
      by (auto simp: min_child_def m_def sz)
    have least: "cmp (xs ! m) (xs ! j) \<le> 0" if "j < length xs" "0 < j" "up_of j = i" for j
    proof -
      have j: "j = 2 * i + 1 \<or> j = 2 * i + 2" using up_of_children [OF that(2)] that(3) by blast
      note jl = that(1)
      consider "j = m" | "j = 2 * i + 1" "m = 2 * i + 2" "cmp (xs ! j) (xs ! m) > 0" | "j = 2 * i + 2" "m = 2 * i + 1" "cmp (xs ! m) (xs ! j) \<le> 0"
        using jl j by (cases "2 * i + 2 < length xs \<and> cmp (xs ! (2 * i + 1)) (xs ! (2 * i + 2)) > 0") (auto simp: m_def)
      then show ?thesis by cases (simp_all add: reflexive total)
    qed
    note g = al_get_ok [OF q i] al_get_ok [OF q m(1)]
    have st: "reheapifyParent cmp (int i) q =
        (if cmp (xs ! i) (xs ! m) > 0 then rbind (pq_swap q (int i) (int m)) (\<lambda>q'. Inr (int m, q')) else Inr (- 1, q))"
      using lt by (simp only: reheapifyParent_def left rbind.simps sz mc g of_nat_le_iff not_le [symmetric]) simp
    show ?thesis
    proof (cases "cmp (xs ! i) (xs ! m) > 0")
      case True
      obtain q' where "pq_swap q (int i) (int m) = Inr q'" "al_rep q' (swapped xs i m)"
        using pq_swap_ok [OF q i m(1)] by blast
      moreover have "cmp (xs ! m) (xs ! i) \<le> 0" using True total by simp
      ultimately show ?thesis using st True m least by auto
    next
      case False
      have "cmp (xs ! i) (xs ! j) \<le> 0" if "j < length xs" "0 < j" "up_of j = i" for j
        using trans_law [OF _ least [OF that]] False by simp
      then show ?thesis using st False by simp
    qed
  qed
qed

text \<open>The loop always ends with a permutation, and with a heap when only the starting position was out of order.\<close>

lemma reheapifyDown_ok:
  "al_rep q xs \<Longrightarrow> i < length xs \<Longrightarrow> length xs \<le> al_max \<Longrightarrow>
     \<exists>q' ys. reheapifyDown cmp (int i) q = Inr q' \<and> al_rep q' ys \<and> mset ys = mset xs \<and> (heap_below cmp xs i \<longrightarrow> heap cmp ys) \<and>
       (\<forall>j<i. ys ! j = xs ! j) \<and> cmp (ys ! i) (xs ! i) \<le> 0"
proof (induction "length xs - i" arbitrary: i q xs rule: less_induct)
  case less
  note r = reheapifyDown.simps [of cmp "int i" q]
  consider (stop) "\<forall>j<length xs. 0 < j \<and> up_of j = i \<longrightarrow> cmp (xs ! i) (xs ! j) \<le> 0" "reheapifyParent cmp (int i) q = Inr (- 1, q)"
    | (go) m q' where "reheapifyParent cmp (int i) q = Inr (int m, q')" "al_rep q' (swapped xs i m)" "0 < m" "m < length xs"
      "up_of m = i" "cmp (xs ! m) (xs ! i) \<le> 0" "\<forall>j<length xs. 0 < j \<and> up_of j = i \<longrightarrow> cmp (xs ! m) (xs ! j) \<le> 0"
    using down_step [OF less.prems] by blast
  then show ?case
  proof cases
    case stop
    have "reheapifyDown cmp (int i) q = Inr q" using stop(2) by (simp add: r reheapifyDown.simps [of cmp "- 1"])
    moreover have "heap_below cmp xs i \<longrightarrow> heap cmp xs" using heap_below_done [of xs i] stop(1) by simp
    ultimately show ?thesis using less.prems(1) reflexive by blast
  next
    case go
    have im: "i < m" using go(3,5) up_of_less [of m] by simp
    have "\<exists>q'' ys. reheapifyDown cmp (int m) q' = Inr q'' \<and> al_rep q'' ys \<and> mset ys = mset (swapped xs i m) \<and>
        (heap_below cmp (swapped xs i m) m \<longrightarrow> heap cmp ys) \<and> (\<forall>j<m. ys ! j = swapped xs i m ! j) \<and> cmp (ys ! m) (swapped xs i m ! m) \<le> 0"
      by (rule less.hyps [OF _ go(2)]) (use im go(4) less.prems in simp_all)
    then obtain q'' ys where d: "reheapifyDown cmp (int m) q' = Inr q''" "al_rep q'' ys" "mset ys = mset (swapped xs i m)"
      "heap_below cmp (swapped xs i m) m \<longrightarrow> heap cmp ys" "\<forall>j<m. ys ! j = swapped xs i m ! j" by blast
    have "heap_below cmp xs i \<longrightarrow> heap_below cmp (swapped xs i m) m" using heap_below_swap [of xs i m] go(3-7) by simp
    moreover have "reheapifyDown cmp (int i) q = Inr q''" using d(1) by (simp add: r go(1))
    moreover have "mset ys = mset xs" using d(3) mset_swapped [OF less.prems(2) go(4)] by simp
    moreover have "\<forall>j<i. ys ! j = xs ! j" "cmp (ys ! i) (xs ! i) \<le> 0"
      using d(5) im go(4,6) less.prems(2) by (auto simp: nth_swapped)
    ultimately show ?thesis using d(2,4) by blast
  qed
qed

text \<open>
  \<open>removeAt\<close> takes the element out; the order is kept exactly if the last element, which takes the place of the
  removed one, is not smaller than the element above that place.
\<close>

lemma heap_below_hole:
  assumes "heap cmp xs" "i < length xs - 1" "i = 0 \<or> cmp (xs ! up_of i) (last xs) \<le> 0"
  shows "heap_below cmp (take (length xs - 1) (swapped xs i (length xs - 1))) i"
proof -
  let ?n = "length xs - 1"
  have nth: "take ?n (swapped xs i ?n) ! j = (if j = i then last xs else xs ! j)" if "j < ?n" for j
    using assms(2) that nth_swapped [of i xs ?n j] last_conv_nth [of xs] by (cases xs) auto
  have ord: "0 < j \<Longrightarrow> j < length xs \<Longrightarrow> cmp (xs ! up_of j) (xs ! j) \<le> 0" for j
    using assms(1) by (auto simp: heap_def in_order_def)
  have "in_order cmp (take ?n (swapped xs i ?n)) j" if "j < ?n" "up_of j \<noteq> i" for j
  proof (cases "j = 0")
    case False
    then have "cmp (xs ! up_of j) (xs ! j) \<le> 0" using ord [of j] that by simp
    then show ?thesis using that assms(3) False nth [of j] nth [of "up_of j"] up_of_bound [of j ?n] by (auto simp: in_order_def)
  qed (simp add: in_order_def)
  moreover have "skips cmp (take ?n (swapped xs i ?n)) i"
    unfolding skips_def
  proof (intro allI impI)
    fix j
    assume "j < length (take ?n (swapped xs i ?n))" "0 < j \<and> up_of j = i \<and> 0 < i"
    then have j: "j < ?n" "0 < j" "up_of j = i" "0 < i" by simp_all
    then have "up_of i < i" "i < j" using up_of_less [of i] up_of_less [of j] by simp_all
    moreover have "cmp (xs ! up_of i) (xs ! j) \<le> 0" using trans_law [OF ord [of i]] ord [of j] j assms(2) by simp
    ultimately show "cmp (take ?n (swapped xs i ?n) ! up_of i) (take ?n (swapped xs i ?n) ! j) \<le> 0"
      using j assms(2) nth [of j] nth [of "up_of i"] up_of_bound [OF assms(2)] less_imp_neq [OF up_of_less [of i]] by simp
  qed
  ultimately show ?thesis by (auto simp: heap_below_def)
qed

lemma pq_removeAt_ok:
  assumes "al_rep (pq_elements q) xs" "length xs \<le> al_max" "i < length xs"
  shows "\<exists>q' ys. pq_removeAt cmp (int i) q = Inr (xs ! i, q') \<and> al_rep (pq_elements q') ys \<and>
    mset xs = add_mset (xs ! i) (mset ys) \<and>
    (heap cmp xs \<longrightarrow> (heap cmp ys \<longleftrightarrow> i = 0 \<or> cmp (xs ! up_of i) (last xs) \<le> 0))"
proof (cases "i < length xs - 1")
  case True
  let ?n = "length xs - 1"
  have n: "?n < length xs" "int (length xs) - 1 = int ?n" using assms(3) by linarith+
  obtain a where a: "pq_swap (pq_elements q) (int i) (int ?n) = Inr a" "al_rep a (swapped xs i ?n)"
    using pq_swap_ok [OF assms(1,3) n(1)] by blast
  let ?ys = "take ?n (swapped xs i ?n)"
  obtain a' e where a': "al_remove (int ?n) a = Inr (e, a')" "al_rep a' ?ys"
    using al_remove_ok [OF a(2), of ?n] assms(2) n(1) by auto
  have "length ?ys \<le> al_max" "i < length ?ys" using assms(2) True by simp_all
  then obtain a'' zs where d: "reheapifyDown cmp (int i) a' = Inr a''" "al_rep a'' zs" "mset zs = mset ?ys"
    "heap_below cmp ?ys i \<longrightarrow> heap cmp zs" "\<forall>j<i. zs ! j = ?ys ! j" "cmp (zs ! i) (?ys ! i) \<le> 0"
    using reheapifyDown_ok [OF a'(2), of i] by blast
  have e: "swapped xs i ?n ! ?n = xs ! i" using nth_swapped [OF assms(3) n(1) n(1)] True by simp
  have t: "take (Suc ?n) (swapped xs i ?n) = ?ys @ [swapped xs i ?n ! ?n]"
    using n(1) by (intro take_Suc_conv_app_nth) simp
  have "mset xs = mset (take (Suc ?n) (swapped xs i ?n))" using mset_swapped [OF assms(3) n(1)] by simp
  also have "\<dots> = add_mset (xs ! i) (mset zs)" unfolding t e by (simp add: d(3))
  finally have ms: "mset xs = add_mset (xs ! i) (mset zs)" .
  have sz: "al_size (pq_elements q) - 1 = int ?n" "al_size a - 1 = int ?n" "al_size (pq_elements q) - int i > 1"
    using al_rep_size [OF assms(1)] al_rep_size [OF a(2)] True by simp_all
  have "pq_removeAt cmp (int i) q = Inr (xs ! i, q\<lparr>pq_elements := a''\<rparr>)"
    by (simp only: pq_removeAt_def al_get_ok [OF assms(1,3)] rbind.simps sz if_True a(1) a'(1) d(1) prod.case)
  moreover have "heap cmp xs \<longrightarrow> (heap cmp zs \<longleftrightarrow> i = 0 \<or> cmp (xs ! up_of i) (last xs) \<le> 0)"
  proof -
    have "cmp (xs ! up_of i) (last xs) \<le> 0" if h: "heap cmp zs" and i: "0 < i"
    proof -
      have "length zs = ?n" using mset_eq_length [OF d(3)] by simp
      then have "cmp (zs ! up_of i) (zs ! i) \<le> 0" using h i True by (auto simp: heap_def in_order_def)
      moreover have "zs ! up_of i = xs ! up_of i" using d(5) i True nth_swapped [OF assms(3) n(1), of "up_of i"] up_of_less [OF i] by simp
      moreover have "?ys ! i = last xs" using True nth_swapped [OF assms(3) n(1) assms(3)] last_conv_nth [of xs] by (cases xs) auto
      ultimately show ?thesis using trans_law d(6) by metis
    qed
    then show ?thesis using d(4) heap_below_hole [OF _ True] by blast
  qed
  ultimately show ?thesis using d(2) ms by (intro exI [of _ "q\<lparr>pq_elements := a''\<rparr>"] exI [of _ zs]) simp
next
  case False
  then have i: "i = length xs - 1" using assms(3) by simp
  obtain a' where a': "al_remove (int i) (pq_elements q) = Inr (xs ! i, a')" "al_rep a' (take i xs)"
    using al_remove_ok [OF assms] False by auto
  have sz: "al_size (pq_elements q) - 1 = int i" "\<not> al_size (pq_elements q) - int i > 1"
    using al_rep_size [OF assms(1)] i assms(3) by linarith+
  have "pq_removeAt cmp (int i) q = Inr (xs ! i, q\<lparr>pq_elements := a'\<rparr>)"
    by (simp only: pq_removeAt_def al_get_ok [OF assms(1,3)] rbind.simps sz if_False a'(1) prod.case)
  moreover have "mset (take (Suc i) xs) = add_mset (xs ! i) (mset (take i xs))"
    unfolding take_Suc_conv_app_nth [OF assms(3)] by simp
  moreover have "take (Suc i) xs = xs" using i by simp
  moreover have "heap cmp xs \<longrightarrow> heap cmp (take i xs)"
    using assms(3) by (auto simp: heap_def in_order_def up_of_bound)
  moreover have "heap cmp xs \<longrightarrow> i = 0 \<or> cmp (xs ! up_of i) (last xs) \<le> 0"
    using i assms(3) last_conv_nth [of xs] by (cases xs) (auto simp: heap_def in_order_def)
  ultimately show ?thesis using a'(2) by (intro exI [of _ "q\<lparr>pq_elements := a'\<rparr>"] exI [of _ "take i xs"]) simp
qed

end

subsection \<open>The contract of a priority queue\<close>

text \<open>What a client of a priority queue relies on, and the order the elements come out in.\<close>

fun put_all :: "('e \<Rightarrow> 'q \<Rightarrow> 'q result) \<Rightarrow> 'e list \<Rightarrow> 'q \<Rightarrow> 'q result" where
  "put_all ins [] q = Inr q"
| "put_all ins (x # xs) q = rbind (ins x q) (put_all ins xs)"

fun pop_all :: "('q \<Rightarrow> ('e \<times> 'q) result) \<Rightarrow> nat \<Rightarrow> 'q \<Rightarrow> ('e list \<times> 'q) result" where
  "pop_all rem 0 q = Inr ([], q)"
| "pop_all rem (Suc n) q = rbind (rem q) (\<lambda>(x, q'). rbind (pop_all rem n q') (\<lambda>(xs, q''). Inr (x # xs, q'')))"

locale min_queue = comparator cmp for cmp :: "'e \<Rightarrow> 'e \<Rightarrow> int" +
  fixes ins :: "'e \<Rightarrow> 'q \<Rightarrow> 'q result"
    and rem :: "'q \<Rightarrow> ('e \<times> 'q) result"
    and inv :: "'q \<Rightarrow> bool"
    and elems :: "'q \<Rightarrow> 'e multiset"
    and limit :: nat
  assumes ins_law: "inv q \<Longrightarrow> size (elems q) \<le> limit \<Longrightarrow> \<exists>q'. ins v q = Inr q' \<and> inv q' \<and> elems q' = add_mset v (elems q)"
    and rem_law: "inv q \<Longrightarrow> size (elems q) \<le> limit \<Longrightarrow> elems q \<noteq> {#} \<Longrightarrow>
      \<exists>v q'. rem q = Inr (v, q') \<and> inv q' \<and> elems q = add_mset v (elems q') \<and> (\<forall>x\<in>#elems q'. cmp v x \<le> 0)"
begin

lemma put_all_ok: "inv q \<Longrightarrow> size (elems q) + length xs \<le> Suc limit \<Longrightarrow>
    \<exists>q'. put_all ins xs q = Inr q' \<and> inv q' \<and> elems q' = mset xs + elems q"
proof (induction xs arbitrary: q)
  case (Cons x xs)
  obtain q1 where "ins x q = Inr q1" "inv q1" "elems q1 = add_mset x (elems q)"
    using ins_law [of q x] Cons.prems by auto
  with Cons.IH [of q1] Cons.prems(2) show ?case by auto
qed simp

lemma pop_all_ok: "inv q \<Longrightarrow> size (elems q) = n \<Longrightarrow> n \<le> limit \<Longrightarrow>
    \<exists>xs q'. pop_all rem n q = Inr (xs, q') \<and> inv q' \<and> elems q' = {#} \<and> mset xs = elems q \<and> sorted_wrt (\<lambda>x y. cmp x y \<le> 0) xs"
proof (induction n arbitrary: q)
  case (Suc n)
  have "elems q \<noteq> {#}" using Suc.prems(2) by auto
  then obtain v q1 where v: "rem q = Inr (v, q1)" "inv q1" "elems q = add_mset v (elems q1)" "\<forall>x\<in>#elems q1. cmp v x \<le> 0"
    using rem_law [of q] Suc.prems by auto
  then obtain xs q' where x: "pop_all rem n q1 = Inr (xs, q')" "inv q'" "elems q' = {#}" "mset xs = elems q1"
    "sorted_wrt (\<lambda>x y. cmp x y \<le> 0) xs"
    using Suc.IH [of q1] Suc.prems by auto
  have "\<forall>y\<in>set xs. cmp v y \<le> 0" using v(4) x(4) by (metis set_mset_mset)
  with v x show ?case by (intro exI [of _ "v # xs"] exI [of _ q']) simp
qed simp

end

definition pq_list :: "'e pqueue \<Rightarrow> 'e list" where
  "pq_list q = al_list (pq_elements q)"

definition pq_shape :: "'e pqueue \<Rightarrow> bool" where
  "pq_shape q \<longleftrightarrow> al_rep (pq_elements q) (pq_list q)"

definition pq_inv :: "'e cmp \<Rightarrow> 'e pqueue \<Rightarrow> bool" where
  "pq_inv cmp q \<longleftrightarrow> pq_shape q \<and> heap cmp (pq_list q)"

lemma pq_shape_eq: "al_rep (pq_elements q) xs \<Longrightarrow> pq_shape q \<and> pq_list q = xs"
  by (simp add: pq_shape_def pq_list_def al_rep_list)

lemma pq_new_inv: "3 \<le> cap \<Longrightarrow> pq_inv cmp (pq_new cap del) \<and> pq_list (pq_new cap del :: 'e pqueue) = []"
  for cmp :: "'e cmp"
  using pq_shape_eq [of "pq_new cap del :: 'e pqueue" "[]"] al_new_rep [of cap del] by (auto simp: pq_new_def pq_inv_def heap_def)

text \<open>The queue satisfies the contract for every comparator.\<close>

context comparator
begin

lemma pq_add_shape:
  assumes "pq_shape q" "length (pq_list q) \<le> al_max"
  shows "\<exists>q'. pq_add cmp v q = Inr q' \<and> pq_shape q' \<and> mset (pq_list q') = add_mset v (mset (pq_list q)) \<and>
    (heap cmp (pq_list q) \<longrightarrow> heap cmp (pq_list q'))"
proof -
  obtain q' ys where "pq_add cmp v q = Inr q'" "al_rep (pq_elements q') ys" "mset ys = add_mset v (mset (pq_list q))"
    "heap cmp (pq_list q) \<longrightarrow> heap cmp ys"
    using pq_add_ok [of q "pq_list q" v] assms by (auto simp: pq_shape_def)
  then show ?thesis using pq_shape_eq [of q' ys] by auto
qed

lemma pq_add_inv:
  assumes "pq_inv cmp q" "length (pq_list q) \<le> al_max"
  shows "\<exists>q'. pq_add cmp v q = Inr q' \<and> pq_inv cmp q' \<and> mset (pq_list q') = add_mset v (mset (pq_list q))"
  using pq_add_shape [of q v] assms by (auto simp: pq_inv_def)

lemma pq_remove_inv:
  assumes "pq_inv cmp q" "length (pq_list q) \<le> al_max" "pq_list q \<noteq> []"
  shows "\<exists>v q'. pq_remove cmp q = Inr (v, q') \<and> pq_inv cmp q' \<and> mset (pq_list q) = add_mset v (mset (pq_list q')) \<and>
    (\<forall>x\<in>#mset (pq_list q'). cmp v x \<le> 0)"
proof -
  have h: "al_rep (pq_elements q) (pq_list q)" "heap cmp (pq_list q)" "0 < length (pq_list q)"
    using assms by (auto simp: pq_inv_def pq_shape_def)
  obtain q' ys where r: "pq_removeAt cmp 0 q = Inr (pq_list q ! 0, q')" "al_rep (pq_elements q') ys"
    "mset (pq_list q) = add_mset (pq_list q ! 0) (mset ys)" "heap cmp ys"
    using pq_removeAt_ok [OF h(1) assms(2) h(3)] h(2) by auto
  have "cmp (pq_list q ! 0) x \<le> 0" if "x \<in> set ys" for x
  proof -
    have "x \<in> set (pq_list q)" using that r(3) by (metis set_mset_add_mset_insert set_mset_mset insertI2)
    then show ?thesis using heap_least [OF h(2)] by (auto simp: in_set_conv_nth)
  qed
  with r show ?thesis using pq_shape_eq [of q' ys] by (auto simp: pq_remove_def pq_inv_def)
qed

text \<open>Removing an element that is named: it goes, the rest stays; when the order is kept.\<close>

lemma pq_removeElement_at:
  assumes "pq_shape q" "length (pq_list q) \<le> al_max" "position_of e (pq_list q) = Some i"
  shows "\<exists>q'. pq_removeElement cmp e q = Inr (True, Some e, q') \<and> pq_shape q' \<and> mset (pq_list q) = add_mset e (mset (pq_list q')) \<and>
    (heap cmp (pq_list q) \<longrightarrow> (heap cmp (pq_list q') \<longleftrightarrow> i = 0 \<or> cmp (pq_list q ! up_of i) (last (pq_list q)) \<le> 0))"
proof -
  note i = position_of_SomeD [OF assms(3)]
  have rep: "al_rep (pq_elements q) (pq_list q)" using assms(1) by (simp add: pq_shape_def)
  obtain q' ys where r: "pq_removeAt cmp (int i) q = Inr (e, q')" "al_rep (pq_elements q') ys" "mset (pq_list q) = add_mset e (mset ys)"
    "heap cmp (pq_list q) \<longrightarrow> (heap cmp ys \<longleftrightarrow> i = 0 \<or> cmp (pq_list q ! up_of i) (last (pq_list q)) \<le> 0)"
    using pq_removeAt_ok [OF rep assms(2), of i] i by auto
  have "al_indexOf e (pq_elements q) = Inr (int i)" using al_indexOf_ok [OF rep, of e] assms(3) by simp
  then show ?thesis using r pq_shape_eq [OF r(2)] by (simp add: pq_removeElement_def pq_indexOf_def)
qed

lemma pq_removeElement_shape:
  assumes "pq_shape q" "length (pq_list q) \<le> al_max"
  shows "\<exists>q'. pq_removeElement cmp e q = Inr (e \<in> set (pq_list q), if e \<in> set (pq_list q) then Some e else None, q') \<and> pq_shape q' \<and>
    mset (pq_list q') = mset (pq_list q) - {#e#}"
proof (cases "position_of e (pq_list q)")
  case None
  then have "e \<notin> set (pq_list q)" by (simp add: position_of_None)
  moreover have "al_indexOf e (pq_elements q) = Inr (- 1)"
    using al_indexOf_ok [of "pq_elements q" "pq_list q" e] assms(1) None by (simp add: pq_shape_def)
  ultimately show ?thesis using assms(1) by (simp add: pq_removeElement_def pq_indexOf_def diff_single_trivial)
next
  case (Some i)
  have "e \<in> set (pq_list q)" using position_of_SomeD [OF Some] nth_mem by blast
  with pq_removeElement_at [OF assms Some] show ?thesis by auto
qed

end

sublocale comparator \<subseteq> pq: min_queue cmp "pq_add cmp" "pq_remove cmp" "pq_inv cmp" "\<lambda>q. mset (pq_list q)" al_max
  using pq_add_inv pq_remove_inv by unfold_locales simp_all

interpretation natural: comparator "compare :: 'k::linorder cmp"
  by unfold_locales (auto simp: compare_def split: if_splits)

text \<open>With the comparator of the integer types a queue sorts.\<close>

lemma put_all_add_each: "pq_add_each cmp xs q = put_all (pq_add cmp) xs q"
  by (induction xs arbitrary: q) (auto intro: arg_cong2 [where f = rbind])

lemma pq_sorts:
  fixes xs :: "'k::linorder list"
  assumes "length xs \<le> al_max"
  shows "\<exists>q'. rbind (pq_addAll compare xs (pq_new PQ_INITIAL_CAPACITY del)) (\<lambda>(res, q). pop_all (pq_remove compare) (length xs) q) = Inr (sort xs, q')"
proof -
  have n: "pq_inv compare (pq_new PQ_INITIAL_CAPACITY del :: 'k pqueue)" "pq_list (pq_new PQ_INITIAL_CAPACITY del :: 'k pqueue) = []"
    using pq_new_inv [of PQ_INITIAL_CAPACITY "compare :: 'k cmp" del] by (auto simp: PQ_INITIAL_CAPACITY_def)
  obtain q where q: "put_all (pq_add compare) xs (pq_new PQ_INITIAL_CAPACITY del) = Inr q" "pq_inv compare q" "mset (pq_list q) = mset xs"
    using natural.pq.put_all_ok [OF n(1), of xs] n(2) assms by auto
  obtain ys q' where t: "pop_all (pq_remove compare) (length xs) q = Inr (ys, q')" "mset ys = mset xs"
    "sorted_wrt (\<lambda>x y. compare x y \<le> 0) ys"
    using natural.pq.pop_all_ok [OF q(2), of "length xs"] q(3) assms by auto
  have "sorted ys" by (rule sorted_wrt_mono_rel [OF _ t(3)]) (auto simp: compare_def split: if_splits)
  then have "ys = sort xs" using t(2) by (metis properties_for_sort)
  with q(1) t(1) show ?thesis by (simp add: pq_addAll_def put_all_add_each)
qed

end
