(* ===== verification/QueueSet.thy ===== *)
theory QueueSet
  imports PriorityQueue HashSet
begin

section \<open>The queue set\<close>

text \<open>
  The class \<open>QueueSet\<close> of \<^verbatim>\<open>src/PLATFORM/src/main/native/cxx/util/QueueSet.h\<close> with the arguments it has in
  \<^verbatim>\<open>RealTimeMap.h\<close> (\<open>OrderedSegmentList\<close>): a priority queue, a hash set, and the default \<open>queueRemove\<close>.
  The lock is not modelled: each operation is one sequential step. An element is a value of
  the type of slots, since two of its values are the marks of the hash set.
\<close>

record 'e queueset =
  qs_queue :: "'e slot pqueue"
  qs_set :: "'e hashset"

definition queueRemove :: "'e cmp \<Rightarrow> 'e pqueue \<Rightarrow> 'e \<Rightarrow> 'e pqueue result" where
  "queueRemove cmp q e = rbind (pq_removeElement cmp e q) (\<lambda>(_, _, q'). Inr q')"

subsection \<open>Operations\<close>

definition qs_get :: "int \<Rightarrow> 'e queueset \<Rightarrow> 'e slot result" where
  "qs_get i qs = pq_get i (qs_queue qs)"

text \<open>\<open>set\<close> needs a queue that can be resized; a priority queue refuses every step of it.\<close>

definition pq_resize :: "int \<Rightarrow> 'e pqueue \<Rightarrow> 'e pqueue result" where
  "pq_resize capacity q = Inl (Thrown ''Unsupported operation: resize(int)'')"

definition pq_setSize :: "int \<Rightarrow> 'e pqueue \<Rightarrow> 'e pqueue result" where
  "pq_setSize nsize q = Inl (Thrown ''Unsupported operation: size(int)'')"

definition pq_set :: "int \<Rightarrow> 'e \<Rightarrow> 'e pqueue \<Rightarrow> 'e pqueue result" where
  "pq_set index element q = Inl (Thrown ''Unsupported operation: set(int, E)'')"

fun clear_slots :: "int \<Rightarrow> nat \<Rightarrow> 'e slot pqueue \<Rightarrow> 'e slot pqueue result" where
  "clear_slots j 0 q = Inr q"
| "clear_slots j (Suc n) q = rbind (pq_set j Null q) (clear_slots (j + 1) n)"

definition qs_setAt :: "('e slot \<Rightarrow> int) \<Rightarrow> int \<Rightarrow> int \<Rightarrow> 'e slot \<Rightarrow> 'e queueset \<Rightarrow> 'e queueset result" where
  "qs_setAt hash bytes i e qs =
     rbind (hs_contains hash bytes e (qs_set qs)) (\<lambda>(found, _).
       if found then Inr qs
       else
         rbind (if i \<ge> al_capacity (pq_elements (qs_queue qs)) then pq_resize ((i + 1) * 2) (qs_queue qs) else Inr (qs_queue qs)) (\<lambda>q1.
         rbind (if i \<ge> pq_size q1
                then let oldsize = pq_size q1 in rbind (pq_setSize (i + 1) q1) (clear_slots oldsize (nat (i - oldsize)))
                else Inr q1) (\<lambda>q2.
         rbind (hs_add hash bytes e (qs_set qs)) (\<lambda>(_, _, s).
         rbind (pq_set i e q2) (\<lambda>q3. Inr \<lparr>qs_queue = q3, qs_set = s\<rparr>)))))"

definition qs_size :: "'e queueset \<Rightarrow> int" where
  "qs_size qs = hs_size (qs_set qs)"

definition qs_isEmpty :: "'e queueset \<Rightarrow> bool" where
  "qs_isEmpty qs = hs_isEmpty (qs_set qs)"

definition qs_contains :: "('e slot \<Rightarrow> int) \<Rightarrow> int \<Rightarrow> 'e slot \<Rightarrow> 'e queueset \<Rightarrow> bool result" where
  "qs_contains hash bytes e qs = rbind (hs_contains hash bytes e (qs_set qs)) (\<lambda>(found, _). Inr found)"

definition qs_add :: "'e slot cmp \<Rightarrow> ('e slot \<Rightarrow> int) \<Rightarrow> int \<Rightarrow> 'e slot \<Rightarrow> 'e queueset \<Rightarrow> (bool \<times> 'e queueset) result" where
  "qs_add cmp hash bytes e qs =
     rbind (hs_contains hash bytes e (qs_set qs)) (\<lambda>(found, _).
       if found then Inr (False, qs)
       else
         rbind (hs_add hash bytes e (qs_set qs)) (\<lambda>(_, _, s).
         rbind (pq_add cmp e (qs_queue qs)) (\<lambda>q. Inr (True, \<lparr>qs_queue = q, qs_set = s\<rparr>))))"

definition qs_remove :: "'e slot cmp \<Rightarrow> ('e slot \<Rightarrow> int) \<Rightarrow> int \<Rightarrow> 'e slot \<Rightarrow> 'e queueset \<Rightarrow> (bool \<times> 'e queueset) result" where
  "qs_remove cmp hash bytes e qs =
     rbind (hs_contains hash bytes e (qs_set qs)) (\<lambda>(found, _).
       if \<not> found then Inr (False, qs)
       else
         rbind (hs_remove hash bytes e (qs_set qs)) (\<lambda>(_, _, s).
         rbind (queueRemove cmp (qs_queue qs) e) (\<lambda>q. Inr (True, \<lparr>qs_queue = q, qs_set = s\<rparr>))))"

definition qs_clear :: "'e queueset \<Rightarrow> 'e queueset result" where
  "qs_clear qs = rbind (pq_clear (qs_queue qs)) (\<lambda>q. Inr \<lparr>qs_queue = q, qs_set = hs_clear (qs_set qs)\<rparr>)"

subsection \<open>Iterators\<close>

datatype qs_inner = OverQueue int | OverSet hash_iter

record 'e qs_iter =
  qi_iter :: qs_inner
  qi_last :: "'e slot"
  qi_canRemove :: bool

definition qsIter_new :: "bool \<Rightarrow> 'e queueset \<Rightarrow> 'e qs_iter result" where
  "qsIter_new useQueue qs =
     rbind (if useQueue then Inr (OverQueue 0) else rbind (setIter_new (qs_set qs)) (\<lambda>it. Inr (OverSet it))) (\<lambda>inner.
       Inr \<lparr>qi_iter = inner, qi_last = Null, qi_canRemove = False\<rparr>)"

definition qsIter_hasNext :: "'e queueset \<Rightarrow> 'e qs_iter \<Rightarrow> bool" where
  "qsIter_hasNext qs it =
     (case qi_iter it of
        OverQueue cursor \<Rightarrow> alIter_hasNext (pq_elements (qs_queue qs)) cursor
      | OverSet hi \<Rightarrow> hi_hasNext (qs_set qs) hi)"

definition qsIter_next :: "'e queueset \<Rightarrow> 'e qs_iter \<Rightarrow> ('e slot option \<times> 'e qs_iter) result" where
  "qsIter_next qs it =
     (case qi_iter it of
        OverQueue cursor \<Rightarrow>
          rbind (alIter_next (pq_elements (qs_queue qs)) cursor) (\<lambda>(e, cursor').
            Inr (e, \<lparr>qi_iter = OverQueue cursor', qi_last = the e, qi_canRemove = True\<rparr>))
      | OverSet hi \<Rightarrow>
          rbind (setIter_next (qs_set qs) hi) (\<lambda>(e, hi').
            Inr (Some e, \<lparr>qi_iter = OverSet hi', qi_last = e, qi_canRemove = True\<rparr>)))"

definition qsIter_remove :: "'e slot cmp \<Rightarrow> ('e slot \<Rightarrow> int) \<Rightarrow> int \<Rightarrow> 'e queueset \<Rightarrow> 'e qs_iter \<Rightarrow> ('e queueset \<times> 'e qs_iter) result" where
  "qsIter_remove cmp hash bytes qs it =
     (if \<not> qi_canRemove it then Inl (Thrown ''Unable to remove element'')
      else case qi_iter it of
        OverQueue cursor \<Rightarrow>
          rbind (alIter_remove (pq_elements (qs_queue qs)) cursor) (\<lambda>(a, cursor').
          rbind (hs_remove hash bytes (qi_last it) (qs_set qs)) (\<lambda>(_, _, s).
            Inr (\<lparr>qs_queue = (qs_queue qs)\<lparr>pq_elements := a\<rparr>, qs_set = s\<rparr>, it\<lparr>qi_iter := OverQueue cursor', qi_canRemove := False\<rparr>)))
      | OverSet hi \<Rightarrow>
          rbind (setIter_remove hash bytes (qs_set qs) hi) (\<lambda>(s, hi').
          rbind (queueRemove cmp (qs_queue qs) (qi_last it)) (\<lambda>q.
            Inr (\<lparr>qs_queue = q, qs_set = s\<rparr>, it\<lparr>qi_iter := OverSet hi', qi_canRemove := False\<rparr>))))"

subsection \<open>Consistency of the two containers\<close>

definition qs_elems :: "'e queueset \<Rightarrow> 'e set" where
  "qs_elems qs = ht_elems (qs_set qs)"

definition qs_limit :: nat where
  "qs_limit = 2 ^ 26"

definition qs_inv :: "('e slot \<Rightarrow> int) \<Rightarrow> int \<Rightarrow> 'e queueset \<Rightarrow> bool" where
  "qs_inv hash bytes qs \<longleftrightarrow>
     elem_size bytes \<and> hs_inv hash bytes (qs_set qs) \<and> pq_shape (qs_queue qs) \<and>
     mset (pq_list (qs_queue qs)) = image_mset Entry (mset_set (qs_elems qs))"

lemma finite_qs_elems [simp]: "finite (qs_elems qs)"
  by (metis List.finite_set qs_elems_def ht_elems_entries)

lemma pq_list_qs: "qs_inv hash bytes qs \<Longrightarrow> set (pq_list (qs_queue qs)) = Entry ` qs_elems qs"
  unfolding qs_inv_def by (metis finite_qs_elems finite_set_mset_mset_set set_image_mset set_mset_mset)

lemma pq_length_qs: "qs_inv hash bytes qs \<Longrightarrow> length (pq_list (qs_queue qs)) = card (qs_elems qs)"
  unfolding qs_inv_def by (metis size_image_mset size_mset size_mset_set)

lemma qs_size_ok: "qs_inv hash bytes qs \<Longrightarrow> qs_size qs = int (card (qs_elems qs)) \<and> qs_size qs = pq_size (qs_queue qs)"
  using pq_length_qs [of hash bytes qs] hs_size_ok [of hash bytes "qs_set qs"]
  by (auto simp: qs_inv_def qs_size_def qs_elems_def pq_size_def pq_shape_def al_rep_size)

lemma qs_contains_ok: "qs_inv hash bytes qs \<Longrightarrow> qs_contains hash bytes (Entry x) qs = Inr (x \<in> qs_elems qs)"
  using hs_contains_ok [of hash bytes "qs_set qs" x] by (auto simp: qs_inv_def qs_contains_def qs_elems_def)

lemma qs_clear_ok: "qs_inv hash bytes qs \<Longrightarrow> \<exists>qs'. qs_clear qs = Inr qs' \<and> qs_inv hash bytes qs' \<and> qs_elems qs' = {}"
proof -
  assume "qs_inv hash bytes qs"
  then have i: "elem_size bytes" "hs_inv hash bytes (qs_set qs)" "pq_shape (qs_queue qs)" by (simp_all add: qs_inv_def)
  let ?a = "pq_elements (qs_queue qs)\<lparr>al_size := 0\<rparr>"
  let ?q = "(qs_queue qs)\<lparr>pq_elements := ?a\<rparr>"
  have c: "al_clear (pq_elements (qs_queue qs)) = Inr ?a" "al_rep ?a []" using al_clear_ok i(3) by (auto simp: pq_shape_def)
  then have "pq_shape ?q \<and> pq_list ?q = []" using pq_shape_eq [of ?q "[]"] by simp
  with c(1) i(1) hs_clear_ok [OF i(2)] show ?thesis by (simp add: qs_clear_def pq_clear_def qs_inv_def qs_elems_def)
qed

locale slot_comparator = comparator cmp for cmp :: "'e slot \<Rightarrow> 'e slot \<Rightarrow> int"
begin

lemma qs_add_ok:
  assumes "qs_inv hash bytes qs" "card (qs_elems qs) < qs_limit"
  shows "\<exists>qs'. qs_add cmp hash bytes (Entry x) qs = Inr (x \<notin> qs_elems qs, qs') \<and> qs_inv hash bytes qs' \<and> qs_elems qs' = insert x (qs_elems qs) \<and>
    (heap cmp (pq_list (qs_queue qs)) \<longrightarrow> heap cmp (pq_list (qs_queue qs')))"
proof -
  have i: "elem_size bytes" "hs_inv hash bytes (qs_set qs)" "pq_shape (qs_queue qs)"
    "mset (pq_list (qs_queue qs)) = image_mset Entry (mset_set (qs_elems qs))"
    using assms(1) by (simp_all add: qs_inv_def)
  obtain old where c: "hs_contains hash bytes (Entry x) (qs_set qs) = Inr (x \<in> qs_elems qs, old)"
    using hs_contains_ok [OF i(2)] by (auto simp: qs_elems_def)
  show ?thesis
  proof (cases "x \<in> qs_elems qs")
    case True
    then show ?thesis using assms(1) c by (simp add: qs_add_def insert_absorb)
  next
    case False
    obtain b o2 s where s: "hs_add hash bytes (Entry x) (qs_set qs) = Inr (b, o2, s)" "hs_inv hash bytes s" "ht_elems s = insert x (qs_elems qs)"
      using hs_add_ok [OF i(1,2), of x] assms(2) by (auto simp: qs_elems_def qs_limit_def)
    have "length (pq_list (qs_queue qs)) \<le> al_max" using pq_length_qs [OF assms(1)] assms(2) by (simp add: qs_limit_def al_max_def)
    then obtain q where q: "pq_add cmp (Entry x) (qs_queue qs) = Inr q" "pq_shape q"
      "mset (pq_list q) = add_mset (Entry x) (mset (pq_list (qs_queue qs)))"
      "heap cmp (pq_list (qs_queue qs)) \<longrightarrow> heap cmp (pq_list q)"
      using pq_add_shape [OF i(3)] by blast
    let ?qs = "\<lparr>qs_queue = q, qs_set = s\<rparr>"
    have "qs_elems ?qs = insert x (qs_elems qs)" using s(3) by (simp add: qs_elems_def)
    moreover have "qs_inv hash bytes ?qs" using i(1) s(2) q(2,3) i(4) calculation False by (simp add: qs_inv_def)
    ultimately show ?thesis using False c s(1) q(1,4) by (simp add: qs_add_def)
  qed
qed

lemma qs_remove_ok:
  assumes "qs_inv hash bytes qs" "card (qs_elems qs) < qs_limit"
  shows "\<exists>qs'. qs_remove cmp hash bytes (Entry x) qs = Inr (x \<in> qs_elems qs, qs') \<and> qs_inv hash bytes qs' \<and> qs_elems qs' = qs_elems qs - {x}"
proof -
  have i: "elem_size bytes" "hs_inv hash bytes (qs_set qs)" "pq_shape (qs_queue qs)"
    "mset (pq_list (qs_queue qs)) = image_mset Entry (mset_set (qs_elems qs))"
    using assms(1) by (simp_all add: qs_inv_def)
  obtain old where c: "hs_contains hash bytes (Entry x) (qs_set qs) = Inr (x \<in> qs_elems qs, old)"
    using hs_contains_ok [OF i(2)] by (auto simp: qs_elems_def)
  show ?thesis
  proof (cases "x \<in> qs_elems qs")
    case False
    then show ?thesis using assms(1) c by (simp add: qs_remove_def)
  next
    case True
    obtain b o2 s where s: "hs_remove hash bytes (Entry x) (qs_set qs) = Inr (b, o2, s)" "hs_inv hash bytes s" "ht_elems s = qs_elems qs - {x}"
      using hs_remove_ok [OF i(1,2), of x] assms(2) by (auto simp: qs_elems_def qs_limit_def)
    have "length (pq_list (qs_queue qs)) \<le> al_max" using pq_length_qs [OF assms(1)] assms(2) by (simp add: qs_limit_def al_max_def)
    then obtain b2 o3 q where q: "pq_removeElement cmp (Entry x) (qs_queue qs) = Inr (b2, o3, q)" "pq_shape q"
      "mset (pq_list q) = mset (pq_list (qs_queue qs)) - {#Entry x#}"
      using pq_removeElement_shape [OF i(3)] by blast
    let ?qs = "\<lparr>qs_queue = q, qs_set = s\<rparr>"
    have e: "qs_elems ?qs = qs_elems qs - {x}" using s(3) by (simp add: qs_elems_def)
    have "mset_set (qs_elems qs) = add_mset x (mset_set (qs_elems qs - {x}))" using True by (simp add: mset_set.remove)
    then have "qs_inv hash bytes ?qs" using i(1) s(2) q(2,3) i(4) by (simp add: qs_inv_def e)
    then show ?thesis using True c s(1) q(1) e by (simp add: qs_remove_def queueRemove_def)
  qed
qed

end

sublocale slot_comparator \<subseteq> qset: set_store "\<lambda>x. qs_add cmp hash bytes (Entry x)"
  "\<lambda>x. qs_remove cmp hash bytes (Entry x)" "\<lambda>x. qs_contains hash bytes (Entry x)" "qs_inv hash bytes" qs_elems qs_limit
  for hash bytes
proof
  fix s :: "'e queueset" and x
  assume inv: "qs_inv hash bytes s"
  show "finite (qs_elems s)" by simp
  show "qs_contains hash bytes (Entry x) s = Inr (x \<in> qs_elems s)" by (rule qs_contains_ok [OF inv])
  assume few: "card (qs_elems s) < qs_limit"
  show "\<exists>s'. qs_add cmp hash bytes (Entry x) s = Inr (x \<notin> qs_elems s, s') \<and> qs_inv hash bytes s' \<and> qs_elems s' = insert x (qs_elems s)"
    using qs_add_ok [OF inv few] by blast
  show "\<exists>s'. qs_remove cmp hash bytes (Entry x) s = Inr (x \<in> qs_elems s, s') \<and> qs_inv hash bytes s' \<and> qs_elems s' = qs_elems s - {x}"
    by (rule qs_remove_ok [OF inv few])
qed

context slot_comparator
begin

lemmas qset_run_ok = qset.run_set_ops_ok

end

text \<open>Elements of an ordered type in the order of their values, the marks first.\<close>

fun slot_compare :: "'k::linorder slot \<Rightarrow> 'k slot \<Rightarrow> int" where
  "slot_compare (Entry x) (Entry y) = compare x y"
| "slot_compare (Entry x) _ = 1"
| "slot_compare _ (Entry y) = - 1"
| "slot_compare _ _ = 0"

interpretation by_value: slot_comparator "slot_compare :: 'k::linorder slot \<Rightarrow> 'k slot \<Rightarrow> int"
proof
  fix x y z :: "'k slot"
  show "(slot_compare x y < 0) = (0 < slot_compare y x)" by (cases x; cases y) (auto simp: compare_def)
  show "slot_compare x y \<le> 0 \<Longrightarrow> slot_compare y z \<le> 0 \<Longrightarrow> slot_compare x z \<le> 0"
    by (cases x; cases y; cases z) (auto simp: compare_def split: if_splits)
qed

end
