(* ===== verification/Information.thy ===== *)
theory Information
  imports Prelude
begin

section \<open>Versions of a record\<close>

text \<open>
  The classes \<open>StoryLock\<close> and \<open>Information\<close> of
  \<^verbatim>\<open>src/ENGINE/service/src/main/native/com/deepis/db/store/relative/core/Information.h\<close> with their base
  \<open>ReferenceObject\<close>, as compiled without \<^verbatim>\<open>DEEP_DEBUG\<close>. An \<open>Information\<close> is one version of a record; the
  versions of a record are linked through \<open>m_next\<close>, here the address of another version. The
  atomic instructions of the code are single steps.
\<close>

subsection \<open>Bits of a flag byte\<close>

definition flag_set :: "ubytetype \<Rightarrow> bool \<Rightarrow> ubytetype \<Rightarrow> ubytetype" where
  "flag_set m flag w = (if flag then w OR m else w AND NOT m)"

definition flag_get :: "ubytetype \<Rightarrow> ubytetype \<Rightarrow> bool" where
  "flag_get m w \<longleftrightarrow> w AND m \<noteq> 0"

lemma flag_get_bit: "flag_get (2 ^ n) w = bit w n"
  by (simp add: flag_get_def and_exp_eq_0_iff_not_bit)

lemma bit_flag_set: "n < 8 \<Longrightarrow> bit (flag_set (2 ^ n) flag w) k = (if k = n then flag else bit w k)"
  by (auto simp: flag_set_def bit_simps dest: bit_imp_le_length)

lemmas flag_get_simps = flag_get_bit [of 0, simplified] flag_get_bit [of 1, simplified] flag_get_bit [of 2, simplified]
  flag_get_bit [of 3, simplified] flag_get_bit [of 4, simplified] flag_get_bit [of 5, simplified]

lemmas flag_set_simps = bit_flag_set [of 0, simplified] bit_flag_set [of 1, simplified] bit_flag_set [of 2, simplified]
  bit_flag_set [of 3, simplified] bit_flag_set [of 4, simplified] bit_flag_set [of 5, simplified]

subsection \<open>Reference counts\<close>

text \<open>\<open>ReferenceObject<T, LIMIT>\<close>: the count wraps at the width of \<open>T\<close>.\<close>

definition incref :: "'a::len word \<Rightarrow> 'a word \<times> 'a word" where
  "incref refcnt = (refcnt + 1, refcnt + 1)"

definition decref :: "'a::len word \<Rightarrow> 'a word \<times> 'a word" where
  "decref refcnt = (refcnt - 1, refcnt - 1)"

definition at_limit :: "'a::len word \<Rightarrow> 'a word \<Rightarrow> bool" where
  "at_limit LIMIT refcnt \<longleftrightarrow> refcnt > LIMIT - 1"

subsection \<open>Story locks\<close>

record story_lock =
  sl_refcnt :: "16 word"
  sl_credentials :: ulongtype
  sl_storyDepth :: ubytetype
  sl_share :: bool
  sl_lock :: bool

definition sl_new :: story_lock where
  "sl_new = \<lparr>sl_refcnt = 1, sl_credentials = 0, sl_storyDepth = 0, sl_share = False, sl_lock = False\<rparr>"

definition sl_getIdentifier :: "story_lock \<Rightarrow> uinttype" where
  "sl_getIdentifier l = ucast (sl_credentials l AND 0xffffffff)"

definition sl_getSequence :: "story_lock \<Rightarrow> uinttype" where
  "sl_getSequence l = ucast (drop_bit 32 (sl_credentials l))"

definition sl_setCredentials :: "uinttype \<Rightarrow> uinttype \<Rightarrow> story_lock \<Rightarrow> story_lock" where
  "sl_setCredentials identifier sequence l = l\<lparr>sl_credentials := push_bit 32 (ucast sequence) OR ucast identifier\<rparr>"

definition sl_setStoryDepth :: "int \<Rightarrow> story_lock \<Rightarrow> story_lock" where
  "sl_setStoryDepth depth l = l\<lparr>sl_storyDepth := word_of_int (if depth > 255 then 255 else depth)\<rparr>"

definition sl_getStoryDepth :: "story_lock \<Rightarrow> int" where
  "sl_getStoryDepth l = uint (sl_storyDepth l)"

definition sl_setShare :: "bool \<Rightarrow> story_lock \<Rightarrow> story_lock" where
  "sl_setShare flag l = l\<lparr>sl_share := flag\<rparr>"

definition sl_tryLock :: "story_lock \<Rightarrow> bool \<times> story_lock" where
  "sl_tryLock l = (\<not> sl_lock l, l\<lparr>sl_lock := True\<rparr>)"

definition sl_unlock :: "story_lock \<Rightarrow> story_lock" where
  "sl_unlock l = l\<lparr>sl_lock := False\<rparr>"

definition sl_incrementSequence :: "story_lock \<Rightarrow> uinttype \<times> story_lock" where
  "sl_incrementSequence l =
     (let l' = sl_setCredentials (sl_getIdentifier l) (sl_getSequence l + 1) l in (sl_getSequence l', l'))"

definition sl_decrementSequence :: "story_lock \<Rightarrow> uinttype \<times> story_lock" where
  "sl_decrementSequence l =
     (let l' = sl_setCredentials (sl_getIdentifier l) (sl_getSequence l - 1) l in (sl_getSequence l', l'))"

definition sl_release :: "story_lock \<Rightarrow> story_lock" where
  "sl_release l = l\<lparr>sl_credentials := 0\<rparr>"

lemma low_half: "(0xffffffff :: ulongtype) = mask 32"
  by (simp add: mask_eq_exp_minus_1)

lemma sl_credentials_get [simp]:
  "sl_getIdentifier (sl_setCredentials i s l) = i" "sl_getSequence (sl_setCredentials i s l) = s"
  "sl_getIdentifier (sl_release l) = 0" "sl_getSequence (sl_release l) = 0"
  "sl_getIdentifier (sl_setShare b l) = sl_getIdentifier l" "sl_getSequence (sl_setShare b l) = sl_getSequence l"
  "sl_getIdentifier sl_new = 0" "sl_getSequence sl_new = 0"
proof -
  show "sl_getIdentifier (sl_setCredentials i s l) = i"
    by (rule bit_word_eqI) (simp add: sl_getIdentifier_def sl_setCredentials_def low_half bit_simps)
  show "sl_getSequence (sl_setCredentials i s l) = s"
    by (rule bit_word_eqI) (auto simp: sl_getSequence_def sl_setCredentials_def bit_simps dest: bit_imp_le_length)
qed (simp_all add: sl_getIdentifier_def sl_getSequence_def sl_release_def sl_setShare_def sl_new_def)

lemma sl_share_credentials [simp]:
  "sl_share (sl_setCredentials i s l) = sl_share l" "sl_share (sl_release l) = sl_share l" "sl_share (sl_setShare b l) = b"
  by (simp_all add: sl_setCredentials_def sl_release_def sl_setShare_def)

lemma sl_sequence_steps [simp]:
  "sl_incrementSequence l = (sl_getSequence l + 1, sl_setCredentials (sl_getIdentifier l) (sl_getSequence l + 1) l)"
  "sl_decrementSequence l = (sl_getSequence l - 1, sl_setCredentials (sl_getIdentifier l) (sl_getSequence l - 1) l)"
  by (simp_all add: sl_incrementSequence_def sl_decrementSequence_def Let_def)

subsection \<open>Versions\<close>

datatype info_type = READ | WRITE | CMPRS

definition OFFSET_NONE :: uinttype where
  "OFFSET_NONE = 0xFFFFFFFF"

type_synonym addr = nat

text \<open>
  \<open>m_indexed\<close> and \<open>m_rooted\<close> share their memory. \<open>m_compressedOffset\<close> is only allocated for the type \<open>CMPRS\<close>.
\<close>

record information =
  i_refcnt :: ubytetype
  i_next :: "addr option"
  i_data :: "ubytetype list option"
  i_size :: uinttype
  i_fileIndex :: "16 word"
  i_filePosition :: uinttype
  i_viewpoint :: ulongtype
  i_stateFlags :: ubytetype
  i_indexed :: ulongtype
  i_level :: int
  i_compressedOffset :: "uinttype option"

definition LEVEL_ERASED :: int where
  "LEVEL_ERASED = - 4"

definition LEVEL_ROLLED :: int where
  "LEVEL_ROLLED = - 3"

definition LEVEL_MERGED :: int where
  "LEVEL_MERGED = - 2"

definition LEVEL_COMMIT :: int where
  "LEVEL_COMMIT = - 1"

definition LEVEL_ACTIVE :: int where
  "LEVEL_ACTIVE = 0"

lemmas level_defs = LEVEL_ERASED_def LEVEL_ROLLED_def LEVEL_MERGED_def LEVEL_COMMIT_def LEVEL_ACTIVE_def

subsubsection \<open>Type and state flags\<close>

fun setType :: "info_type \<Rightarrow> information \<Rightarrow> information" where
  "setType READ i = i"
| "setType WRITE i = i\<lparr>i_stateFlags := i_stateFlags i OR 0x80\<rparr>"
| "setType CMPRS i = i\<lparr>i_stateFlags := (i_stateFlags i OR 0x80) OR 0x40\<rparr>"

definition getType :: "information \<Rightarrow> info_type" where
  "getType i = (if i_stateFlags i AND 0x40 = 0 then (if i_stateFlags i AND 0x80 = 0 then READ else WRITE) else CMPRS)"

fun type_hasFields :: "info_type \<Rightarrow> info_type \<Rightarrow> bool" where
  "type_hasFields READ t2 \<longleftrightarrow> t2 = READ"
| "type_hasFields WRITE t2 \<longleftrightarrow> t2 \<noteq> CMPRS"
| "type_hasFields CMPRS t2 \<longleftrightarrow> True"

definition hasFields :: "info_type \<Rightarrow> information \<Rightarrow> bool" where
  "hasFields t i = type_hasFields (getType i) t"

definition setMerged :: "bool \<Rightarrow> information \<Rightarrow> information" where
  "setMerged flag i = i\<lparr>i_stateFlags := flag_set 0x08 flag (i_stateFlags i)\<rparr>"

definition getMerged :: "information \<Rightarrow> bool" where
  "getMerged i = flag_get 0x08 (i_stateFlags i)"

definition setExpunged :: "bool \<Rightarrow> information \<Rightarrow> information" where
  "setExpunged flag i = i\<lparr>i_stateFlags := flag_set 0x20 flag (i_stateFlags i)\<rparr>"

definition getExpunged :: "information \<Rightarrow> bool" where
  "getExpunged i = flag_get 0x20 (i_stateFlags i)"

definition setDiverging :: "bool \<Rightarrow> information \<Rightarrow> information" where
  "setDiverging flag i = i\<lparr>i_stateFlags := flag_set 0x10 flag (i_stateFlags i)\<rparr>"

definition getDiverging :: "information \<Rightarrow> bool" where
  "getDiverging i = flag_get 0x10 (i_stateFlags i)"

definition setUpdating :: "bool \<Rightarrow> information \<Rightarrow> information" where
  "setUpdating flag i = i\<lparr>i_stateFlags := flag_set 0x04 flag (i_stateFlags i)\<rparr>"

definition getUpdating :: "information \<Rightarrow> bool" where
  "getUpdating i = flag_get 0x04 (i_stateFlags i)"

definition setCreating :: "bool \<Rightarrow> information \<Rightarrow> information" where
  "setCreating flag i = i\<lparr>i_stateFlags := flag_set 0x02 flag (i_stateFlags i)\<rparr>"

definition getCreating :: "information \<Rightarrow> bool" where
  "getCreating i = flag_get 0x02 (i_stateFlags i)"

definition setDeleting :: "bool \<Rightarrow> information \<Rightarrow> information" where
  "setDeleting flag i = i\<lparr>i_stateFlags := flag_set 0x01 flag (i_stateFlags i)\<rparr>"

definition getDeleting :: "information \<Rightarrow> bool" where
  "getDeleting i = flag_get 0x01 (i_stateFlags i)"

subsubsection \<open>Levels\<close>

definition setRootedState :: "ulongtype \<Rightarrow> information \<Rightarrow> information" where
  "setRootedState s i = i\<lparr>i_indexed := s\<rparr>"

definition getLevel :: "information \<Rightarrow> int" where
  "getLevel i = (if getMerged i then LEVEL_MERGED else if \<not> hasFields WRITE i then LEVEL_COMMIT else i_level i)"

definition setLevel :: "int \<Rightarrow> information \<Rightarrow> information" where
  "setLevel level i =
     (if level = LEVEL_COMMIT \<and> i_level i \<noteq> LEVEL_COMMIT then setMerged False ((setRootedState 0 i)\<lparr>i_level := level\<rparr>)
      else if level = LEVEL_MERGED then setMerged True i
      else setMerged False (i\<lparr>i_level := level\<rparr>))"

text \<open>\<open>setMergeLevel\<close> takes and \<open>getMergeLevel\<close> returns an unsigned 16-bit number, \<open>m_level\<close> is a signed one.\<close>

definition setMergeLevel :: "16 word \<Rightarrow> information \<Rightarrow> information" where
  "setMergeLevel level i = i\<lparr>i_level := sint level\<rparr>"

definition getMergeLevel :: "information \<Rightarrow> 16 word" where
  "getMergeLevel i = word_of_int (i_level i)"

subsubsection \<open>Construction\<close>

definition info_new :: "info_type \<Rightarrow> 16 word \<Rightarrow> uinttype \<Rightarrow> uinttype \<Rightarrow> information" where
  "info_new t index position vsize =
     setType t
       \<lparr>i_refcnt = 1, i_next = None, i_data = None, i_size = vsize, i_fileIndex = index, i_filePosition = position,
        i_viewpoint = 0, i_stateFlags = 0, i_indexed = (if type_hasFields t WRITE then 0 else - 1), i_level = LEVEL_COMMIT,
        i_compressedOffset = (if type_hasFields t CMPRS then Some OFFSET_NONE else None)\<rparr>"

definition newInfo :: "info_type \<Rightarrow> information" where
  "newInfo t = info_new t 0 0 0"

definition freeData :: "information \<Rightarrow> information" where
  "freeData i = i\<lparr>i_data := None\<rparr>"

subsubsection \<open>Index and root bits\<close>

definition index_bit :: "int \<Rightarrow> ulongtype result" where
  "index_bit index = (if 0 \<le> index \<and> index < 64 then Inr (push_bit (nat index) 1) else Inl ShiftTooWide)"

definition setIndexed :: "int \<Rightarrow> bool \<Rightarrow> information \<Rightarrow> information result" where
  "setIndexed indexed flag i =
     rbind (index_bit indexed) (\<lambda>b.
       Inr (i\<lparr>i_indexed := (if flag then i_indexed i OR b else i_indexed i AND NOT b)\<rparr>))"

definition getIndexed :: "int \<Rightarrow> information \<Rightarrow> bool result" where
  "getIndexed indexed i = rbind (index_bit indexed) (\<lambda>b. Inr (i_indexed i AND b \<noteq> 0))"

definition setRooted :: "int \<Rightarrow> bool \<Rightarrow> information \<Rightarrow> information result" where
  "setRooted rooted flag i =
     rbind (index_bit rooted) (\<lambda>b.
       if flag
       then
         let wasRooted = (i_indexed i AND b \<noteq> 0); i' = i\<lparr>i_indexed := i_indexed i OR b\<rparr> in
         Inr (if \<not> wasRooted \<and> getLevel i' = LEVEL_COMMIT then i'\<lparr>i_indexed := i_indexed i' AND NOT b\<rparr> else i')
       else Inr (i\<lparr>i_indexed := i_indexed i AND NOT b\<rparr>))"

definition getRooted :: "int \<Rightarrow> information \<Rightarrow> bool result" where
  "getRooted rooted i =
     rbind (index_bit rooted) (\<lambda>b. Inr (if getLevel i = LEVEL_COMMIT then False else i_indexed i AND b \<noteq> 0))"

definition resetIndexed :: "ulongtype \<Rightarrow> information \<Rightarrow> information" where
  "resetIndexed indexed i = i\<lparr>i_indexed := indexed\<rparr>"

subsubsection \<open>Viewpoints\<close>

definition getViewpoint :: "information \<Rightarrow> uinttype" where
  "getViewpoint i = ucast (i_viewpoint i AND 0xffffffff)"

definition getViewLimit :: "information \<Rightarrow> uinttype" where
  "getViewLimit i = ucast (drop_bit 32 (i_viewpoint i))"

definition view_pair :: "uinttype \<Rightarrow> uinttype \<Rightarrow> ulongtype" where
  "view_pair lo hi = push_bit 32 (ucast hi) OR ucast lo"

definition limitViewpoint :: "uinttype \<Rightarrow> information \<Rightarrow> information" where
  "limitViewpoint hi i = i\<lparr>i_viewpoint := view_pair (ucast (i_viewpoint i AND 0xffffffff)) hi\<rparr>"

definition linkViewpoint :: "uinttype \<Rightarrow> information \<Rightarrow> information" where
  "linkViewpoint viewpoint i =
     (let lo = ucast (i_viewpoint i AND 0xffffffff); hi = ucast (drop_bit 32 (i_viewpoint i)) in
      i\<lparr>i_viewpoint := view_pair (if lo = 0 \<or> lo > viewpoint then viewpoint else lo) hi\<rparr>)"

definition hasViewpoint :: "uinttype \<Rightarrow> information \<Rightarrow> bool" where
  "hasViewpoint viewpoint i \<longleftrightarrow>
     ucast (i_viewpoint i AND 0xffffffff) \<le> viewpoint \<and> ucast (drop_bit 32 (i_viewpoint i)) \<ge> viewpoint"

definition info_release :: "bool \<Rightarrow> story_lock \<Rightarrow> information \<Rightarrow> information \<times> story_lock" where
  "info_release reset slock i = (if reset then i\<lparr>i_indexed := 0, i_viewpoint := 0\<rparr> else i, sl_release slock)"

definition info_reset :: "uinttype \<Rightarrow> uinttype \<Rightarrow> bool \<Rightarrow> information \<Rightarrow> information" where
  "info_reset lo hi commit i = i\<lparr>i_viewpoint := (if commit then view_pair lo hi else 0)\<rparr>"

subsubsection \<open>Compression and the short form in memory\<close>

definition setCompressedOffset :: "uinttype \<Rightarrow> information \<Rightarrow> information result" where
  "setCompressedOffset off i =
     (case i_compressedOffset i of None \<Rightarrow> Inl OutOfBounds | Some _ \<Rightarrow> Inr (i\<lparr>i_compressedOffset := Some off\<rparr>))"

definition getCompressedOffset :: "information \<Rightarrow> uinttype result" where
  "getCompressedOffset i =
     (if \<not> hasFields CMPRS i then Inr OFFSET_NONE
      else case i_compressedOffset i of None \<Rightarrow> Inl OutOfBounds | Some off \<Rightarrow> Inr off)"

definition getCompressed :: "information \<Rightarrow> bool" where
  "getCompressed i \<longleftrightarrow> hasFields CMPRS i \<and> i_compressedOffset i \<noteq> Some OFFSET_NONE"

definition getInMemoryCompressedSize :: "information \<Rightarrow> nat" where
  "getInMemoryCompressedSize i = (case getType i of READ \<Rightarrow> 6 | WRITE \<Rightarrow> 6 | CMPRS \<Rightarrow> 11)"

definition bytes16 :: "16 word \<Rightarrow> ubytetype list" where
  "bytes16 v = [ucast v, ucast (drop_bit 8 v)]"

text \<open>The short form: a byte that is never written is \<open>None\<close>.\<close>

definition put_bytes :: "nat \<Rightarrow> ubytetype list \<Rightarrow> ubytetype option list \<Rightarrow> ubytetype option list result" where
  "put_bytes pos bs buf =
     (if pos + length bs \<le> length buf then Inr (take pos buf @ map Some bs @ drop (pos + length bs) buf) else Inl OutOfBounds)"

definition getBytes :: "information \<Rightarrow> ubytetype option list result" where
  "getBytes i =
     rbind (put_bytes 0 (bytes16 (i_fileIndex i)) (replicate (getInMemoryCompressedSize i) None)) (\<lambda>d1.
     rbind (put_bytes 2 (bytes32 (i_filePosition i)) d1) (\<lambda>d2.
       if hasFields CMPRS i
       then case i_compressedOffset i of None \<Rightarrow> Inl OutOfBounds | Some off \<Rightarrow> put_bytes 6 (bytes32 off) d2
       else Inr d2))"

definition byte_at :: "ubytetype option list \<Rightarrow> nat \<Rightarrow> ubytetype result" where
  "byte_at buf i = rbind (peek buf i) (\<lambda>b. case b of None \<Rightarrow> Inl Uninitialised | Some x \<Rightarrow> Inr x)"

definition read16 :: "ubytetype option list \<Rightarrow> nat \<Rightarrow> 16 word result" where
  "read16 buf p = rbind (byte_at buf p) (\<lambda>b0. rbind (byte_at buf (p + 1)) (\<lambda>b1. Inr (ucast b0 OR push_bit 8 (ucast b1))))"

definition read32 :: "ubytetype option list \<Rightarrow> nat \<Rightarrow> uinttype result" where
  "read32 buf p =
     rbind (byte_at buf p) (\<lambda>b0. rbind (byte_at buf (p + 1)) (\<lambda>b1. rbind (byte_at buf (p + 2)) (\<lambda>b2. rbind (byte_at buf (p + 3)) (\<lambda>b3.
       Inr (word32 b0 b1 b2 b3)))))"

definition setBytes :: "ubytetype option list \<Rightarrow> information \<Rightarrow> information result" where
  "setBytes data i =
     rbind (read16 data 0) (\<lambda>index.
     rbind (read32 data 2) (\<lambda>position.
       let i1 = i\<lparr>i_fileIndex := index, i_filePosition := position\<rparr>;
           i2 = (if hasFields WRITE i1 then i1\<lparr>i_level := LEVEL_COMMIT\<rparr> else i1) in
       if hasFields CMPRS i2
       then rbind (read32 data 6) (\<lambda>off. setCompressedOffset off i2)
       else Inr i2))"

subsection \<open>Reading back\<close>

named_theorems info_simps \<open>what the getters of a version return after its setters\<close>

lemmas info_flag_defs = getMerged_def setMerged_def getExpunged_def setExpunged_def getDiverging_def setDiverging_def
  getUpdating_def setUpdating_def getCreating_def setCreating_def getDeleting_def setDeleting_def

lemma info_flags [info_simps]:
  "getMerged (setMerged f i) = f" "getMerged (setExpunged f i) = getMerged i" "getMerged (setDiverging f i) = getMerged i"
  "getMerged (setUpdating f i) = getMerged i" "getMerged (setCreating f i) = getMerged i" "getMerged (setDeleting f i) = getMerged i"
  "getExpunged (setMerged f i) = getExpunged i" "getExpunged (setExpunged f i) = f" "getExpunged (setDiverging f i) = getExpunged i"
  "getExpunged (setUpdating f i) = getExpunged i" "getExpunged (setCreating f i) = getExpunged i" "getExpunged (setDeleting f i) = getExpunged i"
  "getDiverging (setMerged f i) = getDiverging i" "getDiverging (setExpunged f i) = getDiverging i" "getDiverging (setDiverging f i) = f"
  "getDiverging (setUpdating f i) = getDiverging i" "getDiverging (setCreating f i) = getDiverging i" "getDiverging (setDeleting f i) = getDiverging i"
  "getUpdating (setMerged f i) = getUpdating i" "getUpdating (setExpunged f i) = getUpdating i" "getUpdating (setDiverging f i) = getUpdating i"
  "getUpdating (setUpdating f i) = f" "getUpdating (setCreating f i) = getUpdating i" "getUpdating (setDeleting f i) = getUpdating i"
  "getCreating (setMerged f i) = getCreating i" "getCreating (setExpunged f i) = getCreating i" "getCreating (setDiverging f i) = getCreating i"
  "getCreating (setUpdating f i) = getCreating i" "getCreating (setCreating f i) = f" "getCreating (setDeleting f i) = getCreating i"
  "getDeleting (setMerged f i) = getDeleting i" "getDeleting (setExpunged f i) = getDeleting i" "getDeleting (setDiverging f i) = getDeleting i"
  "getDeleting (setUpdating f i) = getDeleting i" "getDeleting (setCreating f i) = getDeleting i" "getDeleting (setDeleting f i) = f"
  by (simp_all add: info_flag_defs flag_get_simps flag_set_simps)

lemma getType_bits: "getType i = (if bit (i_stateFlags i) 6 then CMPRS else if bit (i_stateFlags i) 7 then WRITE else READ)"
  using and_exp_eq_0_iff_not_bit [of "i_stateFlags i" 6] and_exp_eq_0_iff_not_bit [of "i_stateFlags i" 7] by (simp add: getType_def)

lemma getType_setType [info_simps]:
  "getType (setType t i) = (case t of READ \<Rightarrow> getType i | WRITE \<Rightarrow> (if getType i = CMPRS then CMPRS else WRITE) | CMPRS \<Rightarrow> CMPRS)"
  by (cases t) (simp_all add: getType_bits bit_or_iff)

lemma getType_setters [info_simps]:
  "getType (setMerged f i) = getType i" "getType (setExpunged f i) = getType i" "getType (setDiverging f i) = getType i"
  "getType (setUpdating f i) = getType i" "getType (setCreating f i) = getType i" "getType (setDeleting f i) = getType i"
  by (simp_all add: info_flag_defs getType_bits flag_set_simps)

text \<open>What a setter leaves alone.\<close>

lemma info_fields [info_simps]:
  "i_next (setMerged f i) = i_next i" "i_next (setDiverging f i) = i_next i" "i_next (setUpdating f i) = i_next i"
  "i_next (setCreating f i) = i_next i" "i_next (setDeleting f i) = i_next i" "i_next (setLevel l i) = i_next i"
  "i_next (info_reset lo hi c i) = i_next i"
  "i_data (setMerged f i) = i_data i" "i_data (setDiverging f i) = i_data i" "i_data (setUpdating f i) = i_data i"
  "i_data (setCreating f i) = i_data i" "i_data (setDeleting f i) = i_data i" "i_data (setLevel l i) = i_data i"
  "i_data (info_reset lo hi c i) = i_data i"
  "i_viewpoint (setMerged f i) = i_viewpoint i" "i_viewpoint (setDiverging f i) = i_viewpoint i" "i_viewpoint (setUpdating f i) = i_viewpoint i"
  "i_viewpoint (setCreating f i) = i_viewpoint i" "i_viewpoint (setDeleting f i) = i_viewpoint i" "i_viewpoint (setLevel l i) = i_viewpoint i"
  "i_level (setMerged f i) = i_level i" "i_level (setDiverging f i) = i_level i" "i_level (setUpdating f i) = i_level i"
  "i_level (setCreating f i) = i_level i" "i_level (setDeleting f i) = i_level i" "i_level (info_reset lo hi c i) = i_level i"
  "i_stateFlags (info_reset lo hi c i) = i_stateFlags i"
  "i_filePosition (setMerged f i) = i_filePosition i" "i_filePosition (setLevel l i) = i_filePosition i" "i_filePosition (setDeleting f i) = i_filePosition i"
  by (simp_all add: info_flag_defs setLevel_def setRootedState_def info_reset_def)

lemma info_level_flags [info_simps]:
  "getDiverging (setLevel l i) = getDiverging i" "getUpdating (setLevel l i) = getUpdating i" "getCreating (setLevel l i) = getCreating i"
  "getDeleting (setLevel l i) = getDeleting i" "getExpunged (setLevel l i) = getExpunged i" "getType (setLevel l i) = getType i"
  by (simp_all add: setLevel_def setRootedState_def info_simps) (simp_all add: info_flag_defs getType_def)

lemma info_congs [info_simps]:
  "getMerged (i\<lparr>i_next := p\<rparr>) = getMerged i" "getDiverging (i\<lparr>i_next := p\<rparr>) = getDiverging i" "getUpdating (i\<lparr>i_next := p\<rparr>) = getUpdating i"
  "getCreating (i\<lparr>i_next := p\<rparr>) = getCreating i" "getDeleting (i\<lparr>i_next := p\<rparr>) = getDeleting i" "getLevel (i\<lparr>i_next := p\<rparr>) = getLevel i"
  "getType (i\<lparr>i_next := p\<rparr>) = getType i" "getViewpoint (i\<lparr>i_next := p\<rparr>) = getViewpoint i" "getViewLimit (i\<lparr>i_next := p\<rparr>) = getViewLimit i"
  "hasViewpoint v (i\<lparr>i_next := p\<rparr>) = hasViewpoint v i"
  by (simp_all add: info_flag_defs getLevel_def hasFields_def getType_def getViewpoint_def getViewLimit_def hasViewpoint_def)

text \<open>The fields the flags and the level do not depend on.\<close>

lemma info_frame [info_simps]:
  "getMerged (i\<lparr>i_fileIndex := a\<rparr>) = getMerged i" "getDiverging (i\<lparr>i_fileIndex := a\<rparr>) = getDiverging i" "getUpdating (i\<lparr>i_fileIndex := a\<rparr>) = getUpdating i" "getCreating (i\<lparr>i_fileIndex := a\<rparr>) = getCreating i" "getDeleting (i\<lparr>i_fileIndex := a\<rparr>) = getDeleting i" "getType (i\<lparr>i_fileIndex := a\<rparr>) = getType i" "getLevel (i\<lparr>i_fileIndex := a\<rparr>) = getLevel i"
  "getMerged (i\<lparr>i_filePosition := b\<rparr>) = getMerged i" "getDiverging (i\<lparr>i_filePosition := b\<rparr>) = getDiverging i" "getUpdating (i\<lparr>i_filePosition := b\<rparr>) = getUpdating i" "getCreating (i\<lparr>i_filePosition := b\<rparr>) = getCreating i" "getDeleting (i\<lparr>i_filePosition := b\<rparr>) = getDeleting i" "getType (i\<lparr>i_filePosition := b\<rparr>) = getType i" "getLevel (i\<lparr>i_filePosition := b\<rparr>) = getLevel i"
  "getMerged (i\<lparr>i_compressedOffset := off\<rparr>) = getMerged i" "getDiverging (i\<lparr>i_compressedOffset := off\<rparr>) = getDiverging i" "getUpdating (i\<lparr>i_compressedOffset := off\<rparr>) = getUpdating i" "getCreating (i\<lparr>i_compressedOffset := off\<rparr>) = getCreating i" "getDeleting (i\<lparr>i_compressedOffset := off\<rparr>) = getDeleting i" "getType (i\<lparr>i_compressedOffset := off\<rparr>) = getType i" "getLevel (i\<lparr>i_compressedOffset := off\<rparr>) = getLevel i"
  "getMerged (i\<lparr>i_indexed := x\<rparr>) = getMerged i" "getDiverging (i\<lparr>i_indexed := x\<rparr>) = getDiverging i" "getUpdating (i\<lparr>i_indexed := x\<rparr>) = getUpdating i" "getCreating (i\<lparr>i_indexed := x\<rparr>) = getCreating i" "getDeleting (i\<lparr>i_indexed := x\<rparr>) = getDeleting i" "getType (i\<lparr>i_indexed := x\<rparr>) = getType i" "getLevel (i\<lparr>i_indexed := x\<rparr>) = getLevel i"
  "getMerged (i\<lparr>i_data := d\<rparr>) = getMerged i" "getDiverging (i\<lparr>i_data := d\<rparr>) = getDiverging i" "getUpdating (i\<lparr>i_data := d\<rparr>) = getUpdating i" "getCreating (i\<lparr>i_data := d\<rparr>) = getCreating i" "getDeleting (i\<lparr>i_data := d\<rparr>) = getDeleting i" "getType (i\<lparr>i_data := d\<rparr>) = getType i" "getLevel (i\<lparr>i_data := d\<rparr>) = getLevel i"
  "getMerged (i\<lparr>i_size := n\<rparr>) = getMerged i" "getDiverging (i\<lparr>i_size := n\<rparr>) = getDiverging i" "getUpdating (i\<lparr>i_size := n\<rparr>) = getUpdating i" "getCreating (i\<lparr>i_size := n\<rparr>) = getCreating i" "getDeleting (i\<lparr>i_size := n\<rparr>) = getDeleting i" "getType (i\<lparr>i_size := n\<rparr>) = getType i" "getLevel (i\<lparr>i_size := n\<rparr>) = getLevel i"
  "getMerged (i\<lparr>i_refcnt := c\<rparr>) = getMerged i" "getDiverging (i\<lparr>i_refcnt := c\<rparr>) = getDiverging i" "getUpdating (i\<lparr>i_refcnt := c\<rparr>) = getUpdating i" "getCreating (i\<lparr>i_refcnt := c\<rparr>) = getCreating i" "getDeleting (i\<lparr>i_refcnt := c\<rparr>) = getDeleting i" "getType (i\<lparr>i_refcnt := c\<rparr>) = getType i" "getLevel (i\<lparr>i_refcnt := c\<rparr>) = getLevel i"
  by (simp_all add: info_flag_defs getLevel_def hasFields_def getType_def)

lemma getLevel_flags [info_simps]:
  "getLevel (setDiverging f i) = getLevel i" "getLevel (setUpdating f i) = getLevel i" "getLevel (setCreating f i) = getLevel i"
  "getLevel (setDeleting f i) = getLevel i" "getLevel (info_reset lo hi c i) = getLevel i"
  by (simp_all add: getLevel_def hasFields_def info_simps) (simp_all add: info_reset_def getMerged_def getType_def)

text \<open>A level that was set is read back by every version that can be written; a read-only version is always committed.\<close>

lemma getLevel_setLevel [info_simps]:
  "getLevel (setLevel l i) = (if l = LEVEL_MERGED then LEVEL_MERGED else if getType i = READ then LEVEL_COMMIT else l)"
proof -
  have w: "hasFields WRITE (setLevel l i) \<longleftrightarrow> getType i \<noteq> READ"
    by (cases "getType i") (simp_all add: hasFields_def info_simps)
  have "getMerged (setLevel l i) \<longleftrightarrow> l = LEVEL_MERGED" by (simp add: setLevel_def info_simps level_defs)
  moreover have "l \<noteq> LEVEL_MERGED \<Longrightarrow> i_level (setLevel l i) = l" by (simp add: setLevel_def info_simps)
  ultimately show ?thesis by (simp add: getLevel_def w)
qed

lemma view_pair_halves [simp]: "ucast (view_pair lo hi AND 0xffffffff) = lo" "ucast (drop_bit 32 (view_pair lo hi)) = hi"
  unfolding view_pair_def low_half
  by (rule bit_word_eqI; auto simp: bit_simps dest: bit_imp_le_length)+

lemma info_views [info_simps]:
  "getViewpoint (info_reset lo hi True i) = lo" "getViewLimit (info_reset lo hi True i) = hi"
  "getViewpoint (info_reset lo hi False i) = 0" "getViewLimit (info_reset lo hi False i) = 0"
  "getViewpoint (limitViewpoint h i) = getViewpoint i" "getViewLimit (limitViewpoint h i) = h"
  "getViewpoint (linkViewpoint v i) = (if getViewpoint i = 0 \<or> v < getViewpoint i then v else getViewpoint i)"
  "getViewLimit (linkViewpoint v i) = getViewLimit i"
  by (simp_all add: getViewpoint_def getViewLimit_def info_reset_def limitViewpoint_def linkViewpoint_def Let_def)

lemma hasViewpoint_interval: "hasViewpoint v i \<longleftrightarrow> getViewpoint i \<le> v \<and> v \<le> getViewLimit i"
  by (simp add: hasViewpoint_def getViewpoint_def getViewLimit_def)

lemma views_of_fields [info_simps]:
  "getViewpoint (setDiverging f i) = getViewpoint i" "getViewpoint (setUpdating f i) = getViewpoint i" "getViewpoint (setCreating f i) = getViewpoint i"
  "getViewpoint (setDeleting f i) = getViewpoint i" "getViewpoint (setLevel l i) = getViewpoint i"
  "getViewLimit (setDiverging f i) = getViewLimit i" "getViewLimit (setUpdating f i) = getViewLimit i" "getViewLimit (setCreating f i) = getViewLimit i"
  "getViewLimit (setDeleting f i) = getViewLimit i" "getViewLimit (setLevel l i) = getViewLimit i"
  by (simp_all add: getViewpoint_def getViewLimit_def info_simps)

lemma flags_of_reset [info_simps]:
  "getMerged (info_reset lo hi c i) = getMerged i" "getDiverging (info_reset lo hi c i) = getDiverging i" "getUpdating (info_reset lo hi c i) = getUpdating i"
  "getCreating (info_reset lo hi c i) = getCreating i" "getDeleting (info_reset lo hi c i) = getDeleting i" "getType (info_reset lo hi c i) = getType i"
  by (simp_all add: info_reset_def info_flag_defs getType_def)

lemma index_bits:
  assumes "0 \<le> n" "n < 64" "0 \<le> k" "k < 64"
  shows "\<exists>i'. setIndexed n flag i = Inr i' \<and> getIndexed k i' = (if k = n then Inr flag else getIndexed k i) \<and>
    getLevel i' = getLevel i"
proof -
  have "(push_bit (nat n) 1 :: ulongtype) = 2 ^ nat n" "(push_bit (nat k) 1 :: ulongtype) = 2 ^ nat k" by (simp_all add: push_bit_eq_mult)
  moreover have "nat k < 64" "nat n < 64" "nat k = nat n \<longleftrightarrow> k = n" using assms by auto
  ultimately show ?thesis using assms
    by (auto simp: setIndexed_def getIndexed_def index_bit_def and_exp_eq_0_iff_not_bit bit_simps getLevel_def hasFields_def getType_def getMerged_def)
qed

subsection \<open>The short form\<close>

lemma word16_bytes16: "ucast (ucast v :: ubytetype) OR push_bit 8 (ucast (ucast (drop_bit 8 v) :: ubytetype)) = (v :: 16 word)"
  by (rule bit_word_eqI) (auto simp: bit_simps dest: bit_imp_le_length)

definition well_typed :: "information \<Rightarrow> bool" where
  "well_typed i \<longleftrightarrow> (i_compressedOffset i \<noteq> None \<longleftrightarrow> hasFields CMPRS i)"

lemma newInfo_well_typed: "well_typed (info_new t index position vsize) \<and> getType (info_new t index position vsize) = t"
  by (cases t) (simp_all add: well_typed_def info_new_def hasFields_def getType_def)

lemma getType_fields [simp]:
  "getType (i\<lparr>i_fileIndex := a\<rparr>) = getType i" "getType (i\<lparr>i_filePosition := b\<rparr>) = getType i" "getType (i\<lparr>i_level := l\<rparr>) = getType i"
  "getType (i\<lparr>i_compressedOffset := off\<rparr>) = getType i"
  by (simp_all add: getType_def)

lemma getBytes_setBytes:
  assumes "well_typed i" "well_typed j" "getType j = getType i"
  shows "\<exists>bs j'. getBytes i = Inr bs \<and> length bs = getInMemoryCompressedSize i \<and> setBytes bs j = Inr j' \<and>
    i_fileIndex j' = i_fileIndex i \<and> i_filePosition j' = i_filePosition i \<and> i_compressedOffset j' = i_compressedOffset i \<and> getType j' = getType i"
proof -
  show ?thesis
  proof (cases "getType i")
    case CMPRS
    obtain off off' where o: "i_compressedOffset i = Some off" "i_compressedOffset j = Some off'"
      using assms CMPRS by (auto simp: well_typed_def hasFields_def)
    have b: "getBytes i = Inr (map Some (bytes16 (i_fileIndex i) @ bytes32 (i_filePosition i) @ bytes32 off) @ [None])"
      using CMPRS o(1) by (simp add: getBytes_def put_bytes_def getInMemoryCompressedSize_def hasFields_def bytes16_def bytes32_def)
    show ?thesis using b CMPRS o assms(3)
      by (simp add: setBytes_def read16_def read32_def byte_at_def peek_def bytes16_def bytes32_def word16_bytes16 hasFields_def
        setCompressedOffset_def getInMemoryCompressedSize_def Let_def)
  next
    case READ
    then show ?thesis using assms
      by (simp add: getBytes_def put_bytes_def getInMemoryCompressedSize_def hasFields_def well_typed_def
        setBytes_def read16_def read32_def byte_at_def peek_def bytes16_def bytes32_def word16_bytes16 Let_def)
  next
    case WRITE
    then show ?thesis using assms
      by (simp add: getBytes_def put_bytes_def getInMemoryCompressedSize_def hasFields_def well_typed_def
        setBytes_def read16_def read32_def byte_at_def peek_def bytes16_def bytes32_def word16_bytes16 Let_def)
  qed
qed

end
