(* ===== verification/StoryLine.thy ===== *)
theory StoryLine
  imports Information
begin

section \<open>Storylines\<close>

text \<open>
  The versions of a record hang together through \<open>m_next\<close>, the oldest first: the storyline. The
  class \<open>StoryLine\<close> of \<^verbatim>\<open>core/Information.h\<close> keeps its root and its lock; the walks over it
  are the overloads of \<open>isolateInformation\<close> and their relatives in
  \<^verbatim>\<open>src/ENGINE/service/src/main/native/com/deepis/db/store/relative/core/RealTimeMap.cxx\<close>. Every walk is a \<open>while\<close> loop over the links with its own
  body; a loop that runs in circles is the fault \<open>NoReturn\<close>.
\<close>

subsection \<open>Versions in memory\<close>

type_synonym heap = "addr \<Rightarrow> information option"

definition deref :: "heap \<Rightarrow> addr option \<Rightarrow> information result" where
  "deref h p = (case p of None \<Rightarrow> Inl NullDeref | Some a \<Rightarrow> (case h a of None \<Rightarrow> Inl Dangling | Some i \<Rightarrow> Inr i))"

definition on_info :: "addr option \<Rightarrow> (information \<Rightarrow> information) \<Rightarrow> heap \<Rightarrow> heap result" where
  "on_info p f h = rbind (deref h p) (\<lambda>i. Inr (h(the p \<mapsto> f i)))"

definition setNext :: "addr option \<Rightarrow> information \<Rightarrow> information" where
  "setNext q i = i\<lparr>i_next := q\<rparr>"

subsection \<open>Story line\<close>

record storyline =
  st_orginfo :: "addr option"
  st_slock :: "story_lock option"

definition initStoryLock :: "storyline \<Rightarrow> storyline" where
  "initStoryLock s = (case st_slock s of None \<Rightarrow> s\<lparr>st_slock := Some sl_new\<rparr> | Some _ \<Rightarrow> s)"

text \<open>\<open>getLockIdentifier\<close> returns an unsigned 16-bit number.\<close>

definition getLockIdentifier :: "storyline \<Rightarrow> 16 word" where
  "getLockIdentifier s = (case st_slock s of None \<Rightarrow> 0 | Some l \<Rightarrow> ucast (sl_getIdentifier l))"

definition getLockSequence :: "storyline \<Rightarrow> uinttype" where
  "getLockSequence s = (case st_slock s of None \<Rightarrow> 0 | Some l \<Rightarrow> sl_getSequence l)"

definition getSharing :: "storyline \<Rightarrow> bool" where
  "getSharing s = (case st_slock s of None \<Rightarrow> False | Some l \<Rightarrow> sl_share l)"

definition getStoryDepth :: "storyline \<Rightarrow> ubytetype" where
  "getStoryDepth s = (case st_slock s of None \<Rightarrow> 0 | Some l \<Rightarrow> sl_storyDepth l)"

definition on_slock :: "(story_lock \<Rightarrow> story_lock) \<Rightarrow> storyline \<Rightarrow> storyline result" where
  "on_slock f s = (case st_slock s of None \<Rightarrow> Inl NullDeref | Some l \<Rightarrow> Inr (s\<lparr>st_slock := Some (f l)\<rparr>))"

definition setLockCredentials :: "uinttype \<Rightarrow> uinttype \<Rightarrow> storyline \<Rightarrow> storyline result" where
  "setLockCredentials identifier sequence = on_slock (sl_setCredentials identifier sequence)"

definition st_release :: "storyline \<Rightarrow> storyline result" where
  "st_release = on_slock sl_release"

definition setSharing :: "bool \<Rightarrow> storyline \<Rightarrow> storyline result" where
  "setSharing flag = on_slock (sl_setShare flag)"

text \<open>The depth is converted to 8 bits before \<open>StoryLock::setStoryDepth\<close> sees it.\<close>

definition setStoryDepth :: "ubytetype \<Rightarrow> storyline \<Rightarrow> storyline result" where
  "setStoryDepth depth = on_slock (sl_setStoryDepth (uint depth))"

subsection \<open>Walks\<close>

text \<open>The body of a loop gives the new state and whether the loop breaks.\<close>

type_synonym 's body = "addr \<Rightarrow> information \<Rightarrow> 's \<Rightarrow> 's \<times> bool"

partial_function (option) walk_loop :: "'s body \<Rightarrow> heap \<Rightarrow> 's \<Rightarrow> addr option \<Rightarrow> 's result option" where
  "walk_loop body h s p =
     (case p of
        None \<Rightarrow> Some (Inr s)
      | Some a \<Rightarrow>
          (case h a of
             None \<Rightarrow> Some (Inl Dangling)
           | Some i \<Rightarrow> (case body a i s of (s', stop) \<Rightarrow> if stop then Some (Inr s') else walk_loop body h s' (i_next i))))"

declare walk_loop.simps [code]

definition walk :: "'s body \<Rightarrow> heap \<Rightarrow> 's \<Rightarrow> addr option \<Rightarrow> 's result" where
  "walk body h s p = (case walk_loop body h s p of None \<Rightarrow> Inl NoReturn | Some r \<Rightarrow> r)"

subsection \<open>The walks of a map\<close>

text \<open>
  What the walks of a secondary index rely on: whether the map is one, its index number,
  \<open>readValue\<close>, which loads the data of a version from its file, and whether the key that
  \<open>KeyBuilder::fillKey\<close> takes out of the data compares equal to the key asked for.
\<close>

record key_env =
  ke_secondary :: bool
  ke_indexValue :: int
  ke_readValue :: "information \<Rightarrow> information"
  ke_sameKey :: "ubytetype list option \<Rightarrow> bool"

definition loaded :: "key_env \<Rightarrow> information \<Rightarrow> information" where
  "loaded env i = (if i_data i = None then ke_readValue env i else i)"

definition check_key :: "key_env \<Rightarrow> addr option \<Rightarrow> addr option \<Rightarrow> heap \<Rightarrow> (addr option \<times> heap) result" where
  "check_key env topinfo curinfo h =
     (case curinfo of
        None \<Rightarrow> Inr (None, h)
      | Some c \<Rightarrow>
          if ke_secondary env \<and> curinfo \<noteq> topinfo
          then rbind (deref h curinfo) (\<lambda>i.
                 let i' = loaded env i in Inr (if ke_sameKey env (i_data i') then curinfo else None, h(c \<mapsto> i')))
          else Inr (curinfo, h))"

definition isolatedStoryline :: "heap \<Rightarrow> addr option \<Rightarrow> addr option \<Rightarrow> bool result" where
  "isolatedStoryline h topinfo curinfo =
     (if topinfo = curinfo then Inr True
      else walk (\<lambda>a i found. if getUpdating i then (found, True) else if i_next i = curinfo then (True, True) else (found, False))
             h (curinfo = None) topinfo)"

definition isolateCompressed :: "heap \<Rightarrow> addr option \<Rightarrow> addr option \<Rightarrow> addr option result" where
  "isolateCompressed h orginfo topinfo =
     walk (\<lambda>a i cur. (if getCompressed i \<and> getLevel i = LEVEL_COMMIT then Some a else cur, getUpdating i \<or> Some a = topinfo))
       h None orginfo"

text \<open>The flags \<open>divergent\<close> and \<open>ignore\<close> are out parameters that may be null.\<close>

definition checkpoint_body :: "key_env \<Rightarrow> heap \<Rightarrow> uinttype \<Rightarrow> ((addr option \<times> bool option) result) body" where
  "checkpoint_body env h viewpoint a i s =
     (case s of
        Inl e \<Rightarrow> (Inl e, True)
      | Inr (cur, ignore) \<Rightarrow>
          if getLevel i \<noteq> LEVEL_COMMIT then (s, True)
          else
            (case (if ignore = Some True \<and> getViewpoint i \<ge> viewpoint
                   then rbind (getIndexed (ke_indexValue env) i) (\<lambda>b. Inr (if b then Some False else ignore))
                   else Inr ignore) of
               Inl e \<Rightarrow> (Inl e, True)
             | Inr ignore' \<Rightarrow>
                 (if getViewpoint i \<le> viewpoint
                  then
                    (case cur of
                       None \<Rightarrow> Inr (Some a, ignore')
                     | Some c \<Rightarrow>
                         rbind (deref h cur) (\<lambda>ci.
                           Inr (if getViewpoint i \<ge> getViewpoint ci then Some a else cur, ignore')))
                  else Inr (cur, ignore'), False)))"

definition drop_checkpoint :: "bool \<Rightarrow> bool \<Rightarrow> addr option \<times> bool option \<Rightarrow> addr option \<times> bool option" where
  "drop_checkpoint test viewlimit s =
     (if test then (if viewlimit then None else fst s, if snd s \<noteq> None then Some False else None) else s)"

definition isolateCheckpoint ::
    "key_env \<Rightarrow> heap \<Rightarrow> addr option \<Rightarrow> uinttype \<Rightarrow> bool option \<Rightarrow> bool option \<Rightarrow> bool \<Rightarrow>
     (addr option \<times> bool option \<times> bool option \<times> heap) result" where
  "isolateCheckpoint env h topinfo viewpoint divergent ignore viewlimit =
     rbind (walk (checkpoint_body env h viewpoint) h (Inr (None, ignore)) topinfo) (\<lambda>r.
     rbind r (\<lambda>s1.
     rbind (case fst s1 of
              None \<Rightarrow> Inr s1
            | Some c \<Rightarrow>
                rbind (deref h (Some c)) (\<lambda>ci.
                rbind (case i_next ci of None \<Rightarrow> Inr True | Some n \<Rightarrow> rbind (deref h (Some n)) (\<lambda>ni. Inr (getLevel ni \<noteq> LEVEL_COMMIT))) (\<lambda>ended.
                  Inr (drop_checkpoint (getDeleting ci \<and> ended \<and> getViewLimit ci = 0) viewlimit s1)))) (\<lambda>s2.
     rbind (case fst s2 of
              None \<Rightarrow> Inr s2
            | Some c \<Rightarrow>
                rbind (deref h (Some c)) (\<lambda>ci.
                  Inr (drop_checkpoint (getViewLimit ci > 0 \<and> viewpoint > getViewLimit ci) viewlimit s2))) (\<lambda>s3.
     rbind (check_key env topinfo (fst s3) h) (\<lambda>(cur, h').
       let missed = (fst s3 \<noteq> None \<and> cur = None) in
       Inr (cur, if missed \<and> divergent \<noteq> None then Some True else divergent,
            if missed \<and> snd s3 \<noteq> None then Some False else snd s3, h'))))))"

text \<open>The last version at a level, as far as the links of that level go.\<close>

definition level_body :: "int \<Rightarrow> addr option body" where
  "level_body level a i cur = (if getLevel i \<noteq> level \<or> getUpdating i then (cur, True) else (Some a, False))"

definition isolateLevel :: "heap \<Rightarrow> addr option \<Rightarrow> int \<Rightarrow> addr option result" where
  "isolateLevel h topinfo level = walk (level_body level) h topinfo topinfo"

definition isolateLevelKey :: "key_env \<Rightarrow> heap \<Rightarrow> addr option \<Rightarrow> int \<Rightarrow> (addr option \<times> heap) result" where
  "isolateLevelKey env h topinfo level =
     rbind (walk (level_body level) h topinfo topinfo) (\<lambda>cur. check_key env topinfo cur h)"

text \<open>
  \<open>isolateInterspace\<close> then looks, when the key of the version it found differs, for an indexed
  version before it that has the key.
\<close>

definition interspace_body :: "key_env \<Rightarrow> addr option \<Rightarrow> ((bool \<times> heap) result) body" where
  "interspace_body env curinfo a i s =
     (case s of
        Inl e \<Rightarrow> (Inl e, True)
      | Inr (found, h) \<Rightarrow>
          if Some a = curinfo then (s, True)
          else
            (case getIndexed (ke_indexValue env) i of
               Inl e \<Rightarrow> (Inl e, True)
             | Inr False \<Rightarrow> (s, False)
             | Inr True \<Rightarrow>
                 let i' = loaded env i; h' = h(a \<mapsto> i') in
                 if ke_sameKey env (i_data i') then (Inr (True, h'), True) else (Inr (found, h'), False)))"

definition isolateInterspace ::
    "key_env \<Rightarrow> heap \<Rightarrow> addr option \<Rightarrow> int \<Rightarrow> bool option \<Rightarrow> (addr option \<times> bool option \<times> heap) result" where
  "isolateInterspace env h topinfo level divergent =
     rbind (walk (level_body level) h topinfo topinfo) (\<lambda>last_at.
     rbind (check_key env topinfo last_at h) (\<lambda>(cur, h').
       if last_at \<noteq> None \<and> cur = None \<and> divergent = Some False
       then rbind (walk (interspace_body env last_at) h' (Inr (False, h')) topinfo) (\<lambda>r.
              rbind r (\<lambda>(found, h''). Inr (None, Some found, h'')))
       else Inr (cur, divergent, h')))"

definition isolateInformationLocality :: "heap \<Rightarrow> addr option \<Rightarrow> addr option result" where
  "isolateInformationLocality h topinfo =
     walk (\<lambda>a i cur.
       (if getLevel i = LEVEL_COMMIT \<or> (getLevel i \<noteq> LEVEL_COMMIT \<and> i_filePosition i \<noteq> 0) then Some a else cur, getUpdating i))
       h None topinfo"

text \<open>The last version above the committed ones.\<close>

definition active_body :: "addr option body" where
  "active_body a i cur = (if getLevel i > LEVEL_COMMIT then Some a else cur, getUpdating i)"

definition isolateActive :: "heap \<Rightarrow> addr option \<Rightarrow> addr option result" where
  "isolateActive h topinfo = walk active_body h None topinfo"

definition isolateActiveFirst :: "heap \<Rightarrow> addr option \<Rightarrow> bool \<Rightarrow> addr option result" where
  "isolateActiveFirst h topinfo first =
     rbind (isolateActive h topinfo) (\<lambda>cur. Inr (if cur = None \<and> first then topinfo else cur))"

text \<open>The version whose link leads to a given one.\<close>

definition before_body :: "addr option \<Rightarrow> addr option body" where
  "before_body curinfo a i topinfo = (Some a, getUpdating i \<or> i_next i = curinfo)"

definition isolateBefore :: "heap \<Rightarrow> addr option \<Rightarrow> addr option \<Rightarrow> addr option result" where
  "isolateBefore h topinfo curinfo = walk (before_body curinfo) h topinfo topinfo"

text \<open>The committed version that a viewpoint sees.\<close>

definition view_body :: "uinttype \<Rightarrow> addr option body" where
  "view_body viewpoint a i cur =
     (if getLevel i \<noteq> LEVEL_COMMIT then (cur, True) else (if hasViewpoint viewpoint i then Some a else cur, getUpdating i))"

definition isolateView :: "key_env \<Rightarrow> heap \<Rightarrow> addr option \<Rightarrow> uinttype \<Rightarrow> (addr option \<times> heap) result" where
  "isolateView env h topinfo viewpoint = rbind (walk (view_body viewpoint) h None topinfo) (\<lambda>cur. check_key env topinfo cur h)"

text \<open>The version a transaction starts from: \<open>owned\<close> when it holds the lock of the story line.\<close>

datatype isolation = SERIALIZABLE | REPEATABLE | SNAPSHOT | COMMITTED | UNCOMMITTED

fun isolation_value :: "isolation \<Rightarrow> nat" where
  "isolation_value SERIALIZABLE = 0"
| "isolation_value REPEATABLE = 1"
| "isolation_value SNAPSHOT = 2"
| "isolation_value COMMITTED = 3"
| "isolation_value UNCOMMITTED = 4"

definition reader_body :: "key_env \<Rightarrow> int \<Rightarrow> uinttype \<Rightarrow> isolation \<Rightarrow> bool \<Rightarrow> addr option body" where
  "reader_body env level viewpoint mode owned a i cur =
     (if getLevel i \<noteq> level \<and> \<not> (ke_secondary env \<and> owned) then (cur, True)
      else
        let cur' = (if getLevel i \<noteq> level then Some a else cur) in
        if getUpdating i then (cur', True)
        else if mode = REPEATABLE \<and> \<not> owned \<and> getViewpoint i > viewpoint then (cur', True)
        else (Some a, False))"

definition isolateReader ::
    "key_env \<Rightarrow> heap \<Rightarrow> storyline \<Rightarrow> addr option \<Rightarrow> int \<Rightarrow> uinttype \<Rightarrow> isolation \<Rightarrow> 16 word \<Rightarrow> (addr option \<times> heap) result" where
  "isolateReader env h storyLine topinfo level viewpoint mode tid =
     rbind (walk (reader_body env level viewpoint mode (getLockIdentifier storyLine = tid)) h topinfo topinfo) (\<lambda>cur.
       check_key env topinfo cur h)"

subsection \<open>Lines of versions\<close>

text \<open>The links from \<open>p\<close> lead through the versions \<open>xs\<close> to \<open>q\<close>.\<close>

fun line :: "heap \<Rightarrow> addr option \<Rightarrow> addr list \<Rightarrow> addr option \<Rightarrow> bool" where
  "line h p [] q \<longleftrightarrow> p = q"
| "line h p (x # xs) q \<longleftrightarrow> p = Some x \<and> (\<exists>i. h x = Some i \<and> line h (i_next i) xs q)"

text \<open>What a body does over a list of versions.\<close>

fun scan :: "'s body \<Rightarrow> heap \<Rightarrow> 's \<Rightarrow> addr list \<Rightarrow> 's \<times> bool" where
  "scan body h s [] = (s, False)"
| "scan body h s (x # xs) = (case body x (the (h x)) s of (s', stop) \<Rightarrow> if stop then (s', True) else scan body h s' xs)"

lemma line_append [simp]: "line h p (xs @ ys) q \<longleftrightarrow> (\<exists>r. line h p xs r \<and> line h r ys q)"
  by (induction xs arbitrary: p) auto

lemma line_cong: "line h p xs q \<Longrightarrow> (\<And>x. x \<in> set xs \<Longrightarrow> \<exists>i. h' x = Some i \<and> i_next i = i_next (the (h x))) \<Longrightarrow> line h' p xs q"
  by (induction xs arbitrary: p) fastforce+

lemma line_upd [simp]: "u \<notin> set xs \<Longrightarrow> line (h(u := v)) p xs q = line h p xs q"
  by (induction xs arbitrary: p) auto

lemma line_present: "line h p xs q \<Longrightarrow> x \<in> set xs \<Longrightarrow> \<exists>i. h x = Some i"
  by (induction xs arbitrary: p) auto

lemma line_None [simp]: "line h None xs q \<longleftrightarrow> xs = [] \<and> q = None"
  by (cases xs) auto

lemma scan_append: "scan body h s (xs @ ys) = (case scan body h s xs of (s', stop) \<Rightarrow> if stop then (s', True) else scan body h s' ys)"
  by (induction xs arbitrary: s) (auto split: prod.splits)

lemma walk_None [simp]: "walk body h s None = Inr s"
  by (simp add: walk_def walk_loop.simps)

lemma walk_Some:
  "h a = Some i \<Longrightarrow> walk body h s (Some a) = (case body a i s of (s', stop) \<Rightarrow> if stop then Inr s' else walk body h s' (i_next i))"
  by (subst walk_def, subst walk_loop.simps) (auto simp: walk_def split: prod.splits)

theorem walk_line:
  "line h p xs q \<Longrightarrow> walk body h s p = (case scan body h s xs of (s', stop) \<Rightarrow> if stop then Inr s' else walk body h s' q)"
  by (induction xs arbitrary: p s) (auto simp: walk_Some split: prod.splits)

subsection \<open>Committed lines\<close>

definition committed_at :: "heap \<Rightarrow> addr \<Rightarrow> bool" where
  "committed_at h x \<longleftrightarrow> (\<exists>i. h x = Some i \<and> getLevel i = LEVEL_COMMIT \<and> \<not> getUpdating i)"

lemma committed_atD:
  assumes "committed_at h x"
  shows "h x \<noteq> None" "getLevel (the (h x)) = LEVEL_COMMIT" "\<not> getUpdating (the (h x))"
  using assms by (auto simp: committed_at_def)

text \<open>The line ends, or goes on with a version that is not committed.\<close>

definition ends_commit :: "heap \<Rightarrow> addr option \<Rightarrow> bool" where
  "ends_commit h q \<longleftrightarrow> (\<forall>a. q = Some a \<longrightarrow> (\<exists>i. h a = Some i \<and> getLevel i \<noteq> LEVEL_COMMIT))"

definition committed_line :: "heap \<Rightarrow> addr option \<Rightarrow> addr list \<Rightarrow> addr option \<Rightarrow> bool" where
  "committed_line h p xs q \<longleftrightarrow> line h p xs q \<and> (\<forall>x \<in> set xs. committed_at h x) \<and> ends_commit h q"

lemma committed_lineD:
  assumes "committed_line h p xs q"
  shows "line h p xs q" "\<And>x. x \<in> set xs \<Longrightarrow> committed_at h x" "ends_commit h q"
  using assms by (auto simp: committed_line_def)

lemma committed_line_top: "committed_line h p xs q \<Longrightarrow> xs \<noteq> [] \<Longrightarrow> p = Some (hd xs)"
  by (cases xs) (auto simp: committed_line_def)

text \<open>Where a walk over a committed line may end: a body that breaks at an uncommitted version ends there.\<close>

lemma walk_committed:
  assumes "committed_line h p xs q" "\<And>a i s. getLevel i \<noteq> LEVEL_COMMIT \<Longrightarrow> body a i s = (s, True)"
  shows "walk body h s p = Inr (fst (scan body h s xs))"
proof -
  have "walk body h s' q = Inr s'" for s'
    using assms by (cases q) (auto simp: committed_line_def ends_commit_def walk_Some)
  then show ?thesis using walk_line [OF committed_lineD(1) [OF assms(1)], of body s] by (simp split: prod.splits)
qed

lemma scan_level:
  "(\<And>x. x \<in> set xs \<Longrightarrow> committed_at h x) \<Longrightarrow> scan (level_body LEVEL_COMMIT) h s xs = (if xs = [] then s else Some (last xs), False)"
  by (induction xs arbitrary: s) (auto simp: level_body_def committed_atD)

lemma isolateLevel_committed:
  assumes "committed_line h p xs q" "xs \<noteq> []"
  shows "isolateLevel h p LEVEL_COMMIT = Inr (Some (last xs))"
proof -
  have "walk (level_body LEVEL_COMMIT) h p p = Inr (fst (scan (level_body LEVEL_COMMIT) h p xs))"
    by (rule walk_committed [OF assms(1)]) (simp add: level_body_def)
  then show ?thesis using assms(2) scan_level [of xs h p] committed_lineD(2) [OF assms(1)] by (simp add: isolateLevel_def)
qed

text \<open>The last version of a list with a property.\<close>

definition last_with :: "(addr \<Rightarrow> bool) \<Rightarrow> addr list \<Rightarrow> addr option" where
  "last_with P xs = List.find P (rev xs)"

lemma last_with_append [simp]: "last_with P (xs @ [x]) = (if P x then Some x else last_with P xs)"
  by (simp add: last_with_def)

lemma last_with_Nil [simp]: "last_with P [] = None"
  by (simp add: last_with_def)

lemma last_with_Some: "last_with P xs = Some x \<Longrightarrow> x \<in> set xs \<and> P x"
  by (induction xs rule: rev_induct) (auto split: if_splits)

lemma last_with_None: "last_with P xs = None \<longleftrightarrow> (\<forall>x \<in> set xs. \<not> P x)"
  by (auto simp: last_with_def find_None_iff)

lemma last_with_cong: "(\<And>x. x \<in> set xs \<Longrightarrow> P x = Q x) \<Longrightarrow> last_with P xs = last_with Q xs"
  unfolding last_with_def by (rule find_cong) auto

lemma last_with_unique:
  assumes "x \<in> set xs" "P x" "\<And>y. y \<in> set xs \<Longrightarrow> P y \<Longrightarrow> y = x"
  shows "last_with P xs = Some x"
proof (cases "last_with P xs")
  case None
  then show ?thesis using assms(1,2) unfolding last_with_None by blast
next
  case (Some y)
  then have "y = x" by (intro assms(3)) (simp_all add: last_with_Some)
  then show ?thesis using Some by simp
qed

definition sees :: "heap \<Rightarrow> uinttype \<Rightarrow> addr \<Rightarrow> bool" where
  "sees h v x \<longleftrightarrow> hasViewpoint v (the (h x))"

lemma scan_view:
  "(\<And>x. x \<in> set xs \<Longrightarrow> committed_at h x) \<Longrightarrow>
     scan (view_body v) h s xs = (case last_with (sees h v) xs of None \<Rightarrow> s | Some x \<Rightarrow> Some x, False)"
proof (induction xs rule: rev_induct)
  case (snoc x xs)
  then show ?case by (simp add: scan_append view_body_def committed_atD sees_def split: option.splits)
qed simp

lemma isolateView_committed:
  assumes "committed_line h p xs q" "\<not> ke_secondary env"
  shows "isolateView env h p v = Inr (last_with (sees h v) xs, h)"
proof -
  have "walk (view_body v) h None p = Inr (fst (scan (view_body v) h None xs))"
    by (rule walk_committed [OF assms(1)]) (simp add: view_body_def)
  then show ?thesis using scan_view [of xs h v None] committed_lineD(2) [OF assms(1)] assms(2)
    by (simp add: isolateView_def check_key_def split: option.splits)
qed

text \<open>A repeatable reader that does not own the line goes on while the versions are not newer than its viewpoint.\<close>

definition old_enough :: "heap \<Rightarrow> uinttype \<Rightarrow> addr \<Rightarrow> bool" where
  "old_enough h v x \<longleftrightarrow> getViewpoint (the (h x)) \<le> v"

lemma scan_reader:
  "(\<And>x. x \<in> set xs \<Longrightarrow> committed_at h x) \<Longrightarrow>
     fst (scan (reader_body env LEVEL_COMMIT v REPEATABLE False) h s xs) =
     (let ys = takeWhile (old_enough h v) xs in if ys = [] then s else Some (last ys))"
  by (induction xs arbitrary: s) (auto simp: reader_body_def committed_atD old_enough_def Let_def not_less)

lemma isolateReader_repeatable:
  assumes "committed_line h p xs q" "xs \<noteq> []" "\<not> ke_secondary env" "getLockIdentifier st \<noteq> tid"
  shows "isolateReader env h st p LEVEL_COMMIT v REPEATABLE tid =
    Inr (Some (if takeWhile (old_enough h v) xs = [] then hd xs else last (takeWhile (old_enough h v) xs)), h)"
proof -
  have "walk (reader_body env LEVEL_COMMIT v REPEATABLE False) h p p = Inr (fst (scan (reader_body env LEVEL_COMMIT v REPEATABLE False) h p xs))"
    by (rule walk_committed [OF assms(1)]) (simp add: reader_body_def assms(3))
  then show ?thesis using scan_reader [of xs h env v p] committed_lineD(2) [OF assms(1)] assms committed_line_top [OF assms(1,2)]
    by (simp add: isolateReader_def check_key_def Let_def)
qed

end
