(* ===== verification/TransactionSystem.thy ===== *)
theory TransactionSystem
  imports StoryLine
begin

section \<open>Transactions\<close>

text \<open>
  The class \<open>Transaction\<close> of \<^verbatim>\<open>src/ENGINE/service/src/main/native/com/deepis/db/store/relative/core/Transaction.h\<close>: the table of the live
  transactions, their identifiers, sequence numbers and viewpoints, and the row locks they share.
  The code sections under \<open>s_transactionLock\<close> or the lock of a story line are single steps.
  \<open>s_transactions\<close> and \<open>s_sequences\<close> are arrays of \<open>DEFAULT_TRANSACTION_SIZE\<close> slots that are only read
  at identifiers of transactions; they are total functions here, so an object \<open>Transaction\<close> exists exactly
  while its slot holds it. A row lock (\<open>StoryLock\<close>) is named by a number; the hash set of read locks of a
  transaction is a list without repetitions, whose order only decides in which order independent
  locks are given back.
\<close>

subsection \<open>Data\<close>

definition DEFAULT_TRANSACTION_SIZE :: nat where
  "DEFAULT_TRANSACTION_SIZE = 10240"

definition DEFAULT_TRANSACTION_RETRY :: nat where
  "DEFAULT_TRANSACTION_RETRY = 2"

definition DEFAULT_TRANSACTION_INFINITE :: nat where
  "DEFAULT_TRANSACTION_INFINITE = 64"

type_synonym txid = nat
type_synonym lockid = nat

record transaction =
  tx_identifier :: txid
  tx_isolation :: isolation
  tx_viewpoint :: uinttype
  tx_commitViewpoint :: uinttype
  tx_waitIdentifier :: txid
  tx_sequence :: uinttype
  tx_retry :: nat
  tx_level :: int
  tx_readLockSet :: "lockid list"
  tx_wait :: bool
  tx_dirty :: bool
  tx_large :: bool
  tx_purge :: bool
  tx_fill :: bool
  tx_roll :: bool
  tx_rollWait :: bool

record tx_system =
  s_theIdentifier :: txid
  s_maxIdentifier :: txid
  s_viewpointMinimum :: uinttype
  s_viewpointSequence :: uinttype
  s_isolation :: isolation
  s_sequences :: "txid \<Rightarrow> uinttype"
  s_transactions :: "txid \<Rightarrow> transaction option"
  s_locks :: "lockid \<Rightarrow> story_lock"

definition initial_system :: tx_system where
  "initial_system =
     \<lparr>s_theIdentifier = 0, s_maxIdentifier = 0, s_viewpointMinimum = 0, s_viewpointSequence = 0, s_isolation = COMMITTED,
      s_sequences = (\<lambda>_. 0), s_transactions = (\<lambda>_. None), s_locks = (\<lambda>_. sl_new)\<rparr>"

definition get_tx :: "txid \<Rightarrow> tx_system \<Rightarrow> transaction result" where
  "get_tx t s = (case s_transactions s t of None \<Rightarrow> Inl NullDeref | Some tx \<Rightarrow> Inr tx)"

definition set_tx :: "transaction \<Rightarrow> tx_system \<Rightarrow> tx_system" where
  "set_tx tx s = s\<lparr>s_transactions := (s_transactions s)(tx_identifier tx \<mapsto> tx)\<rparr>"

definition set_lock :: "lockid \<Rightarrow> story_lock \<Rightarrow> tx_system \<Rightarrow> tx_system" where
  "set_lock l x s = s\<lparr>s_locks := (s_locks s)(l := x)\<rparr>"

subsection \<open>Viewpoints\<close>

definition viewing :: "uinttype \<Rightarrow> tx_system \<Rightarrow> bool" where
  "viewing viewlimit s \<longleftrightarrow> viewlimit \<noteq> 0 \<and> s_viewpointMinimum s \<noteq> 0 \<and> viewlimit \<ge> s_viewpointMinimum s"

definition getCurrentViewpoint :: "tx_system \<Rightarrow> uinttype" where
  "getCurrentViewpoint s = s_viewpointSequence s"

definition getNextViewpoint :: "tx_system \<Rightarrow> uinttype \<times> tx_system" where
  "getNextViewpoint s =
     (let viewpoint = s_viewpointSequence s + 1 in
      (viewpoint,
       s\<lparr>s_viewpointSequence := viewpoint,
         s_viewpointMinimum := (if s_viewpointMinimum s = 0 then viewpoint else s_viewpointMinimum s)\<rparr>))"

text \<open>The loop of \<open>minimum\<close> over the slots \<open>0 .. s_maxIdentifier\<close>.\<close>

definition smaller_viewpoint :: "tx_system \<Rightarrow> uinttype \<Rightarrow> txid \<Rightarrow> uinttype" where
  "smaller_viewpoint s viewpoint i =
     (case s_transactions s i of
        None \<Rightarrow> viewpoint
      | Some tx \<Rightarrow>
          if tx_viewpoint tx = 0 then viewpoint
          else if viewpoint = 0 \<or> viewpoint > tx_viewpoint tx then tx_viewpoint tx else viewpoint)"

definition minimum :: "tx_system \<Rightarrow> tx_system" where
  "minimum s = s\<lparr>s_viewpointMinimum := foldl (smaller_viewpoint s) 0 [0..<s_maxIdentifier s + 1]\<rparr>"

subsection \<open>Sequence numbers and the end of a transaction\<close>

definition next_sequence :: "uinttype \<Rightarrow> uinttype" where
  "next_sequence n = (if n + 1 = 0 then n + 2 else n + 1)"

definition signal :: "transaction \<Rightarrow> tx_system \<Rightarrow> tx_system" where
  "signal tx s =
     (let n = next_sequence (tx_sequence tx) in
      set_tx (tx\<lparr>tx_sequence := n, tx_wait := False\<rparr>) (s\<lparr>s_sequences := (s_sequences s)(tx_identifier tx := n)\<rparr>))"

definition setDirty :: "bool \<Rightarrow> transaction \<Rightarrow> tx_system \<Rightarrow> tx_system" where
  "setDirty dirty tx s =
     (if dirty then set_tx (tx\<lparr>tx_dirty := True\<rparr>) s
      else
        signal
          (tx\<lparr>tx_dirty := False, tx_viewpoint := 0, tx_commitViewpoint := 0, tx_large := False, tx_purge := False,
             tx_fill := False, tx_level := - 1, tx_retry := 0, tx_rollWait := False\<rparr>) s)"

definition tx_release :: "transaction \<Rightarrow> transaction" where
  "tx_release tx = tx\<lparr>tx_waitIdentifier := 0, tx_retry := 0\<rparr>"

subsection \<open>Creation and destruction\<close>

text \<open>
  The search for a free slot goes round the table; after each round of \<open>DEFAULT_TRANSACTION_SIZE\<close> tries it
  sleeps with \<open>s_transactionLock\<close> released and goes on. It does not return while no slot becomes free.
\<close>

definition next_identifier :: "txid \<Rightarrow> txid" where
  "next_identifier n = (if n + 1 \<ge> DEFAULT_TRANSACTION_SIZE then 1 else n + 1)"

partial_function (option) find_slot :: "(txid \<Rightarrow> transaction option) \<Rightarrow> txid \<Rightarrow> txid option" where
  "find_slot slots n = (let n' = next_identifier n in if slots n' = None then Some n' else find_slot slots n')"

declare find_slot.simps [code]

definition tx_new :: "txid \<Rightarrow> uinttype \<Rightarrow> isolation \<Rightarrow> transaction" where
  "tx_new identifier sequence mode =
     \<lparr>tx_identifier = identifier, tx_isolation = mode, tx_viewpoint = 0, tx_commitViewpoint = 0, tx_waitIdentifier = 0,
      tx_sequence = sequence, tx_retry = 0, tx_level = - 1, tx_readLockSet = [], tx_wait = False, tx_dirty = False,
      tx_large = False, tx_purge = False, tx_fill = False, tx_roll = False, tx_rollWait = False\<rparr>"

definition create :: "tx_system \<Rightarrow> (txid \<times> tx_system) result" where
  "create s =
     (case find_slot (s_transactions s) (s_theIdentifier s) of
        None \<Rightarrow> Inl NoReturn
      | Some n \<Rightarrow>
          let s1 = s\<lparr>s_theIdentifier := n, s_maxIdentifier := (if n > s_maxIdentifier s then n else s_maxIdentifier s)\<rparr> in
          Inr (n, setDirty False (tx_new n (s_sequences s1 n) (s_isolation s1)) s1))"

text \<open>The loop of \<open>destroy\<close> lowers \<open>s_theIdentifier\<close> below the free slots and finds the largest identifier left.\<close>

definition destroy_slot :: "(txid \<Rightarrow> transaction option) \<Rightarrow> txid \<times> txid \<Rightarrow> txid \<Rightarrow> txid \<times> txid" where
  "destroy_slot slots ids i =
     (case slots i of
        None \<Rightarrow> (if i < fst ids then (if i = 0 then 0 else i - 1) else fst ids, snd ids)
      | Some _ \<Rightarrow> (fst ids, if i > snd ids then i else snd ids))"

definition destroy :: "txid \<Rightarrow> tx_system \<Rightarrow> tx_system result" where
  "destroy t s =
     rbind (get_tx t s) (\<lambda>tx.
       if tx_dirty tx then Inl (Thrown ''Invalid transaction: content not committed'')
       else
         let slots = (s_transactions s)(t := None);
             ids = foldl (destroy_slot slots) (s_theIdentifier s, 0) [0..<s_maxIdentifier s + 1] in
         Inr (s\<lparr>s_transactions := slots, s_sequences := (s_sequences s)(t := next_sequence (tx_sequence tx)),
                s_theIdentifier := fst ids, s_maxIdentifier := snd ids\<rparr>))"

text \<open>\<open>begin\<close>: the viewpoint is drawn under \<open>s_transactionLock\<close> and stored after it is released.\<close>

definition begin_store :: "uinttype \<Rightarrow> transaction \<Rightarrow> transaction" where
  "begin_store viewpoint tx = tx\<lparr>tx_viewpoint := viewpoint\<rparr>"

definition begin_level :: "transaction \<Rightarrow> int \<times> transaction" where
  "begin_level tx = (if tx_level tx + 1 = - 1 then (- 1, tx) else (tx_level tx + 1, tx\<lparr>tx_level := tx_level tx + 1\<rparr>))"

definition tx_begin :: "txid \<Rightarrow> tx_system \<Rightarrow> (int \<times> tx_system) result" where
  "tx_begin t s =
     rbind (get_tx t s) (\<lambda>tx.
       let (tx1, s1) = (if tx_viewpoint tx = 0 then (case getNextViewpoint s of (v, s') \<Rightarrow> (begin_store v tx, s')) else (tx, s));
           (level, tx2) = begin_level tx1 in
       Inr (level, set_tx tx2 s1))"

subsection \<open>The table of transactions\<close>

named_theorems tx_simps \<open>the fields of the system after an operation\<close>

lemma set_tx_fields [tx_simps]:
  "s_transactions (set_tx tx s) = (s_transactions s)(tx_identifier tx \<mapsto> tx)" "s_locks (set_tx tx s) = s_locks s"
  "s_sequences (set_tx tx s) = s_sequences s" "s_theIdentifier (set_tx tx s) = s_theIdentifier s"
  "s_maxIdentifier (set_tx tx s) = s_maxIdentifier s" "s_viewpointMinimum (set_tx tx s) = s_viewpointMinimum s"
  "s_viewpointSequence (set_tx tx s) = s_viewpointSequence s" "s_isolation (set_tx tx s) = s_isolation s"
  by (simp_all add: set_tx_def)

lemma set_lock_fields [tx_simps]:
  "s_locks (set_lock l x s) = (s_locks s)(l := x)" "s_transactions (set_lock l x s) = s_transactions s"
  "s_sequences (set_lock l x s) = s_sequences s" "s_theIdentifier (set_lock l x s) = s_theIdentifier s"
  "s_maxIdentifier (set_lock l x s) = s_maxIdentifier s" "s_viewpointMinimum (set_lock l x s) = s_viewpointMinimum s"
  "s_viewpointSequence (set_lock l x s) = s_viewpointSequence s"
  by (simp_all add: set_lock_def)

lemma next_sequence_nonzero: "next_sequence n \<noteq> 0 \<and> next_sequence n \<noteq> n"
proof -
  have "n + 1 = 0 \<Longrightarrow> n = - 1" by (simp add: eq_neg_iff_add_eq_0)
  then show ?thesis by (auto simp: next_sequence_def)
qed

lemma find_slot_pow:
  "slots ((next_identifier ^^ Suc d) m) = None \<Longrightarrow>
     \<exists>n. find_slot slots m = Some n \<and> slots n = None \<and> 1 \<le> n \<and> n < DEFAULT_TRANSACTION_SIZE"
proof (induction d arbitrary: m)
  case 0
  then show ?case by (subst find_slot.simps) (auto simp: Let_def next_identifier_def DEFAULT_TRANSACTION_SIZE_def)
next
  case (Suc d)
  have "slots ((next_identifier ^^ Suc d) (next_identifier m)) = None" using Suc.prems by (simp add: funpow_swap1)
  from Suc.IH [OF this] show ?case
    by (subst find_slot.simps) (auto simp: Let_def next_identifier_def DEFAULT_TRANSACTION_SIZE_def)
qed

lemma next_identifier_pow: "m + d < DEFAULT_TRANSACTION_SIZE \<Longrightarrow> (next_identifier ^^ d) m = m + d"
  by (induction d) (auto simp: next_identifier_def)

lemma next_identifier_reaches:
  assumes "1 \<le> k" "k < DEFAULT_TRANSACTION_SIZE"
  shows "\<exists>d. (next_identifier ^^ Suc d) m = k"
proof -
  have "\<exists>e. (next_identifier ^^ Suc e) m = 1"
  proof (cases "m < DEFAULT_TRANSACTION_SIZE")
    case True
    then have "(next_identifier ^^ (DEFAULT_TRANSACTION_SIZE - 1 - m)) m = DEFAULT_TRANSACTION_SIZE - 1"
      by (subst next_identifier_pow) auto
    then have "(next_identifier ^^ Suc (DEFAULT_TRANSACTION_SIZE - 1 - m)) m = 1"
      by (simp add: next_identifier_def DEFAULT_TRANSACTION_SIZE_def)
    then show ?thesis by blast
  next
    case False
    then have "(next_identifier ^^ Suc 0) m = 1" by (simp add: next_identifier_def)
    then show ?thesis by blast
  qed
  then obtain e where e: "(next_identifier ^^ Suc e) m = 1" by blast
  have "(next_identifier ^^ (k - 1)) 1 = k" using assms by (subst next_identifier_pow) auto
  then have "(next_identifier ^^ ((k - 1) + Suc e)) m = k" using e unfolding funpow_add comp_apply by simp
  moreover have "(k - 1) + Suc e = Suc (k - 1 + e)" by simp
  ultimately show ?thesis by metis
qed

lemma find_slot_total:
  assumes "1 \<le> k" "k < DEFAULT_TRANSACTION_SIZE" "slots k = None"
  shows "\<exists>n. find_slot slots m = Some n \<and> slots n = None \<and> 1 \<le> n \<and> n < DEFAULT_TRANSACTION_SIZE"
  using find_slot_pow next_identifier_reaches [OF assms(1,2)] assms(3) by metis

lemma find_slot_fixed: "find_slot slots m = Some n \<Longrightarrow> slots n = None \<and> 1 \<le> n \<and> n < DEFAULT_TRANSACTION_SIZE"
proof (induction rule: find_slot.raw_induct [rotated 1, consumes 1])
  case (1 fs slots m n)
  then show ?case
    by (auto simp: Let_def next_identifier_def DEFAULT_TRANSACTION_SIZE_def split: if_splits)
qed

text \<open>\<open>create\<close> returns exactly if a slot is free.\<close>

lemma create_ok:
  "(\<forall>k \<in> {1..<DEFAULT_TRANSACTION_SIZE}. s_transactions s k \<noteq> None) \<Longrightarrow> create s = Inl NoReturn"
  "\<not> (\<forall>k \<in> {1..<DEFAULT_TRANSACTION_SIZE}. s_transactions s k \<noteq> None) \<Longrightarrow>
     \<exists>n s' tx. create s = Inr (n, s') \<and> 1 \<le> n \<and> n < DEFAULT_TRANSACTION_SIZE \<and> s_transactions s n = None \<and>
       s_transactions s' = (s_transactions s)(n \<mapsto> tx) \<and> tx_identifier tx = n \<and> tx_isolation tx = s_isolation s \<and>
       tx_viewpoint tx = 0 \<and> tx_sequence tx \<noteq> s_sequences s n"
proof -
  assume all: "\<forall>k \<in> {1..<DEFAULT_TRANSACTION_SIZE}. s_transactions s k \<noteq> None"
  have "find_slot (s_transactions s) (s_theIdentifier s) = None"
  proof (cases "find_slot (s_transactions s) (s_theIdentifier s)")
    case (Some n)
    then show ?thesis using find_slot_fixed [OF Some] bspec [OF all, of n] by simp
  qed
  then show "create s = Inl NoReturn" by (simp add: create_def)
next
  assume "\<not> (\<forall>k \<in> {1..<DEFAULT_TRANSACTION_SIZE}. s_transactions s k \<noteq> None)"
  then obtain k where "1 \<le> k" "k < DEFAULT_TRANSACTION_SIZE" "s_transactions s k = None" by auto
  then obtain n where n: "find_slot (s_transactions s) (s_theIdentifier s) = Some n" "s_transactions s n = None" "1 \<le> n"
    "n < DEFAULT_TRANSACTION_SIZE" using find_slot_total by blast
  then show "\<exists>n s' tx. create s = Inr (n, s') \<and> 1 \<le> n \<and> n < DEFAULT_TRANSACTION_SIZE \<and> s_transactions s n = None \<and>
       s_transactions s' = (s_transactions s)(n \<mapsto> tx) \<and> tx_identifier tx = n \<and> tx_isolation tx = s_isolation s \<and>
       tx_viewpoint tx = 0 \<and> tx_sequence tx \<noteq> s_sequences s n"
    using next_sequence_nonzero by (auto simp: create_def Let_def setDirty_def signal_def tx_simps tx_new_def)
qed

subsection \<open>The smallest viewpoint\<close>

lemma smaller_viewpoint_step:
  "smaller_viewpoint s v i =
     (case s_transactions s i of None \<Rightarrow> v | Some tx \<Rightarrow> if tx_viewpoint tx = 0 then v else if v = 0 then tx_viewpoint tx else min v (tx_viewpoint tx))"
  by (auto simp: smaller_viewpoint_def min_def split: option.splits)

definition viewpoints :: "tx_system \<Rightarrow> txid list \<Rightarrow> uinttype set" where
  "viewpoints s is = {tx_viewpoint tx |tx i. i \<in> set is \<and> s_transactions s i = Some tx \<and> tx_viewpoint tx \<noteq> 0}"

lemma foldl_smaller:
  "foldl (smaller_viewpoint s) 0 is = (if viewpoints s is = {} then 0 else Min (viewpoints s is)) \<and> finite (viewpoints s is)"
proof (induction "is" rule: rev_induct)
  case Nil
  then show ?case by (simp add: viewpoints_def)
next
  case (snoc i js)
  have split: "viewpoints s (js @ [i]) = viewpoints s js \<union> viewpoints s [i]" by (auto simp: viewpoints_def)
  have one: "viewpoints s [i] = (case s_transactions s i of None \<Rightarrow> {} | Some tx \<Rightarrow> if tx_viewpoint tx = 0 then {} else {tx_viewpoint tx})"
    by (auto simp: viewpoints_def split: option.splits)
  have nz: "0 \<notin> viewpoints s js" by (auto simp: viewpoints_def)
  have mn: "viewpoints s js \<noteq> {} \<Longrightarrow> Min (viewpoints s js) \<noteq> 0" using nz snoc Min_in by metis
  show ?case using snoc mn by (auto simp: split one smaller_viewpoint_step min.commute Min_insert split: option.splits)
qed

lemma minimum_value:
  "s_viewpointMinimum (minimum s) = (let V = viewpoints s [0..<s_maxIdentifier s + 1] in if V = {} then 0 else Min V)"
  using foldl_smaller [of s "[0..<s_maxIdentifier s + 1]"] by (simp add: minimum_def Let_def)

end
