(* ===== verification/RowLock.thy ===== *)
theory RowLock
  imports TransactionSystem
begin

section \<open>Row locks\<close>

text \<open>
  How transactions take and give back the lock of a row: \<open>checkAccessLock\<close> and \<open>checkCycleLock\<close> of
  \<^verbatim>\<open>src/ENGINE/service/src/main/native/com/deepis/db/store/relative/core/RealTimeMap.cxx\<close>, \<open>lockable\<close>, \<open>reassign\<close>, \<open>commit\<close> and \<open>rollback\<close> of
  \<^verbatim>\<open>core/Transaction.h\<close>. A lock that is shared counts its readers in the sequence half of its
  credentials and names one of them in the identifier half; a lock that is not shared holds the
  identifier and the sequence number of its writer, and is stale when that transaction has ended.
  The section of \<open>checkAccessLock\<close> between \<open>storyLine.lock()\<close> and \<open>storyLine.unlock()\<close> is the step
  \<open>acquire\<close>; waiting is an outcome. Segments and the reference counts of transactions are not part
  of the state.
\<close>

subsection \<open>Taking a lock\<close>

datatype lock_option = LOCK_NONE | LOCK_READ | LOCK_WRITE | LOCK_ROLL

datatype error_code = ERR_GENERAL | ERR_SUCCESS | ERR_DEADLOCK | ERR_NOT_FOUND | ERR_DUPLICATE | ERR_TIMEOUT

definition lock_identifier :: "story_lock \<Rightarrow> txid" where
  "lock_identifier x = unat (ucast (sl_getIdentifier x) :: 16 word)"

definition sl_incref :: "story_lock \<Rightarrow> story_lock" where
  "sl_incref x = x\<lparr>sl_refcnt := fst (incref (sl_refcnt x))\<rparr>"

definition sl_decref :: "story_lock \<Rightarrow> story_lock" where
  "sl_decref x = x\<lparr>sl_refcnt := fst (decref (sl_refcnt x))\<rparr>"

text \<open>\<open>lockable\<close> gives back a write lock whose transaction has ended.\<close>

definition lockable :: "story_lock \<Rightarrow> txid \<Rightarrow> bool \<Rightarrow> (txid \<Rightarrow> uinttype) \<Rightarrow> bool \<times> story_lock" where
  "lockable x t share seqs =
     (let identifier = lock_identifier x in
      if \<not> sl_share x
      then
        (if identifier \<noteq> 0 \<and> identifier \<noteq> t
         then (if sl_getSequence x \<noteq> seqs identifier then (True, sl_release x) else (False, x))
         else (True, x))
      else (\<not> (\<not> share \<or> identifier \<noteq> t), x))"

text \<open>\<open>itx->getReadLockSet()->remove(lock)\<close>, which drops a reference when the lock was there.\<close>

definition drop_read :: "lockid \<Rightarrow> transaction \<Rightarrow> story_lock \<Rightarrow> transaction \<times> story_lock" where
  "drop_read l tx x =
     (if l \<in> set (tx_readLockSet tx)
      then (tx\<lparr>tx_readLockSet := removeAll l (tx_readLockSet tx)\<rparr>, sl_decref x)
      else (tx, x))"

definition take_write :: "lockid \<Rightarrow> transaction \<Rightarrow> story_lock \<Rightarrow> transaction \<times> story_lock" where
  "take_write l tx x =
     (case drop_read l tx x of
        (tx', x') \<Rightarrow> (tx', sl_setCredentials (of_nat (tx_identifier tx)) (tx_sequence tx) (sl_setShare False x')))"

definition take_read :: "lockid \<Rightarrow> transaction \<Rightarrow> story_lock \<Rightarrow> transaction \<times> story_lock" where
  "take_read l tx x =
     (if l \<in> set (tx_readLockSet tx) then (tx, x)
      else
        let tx' = tx\<lparr>tx_readLockSet := tx_readLockSet tx @ [l], tx_dirty := True\<rparr>;
            (n, x') = sl_incrementSequence (sl_incref x) in
        (tx', if n = 1 then sl_setCredentials (of_nat (tx_identifier tx)) (sl_getSequence x') x' else x'))"

definition acquire_read :: "lockid \<Rightarrow> bool \<Rightarrow> bool \<Rightarrow> transaction \<Rightarrow> story_lock \<Rightarrow> bool \<times> transaction \<times> story_lock" where
  "acquire_read l sharing lockble tx x =
     (let (sharing', tx1, x1) =
        (if \<not> sharing \<and> lockble \<and> lock_identifier x \<noteq> tx_identifier tx
         then (case drop_read l tx x of (tx', x') \<Rightarrow> (True, tx', sl_release (sl_setShare True x')))
         else (sharing, tx, x)) in
      if sharing' then (False, take_read l tx1 x1)
      else (lock_identifier x1 \<noteq> tx_identifier tx, tx1, x1))"

definition acquire_write :: "lockid \<Rightarrow> bool \<Rightarrow> bool \<Rightarrow> (txid \<Rightarrow> bool) \<Rightarrow> transaction \<Rightarrow> story_lock \<Rightarrow> bool \<times> transaction \<times> story_lock" where
  "acquire_write l sharing lockble live tx x =
     (if \<not> sharing
      then (if lockble then (False, tx, sl_setCredentials (of_nat (tx_identifier tx)) (tx_sequence tx) x) else (True, tx, x))
      else if sl_getSequence x = 0 then (False, take_write l tx x)
      else if sl_getSequence x = 1
      then
        (if lock_identifier x = tx_identifier tx \<or> \<not> live (lock_identifier x) then (False, take_write l tx x)
         else (True, tx, x))
      else (True, tx, x))"

text \<open>The result says whether the transaction has to wait.\<close>

definition acquire :: "txid \<Rightarrow> lockid \<Rightarrow> lock_option \<Rightarrow> tx_system \<Rightarrow> (bool \<times> tx_system) result" where
  "acquire t l lock s =
     rbind (get_tx t s) (\<lambda>tx.
       let x = s_locks s l; sharing = sl_share x;
           (lockble, x1) = lockable x t (lock = LOCK_READ) (s_sequences s);
           (wait, tx2, x2) =
             (if lock = LOCK_READ then acquire_read l sharing lockble tx x1
              else acquire_write l sharing lockble (\<lambda>i. s_transactions s i \<noteq> None) tx x1) in
       Inr (wait, set_tx tx2 (set_lock l x2 s)))"

subsection \<open>Cycles of waiting transactions\<close>

text \<open>The argument counts the iterations left of \<open>DEFAULT_TRANSACTION_INFINITE\<close>.\<close>

fun cycle_loop :: "(txid \<Rightarrow> transaction option) \<Rightarrow> txid \<Rightarrow> nat \<Rightarrow> transaction option \<Rightarrow> bool" where
  "cycle_loop slots me 0 ntx = True"
| "cycle_loop slots me (Suc k) None = False"
| "cycle_loop slots me (Suc k) (Some ntx) =
     (if tx_waitIdentifier ntx = 0 then False
      else if tx_waitIdentifier ntx = me then True
      else cycle_loop slots me k (slots (tx_waitIdentifier ntx)))"

definition checkCycleLock :: "txid \<Rightarrow> txid \<Rightarrow> tx_system \<Rightarrow> (bool \<times> txid option \<times> tx_system) result" where
  "checkCycleLock t n s =
     rbind (get_tx t s) (\<lambda>itx.
       let s1 = set_tx (itx\<lparr>tx_waitIdentifier := n\<rparr>) s;
           otx = s_transactions s1 n;
           deadlock = (otx \<noteq> None \<and> cycle_loop (s_transactions s1) t DEFAULT_TRANSACTION_INFINITE otx);
           s2 = (if deadlock then set_tx (itx\<lparr>tx_waitIdentifier := 0\<rparr>) s1 else s1) in
       Inr (deadlock, if otx = None then None else Some n, s2))"

subsection \<open>The whole check\<close>

text \<open>
  \<open>checkAccessLock\<close> answers true when the caller has to try again. \<open>notified\<close> says how a wait for
  another transaction ends: by its signal or by the timeout.
\<close>

definition retry_or_fail :: "transaction \<Rightarrow> (bool \<times> error_code) \<times> transaction" where
  "retry_or_fail tx =
     (if tx_retry tx > DEFAULT_TRANSACTION_RETRY then ((False, ERR_DEADLOCK), tx_release tx)
      else ((True, ERR_SUCCESS), tx\<lparr>tx_retry := tx_retry tx + 1\<rparr>))"

definition checkAccessLock :: "bool \<Rightarrow> txid \<Rightarrow> lockid \<Rightarrow> lock_option \<Rightarrow> tx_system \<Rightarrow> ((bool \<times> error_code) \<times> tx_system) result" where
  "checkAccessLock notified t l lock s =
     rbind (acquire t l lock s) (\<lambda>(wait, s1).
       if \<not> wait then Inr ((False, ERR_SUCCESS), s1)
       else
         rbind (checkCycleLock t (lock_identifier (s_locks s1 l)) s1) (\<lambda>(deadlock, otx, s2).
         rbind (get_tx t s2) (\<lambda>itx.
           if deadlock then (case retry_or_fail itx of (r, itx') \<Rightarrow> Inr (r, set_tx itx' s2))
           else
             (case otx of
                None \<Rightarrow> Inr ((True, ERR_SUCCESS), set_tx (tx_release itx) s2)
              | Some n \<Rightarrow>
                  rbind (get_tx n s2) (\<lambda>owner.
                    if lock_identifier (s_locks s2 l) \<noteq> tx_identifier owner then Inr ((True, ERR_SUCCESS), set_tx (tx_release itx) s2)
                    else
                      let s3 = set_tx (owner\<lparr>tx_wait := True\<rparr>) s2 in
                      rbind (get_tx t s3) (\<lambda>itx3.
                        Inr (if notified then (True, ERR_SUCCESS) else (False, ERR_TIMEOUT), set_tx (tx_release itx3) s3)))))))"

subsection \<open>Giving locks back\<close>

text \<open>
  The search of \<open>reassign(StoryLock*)\<close> for another reader, and one round of \<open>reassign()\<close>: the
  transaction gives one read lock back. Its set of read locks is cleared after the last round.
\<close>

definition other_reader :: "txid \<Rightarrow> lockid \<Rightarrow> tx_system \<Rightarrow> txid option" where
  "other_reader t l s =
     List.find (\<lambda>i. i \<noteq> t \<and> (case s_transactions s i of None \<Rightarrow> False | Some tx \<Rightarrow> l \<in> set (tx_readLockSet tx)))
       [0..<s_maxIdentifier s + 1]"

definition reassign_lock :: "txid \<Rightarrow> lockid \<Rightarrow> tx_system \<Rightarrow> tx_system" where
  "reassign_lock t l s =
     (let x = s_locks s l;
          own = (lock_identifier x = t);
          x1 = (if own
                then
                  (if sl_getSequence x > 1
                   then (case other_reader t l s of
                           None \<Rightarrow> x
                         | Some i \<Rightarrow> sl_setCredentials (of_nat i) (sl_getSequence x) x)
                   else sl_setShare False (sl_setCredentials 0 (sl_getSequence x) x))
                else x);
          x2 = sl_decref (snd (sl_decrementSequence x1));
          s1 = set_lock l x2 s in
      (case s_transactions s t of
         None \<Rightarrow> s1
       | Some tx \<Rightarrow> if own then set_tx (tx\<lparr>tx_wait := True\<rparr>) s1 else s1))"

definition clear_reads :: "txid \<Rightarrow> tx_system \<Rightarrow> tx_system" where
  "clear_reads t s =
     (case s_transactions s t of None \<Rightarrow> s | Some tx \<Rightarrow> set_tx (tx\<lparr>tx_readLockSet := []\<rparr>) s)"

definition reassign :: "txid \<Rightarrow> tx_system \<Rightarrow> tx_system result" where
  "reassign t s =
     rbind (get_tx t s) (\<lambda>tx.
       Inr (if tx_readLockSet tx \<noteq> [] then clear_reads t (foldl (\<lambda>s' l. reassign_lock t l s') s (tx_readLockSet tx)) else s))"

text \<open>\<open>commit\<close> and \<open>rollback\<close>; the conductors of the maps are a parameter.\<close>

definition tx_finish :: "(tx_system \<Rightarrow> tx_system result) \<Rightarrow> txid \<Rightarrow> int \<Rightarrow> tx_system \<Rightarrow> tx_system result" where
  "tx_finish conductors t level s =
     rbind (get_tx t s) (\<lambda>tx.
     rbind (if tx_dirty tx
            then rbind (if level = 0 then reassign t s else Inr s) conductors
            else Inr s) (\<lambda>s1.
     rbind (get_tx t s1) (\<lambda>tx1.
       Inr (if level = 0 then setDirty False tx1 s1 else set_tx (tx1\<lparr>tx_level := level - 1\<rparr>) s1))))"

subsection \<open>The invariant\<close>

definition readers :: "tx_system \<Rightarrow> lockid \<Rightarrow> txid set" where
  "readers s l = {t. \<exists>tx. s_transactions s t = Some tx \<and> l \<in> set (tx_readLockSet tx)}"

definition tx_ok :: "tx_system \<Rightarrow> txid \<Rightarrow> transaction \<Rightarrow> bool" where
  "tx_ok s t tx \<longleftrightarrow>
     tx_identifier tx = t \<and> 1 \<le> t \<and> t < DEFAULT_TRANSACTION_SIZE \<and> t \<le> s_maxIdentifier s \<and> s_sequences s t = tx_sequence tx \<and>
     distinct (tx_readLockSet tx) \<and> (tx_readLockSet tx \<noteq> [] \<longrightarrow> tx_dirty tx)"

definition lock_ok :: "tx_system \<Rightarrow> lockid \<Rightarrow> bool" where
  "lock_ok s l \<longleftrightarrow>
     (let x = s_locks s l in
      unat (sl_getIdentifier x) < DEFAULT_TRANSACTION_SIZE \<and>
      (if sl_share x then unat (sl_getSequence x) = card (readers s l) \<and> (readers s l \<noteq> {} \<longrightarrow> lock_identifier x \<in> readers s l)
       else readers s l = {}))"

definition locks_inv :: "tx_system \<Rightarrow> bool" where
  "locks_inv s \<longleftrightarrow> (\<forall>t tx. s_transactions s t = Some tx \<longrightarrow> tx_ok s t tx) \<and> (\<forall>l. lock_ok s l)"

lemma lock_identifier_set: "n < 65536 \<Longrightarrow> lock_identifier (sl_setCredentials (of_nat n) q x) = n"
  by (simp add: lock_identifier_def unsigned_ucast_eq unat_of_nat_small take_bit_nat_def)

lemma lock_identifier_simps [tx_simps]:
  "lock_identifier (sl_release x) = 0" "lock_identifier (sl_setShare b x) = lock_identifier x"
  "lock_identifier (sl_incref x) = lock_identifier x" "lock_identifier (sl_decref x) = lock_identifier x"
  "lock_identifier (sl_setCredentials (sl_getIdentifier x) q y) = lock_identifier x"
  by (simp_all add: lock_identifier_def) (simp_all add: sl_incref_def sl_decref_def sl_getIdentifier_def)

lemma sl_ref_simps [tx_simps]:
  "sl_getIdentifier (sl_incref x) = sl_getIdentifier x" "sl_getIdentifier (sl_decref x) = sl_getIdentifier x"
  "sl_getSequence (sl_incref x) = sl_getSequence x" "sl_getSequence (sl_decref x) = sl_getSequence x"
  "sl_share (sl_incref x) = sl_share x" "sl_share (sl_decref x) = sl_share x"
  by (simp_all add: sl_incref_def sl_decref_def sl_getIdentifier_def sl_getSequence_def)

lemma lock_identifier_unat: "unat (sl_getIdentifier x) < DEFAULT_TRANSACTION_SIZE \<Longrightarrow> lock_identifier x = unat (sl_getIdentifier x)"
  by (simp add: lock_identifier_def unsigned_ucast_eq take_bit_nat_def DEFAULT_TRANSACTION_SIZE_def)

lemma locks_invD:
  assumes "locks_inv s"
  shows "\<And>t tx. s_transactions s t = Some tx \<Longrightarrow> tx_ok s t tx" "\<And>l. lock_ok s l"
  using assms by (auto simp: locks_inv_def)

lemma readers_range:
  assumes "locks_inv s"
  shows "readers s l \<subseteq> {1..<DEFAULT_TRANSACTION_SIZE}" "finite (readers s l)" "card (readers s l) < DEFAULT_TRANSACTION_SIZE"
proof -
  show sub: "readers s l \<subseteq> {1..<DEFAULT_TRANSACTION_SIZE}"
    using locks_invD(1) [OF assms] by (fastforce simp: readers_def tx_ok_def)
  then show "finite (readers s l)" by (rule finite_subset) simp
  have "card (readers s l) \<le> card {1..<DEFAULT_TRANSACTION_SIZE}" by (rule card_mono [OF _ sub]) simp
  then show "card (readers s l) < DEFAULT_TRANSACTION_SIZE" by (simp add: DEFAULT_TRANSACTION_SIZE_def)
qed

text \<open>Who reads after a transaction was stored again.\<close>

lemma readers_set_tx:
  "readers (set_tx tx s) l =
     (if l \<in> set (tx_readLockSet tx) then insert (tx_identifier tx) (readers s l) else readers s l - {tx_identifier tx})"
  by (auto simp: readers_def tx_simps)

lemma readers_set_lock [tx_simps]: "readers (set_lock l x s) m = readers s m"
  by (simp add: readers_def tx_simps)

text \<open>What an acquisition changes: one transaction and one lock.\<close>

lemma locks_inv_change:
  assumes inv: "locks_inv s" and ok: "tx_ok s t tx'"
    and same: "\<And>m. m \<noteq> l \<Longrightarrow> m \<in> set (tx_readLockSet tx') \<longleftrightarrow> t \<in> readers s m"
    and lock: "lock_ok (set_tx tx' (set_lock l x s)) l"
  shows "locks_inv (set_tx tx' (set_lock l x s))"
proof -
  have t: "tx_identifier tx' = t" using ok by (simp add: tx_ok_def)
  have "tx_ok (set_tx tx' (set_lock l x s)) u tx" if "s_transactions (set_tx tx' (set_lock l x s)) u = Some tx" for u tx
    using that ok t locks_invD(1) [OF inv, of u tx] by (auto simp: tx_simps tx_ok_def split: if_splits)
  moreover have "lock_ok (set_tx tx' (set_lock l x s)) m" for m
  proof (cases "m = l")
    case False
    have "readers (set_tx tx' (set_lock l x s)) m = readers s m"
      using same [OF False] by (auto simp: readers_set_tx tx_simps t)
    then show ?thesis using locks_invD(2) [OF inv, of m] False by (simp add: lock_ok_def Let_def tx_simps)
  qed (simp add: lock)
  ultimately show ?thesis by (simp add: locks_inv_def)
qed

lemma lockable_cases:
  assumes "lockable x t share seqs = (b, x1)"
  shows "x1 = x \<or> \<not> sl_share x \<and> b \<and> x1 = sl_release x \<and> lock_identifier x \<noteq> t \<and> sl_getSequence x \<noteq> seqs (lock_identifier x)"
  using assms by (auto simp: lockable_def Let_def split: if_splits)

lemma small_words:
  assumes "unat q = n" "n < DEFAULT_TRANSACTION_SIZE"
  shows "unat (q + 1 :: uinttype) = n + 1" "unat (q - 1 :: uinttype) = (if n = 0 then unat (- 1 :: uinttype) else n - 1)"
    "(q = 0) = (n = 0)" "(q = 1) = (n = 1)" "(1 < q) = (1 < n)" "(q + 1 = 1) = (n = 0)"
proof -
  have "q = of_nat n" using assms(1) by auto
  moreover have "unat (of_nat (n + 1) :: uinttype) = n + 1"
    by (rule unat_of_nat_small) (use assms(2) in \<open>simp add: DEFAULT_TRANSACTION_SIZE_def\<close>)
  moreover have "(of_nat n :: uinttype) + 1 = of_nat (n + 1)" by simp
  ultimately show "unat (q + 1 :: uinttype) = n + 1" by metis
  show "(q = 0) = (n = 0)" using assms(1) by (auto simp: unat_eq_zero)
  show "(q = 1) = (n = 1)" using assms(1) by (metis unsigned_1 unsigned_word_eqI)
  show "(1 < q) = (1 < n)" using assms(1) by (simp add: word_less_nat_alt)
  show "(q + 1 = 1) = (n = 0)" using assms(1) by (auto simp: unat_eq_zero)
  show "unat (q - 1 :: uinttype) = (if n = 0 then unat (- 1 :: uinttype) else n - 1)"
  proof (cases "n = 0")
    case False
    then have "1 \<le> q" using assms(1) by (simp add: word_le_nat_alt)
    then show ?thesis using False assms(1) by (simp add: unat_sub)
  qed (use assms(1) in \<open>auto simp: unat_eq_zero\<close>)
qed

lemma lock_okD:
  assumes "locks_inv s"
  shows "unat (sl_getIdentifier (s_locks s l)) < DEFAULT_TRANSACTION_SIZE"
    "sl_share (s_locks s l) \<Longrightarrow> unat (sl_getSequence (s_locks s l)) = card (readers s l)"
    "sl_share (s_locks s l) \<Longrightarrow> readers s l \<noteq> {} \<Longrightarrow> lock_identifier (s_locks s l) \<in> readers s l"
    "\<not> sl_share (s_locks s l) \<Longrightarrow> readers s l = {}"
  using locks_invD(2) [OF assms, of l] by (auto simp: lock_ok_def Let_def)

lemma own_reads: "s_transactions s t = Some tx \<Longrightarrow> m \<in> set (tx_readLockSet tx) \<longleftrightarrow> t \<in> readers s m"
  by (simp add: readers_def)

lemma credentials_small: "n < DEFAULT_TRANSACTION_SIZE \<Longrightarrow> unat (of_nat n :: uinttype) < DEFAULT_TRANSACTION_SIZE"
  by (simp add: unat_of_nat_small DEFAULT_TRANSACTION_SIZE_def)

lemma take_read_inv:
  assumes inv: "locks_inv s" and tx: "s_transactions s t = Some tx" and ok: "tx_ok s t tx"
    and x: "sl_share x" "unat (sl_getIdentifier x) < DEFAULT_TRANSACTION_SIZE" "unat (sl_getSequence x) = card (readers s l)"
      "readers s l \<noteq> {} \<longrightarrow> lock_identifier x \<in> readers s l"
    and r: "take_read l tx x = (tx', x')"
  shows "locks_inv (set_tx tx' (set_lock l x' s)) \<and> l \<in> set (tx_readLockSet tx')"
proof (cases "l \<in> set (tx_readLockSet tx)")
  case True
  then have "tx' = tx" "x' = x" using r by (simp_all add: take_read_def)
  moreover have "insert t (readers s l) = readers s l" using True own_reads [OF tx] by blast
  moreover have "locks_inv (set_tx tx (set_lock l x s))"
    using True x ok own_reads [OF tx] calculation(3)
    by (intro locks_inv_change [OF inv ok]) (auto simp: lock_ok_def Let_def readers_set_tx tx_simps tx_ok_def)
  ultimately show ?thesis using True by simp
next
  case False
  have t: "tx_identifier tx = t" "t < DEFAULT_TRANSACTION_SIZE" using ok by (auto simp: tx_ok_def)
  have c: "card (readers s l) < DEFAULT_TRANSACTION_SIZE" "finite (readers s l)" using readers_range [OF inv] by auto
  have tn: "t \<notin> readers s l" using False own_reads [OF tx] by blast
  have tx': "tx' = tx\<lparr>tx_readLockSet := tx_readLockSet tx @ [l], tx_dirty := True\<rparr>"
    using r False by (simp add: take_read_def Let_def tx_simps)
  have n: "(sl_getSequence x + 1 = 1) = (readers s l = {})" "unat (sl_getSequence x + 1) = card (readers s l) + 1"
    using small_words [OF x(3) c(1)] c(2) by (simp_all add: card_eq_0_iff)
  have x': "x' = (if readers s l = {} then sl_setCredentials (of_nat t) (sl_getSequence x + 1) (sl_setCredentials (sl_getIdentifier x) (sl_getSequence x + 1) (sl_incref x))
       else sl_setCredentials (sl_getIdentifier x) (sl_getSequence x + 1) (sl_incref x))"
    using r False by (simp add: take_read_def Let_def tx_simps t n(1) [simplified] split: if_splits)
  have ok': "tx_ok s t tx'" using ok False by (auto simp: tx' tx_ok_def)
  have rd: "readers (set_tx tx' (set_lock l x' s)) l = insert t (readers s l)" by (simp add: readers_set_tx tx_simps tx' t)
  have lk: "lock_identifier x' \<in> insert t (readers s l)"
    using x(4) t(2) by (auto simp: x' tx_simps lock_identifier_set DEFAULT_TRANSACTION_SIZE_def)
  have "sl_share x'" "sl_getSequence x' = sl_getSequence x + 1" "unat (sl_getIdentifier x') < DEFAULT_TRANSACTION_SIZE"
    using x(1,2) by (simp_all add: x' tx_simps credentials_small [OF t(2)])
  then have "lock_ok (set_tx tx' (set_lock l x' s)) l"
    using n(2) tn c lk by (simp add: lock_ok_def Let_def rd) (simp add: tx_simps)
  then show ?thesis using own_reads [OF tx] by (intro conjI locks_inv_change [OF inv ok']) (auto simp: tx')
qed

lemma lock_only_inv:
  assumes inv: "locks_inv s" and tx: "s_transactions s t = Some tx"
    and x: "sl_share x = sl_share (s_locks s l)" "unat (sl_getIdentifier x) < DEFAULT_TRANSACTION_SIZE"
      "sl_share x \<Longrightarrow> x = s_locks s l"
  shows "locks_inv (set_tx tx (set_lock l x s))"
proof -
  have ok: "tx_ok s t tx" using locks_invD(1) [OF inv tx] .
  have rd: "readers (set_tx tx (set_lock l x s)) l = readers s l"
    using ok own_reads [OF tx, of l] by (auto simp: readers_set_tx tx_simps tx_ok_def)
  have "lock_ok (set_tx tx (set_lock l x s)) l"
  proof (cases "sl_share x")
    case True
    show ?thesis using locks_invD(2) [OF inv, of l] x(3) [OF True] unfolding lock_ok_def Let_def rd by (simp add: tx_simps)
  next
    case False
    then show ?thesis using lock_okD(4) [OF inv, of l] x(1,2) unfolding lock_ok_def Let_def rd by (simp add: tx_simps)
  qed
  then show ?thesis by (rule locks_inv_change [OF inv ok own_reads [OF tx]])
qed

lemma take_write_inv:
  assumes inv: "locks_inv s" and tx: "s_transactions s t = Some tx" and only: "readers s l \<subseteq> {t}"
    and r: "take_write l tx x = (tx', x')"
  shows "locks_inv (set_tx tx' (set_lock l x' s)) \<and> \<not> sl_share x' \<and> sl_getIdentifier x' = of_nat t \<and>
    sl_getSequence x' = tx_sequence tx \<and> tx_sequence tx' = tx_sequence tx \<and> tx_identifier tx' = t"
proof -
  have ok: "tx_ok s t tx" using locks_invD(1) [OF inv tx] .
  then have t: "tx_identifier tx = t" "t < DEFAULT_TRANSACTION_SIZE" by (auto simp: tx_ok_def)
  have f: "tx_readLockSet tx' = removeAll l (tx_readLockSet tx)" "tx_identifier tx' = t" "tx_sequence tx' = tx_sequence tx"
    "tx_dirty tx' = tx_dirty tx" "\<not> sl_share x'" "sl_getIdentifier x' = of_nat t" "sl_getSequence x' = tx_sequence tx"
    using r t(1) by (auto simp: take_write_def drop_read_def split: if_splits)
  have "tx_ok s t tx'" using ok by (auto simp: tx_ok_def f distinct_removeAll)
  moreover have "readers (set_tx tx' (set_lock l x' s)) l = {}" using only by (auto simp: readers_set_tx tx_simps f)
  moreover have "lock_ok (set_tx tx' (set_lock l x' s)) l"
    using calculation(2) f(5,6) by (simp add: lock_ok_def Let_def) (simp add: tx_simps credentials_small [OF t(2)])
  moreover have "m \<noteq> l \<Longrightarrow> m \<in> set (tx_readLockSet tx') \<longleftrightarrow> t \<in> readers s m" for m
    using own_reads [OF tx] by (simp add: f)
  ultimately have "locks_inv (set_tx tx' (set_lock l x' s))" by (intro locks_inv_change [OF inv])
  then show ?thesis using f by simp
qed

text \<open>The cases of an acquisition.\<close>

definition holds_write :: "tx_system \<Rightarrow> txid \<Rightarrow> lockid \<Rightarrow> bool" where
  "holds_write s t l \<longleftrightarrow>
     (\<exists>tx. s_transactions s t = Some tx \<and> \<not> sl_share (s_locks s l) \<and> lock_identifier (s_locks s l) = t \<and>
       sl_getSequence (s_locks s l) = tx_sequence tx)"

definition holds_read :: "tx_system \<Rightarrow> txid \<Rightarrow> lockid \<Rightarrow> bool" where
  "holds_read s t l \<longleftrightarrow> sl_share (s_locks s l) \<and> t \<in> readers s l"

text \<open>A lock that \<open>lockable\<close> returned.\<close>

lemma lockable_ok:
  assumes inv: "locks_inv s" and b: "lockable (s_locks s l) t share (s_sequences s) = (b, x1)"
  shows "unat (sl_getIdentifier x1) < DEFAULT_TRANSACTION_SIZE" "sl_share x1 = sl_share (s_locks s l)"
    "sl_share (s_locks s l) \<Longrightarrow> x1 = s_locks s l" "holds_write s u l \<Longrightarrow> x1 = s_locks s l"
    "\<not> sl_share (s_locks s l) \<Longrightarrow> b \<Longrightarrow> holds_write s u l \<Longrightarrow> u = t"
proof -
  have seqs: "s_transactions s v = Some vx \<Longrightarrow> s_sequences s v = tx_sequence vx \<and> v \<noteq> 0" for v vx
    using locks_invD(1) [OF inv, of v vx] by (simp add: tx_ok_def)
  note lc = lockable_cases [OF b]
  show "unat (sl_getIdentifier x1) < DEFAULT_TRANSACTION_SIZE"
    using lc lock_okD(1) [OF inv, of l] by (auto simp: DEFAULT_TRANSACTION_SIZE_def)
  show "sl_share x1 = sl_share (s_locks s l)" "sl_share (s_locks s l) \<Longrightarrow> x1 = s_locks s l" using lc by auto
  show "holds_write s u l \<Longrightarrow> x1 = s_locks s l" using lc seqs by (auto simp: holds_write_def)
  show "\<not> sl_share (s_locks s l) \<Longrightarrow> b \<Longrightarrow> holds_write s u l \<Longrightarrow> u = t"
    using b seqs by (auto simp: lockable_def Let_def holds_write_def split: if_splits)
qed

lemma acquire_write_effect:
  assumes inv: "locks_inv s" and tx: "s_transactions s t = Some tx"
    and b: "lockable (s_locks s l) t False (s_sequences s) = (b, x1)"
    and r: "acquire_write l (sl_share (s_locks s l)) b (\<lambda>i. s_transactions s i \<noteq> None) tx x1 = (wait, tx', x')"
  shows "locks_inv (set_tx tx' (set_lock l x' s))" "tx_identifier tx' = t" "tx_sequence tx' = tx_sequence tx"
    "\<not> wait \<Longrightarrow> \<not> sl_share x' \<and> lock_identifier x' = t \<and> sl_getSequence x' = tx_sequence tx \<and>
       readers s l \<subseteq> {t} \<and> (\<forall>u. holds_write s u l \<longrightarrow> u = t)"
    "wait \<Longrightarrow> tx' = tx \<and> x' = x1"
proof -
  let ?x = "s_locks s l"
  have ok: "tx_ok s t tx" using locks_invD(1) [OF inv tx] .
  then have t: "tx_identifier tx = t" "t < DEFAULT_TRANSACTION_SIZE" "t < 65536" by (auto simp: tx_ok_def DEFAULT_TRANSACTION_SIZE_def)
  have id_t: "sl_getIdentifier y = of_nat t \<Longrightarrow> lock_identifier y = t" for y
    using t(2) by (simp add: lock_identifier_unat credentials_small unat_of_nat_small DEFAULT_TRANSACTION_SIZE_def)
  note lo = lockable_ok [OF inv b]
  have "locks_inv (set_tx tx' (set_lock l x' s)) \<and> tx_identifier tx' = t \<and> tx_sequence tx' = tx_sequence tx \<and>
    (\<not> wait \<longrightarrow> \<not> sl_share x' \<and> lock_identifier x' = t \<and> sl_getSequence x' = tx_sequence tx \<and>
       readers s l \<subseteq> {t} \<and> (\<forall>u. holds_write s u l \<longrightarrow> u = t)) \<and> (wait \<longrightarrow> tx' = tx \<and> x' = x1)"
  proof (cases "sl_share ?x")
    case False
    show ?thesis
    proof (cases b)
      case True
      have e: "wait = False" "tx' = tx" "x' = sl_setCredentials (of_nat t) (tx_sequence tx) x1"
        using r False True t(1) by (auto simp: acquire_write_def)
      have "locks_inv (set_tx tx' (set_lock l x' s))" unfolding e(2)
        by (rule lock_only_inv [OF inv tx]) (use False lo(2) in \<open>simp_all add: e(3) credentials_small [OF t(2)]\<close>)
      then show ?thesis using e False lo(2) lo(5) [OF False True] lock_okD(4) [OF inv False] t id_t [of x'] by auto
    next
      case nb: False
      have e: "wait = True" "tx' = tx" "x' = x1" using r False nb by (auto simp: acquire_write_def)
      then show ?thesis using lock_only_inv [OF inv tx lo(2,1)] False lo(2) t by simp
    qed
  next
    case True
    have x1: "x1 = ?x" using lo(3) True .
    have c: "card (readers s l) < DEFAULT_TRANSACTION_SIZE" "finite (readers s l)" using readers_range [OF inv] by auto
    note sw = small_words [OF lock_okD(2) [OF inv True] c(1)]
    have no_writer: "\<not> holds_write s u l" for u using True by (simp add: holds_write_def)
    have idle: "locks_inv (set_tx tx (set_lock l ?x s))" using lock_only_inv [OF inv tx] lock_okD(1) [OF inv] by simp
    have one: "readers s l \<subseteq> {t}"
      if "sl_getSequence ?x = 0 \<or> sl_getSequence ?x = 1 \<and> (lock_identifier ?x = t \<or> s_transactions s (lock_identifier ?x) = None)"
    proof -
      have "card (readers s l) = 1 \<Longrightarrow> readers s l \<noteq> {}" by fastforce
      then have "card (readers s l) = 0 \<or> card (readers s l) = 1 \<and> lock_identifier ?x \<in> readers s l"
        using that sw(3,4) lock_okD(3) [OF inv True] by blast
      moreover have "lock_identifier ?x \<in> readers s l \<Longrightarrow> s_transactions s (lock_identifier ?x) \<noteq> None" by (auto simp: readers_def)
      ultimately show ?thesis using that c(2) sw(3,4) by (auto simp: card_1_singleton_iff)
    qed
    show ?thesis
    proof (cases "sl_getSequence ?x = 0 \<or> sl_getSequence ?x = 1 \<and> (lock_identifier ?x = t \<or> s_transactions s (lock_identifier ?x) = None)")
      case go: True
      have e: "wait = False" "take_write l tx ?x = (tx', x')"
        using r True go t(1) unfolding x1 by (auto simp: acquire_write_def split: if_splits)
      from take_write_inv [OF inv tx one [OF go] e(2)] show ?thesis using e(1) one [OF go] no_writer id_t [of x'] by auto
    next
      case stay: False
      have "wait = True" "tx' = tx" "x' = ?x"
        using r True stay t(1) unfolding x1 by (auto simp: acquire_write_def split: if_splits)
      then show ?thesis using idle x1 t by simp
    qed
  qed
  then show "locks_inv (set_tx tx' (set_lock l x' s))" "tx_identifier tx' = t" "tx_sequence tx' = tx_sequence tx"
    "\<not> wait \<Longrightarrow> \<not> sl_share x' \<and> lock_identifier x' = t \<and> sl_getSequence x' = tx_sequence tx \<and>
       readers s l \<subseteq> {t} \<and> (\<forall>u. holds_write s u l \<longrightarrow> u = t)"
    "wait \<Longrightarrow> tx' = tx \<and> x' = x1" by auto
qed

lemma acquire_read_effect:
  assumes inv: "locks_inv s" and tx: "s_transactions s t = Some tx"
    and b: "lockable (s_locks s l) t True (s_sequences s) = (b, x1)"
    and r: "acquire_read l (sl_share (s_locks s l)) b tx x1 = (wait, tx', x')"
  shows "locks_inv (set_tx tx' (set_lock l x' s))" "tx_identifier tx' = t" "tx_sequence tx' = tx_sequence tx"
    "\<not> wait \<Longrightarrow> sl_share x' \<and> l \<in> set (tx_readLockSet tx') \<and> (\<forall>u. holds_write s u l \<longrightarrow> u = t) \<and> (lock_identifier x1 = t \<longrightarrow> sl_share (s_locks s l)) \<or>
       tx' = tx \<and> x' = x1 \<and> \<not> sl_share x' \<and> lock_identifier x' = t"
    "wait \<Longrightarrow> tx' = tx \<and> x' = x1"
    "sl_share (s_locks s l) \<Longrightarrow> sl_share x'"
proof -
  let ?x = "s_locks s l"
  have ok: "tx_ok s t tx" using locks_invD(1) [OF inv tx] .
  then have t: "tx_identifier tx = t" by (auto simp: tx_ok_def)
  note lo = lockable_ok [OF inv b]
  have keep: "tx_identifier tx' = t \<and> tx_sequence tx' = tx_sequence tx" if "take_read l tx x = (tx', x')" for x
    using that t by (auto simp: take_read_def Let_def split: if_splits)
  have "locks_inv (set_tx tx' (set_lock l x' s)) \<and> tx_identifier tx' = t \<and> tx_sequence tx' = tx_sequence tx \<and>
    (\<not> wait \<longrightarrow> sl_share x' \<and> l \<in> set (tx_readLockSet tx') \<and> (\<forall>u. holds_write s u l \<longrightarrow> u = t) \<and> (lock_identifier x1 = t \<longrightarrow> sl_share ?x) \<or>
       tx' = tx \<and> x' = x1 \<and> \<not> sl_share x' \<and> lock_identifier x' = t) \<and> (wait \<longrightarrow> tx' = tx \<and> x' = x1) \<and>
    (sl_share ?x \<longrightarrow> sl_share x')"
  proof (cases "sl_share ?x")
    case True
    have e: "\<not> wait" "take_read l tx ?x = (tx', x')" using r True lo(3) [OF True] by (auto simp: acquire_read_def)
    have "sl_share x'" using e(2) True by (auto simp: take_read_def Let_def tx_simps split: if_splits)
    moreover have "\<not> holds_write s u l" for u using True by (simp add: holds_write_def)
    ultimately show ?thesis
      using take_read_inv [OF inv tx ok True lock_okD(1) [OF inv] lock_okD(2) [OF inv True] _ e(2)] lock_okD(3) [OF inv True] keep [OF e(2)] e(1) True
      by blast
  next
    case False
    have empty: "readers s l = {}" using lock_okD(4) [OF inv False] .
    then have out: "l \<notin> set (tx_readLockSet tx)" using own_reads [OF tx] by simp
    have idle: "locks_inv (set_tx tx (set_lock l x1 s))" using lock_only_inv [OF inv tx lo(2,1)] False lo(2) by simp
    show ?thesis
    proof (cases "b \<and> lock_identifier x1 \<noteq> t")
      case True
      let ?y = "sl_release (sl_setShare True x1)"
      have e: "\<not> wait" "take_read l tx ?y = (tx', x')"
        using r False True out by (auto simp: acquire_read_def drop_read_def t)
      have "sl_share x'" using e(2) by (auto simp: take_read_def Let_def tx_simps split: if_splits)
      moreover have "locks_inv (set_tx tx' (set_lock l x' s)) \<and> l \<in> set (tx_readLockSet tx')"
        by (rule take_read_inv [OF inv tx ok _ _ _ _ e(2)]) (simp_all add: empty DEFAULT_TRANSACTION_SIZE_def)
      ultimately show ?thesis using lo(5) [OF False] True e(1) keep [OF e(2)] by blast
    next
      case nb: False
      have "wait = (lock_identifier x1 \<noteq> t)" "tx' = tx" "x' = x1" using r False nb by (auto simp: acquire_read_def t)
      then show ?thesis using idle t False lo(2) by auto
    qed
  qed
  then show "locks_inv (set_tx tx' (set_lock l x' s))" "tx_identifier tx' = t" "tx_sequence tx' = tx_sequence tx"
    "\<not> wait \<Longrightarrow> sl_share x' \<and> l \<in> set (tx_readLockSet tx') \<and> (\<forall>u. holds_write s u l \<longrightarrow> u = t) \<and> (lock_identifier x1 = t \<longrightarrow> sl_share ?x) \<or>
       tx' = tx \<and> x' = x1 \<and> \<not> sl_share x' \<and> lock_identifier x' = t"
    "wait \<Longrightarrow> tx' = tx \<and> x' = x1" "sl_share ?x \<Longrightarrow> sl_share x'" by auto
qed

subsection \<open>An acquisition\<close>

definition free_for :: "tx_system \<Rightarrow> txid \<Rightarrow> lockid \<Rightarrow> bool" where
  "free_for s t l \<longleftrightarrow> (\<forall>u. u \<noteq> t \<longrightarrow> \<not> holds_write s u l \<and> \<not> holds_read s u l)"

lemma holds_other:
  assumes "tx_identifier tx' = t" "u \<noteq> t"
  shows "holds_write (set_tx tx' (set_lock l x' s)) u m =
      (if m = l then (\<exists>tx. s_transactions s u = Some tx \<and> \<not> sl_share x' \<and> lock_identifier x' = u \<and> sl_getSequence x' = tx_sequence tx)
       else holds_write s u m)"
    "holds_read (set_tx tx' (set_lock l x' s)) u m = (if m = l then sl_share x' \<and> u \<in> readers s l else holds_read s u m)"
  using assms by (auto simp: holds_write_def holds_read_def tx_simps readers_def)

lemma acquire_keeps:
  assumes inv: "locks_inv s" and r: "acquire t l lock s = Inr (wait, s')"
  shows "locks_inv s'" "u \<noteq> t \<Longrightarrow> holds_write s u m \<Longrightarrow> holds_write s' u m" "u \<noteq> t \<Longrightarrow> holds_read s u m \<Longrightarrow> holds_read s' u m"
    "\<not> wait \<Longrightarrow> lock \<noteq> LOCK_READ \<Longrightarrow> holds_write s' t l \<and> free_for s' t l"
    "\<not> wait \<Longrightarrow> lock = LOCK_READ \<Longrightarrow>
       holds_read s' t l \<or> \<not> sl_share (s_locks s' l) \<and> lock_identifier (s_locks s' l) = t"
proof -
  obtain tx where tx: "s_transactions s t = Some tx" using r by (auto simp: acquire_def get_tx_def split: option.splits)
  obtain b x1 where b: "lockable (s_locks s l) t (lock = LOCK_READ) (s_sequences s) = (b, x1)" by fastforce
  note lo = lockable_ok [OF inv b]
  have "locks_inv s' \<and> (u \<noteq> t \<longrightarrow> (holds_write s u m \<longrightarrow> holds_write s' u m) \<and> (holds_read s u m \<longrightarrow> holds_read s' u m)) \<and>
    (\<not> wait \<longrightarrow> (if lock = LOCK_READ then holds_read s' t l \<or> \<not> sl_share (s_locks s' l) \<and> lock_identifier (s_locks s' l) = t
       else holds_write s' t l \<and> free_for s' t l))"
  proof (cases "lock = LOCK_READ")
    case False
    obtain w tx' x' where a: "acquire_write l (sl_share (s_locks s l)) b (\<lambda>i. s_transactions s i \<noteq> None) tx x1 = (w, tx', x')"
      using prod_cases3 by blast
    have e: "wait = w" "s' = set_tx tx' (set_lock l x' s)"
      using r tx False b a by (auto simp: acquire_def get_tx_def Let_def)
    have b': "lockable (s_locks s l) t False (s_sequences s) = (b, x1)" using b False by simp
    note w = acquire_write_effect [OF inv tx b' a]
    have "holds_write s u l \<Longrightarrow> u \<noteq> t \<Longrightarrow> w \<and> x1 = s_locks s l" "holds_read s u l \<Longrightarrow> u \<noteq> t \<Longrightarrow> w \<and> x1 = s_locks s l" for u
      using w(4) lo(3,4) by (auto simp: holds_read_def)
    then have "u \<noteq> t \<longrightarrow> (holds_write s u m \<longrightarrow> holds_write s' u m) \<and> (holds_read s u m \<longrightarrow> holds_read s' u m)"
      using w(5) holds_other [OF w(2)] unfolding e(2) by (auto simp: holds_write_def holds_read_def)
    moreover have "\<not> w \<Longrightarrow> holds_write s' t l \<and> free_for s' t l"
      using w(2,3,4) holds_other [OF w(2)] unfolding e(2) free_for_def by (auto simp: holds_write_def tx_simps)
    ultimately show ?thesis using w(1) e False by simp
  next
    case True
    obtain w tx' x' where a: "acquire_read l (sl_share (s_locks s l)) b tx x1 = (w, tx', x')"
      using prod_cases3 by blast
    have e: "wait = w" "s' = set_tx tx' (set_lock l x' s)"
      using r tx True b a by (auto simp: acquire_def get_tx_def Let_def)
    have b': "lockable (s_locks s l) t True (s_sequences s) = (b, x1)" using b True by simp
    note w = acquire_read_effect [OF inv tx b' a]
    have hw: "holds_write s u l \<Longrightarrow> u \<noteq> t \<Longrightarrow> x' = s_locks s l" for u
      using w(4,5) lo(4) by (cases w) (auto simp: holds_write_def)
    have "u \<noteq> t \<longrightarrow> (holds_write s u m \<longrightarrow> holds_write s' u m) \<and> (holds_read s u m \<longrightarrow> holds_read s' u m)"
      using hw w(6) holds_other [OF w(2)] unfolding e(2) by (auto simp: holds_write_def holds_read_def)
    moreover have "\<not> w \<Longrightarrow> holds_read s' t l \<or> \<not> sl_share (s_locks s' l) \<and> lock_identifier (s_locks s' l) = t"
      using w(2,4) unfolding e(2) by (auto simp: holds_read_def tx_simps readers_def)
    ultimately show ?thesis using w(1) e True by simp
  qed
  then show "locks_inv s'" "u \<noteq> t \<Longrightarrow> holds_write s u m \<Longrightarrow> holds_write s' u m" "u \<noteq> t \<Longrightarrow> holds_read s u m \<Longrightarrow> holds_read s' u m"
    "\<not> wait \<Longrightarrow> lock \<noteq> LOCK_READ \<Longrightarrow> holds_write s' t l \<and> free_for s' t l"
    "\<not> wait \<Longrightarrow> lock = LOCK_READ \<Longrightarrow>
       holds_read s' t l \<or> \<not> sl_share (s_locks s' l) \<and> lock_identifier (s_locks s' l) = t" by auto
qed

subsection \<open>Giving read locks back\<close>

definition given_back :: "txid \<Rightarrow> lockid \<Rightarrow> tx_system \<Rightarrow> story_lock" where
  "given_back t l s = s_locks (reassign_lock t l s) l"

lemma reassign_lock_frame:
  "s_locks (reassign_lock t l s) = (s_locks s)(l := given_back t l s)" "s_maxIdentifier (reassign_lock t l s) = s_maxIdentifier s"
  "s_sequences (reassign_lock t l s) = s_sequences s" "u \<noteq> t \<Longrightarrow> (\<And>tx. s_transactions s t = Some tx \<Longrightarrow> tx_identifier tx = t) \<Longrightarrow>
     s_transactions (reassign_lock t l s) u = s_transactions s u"
  by (auto simp: reassign_lock_def given_back_def Let_def tx_simps split: option.splits)

lemma reassign_lock_self:
  assumes "s_transactions s t = Some tx" "tx_identifier tx = t"
  shows "\<exists>w. s_transactions (reassign_lock t l s) t = Some (tx\<lparr>tx_wait := w\<rparr>)"
proof (cases "lock_identifier (s_locks s l) = t")
  case True
  then show ?thesis using assms by (intro exI [of _ True]) (simp add: reassign_lock_def Let_def tx_simps)
next
  case False
  then show ?thesis using assms by (intro exI [of _ "tx_wait tx"]) (simp add: reassign_lock_def Let_def tx_simps)
qed

lemma given_back_other:
  assumes "s_locks s' l = s_locks s l" "s_maxIdentifier s' = s_maxIdentifier s" "\<And>u. u \<noteq> t \<Longrightarrow> s_transactions s' u = s_transactions s u"
  shows "given_back t l s' = given_back t l s"
proof -
  have "other_reader t l s' = other_reader t l s"
    using assms(2,3) unfolding other_reader_def by (auto intro!: find_cong)
  then show ?thesis using assms(1) by (simp add: given_back_def reassign_lock_def Let_def tx_simps split: option.splits)
qed

lemma reassign_all:
  assumes "distinct ls" "s_transactions s t = Some tx" "tx_identifier tx = t"
  defines "s' \<equiv> foldl (\<lambda>s' l. reassign_lock t l s') s ls"
  shows "s_locks s' = (\<lambda>l. if l \<in> set ls then given_back t l s else s_locks s l) \<and> s_maxIdentifier s' = s_maxIdentifier s \<and>
    s_sequences s' = s_sequences s \<and> (\<forall>u. u \<noteq> t \<longrightarrow> s_transactions s' u = s_transactions s u) \<and>
    (\<exists>w. s_transactions s' t = Some (tx\<lparr>tx_wait := w\<rparr>))"
  using assms(1-3) unfolding s'_def
proof (induction ls rule: rev_induct)
  case Nil
  then show ?case by (auto intro: exI [of _ "tx_wait tx"])
next
  case (snoc l ls)
  let ?s = "foldl (\<lambda>s' l. reassign_lock t l s') s ls"
  have IH: "s_locks ?s = (\<lambda>l. if l \<in> set ls then given_back t l s else s_locks s l)" "s_maxIdentifier ?s = s_maxIdentifier s"
    "s_sequences ?s = s_sequences s" "\<And>u. u \<noteq> t \<Longrightarrow> s_transactions ?s u = s_transactions s u"
    and self: "\<exists>w. s_transactions ?s t = Some (tx\<lparr>tx_wait := w\<rparr>)" using snoc by auto
  obtain w where w: "s_transactions ?s t = Some (tx\<lparr>tx_wait := w\<rparr>)" using self by blast
  have id: "tx_identifier (tx\<lparr>tx_wait := w\<rparr>) = t" using snoc.prems by simp
  have gb: "given_back t l ?s = given_back t l s"
    by (rule given_back_other) (use IH snoc.prems in auto)
  obtain w' where "s_transactions (reassign_lock t l ?s) t = Some (tx\<lparr>tx_wait := w'\<rparr>)" using reassign_lock_self [OF w id] by auto
  moreover have "u \<noteq> t \<Longrightarrow> s_transactions (reassign_lock t l ?s) u = s_transactions s u" for u
    using reassign_lock_frame(4) [of u t ?s l] w id IH(4) by simp
  ultimately show ?case using IH(1-3) gb by (auto simp: reassign_lock_frame(1-3))
qed

text \<open>The lock after its round is right for the readers that are left.\<close>

definition lock_fits :: "story_lock \<Rightarrow> txid set \<Rightarrow> bool" where
  "lock_fits x R \<longleftrightarrow>
     unat (sl_getIdentifier x) < DEFAULT_TRANSACTION_SIZE \<and>
     (if sl_share x then unat (sl_getSequence x) = card R \<and> (R \<noteq> {} \<longrightarrow> lock_identifier x \<in> R) else R = {})"

lemma lock_ok_fits: "lock_ok s l = lock_fits (s_locks s l) (readers s l)"
  by (simp add: lock_ok_def lock_fits_def Let_def)

lemma other_reader_found:
  assumes inv: "locks_inv s" and u: "u \<in> readers s l" "u \<noteq> t"
  shows "\<exists>i. other_reader t l s = Some i \<and> i \<in> readers s l \<and> i \<noteq> t"
proof -
  let ?P = "\<lambda>i. i \<noteq> t \<and> (case s_transactions s i of None \<Rightarrow> False | Some tx \<Rightarrow> l \<in> set (tx_readLockSet tx))"
  have P: "?P i \<longleftrightarrow> i \<noteq> t \<and> i \<in> readers s l" for i by (auto simp: readers_def split: option.splits)
  have "u \<le> s_maxIdentifier s" using u(1) locks_invD(1) [OF inv] by (auto simp: readers_def tx_ok_def)
  then have "u \<in> set [0..<s_maxIdentifier s + 1]" unfolding set_upt by simp
  moreover have "?P u" using u P by blast
  ultimately have "other_reader t l s \<noteq> None" unfolding other_reader_def find_None_iff by blast
  then obtain i where i: "other_reader t l s = Some i" by auto
  then have "?P i" unfolding other_reader_def find_Some_iff by blast
  then show ?thesis using i P by blast
qed

lemma given_back_fits:
  assumes inv: "locks_inv s" and t: "t \<in> readers s l"
  shows "lock_fits (given_back t l s) (readers s l - {t})"
    "readers s l - {t} \<noteq> {} \<Longrightarrow> sl_share (given_back t l s)"
proof -
  let ?x = "s_locks s l" and ?R = "readers s l"
  have share: "sl_share ?x" using lock_okD(4) [OF inv] t by blast
  have c: "card ?R < DEFAULT_TRANSACTION_SIZE" "finite ?R" using readers_range [OF inv] by auto
  have c1: "card (?R - {t}) = card ?R - 1" "card ?R \<noteq> 0" using t c(2) by (auto simp: card_Diff_singleton)
  note sw = small_words [OF lock_okD(2) [OF inv share] c(1)]
  have idR: "lock_identifier ?x \<in> ?R" using lock_okD(3) [OF inv share] t by blast
  have "(?R - {t} \<noteq> {}) = (card (?R - {t}) \<noteq> 0)" using c(2) by simp
  then have more: "(1 < sl_getSequence ?x) = (?R - {t} \<noteq> {})" unfolding sw(5) c1(1) by linarith
  have dec: "unat (sl_getSequence ?x - 1) = card (?R - {t})" using sw(2) c1 by simp
  have "lock_fits (given_back t l s) (?R - {t}) \<and> (?R - {t} \<noteq> {} \<longrightarrow> sl_share (given_back t l s))"
  proof (cases "lock_identifier ?x = t")
    case own: True
    show ?thesis
    proof (cases "?R - {t} = {}")
      case True
      then have "given_back t l s = sl_decref (sl_setCredentials 0 (sl_getSequence ?x - 1) (sl_setShare False (sl_setCredentials 0 (sl_getSequence ?x) ?x)))"
        using own more by (simp add: given_back_def reassign_lock_def Let_def tx_simps split: option.splits)
      then show ?thesis using True by (simp add: lock_fits_def tx_simps DEFAULT_TRANSACTION_SIZE_def)
    next
      case False
      then obtain i where i: "other_reader t l s = Some i" "i \<in> ?R" "i \<noteq> t" using other_reader_found [OF inv] by blast
      have small: "i < DEFAULT_TRANSACTION_SIZE" using i(2) readers_range(1) [OF inv, of l] by auto
      have "given_back t l s = sl_decref (sl_setCredentials (of_nat i) (sl_getSequence ?x - 1) (sl_setCredentials (of_nat i) (sl_getSequence ?x) ?x))"
        using own more False i(1) by (simp add: given_back_def reassign_lock_def Let_def tx_simps split: option.splits)
      moreover have "i < 65536" using small by (simp add: DEFAULT_TRANSACTION_SIZE_def)
      ultimately show ?thesis using False i(2,3) dec share
        by (simp add: lock_fits_def tx_simps credentials_small [OF small] lock_identifier_set)
    qed
  next
    case False
    then have "given_back t l s = sl_decref (sl_setCredentials (sl_getIdentifier ?x) (sl_getSequence ?x - 1) ?x)"
      by (simp add: given_back_def reassign_lock_def Let_def tx_simps split: option.splits)
    then show ?thesis using False idR dec share lock_okD(1) [OF inv, of l] by (auto simp: lock_fits_def tx_simps)
  qed
  then show "lock_fits (given_back t l s) (?R - {t})" "?R - {t} \<noteq> {} \<Longrightarrow> sl_share (given_back t l s)" by auto
qed

lemma reassign_keeps:
  assumes inv: "locks_inv s" and tx: "s_transactions s t = Some tx" and r: "reassign t s = Inr s'"
  shows "locks_inv s'" "\<exists>w. s_transactions s' t = Some (tx\<lparr>tx_wait := w, tx_readLockSet := []\<rparr>)"
    "u \<noteq> t \<Longrightarrow> holds_write s u m \<Longrightarrow> holds_write s' u m" "u \<noteq> t \<Longrightarrow> holds_read s u m \<Longrightarrow> holds_read s' u m"
proof -
  have ok: "tx_ok s t tx" using locks_invD(1) [OF inv tx] .
  then have t: "tx_identifier tx = t" "distinct (tx_readLockSet tx)" by (auto simp: tx_ok_def)
  have "locks_inv s' \<and> (\<exists>w. s_transactions s' t = Some (tx\<lparr>tx_wait := w, tx_readLockSet := []\<rparr>)) \<and>
    (u \<noteq> t \<longrightarrow> (holds_write s u m \<longrightarrow> holds_write s' u m) \<and> (holds_read s u m \<longrightarrow> holds_read s' u m))"
  proof (cases "tx_readLockSet tx = []")
    case True
    then have "s' = s" using r tx by (simp add: reassign_def get_tx_def)
    then show ?thesis using inv tx True by (auto intro!: exI [of _ "tx_wait tx"])
  next
    case False
    let ?ls = "tx_readLockSet tx" let ?s = "foldl (\<lambda>s' l. reassign_lock t l s') s ?ls"
    obtain w where s1: "s_locks ?s = (\<lambda>l. if l \<in> set ?ls then given_back t l s else s_locks s l)" "s_maxIdentifier ?s = s_maxIdentifier s"
      "s_sequences ?s = s_sequences s" "\<And>u. u \<noteq> t \<Longrightarrow> s_transactions ?s u = s_transactions s u" "s_transactions ?s t = Some (tx\<lparr>tx_wait := w\<rparr>)"
      using reassign_all [OF t(2) tx t(1)] by auto
    let ?tx = "tx\<lparr>tx_wait := w, tx_readLockSet := []\<rparr>"
    have s': "s' = set_tx ?tx ?s" using r tx False s1(5) by (simp add: reassign_def get_tx_def clear_reads_def)
    have tr: "s_transactions s' = (s_transactions s)(t \<mapsto> ?tx)" using s1(4) by (auto simp: s' tx_simps t fun_eq_iff)
    have fields: "s_maxIdentifier s' = s_maxIdentifier s" "s_sequences s' = s_sequences s"
      "s_locks s' = (\<lambda>l. if l \<in> set ?ls then given_back t l s else s_locks s l)" using s1 by (simp_all add: s' tx_simps)
    have rd: "readers s' l = readers s l - {t}" for l unfolding readers_def tr by auto
    have "tx_ok s' v vx" if "s_transactions s' v = Some vx" for v vx
      using that ok locks_invD(1) [OF inv, of v vx] by (auto simp: tr tx_ok_def fields(1,2) split: if_splits)
    moreover have fits: "lock_ok s' l" for l
    proof (cases "l \<in> set ?ls")
      case True
      then show ?thesis using given_back_fits(1) [OF inv, of t l] own_reads [OF tx] by (simp add: lock_ok_fits rd fields(3))
    next
      case out: False
      then have "readers s l - {t} = readers s l" using own_reads [OF tx] by blast
      then show ?thesis using locks_invD(2) [OF inv, of l] out by (simp add: lock_ok_fits rd fields(3))
    qed
    moreover have "holds_write s u m \<Longrightarrow> u \<noteq> t \<Longrightarrow> holds_write s' u m"
    proof -
      assume h: "holds_write s u m" "u \<noteq> t"
      then have "m \<notin> set ?ls" using lock_okD(4) [OF inv, of m] own_reads [OF tx] by (auto simp: holds_write_def)
      then show ?thesis using h by (simp add: holds_write_def tr fields(3))
    qed
    moreover have "holds_read s u m \<Longrightarrow> u \<noteq> t \<Longrightarrow> holds_read s' u m"
    proof -
      assume h: "holds_read s u m" "u \<noteq> t"
      then have "m \<in> set ?ls \<Longrightarrow> sl_share (given_back t m s)"
        using given_back_fits(2) [OF inv, of t m] own_reads [OF tx] by (auto simp: holds_read_def)
      then show ?thesis using h by (simp add: holds_read_def rd fields(3))
    qed
    ultimately show ?thesis using tr by (auto simp: locks_inv_def)
  qed
  then show "locks_inv s'" "\<exists>w. s_transactions s' t = Some (tx\<lparr>tx_wait := w, tx_readLockSet := []\<rparr>)"
    "u \<noteq> t \<Longrightarrow> holds_write s u m \<Longrightarrow> holds_write s' u m" "u \<noteq> t \<Longrightarrow> holds_read s u m \<Longrightarrow> holds_read s' u m" by auto
qed

text \<open>Operations that leave the locks and the read sets of the other transactions alone.\<close>

lemma private_change:
  assumes inv: "locks_inv s" and locks: "s_locks s' = s_locks s"
    and others: "\<And>u. u \<noteq> t \<Longrightarrow> s_transactions s' u = s_transactions s u" "\<And>u. u \<noteq> t \<Longrightarrow> s_sequences s' u = s_sequences s u"
    and top: "\<And>u tx. u \<noteq> t \<Longrightarrow> s_transactions s u = Some tx \<Longrightarrow> u \<le> s_maxIdentifier s'"
    and self: "\<And>tx'. s_transactions s' t = Some tx' \<Longrightarrow> tx_ok s' t tx'"
    and reads: "\<And>l. t \<in> readers s' l \<longleftrightarrow> t \<in> readers s l"
  shows "locks_inv s'" "u \<noteq> t \<Longrightarrow> holds_write s' u m = holds_write s u m" "u \<noteq> t \<Longrightarrow> holds_read s' u m = holds_read s u m"
proof -
  have rd: "readers s' l = readers s l" for l
  proof -
    have "v \<in> readers s' l \<longleftrightarrow> v \<in> readers s l" for v
      using reads [of l] others(1) [of v] by (cases "v = t") (auto simp: readers_def)
    then show ?thesis by blast
  qed
  have "tx_ok s' v vx" if "s_transactions s' v = Some vx" for v vx
    using that self others(1,2) [of v] top [of v vx] locks_invD(1) [OF inv, of v vx] by (cases "v = t") (auto simp: tx_ok_def)
  moreover have "lock_ok s' l" for l using locks_invD(2) [OF inv, of l] by (simp add: lock_ok_fits rd locks)
  ultimately show "locks_inv s'" by (simp add: locks_inv_def)
  show "u \<noteq> t \<Longrightarrow> holds_write s' u m = holds_write s u m" "u \<noteq> t \<Longrightarrow> holds_read s' u m = holds_read s u m"
    using others(1) [of u] by (auto simp: holds_write_def holds_read_def locks rd)
qed

end
