(* ===== verification/LockProtocol.thy ===== *)
theory LockProtocol
  imports RowLock
begin

section \<open>The lock protocol\<close>

text \<open>
  The transactions of the engine as a step relation over the operations of
  \<^verbatim>\<open>core/Transaction.h\<close> and \<open>checkAccessLock\<close>: every reachable system keeps the books of its row locks, no
  step of one transaction takes a lock away from another, and the graph of waiting transactions
  has no cycle.
\<close>

subsection \<open>Steps\<close>

text \<open>The first argument is the transaction that acts.\<close>

inductive lock_step :: "txid \<Rightarrow> tx_system \<Rightarrow> tx_system \<Rightarrow> bool" where
  step_create: "create s = Inr (t, s') \<Longrightarrow> lock_step t s s'"
| step_begin: "tx_begin t s = Inr (level, s') \<Longrightarrow> lock_step t s s'"
| step_access: "checkAccessLock notified t l lock s = Inr (r, s') \<Longrightarrow> lock_step t s s'"
| step_release: "holds_write s t l \<Longrightarrow> lock_step t s (set_lock l (sl_release (s_locks s l)) s)"
| step_finish: "tx_finish Inr t level s = Inr s' \<Longrightarrow> lock_step t s s'"
| step_destroy: "destroy t s = Inr s' \<Longrightarrow> lock_step t s s'"
| step_minimum: "lock_step t s (minimum s)"

inductive lock_reach :: "tx_system \<Rightarrow> bool" where
  reach_init: "lock_reach initial_system"
| reach_step: "lock_reach s \<Longrightarrow> lock_step t s s' \<Longrightarrow> lock_reach s'"

inductive_cases lock_stepE: "lock_step t s s'"

subsection \<open>Steps that no lock depends on\<close>

definition same_for_locks :: "transaction \<Rightarrow> transaction \<Rightarrow> bool" where
  "same_for_locks tx tx' \<longleftrightarrow>
     tx_identifier tx' = tx_identifier tx \<and> tx_sequence tx' = tx_sequence tx \<and> tx_readLockSet tx' = tx_readLockSet tx \<and>
     tx_dirty tx' = tx_dirty tx \<and> tx_viewpoint tx' = tx_viewpoint tx"

definition quiet :: "tx_system \<Rightarrow> tx_system \<Rightarrow> bool" where
  "quiet s s' \<longleftrightarrow>
     s_locks s' = s_locks s \<and> s_sequences s' = s_sequences s \<and> s_maxIdentifier s' = s_maxIdentifier s \<and>
     s_viewpointMinimum s' = s_viewpointMinimum s \<and> s_viewpointSequence s' = s_viewpointSequence s \<and>
     (\<forall>t. rel_option same_for_locks (s_transactions s t) (s_transactions s' t))"

lemma quiet_refl [simp]: "quiet s s"
  by (auto simp: quiet_def same_for_locks_def intro: option.rel_refl)

lemma quiet_trans: "quiet s s' \<Longrightarrow> quiet s' s'' \<Longrightarrow> quiet s s''"
  unfolding quiet_def
  by (metis (mono_tags, lifting) option.rel_sel same_for_locks_def)

lemma quiet_set_tx:
  assumes "s_transactions s (tx_identifier tx) = Some tx" "same_for_locks tx tx'"
  shows "quiet s (set_tx tx' s)"
proof -
  have "rel_option same_for_locks (s_transactions s t) (s_transactions (set_tx tx' s) t)" for t
    using assms by (cases "t = tx_identifier tx") (auto simp: tx_simps same_for_locks_def intro: option.rel_refl)
  then show ?thesis by (simp add: quiet_def tx_simps)
qed

lemma quiet_keeps:
  assumes "locks_inv s" "quiet s s'"
  shows "locks_inv s'" "holds_write s' u m = holds_write s u m" "holds_read s' u m = holds_read s u m"
proof -
  have same: "s_locks s' = s_locks s" "s_sequences s' = s_sequences s" "s_maxIdentifier s' = s_maxIdentifier s"
    using assms(2) by (auto simp: quiet_def)
  have rel: "rel_option same_for_locks (s_transactions s t) (s_transactions s' t)" for t using assms(2) by (simp add: quiet_def)
  have fwd: "s_transactions s t = Some tx \<Longrightarrow> \<exists>tx'. s_transactions s' t = Some tx' \<and> same_for_locks tx tx'" for t tx
    using rel [of t] by (auto simp: option_rel_Some1)
  have bwd: "s_transactions s' t = Some tx' \<Longrightarrow> \<exists>tx. s_transactions s t = Some tx \<and> same_for_locks tx tx'" for t tx'
    using rel [of t] by (auto simp: option_rel_Some2)
  have rd: "readers s' l = readers s l" for l
    using fwd bwd by (fastforce simp: readers_def same_for_locks_def)
  have "tx_ok s' t tx'" if r: "s_transactions s' t = Some tx'" for t tx'
  proof -
    obtain tx where "s_transactions s t = Some tx" "same_for_locks tx tx'" using bwd [OF r] by blast
    then show ?thesis using locks_invD(1) [OF assms(1)] by (auto simp: tx_ok_def same same_for_locks_def)
  qed
  moreover have "lock_ok s' l" for l using locks_invD(2) [OF assms(1), of l] by (simp add: lock_ok_fits rd same)
  ultimately show "locks_inv s'" by (simp add: locks_inv_def)
  show "holds_write s' u m = holds_write s u m"
    using fwd [of u] bwd [of u] by (fastforce simp: holds_write_def same same_for_locks_def)
  show "holds_read s' u m = holds_read s u m" by (simp add: holds_read_def same rd)
qed

text \<open>What a check does besides the acquisition is quiet.\<close>

lemma checkCycleLock_quiet:
  assumes "locks_inv s" "checkCycleLock t n s = Inr (d, otx, s')"
  shows "quiet s s'"
proof -
  obtain tx where tx: "s_transactions s t = Some tx" using assms(2) by (auto simp: checkCycleLock_def get_tx_def split: option.splits)
  have id: "tx_identifier tx = t" using locks_invD(1) [OF assms(1) tx] by (simp add: tx_ok_def)
  let ?tx = "tx\<lparr>tx_waitIdentifier := n\<rparr>" let ?s = "set_tx ?tx s"
  have q1: "quiet s ?s" by (rule quiet_set_tx [where tx = tx]) (simp_all add: tx id same_for_locks_def)
  have q2: "quiet s (set_tx (tx\<lparr>tx_waitIdentifier := 0\<rparr>) ?s)"
    by (rule quiet_trans [OF q1 quiet_set_tx [where tx = ?tx]]) (simp_all add: tx_simps id same_for_locks_def)
  show ?thesis using assms(2) tx q1 q2 by (auto simp: checkCycleLock_def get_tx_def Let_def split: if_splits)
qed

lemma live_identifier: "locks_inv s \<Longrightarrow> s_transactions s t = Some tx \<Longrightarrow> tx_identifier tx = t"
  using locks_invD(1) by (fastforce simp: tx_ok_def)

lemma get_tx_Inr: "get_tx t s = Inr tx \<longleftrightarrow> s_transactions s t = Some tx"
  by (auto simp: get_tx_def split: option.splits)

lemma checkAccessLock_split:
  assumes inv: "locks_inv s" and r: "checkAccessLock notified t l lock s = Inr (res, s')"
  shows "\<exists>wait s1. acquire t l lock s = Inr (wait, s1) \<and> quiet s1 s' \<and> (res = (False, ERR_SUCCESS) \<longleftrightarrow> \<not> wait)"
proof -
  obtain wait s1 where a: "acquire t l lock s = Inr (wait, s1)" using r by (auto simp: checkAccessLock_def result_simps)
  show ?thesis
  proof (cases wait)
    case False
    then show ?thesis using r a by (auto simp: checkAccessLock_def)
  next
    case True
    have inv1: "locks_inv s1" using acquire_keeps(1) [OF inv a] .
    obtain d otx s2 where c: "checkCycleLock t (lock_identifier (s_locks s1 l)) s1 = Inr (d, otx, s2)"
      using r a True by (auto simp: checkAccessLock_def result_simps)
    have q12: "quiet s1 s2" using checkCycleLock_quiet [OF inv1 c] .
    have inv2: "locks_inv s2" using quiet_keeps(1) [OF inv1 q12] .
    obtain itx where itx: "s_transactions s2 t = Some itx" using r a True c by (auto simp: checkAccessLock_def result_simps get_tx_Inr)
    note self = itx live_identifier [OF inv2 itx]
    have q: "same_for_locks itx itx' \<Longrightarrow> quiet s1 (set_tx itx' s2)" for itx'
      using quiet_trans [OF q12 quiet_set_tx [of s2 itx itx']] self by simp
    have rest: "(if d then (case retry_or_fail itx of (r, itx') \<Rightarrow> Inr (r, set_tx itx' s2))
        else (case otx of None \<Rightarrow> Inr ((True, ERR_SUCCESS), set_tx (tx_release itx) s2)
          | Some n \<Rightarrow> rbind (get_tx n s2) (\<lambda>owner.
              if lock_identifier (s_locks s2 l) \<noteq> tx_identifier owner then Inr ((True, ERR_SUCCESS), set_tx (tx_release itx) s2)
              else let s3 = set_tx (owner\<lparr>tx_wait := True\<rparr>) s2 in
                rbind (get_tx t s3) (\<lambda>itx3. Inr (if notified then (True, ERR_SUCCESS) else (False, ERR_TIMEOUT), set_tx (tx_release itx3) s3)))))
       = Inr (res, s')"
      using r by (simp add: checkAccessLock_def a True c get_tx_def [of t s2] itx)
    have rel: "same_for_locks itx (tx_release itx)" "same_for_locks itx (itx\<lparr>tx_retry := tx_retry itx + 1\<rparr>)"
      by (simp_all add: same_for_locks_def tx_release_def)
    have "quiet s1 s' \<and> res \<noteq> (False, ERR_SUCCESS)"
    proof (cases d)
      case True
      then show ?thesis using rest q [OF rel(1)] q [OF rel(2)] by (cases "tx_retry itx > DEFAULT_TRANSACTION_RETRY") (auto simp: retry_or_fail_def)
    next
      case nd: False
      show ?thesis
      proof (cases otx)
        case None
        then show ?thesis using rest nd q [OF rel(1)] by auto
      next
        case (Some n)
        obtain ow where ow: "s_transactions s2 n = Some ow" using rest nd Some by (cases "s_transactions s2 n") (auto simp: get_tx_def)
        let ?s3 = "set_tx (ow\<lparr>tx_wait := True\<rparr>) s2"
        have q23: "quiet s2 ?s3"
          by (rule quiet_set_tx [where tx = ow]) (simp_all add: ow live_identifier [OF inv2 ow] same_for_locks_def)
        have inv3: "locks_inv ?s3" using quiet_keeps(1) [OF inv2 q23] .
        have q3: "quiet s1 (set_tx (tx_release itx3) ?s3)" if i3: "s_transactions ?s3 t = Some itx3" for itx3
          by (rule quiet_trans [OF quiet_trans [OF q12 q23] quiet_set_tx [where tx = itx3]])
             (simp_all add: i3 live_identifier [OF inv3 i3] same_for_locks_def tx_release_def)
        show ?thesis
        proof (cases "lock_identifier (s_locks s2 l) = tx_identifier ow")
          case False
          then show ?thesis using rest nd Some ow q [OF rel(1)] by (auto simp: get_tx_def)
        next
          case True
          obtain itx3 where i3: "s_transactions ?s3 t = Some itx3"
            using rest nd Some ow True by (cases "s_transactions ?s3 t") (auto simp: get_tx_def Let_def)
          then show ?thesis using rest nd Some ow True q3 [OF i3] by (auto simp: get_tx_def Let_def split: if_splits)
        qed
      qed
    qed
    then show ?thesis using a True by blast
  qed
qed

subsection \<open>Every step keeps the books\<close>

definition step_keeps :: "txid \<Rightarrow> tx_system \<Rightarrow> tx_system \<Rightarrow> bool" where
  "step_keeps t s s' \<longleftrightarrow>
     locks_inv s' \<and> (\<forall>u m. u \<noteq> t \<longrightarrow> (holds_write s u m \<longrightarrow> holds_write s' u m) \<and> (holds_read s u m \<longrightarrow> holds_read s' u m))"

lemma quiet_step:
  assumes "locks_inv s" "quiet s s'"
  shows "step_keeps t s s'"
  using quiet_keeps [OF assms] by (simp add: step_keeps_def)

lemma step_keeps_trans: "step_keeps t s s' \<Longrightarrow> step_keeps t s' s'' \<Longrightarrow> step_keeps t s s''"
  by (auto simp: step_keeps_def)

lemma private_step:
  assumes "locks_inv s" "s_locks s' = s_locks s"
    and "\<And>u. u \<noteq> t \<Longrightarrow> s_transactions s' u = s_transactions s u" "\<And>u. u \<noteq> t \<Longrightarrow> s_sequences s' u = s_sequences s u"
    and "\<And>u tx. u \<noteq> t \<Longrightarrow> s_transactions s u = Some tx \<Longrightarrow> u \<le> s_maxIdentifier s'"
    and "\<And>tx'. s_transactions s' t = Some tx' \<Longrightarrow> tx_ok s' t tx'"
    and "\<And>l. t \<in> readers s' l \<longleftrightarrow> t \<in> readers s l"
  shows "step_keeps t s s'"
  using private_change [OF assms] by (simp add: step_keeps_def)

lemma setDirty_step:
  assumes inv: "locks_inv s" and tx: "s_transactions s t = Some tx" "tx_readLockSet tx = []"
  shows "step_keeps t s (setDirty False tx s)"
proof -
  have ok: "tx_ok s t tx" using locks_invD(1) [OF inv tx(1)] .
  then have id: "tx_identifier tx = t" by (simp add: tx_ok_def)
  show ?thesis
    by (rule private_step [OF inv])
       (use ok tx locks_invD(1) [OF inv] in \<open>auto simp: setDirty_def signal_def Let_def tx_simps id tx_ok_def readers_def\<close>)
qed

lemma create_step:
  assumes inv: "locks_inv s" and r: "create s = Inr (t, s')"
  shows "step_keeps t s s'"
proof -
  have f: "find_slot (s_transactions s) (s_theIdentifier s) = Some t" using r by (auto simp: create_def Let_def split: option.splits)
  note slot = find_slot_fixed [OF f]
  have s': "s' = setDirty False (tx_new t (s_sequences s t) (s_isolation s))
      (s\<lparr>s_theIdentifier := t, s_maxIdentifier := (if t > s_maxIdentifier s then t else s_maxIdentifier s)\<rparr>)"
    using r f by (auto simp: create_def Let_def)
  show ?thesis
  proof (rule private_step [OF inv])
    show "u \<le> s_maxIdentifier s'" if "s_transactions s u = Some tx" for u tx
      using locks_invD(1) [OF inv that] by (auto simp: s' setDirty_def signal_def Let_def tx_simps tx_new_def tx_ok_def)
  qed (use slot in \<open>auto simp: s' setDirty_def signal_def Let_def tx_simps tx_new_def tx_ok_def readers_def\<close>)
qed

lemma destroy_max:
  "i \<in> set is \<Longrightarrow> slots i \<noteq> None \<Longrightarrow> i \<le> snd (foldl (destroy_slot slots) ids is)"
proof (induction "is" rule: rev_induct)
  case (snoc j js)
  then show ?case by (auto simp: destroy_slot_def split: option.splits)
qed simp

lemma destroy_step:
  assumes inv: "locks_inv s" and r: "destroy t s = Inr s'"
  shows "step_keeps t s s'"
proof -
  obtain tx where tx: "s_transactions s t = Some tx" using r by (auto simp: destroy_def result_simps get_tx_Inr)
  have clean: "\<not> tx_dirty tx" using r tx by (auto simp: destroy_def get_tx_def split: if_splits)
  let ?ids = "foldl (destroy_slot ((s_transactions s)(t := None))) (s_theIdentifier s, 0) [0..<s_maxIdentifier s + 1]"
  have s': "s' = s\<lparr>s_transactions := (s_transactions s)(t := None), s_sequences := (s_sequences s)(t := next_sequence (tx_sequence tx)),
      s_theIdentifier := fst ?ids, s_maxIdentifier := snd ?ids\<rparr>"
    using r tx clean by (simp add: destroy_def get_tx_def Let_def)
  have none: "tx_readLockSet tx = []" using locks_invD(1) [OF inv tx] clean by (auto simp: tx_ok_def)
  show ?thesis
  proof (rule private_step [OF inv])
    show "u \<le> s_maxIdentifier s'" if "u \<noteq> t" "s_transactions s u = Some ux" for u ux
    proof -
      have "u \<in> set [0..<s_maxIdentifier s + 1]" using locks_invD(1) [OF inv that(2)] unfolding set_upt by (simp add: tx_ok_def)
      then have "u \<le> snd ?ids" by (rule destroy_max) (use that in simp)
      then show ?thesis by (simp add: s')
    qed
  qed (use none tx in \<open>auto simp: s' readers_def\<close>)
qed

lemma finish_step:
  assumes inv: "locks_inv s" and r: "tx_finish Inr t level s = Inr s'"
  shows "step_keeps t s s'"
proof -
  obtain tx where tx: "s_transactions s t = Some tx" using r by (auto simp: tx_finish_def result_simps get_tx_Inr)
  have ok: "tx_ok s t tx" using locks_invD(1) [OF inv tx] .
  show ?thesis
  proof (cases "tx_dirty tx \<and> level = 0")
    case True
    have "\<exists>s1. reassign t s = Inr s1" using tx by (simp add: reassign_def get_tx_def)
    then obtain s1 where s1: "reassign t s = Inr s1" by blast
    note k = reassign_keeps [OF inv tx s1]
    obtain tx1 where tx1: "s_transactions s1 t = Some tx1" "tx_readLockSet tx1 = []" using k(2) by auto
    have "s' = setDirty False tx1 s1" using r tx tx1(1) True s1 by (simp add: tx_finish_def get_tx_def)
    then show ?thesis using setDirty_step [OF k(1) tx1] k by (auto intro: step_keeps_trans simp: step_keeps_def)
  next
    case no: False
    show ?thesis
    proof (cases "level = 0")
      case True
      then have "tx_readLockSet tx = []" "s' = setDirty False tx s" using no r tx ok by (auto simp: tx_finish_def get_tx_def tx_ok_def)
      then show ?thesis using setDirty_step [OF inv tx] by simp
    next
      case False
      then have "s' = set_tx (tx\<lparr>tx_level := level - 1\<rparr>) s" using r tx by (auto simp: tx_finish_def get_tx_def split: if_splits)
      moreover have "quiet s (set_tx (tx\<lparr>tx_level := level - 1\<rparr>) s)"
        by (rule quiet_set_tx [where tx = tx]) (simp_all add: tx live_identifier [OF inv tx] same_for_locks_def)
      ultimately show ?thesis using quiet_step [OF inv] by simp
    qed
  qed
qed

lemma begin_effect:
  assumes "s_transactions s t = Some tx" "tx_begin t s = Inr (level, s')" "tx_identifier tx = t"
  shows "\<exists>lv. s' = set_tx (tx\<lparr>tx_viewpoint := (if tx_viewpoint tx = 0 then s_viewpointSequence s + 1 else tx_viewpoint tx), tx_level := lv\<rparr>)
      (if tx_viewpoint tx = 0 then snd (getNextViewpoint s) else s)"
proof -
  let ?tx = "tx\<lparr>tx_viewpoint := (if tx_viewpoint tx = 0 then s_viewpointSequence s + 1 else tx_viewpoint tx)\<rparr>"
  have "s' = set_tx (snd (begin_level ?tx)) (if tx_viewpoint tx = 0 then snd (getNextViewpoint s) else s)"
    using assms by (cases "tx_viewpoint tx = 0") (auto simp: tx_begin_def get_tx_def Let_def getNextViewpoint_def begin_store_def split: prod.splits)
  moreover have "\<exists>lv. snd (begin_level ?tx) = ?tx\<lparr>tx_level := lv\<rparr>"
    by (cases "tx_level tx + 1 = - 1") (auto simp: begin_level_def intro: exI [of _ "tx_level tx"])
  ultimately show ?thesis by auto
qed

lemma begin_step:
  assumes inv: "locks_inv s" and r: "tx_begin t s = Inr (level, s')"
  shows "step_keeps t s s'"
proof -
  obtain tx where tx: "s_transactions s t = Some tx" using r by (auto simp: tx_begin_def result_simps get_tx_Inr)
  have id: "tx_identifier tx = t" using live_identifier [OF inv tx] .
  obtain lv where s': "s' = set_tx (tx\<lparr>tx_viewpoint := (if tx_viewpoint tx = 0 then s_viewpointSequence s + 1 else tx_viewpoint tx), tx_level := lv\<rparr>)
      (if tx_viewpoint tx = 0 then snd (getNextViewpoint s) else s)" using begin_effect [OF tx r id] by blast
  show ?thesis
    by (rule private_step [OF inv])
       (use tx id locks_invD(1) [OF inv] in \<open>auto simp: s' tx_simps getNextViewpoint_def Let_def tx_ok_def readers_def split: if_splits\<close>)
qed

lemma access_step:
  assumes inv: "locks_inv s" and r: "checkAccessLock notified t l lock s = Inr (res, s')"
  shows "step_keeps t s s'"
proof -
  obtain wait s1 where a: "acquire t l lock s = Inr (wait, s1)" "quiet s1 s'" using checkAccessLock_split [OF inv r] by blast
  have "step_keeps t s s1" using acquire_keeps(1-3) [OF inv a(1)] by (auto simp: step_keeps_def)
  moreover have "step_keeps t s1 s'" using quiet_step [OF acquire_keeps(1) [OF inv a(1)] a(2)] .
  ultimately show ?thesis by (rule step_keeps_trans)
qed

lemma release_step:
  assumes inv: "locks_inv s" and h: "holds_write s t l"
  shows "step_keeps t s (set_lock l (sl_release (s_locks s l)) s)"
proof -
  let ?s = "set_lock l (sl_release (s_locks s l)) s"
  have "lock_ok ?s m" for m
    using locks_invD(2) [OF inv, of m] h
    by (cases "m = l") (auto simp: lock_ok_def Let_def tx_simps holds_write_def DEFAULT_TRANSACTION_SIZE_def)
  moreover have "tx_ok ?s u tx" if "s_transactions ?s u = Some tx" for u tx
    using locks_invD(1) [OF inv, of u tx] that by (simp add: tx_ok_def tx_simps)
  ultimately have "locks_inv ?s" by (simp add: locks_inv_def)
  moreover have "u \<noteq> t \<Longrightarrow> holds_write s u m \<Longrightarrow> holds_write ?s u m" "holds_read s u m \<Longrightarrow> holds_read ?s u m" for u m
    using h by (auto simp: holds_write_def holds_read_def tx_simps)
  ultimately show ?thesis by (simp add: step_keeps_def)
qed

lemma minimum_step: "locks_inv s \<Longrightarrow> step_keeps t s (minimum s)"
  by (rule private_step) (auto simp: minimum_def tx_ok_def readers_def dest: locks_invD(1))

lemma lock_step_keeps: "lock_step t s s' \<Longrightarrow> locks_inv s \<Longrightarrow> step_keeps t s s'"
  by (erule lock_stepE)
     (simp_all add: create_step begin_step access_step release_step finish_step destroy_step minimum_step)

lemma lock_reach_inv: "lock_reach s \<Longrightarrow> locks_inv s"
proof (induction rule: lock_reach.induct)
  case reach_init
  then show ?case
    by (simp add: locks_inv_def initial_system_def lock_ok_def readers_def Let_def DEFAULT_TRANSACTION_SIZE_def sl_new_def sl_getIdentifier_def)
next
  case (reach_step s t s')
  then show ?case using lock_step_keeps by (simp add: step_keeps_def)
qed

text \<open>What a granted lock excludes.\<close>

lemma access_granted:
  assumes inv: "locks_inv s" and r: "checkAccessLock notified t l lock s = Inr ((False, ERR_SUCCESS), s')"
  shows "(\<forall>u. u \<noteq> t \<longrightarrow> \<not> holds_write s' u l) \<and> (lock \<noteq> LOCK_READ \<longrightarrow> holds_write s' t l \<and> (\<forall>u. \<not> holds_read s' u l))"
proof -
  obtain s1 where a: "acquire t l lock s = Inr (False, s1)" "quiet s1 s'" using checkAccessLock_split [OF inv r] by auto
  note k = acquire_keeps [OF inv a(1)] and q = quiet_keeps [OF _ a(2)]
  have w: "holds_write s' t l" if "lock \<noteq> LOCK_READ" using k(1,4) q that by simp
  have rd: "holds_read s' t l \<or> \<not> sl_share (s_locks s' l) \<and> lock_identifier (s_locks s' l) = t" if "lock = LOCK_READ"
    using k(1,5) q that a(2) by (auto simp: quiet_def)
  have "\<not> holds_write s' u l" if "u \<noteq> t" for u
    using w rd that by (cases "lock = LOCK_READ") (auto simp: holds_write_def holds_read_def)
  moreover have "\<not> holds_read s' u l" if "lock \<noteq> LOCK_READ" for u using w [OF that] by (auto simp: holds_write_def holds_read_def)
  ultimately show ?thesis using w by blast
qed

subsection \<open>Waiting transactions\<close>

definition waits :: "(txid \<Rightarrow> transaction option) \<Rightarrow> (txid \<times> txid) set" where
  "waits slots = {(t, u). u \<noteq> 0 \<and> (\<exists>tx. slots t = Some tx \<and> tx_waitIdentifier tx = u)}"

text \<open>A search that ends without a deadlock has seen everything the chain leads to.\<close>

lemma cycle_loop_unreached:
  "\<not> cycle_loop slots me k (slots n) \<Longrightarrow> n \<noteq> me \<Longrightarrow> (n, me) \<notin> (waits slots)\<^sup>*"
proof (induction k arbitrary: n)
  case (Suc k)
  show ?case
  proof
    assume "(n, me) \<in> (waits slots)\<^sup>*"
    then obtain m where m: "(n, m) \<in> waits slots" "(m, me) \<in> (waits slots)\<^sup>*" using Suc.prems(2) by (blast elim: converse_rtranclE)
    then obtain tx where tx: "slots n = Some tx" "tx_waitIdentifier tx = m" "m \<noteq> 0" by (auto simp: waits_def)
    then have "m \<noteq> me" "\<not> cycle_loop slots me k (slots m)" using Suc.prems(1) by (auto split: if_splits)
    then show False using Suc.IH m(2) by blast
  qed
qed simp

text \<open>A chain of at most 64 waiting transactions that comes back is found.\<close>

lemma cycle_loop_finds:
  "(n, me) \<in> waits slots ^^ Suc j \<Longrightarrow> cycle_loop slots me k (slots n)"
proof (induction j arbitrary: n k)
  case 0
  then show ?case by (cases k) (auto simp: waits_def)
next
  case (Suc j)
  then obtain m where m: "(n, m) \<in> waits slots" "(m, me) \<in> waits slots ^^ Suc j" by (meson relpow_Suc_D2)
  then obtain tx where "slots n = Some tx" "tx_waitIdentifier tx = m" "m \<noteq> 0" by (auto simp: waits_def)
  then show ?case using Suc.IH [OF m(2)] by (cases k) auto
qed

lemma waits_update:
  "waits (slots(t \<mapsto> tx)) \<subseteq> (if tx_waitIdentifier tx = 0 then waits slots else insert (t, tx_waitIdentifier tx) (waits slots))"
  by (auto simp: waits_def split: if_splits)

lemma checkCycleLock_acyclic:
  assumes id: "\<And>tx. s_transactions s t = Some tx \<Longrightarrow> tx_identifier tx = t"
    and ac: "acyclic (waits (s_transactions s))" and r: "checkCycleLock t n s = Inr (d, otx, s')"
  shows "acyclic (waits (s_transactions s'))"
proof -
  obtain tx where tx: "s_transactions s t = Some tx" using r by (auto simp: checkCycleLock_def result_simps get_tx_Inr)
  let ?slots = "(s_transactions s)(t \<mapsto> tx\<lparr>tx_waitIdentifier := n\<rparr>)"
  have sl: "s_transactions s' = (if d then (s_transactions s)(t \<mapsto> tx\<lparr>tx_waitIdentifier := 0\<rparr>) else ?slots)"
    and d: "d = (?slots n \<noteq> None \<and> cycle_loop ?slots t DEFAULT_TRANSACTION_INFINITE (?slots n))"
    using r tx id [OF tx] by (auto simp: checkCycleLock_def get_tx_def Let_def tx_simps split: if_splits)
  show ?thesis
  proof (cases "d \<or> n = 0")
    case True
    then have "waits (s_transactions s') \<subseteq> waits (s_transactions s)" by (auto simp: sl waits_def split: if_splits)
    then show ?thesis using ac by (rule acyclic_subset [rotated])
  next
    case False
    have nt: "n \<noteq> t"
    proof
      assume "n = t"
      then have "cycle_loop ?slots t DEFAULT_TRANSACTION_INFINITE (?slots n)" using False by (simp add: DEFAULT_TRANSACTION_INFINITE_def numeral_eq_Suc)
      then show False using False d \<open>n = t\<close> by simp
    qed
    have un: "(n, t) \<notin> (waits ?slots)\<^sup>*"
    proof (cases "?slots n")
      case None
      then have "(n, m) \<notin> waits ?slots" for m using nt by (auto simp: waits_def)
      then show ?thesis using nt by (blast elim: converse_rtranclE)
    next
      case (Some m)
      then show ?thesis using cycle_loop_unreached [of ?slots t DEFAULT_TRANSACTION_INFINITE n] False d nt by simp
    qed
    let ?rest = "waits ?slots - {(t, n)}"
    have e: "waits ?slots = insert (t, n) ?rest" using False by (auto simp: waits_def)
    have "?rest \<subseteq> waits (s_transactions s)" by (auto simp: waits_def split: if_splits)
    then have "acyclic ?rest" using ac acyclic_subset by blast
    moreover have "(n, t) \<notin> ?rest\<^sup>*" using un rtrancl_mono [of ?rest "waits ?slots"] by blast
    ultimately have "acyclic (insert (t, n) ?rest)" unfolding acyclic_insert by blast
    then show ?thesis using False e sl by metis
  qed
qed

lemma cycle_loop_chain:
  assumes "cycle_loop (slots(me \<mapsto> tx)) me k (slots n)" "n \<noteq> me"
  shows "(n, me) \<in> (waits slots)\<^sup>* \<or> (\<exists>m. (n, m) \<in> waits slots ^^ k)"
  using assms
proof (induction k arbitrary: n)
  case (Suc k)
  obtain ntx where n: "slots n = Some ntx" "tx_waitIdentifier ntx \<noteq> 0" using Suc.prems(1) by (cases "slots n") (auto split: if_splits)
  let ?m = "tx_waitIdentifier ntx"
  have e: "(n, ?m) \<in> waits slots" using n by (auto simp: waits_def)
  show ?case
  proof (cases "?m = me")
    case True
    then show ?thesis using e by blast
  next
    case False
    then have "cycle_loop (slots(me \<mapsto> tx)) me k (slots ?m)" using Suc.prems(1) n by (simp add: fun_upd_def)
    from Suc.IH [OF this False] show ?thesis using e by (meson converse_rtrancl_into_rtrancl relpow_Suc_I2)
  qed
qed auto

text \<open>The answer of \<open>checkCycleLock\<close>: a cycle is always reported, and what is reported is a cycle or a chain of 64.\<close>

lemma checkCycleLock_answer:
  assumes tx: "s_transactions s t = Some tx" "tx_identifier tx = t" "tx_waitIdentifier tx = 0" "t \<noteq> 0"
  shows "\<exists>d otx s'. checkCycleLock t n s = Inr (d, otx, s') \<and>
     ((n, t) \<in> (waits (s_transactions s))\<^sup>* \<longrightarrow> d) \<and>
     (d \<longrightarrow> ((n, t) \<in> (waits (s_transactions s))\<^sup>* \<or> (\<exists>m. (n, m) \<in> waits (s_transactions s) ^^ DEFAULT_TRANSACTION_INFINITE))) \<and>
     waits (s_transactions s') = (if d \<or> n = 0 then waits (s_transactions s) else insert (t, n) (waits (s_transactions s)))"
proof -
  let ?slots = "(s_transactions s)(t \<mapsto> tx\<lparr>tx_waitIdentifier := n\<rparr>)"
  define d where "d = (?slots n \<noteq> None \<and> cycle_loop ?slots t DEFAULT_TRANSACTION_INFINITE (?slots n))"
  have up: "waits (s_transactions s) \<subseteq> waits ?slots" using tx by (auto simp: waits_def)
  have d1: "d" if "(n, t) \<in> (waits (s_transactions s))\<^sup>*"
  proof (cases "n = t")
    case True
    then show ?thesis using tx(4) by (simp add: d_def DEFAULT_TRANSACTION_INFINITE_def numeral_eq_Suc)
  next
    case False
    then have "(n, t) \<in> (waits (s_transactions s))\<^sup>+" using that by (auto simp: rtrancl_eq_or_trancl)
    then obtain m where "(n, m) \<in> waits (s_transactions s)" by (meson converse_tranclE)
    then have "?slots n \<noteq> None" by (auto simp: waits_def)
    moreover have "(n, t) \<in> (waits ?slots)\<^sup>+" using \<open>(n, t) \<in> (waits (s_transactions s))\<^sup>+\<close> up by (rule trancl_mono)
    then obtain j where j: "(n, t) \<in> waits ?slots ^^ Suc j" by (auto simp: trancl_power gr0_conv_Suc)
    ultimately show ?thesis using cycle_loop_finds [OF j] by (simp add: d_def)
  qed
  have d2: "(n, t) \<in> (waits (s_transactions s))\<^sup>* \<or> (\<exists>m. (n, m) \<in> waits (s_transactions s) ^^ DEFAULT_TRANSACTION_INFINITE)" if d
  proof (cases "n = t")
    case False
    then have "cycle_loop ?slots t DEFAULT_TRANSACTION_INFINITE (s_transactions s n)" using that by (simp add: d_def)
    then show ?thesis by (rule cycle_loop_chain [OF _ False])
  qed simp
  let ?otx = "if ?slots n = None then None else Some n"
  let ?s' = "if d then set_tx (tx\<lparr>tx_waitIdentifier := 0\<rparr>) (set_tx (tx\<lparr>tx_waitIdentifier := n\<rparr>) s) else set_tx (tx\<lparr>tx_waitIdentifier := n\<rparr>) s"
  have c: "checkCycleLock t n s = Inr (d, ?otx, ?s')"
    using tx(1,2) by (simp add: checkCycleLock_def get_tx_def Let_def tx_simps d_def)
  have w: "waits (s_transactions ?s') = (if d \<or> n = 0 then waits (s_transactions s) else insert (t, n) (waits (s_transactions s)))"
    using tx by (auto simp: waits_def tx_simps split: if_splits)
  show ?thesis using c d1 d2 w by blast
qed

subsection \<open>Viewpoints in use\<close>

text \<open>The smallest viewpoint bounds the viewpoints of all transactions.\<close>

definition views_inv :: "tx_system \<Rightarrow> bool" where
  "views_inv s \<longleftrightarrow>
     s_viewpointMinimum s \<le> s_viewpointSequence s \<and>
     (\<forall>t tx. s_transactions s t = Some tx \<longrightarrow> tx_viewpoint tx \<noteq> 0 \<longrightarrow>
        s_viewpointMinimum s \<noteq> 0 \<and> s_viewpointMinimum s \<le> tx_viewpoint tx \<and> tx_viewpoint tx \<le> s_viewpointSequence s)"

text \<open>A step that starts no view.\<close>

definition no_new_view :: "tx_system \<Rightarrow> tx_system \<Rightarrow> bool" where
  "no_new_view s s' \<longleftrightarrow>
     s_viewpointMinimum s' = s_viewpointMinimum s \<and> s_viewpointSequence s' = s_viewpointSequence s \<and>
     (\<forall>t tx'. s_transactions s' t = Some tx' \<longrightarrow> tx_viewpoint tx' \<noteq> 0 \<longrightarrow>
        (\<exists>tx. s_transactions s t = Some tx \<and> tx_viewpoint tx = tx_viewpoint tx'))"

lemma no_new_view_keeps: "no_new_view s s' \<Longrightarrow> views_inv s \<Longrightarrow> views_inv s'"
  unfolding no_new_view_def views_inv_def by metis

lemma no_new_view_refl [simp]: "no_new_view s s"
  by (simp add: no_new_view_def)

lemma no_new_view_trans: "no_new_view s s' \<Longrightarrow> no_new_view s' s'' \<Longrightarrow> no_new_view s s''"
  unfolding no_new_view_def by metis

lemma no_new_view_set_tx:
  assumes "s_transactions s (tx_identifier tx') = Some tx" "tx_viewpoint tx' = tx_viewpoint tx \<or> tx_viewpoint tx' = 0"
  shows "no_new_view s (set_tx tx' s)"
  using assms by (auto simp: no_new_view_def tx_simps)

lemma no_new_view_lock [simp]: "no_new_view s (set_lock l x s)"
  by (simp add: no_new_view_def tx_simps)

lemma acquire_view:
  assumes inv: "locks_inv s" and r: "acquire t l lock s = Inr (wait, s')"
  shows "no_new_view s s'"
proof -
  obtain tx where tx: "s_transactions s t = Some tx" using r by (auto simp: acquire_def result_simps get_tx_Inr)
  have id: "tx_identifier tx = t" using live_identifier [OF inv tx] .
  obtain b x1 where b: "lockable (s_locks s l) t (lock = LOCK_READ) (s_sequences s) = (b, x1)" by fastforce
  obtain tx' x' where s': "s' = set_tx tx' (set_lock l x' s)" and f: "tx_identifier tx' = t \<and> tx_viewpoint tx' = tx_viewpoint tx"
    using r tx b id
    by (auto simp: acquire_def get_tx_def Let_def acquire_read_def acquire_write_def take_read_def take_write_def drop_read_def
        split: if_splits prod.splits)
  show ?thesis unfolding s'
    by (rule no_new_view_trans [OF no_new_view_lock no_new_view_set_tx [where tx = tx]]) (use f tx in \<open>simp_all add: tx_simps\<close>)
qed

lemma quiet_view: "quiet s s' \<Longrightarrow> no_new_view s s'"
  unfolding no_new_view_def quiet_def
  by (auto simp: same_for_locks_def) (metis (mono_tags, lifting) option_rel_Some2 same_for_locks_def)

lemma setDirty_view: "s_transactions s (tx_identifier tx) = Some tx0 \<Longrightarrow> no_new_view s (setDirty False tx s)"
  by (simp add: no_new_view_def setDirty_def signal_def Let_def tx_simps)

lemma reassign_views:
  "s_viewpointMinimum (foldl (\<lambda>s' l. reassign_lock t l s') s ls) = s_viewpointMinimum s \<and>
   s_viewpointSequence (foldl (\<lambda>s' l. reassign_lock t l s') s ls) = s_viewpointSequence s"
proof (induction ls rule: rev_induct)
  case (snoc l ls)
  have "s_viewpointMinimum (reassign_lock t l s') = s_viewpointMinimum s' \<and> s_viewpointSequence (reassign_lock t l s') = s_viewpointSequence s'" for s'
    by (simp add: reassign_lock_def Let_def tx_simps split: option.splits)
  then show ?case using snoc by simp
qed simp

lemma reassign_view:
  assumes inv: "locks_inv s" and tx: "s_transactions s t = Some tx" and r: "reassign t s = Inr s'"
  shows "no_new_view s s'"
proof (cases "tx_readLockSet tx = []")
  case True
  then show ?thesis using r tx by (simp add: reassign_def get_tx_def)
next
  case False
  have id: "tx_identifier tx = t" "distinct (tx_readLockSet tx)" using locks_invD(1) [OF inv tx] by (auto simp: tx_ok_def)
  let ?s = "foldl (\<lambda>s' l. reassign_lock t l s') s (tx_readLockSet tx)"
  obtain w where "\<And>u. u \<noteq> t \<Longrightarrow> s_transactions ?s u = s_transactions s u" "s_transactions ?s t = Some (tx\<lparr>tx_wait := w\<rparr>)"
    using reassign_all [OF id(2) tx id(1)] by auto
  then show ?thesis using r tx False id(1) reassign_views [of t s "tx_readLockSet tx"]
    by (auto simp: reassign_def get_tx_def clear_reads_def no_new_view_def tx_simps split: if_splits)
qed

lemma finish_view:
  assumes inv: "locks_inv s" and r: "tx_finish Inr t level s = Inr s'"
  shows "no_new_view s s'"
proof -
  obtain tx where tx: "s_transactions s t = Some tx" using r by (auto simp: tx_finish_def result_simps get_tx_Inr)
  obtain s1 where s1: "(if tx_dirty tx then (if level = 0 then reassign t s else Inr s) else Inr s) = Inr s1"
    using r tx by (auto simp: tx_finish_def result_simps get_tx_Inr split: if_splits)
  have v: "no_new_view s s1" "locks_inv s1"
    using s1 reassign_view [OF inv tx] reassign_keeps(1) [OF inv tx] inv by (auto split: if_splits)
  obtain tx1 where tx1: "s_transactions s1 t = Some tx1" using r tx s1 by (auto simp: tx_finish_def result_simps get_tx_Inr split: if_splits)
  have "s' = (if level = 0 then setDirty False tx1 s1 else set_tx (tx1\<lparr>tx_level := level - 1\<rparr>) s1)"
    using r tx s1 tx1 by (auto simp: tx_finish_def get_tx_def split: if_splits)
  moreover have "no_new_view s1 (setDirty False tx1 s1)" using setDirty_view [of s1 tx1 tx1] tx1 live_identifier [OF v(2) tx1] by simp
  moreover have "no_new_view s1 (set_tx (tx1\<lparr>tx_level := level - 1\<rparr>) s1)"
    by (rule no_new_view_set_tx [where tx = tx1]) (simp_all add: tx1 live_identifier [OF v(2) tx1])
  ultimately show ?thesis using no_new_view_trans [OF v(1)] by simp
qed

lemma begin_views:
  assumes inv: "locks_inv s" "views_inv s" and r: "tx_begin t s = Inr (level, s')" and wrap: "s_viewpointSequence s \<noteq> - 1"
  shows "views_inv s'"
proof -
  obtain tx where tx: "s_transactions s t = Some tx" using r by (auto simp: tx_begin_def result_simps get_tx_Inr)
  have id: "tx_identifier tx = t" using live_identifier [OF inv(1) tx] .
  obtain lv where s': "s' = set_tx (tx\<lparr>tx_viewpoint := (if tx_viewpoint tx = 0 then s_viewpointSequence s + 1 else tx_viewpoint tx), tx_level := lv\<rparr>)
      (if tx_viewpoint tx = 0 then snd (getNextViewpoint s) else s)" using begin_effect [OF tx r id] by blast
  let ?v = "s_viewpointSequence s"
  have "?v < ?v + 1" using wrap inc_less_eq_self_iff_eq [of ?v] by (simp add: not_le [symmetric])
  then have up: "w \<le> ?v \<Longrightarrow> w \<le> ?v + 1" "?v + 1 \<noteq> 0" for w by auto
  show ?thesis
  proof (cases "tx_viewpoint tx = 0")
    case False
    then show ?thesis using inv(2) tx by (auto simp: s' views_inv_def tx_simps id)
  next
    case True
    have m: "s_viewpointMinimum s' = (if s_viewpointMinimum s = 0 then ?v + 1 else s_viewpointMinimum s)" "s_viewpointSequence s' = ?v + 1"
      by (simp_all add: s' True tx_simps getNextViewpoint_def Let_def)
    have one: "s_viewpointMinimum s' \<noteq> 0 \<and> s_viewpointMinimum s' \<le> tx_viewpoint ux \<and> tx_viewpoint ux \<le> s_viewpointSequence s'"
      if a: "s_transactions s' u = Some ux" "tx_viewpoint ux \<noteq> 0" for u ux
    proof (cases "u = t")
      case self: True
      then have "tx_viewpoint ux = ?v + 1" using a(1) by (auto simp: s' True tx_simps id)
      then show ?thesis using m up inv(2) by (auto simp: views_inv_def)
    next
      case False
      then have "s_transactions s u = Some ux" using a(1) by (simp add: s' True tx_simps id getNextViewpoint_def Let_def)
      then show ?thesis using inv(2) a(2) up(1) unfolding views_inv_def m by auto
    qed
    moreover have "s_viewpointMinimum s' \<le> s_viewpointSequence s'" using inv(2) up(1) by (simp add: m views_inv_def)
    ultimately show ?thesis by (auto simp: views_inv_def)
  qed
qed

lemma minimum_views:
  assumes inv: "locks_inv s" "views_inv s"
  shows "views_inv (minimum s)"
proof -
  let ?V = "viewpoints s [0..<s_maxIdentifier s + 1]"
  have fin: "finite ?V" using foldl_smaller by blast
  have mem: "s_transactions s t = Some tx \<Longrightarrow> tx_viewpoint tx \<noteq> 0 \<Longrightarrow> tx_viewpoint tx \<in> ?V" for t tx
    using locks_invD(1) [OF inv(1), of t tx] unfolding viewpoints_def set_upt tx_ok_def
    by (intro CollectI exI [of _ tx] exI [of _ t]) simp
  have seen: "v \<in> ?V \<Longrightarrow> v \<noteq> 0 \<and> v \<le> s_viewpointSequence s" for v
    using inv(2) by (auto simp: viewpoints_def views_inv_def)
  have least: "v \<in> ?V \<Longrightarrow> Min ?V \<noteq> 0 \<and> Min ?V \<le> v \<and> v \<le> s_viewpointSequence s" for v
    using Min_in [OF fin] Min_le [OF fin, of v] seen by blast
  have low: "?V \<noteq> {} \<Longrightarrow> Min ?V \<le> s_viewpointSequence s" using least Min_in [OF fin] by blast
  have mn: "s_viewpointMinimum (minimum s) = (if ?V = {} then 0 else Min ?V)" by (simp only: minimum_value Let_def)
  have "s_viewpointMinimum (minimum s) \<noteq> 0 \<and> s_viewpointMinimum (minimum s) \<le> tx_viewpoint tx \<and> tx_viewpoint tx \<le> s_viewpointSequence s"
    if "s_transactions s t = Some tx" "tx_viewpoint tx \<noteq> 0" for t tx
    using least [OF mem [OF that]] mem [OF that] mn by auto
  moreover have "s_viewpointMinimum (minimum s) \<le> s_viewpointSequence s" using mn low by simp
  ultimately show ?thesis unfolding views_inv_def by (auto simp: minimum_def)
qed

lemma access_view:
  assumes inv: "locks_inv s" and r: "checkAccessLock notified t l lock s = Inr (res, s')"
  shows "no_new_view s s'"
  using checkAccessLock_split [OF inv r] acquire_view [OF inv] quiet_view no_new_view_trans by blast

lemma create_view: "create s = Inr (t, s') \<Longrightarrow> no_new_view s s'"
  by (auto simp: create_def Let_def no_new_view_def setDirty_def signal_def tx_simps tx_new_def split: option.splits if_splits)

lemma destroy_view: "destroy t s = Inr s' \<Longrightarrow> no_new_view s s'"
  by (auto simp: destroy_def result_simps Let_def no_new_view_def split: if_splits)

lemma lock_step_view:
  assumes "lock_step t s s'" "locks_inv s"
  shows "no_new_view s s' \<or> (\<exists>level. tx_begin t s = Inr (level, s')) \<or> s' = minimum s"
  using assms(1)
proof (cases rule: lock_step.cases)
  case step_create
  then show ?thesis using create_view by blast
next
  case (step_access notified l lock r)
  then show ?thesis using access_view [OF assms(2)] by blast
next
  case (step_release l)
  then show ?thesis by simp
next
  case (step_finish level)
  then show ?thesis using finish_view [OF assms(2)] by blast
next
  case step_destroy
  then show ?thesis using destroy_view by blast
qed blast+

lemma lock_step_views:
  assumes "lock_step t s s'" "locks_inv s" "views_inv s" "s_viewpointSequence s \<noteq> - 1"
  shows "views_inv s'"
  using lock_step_view [OF assms(1,2)] no_new_view_keeps [OF _ assms(3)] begin_views [OF assms(2,3) _ assms(4)] minimum_views [OF assms(2,3)]
  by blast

lemma views_inv_viewing:
  assumes "views_inv s" "s_transactions s t = Some tx" "tx_viewpoint tx \<noteq> 0" "tx_viewpoint tx \<le> limit"
  shows "viewing limit s"
proof -
  have "s_viewpointMinimum s \<noteq> 0" "s_viewpointMinimum s \<le> tx_viewpoint tx" using assms(1-3) by (auto simp: views_inv_def)
  moreover have "limit \<noteq> 0" using assms(3,4) by auto
  ultimately show ?thesis using assms(4) by (simp add: viewing_def)
qed

lemma lock_step_sequence:
  assumes "lock_step t s s'" "locks_inv s" "s_viewpointSequence s + 1 \<noteq> 0"
  shows "s_viewpointSequence s \<le> s_viewpointSequence s'"
proof -
  have "s_viewpointSequence s \<le> s_viewpointSequence s'" if b: "tx_begin t s = Inr (level, s')" for level
  proof -
    obtain tx where tx: "s_transactions s t = Some tx" using b by (auto simp: tx_begin_def result_simps get_tx_Inr)
    obtain lv where "s' = set_tx (tx\<lparr>tx_viewpoint := (if tx_viewpoint tx = 0 then s_viewpointSequence s + 1 else tx_viewpoint tx), tx_level := lv\<rparr>)
      (if tx_viewpoint tx = 0 then snd (getNextViewpoint s) else s)" using begin_effect [OF tx b live_identifier [OF assms(2) tx]] by blast
    then show ?thesis using less_imp_le [OF next_viewpoint(1) [OF assms(3)]] by (simp add: tx_simps getNextViewpoint_def Let_def)
  qed
  then show ?thesis using lock_step_view [OF assms(1,2)] by (auto simp: no_new_view_def minimum_def)
qed

subsection \<open>Runs\<close>

text \<open>What a transaction \<open>u\<close> relies on while others act: it keeps its locks.\<close>

definition others_step :: "txid \<Rightarrow> tx_system \<Rightarrow> tx_system \<Rightarrow> bool" where
  "others_step u s s' \<longleftrightarrow> (\<exists>t. t \<noteq> u \<and> lock_step t s s')"

definition keeps_locks :: "txid \<Rightarrow> tx_system \<Rightarrow> tx_system \<Rightarrow> bool" where
  "keeps_locks u s s' \<longleftrightarrow> (\<forall>l. (holds_write s u l \<longrightarrow> holds_write s' u l) \<and> (holds_read s u l \<longrightarrow> holds_read s' u l))"

interpretation row_locks: protocol "others_step u" locks_inv "keeps_locks u" for u
  by unfold_locales (auto simp: others_step_def keeps_locks_def step_keeps_def dest: lock_step_keeps)

text \<open>What the purger relies on while the viewpoints do not run out: the smallest viewpoint bounds those in use.\<close>

definition view_step :: "tx_system \<Rightarrow> tx_system \<Rightarrow> bool" where
  "view_step s s' \<longleftrightarrow> s_viewpointSequence s + 1 \<noteq> 0 \<and> (\<exists>t. lock_step t s s')"

lemma view_step_ok:
  assumes "view_step s s'" "locks_inv s \<and> views_inv s"
  shows "(locks_inv s' \<and> views_inv s') \<and> s_viewpointSequence s \<le> s_viewpointSequence s'"
proof -
  obtain t where t: "lock_step t s s'" "s_viewpointSequence s + 1 \<noteq> 0" using assms(1) by (auto simp: view_step_def)
  then have "s_viewpointSequence s \<noteq> - 1" by auto
  then show ?thesis using t assms(2) lock_step_keeps [OF t(1)] lock_step_views [OF t(1)] lock_step_sequence [OF t(1)] by (auto simp: step_keeps_def)
qed

interpretation live_views: protocol view_step "\<lambda>s. locks_inv s \<and> views_inv s" "\<lambda>s s'. s_viewpointSequence s \<le> s_viewpointSequence s'"
  by unfold_locales (use view_step_ok in \<open>auto intro: order_trans\<close>)

end
