(* ===== verification/RowVersions.thy ===== *)
theory RowVersions
  imports RowLock
begin

section \<open>Versions of a row\<close>

text \<open>
  What a transaction does to one row of a primary map that has no secondary maps: \<open>putTransaction\<close>,
  \<open>removeTransaction\<close>, \<open>versionInformation\<close>, \<open>commitCacheMemory\<close>, \<open>abortCacheMemory\<close>, \<open>checkIsolateLock\<close> and \<open>get\<close> of
  \<^verbatim>\<open>src/ENGINE/service/src/main/native/com/deepis/db/store/relative/core/RealTimeMap.cxx\<close> and \<open>deleteUnviewed\<close> of \<^verbatim>\<open>core/RealTimeAdaptive.h\<close>, without the segment trees the rows are
  kept in. The rows of a map share no versions, so a row has a heap of its own; an
  address that is handed out by \<open>newInfo\<close> is a fresh one. The lock of the row has been taken by
  \<open>checkAccessLock\<close> before \<open>put_row\<close> and \<open>remove_row\<close> run.
  The clean-up of old versions that \<open>putTransaction\<close> makes on its way is the separate step \<open>deleteUnviewed\<close>.
  Statistics, dirty marks of segments, memory accounting and the messages to other nodes do not touch
  the versions and are left out; file positions and the compression of a value are arguments.
\<close>

subsection \<open>A row\<close>

record row =
  r_heap :: heap
  r_free :: addr
  r_story :: storyline

definition r_root :: "row \<Rightarrow> addr option" where
  "r_root r = st_orginfo (r_story r)"

definition empty_row :: row where
  "empty_row = \<lparr>r_heap = (\<lambda>_. None), r_free = 0, r_story = \<lparr>st_orginfo = None, st_slock = None\<rparr>\<rparr>"

definition with_info :: "addr option \<Rightarrow> (information \<Rightarrow> information) \<Rightarrow> row \<Rightarrow> row result" where
  "with_info p f r = rbind (on_info p f (r_heap r)) (\<lambda>h. Inr (r\<lparr>r_heap := h\<rparr>))"

definition with_story :: "(storyline \<Rightarrow> storyline result) \<Rightarrow> row \<Rightarrow> row result" where
  "with_story f r = rbind (f (r_story r)) (\<lambda>s. Inr (r\<lparr>r_story := s\<rparr>))"

definition new_version :: "information \<Rightarrow> row \<Rightarrow> addr \<times> row" where
  "new_version i r = (r_free r, r\<lparr>r_heap := (r_heap r)(r_free r \<mapsto> i), r_free := r_free r + 1\<rparr>)"

text \<open>\<open>Converter<Information*>::destroy\<close>.\<close>

definition destroy_info :: "addr \<Rightarrow> row \<Rightarrow> row result" where
  "destroy_info a r =
     rbind (deref (r_heap r) (Some a)) (\<lambda>i.
       let n = fst (decref (i_refcnt i)) in
       Inr (r\<lparr>r_heap := (r_heap r)(a := (if n = 0 then None else Some (i\<lparr>i_refcnt := n\<rparr>)))\<rparr>))"

text \<open>\<open>markRooted\<close>, \<open>clearRooted\<close> and \<open>setValue\<close> of a map entry (\<^verbatim>\<open>core/Segment.h\<close>).\<close>

definition mark_rooted :: "int \<Rightarrow> bool \<Rightarrow> addr option \<Rightarrow> row \<Rightarrow> row result" where
  "mark_rooted index flag p r =
     (case p of
        None \<Rightarrow> Inr r
      | Some a \<Rightarrow>
          if index < 0 then Inr r
          else rbind (deref (r_heap r) p) (\<lambda>i.
            if getLevel i \<noteq> LEVEL_COMMIT
            then rbind (setRooted index flag i) (\<lambda>i'. Inr (r\<lparr>r_heap := (r_heap r)(a \<mapsto> i')\<rparr>))
            else Inr r))"

definition set_root :: "int \<Rightarrow> addr option \<Rightarrow> row \<Rightarrow> row result" where
  "set_root index p r =
     rbind (mark_rooted index False (r_root r) r) (\<lambda>r1.
       mark_rooted index True p (r1\<lparr>r_story := (r_story r1)\<lparr>st_orginfo := p\<rparr>\<rparr>))"

subsection \<open>Writing\<close>

datatype write_option = STANDARD | EXISTING | OVERRIDE | RESERVED | UNIQUE

datatype delete_option = DELETE_RETURN | DELETE_IGNORE | DELETE_POPULATED

definition copyValueIntoInformation :: "ubytetype list \<Rightarrow> information \<Rightarrow> information" where
  "copyValueIntoInformation value i = i\<lparr>i_data := Some value, i_size := of_nat (length value)\<rparr>"

text \<open>A version at another level than the transaction gets a successor, one at its level is written over.\<close>

definition versionInformation ::
    "key_env \<Rightarrow> transaction \<Rightarrow> addr \<Rightarrow> ubytetype list option \<Rightarrow> bool \<Rightarrow> row \<Rightarrow> (addr \<times> row) result" where
  "versionInformation env tx preinfo value compressed r =
     rbind (deref (r_heap r) (Some preinfo)) (\<lambda>pi.
     let (curinfo, r1) =
       (if getLevel pi \<noteq> tx_level tx
        then
          (case new_version (setDiverging (getDiverging pi) (setLevel (tx_level tx) (newInfo (if compressed then CMPRS else WRITE)))) r of
             (a, r') \<Rightarrow> (a, r'\<lparr>r_heap := (r_heap r')(preinfo \<mapsto> setNext (Some a) (loaded env (setUpdating False pi)))\<rparr>))
        else (preinfo, r)) in
     case value of
       None \<Rightarrow> Inr (curinfo, r1)
     | Some bs \<Rightarrow> rbind (with_info (Some curinfo) (copyValueIntoInformation bs) r1) (\<lambda>r2. Inr (curinfo, r2)))"

text \<open>Where a streamed value lies in its file: position, file index and offset in the compressed block.\<close>

definition set_position :: "uinttype \<Rightarrow> 16 word \<Rightarrow> uinttype \<Rightarrow> bool \<Rightarrow> addr \<Rightarrow> row \<Rightarrow> row result" where
  "set_position position index coff compressed a r =
     (if position \<noteq> 0
      then rbind (deref (r_heap r) (Some a)) (\<lambda>i.
             let i1 = i\<lparr>i_fileIndex := index, i_filePosition := position\<rparr> in
             rbind (if compressed then setCompressedOffset coff i1 else Inr i1) (\<lambda>i2.
               Inr (r\<lparr>r_heap := (r_heap r)(a \<mapsto> i2)\<rparr>)))
      else Inr r)"

text \<open>
  The result: success, error code, the row, the version that goes into the conductor of the
  transaction and whether the merge of levels can no longer be shortened (\<open>m_mergeOptimize = -1\<close>).
\<close>

type_synonym written = "bool \<times> error_code \<times> row \<times> addr option \<times> bool"

definition put_active ::
    "key_env \<Rightarrow> transaction \<Rightarrow> ubytetype list \<Rightarrow> write_option \<Rightarrow> bool \<Rightarrow> uinttype \<Rightarrow> 16 word \<Rightarrow> uinttype \<Rightarrow> addr \<Rightarrow> row \<Rightarrow> written result" where
  "put_active env tx value option compressed position index coff trxinfo r =
     rbind (deref (r_heap r) (Some trxinfo)) (\<lambda>ti.
       if getDeleting ti \<and> option = EXISTING then Inr (False, ERR_NOT_FOUND, r, None, False)
       else if \<not> getDeleting ti \<and> (option = RESERVED \<or> option = UNIQUE) then Inr (False, ERR_DUPLICATE, r, None, False)
       else
         rbind (versionInformation env tx trxinfo (Some value) compressed r) (\<lambda>(newinfo, r1).
         rbind (if getDeleting ti then with_info (Some newinfo) (setDeleting False \<circ> setCreating True) r1 else Inr r1) (\<lambda>r2.
         rbind (set_position position index coff compressed newinfo r2) (\<lambda>r3.
           if newinfo \<noteq> trxinfo
           then rbind (with_info (Some newinfo) (setNext (r_root r3) \<circ> setUpdating True) r3) (\<lambda>r4.
                  Inr (True, ERR_SUCCESS, r4, Some newinfo, getLevel ti \<noteq> LEVEL_COMMIT))
           else Inr (True, ERR_SUCCESS, r3, None, False)))))"

definition put_committed ::
    "key_env \<Rightarrow> transaction \<Rightarrow> ubytetype list \<Rightarrow> write_option \<Rightarrow> bool \<Rightarrow> uinttype \<Rightarrow> 16 word \<Rightarrow> uinttype \<Rightarrow> addr \<Rightarrow> row \<Rightarrow> written result" where
  "put_committed env tx value option compressed position index coff topinfo r =
     rbind (deref (r_heap r) (Some topinfo)) (\<lambda>ti.
       if option = UNIQUE \<and> \<not> getDeleting ti then Inr (False, ERR_DUPLICATE, r, None, False)
       else
         rbind (versionInformation env tx topinfo (Some value) compressed r) (\<lambda>(newinfo, r1).
         rbind (with_info (Some newinfo)
                  (setNext (r_root r1) \<circ> setUpdating True \<circ>
                   (if getLevel ti = LEVEL_COMMIT \<and> getDeleting ti then setCreating True else id) \<circ> setDeleting False \<circ> setCreating False) r1) (\<lambda>r2.
         rbind (set_position position index coff compressed newinfo r2) (\<lambda>r3.
           Inr (True, ERR_SUCCESS, r3, Some newinfo, False)))))"

definition put_new ::
    "key_env \<Rightarrow> transaction \<Rightarrow> ubytetype list \<Rightarrow> write_option \<Rightarrow> bool \<Rightarrow> uinttype \<Rightarrow> 16 word \<Rightarrow> uinttype \<Rightarrow> row \<Rightarrow> written result" where
  "put_new env tx value option compressed position index coff r =
     (if option = EXISTING then Inr (False, ERR_NOT_FOUND, r, None, False)
      else
        let i = copyValueIntoInformation value (setLevel (tx_level tx) (setCreating True (newInfo (if compressed then CMPRS else WRITE))));
            (newinfo, r1) = new_version i r in
        rbind (set_root (ke_indexValue env) (Some newinfo) r1) (\<lambda>r2.
        rbind (with_story (\<lambda>s. setLockCredentials (of_nat (tx_identifier tx)) (tx_sequence tx) (initStoryLock s)) r2) (\<lambda>r3.
        rbind (set_position position index coff compressed newinfo r3) (\<lambda>r4.
          Inr (True, ERR_SUCCESS, r4, Some newinfo, False)))))"

definition put_row ::
    "key_env \<Rightarrow> transaction \<Rightarrow> ubytetype list \<Rightarrow> write_option \<Rightarrow> bool \<Rightarrow> uinttype \<Rightarrow> 16 word \<Rightarrow> uinttype \<Rightarrow> row \<Rightarrow> written result" where
  "put_row env tx value option compressed position index coff r =
     rbind (isolateLevel (r_heap r) (r_root r) LEVEL_COMMIT) (\<lambda>topinfo.
     rbind (isolateActive (r_heap r) topinfo) (\<lambda>trxinfo.
       case trxinfo of
         Some a \<Rightarrow> put_active env tx value option compressed position index coff a r
       | None \<Rightarrow>
           (case topinfo of
              None \<Rightarrow> put_new env tx value option compressed position index coff r
            | Some a \<Rightarrow>
                rbind (deref (r_heap r) topinfo) (\<lambda>ti.
                  if getLevel ti > LEVEL_MERGED then put_committed env tx value option compressed position index coff a r
                  else put_new env tx value option compressed position index coff r))))"

text \<open>\<open>value\<close> is in and out: it is filled from the row unless the caller has filled it.\<close>

definition remove_row ::
    "key_env \<Rightarrow> transaction \<Rightarrow> ubytetype list \<Rightarrow> delete_option \<Rightarrow> bool \<Rightarrow> row \<Rightarrow> (written \<times> ubytetype list) result" where
  "remove_row env tx value option compressed r =
     rbind (isolateLevel (r_heap r) (r_root r) LEVEL_COMMIT) (\<lambda>topinfo.
       case topinfo of
         None \<Rightarrow> Inr ((False, ERR_SUCCESS, r, None, False), value)
       | Some a \<Rightarrow>
           rbind (deref (r_heap r) topinfo) (\<lambda>ti.
           let ti' = (if option = DELETE_POPULATED
                      then (if i_data ti = None then copyValueIntoInformation value ti else ti)
                      else loaded env ti);
               r1 = r\<lparr>r_heap := (r_heap r)(a \<mapsto> ti')\<rparr> in
           rbind (if option = DELETE_POPULATED then Inr value
                  else case i_data ti' of None \<Rightarrow> Inl NullDeref | Some bs \<Rightarrow> Inr bs) (\<lambda>value'.
           rbind (isolateActiveFirst (r_heap r1) topinfo True) (\<lambda>trxinfo.
           rbind (deref (r_heap r1) trxinfo) (\<lambda>xi.
             if getDeleting xi then Inr ((True, ERR_SUCCESS, r1, None, False), value')
             else
               rbind (versionInformation env tx (the trxinfo) (Some value') compressed r1) (\<lambda>(delinfo, r2).
               rbind (with_info (Some delinfo) (setCreating False \<circ> setDeleting True) r2) (\<lambda>r3.
                 if Some delinfo \<noteq> trxinfo
                 then rbind (with_info (Some delinfo) (setNext (r_root r3) \<circ> setUpdating True) r3) (\<lambda>r4.
                        Inr ((True, ERR_SUCCESS, r4, Some delinfo, getLevel xi \<noteq> LEVEL_COMMIT), value'))
                 else Inr ((True, ERR_SUCCESS, r3, None, False), value'))))))))"

subsection \<open>Commit\<close>

text \<open>\<open>absolveRooted\<close> of a primary map: a version that is the root of its row goes, and its entry with it.\<close>

definition absolveRooted :: "int \<Rightarrow> addr \<Rightarrow> row \<Rightarrow> row result" where
  "absolveRooted index a r =
     rbind (deref (r_heap r) (Some a)) (\<lambda>i.
     rbind (getRooted index i) (\<lambda>rooted.
       Inr (if rooted \<and> r_root r = Some a
            then r\<lparr>r_story := \<lparr>st_orginfo = None, st_slock = None\<rparr>\<rparr>
            else r)))"

text \<open>The version a pending one replaces: the last committed one, or the version it points to.\<close>

definition replaced :: "addr \<Rightarrow> row \<Rightarrow> addr option result" where
  "replaced orginfo r =
     rbind (deref (r_heap r) (Some orginfo)) (\<lambda>oi.
       if getLevel oi = LEVEL_COMMIT then isolateLevel (r_heap r) (Some orginfo) LEVEL_COMMIT else Inr (Some orginfo))"

definition retire :: "uinttype \<Rightarrow> addr option \<Rightarrow> row \<Rightarrow> (row \<times> addr option) result" where
  "retire limit topinfo r =
     rbind (deref (r_heap r) topinfo) (\<lambda>ti.
     let ti1 = (if \<not> getDeleting ti then setDeleting True (info_reset (getViewpoint ti) limit (getLevel ti = LEVEL_COMMIT) ti) else ti);
         open = (getLevel ti \<noteq> LEVEL_COMMIT);
         ti2 = (if open then setCreating False (setUpdating False (setDiverging False (setLevel LEVEL_COMMIT ti1))) else ti1) in
     Inr (r\<lparr>r_heap := (r_heap r)(the topinfo \<mapsto> ti2)\<rparr>, if open then topinfo else None))"

definition commit_insert :: "uinttype \<Rightarrow> information \<Rightarrow> information" where
  "commit_insert viewpoint = setCreating False \<circ> setLevel LEVEL_COMMIT \<circ> setNext None \<circ> info_reset viewpoint 0 True"

definition commit_end :: "uinttype \<Rightarrow> information \<Rightarrow> information" where
  "commit_end viewpoint = setUpdating False \<circ> setCreating False \<circ> setDiverging False \<circ> setLevel LEVEL_COMMIT \<circ> info_reset viewpoint 0 True"

text \<open>
  One round of the loop of \<open>commitCacheMemory\<close>. \<open>cur1\<close> and \<open>cur2\<close> are the values of the global
  viewpoint sequence at the first and the second place the round reads it. The second result is a
  version whose own entry in the conductor is to be cleared.
\<close>

definition new_viewpoint :: "transaction \<Rightarrow> uinttype \<Rightarrow> uinttype" where
  "new_viewpoint tx cur = (if tx_commitViewpoint tx \<noteq> 0 then tx_commitViewpoint tx else cur + 1)"

definition commit_row :: "key_env \<Rightarrow> transaction \<Rightarrow> uinttype \<Rightarrow> uinttype \<Rightarrow> addr \<Rightarrow> row \<Rightarrow> (row \<times> addr option) result" where
  "commit_row env tx cur1 cur2 endinfo r =
     rbind (deref (r_heap r) (Some endinfo)) (\<lambda>ei.
       if getLevel ei < LEVEL_ACTIVE
       then
         (if getLevel ei < LEVEL_COMMIT
          then rbind (if getLevel ei = LEVEL_ROLLED \<and> i_indexed ei \<noteq> 0 then absolveRooted (ke_indexValue env) endinfo r else Inr r) (\<lambda>r1.
               rbind (destroy_info endinfo r1) (\<lambda>r2. Inr (r2, None)))
          else Inr (r, None))
       else if unat (getLockIdentifier (r_story r)) \<noteq> tx_identifier tx then Inr (r, None)
       else if getCreating ei \<and> \<not> getUpdating ei \<and> \<not> getDiverging ei
       then
         rbind (with_info (Some endinfo) (commit_insert (new_viewpoint tx cur1)) r) (\<lambda>r1.
         rbind (with_story st_release r1) (\<lambda>r2. Inr (r2, None)))
       else
         let orginfo = (case i_next ei of None \<Rightarrow> endinfo | Some a \<Rightarrow> a) in
         if getDeleting ei
         then
           rbind (if orginfo \<noteq> endinfo
                  then rbind (replaced orginfo r) (\<lambda>topinfo.
                       rbind (retire (if tx_commitViewpoint tx \<noteq> 0 then tx_commitViewpoint tx - 1 else cur1) topinfo r) (\<lambda>(r1, cleared).
                       rbind (with_info topinfo (setNext None) r1) (\<lambda>r2.
                       rbind (with_info (Some endinfo) (setNext None) r2) (\<lambda>r3. Inr (r3, cleared)))))
                  else Inr (r, None)) (\<lambda>(r4, cleared).
           rbind (with_story st_release r4) (\<lambda>r5.
           rbind (if orginfo \<noteq> endinfo then destroy_info endinfo r5 else Inr r5) (\<lambda>r6.
             Inr (r6, cleared))))
         else
           rbind (if orginfo \<noteq> endinfo
                  then rbind (replaced orginfo r) (\<lambda>topinfo.
                       rbind (retire cur1 topinfo r) (\<lambda>(r1, cleared).
                       rbind (with_info (Some endinfo) (setNext None) r1) (\<lambda>r2.
                       rbind (with_info topinfo (setNext (Some endinfo)) r2) (\<lambda>r3. Inr (r3, cleared)))))
                  else Inr (r, None)) (\<lambda>(r4, cleared).
           rbind (with_info (Some endinfo) (commit_end (new_viewpoint tx cur2)) r4) (\<lambda>r5.
           rbind (with_story (\<lambda>s. rbind (setStoryDepth (getStoryDepth s + 1) s) st_release) r5) (\<lambda>r6.
             Inr (r6, cleared)))))"

subsection \<open>Abort\<close>

text \<open>The first loop of \<open>abortCacheMemory\<close> cuts a pending version off, the second one drops it.\<close>

definition abort_cut :: "key_env \<Rightarrow> int \<Rightarrow> addr \<Rightarrow> row \<Rightarrow> row result" where
  "abort_cut env curlevel endinfo r =
     rbind (deref (r_heap r) (Some endinfo)) (\<lambda>ei.
       if getLevel ei \<noteq> curlevel then Inr r
       else
         let orginfo = i_next ei in
         rbind (case orginfo of
                  None \<Rightarrow> Inr (None, r)
                | Some a \<Rightarrow>
                    rbind (deref (r_heap r) orginfo) (\<lambda>oi.
                      if getLevel oi = LEVEL_COMMIT
                      then rbind (isolateLevel (r_heap r) orginfo LEVEL_COMMIT) (\<lambda>topinfo.
                           rbind (deref (r_heap r) topinfo) (\<lambda>ti.
                           rbind (setIndexed (ke_indexValue env) False ti) (\<lambda>ti'.
                             Inr (topinfo, r\<lparr>r_heap := (r_heap r)(the topinfo \<mapsto> ti')\<rparr>))))
                      else Inr (orginfo, r))) (\<lambda>(topinfo, r1).
         rbind (isolateBefore (r_heap r1) topinfo (Some endinfo)) (\<lambda>before.
         let preinfo = (case before of None \<Rightarrow> endinfo | Some a \<Rightarrow> a) in
         rbind (deref (r_heap r1) (Some preinfo)) (\<lambda>pi.
         rbind (if curlevel \<noteq> 0 \<and> preinfo \<noteq> endinfo \<and> getLevel pi \<noteq> LEVEL_COMMIT
                then
                  let pi1 = (if getLevel pi = LEVEL_MERGED then setLevel (sint (getMergeLevel pi)) pi else pi) in
                  Inr (r1\<lparr>r_heap := (r_heap r1)(preinfo \<mapsto>
                    (if Some preinfo \<noteq> orginfo then setNext orginfo (setUpdating True pi1) else setNext None (setUpdating False pi1)))\<rparr>)
                else
                  rbind (with_info (Some preinfo) (setNext None \<circ> setUpdating False) r1) (\<lambda>r2.
                    if curlevel = 0
                    then
                      (case topinfo of
                         None \<Rightarrow> Inr r2
                       | Some a \<Rightarrow>
                           rbind (deref (r_heap r2) topinfo) (\<lambda>ti.
                             if getLevel ti = LEVEL_COMMIT then with_info topinfo (setNext None \<circ> setUpdating False) r2 else Inr r2))
                    else Inr r2)) (\<lambda>r3.
           with_info (Some endinfo) (\<lambda>i. setLevel (if getDeleting i then LEVEL_ERASED else LEVEL_ROLLED) i) r3)))))"

definition abort_drop :: "key_env \<Rightarrow> addr \<Rightarrow> row \<Rightarrow> row result" where
  "abort_drop env a r =
     rbind (deref (r_heap r) (Some a)) (\<lambda>i.
     rbind (if i_indexed i \<noteq> 0 then absolveRooted (ke_indexValue env) a r else Inr r) (\<lambda>r1.
       destroy_info a r1))"

subsection \<open>Purging\<close>

text \<open>
  \<open>deleteUnviewed\<close> drops the oldest versions of a row as long as they are committed, deleted or replaced, and
  viewed by nobody. \<open>running\<close> is the state \<open>MAP_RUNNING\<close> of the map, \<open>chk\<close> the version that a checkpoint holds.
  The root itself is only destroyed when another version has become the root.
\<close>

definition held :: "tx_system \<Rightarrow> bool \<Rightarrow> bool \<Rightarrow> addr option \<Rightarrow> addr \<Rightarrow> information \<Rightarrow> bool" where
  "held s running sharing chk a i \<longleftrightarrow>
     running \<and> (getViewpoint i \<noteq> 0 \<and> viewing (getViewLimit i) s \<or> sharing \<or> chk = Some a)"

partial_function (option) unviewed_loop ::
    "tx_system \<Rightarrow> bool \<Rightarrow> bool \<Rightarrow> addr option \<Rightarrow> addr \<Rightarrow> addr \<Rightarrow> row \<Rightarrow> (addr option \<times> bool \<times> row) result option" where
  "unviewed_loop s running sharing chk root a r =
     (case r_heap r a of
        None \<Rightarrow> Some (Inl Dangling)
      | Some i \<Rightarrow>
          if held s running sharing chk a i then Some (Inr (Some a, True, r))
          else
            (case (let r1 = r\<lparr>r_heap := (r_heap r)(a \<mapsto> setNext None i)\<rparr> in if a \<noteq> root then destroy_info a r1 else Inr r1) of
               Inl e \<Rightarrow> Some (Inl e)
             | Inr r2 \<Rightarrow>
                 (case i_next i of
                    None \<Rightarrow> Some (Inr (None, False, r2))
                  | Some n \<Rightarrow>
                      (case r_heap r2 n of
                         None \<Rightarrow> Some (Inl Dangling)
                       | Some ni \<Rightarrow>
                           if getLevel ni = LEVEL_COMMIT \<and> getDeleting ni then unviewed_loop s running sharing chk root n r2
                           else Some (Inr (Some n, False, r2))))))"

declare unviewed_loop.simps [code]

text \<open>The rest of the story line is counted, and the version that leads back to the old root leads to the new one.\<close>

partial_function (option) reroot :: "addr \<Rightarrow> addr \<Rightarrow> addr option \<Rightarrow> nat \<Rightarrow> heap \<Rightarrow> (nat \<times> heap) result option" where
  "reroot root orginfo p depth h =
     (case p of
        None \<Rightarrow> Some (Inr (depth, h))
      | Some a \<Rightarrow>
          if a = orginfo then Some (Inr (depth, h))
          else
            (case h a of
               None \<Rightarrow> Some (Inl Dangling)
             | Some i \<Rightarrow>
                 let q = (if i_next i = Some root then Some orginfo else i_next i) in
                 reroot root orginfo q (depth + 1) (h(a \<mapsto> setNext q i))))"

declare reroot.simps [code]

definition returned :: "'a result option \<Rightarrow> 'a result" where
  "returned x = (case x of None \<Rightarrow> Inl NoReturn | Some y \<Rightarrow> y)"

definition reroot_line :: "addr \<Rightarrow> addr option \<Rightarrow> row \<Rightarrow> row result" where
  "reroot_line root orginfo r =
     (case orginfo of
        None \<Rightarrow> Inr r
      | Some a \<Rightarrow>
          rbind (deref (r_heap r) orginfo) (\<lambda>oi.
          rbind (returned (reroot root a (i_next oi) 1 (r_heap r))) (\<lambda>(depth, h).
            let r1 = r\<lparr>r_heap := h\<rparr> in
            if getDeleting oi \<and> st_slock (r_story r1) \<noteq> None then with_story (setStoryDepth (of_nat depth)) r1 else Inr r1)))"

definition deleteUnviewed :: "key_env \<Rightarrow> tx_system \<Rightarrow> bool \<Rightarrow> uinttype \<Rightarrow> row \<Rightarrow> (bool \<times> bool \<times> row) result" where
  "deleteUnviewed env s running checkpoint r =
     rbind (deref (r_heap r) (r_root r)) (\<lambda>oi.
       if getLevel oi = LEVEL_COMMIT \<and> getDeleting oi
       then
         let root = the (r_root r) in
         rbind (if checkpoint > 0
                then rbind (isolateCheckpoint env (r_heap r) (r_root r) checkpoint None None False) (\<lambda>(c, _, _, h). Inr (c, h))
                else Inr (None, r_heap r)) (\<lambda>(chk, h).
         rbind (returned (unviewed_loop s running (getSharing (r_story r)) chk root root (r\<lparr>r_heap := h\<rparr>))) (\<lambda>(orginfo, dirty, r1).
         rbind (case orginfo of None \<Rightarrow> Inr False | Some a \<Rightarrow> rbind (deref (r_heap r1) orginfo) (\<lambda>i. Inr (i_next i = Some root))) (\<lambda>pending.
           if pending then rbind (with_info (Some root) (setNext orginfo) r1) (\<lambda>r2. Inr (False, dirty, r2))
           else
             rbind (reroot_line root orginfo r1) (\<lambda>r2.
             rbind (if orginfo \<noteq> Some root
                    then rbind (destroy_info root r2) (\<lambda>r3.
                           mark_rooted (ke_indexValue env) True orginfo (r3\<lparr>r_story := (r_story r3)\<lparr>st_orginfo := orginfo\<rparr>\<rparr>))
                    else Inr r2) (\<lambda>r4.
               Inr (orginfo = None, dirty, r4))))))
       else Inr (False, False, r))"

subsection \<open>Reading\<close>

text \<open>
  \<open>checkIsolateLock\<close> after the row lock has been taken, for a primary map: the version, the error
  code and the flag \<open>again\<close>, which is false at the start.
\<close>

definition isolate_version :: "key_env \<Rightarrow> transaction \<Rightarrow> row \<Rightarrow> (addr option \<times> error_code \<times> bool) result" where
  "isolate_version env itx r =
     (let h = r_heap r; orginfo = r_root r; story = r_story r; mode = tx_isolation itx;
          owned = (unat (getLockIdentifier story) = tx_identifier itx);
          by_view = rbind (isolateView env h orginfo (tx_viewpoint itx)) (\<lambda>(info, h').
            Inr (info, if info = None then ERR_NOT_FOUND else ERR_SUCCESS, info = None)) in
      rbind (isolateReader env h story orginfo LEVEL_COMMIT (tx_viewpoint itx) mode (of_nat (tx_identifier itx))) (\<lambda>(top0, h').
        case top0 of
          None \<Rightarrow> Inr (orginfo, ERR_NOT_FOUND, True)
        | Some _ \<Rightarrow>
            rbind (deref h top0) (\<lambda>ti0.
            rbind (if mode = UNCOMMITTED \<and> i_next ti0 \<noteq> None then isolateLevel h (i_next ti0) LEVEL_ACTIVE else Inr top0) (\<lambda>topinfo.
            rbind (deref h topinfo) (\<lambda>ti.
              if getDeleting ti \<and> \<not> owned
              then (if mode = REPEATABLE then by_view else Inr (orginfo, ERR_NOT_FOUND, True))
              else
                let again = (if \<not> getDeleting ti \<and> getCreating ti then mode \<noteq> UNCOMMITTED else False) in
                if owned
                then
                  rbind (if i_next ti \<noteq> None then isolateActiveFirst h topinfo True else Inr topinfo) (\<lambda>info.
                  rbind (deref h info) (\<lambda>ii.
                    Inr (if getLevel ii < LEVEL_COMMIT \<or> getDeleting ii then (info, ERR_NOT_FOUND, again) else (info, ERR_SUCCESS, False))))
                else if \<not> again
                then
                  (if mode = REPEATABLE \<and> getViewpoint ti > tx_viewpoint itx then by_view
                   else if isolation_value mode < isolation_value UNCOMMITTED \<and> getLevel ti \<noteq> LEVEL_COMMIT then Inr (topinfo, ERR_NOT_FOUND, True)
                   else Inr (topinfo, ERR_SUCCESS, again))
                else Inr (topinfo, ERR_SUCCESS, again))))))"

text \<open>
  \<open>get\<close> for one key: whether there is a result, the flag \<open>again\<close> and the value, which is only copied
  out when \<open>again\<close> is false.
\<close>

definition get_row :: "key_env \<Rightarrow> transaction \<Rightarrow> row \<Rightarrow> (bool \<times> bool \<times> ubytetype list option) result" where
  "get_row env itx r =
     (if r_root r = None then Inr (False, False, None)
      else
        rbind (isolate_version env itx r) (\<lambda>(info, code, again).
          if code = ERR_NOT_FOUND then Inr (False, False, None)
          else if code \<noteq> ERR_SUCCESS then Inr (False, again, None)
          else if again then Inr (True, True, None)
          else rbind (deref (r_heap r) info) (\<lambda>i. Inr (True, False, i_data (loaded env i)))))"

end
