(* ===== verification/RowHistory.thy ===== *)
theory RowHistory
  imports RowVersions
begin

section \<open>The history of a row\<close>

text \<open>
  The shape of the story line of a row and what a repeatable reader sees in it: the committed
  versions, oldest first, with disjoint intervals of viewpoints, and at most one pending version
  behind them that points back to the root. Writing, committing and aborting by other transactions
  keep the shape and do not change what a reader with an earlier viewpoint sees.
\<close>

subsection \<open>Shape\<close>

abbreviation info_at :: "heap \<Rightarrow> addr \<Rightarrow> information" where
  "info_at h a \<equiv> the (h a)"

definition older :: "heap \<Rightarrow> addr \<Rightarrow> addr \<Rightarrow> bool" where
  "older h c d \<longleftrightarrow>
     getDeleting (info_at h c) \<and> getViewLimit (info_at h c) < getViewpoint (info_at h d) \<and>
     getViewpoint (info_at h c) \<le> getViewpoint (info_at h d)"

definition version_ok :: "uinttype \<Rightarrow> heap \<Rightarrow> addr \<Rightarrow> bool" where
  "version_ok cur h c \<longleftrightarrow>
     committed_at h c \<and> \<not> getCreating (info_at h c) \<and> \<not> getDiverging (info_at h c) \<and> getViewpoint (info_at h c) \<le> cur + 1 \<and>
     (getDeleting (info_at h c) \<longrightarrow> getViewLimit (info_at h c) \<le> cur)"

definition pending_ok :: "row \<Rightarrow> addr list \<Rightarrow> addr \<Rightarrow> bool" where
  "pending_ok r cs p \<longleftrightarrow>
     p \<notin> set cs \<and>
     (\<exists>i. r_heap r p = Some i \<and> getLevel i = LEVEL_ACTIVE \<and> \<not> getDiverging i \<and> getType i \<noteq> READ \<and> i_refcnt i = 1 \<and>
       (if cs = [] then \<not> getUpdating i \<and> i_next i = None \<and> bit (i_indexed i) 0 else getUpdating i \<and> i_next i = r_root r))"

definition wf_row :: "uinttype \<Rightarrow> row \<Rightarrow> addr list \<Rightarrow> addr option \<Rightarrow> bool" where
  "wf_row cur r cs pend \<longleftrightarrow>
     line (r_heap r) (r_root r) cs pend \<and> distinct cs \<and> sorted_wrt (older (r_heap r)) cs \<and>
     (\<forall>c \<in> set cs. version_ok cur (r_heap r) c) \<and> (\<forall>p. pend = Some p \<longrightarrow> pending_ok r cs p) \<and>
     (\<forall>a. r_heap r a \<noteq> None \<longrightarrow> a < r_free r)"

lemma wf_rowD:
  assumes "wf_row cur r cs pend"
  shows "line (r_heap r) (r_root r) cs pend" "distinct cs" "sorted_wrt (older (r_heap r)) cs"
    "\<And>c. c \<in> set cs \<Longrightarrow> version_ok cur (r_heap r) c" "\<And>p. pend = Some p \<Longrightarrow> pending_ok r cs p"
    "\<And>a. r_heap r a \<noteq> None \<Longrightarrow> a < r_free r"
  using assms by (auto simp: wf_row_def)

lemma wf_committed_line:
  assumes "wf_row cur r cs pend"
  shows "committed_line (r_heap r) (r_root r) cs pend"
  using wf_rowD [OF assms] by (auto simp: committed_line_def version_ok_def ends_commit_def pending_ok_def level_defs)

lemma empty_row_wf: "wf_row cur empty_row [] None"
  by (simp add: wf_row_def empty_row_def r_root_def)

subsection \<open>What a viewpoint sees\<close>

definition seen_at :: "heap \<Rightarrow> uinttype \<Rightarrow> addr \<Rightarrow> bool" where
  "seen_at h v c \<longleftrightarrow> getViewpoint (info_at h c) \<le> v \<and> (getDeleting (info_at h c) \<longrightarrow> v \<le> getViewLimit (info_at h c))"

definition visible :: "heap \<Rightarrow> addr list \<Rightarrow> uinttype \<Rightarrow> addr option" where
  "visible h cs v = last_with (seen_at h v) cs"

definition view_of :: "key_env \<Rightarrow> heap \<Rightarrow> addr list \<Rightarrow> uinttype \<Rightarrow> ubytetype list option" where
  "view_of env h cs v = (case visible h cs v of None \<Rightarrow> None | Some c \<Rightarrow> i_data (loaded env (info_at h c)))"

lemma takeWhile_sorted_prefix:
  assumes "sorted_wrt (older h) cs" "c \<in> set cs" "getViewpoint (info_at h c) \<le> v"
  shows "c \<in> set (takeWhile (old_enough h v) cs)"
  using assms
proof (induction cs)
  case (Cons d cs)
  have "getViewpoint (info_at h d) \<le> v" using Cons.prems by (auto simp: older_def)
  then show ?case using Cons by (auto simp: old_enough_def)
qed simp

lemma older_last:
  assumes "sorted_wrt (older h) ys" "d \<in> set ys" "d \<noteq> last ys"
  shows "older h d (last ys)"
proof -
  have ys: "ys = butlast ys @ [last ys]" using assms(2) by (cases ys rule: rev_cases) auto
  then have "d \<in> set (butlast ys)" using assms(2,3) by (metis Un_iff empty_iff insert_iff list.set set_append)
  moreover have "sorted_wrt (older h) (butlast ys @ [last ys])" using assms(1) ys by simp
  ultimately show ?thesis by (simp add: sorted_wrt_append)
qed

text \<open>Only the last version that is old enough can be seen.\<close>

lemma seen_last:
  assumes "sorted_wrt (older h) cs" "c \<in> set cs" "seen_at h v c"
  shows "c = last (takeWhile (old_enough h v) cs)"
proof (rule ccontr)
  assume ne: "c \<noteq> last (takeWhile (old_enough h v) cs)"
  let ?ys = "takeWhile (old_enough h v) cs"
  have c: "c \<in> set ?ys" by (rule takeWhile_sorted_prefix [OF assms(1,2)]) (use assms(3) in \<open>simp add: seen_at_def\<close>)
  have "older h c (last ?ys)" by (rule older_last [OF _ c ne]) (simp add: sorted_wrt_takeWhile assms(1))
  moreover have "old_enough h v (last ?ys)" using c set_takeWhileD last_in_set by (metis empty_iff list.set(1))
  ultimately show False using assms(3) by (auto simp: older_def old_enough_def seen_at_def)
qed

lemma visible_takeWhile:
  assumes "sorted_wrt (older h) cs"
  shows "visible h cs v = (let ys = takeWhile (old_enough h v) cs in if ys \<noteq> [] \<and> seen_at h v (last ys) then Some (last ys) else None)"
proof (cases "visible h cs v")
  case None
  have "seen_at h v (last (takeWhile (old_enough h v) cs)) \<Longrightarrow> takeWhile (old_enough h v) cs = []"
    using None last_in_set set_takeWhileD unfolding visible_def last_with_None by metis
  then show ?thesis using None by (auto simp: Let_def)
next
  case (Some c)
  then have c: "c \<in> set cs" "seen_at h v c" using last_with_Some unfolding visible_def by blast+
  then have "takeWhile (old_enough h v) cs \<noteq> []"
    using takeWhile_sorted_prefix [OF assms, of c v] by (auto simp: seen_at_def)
  then show ?thesis using seen_last [OF assms c] c(2) Some by (auto simp: Let_def)
qed

text \<open>The walk by viewpoint finds a version only when its limit has been set.\<close>

lemma last_with_sees:
  assumes "sorted_wrt (older h) cs" "\<And>c. c \<in> set cs \<Longrightarrow> getViewpoint (info_at h c) \<le> v \<Longrightarrow> getDeleting (info_at h c)"
  shows "last_with (sees h v) cs = visible h cs v"
  unfolding visible_def
  by (rule last_with_cong) (use assms(2) in \<open>auto simp: sees_def seen_at_def hasViewpoint_interval\<close>)

lemma ex_flag [simp]: "\<exists>b. b" "Ex Not"
  by auto

lemma deref_simps [simp]: "deref h None = Inl NullDeref" "h a = Some i \<Longrightarrow> deref h (Some a) = Inr i"
  by (simp_all add: deref_def)

definition repeatable_reader :: "key_env \<Rightarrow> transaction \<Rightarrow> row \<Rightarrow> bool" where
  "repeatable_reader env itx r \<longleftrightarrow>
     \<not> ke_secondary env \<and> tx_isolation itx = REPEATABLE \<and> tx_identifier itx < 65536 \<and>
     unat (getLockIdentifier (r_story r)) \<noteq> tx_identifier itx"

lemma reader_not_owner:
  assumes "repeatable_reader env itx r"
  shows "getLockIdentifier (r_story r) \<noteq> of_nat (tx_identifier itx)"
proof
  assume "getLockIdentifier (r_story r) = of_nat (tx_identifier itx)"
  then have "unat (getLockIdentifier (r_story r)) = tx_identifier itx"
    using assms by (simp add: repeatable_reader_def unat_of_nat_small)
  then show False using assms by (simp add: repeatable_reader_def)
qed

lemma get_row_pending_insert:
  assumes wf: "wf_row cur r [] (Some p)" and rd: "repeatable_reader env itx r"
  shows "\<exists>res ag. get_row env itx r = Inr (res, ag, None) \<and>
    (getCreating (info_at (r_heap r) p) \<and> \<not> getDeleting (info_at (r_heap r) p) \<longrightarrow> res \<and> ag)"
proof -
  obtain i where i: "r_heap r p = Some i" "getLevel i = LEVEL_ACTIVE" "i_next i = None"
    using wf_rowD(5) [OF wf] by (auto simp: pending_ok_def)
  have root: "r_root r = Some p" using wf_rowD(1) [OF wf] by simp
  have view: "isolateView env (r_heap r) (r_root r) v = Inr (None, r_heap r)" for v
    using isolateView_committed [OF wf_committed_line [OF wf]] rd by (simp add: repeatable_reader_def)
  have top: "isolateReader env (r_heap r) (r_story r) (r_root r) LEVEL_COMMIT v REPEATABLE (of_nat (tx_identifier itx)) = Inr (Some p, r_heap r)" for v
    using i rd reader_not_owner [OF rd]
    by (simp add: isolateReader_def root walk_Some reader_body_def check_key_def level_defs repeatable_reader_def)
  show ?thesis using i rd view top
    by (simp add: get_row_def isolate_version_def root Let_def repeatable_reader_def level_defs)
qed

text \<open>The version a repeatable reader is led to: the last one that is old enough, or the first if none is.\<close>

lemma led_to_version:
  assumes sorted: "sorted_wrt (older h) cs" and ne: "cs \<noteq> []" and ys: "ys = takeWhile (old_enough h v) cs"
    and c: "c = (if ys = [] then hd cs else last ys)" and i: "h c = Some i"
  shows "ys = [] \<longleftrightarrow> \<not> getViewpoint i \<le> v"
    and "getDeleting i \<or> \<not> getViewpoint i \<le> v \<Longrightarrow> last_with (sees h v) cs = visible h cs v"
    and "visible h cs v = (if ys \<noteq> [] \<and> seen_at h v c then Some c else None)"
proof -
  show young: "ys = [] \<longleftrightarrow> \<not> getViewpoint i \<le> v"
  proof (cases "ys = []")
    case True
    then show ?thesis using ne i ys by (cases cs) (auto simp: c old_enough_def split: if_splits)
  next
    case False
    then have "old_enough h v c" using last_in_set set_takeWhileD by (fastforce simp: c ys)
    then show ?thesis using False i by (simp add: old_enough_def)
  qed
  show "last_with (sees h v) cs = visible h cs v" if "getDeleting i \<or> \<not> getViewpoint i \<le> v"
  proof (rule last_with_sees [OF sorted])
    fix d assume "d \<in> set cs" "getViewpoint (info_at h d) \<le> v"
    then have dy: "d \<in> set (takeWhile (old_enough h v) cs)" by (rule takeWhile_sorted_prefix [OF sorted])
    then have "getDeleting i" "c = last ys" using that young by (auto simp: c ys)
    moreover have "d \<noteq> last ys \<Longrightarrow> older h d (last ys)"
      unfolding ys by (rule older_last [OF _ dy]) (simp add: sorted_wrt_takeWhile sorted)
    ultimately show "getDeleting (info_at h d)" using i by (cases "d = c") (auto simp: older_def)
  qed
  show "visible h cs v = (if ys \<noteq> [] \<and> seen_at h v c then Some c else None)"
    using visible_takeWhile [OF sorted, of v] by (simp add: Let_def c ys)
qed

lemma get_row_repeatable:
  assumes wf: "wf_row cur r cs pend" and rd: "repeatable_reader env itx r"
  shows "\<exists>res ag. get_row env itx r = Inr (res, ag, view_of env (r_heap r) cs (tx_viewpoint itx)) \<and>
    (visible (r_heap r) cs (tx_viewpoint itx) \<noteq> None \<longrightarrow> res \<and> \<not> ag)"
proof (cases "cs = []")
  case True
  have none: "view_of env (r_heap r) cs (tx_viewpoint itx) = None" "visible (r_heap r) cs (tx_viewpoint itx) = None"
    by (simp_all add: view_of_def visible_def True)
  show ?thesis
  proof (cases pend)
    case None
    then have "r_root r = None" using wf_rowD(1) [OF wf] True by simp
    then show ?thesis by (auto simp: get_row_def none)
  next
    case (Some p)
    then show ?thesis using get_row_pending_insert [of cur r p env itx] wf rd True none by auto
  qed
next
  case ne: False
  let ?h = "r_heap r" and ?v = "tx_viewpoint itx"
  let ?ys = "takeWhile (old_enough ?h ?v) cs"
  define c where "c = (if ?ys = [] then hd cs else last ?ys)"
  have cl: "committed_line ?h (r_root r) cs pend" using wf_committed_line [OF wf] .
  have sorted: "sorted_wrt (older ?h) cs" using wf_rowD(3) [OF wf] .
  have c: "c \<in> set cs" using ne set_takeWhileD [of "last ?ys"] by (auto simp: c_def dest: last_in_set)
  obtain i where i: "?h c = Some i" "getLevel i = LEVEL_COMMIT" "\<not> getUpdating i" "\<not> getCreating i"
    using wf_rowD(4) [OF wf c] by (auto simp: version_ok_def committed_at_def)
  have root: "r_root r \<noteq> None" using committed_line_top [OF cl ne] by simp
  have top: "isolateReader env ?h (r_story r) (r_root r) LEVEL_COMMIT ?v REPEATABLE (of_nat (tx_identifier itx)) = Inr (Some c, ?h)"
    unfolding c_def by (rule isolateReader_repeatable [OF cl ne]) (use rd reader_not_owner [OF rd] in \<open>auto simp: repeatable_reader_def\<close>)
  have view: "isolateView env ?h (r_root r) ?v = Inr (last_with (sees ?h ?v) cs, ?h)"
    using isolateView_committed [OF cl] rd by (simp add: repeatable_reader_def)
  note led = led_to_version [OF sorted ne refl c_def i(1)]
  show ?thesis
  proof (cases "getDeleting i \<or> \<not> getViewpoint i \<le> ?v")
    case True
    have ab: "isolate_version env itx r = Inr (visible ?h cs ?v, if visible ?h cs ?v = None then ERR_NOT_FOUND else ERR_SUCCESS, visible ?h cs ?v = None)"
    proof (cases "getDeleting i")
      case True
      then show ?thesis using i rd top view led(2) by (simp add: isolate_version_def Let_def repeatable_reader_def)
    next
      case nd: False
      then have "?v < getViewpoint i" using True by simp
      then show ?thesis using nd i rd top view led(2) by (simp add: isolate_version_def Let_def repeatable_reader_def)
    qed
    show ?thesis
    proof (cases "visible ?h cs ?v")
      case None
      then have "get_row env itx r = Inr (False, False, None)" using ab root by (simp add: get_row_def)
      then show ?thesis using None by (simp add: view_of_def)
    next
      case (Some d)
      then have "d = c" using led(3) by (simp split: if_splits)
      then have "get_row env itx r = Inr (True, False, i_data (loaded env i))" using Some ab root i(1) by (simp add: get_row_def)
      then show ?thesis using Some i(1) \<open>d = c\<close> by (simp add: view_of_def)
    qed
  next
    case False
    have old: "\<not> getDeleting i" "\<not> ?v < getViewpoint i" "getViewpoint i \<le> ?v" using False by auto
    have "isolate_version env itx r = Inr (Some c, ERR_SUCCESS, False)"
      using old(1,2) i rd top by (simp add: isolate_version_def Let_def repeatable_reader_def)
    then have "get_row env itx r = Inr (True, False, i_data (loaded env i))" using root i by (simp add: get_row_def)
    moreover have "visible ?h cs ?v = Some c" using old(1,3) led(1,3) i(1) by (simp add: seen_at_def)
    ultimately show ?thesis using i(1) by (simp add: view_of_def)
  qed
qed

subsection \<open>Changes that keep the history\<close>

text \<open>\<open>readValue\<close> loads the data of a version from its place in the file and changes nothing else.\<close>

definition place :: "information \<Rightarrow> 16 word \<times> uinttype \<times> uinttype option \<times> uinttype" where
  "place i = (i_fileIndex i, i_filePosition i, i_compressedOffset i, i_size i)"

definition reads_data :: "key_env \<Rightarrow> bool" where
  "reads_data env \<longleftrightarrow> (\<exists>d. \<forall>i. ke_readValue env i = i\<lparr>i_data := Some (d (place i))\<rparr>)"

lemma loaded_data:
  assumes "reads_data env"
  shows "\<exists>d. loaded env i = i\<lparr>i_data := Some d\<rparr>"
proof (cases "i_data i")
  case None
  then show ?thesis using assms by (auto simp: loaded_def reads_data_def)
next
  case (Some d)
  then show ?thesis by (intro exI [of _ d]) (simp add: loaded_def)
qed

lemma loaded_place:
  assumes "reads_data env" "i_data j = i_data i" "place j = place i"
  shows "i_data (loaded env j) = i_data (loaded env i)"
  using assms by (auto simp: loaded_def reads_data_def)

text \<open>The same version, but for its link, its position in a file, its index bits and whether its data is loaded.\<close>

definition same_version :: "key_env \<Rightarrow> information \<Rightarrow> information \<Rightarrow> bool" where
  "same_version env i j \<longleftrightarrow>
     i_viewpoint j = i_viewpoint i \<and> i_stateFlags j = i_stateFlags i \<and> i_level j = i_level i \<and>
     i_data (loaded env j) = i_data (loaded env i)"

lemma same_versionD:
  assumes "same_version env i j"
  shows "getViewpoint j = getViewpoint i" "getViewLimit j = getViewLimit i" "getDeleting j = getDeleting i"
    "getUpdating j = getUpdating i" "getCreating j = getCreating i" "getDiverging j = getDiverging i" "getLevel j = getLevel i" "getType j = getType i"
  using assms by (auto simp: same_version_def getViewpoint_def getViewLimit_def info_flag_defs getLevel_def hasFields_def getType_def)

lemma same_version_refl [simp]: "same_version env i i"
  by (simp add: same_version_def)

lemma same_version_link: "reads_data env \<Longrightarrow> same_version env i (setNext q (loaded env i))"
  using loaded_data [of env i] by (auto simp: same_version_def setNext_def loaded_def [of env "setNext q (loaded env i)"] loaded_def)

lemma setUpdating_same: "\<not> getUpdating i \<Longrightarrow> setUpdating False i = i"
proof -
  assume u: "\<not> getUpdating i"
  have "flag_set 4 False (i_stateFlags i) = i_stateFlags i"
    by (rule bit_word_eqI) (use u in \<open>auto simp: getUpdating_def flag_set_simps flag_get_simps\<close>)
  then show ?thesis by (simp add: setUpdating_def)
qed

definition same_history :: "key_env \<Rightarrow> heap \<Rightarrow> heap \<Rightarrow> addr list \<Rightarrow> bool" where
  "same_history env h h' cs \<longleftrightarrow> (\<forall>c \<in> set cs. \<exists>i j. h c = Some i \<and> h' c = Some j \<and> same_version env i j)"

lemma same_historyD:
  assumes "same_history env h h' cs" "c \<in> set cs"
  shows "same_version env (info_at h c) (info_at h' c)" "h' c \<noteq> None" "h c \<noteq> None"
  using assms by (auto simp: same_history_def)

lemma same_history_view:
  assumes "same_history env h h' cs"
  shows "visible h' cs v = visible h cs v" "view_of env h' cs v = view_of env h cs v"
proof -
  show vis: "visible h' cs v = visible h cs v" unfolding visible_def
    by (rule last_with_cong) (simp add: seen_at_def same_versionD [OF same_historyD(1) [OF assms]])
  show "view_of env h' cs v = view_of env h cs v"
  proof (cases "visible h cs v")
    case (Some c)
    then have "c \<in> set cs" using last_with_Some unfolding visible_def by blast
    then show ?thesis using Some vis same_historyD(1) [OF assms] by (simp add: view_of_def same_version_def)
  qed (simp add: view_of_def vis)
qed

lemma same_history_ok:
  assumes "same_history env h h' cs" "sorted_wrt (older h) cs" "\<And>c. c \<in> set cs \<Longrightarrow> version_ok cur h c"
  shows "sorted_wrt (older h') cs" "\<And>c. c \<in> set cs \<Longrightarrow> version_ok cur h' c"
proof -
  note sv = same_versionD [OF same_historyD(1) [OF assms(1)]]
  show "sorted_wrt (older h') cs"
    by (rule sorted_wrt_mono_rel [OF _ assms(2)]) (simp add: older_def sv)
  show "version_ok cur h' c" if "c \<in> set cs" for c
    using assms(3) [OF that] same_historyD(2,3) [OF assms(1) that] sv [OF that] by (auto simp: version_ok_def committed_at_def)
qed

text \<open>A row with the same committed versions and the same or a new pending one.\<close>

lemma wf_row_change:
  assumes wf: "wf_row cur r cs pend" and same: "same_history env (r_heap r) (r_heap r') cs"
    and ln: "line (r_heap r') (r_root r') cs pend'" and pd: "\<And>p. pend' = Some p \<Longrightarrow> pending_ok r' cs p"
    and dm: "\<And>a. r_heap r' a \<noteq> None \<Longrightarrow> a < r_free r'"
  shows "wf_row cur r' cs pend'"
  using same_history_ok [OF same wf_rowD(3,4) [OF wf]] wf_rowD(2) [OF wf] ln pd dm by (auto simp: wf_row_def)

text \<open>The walks every operation starts with.\<close>

lemma isolate_row:
  assumes wf: "wf_row cur r cs pend"
  shows "isolateLevel (r_heap r) (r_root r) LEVEL_COMMIT = Inr (if cs = [] then pend else Some (last cs))"
    "isolateActive (r_heap r) (if cs = [] then pend else Some (last cs)) = Inr pend"
proof -
  let ?h = "r_heap r"
  have pend: "walk active_body ?h None pend = Inr pend"
  proof (cases pend)
    case (Some p)
    then obtain i where i: "?h p = Some i" "getLevel i = LEVEL_ACTIVE" "getUpdating i \<or> i_next i = None"
      using wf_rowD(5) [OF wf] by (auto simp: pending_ok_def split: if_splits)
    then show ?thesis using Some by (auto simp: walk_Some active_body_def level_defs)
  qed simp
  show "isolateLevel ?h (r_root r) LEVEL_COMMIT = Inr (if cs = [] then pend else Some (last cs))"
  proof (cases "cs = []")
    case True
    then have root: "r_root r = pend" using wf_rowD(1) [OF wf] by simp
    have "isolateLevel ?h pend LEVEL_COMMIT = Inr pend"
      using wf_rowD(5) [OF wf] by (cases pend) (auto simp: isolateLevel_def walk_Some level_body_def pending_ok_def level_defs)
    then show ?thesis using True root by simp
  qed (simp add: isolateLevel_committed [OF wf_committed_line [OF wf]])
  show "isolateActive ?h (if cs = [] then pend else Some (last cs)) = Inr pend"
  proof (cases "cs = []")
    case False
    then obtain i where i: "?h (last cs) = Some i" "getLevel i = LEVEL_COMMIT" "\<not> getUpdating i" "i_next i = pend"
      using wf_rowD(4) [OF wf, of "last cs"] wf_rowD(1) [OF wf] 
      by (cases cs rule: rev_cases) (auto simp: version_ok_def committed_at_def)
    then show ?thesis using False pend by (simp add: isolateActive_def walk_Some active_body_def)
  qed (simp add: isolateActive_def pend)
qed

subsection \<open>Writing\<close>

text \<open>What an operation keeps for readers: the committed versions, the shape and, when no row is created, the lock.\<close>

definition keeps_history :: "key_env \<Rightarrow> uinttype \<Rightarrow> row \<Rightarrow> addr list \<Rightarrow> row \<Rightarrow> addr option \<Rightarrow> bool" where
  "keeps_history env cur r cs r' pend' \<longleftrightarrow> wf_row cur r' cs pend' \<and> same_history env (r_heap r) (r_heap r') cs"

lemma same_history_refl: "wf_row cur r cs pend \<Longrightarrow> same_history env (r_heap r) (r_heap r) cs"
  using wf_rowD(4) by (fastforce simp: same_history_def version_ok_def committed_at_def)

lemma keeps_history_refl: "wf_row cur r cs pend \<Longrightarrow> keeps_history env cur r cs r pend"
  by (simp add: keeps_history_def same_history_refl)

text \<open>A change of the pending version alone.\<close>

definition same_pending :: "information \<Rightarrow> information \<Rightarrow> bool" where
  "same_pending i j \<longleftrightarrow>
     i_next j = i_next i \<and> getLevel j = getLevel i \<and> getDiverging j = getDiverging i \<and> getType j = getType i \<and>
     i_refcnt j = i_refcnt i \<and> getUpdating j = getUpdating i \<and> i_indexed j = i_indexed i"

lemma pending_change:
  assumes wf: "wf_row cur r cs (Some p)" and i: "r_heap r p = Some i" and j: "same_pending i j"
  shows "keeps_history env cur r cs (r\<lparr>r_heap := (r_heap r)(p \<mapsto> j)\<rparr>) (Some p)"
proof -
  let ?r = "r\<lparr>r_heap := (r_heap r)(p \<mapsto> j)\<rparr>"
  have p: "p \<notin> set cs" "pending_ok r cs p" using wf_rowD(5) [OF wf] by (auto simp: pending_ok_def)
  have same: "same_history env (r_heap r) (r_heap ?r) cs"
    using same_history_refl [OF wf, of env] p(1) by (auto simp: same_history_def)
  have "wf_row cur ?r cs (Some p)"
  proof (rule wf_row_change [OF wf same])
    show "line (r_heap ?r) (r_root ?r) cs (Some p)" using wf_rowD(1) [OF wf] p(1) by (simp add: r_root_def)
    show "pending_ok ?r cs q" if "Some p = Some q" for q
      using p(2) that i j by (auto simp: pending_ok_def same_pending_def r_root_def)
    show "a < r_free ?r" if "r_heap ?r a \<noteq> None" for a using wf_rowD(6) [OF wf, of a] that i by (auto split: if_splits)
  qed
  then show ?thesis using same by (simp add: keeps_history_def)
qed

text \<open>A new pending version behind the last committed one.\<close>

lemma pending_new:
  assumes wf: "wf_row cur r cs None" and ne: "cs \<noteq> []" and env: "reads_data env" and ti: "r_heap r (last cs) = Some ti"
    and j: "getLevel j = LEVEL_ACTIVE" "\<not> getDiverging j" "getType j \<noteq> READ" "i_refcnt j = 1" "getUpdating j" "i_next j = r_root r"
  defines "r' \<equiv> r\<lparr>r_heap := (r_heap r)(last cs \<mapsto> setNext (Some (r_free r)) (loaded env ti), r_free r \<mapsto> j), r_free := r_free r + 1\<rparr>"
  shows "keeps_history env cur r cs r' (Some (r_free r))"
proof -
  let ?n = "r_free r"
  have new: "?n \<notin> set cs" using wf_rowD(4,6) [OF wf] by (fastforce simp: version_ok_def committed_at_def)
  obtain bs where cs: "cs = bs @ [last cs]" using ne by (metis append_butlast_last_id)
  have out: "last cs \<notin> set bs" using wf_rowD(2) [OF wf] cs by (metis distinct_append disjoint_iff list.set_intros(1))
  have same: "same_history env (r_heap r) (r_heap r') cs"
  proof -
    have "\<exists>i j. r_heap r c = Some i \<and> r_heap r' c = Some j \<and> same_version env i j" if c: "c \<in> set cs" for c
    proof (cases "c = last cs")
      case True
      then show ?thesis using ti new same_version_link [OF env, of ti] c by (auto simp: r'_def)
    next
      case False
      obtain i where "r_heap r c = Some i" using line_present [OF wf_rowD(1) [OF wf] c] by blast
      then show ?thesis using False new c by (auto simp: r'_def)
    qed
    then show ?thesis by (simp add: same_history_def)
  qed
  have "wf_row cur r' cs (Some ?n)"
  proof (rule wf_row_change [OF wf same])
    have "line (r_heap r) (r_root r) (bs @ [last cs]) None" using wf_rowD(1) [OF wf] cs by simp
    then have "line (r_heap r) (r_root r) bs (Some (last cs))" by auto
    moreover have "?n \<notin> set bs" using new cs by (metis Un_iff set_append)
    ultimately have "line (r_heap r') (r_root r) bs (Some (last cs))" using out by (simp add: r'_def)
    moreover have "last cs \<noteq> ?n" using new ne last_in_set by metis
    then have "line (r_heap r') (Some (last cs)) [last cs] (Some ?n)" by (simp add: r'_def setNext_def)
    ultimately have "line (r_heap r') (r_root r) (bs @ [last cs]) (Some ?n)" unfolding line_append by blast
    then show "line (r_heap r') (r_root r') cs (Some ?n)" using cs by (simp add: r'_def r_root_def)
    show "pending_ok r' cs q" if "Some ?n = Some q" for q
      using that j new ne by (auto simp: pending_ok_def r'_def r_root_def)
    show "a < r_free r'" if "r_heap r' a \<noteq> None" for a
      using wf_rowD(6) [OF wf, of a] wf_rowD(6) [OF wf, of "last cs"] that ti by (auto simp: r'_def split: if_splits)
  qed
  then show ?thesis using same by (simp add: keeps_history_def)
qed

lemma with_info_eq: "r_heap r a = Some i \<Longrightarrow> with_info (Some a) f r = Inr (r\<lparr>r_heap := (r_heap r)(a \<mapsto> f i)\<rparr>)"
  by (simp add: with_info_def on_info_def)

lemma same_pending_simps:
  "same_pending i (copyValueIntoInformation bs i)" "same_pending i (setDeleting b i)" "same_pending i (setCreating b i)"
  by (simp_all add: same_pending_def info_simps copyValueIntoInformation_def) (simp_all add: info_flag_defs)

lemma same_pending_refl [simp]: "same_pending i i"
  by (simp add: same_pending_def)

lemma same_pending_trans: "same_pending i j \<Longrightarrow> same_pending j k \<Longrightarrow> same_pending i k"
  by (simp add: same_pending_def)

lemma set_position_pending:
  assumes "r_heap r a = Some i" "set_position position index coff compressed a r = Inr r'"
  shows "\<exists>j. r' = r\<lparr>r_heap := (r_heap r)(a \<mapsto> j)\<rparr> \<and> same_pending i j \<and> i_data j = i_data i \<and> getDeleting j = getDeleting i \<and> getCreating j = getCreating i"
proof (cases "position = 0")
  case True
  then have "r' = r\<lparr>r_heap := (r_heap r)(a \<mapsto> i)\<rparr>" using assms by (simp add: set_position_def fun_upd_idem)
  then show ?thesis by (intro exI [of _ i]) simp
next
  case False
  let ?i = "i\<lparr>i_fileIndex := index, i_filePosition := position\<rparr>"
  obtain j where "(if compressed then setCompressedOffset coff ?i else Inr ?i) = Inr j" "r' = r\<lparr>r_heap := (r_heap r)(a \<mapsto> j)\<rparr>"
    using assms False by (cases compressed) (auto simp: set_position_def result_simps Let_def)
  then show ?thesis
    by (intro exI [of _ j])
       (auto simp: setCompressedOffset_def same_pending_def info_simps split: if_splits option.splits)
qed

lemma versionInformation_same:
  assumes "r_heap r a = Some i" "getLevel i = tx_level tx"
  shows "versionInformation env tx a (Some bs) compressed r = Inr (a, r\<lparr>r_heap := (r_heap r)(a \<mapsto> copyValueIntoInformation bs i)\<rparr>)"
  using assms by (simp add: versionInformation_def Let_def with_info_eq)

text \<open>The version a transaction at level 0 puts behind a committed one.\<close>

definition fresh_version :: "bool \<Rightarrow> bool \<Rightarrow> ubytetype list \<Rightarrow> information" where
  "fresh_version diverging compressed bs =
     copyValueIntoInformation bs (setDiverging diverging (setLevel LEVEL_ACTIVE (newInfo (if compressed then CMPRS else WRITE))))"

lemma versionInformation_new:
  assumes "r_heap r a = Some i" "getLevel i \<noteq> tx_level tx" "tx_level tx = LEVEL_ACTIVE" "\<not> getUpdating i" "r_heap r (r_free r) = None"
  shows "versionInformation env tx a (Some bs) compressed r =
    Inr (r_free r, r\<lparr>r_heap := (r_heap r)(a \<mapsto> setNext (Some (r_free r)) (loaded env i), r_free r \<mapsto> fresh_version (getDiverging i) compressed bs), r_free := r_free r + 1\<rparr>)"
proof -
  have "a \<noteq> r_free r" using assms by auto
  then show ?thesis using assms
    by (simp add: versionInformation_def Let_def new_version_def with_info_def on_info_def setUpdating_same fresh_version_def fun_upd_twist)
qed

lemma fresh_version_pending:
  "getLevel (fresh_version d c bs) = LEVEL_ACTIVE" "getDiverging (fresh_version d c bs) = d" "getType (fresh_version d c bs) \<noteq> READ"
  "i_refcnt (fresh_version d c bs) = 1"
proof -
  have t: "getType (newInfo (if c then CMPRS else WRITE)) = (if c then CMPRS else WRITE)"
    using newInfo_well_typed by (simp add: newInfo_def)
  have data: "getLevel (copyValueIntoInformation bs i) = getLevel i" "getDiverging (copyValueIntoInformation bs i) = getDiverging i"
    "getType (copyValueIntoInformation bs i) = getType i" "i_refcnt (copyValueIntoInformation bs i) = i_refcnt i" for i
    by (simp_all add: copyValueIntoInformation_def info_simps)
  show "getLevel (fresh_version d c bs) = LEVEL_ACTIVE" by (simp add: fresh_version_def data info_simps t level_defs)
  show "getDiverging (fresh_version d c bs) = d" by (simp add: fresh_version_def data info_simps)
  show "getType (fresh_version d c bs) \<noteq> READ" by (simp add: fresh_version_def data info_simps t)
  show "i_refcnt (fresh_version d c bs) = 1"
    by (simp add: fresh_version_def data) (simp add: setDiverging_def setLevel_def setMerged_def setRootedState_def newInfo_def info_new_def)
qed

text \<open>Success with a version for the conductor means a new pending one; otherwise the pending one stays.\<close>

definition write_keeps :: "key_env \<Rightarrow> uinttype \<Rightarrow> transaction \<Rightarrow> row \<Rightarrow> addr list \<Rightarrow> addr option \<Rightarrow> row \<Rightarrow> addr option \<Rightarrow> bool" where
  "write_keeps env cur tx r cs pend r' added \<longleftrightarrow>
     keeps_history env cur r cs r' (case added of None \<Rightarrow> pend | Some p \<Rightarrow> Some p) \<and> (added \<noteq> None \<longrightarrow> pend = None) \<and>
     (st_slock (r_story r') = st_slock (r_story r) \<or> getLockIdentifier (r_story r') = of_nat (tx_identifier tx))"

lemma write_keeps_refl: "wf_row cur r cs pend \<Longrightarrow> write_keeps env cur tx r cs pend r None"
  by (simp add: write_keeps_def keeps_history_refl)

lemma write_pending:
  assumes "wf_row cur r cs (Some p)" "r_heap r p = Some i" "same_pending i j"
  shows "write_keeps env cur tx r cs (Some p) (r\<lparr>r_heap := (r_heap r)(p \<mapsto> j)\<rparr>) None"
  using pending_change [OF assms] by (simp add: write_keeps_def)

lemma put_active_keeps:
  assumes wf: "wf_row cur r cs (Some p)" and level: "tx_level tx = LEVEL_ACTIVE"
    and r: "put_active env tx value option compressed position index coff p r = Inr (ok, code, r', added, mo)"
  shows "added = None \<and> write_keeps env cur tx r cs (Some p) r' added"
proof -
  obtain i where i: "r_heap r p = Some i" "getLevel i = LEVEL_ACTIVE" using wf_rowD(5) [OF wf] by (auto simp: pending_ok_def)
  show ?thesis
  proof (cases "getDeleting i \<and> option = EXISTING \<or> \<not> getDeleting i \<and> (option = RESERVED \<or> option = UNIQUE)")
    case True
    then have "r' = r" "added = None" using r i by (auto simp: put_active_def)
    then show ?thesis using write_keeps_refl [OF wf] by simp
  next
    case False
    let ?i1 = "copyValueIntoInformation value i"
    let ?i2 = "if getDeleting i then setDeleting False (setCreating True ?i1) else ?i1"
    let ?r2 = "r\<lparr>r_heap := (r_heap r)(p \<mapsto> ?i2)\<rparr>"
    have v: "versionInformation env tx p (Some value) compressed r = Inr (p, r\<lparr>r_heap := (r_heap r)(p \<mapsto> ?i1)\<rparr>)"
      using versionInformation_same [OF i(1)] i(2) level by simp
    have p2: "same_pending i ?i2"
      using same_pending_trans [OF same_pending_simps(1) same_pending_trans [OF same_pending_simps(3) same_pending_simps(2)]] same_pending_simps(1) by simp
    obtain r3 where r3: "set_position position index coff compressed p ?r2 = Inr r3" "r' = r3" "added = None"
      using r False i v by (auto simp: put_active_def with_info_eq result_simps split: if_splits)
    obtain j where j: "r3 = ?r2\<lparr>r_heap := (r_heap ?r2)(p \<mapsto> j)\<rparr>" "same_pending ?i2 j"
      using set_position_pending [OF _ r3(1)] by auto
    have "r' = r\<lparr>r_heap := (r_heap r)(p \<mapsto> j)\<rparr>" using j(1) r3(2) by simp
    then show ?thesis using write_pending [OF wf i(1) same_pending_trans [OF p2 j(2)]] r3(3) by simp
  qed
qed

text \<open>A fresh version with more flags set behind the last committed one.\<close>

lemma write_fresh:
  assumes wf: "wf_row cur r cs None" and ne: "cs \<noteq> []" and env: "reads_data env" and ti: "r_heap r (last cs) = Some ti"
    and same: "same_pending (setNext (r_root r) (setUpdating True (fresh_version (getDiverging ti) compressed bs))) j"
  shows "write_keeps env cur tx r cs None
    (r\<lparr>r_heap := (r_heap r)(last cs \<mapsto> setNext (Some (r_free r)) (loaded env ti), r_free r \<mapsto> j), r_free := r_free r + 1\<rparr>) (Some (r_free r))"
proof -
  have d: "\<not> getDiverging ti" using wf_rowD(4) [OF wf, of "last cs"] ne ti by (simp add: version_ok_def)
  have "i_refcnt (setUpdating True i) = i_refcnt i" for i by (simp add: setUpdating_def)
  then have "getLevel j = LEVEL_ACTIVE" "\<not> getDiverging j" "getType j \<noteq> READ" "i_refcnt j = 1" "getUpdating j" "i_next j = r_root r"
    using same d by (simp_all add: same_pending_def setNext_def info_simps fresh_version_pending)
  from pending_new [OF wf ne env ti this] show ?thesis by (simp add: write_keeps_def)
qed

lemma row_commute: "r\<lparr>r_free := a, r_heap := h\<rparr> = r\<lparr>r_heap := h, r_free := a\<rparr>" for r :: row
  by simp

lemma flags_pending:
  "same_pending i j \<Longrightarrow> same_pending (setNext q (setUpdating b i)) (setNext q (setUpdating b j))"
  by (simp add: same_pending_def setNext_def info_simps) (simp add: setUpdating_def)

lemma put_committed_keeps:
  assumes wf: "wf_row cur r cs None" and ne: "cs \<noteq> []" and env: "reads_data env" and level: "tx_level tx = LEVEL_ACTIVE"
    and r: "put_committed env tx value option compressed position index coff (last cs) r = Inr (ok, code, r', added, mo)"
  shows "write_keeps env cur tx r cs None r' added \<and> (ok \<longleftrightarrow> added \<noteq> None)"
proof -
  let ?h = "r_heap r" and ?c = "last cs" and ?n = "r_free r"
  obtain ti where ti: "?h ?c = Some ti" "getLevel ti = LEVEL_COMMIT" "\<not> getUpdating ti"
    using wf_rowD(4) [OF wf, of ?c] ne by (auto simp: version_ok_def committed_at_def)
  have free: "?h ?n = None" using wf_rowD(6) [OF wf, of ?n] by (cases "?h ?n") auto
  show ?thesis
  proof (cases "option = UNIQUE \<and> \<not> getDeleting ti")
    case True
    then have "r' = r" "added = None" "\<not> ok" using r ti by (auto simp: put_committed_def)
    then show ?thesis using write_keeps_refl [OF wf] by simp
  next
    case False
    define f where "f = fresh_version (getDiverging ti) compressed value"
    define g where "g = (if getLevel ti = LEVEL_COMMIT \<and> getDeleting ti then setCreating True else id)"
    define j0 where "j0 = setNext (r_root r) (setUpdating True (g (setDeleting False (setCreating False f))))"
    define r1 where "r1 = r\<lparr>r_heap := ?h(?c \<mapsto> setNext (Some ?n) (loaded env ti), ?n \<mapsto> f), r_free := ?n + 1\<rparr>"
    have f1: "r_heap r1 ?n = Some f" "r_root r1 = r_root r" by (simp_all add: r1_def r_root_def)
    have v: "versionInformation env tx ?c (Some value) compressed r = Inr (?n, r1)"
      unfolding r1_def f_def by (rule versionInformation_new) (use ti free level in \<open>simp_all add: level_defs\<close>)
    let ?r2 = "r1\<lparr>r_heap := (r_heap r1)(?n \<mapsto> j0)\<rparr>"
    have w: "with_info (Some ?n) (setNext (r_root r1) \<circ> setUpdating True \<circ> g \<circ> setDeleting False \<circ> setCreating False) r1 = Inr ?r2"
      using with_info_eq [of r1 ?n f] f1 by (simp add: j0_def comp_def)
    have rest: "rbind (set_position position index coff compressed ?n ?r2) (\<lambda>r3. Inr (True, ERR_SUCCESS, r3, Some ?n, False)) = Inr (ok, code, r', added, mo)"
      using r ti(1) False v w unfolding g_def by (simp add: put_committed_def)
    then obtain r3 where r3: "set_position position index coff compressed ?n ?r2 = Inr r3" "r' = r3" "added = Some ?n" "ok"
      by (auto simp: result_simps)
    obtain j where j: "r3 = ?r2\<lparr>r_heap := (r_heap ?r2)(?n \<mapsto> j)\<rparr>" "same_pending j0 j"
      using set_position_pending [OF _ r3(1)] by auto
    have two: "same_pending f (setDeleting False (setCreating False f))"
      by (rule same_pending_trans [OF same_pending_simps(3) same_pending_simps(2)])
    have "same_pending f (g (setDeleting False (setCreating False f)))"
      using two same_pending_trans [OF two same_pending_simps(3)] by (simp add: g_def)
    then have "same_pending (setNext (r_root r) (setUpdating True f)) j0" unfolding j0_def by (rule flags_pending)
    then have "same_pending (setNext (r_root r) (setUpdating True f)) j" using j(2) by (rule same_pending_trans)
    from write_fresh [OF wf ne env ti(1) this [unfolded f_def]] show ?thesis using r3 j(1) by (simp add: r1_def row_commute)
  qed
qed

lemma setRooted_zero:
  assumes "setRooted 0 True i = Inr i'" "getLevel i \<noteq> LEVEL_COMMIT"
  shows "i' = i\<lparr>i_indexed := i_indexed i OR 1\<rparr>"
  using assms by (simp add: setRooted_def index_bit_def Let_def info_simps)

text \<open>The version of a row that is inserted.\<close>

definition inserted_version :: "transaction \<Rightarrow> ubytetype list \<Rightarrow> bool \<Rightarrow> information" where
  "inserted_version tx value compressed =
     copyValueIntoInformation value (setLevel (tx_level tx) (setCreating True (newInfo (if compressed then CMPRS else WRITE))))"

lemma copyValue_fields [info_simps]:
  "getLevel (copyValueIntoInformation bs i) = getLevel i" "getDiverging (copyValueIntoInformation bs i) = getDiverging i"
  "getUpdating (copyValueIntoInformation bs i) = getUpdating i" "getCreating (copyValueIntoInformation bs i) = getCreating i"
  "getDeleting (copyValueIntoInformation bs i) = getDeleting i"
  "getType (copyValueIntoInformation bs i) = getType i" "i_refcnt (copyValueIntoInformation bs i) = i_refcnt i"
  "i_next (copyValueIntoInformation bs i) = i_next i"
  by (simp_all add: copyValueIntoInformation_def info_simps)

lemma refcnt_fields [info_simps]:
  "i_refcnt (setLevel l i) = i_refcnt i" "i_refcnt (setCreating f i) = i_refcnt i" "i_refcnt (setUpdating f i) = i_refcnt i"
  "i_refcnt (setDeleting f i) = i_refcnt i" "i_refcnt (setDiverging f i) = i_refcnt i"
  by (simp_all add: setLevel_def setMerged_def setRootedState_def setCreating_def setUpdating_def setDeleting_def setDiverging_def)

lemma newInfo_fields:
  "\<not> getDiverging (newInfo t)" "\<not> getUpdating (newInfo t)" "\<not> getDeleting (newInfo t)" "\<not> getCreating (newInfo t)"
  "i_next (newInfo t) = None" "i_refcnt (newInfo t) = 1" "getType (newInfo t) = t"
  by (cases t; simp add: newInfo_def info_new_def info_flag_defs flag_get_def getType_def)+

lemma inserted_version_pending:
  assumes "tx_level tx = LEVEL_ACTIVE"
  shows "getLevel (inserted_version tx bs c) = LEVEL_ACTIVE" "\<not> getDiverging (inserted_version tx bs c)"
    "\<not> getUpdating (inserted_version tx bs c)" "getType (inserted_version tx bs c) \<noteq> READ"
    "i_next (inserted_version tx bs c) = None" "i_refcnt (inserted_version tx bs c) = 1"
  using assms by (simp_all add: inserted_version_def info_simps newInfo_fields level_defs)

lemma ucast_identifier: "ucast (of_nat n :: uinttype) = (of_nat n :: 16 word)"
  by (rule bit_word_eqI) (simp add: bit_simps)

lemma put_new_keeps:
  assumes wf: "wf_row cur r [] None" and index: "ke_indexValue env = 0" and level: "tx_level tx = LEVEL_ACTIVE"
    and r: "put_new env tx value option compressed position index coff r = Inr (ok, code, r', added, mo)"
  shows "write_keeps env cur tx r [] None r' added \<and> (ok \<longleftrightarrow> added \<noteq> None)"
proof (cases "option = EXISTING")
  case True
  then have "r' = r" "added = None" "\<not> ok" using r by (auto simp: put_new_def)
  then show ?thesis using write_keeps_refl [OF wf] by simp
next
  case False
  let ?n = "r_free r"
  have root: "r_root r = None" using wf_rowD(1) [OF wf] by simp
  define i0 where "i0 = inserted_version tx value compressed"
  define l where "l = sl_setCredentials (of_nat (tx_identifier tx)) (tx_sequence tx) (case st_slock (r_story r) of None \<Rightarrow> sl_new | Some l \<Rightarrow> l)"
  have st: "setLockCredentials (of_nat (tx_identifier tx)) (tx_sequence tx) (initStoryLock ((r_story r)\<lparr>st_orginfo := Some ?n\<rparr>)) =
      Inr \<lparr>st_orginfo = Some ?n, st_slock = Some l\<rparr>"
    by (cases "st_slock (r_story r)") (simp_all add: setLockCredentials_def on_slock_def initStoryLock_def l_def)
  note i = inserted_version_pending [OF level, of "value" compressed, folded i0_def]
  have lv: "getLevel i0 \<noteq> LEVEL_COMMIT" using i(1) by (simp add: level_defs)
  define r3 where "r3 = (\<lambda>i'. r\<lparr>r_heap := (r_heap r)(?n \<mapsto> i'), r_free := ?n + 1, r_story := \<lparr>st_orginfo = Some ?n, st_slock = Some l\<rparr>\<rparr>)"
  have f3: "r_heap (r3 x) = (r_heap r)(?n \<mapsto> x)" "r_free (r3 x) = ?n + 1" "r_story (r3 x) = \<lparr>st_orginfo = Some ?n, st_slock = Some l\<rparr>" for x
    by (simp_all add: r3_def)
  have put: "rbind (setRooted (ke_indexValue env) True i0) (\<lambda>i'.
      rbind (set_position position index coff compressed ?n (r3 i')) (\<lambda>r4.
        Inr (True, ERR_SUCCESS, r4, Some ?n, False))) = Inr (ok, code, r', added, mo)"
    using r False root lv st index unfolding put_new_def inserted_version_def [symmetric] i0_def [symmetric] Let_def
    by (simp add: new_version_def set_root_def mark_rooted_def r_root_def with_story_def rbind_assoc row_commute r3_def)
  obtain i' where i': "setRooted (ke_indexValue env) True i0 = Inr i'" using put by (auto simp: result_simps)
  have put': "rbind (set_position position index coff compressed ?n (r3 i')) (\<lambda>r4. Inr (True, ERR_SUCCESS, r4, Some ?n, False)) =
      Inr (ok, code, r', added, mo)" using put i' by simp
  obtain r4 where r4: "set_position position index coff compressed ?n (r3 i') = Inr r4"
    by (cases "set_position position index coff compressed ?n (r3 i')") (use put' in simp_all)
  then have res: "r' = r4" "added = Some ?n" "ok" using put' by simp_all
  have "r_heap (r3 i') ?n = Some i'" by (simp add: f3)
  from set_position_pending [OF this r4] obtain j where j: "r4 = (r3 i')\<lparr>r_heap := (r_heap (r3 i'))(?n \<mapsto> j)\<rparr>" "same_pending i' j" by blast
  have "i' = i0\<lparr>i_indexed := i_indexed i0 OR 1\<rparr>" by (rule setRooted_zero) (use i' index lv in simp_all)
  then have jp: "getLevel j = LEVEL_ACTIVE" "\<not> getDiverging j" "\<not> getUpdating j" "getType j \<noteq> READ" "i_next j = None" "i_refcnt j = 1"
      "bit (i_indexed j) 0"
    using j(2) i by (simp_all add: same_pending_def info_simps bit_or_iff)
  have "wf_row cur r' [] (Some ?n)"
  proof -
    have h: "r_heap r' = (r_heap r)(?n \<mapsto> j)" "r_root r' = Some ?n" "r_free r' = ?n + 1" using j(1) res(1) by (simp_all add: r_root_def f3)
    have "pending_ok r' [] ?n" using jp by (simp add: pending_ok_def h)
    moreover have "a < r_free r'" if "r_heap r' a \<noteq> None" for a
      using wf_rowD(6) [OF wf, of a] that unfolding h by (cases "a = ?n") auto
    ultimately show ?thesis unfolding wf_row_def by (simp add: h)
  qed
  moreover have "getLockIdentifier (r_story r') = of_nat (tx_identifier tx)"
    using j(1) res(1) by (simp add: getLockIdentifier_def l_def f3 ucast_identifier)
  ultimately show ?thesis using res(2,3) by (simp add: write_keeps_def keeps_history_def same_history_def)
qed

lemma put_row_keeps:
  assumes wf: "wf_row cur r cs pend" and env: "reads_data env" and index: "ke_indexValue env = 0" and level: "tx_level tx = LEVEL_ACTIVE"
    and r: "put_row env tx value option compressed position index coff r = Inr (ok, code, r', added, mo)"
  shows "write_keeps env cur tx r cs pend r' added"
proof (cases pend)
  case (Some p)
  then have "put_active env tx value option compressed position index coff p r = Inr (ok, code, r', added, mo)"
    using r isolate_row [OF wf] by (simp add: put_row_def)
  then show ?thesis using put_active_keeps [of cur r cs p] wf level Some by blast
next
  case None
  show ?thesis
  proof (cases "cs = []")
    case True
    then have "put_new env tx value option compressed position index coff r = Inr (ok, code, r', added, mo)"
      using r isolate_row [OF wf] None by (simp add: put_row_def)
    then show ?thesis using put_new_keeps [of cur r env tx] wf index level None True by blast
  next
    case False
    obtain ti where ti: "r_heap r (last cs) = Some ti" "getLevel ti = LEVEL_COMMIT"
      using wf_rowD(4) [OF wf, of "last cs"] False by (auto simp: version_ok_def committed_at_def)
    then have "put_committed env tx value option compressed position index coff (last cs) r = Inr (ok, code, r', added, mo)"
      using r isolate_row [OF wf] None False by (simp add: put_row_def level_defs)
    then show ?thesis using put_committed_keeps [of cur r cs env tx] wf env level None False by blast
  qed
qed

lemma same_history_trans: "same_history env h h' cs \<Longrightarrow> same_history env h' h'' cs \<Longrightarrow> same_history env h h'' cs"
  unfolding same_history_def by (fastforce simp: same_version_def)

lemma same_version_loaded: "reads_data env \<Longrightarrow> same_version env i (loaded env i) \<and> i_next (loaded env i) = i_next i"
proof -
  assume env: "reads_data env"
  obtain d where d: "loaded env i = i\<lparr>i_data := Some d\<rparr>" using loaded_data [OF env] by blast
  then have "loaded env (loaded env i) = loaded env i" by (simp add: loaded_def [of env "i\<lparr>i_data := Some d\<rparr>"])
  then show ?thesis using d by (simp add: same_version_def)
qed

lemma same_pending_loaded: "reads_data env \<Longrightarrow> same_pending i (loaded env i)"
  using loaded_data [of env i] by (auto simp: same_pending_def info_simps)

lemma load_keeps:
  assumes wf: "wf_row cur r cs pend" and env: "reads_data env" and ti: "r_heap r a = Some ti" and a: "a \<in> set cs \<or> pend = Some a"
  shows "keeps_history env cur r cs (r\<lparr>r_heap := (r_heap r)(a \<mapsto> loaded env ti)\<rparr>) pend"
proof (cases "a \<in> set cs")
  case False
  then show ?thesis using a wf pending_change [OF _ ti same_pending_loaded [OF env]] by blast
next
  case True
  let ?r = "r\<lparr>r_heap := (r_heap r)(a \<mapsto> loaded env ti)\<rparr>"
  have ld: "same_version env ti (loaded env ti)" "i_next (loaded env ti) = i_next ti" using same_version_loaded [OF env, of ti] by auto
  have same: "same_history env (r_heap r) (r_heap ?r) cs"
    using same_history_refl [OF wf, of env] ld(1) ti by (auto simp: same_history_def)
  have "wf_row cur ?r cs pend"
  proof (rule wf_row_change [OF wf same])
    have "line (r_heap ?r) (r_root r) cs pend"
    proof (rule line_cong [OF wf_rowD(1) [OF wf]])
      fix x assume "x \<in> set cs"
      then show "\<exists>i. r_heap ?r x = Some i \<and> i_next i = i_next (the (r_heap r x))"
        using line_present [OF wf_rowD(1) [OF wf], of x] ti ld(2) by auto
    qed
    then show "line (r_heap ?r) (r_root ?r) cs pend" by (simp add: r_root_def)
    show "pending_ok ?r cs p" if "pend = Some p" for p
      using wf_rowD(5) [OF wf that] True by (auto simp: pending_ok_def r_root_def)
    show "b < r_free ?r" if "r_heap ?r b \<noteq> None" for b using wf_rowD(6) [OF wf, of b] ti that by (cases "b = a") auto
  qed
  then show ?thesis using same by (simp add: keeps_history_def)
qed

lemma write_keeps_after:
  assumes "keeps_history env cur r cs r1 pend" "r_story r1 = r_story r" "write_keeps env cur tx r1 cs pend r' added"
  shows "write_keeps env cur tx r cs pend r' added"
  using assms same_history_trans by (auto simp: write_keeps_def keeps_history_def)

text \<open>How \<open>remove_row\<close> goes on from the version the transaction sees: over its own pending version, or with a new one.\<close>

definition delete_from :: "key_env \<Rightarrow> transaction \<Rightarrow> ubytetype list \<Rightarrow> bool \<Rightarrow> addr \<Rightarrow> bool \<Rightarrow> row \<Rightarrow> (written \<times> ubytetype list) result" where
  "delete_from env tx d compressed x mo r =
     rbind (versionInformation env tx x (Some d) compressed r) (\<lambda>(delinfo, r2).
     rbind (with_info (Some delinfo) (setCreating False \<circ> setDeleting True) r2) (\<lambda>r3.
       if Some delinfo \<noteq> Some x
       then rbind (with_info (Some delinfo) (setNext (r_root r3) \<circ> setUpdating True) r3) (\<lambda>r4.
              Inr ((True, ERR_SUCCESS, r4, Some delinfo, mo), d))
       else Inr ((True, ERR_SUCCESS, r3, None, False), d)))"

lemma delete_pending_keeps:
  assumes wf: "wf_row cur r cs (Some p)" and level: "tx_level tx = LEVEL_ACTIVE"
    and r: "delete_from env tx d compressed p mo' r = Inr ((ok, code, r', added, mo), value')"
  shows "write_keeps env cur tx r cs (Some p) r' added"
proof -
  obtain xi where xi: "r_heap r p = Some xi" "getLevel xi = tx_level tx" using wf_rowD(5) [OF wf refl] level by (auto simp: pending_ok_def)
  let ?j = "setCreating False (setDeleting True (copyValueIntoInformation d xi))"
  have "r' = r\<lparr>r_heap := (r_heap r)(p \<mapsto> ?j)\<rparr>" "added = None"
    using r versionInformation_same [of r p xi tx env d compressed] xi unfolding delete_from_def by (auto simp: with_info_eq)
  moreover have "same_pending xi ?j"
    using same_pending_trans [OF same_pending_trans [OF same_pending_simps(1) same_pending_simps(2)] same_pending_simps(3)] .
  ultimately show ?thesis using write_pending [of cur r cs p xi ?j env tx] wf xi(1) by simp
qed

lemma delete_fresh_keeps:
  assumes wf: "wf_row cur r cs None" and ne: "cs \<noteq> []" "x = last cs" and env: "reads_data env" and level: "tx_level tx = LEVEL_ACTIVE"
    and r: "delete_from env tx d compressed x mo' r = Inr ((ok, code, r', added, mo), value')"
  shows "write_keeps env cur tx r cs None r' added"
proof -
  obtain xi where xi: "r_heap r x = Some xi" "getLevel xi = LEVEL_COMMIT" "\<not> getUpdating xi"
    using wf_rowD(4) [OF wf, of x] ne by (auto simp: version_ok_def committed_at_def)
  let ?n = "r_free r"
  have free: "r_heap r ?n = None" using wf_rowD(6) [OF wf, of ?n] by (cases "r_heap r ?n") auto
  have nx: "?n \<noteq> x" using free xi by auto
  define f where "f = fresh_version (getDiverging xi) compressed d"
  define r2 where "r2 = r\<lparr>r_heap := (r_heap r)(x \<mapsto> setNext (Some ?n) (loaded env xi), ?n \<mapsto> f), r_free := ?n + 1\<rparr>"
  have v: "versionInformation env tx x (Some d) compressed r = Inr (?n, r2)"
    unfolding r2_def f_def by (rule versionInformation_new) (use xi free level in \<open>simp_all add: level_defs\<close>)
  let ?g = "setCreating False (setDeleting True f)"
  let ?j = "setNext (r_root r) (setUpdating True ?g)"
  have w2: "with_info (Some ?n) (setCreating False \<circ> setDeleting True) r2 = Inr (r2\<lparr>r_heap := (r_heap r2)(?n \<mapsto> ?g)\<rparr>)"
    using with_info_eq [of r2 ?n f] by (simp add: r2_def)
  have w3: "with_info (Some ?n) (setNext (r_root r) \<circ> setUpdating True) (r2\<lparr>r_heap := (r_heap r2)(?n \<mapsto> ?g)\<rparr>) = Inr (r2\<lparr>r_heap := (r_heap r2)(?n \<mapsto> ?j)\<rparr>)"
    by (simp add: with_info_def on_info_def)
  have root2: "r_root (r2\<lparr>r_heap := (r_heap r2)(?n \<mapsto> ?g)\<rparr>) = r_root r" by (simp add: r2_def r_root_def)
  have res: "r' = r2\<lparr>r_heap := (r_heap r2)(?n \<mapsto> ?j)\<rparr>" "added = Some ?n"
    using r v w2 w3 nx root2 unfolding delete_from_def by auto
  have "same_pending (setNext (r_root r) (setUpdating True f)) ?j"
    by (rule flags_pending [OF same_pending_trans [OF same_pending_simps(2) same_pending_simps(3)]])
  from write_fresh [OF wf ne(1) env xi(1) [unfolded ne(2)] this [unfolded f_def]]
  show ?thesis using res by (simp add: r2_def f_def ne(2) row_commute)
qed

lemma remove_row_keeps:
  assumes wf: "wf_row cur r cs pend" and env: "reads_data env" and level: "tx_level tx = LEVEL_ACTIVE" and opt: "option \<noteq> DELETE_POPULATED"
    and r: "remove_row env tx value option compressed r = Inr ((ok, code, r', added, mo), value')"
  shows "write_keeps env cur tx r cs pend r' added"
proof (cases "cs = [] \<and> pend = None")
  case True
  then have "r' = r" "added = None" using r isolate_row(1) [OF wf] by (auto simp: remove_row_def)
  then show ?thesis using write_keeps_refl [OF wf] by simp
next
  case some: False
  define a where "a = (if cs = [] then the pend else last cs)"
  have a: "(if cs = [] then pend else Some (last cs)) = Some a" "a \<in> set cs \<or> pend = Some a" using some by (auto simp: a_def)
  obtain ti where ti: "r_heap r a = Some ti"
    using a(2) line_present [OF wf_rowD(1) [OF wf]] wf_rowD(5) [OF wf] by (auto simp: pending_ok_def)
  obtain d where d: "loaded env ti = ti\<lparr>i_data := Some d\<rparr>" using loaded_data [OF env] by blast
  define r1 where "r1 = r\<lparr>r_heap := (r_heap r)(a \<mapsto> loaded env ti)\<rparr>"
  have k1: "keeps_history env cur r cs r1 pend" unfolding r1_def by (rule load_keeps [OF wf env ti a(2)])
  then have wf1: "wf_row cur r1 cs pend" by (simp add: keeps_history_def)
  have same_story: "r_story r1 = r_story r" by (simp add: r1_def)
  have h1: "r_heap r1 a = Some (loaded env ti)" by (simp add: r1_def)
  define x where "x = (case pend of None \<Rightarrow> a | Some p \<Rightarrow> p)"
  have first: "isolateActiveFirst (r_heap r1) (Some a) True = Inr (Some x)"
    using isolate_row(2) [OF wf1] a(1) by (cases pend) (auto simp: isolateActiveFirst_def x_def)
  obtain xi where xi: "r_heap r1 x = Some xi"
    using h1 wf_rowD(5) [OF wf1] by (cases pend) (auto simp: x_def pending_ok_def)
  have step: "(if getDeleting xi then Inr ((True, ERR_SUCCESS, r1, None, False), d)
      else delete_from env tx d compressed x (getLevel xi \<noteq> LEVEL_COMMIT) r1) = Inr ((ok, code, r', added, mo), value')"
  proof -
    have dd: "i_data (loaded env ti) = Some d" using d by simp
    show ?thesis using r isolate_row(1) [OF wf] a(1) ti opt dd first xi
      unfolding r1_def by (cases "getDeleting xi") (simp_all add: remove_row_def delete_from_def Let_def)
  qed
  show ?thesis
  proof (cases "getDeleting xi")
    case True
    then have "r' = r1" "added = None" using step by auto
    then show ?thesis using write_keeps_after [OF k1 same_story write_keeps_refl [OF wf1]] by simp
  next
    case False
    then have del: "delete_from env tx d compressed x (getLevel xi \<noteq> LEVEL_COMMIT) r1 = Inr ((ok, code, r', added, mo), value')"
      using step by simp
    have "write_keeps env cur tx r1 cs pend r' added"
    proof (cases pend)
      case (Some p)
      then show ?thesis using delete_pending_keeps [OF _ level del [unfolded x_def]] wf1 by simp
    next
      case None
      then have "cs \<noteq> []" "x = last cs" using some by (auto simp: a_def x_def)
      then show ?thesis using delete_fresh_keeps [OF _ _ _ env level del] wf1 None by simp
    qed
    then show ?thesis using write_keeps_after [OF k1 same_story] by simp
  qed
qed

end
