(* ===== verification/RowCommit.thy ===== *)
theory RowCommit
  imports RowHistory
begin

section \<open>Commit and abort of a row\<close>

text \<open>
  What the rounds of \<open>commitCacheMemory\<close> and \<open>abortCacheMemory\<close> (\<^verbatim>\<open>core/RealTimeMap.cxx\<close>) do to the history of a row:
  a commit adds the pending version for the viewpoints to come and leaves the earlier ones alone, an abort leaves all of them alone.
\<close>

subsection \<open>The version that is retired\<close>

definition retired :: "uinttype \<Rightarrow> information \<Rightarrow> information" where
  "retired limit i = (if getDeleting i then i else setDeleting True (info_reset (getViewpoint i) limit True i))"

lemma retired_fields:
  "getViewpoint (retired limit i) = getViewpoint i" "getDeleting (retired limit i)"
  "getViewLimit (retired limit i) = (if getDeleting i then getViewLimit i else limit)"
  "getUpdating (retired limit i) = getUpdating i" "getCreating (retired limit i) = getCreating i" "getDiverging (retired limit i) = getDiverging i"
  "getLevel (retired limit i) = getLevel i" "i_next (retired limit i) = i_next i" "i_data (retired limit i) = i_data i"
  by (simp_all add: retired_def info_simps)

lemma retire_committed:
  assumes "r_heap r a = Some i" "getLevel i = LEVEL_COMMIT"
  shows "retire limit (Some a) r = Inr (r\<lparr>r_heap := (r_heap r)(a \<mapsto> retired limit i)\<rparr>, None)"
  using assms by (simp add: retire_def retired_def Let_def)

lemma replaced_row:
  assumes wf: "wf_row cur r cs pend" and ne: "cs \<noteq> []"
  shows "r_root r = Some (hd cs)" "replaced (hd cs) r = Inr (Some (last cs))"
proof -
  show root: "r_root r = Some (hd cs)" using committed_line_top [OF wf_committed_line [OF wf] ne] .
  obtain i where "r_heap r (hd cs) = Some i" "getLevel i = LEVEL_COMMIT"
    using wf_rowD(4) [OF wf, of "hd cs"] ne by (auto simp: version_ok_def committed_at_def)
  then show "replaced (hd cs) r = Inr (Some (last cs))" using isolate_row(1) [OF wf] ne root by (simp add: replaced_def)
qed

text \<open>What a reader sees when the last version got its limit.\<close>

lemma view_retired:
  assumes sorted: "sorted_wrt (older h) cs" and ne: "cs \<noteq> []" and ok: "\<And>c. c \<in> set cs \<Longrightarrow> version_ok cur h c"
    and others: "\<And>c. c \<in> set cs \<Longrightarrow> c \<noteq> last cs \<Longrightarrow> h' c = h c"
    and last: "h (last cs) = Some i" "h' (last cs) = Some j" "getViewpoint j = getViewpoint i" "getDeleting j"
      "getViewLimit j = (if getDeleting i then getViewLimit i else cur)" "i_data (loaded env j) = i_data (loaded env i)"
  shows "v \<le> cur \<Longrightarrow> visible h' cs v = visible h cs v \<and> view_of env h' cs v = view_of env h cs v"
    "cur < v \<Longrightarrow> visible h' cs v = None"
proof -
  have seen: "seen_at h' v c = (seen_at h v c \<and> (c = last cs \<longrightarrow> getDeleting i \<or> v \<le> cur))" if "c \<in> set cs" for c
    using others [OF that] last by (cases "c = last cs") (auto simp: seen_at_def)
  show "v \<le> cur \<Longrightarrow> visible h' cs v = visible h cs v \<and> view_of env h' cs v = view_of env h cs v"
  proof -
    assume v: "v \<le> cur"
    have vis: "visible h' cs v = visible h cs v" unfolding visible_def by (rule last_with_cong) (simp add: seen v)
    have data: "i_data (loaded env (info_at h' c)) = i_data (loaded env (info_at h c))" if "c \<in> set cs" for c
      using others [OF that] last by (cases "c = last cs") auto
    have "view_of env h' cs v = view_of env h cs v"
    proof (cases "visible h cs v")
      case (Some c)
      then have "c \<in> set cs" using last_with_Some unfolding visible_def by blast
      then show ?thesis using Some vis data by (simp add: view_of_def)
    qed (simp add: view_of_def vis)
    then show ?thesis using vis by simp
  qed
  show "cur < v \<Longrightarrow> visible h' cs v = None"
  proof -
    assume v: "cur < v"
    have "\<not> seen_at h' v c" if c: "c \<in> set cs" for c
    proof (cases "c = last cs")
      case True
      then show ?thesis using last(1,2,4,5) ok [OF c] v by (auto simp: seen_at_def version_ok_def)
    next
      case False
      then have "older h c (last cs)" by (rule older_last [OF sorted c])
      then show ?thesis using others [OF c False] ok [OF c] v by (auto simp: seen_at_def older_def version_ok_def)
    qed
    then show ?thesis by (simp add: visible_def last_with_None)
  qed
qed

text \<open>The committed versions stay in order when the last one got its limit.\<close>

lemma retired_ok:
  assumes sorted: "sorted_wrt (older h) cs" and ne: "cs \<noteq> []" and ok: "\<And>c. c \<in> set cs \<Longrightarrow> version_ok cur h c"
    and others: "\<And>c. c \<in> set cs \<Longrightarrow> c \<noteq> last cs \<Longrightarrow> h' c = h c"
    and last: "h (last cs) = Some i" "h' (last cs) = Some j" "getViewpoint j = getViewpoint i" "getDeleting j"
      "getViewLimit j = (if getDeleting i then getViewLimit i else cur)" "getLevel j = getLevel i" "getUpdating j = getUpdating i"
      "getCreating j = getCreating i" "getDiverging j = getDiverging i"
  shows "sorted_wrt (older h') cs" "\<And>c. c \<in> set cs \<Longrightarrow> version_ok cur h' c \<and> getDeleting (info_at h' c) \<and> getViewLimit (info_at h' c) \<le> cur"
proof -
  have fields: "getViewpoint (info_at h' c) = getViewpoint (info_at h c)" "getDeleting (info_at h c) \<Longrightarrow> getDeleting (info_at h' c)"
    "getDeleting (info_at h c) \<Longrightarrow> getViewLimit (info_at h' c) = getViewLimit (info_at h c)" if "c \<in> set cs" for c
    using others [OF that] last by (cases "c = last cs"; simp)+
  show "sorted_wrt (older h') cs"
    by (rule sorted_wrt_mono_rel [OF _ sorted]) (auto simp: older_def fields)
  show "version_ok cur h' c \<and> getDeleting (info_at h' c) \<and> getViewLimit (info_at h' c) \<le> cur" if c: "c \<in> set cs" for c
  proof (cases "c = last cs")
    case True
    then show ?thesis using ok [OF c] last by (auto simp: version_ok_def committed_at_def)
  next
    case False
    then have "older h c (last cs)" by (rule older_last [OF sorted c])
    then show ?thesis using ok [OF c] others [OF c False] by (auto simp: version_ok_def committed_at_def older_def)
  qed
qed

lemma place_simps [info_simps]:
  "place (setNext q i) = place i" "place (setUpdating f i) = place i" "place (setCreating f i) = place i" "place (setDeleting f i) = place i"
  "place (setDiverging f i) = place i" "place (setLevel l i) = place i" "place (info_reset lo hi c i) = place i"
  "place (i\<lparr>i_indexed := x\<rparr>) = place i"
  by (simp_all add: place_def setNext_def setUpdating_def setCreating_def setDeleting_def setDiverging_def setLevel_def setMerged_def
    setRootedState_def info_reset_def)

lemma setNext_simps [info_simps]:
  "getUpdating (setNext q i) = getUpdating i" "getCreating (setNext q i) = getCreating i" "getDeleting (setNext q i) = getDeleting i"
  "getDiverging (setNext q i) = getDiverging i" "getLevel (setNext q i) = getLevel i" "getType (setNext q i) = getType i"
  "getViewpoint (setNext q i) = getViewpoint i" "getViewLimit (setNext q i) = getViewLimit i" "i_next (setNext q i) = q"
  "i_data (setNext q i) = i_data i" "i_refcnt (setNext q i) = i_refcnt i" "i_indexed (setNext q i) = i_indexed i"
  by (simp_all add: setNext_def info_simps)

lemma retired_place: "place (retired limit i) = place i"
  by (simp add: retired_def info_simps)

subsection \<open>Rounds of the commit\<close>

text \<open>The row after a round: the versions of the row and what the viewpoints before and after the commit see.\<close>

definition committed_to :: "key_env \<Rightarrow> uinttype \<Rightarrow> row \<Rightarrow> addr list \<Rightarrow> row \<Rightarrow> addr list \<Rightarrow> addr option \<Rightarrow> ubytetype list option \<Rightarrow> bool" where
  "committed_to env cur r cs r' cs' pend' data \<longleftrightarrow>
     wf_row cur r' cs' pend' \<and> (\<forall>v \<le> cur. view_of env (r_heap r') cs' v = view_of env (r_heap r) cs v) \<and>
     (\<forall>v > cur. view_of env (r_heap r') cs' v = data)"

text \<open>The changed last version of a row with a pending one, and the line up to it.\<close>

definition retires :: "key_env \<Rightarrow> uinttype \<Rightarrow> row \<Rightarrow> addr list \<Rightarrow> addr \<Rightarrow> information \<Rightarrow> addr option \<Rightarrow> information option \<Rightarrow> heap \<Rightarrow> bool" where
  "retires env cur r cs p ti q rest h' \<longleftrightarrow>
     wf_row cur r cs (Some p) \<and> cs \<noteq> [] \<and> reads_data env \<and> r_heap r (last cs) = Some ti \<and>
     h' = (r_heap r)(last cs \<mapsto> setNext q (retired cur ti), p := rest)"

lemma retiresD:
  assumes "retires env cur r cs p ti q rest h'"
  shows "wf_row cur r cs (Some p)" "cs \<noteq> []" "reads_data env" "p \<notin> set cs" "r_heap r (last cs) = Some ti"
    "h' (last cs) = Some (setNext q (retired cur ti))" "h' p = rest"
    "\<And>c. c \<in> set cs \<Longrightarrow> c \<noteq> last cs \<Longrightarrow> h' c = r_heap r c"
proof -
  show wf: "wf_row cur r cs (Some p)" and ne: "cs \<noteq> []" and "reads_data env" using assms by (simp_all add: retires_def)
  show p: "p \<notin> set cs" using wf_rowD(5) [OF wf] by (simp add: pending_ok_def)
  show "r_heap r (last cs) = Some ti" using assms by (simp add: retires_def)
  show "h' (last cs) = Some (setNext q (retired cur ti))" "h' p = rest"
    "\<And>c. c \<in> set cs \<Longrightarrow> c \<noteq> last cs \<Longrightarrow> h' c = r_heap r c"
    using assms p ne by (auto simp: retires_def)
qed

lemma retires_order:
  assumes "retires env cur r cs p ti q rest h'"
  shows "sorted_wrt (older h') cs" "\<And>c. c \<in> set cs \<Longrightarrow> version_ok cur h' c \<and> getDeleting (info_at h' c) \<and> getViewLimit (info_at h' c) \<le> cur"
  using retired_ok [OF wf_rowD(3) [OF retiresD(1) [OF assms]] retiresD(2) [OF assms] wf_rowD(4) [OF retiresD(1) [OF assms]]
      retiresD(8,5,6) [OF assms]]
  by (simp_all add: info_simps retired_fields)

lemma retires_views:
  assumes "retires env cur r cs p ti q rest h'"
  shows "v \<le> cur \<Longrightarrow> visible h' cs v = visible (r_heap r) cs v \<and> view_of env h' cs v = view_of env (r_heap r) cs v"
    "cur < v \<Longrightarrow> visible h' cs v = None"
proof -
  have data: "i_data (loaded env (setNext q (retired cur ti))) = i_data (loaded env ti)"
    by (rule loaded_place [OF retiresD(3) [OF assms]]) (simp_all add: info_simps retired_fields retired_place)
  have j: "getViewpoint (setNext q (retired cur ti)) = getViewpoint ti" "getDeleting (setNext q (retired cur ti))"
    "getViewLimit (setNext q (retired cur ti)) = (if getDeleting ti then getViewLimit ti else cur)"
    by (simp_all add: info_simps retired_fields)
  note view = view_retired [OF wf_rowD(3) [OF retiresD(1) [OF assms]] retiresD(2) [OF assms] wf_rowD(4) [OF retiresD(1) [OF assms]]
      retiresD(8,5,6) [OF assms] j data]
  show "v \<le> cur \<Longrightarrow> visible h' cs v = visible (r_heap r) cs v \<and> view_of env h' cs v = view_of env (r_heap r) cs v" by (rule view(1))
  show "cur < v \<Longrightarrow> visible h' cs v = None" by (rule view(2))
qed

lemma retires_line:
  assumes "retires env cur r cs p ti q rest h'"
  shows "line h' (r_root r) cs q"
proof -
  note D = retiresD [OF assms]
  obtain bs where cs: "cs = bs @ [last cs]" using D(2) by (metis append_butlast_last_id)
  have out: "last cs \<notin> set bs" using wf_rowD(2) [OF D(1)] cs by (metis distinct_append disjoint_iff list.set_intros(1))
  have "p \<notin> set bs" using D(4) cs by (metis Un_iff set_append)
  moreover have "line (r_heap r) (r_root r) (bs @ [last cs]) (Some p)" using wf_rowD(1) [OF D(1)] cs by simp
  then have "line (r_heap r) (r_root r) bs (Some (last cs))" by auto
  ultimately have "line h' (r_root r) bs (Some (last cs))" using out assms by (simp add: retires_def)
  moreover have "line h' (Some (last cs)) [last cs] q" using D(6) by (simp add: info_simps)
  ultimately have "line h' (r_root r) (bs @ [last cs]) q" unfolding line_append by blast
  then show ?thesis using cs by simp
qed

lemma retires_bounded:
  assumes "retires env cur r cs p ti q rest h'"
  shows "h' a \<noteq> None \<Longrightarrow> a < r_free r"
proof -
  note D = retiresD [OF assms]
  have "r_heap r p \<noteq> None" using wf_rowD(5) [OF D(1)] by (auto simp: pending_ok_def)
  moreover have "r_heap r (last cs) \<noteq> None" using D(5) by simp
  ultimately show "h' a \<noteq> None \<Longrightarrow> a < r_free r"
    using wf_rowD(6) [OF D(1), of a] assms by (auto simp: retires_def split: if_splits)
qed

text \<open>A delete: the pending version goes.\<close>

lemma commit_deleted:
  assumes rt: "retires env cur r cs p ti None None (r_heap r')" and "r_root r' = r_root r" "r_free r' = r_free r"
  shows "committed_to env cur r cs r' cs None None"
proof -
  have "wf_row cur r' cs None" unfolding wf_row_def
    using assms(2,3) retires_line [OF rt] wf_rowD(2) [OF retiresD(1) [OF rt]] retires_order [OF rt] retires_bounded [OF rt] by auto
  moreover have "view_of env (r_heap r') cs v = None" if "cur < v" for v using retires_views(2) [OF rt that] by (simp add: view_of_def)
  ultimately show ?thesis using retires_views(1) [OF rt] by (simp add: committed_to_def)
qed

text \<open>An update: the pending version becomes the last one.\<close>

definition committed_version :: "uinttype \<Rightarrow> information \<Rightarrow> bool" where
  "committed_version viewpoint e \<longleftrightarrow>
     getLevel e = LEVEL_COMMIT \<and> \<not> getUpdating e \<and> \<not> getCreating e \<and> \<not> getDiverging e \<and> i_next e = None \<and>
     getViewpoint e = viewpoint \<and> getViewLimit e = 0"

lemma seen_committed: 
  assumes "h p = Some e" "committed_version (cur + 1) e" "cur + 1 \<noteq> 0"
  shows "version_ok cur h p" "seen_at h v p \<longleftrightarrow> \<not> getDeleting e \<and> cur < v"
proof -
  have e: "getLevel e = LEVEL_COMMIT" "\<not> getUpdating e" "\<not> getCreating e" "\<not> getDiverging e" "getViewpoint e = cur + 1" "getViewLimit e = 0"
    using assms(2) by (simp_all add: committed_version_def)
  then show "version_ok cur h p" using assms(1) by (simp add: version_ok_def committed_at_def)
  have "0 < v" if "cur < v" using that by (metis word_gt_0 not_less_zero word_not_simps(1))
  then show "seen_at h v p \<longleftrightarrow> \<not> getDeleting e \<and> cur < v" using assms(1) e next_viewpoint(2) [OF assms(3), of v] by (auto simp: seen_at_def not_le)
qed

lemma wf_row_later:
  assumes wf: "wf_row cur r cs pend" and le: "cur \<le> cur'" "cur' + 1 \<noteq> 0"
  shows "wf_row cur' r cs pend"
proof -
  have "cur < cur' + 1" using le(1) next_viewpoint(1) [OF le(2)] by (rule order_le_less_trans)
  then have "cur + 1 \<le> cur' + 1" by (rule inc_le)
  then have "version_ok cur' h c" if "version_ok cur h c" for h c
    using that le(1) by (auto simp: version_ok_def)
  then show ?thesis using wf by (simp add: wf_row_def)
qed

text \<open>
  The viewpoint of the new version may be taken later (\<open>cur2\<close>) than the limit of the old one (\<open>cur\<close>): then the
  viewpoints between the two see no version.
\<close>

lemma commit_updated:
  assumes rt: "retires env cur r cs p ti (Some p) (Some e) (r_heap r')" and "r_root r' = r_root r" "r_free r' = r_free r"
    and cur: "cur \<le> cur2" "cur2 + 1 \<noteq> 0" and e: "committed_version (cur2 + 1) e" "\<not> getDeleting e"
  shows "wf_row cur2 r' (cs @ [p]) None"
    "view_of env (r_heap r') (cs @ [p]) v =
       (if v \<le> cur then view_of env (r_heap r) cs v else if v \<le> cur2 then None else i_data (loaded env e))"
proof -
  let ?h = "r_heap r'"
  have hp: "?h p = Some e" using retiresD(7) [OF rt] .
  note ok = seen_committed [of "r_heap r'", OF hp e(1) cur(2)]
  note D = retiresD [OF rt]
  have less: "cur < cur2 + 1" using cur(1) next_viewpoint(1) [OF cur(2)] by (rule order_le_less_trans)
  then have up: "cur + 1 \<le> cur2 + 1" by (rule inc_le)
  have "older ?h c p" if "c \<in> set cs" for c
    using retires_order(2) [OF rt that] hp e(1) less up by (auto simp: older_def version_ok_def committed_version_def)
  moreover have "version_ok cur2 ?h c" if "c \<in> set cs" for c
    using retires_order(2) [OF rt that] cur(1) up by (auto simp: version_ok_def)
  ultimately show "wf_row cur2 r' (cs @ [p]) None" unfolding wf_row_def
    using assms(2,3) retires_line [OF rt] hp e(1) wf_rowD(2) [OF D(1)] D(4) retires_order(1) [OF rt] retires_bounded [OF rt] ok(1)
    by (auto simp: sorted_wrt_append committed_version_def)
  have vis: "visible ?h (cs @ [p]) v = (if v \<le> cur2 then visible ?h cs v else Some p)"
    using ok(2) [of v] e(2) by (auto simp: visible_def)
  show "view_of env (r_heap r') (cs @ [p]) v =
       (if v \<le> cur then view_of env (r_heap r) cs v else if v \<le> cur2 then None else i_data (loaded env e))"
  proof (cases "v \<le> cur")
    case True
    then have "v \<le> cur2" using cur(1) by (rule order_trans)
    then have "view_of env ?h (cs @ [p]) v = view_of env ?h cs v" using vis by (simp add: view_of_def)
    then show ?thesis using True retires_views(1) [OF rt True] by simp
  next
    case False
    then show ?thesis using retires_views(2) [OF rt, of v] vis hp by (simp add: view_of_def)
  qed
qed

text \<open>An insert: the pending version becomes the only one.\<close>

lemma commit_inserted:
  assumes wf: "wf_row cur r [] (Some p)" and h: "r_heap r' = (r_heap r)(p \<mapsto> e)" and "r_root r' = r_root r" "r_free r' = r_free r"
    and cur: "cur + 1 \<noteq> 0" and e: "committed_version (cur + 1) e"
  shows "committed_to env cur r [] r' [p] None (if getDeleting e then None else i_data (loaded env e))"
proof -
  let ?h = "r_heap r'"
  have hp: "?h p = Some e" by (simp add: h)
  note ok = seen_committed [of "r_heap r'", OF hp e cur]
  have "r_heap r p \<noteq> None" using wf_rowD(5) [OF wf] by (auto simp: pending_ok_def)
  then have "a < r_free r'" if "?h a \<noteq> None" for a
    using wf_rowD(6) [OF wf, of a] that assms(4) by (auto simp: h split: if_splits)
  then have "wf_row cur r' [p] None" unfolding wf_row_def
    using wf_rowD(1) [OF wf] assms(3) hp e ok(1) by (auto simp: committed_version_def)
  moreover have "visible ?h [p] v = (if \<not> getDeleting e \<and> cur < v then Some p else None)" for v
    using ok(2) [of v] last_with_append [of "seen_at ?h v" "[]" p] by (simp add: visible_def)
  ultimately show ?thesis using hp by (auto simp: committed_to_def view_of_def visible_def)
qed

lemma wf_row_story:
  assumes "wf_row cur r cs pend" "r_heap r' = r_heap r" "r_root r' = r_root r" "r_free r' = r_free r"
  shows "wf_row cur r' cs pend"
  using assms(1) unfolding wf_row_def pending_ok_def assms(2-4) .

lemma owned_story:
  assumes "unat (getLockIdentifier s) = n" "n \<noteq> 0"
  shows "\<exists>l. st_slock s = Some l"
  using assms by (cases "st_slock s") (simp_all add: getLockIdentifier_def)

text \<open>The two ways a round leaves the lock.\<close>

definition let_go :: "(story_lock \<Rightarrow> story_lock) \<Rightarrow> heap \<Rightarrow> row \<Rightarrow> row" where
  "let_go f h r = r\<lparr>r_heap := h, r_story := (r_story r)\<lparr>st_slock := Some (sl_release (f (the (st_slock (r_story r)))))\<rparr>\<rparr>"

lemma let_go_fields:
  "r_heap (let_go f h r) = h" "r_root (let_go f h r) = r_root r" "r_free (let_go f h r) = r_free r" "getLockIdentifier (r_story (let_go f h r)) = 0"
  by (simp_all add: let_go_def r_root_def getLockIdentifier_def)

lemma with_story_release:
  assumes "st_slock (r_story r) = Some l"
  shows "with_story st_release (r\<lparr>r_heap := h\<rparr>) = Inr (let_go id h r)"
    "with_story (\<lambda>s. rbind (setStoryDepth d s) st_release) (r\<lparr>r_heap := h\<rparr>) = Inr (let_go (sl_setStoryDepth (uint d)) h r)"
  using assms by (simp_all add: with_story_def st_release_def setStoryDepth_def on_slock_def let_go_def)

lemma commit_insert_version:
  assumes "getType i \<noteq> READ" "\<not> getUpdating i" "\<not> getDiverging i"
  shows "committed_version v (commit_insert v i)" "getDeleting (commit_insert v i) = getDeleting i"
    "place (commit_insert v i) = place i" "i_data (commit_insert v i) = i_data i"
  using assms by (simp_all add: committed_version_def commit_insert_def info_simps level_defs)

lemma commit_end_version:
  assumes "getType i \<noteq> READ" "i_next i = None"
  shows "committed_version v (commit_end v i)" "getDeleting (commit_end v i) = getDeleting i"
    "place (commit_end v i) = place i" "i_data (commit_end v i) = i_data i"
  using assms by (simp_all add: committed_version_def commit_end_def info_simps level_defs)

text \<open>A round for an inserted row.\<close>

lemma commit_row_new:
  assumes wf: "wf_row cur r [] (Some p)" and pi: "r_heap r p = Some pi" and env: "reads_data env"
    and owner: "unat (getLockIdentifier (r_story r)) = tx_identifier tx" "tx_identifier tx \<noteq> 0"
    and cv: "tx_commitViewpoint tx = 0" "cur + 1 \<noteq> 0"
  shows "\<exists>r' cs' pend'. commit_row env tx cur cur p r = Inr (r', None) \<and> getLockIdentifier (r_story r') = 0 \<and>
    committed_to env cur r [] r' cs' pend' (if getDeleting pi then None else i_data (loaded env pi)) \<and> (pend' \<noteq> None \<longrightarrow> getDeleting pi)"
proof -
  obtain l where l: "st_slock (r_story r) = Some l" using owned_story [OF owner] by blast
  have i: "getLevel pi = LEVEL_ACTIVE" "\<not> getDiverging pi" "getType pi \<noteq> READ" "\<not> getUpdating pi" "i_next pi = None"
    using wf_rowD(5) [OF wf] pi by (auto simp: pending_ok_def)
  consider (insert) "getCreating pi" | (zombie) "\<not> getCreating pi" "getDeleting pi" | (plain) "\<not> getCreating pi" "\<not> getDeleting pi" by blast
  then show ?thesis
  proof cases
    case insert
    let ?e = "commit_insert (cur + 1) pi"
    note e = commit_insert_version [OF i(3,4,2), of "cur + 1"]
    let ?r = "let_go id ((r_heap r)(p \<mapsto> ?e)) r"
    have "commit_row env tx cur cur p r = Inr (?r, None)"
      using pi i owner insert cv with_story_release(1) [OF l] by (simp add: commit_row_def with_info_eq new_viewpoint_def level_defs)
    moreover have "committed_to env cur r [] ?r [p] None (if getDeleting ?e then None else i_data (loaded env ?e))"
      by (rule commit_inserted [OF wf _ _ _ cv(2) e(1)]) (simp_all add: let_go_fields)
    ultimately show ?thesis using e(2) loaded_place [OF env e(4,3)] by (intro exI) (auto simp: let_go_fields)
  next
    case zombie
    let ?r = "let_go id (r_heap r) r"
    have "commit_row env tx cur cur p r = Inr (?r, None)"
      using pi i owner zombie cv with_story_release(1) [OF l, of "r_heap r"] by (simp add: commit_row_def level_defs)
    moreover have "wf_row cur ?r [] (Some p)" by (rule wf_row_story [OF wf]) (simp_all add: let_go_fields)
    ultimately show ?thesis using zombie
      by (intro exI [of _ ?r] exI [of _ "[]"] exI [of _ "Some p"]) (simp add: let_go_fields committed_to_def view_of_def visible_def)
  next
    case plain
    let ?e = "commit_end (cur + 1) pi"
    note e = commit_end_version [OF i(3,5), of "cur + 1"]
    let ?r = "let_go (sl_setStoryDepth (uint (getStoryDepth (r_story r) + 1))) ((r_heap r)(p \<mapsto> ?e)) r"
    have "with_story (\<lambda>s. rbind (setStoryDepth (getStoryDepth s + 1) s) st_release) (r\<lparr>r_heap := h\<rparr>) =
      with_story (\<lambda>s. rbind (setStoryDepth (getStoryDepth (r_story r) + 1) s) st_release) (r\<lparr>r_heap := h\<rparr>)" for h by (simp add: with_story_def)
    then have "commit_row env tx cur cur p r = Inr (?r, None)"
      using pi i owner plain cv with_story_release(2) [OF l] by (simp add: commit_row_def with_info_eq new_viewpoint_def level_defs)
    moreover have "committed_to env cur r [] ?r [p] None (if getDeleting ?e then None else i_data (loaded env ?e))"
      by (rule commit_inserted [OF wf _ _ _ cv(2) e(1)]) (simp_all add: let_go_fields)
    ultimately show ?thesis using e(2) loaded_place [OF env e(4,3)] plain by (intro exI) (auto simp: let_go_fields)
  qed
qed

text \<open>A round for a row with committed versions: a delete and an update.\<close>

lemma destroy_only:
  assumes "r_heap r p = Some i" "i_refcnt i = 1"
  shows "destroy_info p r = Inr (r\<lparr>r_heap := (r_heap r)(p := None)\<rparr>)"
  using assms by (simp add: destroy_info_def decref_def)

lemma commit_row_update:
  assumes wf: "wf_row cur r cs (Some p)" and ne: "cs \<noteq> []" and pi: "r_heap r p = Some pi" "\<not> getDeleting pi" and env: "reads_data env"
    and owner: "unat (getLockIdentifier (r_story r)) = tx_identifier tx" "tx_identifier tx \<noteq> 0"
    and cv: "tx_commitViewpoint tx = 0" "cur \<le> cur2" "cur2 + 1 \<noteq> 0"
  shows "\<exists>r'. commit_row env tx cur cur2 p r = Inr (r', None) \<and> getLockIdentifier (r_story r') = 0 \<and> wf_row cur2 r' (cs @ [p]) None \<and>
    (\<forall>v. view_of env (r_heap r') (cs @ [p]) v =
       (if v \<le> cur then view_of env (r_heap r) cs v else if v \<le> cur2 then None else i_data (loaded env pi)))"
proof -
  obtain l where l: "st_slock (r_story r) = Some l" using owned_story [OF owner] by blast
  let ?c = "last cs"
  obtain ti where ti: "r_heap r ?c = Some ti" "getLevel ti = LEVEL_COMMIT"
    using wf_rowD(4) [OF wf, of ?c] ne by (auto simp: version_ok_def committed_at_def)
  have root: "r_root r = Some (hd cs)" "replaced (hd cs) r = Inr (Some ?c)" using replaced_row [OF wf ne] by simp_all
  have i: "getLevel pi = LEVEL_ACTIVE" "\<not> getDiverging pi" "getType pi \<noteq> READ" "getUpdating pi" "i_next pi = Some (hd cs)" "i_refcnt pi = 1"
    using wf_rowD(5) [OF wf] pi ne root(1) by (auto simp: pending_ok_def)
  have "p \<notin> set cs" using wf_rowD(5) [OF wf] by (simp add: pending_ok_def)
  then have pc: "p \<noteq> ?c" "hd cs \<noteq> p" using ne by auto
  note ret = retire_committed [OF ti, of cur]
  define e0 where "e0 = setNext None pi"
  define e where "e = commit_end (cur2 + 1) e0"
  have "getType e0 \<noteq> READ" "i_next e0 = None" using i by (simp_all add: e0_def info_simps)
  note ev = commit_end_version [OF this, of "cur2 + 1", folded e_def]
  define h where "h = (r_heap r)(?c \<mapsto> setNext (Some p) (retired cur ti), p \<mapsto> e0)"
  let ?r = "let_go (sl_setStoryDepth (uint (getStoryDepth (r_story r) + 1))) (h(p \<mapsto> e)) r"
  have w': "rbind (with_info (Some p) (setNext None) (r\<lparr>r_heap := (r_heap r)(?c \<mapsto> retired cur ti)\<rparr>)) (\<lambda>r2.
      rbind (with_info (Some ?c) (setNext (Some p)) r2) (\<lambda>r3. Inr (r3, None :: addr option))) = Inr (r\<lparr>r_heap := h\<rparr>, None)"
    using pi pc by (simp add: with_info_def on_info_def h_def e0_def fun_upd_twist)
  have we: "with_info (Some p) (commit_end (cur2 + 1)) (r\<lparr>r_heap := h\<rparr>) = Inr (r\<lparr>r_heap := h(p \<mapsto> e)\<rparr>)"
    by (simp add: with_info_def on_info_def h_def e_def)
  have "with_story (\<lambda>s. rbind (setStoryDepth (getStoryDepth s + 1) s) st_release) (r\<lparr>r_heap := k\<rparr>) =
    with_story (\<lambda>s. rbind (setStoryDepth (getStoryDepth (r_story r) + 1) s) st_release) (r\<lparr>r_heap := k\<rparr>)" for k by (simp add: with_story_def)
  then have eq: "commit_row env tx cur cur2 p r = Inr (?r, None)"
    using pi i owner cv root(2) ret pc w' we with_story_release(2) [OF l] unfolding commit_row_def
    by (simp add: level_defs new_viewpoint_def)
  have rt: "retires env cur r cs p ti (Some p) (Some e) (r_heap ?r)"
    using wf ne env ti(1) by (simp add: retires_def let_go_fields h_def)
  have "i_data (loaded env e) = i_data (loaded env pi)"
    by (rule loaded_place [OF env]) (use ev(3,4) in \<open>simp_all add: e0_def info_simps\<close>)
  moreover have "\<not> getDeleting e" using ev(2) pi(2) by (simp add: e0_def info_simps)
  ultimately show ?thesis using eq commit_updated [OF rt let_go_fields(2,3) cv(2,3) ev(1)]
    by (intro exI [of _ ?r]) (simp add: let_go_fields)
qed

lemma commit_row_old:
  assumes wf: "wf_row cur r cs (Some p)" and ne: "cs \<noteq> []" and pi: "r_heap r p = Some pi" and env: "reads_data env"
    and owner: "unat (getLockIdentifier (r_story r)) = tx_identifier tx" "tx_identifier tx \<noteq> 0"
    and cv: "tx_commitViewpoint tx = 0" "cur + 1 \<noteq> 0"
  shows "\<exists>r' cs'. commit_row env tx cur cur p r = Inr (r', None) \<and> getLockIdentifier (r_story r') = 0 \<and>
    committed_to env cur r cs r' cs' None (if getDeleting pi then None else i_data (loaded env pi))"
proof -
  obtain l where l: "st_slock (r_story r) = Some l" using owned_story [OF owner] by blast
  let ?c = "last cs"
  obtain ti where ti: "r_heap r ?c = Some ti" "getLevel ti = LEVEL_COMMIT"
    using wf_rowD(4) [OF wf, of ?c] ne by (auto simp: version_ok_def committed_at_def)
  have root: "r_root r = Some (hd cs)" "replaced (hd cs) r = Inr (Some ?c)" using replaced_row [OF wf ne] by simp_all
  have i: "getLevel pi = LEVEL_ACTIVE" "\<not> getDiverging pi" "getType pi \<noteq> READ" "getUpdating pi" "i_next pi = Some (hd cs)" "i_refcnt pi = 1"
    using wf_rowD(5) [OF wf] pi ne root(1) by (auto simp: pending_ok_def)
  have p: "p \<notin> set cs" using wf_rowD(5) [OF wf] by (simp add: pending_ok_def)
  then have pc: "p \<noteq> ?c" "hd cs \<noteq> p" using ne by auto
  note ret = retire_committed [OF ti, of cur]
  let ?t = "\<lambda>q. setNext q (retired cur ti)"
  show ?thesis
  proof (cases "getDeleting pi")
    case True
    define h where "h = (r_heap r)(?c \<mapsto> ?t None, p \<mapsto> setNext None pi)"
    have w: "rbind (with_info (Some ?c) (setNext None) (r\<lparr>r_heap := (r_heap r)(?c \<mapsto> retired cur ti)\<rparr>)) (with_info (Some p) (setNext None)) = Inr (r\<lparr>r_heap := h\<rparr>)"
      using pi pc by (simp add: with_info_def on_info_def h_def)
    let ?r = "let_go id (h(p := None)) r"
    have d: "destroy_info p (let_go id h r) = Inr ?r"
      using destroy_only [of "let_go id h r" p "setNext None pi"] i(6) by (simp add: let_go_fields h_def info_simps) (simp add: let_go_def)
    have w': "rbind (with_info (Some ?c) (setNext None) (r\<lparr>r_heap := (r_heap r)(?c \<mapsto> retired cur ti)\<rparr>)) (\<lambda>r2.
        rbind (with_info (Some p) (setNext None) r2) (\<lambda>r3. Inr (r3, None :: addr option))) = Inr (r\<lparr>r_heap := h\<rparr>, None)"
      using w by (auto simp: result_simps rbind_assoc [symmetric])
    have "commit_row env tx cur cur p r = Inr (?r, None)"
      using pi i owner True cv root(2) ret pc w' d with_story_release(1) [OF l, of h] unfolding commit_row_def
      by (simp add: level_defs)
    moreover have "retires env cur r cs p ti None None (r_heap ?r)"
      using wf ne env ti(1) by (simp add: retires_def let_go_fields h_def)
    then have "committed_to env cur r cs ?r cs None None" by (rule commit_deleted) (simp_all add: let_go_fields)
    ultimately show ?thesis using True by (intro exI [of _ ?r] exI [of _ cs]) (simp add: let_go_fields)
  next
    case False
    obtain r' where u: "commit_row env tx cur cur p r = Inr (r', None)" "getLockIdentifier (r_story r') = 0" "wf_row cur r' (cs @ [p]) None"
      "\<And>v. view_of env (r_heap r') (cs @ [p]) v =
         (if v \<le> cur then view_of env (r_heap r) cs v else if v \<le> cur then None else i_data (loaded env pi))"
      using commit_row_update [OF wf ne pi False env owner cv(1) order_refl cv(2)] by blast
    then have "committed_to env cur r cs r' (cs @ [p]) None (i_data (loaded env pi))" by (auto simp: committed_to_def)
    then show ?thesis using u(1,2) False by (intro exI [of _ r'] exI [of _ "cs @ [p]"]) simp
  qed
qed

lemma commit_row_keeps:
  assumes wf: "wf_row cur r cs (Some p)" and env: "reads_data env"
    and owner: "unat (getLockIdentifier (r_story r)) = tx_identifier tx" "tx_identifier tx \<noteq> 0"
    and cv: "tx_commitViewpoint tx = 0" "cur + 1 \<noteq> 0"
  shows "\<exists>r' cs' pend'. commit_row env tx cur cur p r = Inr (r', None) \<and> getLockIdentifier (r_story r') = 0 \<and>
    committed_to env cur r cs r' cs' pend'
      (if getDeleting (info_at (r_heap r) p) then None else i_data (loaded env (info_at (r_heap r) p))) \<and>
    (pend' \<noteq> None \<longrightarrow> cs = [] \<and> getDeleting (info_at (r_heap r) p))"
proof -
  obtain pi where pi: "r_heap r p = Some pi" using wf_rowD(5) [OF wf] by (auto simp: pending_ok_def)
  show ?thesis
  proof (cases "cs = []")
    case True
    then have "wf_row cur r [] (Some p)" using wf by simp
    note new = commit_row_new [OF this pi env owner cv]
    have at: "info_at (r_heap r) p = pi" using pi by simp
    show ?thesis unfolding at True using new by simp
  next
    case False
    obtain r' cs' where "commit_row env tx cur cur p r = Inr (r', None)" "getLockIdentifier (r_story r') = 0"
      "committed_to env cur r cs r' cs' None (if getDeleting pi then None else i_data (loaded env pi))"
      using commit_row_old [OF wf False pi env owner cv] by blast
    then show ?thesis using pi by (intro exI [of _ r'] exI [of _ cs'] exI [of _ None]) (simp split: if_splits)
  qed
qed

subsection \<open>Abort\<close>

text \<open>
  The two loops of \<open>abortCacheMemory\<close> for a pending version at level 0: the row is left with the
  versions that were committed.
\<close>

lemma isolateBefore_row:
  assumes wf: "wf_row cur r cs (Some p)" and ne: "cs \<noteq> []" and h: "\<And>i. r_heap r (last cs) = Some i \<Longrightarrow> \<exists>j. h (last cs) = Some j \<and> i_next j = i_next i"
  shows "isolateBefore h (Some (last cs)) (Some p) = Inr (Some (last cs))"
proof -
  obtain i where i: "r_heap r (last cs) = Some i" "i_next i = Some p"
    using wf_rowD(1) [OF wf] ne by (cases cs rule: rev_cases) auto
  then show ?thesis using h [OF i(1)] by (auto simp: isolateBefore_def walk_Some before_body_def)
qed

lemma abort_old:
  assumes wf: "wf_row cur r cs (Some p)" and ne: "cs \<noteq> []" and env: "reads_data env" and index: "ke_indexValue env = 0"
  shows "\<exists>r1 r'. abort_cut env 0 p r = Inr r1 \<and> abort_drop env p r1 = Inr r' \<and> keeps_history env cur r cs r' None \<and> r_story r' = r_story r"
proof -
  let ?c = "last cs"
  obtain ti where ti: "r_heap r ?c = Some ti" "getLevel ti = LEVEL_COMMIT" "\<not> getUpdating ti"
    using wf_rowD(4) [OF wf, of ?c] ne by (auto simp: version_ok_def committed_at_def)
  obtain pi where pi: "r_heap r p = Some pi" using wf_rowD(5) [OF wf] by (auto simp: pending_ok_def)
  obtain oi where oi: "r_heap r (hd cs) = Some oi" "getLevel oi = LEVEL_COMMIT"
    using wf_rowD(4) [OF wf, of "hd cs"] ne by (auto simp: version_ok_def committed_at_def)
  have root: "r_root r = Some (hd cs)" using replaced_row [OF wf ne] by simp
  have i: "getLevel pi = 0" "\<not> getDiverging pi" "getType pi \<noteq> READ" "i_next pi = Some (hd cs)" "i_refcnt pi = 1"
    using wf_rowD(5) [OF wf] pi ne root by (auto simp: pending_ok_def level_defs)
  have p: "p \<notin> set cs" using wf_rowD(5) [OF wf] by (simp add: pending_ok_def)
  then have pc: "p \<noteq> ?c" "hd cs \<noteq> p" using ne by auto
  have top: "isolateLevel (r_heap r) (Some (hd cs)) LEVEL_COMMIT = Inr (Some ?c)" using isolate_row(1) [OF wf] ne root by simp
  obtain t1 where t1: "setIndexed 0 False ti = Inr t1" "t1 = ti\<lparr>i_indexed := i_indexed ti AND NOT 1\<rparr>"
    by (simp add: setIndexed_def index_bit_def)
  define r1 where "r1 = r\<lparr>r_heap := (r_heap r)(?c \<mapsto> t1)\<rparr>"
  have before: "isolateBefore (r_heap r1) (Some ?c) (Some p) = Inr (Some ?c)"
    by (rule isolateBefore_row [OF wf ne]) (use ti t1 in \<open>simp add: r1_def\<close>)
  have l1: "getLevel t1 = LEVEL_COMMIT" "\<not> getUpdating t1" using ti t1(2) by (simp_all add: info_simps)
  let ?t = "setNext None t1"
  have t2: "setNext None (setUpdating False t1) = ?t" using setUpdating_same [OF l1(2)] by simp
  let ?p = "setLevel (if getDeleting pi then LEVEL_ERASED else LEVEL_ROLLED) pi"
  define r2 where "r2 = r\<lparr>r_heap := (r_heap r)(?c \<mapsto> ?t, p \<mapsto> ?p)\<rparr>"
  have cut: "abort_cut env 0 p r = Inr r2"
  proof -
    have w1: "with_info (Some ?c) (setNext None \<circ> setUpdating False) r1 = Inr (r\<lparr>r_heap := (r_heap r)(?c \<mapsto> ?t)\<rparr>)"
      by (simp add: r1_def with_info_def on_info_def t2)
    have "setUpdating False ?t = ?t" by (rule setUpdating_same) (simp add: info_simps l1)
    then have w2: "with_info (Some ?c) (setNext None \<circ> setUpdating False) (r\<lparr>r_heap := (r_heap r)(?c \<mapsto> ?t)\<rparr>) = Inr (r\<lparr>r_heap := (r_heap r)(?c \<mapsto> ?t)\<rparr>)"
      by (simp add: with_info_def on_info_def) (simp add: setNext_def)
    have w3: "with_info (Some p) (\<lambda>i. setLevel (if getDeleting i then LEVEL_ERASED else LEVEL_ROLLED) i) (r\<lparr>r_heap := (r_heap r)(?c \<mapsto> ?t)\<rparr>) = Inr r2"
      using pi pc by (simp add: with_info_def on_info_def r2_def)
    have lt: "getLevel ?t = LEVEL_COMMIT" using l1 by (simp add: info_simps)
    show ?thesis using pi i(1,4) oi top ti index t1(1) before pc w1 w2 w3 lt l1 unfolding abort_cut_def r1_def
      by (simp add: level_defs)
  qed
  have drop: "abort_drop env p r2 = Inr (r\<lparr>r_heap := (r_heap r)(?c \<mapsto> ?t, p := None)\<rparr>)"
  proof -
    have hp: "r_heap r2 p = Some ?p" by (simp add: r2_def)
    have "absolveRooted (ke_indexValue env) p r2 = Inr r2"
      using hp index root pc by (simp add: absolveRooted_def getRooted_def index_bit_def r2_def r_root_def)
    moreover have "destroy_info p r2 = Inr (r\<lparr>r_heap := (r_heap r)(?c \<mapsto> ?t, p := None)\<rparr>)"
      using destroy_only [OF hp] i(5) by (simp add: info_simps r2_def)
    ultimately show ?thesis using hp by (simp add: abort_drop_def)
  qed
  let ?r = "r\<lparr>r_heap := (r_heap r)(?c \<mapsto> ?t, p := None)\<rparr>"
  have same: "same_history env (r_heap r) (r_heap ?r) cs"
  proof -
    have "i_data (loaded env ?t) = i_data (loaded env ti)"
      by (rule loaded_place [OF env]) (simp_all add: t1(2) info_simps)
    then have sv: "same_version env ti ?t" by (simp add: same_version_def t1(2) setNext_def)
    have "\<exists>i j. r_heap r c = Some i \<and> r_heap ?r c = Some j \<and> same_version env i j" if c: "c \<in> set cs" for c
    proof (cases "c = ?c")
      case True
      then show ?thesis using ti(1) pc sv by (intro exI [of _ ti] exI [of _ ?t]) simp
    next
      case False
      obtain j where "r_heap r c = Some j" using line_present [OF wf_rowD(1) [OF wf] c] by blast
      then show ?thesis using False c p by (intro exI [of _ j]) auto
    qed
    then show ?thesis by (simp add: same_history_def)
  qed
  have "wf_row cur ?r cs None"
  proof (rule wf_row_change [OF wf same])
    obtain bs where cs: "cs = bs @ [?c]" using ne by (metis append_butlast_last_id)
    have out: "?c \<notin> set bs" using wf_rowD(2) [OF wf] cs by (metis distinct_append disjoint_iff list.set_intros(1))
    have "p \<notin> set bs" using p cs by (metis Un_iff set_append)
    moreover have "line (r_heap r) (r_root r) (bs @ [?c]) (Some p)" using wf_rowD(1) [OF wf] cs by simp
    then have "line (r_heap r) (r_root r) bs (Some ?c)" by auto
    ultimately have "line (r_heap ?r) (r_root ?r) bs (Some ?c)" using out by (simp add: r_root_def)
    moreover have "line (r_heap ?r) (Some ?c) [?c] None" using pc by (simp add: info_simps)
    ultimately have "line (r_heap ?r) (r_root ?r) (bs @ [?c]) None" unfolding line_append by blast
    then show "line (r_heap ?r) (r_root ?r) cs None" using cs by simp
    show "a < r_free ?r" if "r_heap ?r a \<noteq> None" for a using wf_rowD(6) [OF wf, of a] ti(1) that by (auto split: if_splits)
  qed simp
  then show ?thesis using cut drop same by (simp add: keeps_history_def)
qed

lemma abort_new:
  assumes wf: "wf_row cur r [] (Some p)" and index: "ke_indexValue env = 0"
  shows "\<exists>r1 r'. abort_cut env 0 p r = Inr r1 \<and> abort_drop env p r1 = Inr r' \<and> keeps_history env cur r [] r' None \<and>
    r_story r' = \<lparr>st_orginfo = None, st_slock = None\<rparr>"
proof -
  obtain pi where pi: "r_heap r p = Some pi" "getLevel pi = 0" "\<not> getUpdating pi" "getType pi \<noteq> READ" "i_next pi = None" "i_refcnt pi = 1" "bit (i_indexed pi) 0"
    using wf_rowD(5) [OF wf] by (auto simp: pending_ok_def level_defs)
  have root: "r_root r = Some p" using wf_rowD(1) [OF wf] by simp
  define l where "l = (if getDeleting pi then LEVEL_ERASED else LEVEL_ROLLED)"
  have lv: "l \<noteq> LEVEL_COMMIT" "l \<noteq> LEVEL_MERGED" by (simp_all add: l_def level_defs)
  define e where "e = setLevel l pi"
  have "setUpdating False pi = pi" by (rule setUpdating_same [OF pi(3)])
  then have same: "setNext None (setUpdating False pi) = pi" using pi(5) by (simp add: setNext_def)
  have e: "getLevel e = l" "i_refcnt e = 1" "i_indexed e = i_indexed pi"
    using pi(4,6) lv by (simp_all add: e_def info_simps) (simp add: setLevel_def setMerged_def)
  define r1 where "r1 = r\<lparr>r_heap := (r_heap r)(p \<mapsto> e)\<rparr>"
  have w: "with_info (Some p) (setNext None \<circ> setUpdating False) r = Inr r"
    using pi(1) same by (simp add: with_info_def on_info_def fun_upd_idem)
  have w2: "with_info (Some p) (\<lambda>i. setLevel (if getDeleting i then LEVEL_ERASED else LEVEL_ROLLED) i) r = Inr r1"
    using pi(1) by (simp add: with_info_def on_info_def r1_def e_def l_def)
  have cut: "abort_cut env 0 p r = Inr r1"
    using pi(1,2,5) w w2 unfolding abort_cut_def by (simp add: isolateBefore_def)
  have hp: "r_heap r1 p = Some e" by (simp add: r1_def)
  have ix: "i_indexed e \<noteq> 0" "i_indexed e AND 1 \<noteq> 0" using pi(7) e(3) by (auto simp: and_one_eq odd_iff_mod_2_eq_one bit_0)
  define r2 where "r2 = r1\<lparr>r_story := \<lparr>st_orginfo = None, st_slock = None\<rparr>\<rparr>"
  have "absolveRooted 0 p r1 = Inr r2"
    using hp root ix(2) e(1) lv(1) by (simp add: absolveRooted_def getRooted_def index_bit_def r2_def r_root_def) (simp add: r1_def)
  moreover have "destroy_info p r2 = Inr (r2\<lparr>r_heap := (r_heap r2)(p := None)\<rparr>)"
    by (rule destroy_only [OF _ e(2)]) (simp add: r2_def hp)
  ultimately have drop: "abort_drop env p r1 = Inr (r2\<lparr>r_heap := (r_heap r2)(p := None)\<rparr>)"
    using hp ix(1) index by (simp add: abort_drop_def)
  let ?r = "r2\<lparr>r_heap := (r_heap r2)(p := None)\<rparr>"
  have "r_root ?r = None" by (simp add: r_root_def r2_def)
  moreover have "wf_row cur ?r [] None"
    using wf_rowD(6) [OF wf] calculation by (simp add: wf_row_def) (simp add: r2_def r1_def)
  moreover have "r_story ?r = \<lparr>st_orginfo = None, st_slock = None\<rparr>" by (simp add: r2_def)
  ultimately show ?thesis using cut drop by (simp add: keeps_history_def same_history_def)
qed

lemma abort_keeps:
  assumes wf: "wf_row cur r cs (Some p)" and env: "reads_data env" and index: "ke_indexValue env = 0"
  shows "\<exists>r1 r'. abort_cut env 0 p r = Inr r1 \<and> abort_drop env p r1 = Inr r' \<and> keeps_history env cur r cs r' None \<and>
    getLockIdentifier (r_story r') \<in> {0, getLockIdentifier (r_story r)}"
proof (cases "cs = []")
  case True
  have "wf_row cur r [] (Some p)" using wf True by simp
  from abort_new [OF this index] show ?thesis using True by (auto simp: getLockIdentifier_def)
next
  case False
  then show ?thesis using abort_old [OF wf False env index] by auto
qed

end
