(* ===== verification/RowPurge.thy ===== *)
theory RowPurge
  imports RowCommit
begin

section \<open>Purging a row\<close>

text \<open>
  \<open>deleteUnviewed\<close> (\<^verbatim>\<open>core/RealTimeAdaptive.h\<close>) on a well-formed row: it always returns, the row keeps its
  shape, and no viewpoint that is in use loses the version it sees.
\<close>

subsection \<open>The loop\<close>

definition droppable :: "tx_system \<Rightarrow> bool \<Rightarrow> bool \<Rightarrow> addr option \<Rightarrow> heap \<Rightarrow> addr \<Rightarrow> bool" where
  "droppable s running sharing chk h c \<longleftrightarrow> getDeleting (info_at h c) \<and> \<not> held s running sharing chk c (info_at h c)"

lemma destroy_any: "r_heap r a = Some i \<Longrightarrow> \<exists>x. destroy_info a r = Inr (r\<lparr>r_heap := (r_heap r)(a := x)\<rparr>)"
  by (simp add: destroy_info_def Let_def) blast

text \<open>The row after the loop: the dropped versions are gone or cut off, the others as they were.\<close>

definition dropped :: "addr \<Rightarrow> addr list \<Rightarrow> row \<Rightarrow> row \<Rightarrow> bool" where
  "dropped root ds r r' \<longleftrightarrow>
     r_story r' = r_story r \<and> r_free r' = r_free r \<and> (\<forall>c. c \<notin> set ds \<longrightarrow> r_heap r' c = r_heap r c) \<and>
     (\<forall>c. r_heap r' c \<noteq> None \<longrightarrow> r_heap r c \<noteq> None) \<and>
     (root \<in> set ds \<longrightarrow> r_heap r' root = Some (setNext None (info_at (r_heap r) root)))"

lemma unviewed_loop_step:
  assumes i: "r_heap r a = Some i" and free: "\<not> held s running sharing chk a i"
  obtains x where "a = root \<Longrightarrow> x = Some (setNext None i)"
    "dropped root [a] r (r\<lparr>r_heap := (r_heap r)(a := x)\<rparr>)"
    "unviewed_loop s running sharing chk root a r =
      (let r2 = r\<lparr>r_heap := (r_heap r)(a := x)\<rparr> in
       case i_next i of None \<Rightarrow> Some (Inr (None, False, r2))
       | Some n \<Rightarrow> (case r_heap r2 n of None \<Rightarrow> Some (Inl Dangling)
         | Some ni \<Rightarrow> if getLevel ni = LEVEL_COMMIT \<and> getDeleting ni then unviewed_loop s running sharing chk root n r2 else Some (Inr (Some n, False, r2))))"
proof -
  define r1 where "r1 = r\<lparr>r_heap := (r_heap r)(a \<mapsto> setNext None i)\<rparr>"
  have h1: "r_heap r1 a = Some (setNext None i)" by (simp add: r1_def)
  obtain x where x: "(if a \<noteq> root then destroy_info a r1 else Inr r1) = Inr (r\<lparr>r_heap := (r_heap r)(a := x)\<rparr>)"
    "a = root \<Longrightarrow> x = Some (setNext None i)"
    using destroy_any [OF h1] by (cases "a = root") (auto simp: r1_def)
  show thesis
  proof (rule that [of x])
    show "dropped root [a] r (r\<lparr>r_heap := (r_heap r)(a := x)\<rparr>)" using x(2) i by (auto simp: dropped_def)
    show "unviewed_loop s running sharing chk root a r =
      (let r2 = r\<lparr>r_heap := (r_heap r)(a := x)\<rparr> in
       case i_next i of None \<Rightarrow> Some (Inr (None, False, r2))
       | Some n \<Rightarrow> (case r_heap r2 n of None \<Rightarrow> Some (Inl Dangling)
         | Some ni \<Rightarrow> if getLevel ni = LEVEL_COMMIT \<and> getDeleting ni then unviewed_loop s running sharing chk root n r2 else Some (Inr (Some n, False, r2))))"
      by (subst unviewed_loop.simps) (simp add: i free Let_def x(1) [unfolded r1_def])
  qed (use x(2) in simp)
qed

lemma dropped_Cons:
  assumes "dropped root [a] r r2" "dropped root ds r2 r'" "root \<notin> set ds"
  shows "dropped root (a # ds) r r'"
proof -
  have "r_heap r' root = r_heap r2 root" using assms(2,3) by (simp add: dropped_def)
  then show ?thesis using assms(1,2) unfolding dropped_def by auto
qed

lemma unviewed_loop_line:
  assumes "line (r_heap r) (Some a) ys pend" "ys \<noteq> []" "distinct ys" "root \<notin> set (tl ys)"
    "\<And>c. c \<in> set ys \<Longrightarrow> committed_at (r_heap r) c" "ends_commit (r_heap r) pend" "\<And>p. pend = Some p \<Longrightarrow> p \<notin> set ys"
    "getDeleting (info_at (r_heap r) a)"
  shows "\<exists>ds es dirty r'. ys = ds @ es \<and> (\<forall>c \<in> set ds. droppable s running sharing chk (r_heap r) c) \<and> dropped root ds r r' \<and>
    unviewed_loop s running sharing chk root a r = Some (Inr (if es = [] then pend else Some (hd es), dirty, r'))"
  using assms
proof (induction ys arbitrary: a r)
  case Nil
  then show ?case by simp
next
  case (Cons y ys)
  obtain i where a: "a = y" and i: "r_heap r a = Some i" "line (r_heap r) (i_next i) ys pend" using Cons.prems(1) by auto
  show ?case
  proof (cases "held s running sharing chk a i")
    case True
    then have "unviewed_loop s running sharing chk root a r = Some (Inr (Some a, True, r))"
      by (subst unviewed_loop.simps) (simp add: i(1))
    moreover have "dropped root [] r r" by (simp add: dropped_def)
    ultimately show ?thesis using a by (intro exI [of _ "[]"] exI [of _ "y # ys"] exI [of _ True] exI [of _ r]) simp
  next
    case False
    obtain x where "a = root \<Longrightarrow> x = Some (setNext None i)" and dr: "dropped root [a] r (r\<lparr>r_heap := (r_heap r)(a := x)\<rparr>)"
      and step: "unviewed_loop s running sharing chk root a r =
      (let r2 = r\<lparr>r_heap := (r_heap r)(a := x)\<rparr> in
       case i_next i of None \<Rightarrow> Some (Inr (None, False, r2))
       | Some n \<Rightarrow> (case r_heap r2 n of None \<Rightarrow> Some (Inl Dangling)
         | Some ni \<Rightarrow> if getLevel ni = LEVEL_COMMIT \<and> getDeleting ni then unviewed_loop s running sharing chk root n r2 else Some (Inr (Some n, False, r2))))"
      by (rule unviewed_loop_step [OF i(1) False]) blast
    define r2 where "r2 = r\<lparr>r_heap := (r_heap r)(a := x)\<rparr>"
    note dr = dr [folded r2_def] and step = step [folded r2_def, unfolded Let_def]
    have d1: "droppable s running sharing chk (r_heap r) a" using False i(1) Cons.prems(8) by (simp add: droppable_def)
    have na: "a \<notin> set ys" "pend \<noteq> Some a" using Cons.prems(3,7) a by auto
    have other: "r_heap r2 c = r_heap r c" if "c \<noteq> a" for c using that by (simp add: r2_def)
    show ?thesis
    proof (cases "ys = []")
      case True
      then have nx: "i_next i = pend" using i(2) by simp
      have "unviewed_loop s running sharing chk root a r = Some (Inr (pend, False, r2))"
      proof (cases pend)
        case (Some p)
        then obtain pi where "r_heap r p = Some pi" "getLevel pi \<noteq> LEVEL_COMMIT" using Cons.prems(6) by (auto simp: ends_commit_def)
        moreover have "r_heap r2 p = r_heap r p" using other [of p] na(2) Some by simp
        ultimately show ?thesis using step nx Some by simp
      qed (use step nx in simp)
      then show ?thesis using d1 dr a True by (intro exI [of _ "[a]"] exI [of _ "[]"] exI [of _ False] exI [of _ r2]) simp
    next
      case ne: False
      then obtain n where n: "i_next i = Some n" "hd ys = n" "n \<in> set ys" using i(2) by (cases ys) auto
      then have "n \<noteq> a" using na by auto
      obtain ni where ni: "r_heap r n = Some ni" "getLevel ni = LEVEL_COMMIT" using Cons.prems(5) [of n] n(3) by (auto simp: committed_at_def)
      have hn: "r_heap r2 n = Some ni" using other [OF \<open>n \<noteq> a\<close>] ni(1) by simp
      show ?thesis
      proof (cases "getDeleting ni")
        case False
        then have "unviewed_loop s running sharing chk root a r = Some (Inr (Some n, False, r2))" using step n(1) hn by simp
        then show ?thesis using d1 dr a ne n(2) by (intro exI [of _ "[a]"] exI [of _ ys] exI [of _ False] exI [of _ r2]) simp
      next
        case True
        have same: "\<And>c. c \<in> set ys \<Longrightarrow> r_heap r2 c = r_heap r c" using other na(1) by metis
        have "\<exists>ds es dirty r'. ys = ds @ es \<and> (\<forall>c \<in> set ds. droppable s running sharing chk (r_heap r2) c) \<and> dropped root ds r2 r' \<and>
          unviewed_loop s running sharing chk root n r2 = Some (Inr (if es = [] then pend else Some (hd es), dirty, r'))"
        proof (rule Cons.IH)
          show "line (r_heap r2) (Some n) ys pend" using i(2) n(1) na(1) by (simp add: r2_def)
          show "root \<notin> set (tl ys)" using Cons.prems(4) by (cases ys) auto
          show "committed_at (r_heap r2) c" if "c \<in> set ys" for c using Cons.prems(5) [of c] same [OF that] that by (simp add: committed_at_def)
          show "ends_commit (r_heap r2) pend" using Cons.prems(6) na(2) by (auto simp: ends_commit_def r2_def)
        qed (use ne Cons.prems True hn in auto)
        then obtain ds es dirty r' where ih: "ys = ds @ es" "\<forall>c \<in> set ds. droppable s running sharing chk (r_heap r2) c" "dropped root ds r2 r'"
          "unviewed_loop s running sharing chk root n r2 = Some (Inr (if es = [] then pend else Some (hd es), dirty, r'))" by blast
        have "\<forall>c \<in> set ds. droppable s running sharing chk (r_heap r) c" using ih(1,2) same by (auto simp: droppable_def)
        moreover have "dropped root (a # ds) r r'" using dropped_Cons [OF dr ih(3)] Cons.prems(4) ih(1) by auto
        moreover have "unviewed_loop s running sharing chk root a r = Some (Inr (if es = [] then pend else Some (hd es), dirty, r'))"
          using step n(1) hn ni(2) True ih(4) by simp
        ultimately show ?thesis using ih(1) a d1 by (intro exI [of _ "a # ds"] exI [of _ es] exI [of _ dirty] exI [of _ r']) simp
      qed
    qed
  qed
qed

subsection \<open>The new root\<close>

lemma reroot_walk:
  assumes "line h q xs pend" "org \<notin> set xs" "\<And>c. c \<in> set xs \<Longrightarrow> i_next (info_at h c) \<noteq> Some root" "pend \<noteq> Some org"
    "\<And>p. pend = Some p \<Longrightarrow> p \<notin> set xs \<and> (\<exists>pi. h p = Some pi \<and> i_next pi = Some root)"
  shows "\<exists>n. reroot root org q depth h =
    Some (Inr (n, case pend of None \<Rightarrow> h | Some p \<Rightarrow> h(p \<mapsto> setNext (Some org) (info_at h p))))"
  using assms
proof (induction xs arbitrary: q depth)
  case Nil
  show ?case
  proof (cases pend)
    case None
    then show ?thesis using Nil by (intro exI [of _ depth]) (subst reroot.simps, simp)
  next
    case (Some p)
    then obtain pi where pi: "h p = Some pi" "i_next pi = Some root" using Nil.prems(5) by blast
    have "reroot root org (Some org) n h' = Some (Inr (n, h'))" for n h' by (subst reroot.simps) simp
    then have "reroot root org q depth h = Some (Inr (depth + 1, h(p \<mapsto> setNext (Some org) pi)))"
      using Nil.prems(1,4) Some pi by (subst reroot.simps) (simp add: Let_def)
    then show ?thesis using Some pi(1) by (intro exI [of _ "depth + 1"]) (simp add: fun_upd_def)
  qed
next
  case (Cons x xs)
  obtain i where i: "q = Some x" "h x = Some i" "line h (i_next i) xs pend" using Cons.prems(1) by auto
  have "i_next i \<noteq> Some root" using Cons.prems(3) [of x] i(2) by simp
  moreover have "h(x \<mapsto> setNext (i_next i) i) = h" using i(2) by (simp add: setNext_def fun_upd_idem)
  ultimately have step: "reroot root org q depth h = reroot root org (i_next i) (depth + 1) h"
    using i(1,2) Cons.prems(2) by (subst reroot.simps) (simp add: Let_def)
  have "\<exists>n. reroot root org (i_next i) (depth + 1) h = Some (Inr (n, case pend of None \<Rightarrow> h | Some p \<Rightarrow> h(p \<mapsto> setNext (Some org) (info_at h p))))"
    by (rule Cons.IH [OF i(3)]) (use Cons.prems in auto)
  then show ?case using step by simp
qed

text \<open>A row that has lost its oldest versions.\<close>

lemma wf_suffix:
  assumes wf: "wf_row cur r (ds @ es) pend" and ne: "es \<noteq> []" and root: "r_root r' = Some (hd es)"
    and same: "\<And>c. c \<in> set es \<Longrightarrow> r_heap r' c = r_heap r c"
    and pend: "\<And>p. pend = Some p \<Longrightarrow> r_heap r' p = Some (setNext (Some (hd es)) (info_at (r_heap r) p))"
    and bound: "\<And>a. r_heap r' a \<noteq> None \<Longrightarrow> a < r_free r'"
  shows "wf_row cur r' es pend"
proof -
  have "line (r_heap r) (Some (hd es)) es pend" using wf_rowD(1) [OF wf] ne by (cases es) auto
  then have "line (r_heap r') (r_root r') es pend" unfolding root
    by (rule line_cong) (use same line_present [OF wf_rowD(1) [OF wf]] in fastforce)
  moreover have "sorted_wrt (older (r_heap r')) es"
  proof (rule sorted_wrt_mono_rel [where P = "older (r_heap r)"])
    show "sorted_wrt (older (r_heap r)) es" using wf_rowD(3) [OF wf] by (simp add: sorted_wrt_append)
  qed (simp add: older_def same)
  moreover have "version_ok cur (r_heap r') c" if "c \<in> set es" for c
    using wf_rowD(4) [OF wf, of c] that same [OF that] by (simp add: version_ok_def committed_at_def)
  moreover have "pending_ok r' es p" if "pend = Some p" for p
    using wf_rowD(5) [OF wf that] pend [OF that] ne root by (auto simp: pending_ok_def info_simps)
  ultimately show ?thesis using wf_rowD(2) [OF wf] bound by (auto simp: wf_row_def)
qed

subsection \<open>Views\<close>

lemma last_with_drop: "(\<And>c. c \<in> set ds \<Longrightarrow> \<not> P c) \<Longrightarrow> last_with P (ds @ es) = last_with P es"
proof (induction es rule: rev_induct)
  case Nil
  then show ?case by (simp add: last_with_None)
next
  case (snoc x xs)
  then show ?case by (simp flip: append_assoc)
qed

lemma droppable_unseen:
  assumes "droppable s True sharing chk h c" "getViewpoint (info_at h c) \<noteq> 0" "s_viewpointMinimum s \<noteq> 0" "s_viewpointMinimum s \<le> v"
  shows "\<not> seen_at h v c"
proof
  assume seen: "seen_at h v c"
  then have le: "getViewpoint (info_at h c) \<le> v" "v \<le> getViewLimit (info_at h c)" using assms(1) by (auto simp: seen_at_def droppable_def)
  then have "getViewLimit (info_at h c) \<noteq> 0" using assms(2) by (metis order_trans word_le_0_iff)
  moreover have "s_viewpointMinimum s \<le> getViewLimit (info_at h c)" using assms(4) le(2) by (rule order_trans)
  ultimately have "viewing (getViewLimit (info_at h c)) s" using assms(3) by (simp add: viewing_def)
  then show False using assms(1,2) by (simp add: droppable_def held_def)
qed

lemma view_suffix:
  assumes "\<And>c. c \<in> set ds \<Longrightarrow> \<not> seen_at h v c" "\<And>c. c \<in> set es \<Longrightarrow> h' c = h c"
  shows "view_of env h' es v = view_of env h (ds @ es) v"
proof -
  have vis: "visible h (ds @ es) v = visible h es v" unfolding visible_def using assms(1) by (rule last_with_drop)
  have "visible h' es v = visible h es v" unfolding visible_def by (rule last_with_cong) (simp add: seen_at_def assms(2))
  then show ?thesis using vis last_with_Some [of "seen_at h v" es] assms(2) by (cases "visible h es v") (auto simp: view_of_def visible_def)
qed

subsection \<open>The whole purge\<close>

definition purged_to :: "key_env \<Rightarrow> tx_system \<Rightarrow> bool \<Rightarrow> uinttype \<Rightarrow> row \<Rightarrow> addr list \<Rightarrow> row \<Rightarrow> addr list \<Rightarrow> addr option \<Rightarrow> bool" where
  "purged_to env s running cur r cs r' cs' pend \<longleftrightarrow>
     wf_row cur r' cs' pend \<and> getLockIdentifier (r_story r') = getLockIdentifier (r_story r) \<and>
     (running \<and> (\<forall>c \<in> set cs. getViewpoint (info_at (r_heap r) c) \<noteq> 0) \<and> s_viewpointMinimum s \<noteq> 0 \<longrightarrow>
       (\<forall>v \<ge> s_viewpointMinimum s. view_of env (r_heap r') cs' v = view_of env (r_heap r) cs v))"

lemma purged_view:
  assumes "\<And>c. c \<in> set ds \<Longrightarrow> droppable s running sharing chk (r_heap r) c" "\<And>c. c \<in> set es \<Longrightarrow> r_heap r' c = r_heap r c"
    "wf_row cur r' es pend" "getLockIdentifier (r_story r') = getLockIdentifier (r_story r)"
  shows "purged_to env s running cur r (ds @ es) r' es pend"
proof -
  have "view_of env (r_heap r') es v = view_of env (r_heap r) (ds @ es) v"
    if "running" "\<forall>c \<in> set (ds @ es). getViewpoint (info_at (r_heap r) c) \<noteq> 0" "s_viewpointMinimum s \<noteq> 0" "s_viewpointMinimum s \<le> v" for v
    by (rule view_suffix [OF droppable_unseen [OF _ _ that(3,4)] assms(2)]) (use assms(1) that in auto)
  then show ?thesis using assms(3,4) by (simp add: purged_to_def)
qed

text \<open>The root that stays under a pending version sees nobody.\<close>

lemma purged_root:
  assumes wf: "wf_row cur r cs (Some p)" and ne: "cs \<noteq> []" and drop: "\<And>c. c \<in> set cs \<Longrightarrow> droppable s running sharing chk (r_heap r) c"
    and ri: "r_heap r (hd cs) = Some ri" and dr: "dropped (hd cs) cs r r1"
  shows "purged_to env s running cur r cs (r1\<lparr>r_heap := (r_heap r1)(hd cs \<mapsto> setNext (Some p) ri)\<rparr>) [hd cs] (Some p)"
proof -
  let ?r = "r1\<lparr>r_heap := (r_heap r1)(hd cs \<mapsto> setNext (Some p) ri)\<rparr>" and ?a = "hd cs"
  have root: "r_root r = Some ?a" using committed_line_top [OF wf_committed_line [OF wf] ne] .
  have f: "r_story r1 = r_story r" "r_free r1 = r_free r" "\<And>c. c \<notin> set cs \<Longrightarrow> r_heap r1 c = r_heap r c"
    "\<And>c. r_heap r1 c \<noteq> None \<Longrightarrow> r_heap r c \<noteq> None" using dr by (simp_all add: dropped_def)
  have p: "p \<notin> set cs" "p \<noteq> ?a" using wf_rowD(5) [OF wf] ne by (auto simp: pending_ok_def)
  have "pending_ok ?r [?a] p" using wf_rowD(5) [OF wf] p f(1) f(3) [OF p(1)] ne root by (auto simp: pending_ok_def r_root_def)
  moreover have "version_ok cur (r_heap ?r) ?a" using wf_rowD(4) [OF wf, of ?a] ne ri by (simp add: version_ok_def committed_at_def info_simps)
  moreover have "line (r_heap ?r) (r_root ?r) [?a] (Some p)" using root f(1) by (simp add: r_root_def info_simps)
  moreover have "a < r_free ?r" if "r_heap ?r a \<noteq> None" for a
    using wf_rowD(6) [OF wf, of a] wf_rowD(6) [OF wf, of ?a] that f(2,4) ri by (cases "a = ?a") auto
  ultimately have w: "wf_row cur ?r [?a] (Some p)" by (simp add: wf_row_def)
  have "view_of env (r_heap ?r) [?a] v = view_of env (r_heap r) cs v"
    if "running" "\<forall>c \<in> set cs. getViewpoint (info_at (r_heap r) c) \<noteq> 0" "s_viewpointMinimum s \<noteq> 0" "s_viewpointMinimum s \<le> v" for v
  proof -
    have un: "\<not> seen_at (r_heap r) v c" if "c \<in> set cs" for c
      by (rule droppable_unseen) (use drop [OF that] that \<open>running\<close> \<open>\<forall>c \<in> set cs. _ c\<close> \<open>s_viewpointMinimum s \<noteq> 0\<close> \<open>s_viewpointMinimum s \<le> v\<close> in auto)
    then have "visible (r_heap r) cs v = None" by (simp add: visible_def last_with_None)
    moreover have "\<not> seen_at (r_heap ?r) v ?a" using un [of ?a] ne ri by (simp add: seen_at_def info_simps)
    then have "visible (r_heap ?r) [?a] v = None" by (simp add: visible_def last_with_None)
    ultimately show ?thesis by (simp add: view_of_def)
  qed
  then show ?thesis using w f(1) by (simp add: purged_to_def)
qed

text \<open>The lock of a row, but for its depth.\<close>

definition same_lock :: "storyline \<Rightarrow> storyline \<Rightarrow> bool" where
  "same_lock a b \<longleftrightarrow> getLockIdentifier b = getLockIdentifier a"

lemma setStoryDepth_lock:
  "setStoryDepth d st = Inr st' \<Longrightarrow> same_lock st st' \<and> st_orginfo st' = st_orginfo st"
  by (auto simp: setStoryDepth_def on_slock_def same_lock_def getLockIdentifier_def sl_setStoryDepth_def sl_getIdentifier_def split: option.splits)

lemma reroot_line_effect:
  assumes wf: "wf_row cur r (ds @ es) pend" and ne: "es \<noteq> []" and dr: "dropped root ds r r1" and root: "root = hd (ds @ es)"
  shows "\<exists>r2. reroot_line root (Some (hd es)) r1 = Inr r2 \<and> same_lock (r_story r) (r_story r2) \<and> r_root r2 = r_root r \<and> r_free r2 = r_free r \<and>
    r_heap r2 = (case pend of None \<Rightarrow> r_heap r1 | Some p \<Rightarrow> (r_heap r1)(p \<mapsto> setNext (Some (hd es)) (info_at (r_heap r) p)))"
proof -
  let ?e = "hd es"
  obtain zs where es: "es = ?e # zs" using ne by (metis list.collapse)
  have f: "r_story r1 = r_story r" "r_free r1 = r_free r" "\<And>c. c \<notin> set ds \<Longrightarrow> r_heap r1 c = r_heap r c" using dr by (simp_all add: dropped_def)
  have dis: "distinct (ds @ es)" using wf_rowD(2) [OF wf] .
  have same: "r_heap r1 c = r_heap r c" if "c \<in> set es" for c using f(3) dis that by auto
  have "line (r_heap r) (Some ?e) es pend" using wf_rowD(1) [OF wf] ne by (cases es) auto
  then have l1: "line (r_heap r1) (Some ?e) es pend"
    by (rule line_cong) (use same line_present [OF wf_rowD(1) [OF wf]] in fastforce)
  obtain i where i: "r_heap r1 ?e = Some i" "line (r_heap r1) (i_next i) zs pend" using l1 es by (metis line.simps(2) option.inject)
  have proot: "p \<noteq> root" "p \<notin> set (ds @ es)" if "pend = Some p" for p
  proof -
    show "p \<notin> set (ds @ es)" using wf_rowD(5) [OF wf that] by (simp add: pending_ok_def)
    moreover have "root \<in> set (ds @ es)" unfolding root using ne by (intro hd_in_set) simp
    ultimately show "p \<noteq> root" by blast
  qed
  have nr: "i_next (info_at (r_heap r1) c) \<noteq> Some root" if c: "c \<in> set es" for c
  proof -
    obtain us vs where es2: "es = us @ c # vs" using split_list [OF c] by blast
    then obtain j where j: "r_heap r1 c = Some j" "line (r_heap r1) (i_next j) vs pend" using l1 by auto
    then have "i_next j = pend \<or> (\<exists>v \<in> set vs. i_next j = Some v)" by (cases vs) auto
    moreover have "root \<notin> set vs" using dis es2 root by (cases ds; cases us) auto
    ultimately show ?thesis using j(1) proot by auto
  qed
  have "\<exists>n. reroot root ?e (i_next i) 1 (r_heap r1) =
    Some (Inr (n, case pend of None \<Rightarrow> r_heap r1 | Some p \<Rightarrow> (r_heap r1)(p \<mapsto> setNext (Some ?e) (info_at (r_heap r1) p))))"
  proof (rule reroot_walk [OF i(2)])
    have "distinct es" using dis by simp
    then show "?e \<notin> set zs" using es by (metis distinct.simps(2))
    show "i_next (info_at (r_heap r1) c) \<noteq> Some root" if "c \<in> set zs" for c using nr [of c] that es by (metis list.set_intros(2))
    show "pend \<noteq> Some ?e" using proot(2) ne by fastforce
    show "p \<notin> set zs \<and> (\<exists>pi. r_heap r1 p = Some pi \<and> i_next pi = Some root)" if "pend = Some p" for p
    proof -
      have "r_root r = Some root" using committed_line_top [OF wf_committed_line [OF wf]] ne root by simp
      moreover have "p \<notin> set ds" "p \<notin> set es" using proot(2) [OF that] by auto
      ultimately show ?thesis using wf_rowD(5) [OF wf that] f(3) [of p] ne es by (auto simp: pending_ok_def) (metis list.set_intros(2))
    qed
  qed
  then obtain n where n: "reroot root ?e (i_next i) 1 (r_heap r1) =
    Some (Inr (n, case pend of None \<Rightarrow> r_heap r1 | Some p \<Rightarrow> (r_heap r1)(p \<mapsto> setNext (Some ?e) (info_at (r_heap r) p))))"
    using f(3) proot(2) by (cases pend) auto
  define h2 where "h2 = (case pend of None \<Rightarrow> r_heap r1 | Some p \<Rightarrow> (r_heap r1)(p \<mapsto> setNext (Some ?e) (info_at (r_heap r) p)))"
  have line_eq: "reroot_line root (Some ?e) r1 =
    (if getDeleting i \<and> st_slock (r_story r1) \<noteq> None then with_story (setStoryDepth (of_nat n)) (r1\<lparr>r_heap := h2\<rparr>) else Inr (r1\<lparr>r_heap := h2\<rparr>))"
    using i(1) n unfolding h2_def [symmetric] by (simp add: reroot_line_def returned_def Let_def)
  show ?thesis
  proof (cases "getDeleting i \<and> st_slock (r_story r1) \<noteq> None")
    case False
    then have "reroot_line root (Some ?e) r1 = Inr (r1\<lparr>r_heap := h2\<rparr>)" unfolding line_eq by auto
    then show ?thesis using f(1,2) by (intro exI [of _ "r1\<lparr>r_heap := h2\<rparr>"]) (simp add: same_lock_def h2_def r_root_def)
  next
    case True
    then obtain st where st: "setStoryDepth (of_nat n) (r_story r1) = Inr st" by (auto simp: setStoryDepth_def on_slock_def)
    let ?r = "r1\<lparr>r_heap := h2, r_story := st\<rparr>"
    have "reroot_line root (Some ?e) r1 = Inr ?r" using True line_eq st by (simp add: with_story_def)
    then show ?thesis using setStoryDepth_lock [OF st] f(1,2) by (intro exI [of _ ?r]) (simp add: h2_def r_root_def)
  qed
qed

lemma deleteUnviewed_unchanged:
  assumes wf: "wf_row cur r cs pend" and root: "r_root r = Some a" "r_heap r a = Some i" and "\<not> (getLevel i = LEVEL_COMMIT \<and> getDeleting i)"
  shows "deleteUnviewed env s running checkpoint r = Inr (False, False, r) \<and> purged_to env s running cur r cs r cs pend"
  using assms(1,4) by (auto simp: deleteUnviewed_def purged_to_def root)

text \<open>What follows the loop, by what the loop has left.\<close>

definition after_loop :: "key_env \<Rightarrow> addr \<Rightarrow> addr option \<Rightarrow> bool \<Rightarrow> row \<Rightarrow> (bool \<times> bool \<times> row) result" where
  "after_loop env a org dirty r1 =
     rbind (case org of None \<Rightarrow> Inr False | Some b \<Rightarrow> rbind (deref (r_heap r1) org) (\<lambda>i. Inr (i_next i = Some a))) (\<lambda>pending.
       if pending then rbind (with_info (Some a) (setNext org) r1) (\<lambda>r2. Inr (False, dirty, r2))
       else rbind (reroot_line a org r1) (\<lambda>r2.
         rbind (if org \<noteq> Some a then rbind (destroy_info a r2) (\<lambda>r3.
                  mark_rooted (ke_indexValue env) True org (r3\<lparr>r_story := (r_story r3)\<lparr>st_orginfo := org\<rparr>\<rparr>)) else Inr r2) (\<lambda>r4.
           Inr (org = None, dirty, r4))))"

lemma after_loop_empty:
  assumes wf: "wf_row cur r cs None" and ne: "cs \<noteq> []" and drop: "\<And>c. c \<in> set cs \<Longrightarrow> droppable s running sharing None (r_heap r) c"
    and dr: "dropped (hd cs) cs r r1"
  shows "\<exists>r'. after_loop env (hd cs) None dirty r1 = Inr (True, dirty, r') \<and> purged_to env s running cur r cs r' [] None \<and> r_root r' = None"
proof -
  have f: "r_story r1 = r_story r" "r_free r1 = r_free r" "\<And>c. r_heap r1 c \<noteq> None \<Longrightarrow> r_heap r c \<noteq> None" "r_heap r1 (hd cs) \<noteq> None"
    using dr ne by (simp_all add: dropped_def)
  then obtain x where "destroy_info (hd cs) r1 = Inr (r1\<lparr>r_heap := (r_heap r1)(hd cs := x)\<rparr>)" "x \<noteq> None \<longrightarrow> r_heap r (hd cs) \<noteq> None"
    using destroy_any [of r1 "hd cs"] f(3) by blast
  moreover define r' where "r' = r1\<lparr>r_heap := (r_heap r1)(hd cs := x), r_story := (r_story r1)\<lparr>st_orginfo := None\<rparr>\<rparr>"
  ultimately have eq: "after_loop env (hd cs) None dirty r1 = Inr (True, dirty, r')" and x: "x \<noteq> None \<longrightarrow> r_heap r (hd cs) \<noteq> None"
    by (simp_all add: after_loop_def reroot_line_def mark_rooted_def)
  have root: "r_root r' = None" by (simp add: r'_def r_root_def)
  have "a < r_free r'" if "r_heap r' a \<noteq> None" for a
    using that wf_rowD(6) [OF wf, of a] x f(2,3) by (cases "a = hd cs") (auto simp: r'_def)
  then have "wf_row cur r' [] None" using root by (simp add: wf_row_def)
  then have "purged_to env s running cur r (cs @ []) r' [] None"
    by (intro purged_view [OF drop]) (simp_all add: r'_def f(1) getLockIdentifier_def)
  then show ?thesis using eq root by simp
qed

lemma after_loop_pending:
  assumes wf: "wf_row cur r cs (Some p)" and ne: "cs \<noteq> []" and drop: "\<And>c. c \<in> set cs \<Longrightarrow> droppable s running sharing None (r_heap r) c"
    and dr: "dropped (hd cs) cs r r1" and ri: "r_heap r (hd cs) = Some ri"
  shows "\<exists>r'. after_loop env (hd cs) (Some p) dirty r1 = Inr (False, dirty, r') \<and> purged_to env s running cur r cs r' [hd cs] (Some p)"
proof -
  have root: "r_root r = Some (hd cs)" using committed_line_top [OF wf_committed_line [OF wf] ne] .
  obtain pi where pi: "r_heap r p = Some pi" "i_next pi = Some (hd cs)" "p \<notin> set cs" using wf_rowD(5) [OF wf] ne root by (auto simp: pending_ok_def)
  have h1: "r_heap r1 p = Some pi" "r_heap r1 (hd cs) = Some (setNext None ri)" using dr pi ne ri by (simp_all add: dropped_def)
  have "setNext (Some p) (setNext None ri) = setNext (Some p) ri" by (simp add: setNext_def)
  then have "after_loop env (hd cs) (Some p) dirty r1 = Inr (False, dirty, r1\<lparr>r_heap := (r_heap r1)(hd cs \<mapsto> setNext (Some p) ri)\<rparr>)"
    using h1 pi(2) by (simp add: after_loop_def with_info_eq)
  then show ?thesis using purged_root [OF wf ne drop ri dr] by blast
qed

lemma after_loop_kept:
  assumes wf: "wf_row cur r (ds @ es) pend" and ne: "es \<noteq> []" and drop: "\<And>c. c \<in> set ds \<Longrightarrow> droppable s running sharing None (r_heap r) c"
    and dr: "dropped (hd (ds @ es)) ds r r1"
  shows "\<exists>r'. after_loop env (hd (ds @ es)) (Some (hd es)) dirty r1 = Inr (False, dirty, r') \<and> purged_to env s running cur r (ds @ es) r' es pend"
proof -
  let ?a = "hd (ds @ es)" and ?e = "hd es"
  have root: "r_root r = Some ?a" using committed_line_top [OF wf_committed_line [OF wf]] ne by simp
  have f: "r_story r1 = r_story r" "r_free r1 = r_free r" "\<And>c. c \<notin> set ds \<Longrightarrow> r_heap r1 c = r_heap r c"
    "\<And>c. r_heap r1 c \<noteq> None \<Longrightarrow> r_heap r c \<noteq> None" using dr by (simp_all add: dropped_def)
  have same: "r_heap r1 c = r_heap r c" if "c \<in> set es" for c using f(3) wf_rowD(2) [OF wf] that by auto
  obtain r2 where r2: "reroot_line ?a (Some ?e) r1 = Inr r2" "same_lock (r_story r) (r_story r2)" "r_root r2 = r_root r" "r_free r2 = r_free r"
    "r_heap r2 = (case pend of None \<Rightarrow> r_heap r1 | Some p \<Rightarrow> (r_heap r1)(p \<mapsto> setNext (Some ?e) (info_at (r_heap r) p)))"
    using reroot_line_effect [OF wf ne dr refl] by blast
  have pn: "p \<notin> set (ds @ es)" "p \<noteq> ?a" "r_heap r p \<noteq> None" if "pend = Some p" for p
  proof -
    show p: "p \<notin> set (ds @ es)" "r_heap r p \<noteq> None" using wf_rowD(5) [OF wf that] by (auto simp: pending_ok_def)
    moreover have "?a \<in> set (ds @ es)" using ne by (intro hd_in_set) simp
    ultimately show "p \<noteq> ?a" by blast
  qed
  have h2: "r_heap r2 c = r_heap r1 c" if "pend \<noteq> Some c" for c using that by (cases pend) (auto simp: r2(5))
  have hp: "r_heap r2 p = Some (setNext (Some ?e) (info_at (r_heap r) p))" if "pend = Some p" for p using that by (simp add: r2(5))
  have hs: "r_heap r2 c = r_heap r c" if c: "c \<in> set es" for c
  proof -
    have "pend \<noteq> Some c" using pn(1) c by auto
    then show ?thesis using h2 same [OF c] by simp
  qed
  have bound: "c < r_free r" if "r_heap r2 c \<noteq> None" for c
  proof (cases "pend = Some c")
    case True
    then show ?thesis using wf_rowD(6) [OF wf] pn(3) by blast
  next
    case False
    then show ?thesis using wf_rowD(6) [OF wf, of c] f(4) [of c] h2 that by simp
  qed
  obtain ei where ei: "r_heap r ?e = Some ei" "getLevel ei = LEVEL_COMMIT"
    using wf_rowD(4) [OF wf, of ?e] ne by (auto simp: version_ok_def committed_at_def)
  have nx: "i_next ei \<noteq> Some ?a"
  proof -
    obtain zs where es: "es = ?e # zs" using ne by (metis list.collapse)
    have "line (r_heap r) (Some ?e) (?e # zs) pend" using wf_rowD(1) [OF wf] es by (metis line_append line.simps(2))
    then have "line (r_heap r) (i_next ei) zs pend" using ei(1) by simp
    then have "i_next ei = pend \<or> (\<exists>z \<in> set zs. i_next ei = Some z)" by (cases zs) auto
    moreover have "distinct (ds @ ?e # zs)" using wf_rowD(2) [OF wf] es by simp
    then have "?a \<notin> set zs" by (cases ds) auto
    ultimately show ?thesis using pn(2) by auto
  qed
  have eh: "r_heap r1 ?e = Some ei" "r_heap r2 ?e = Some ei" using same [of ?e] hs [of ?e] ne ei(1) by simp_all
  show ?thesis
  proof (cases "?e = ?a")
    case True
    have "after_loop env ?a (Some ?e) dirty r1 = Inr (False, dirty, r2)" using eh(1) nx r2(1) True by (simp add: after_loop_def)
    moreover have "wf_row cur r2 es pend" by (rule wf_suffix [OF wf ne]) (use r2(3,4) root True hs hp bound in auto)
    ultimately show ?thesis using purged_view [OF drop hs] r2(2) by (simp add: same_lock_def)
  next
    case False
    have ds: "?a \<in> set ds" using False by (cases ds) auto
    then have "r_heap r2 ?a \<noteq> None" using dr h2 [of ?a] pn(2) by (auto simp: dropped_def)
    then obtain x where x: "destroy_info ?a r2 = Inr (r2\<lparr>r_heap := (r_heap r2)(?a := x)\<rparr>)" using destroy_any by blast
    define r' where "r' = r2\<lparr>r_heap := (r_heap r2)(?a := x), r_story := (r_story r2)\<lparr>st_orginfo := Some ?e\<rparr>\<rparr>"
    have "mark_rooted (ke_indexValue env) True (Some ?e) r' = Inr r'" using eh(2) ei(2) False by (simp add: mark_rooted_def r'_def)
    then have eq: "after_loop env ?a (Some ?e) dirty r1 = Inr (False, dirty, r')"
      using eh(1) nx r2(1) False x by (simp add: after_loop_def r'_def)
    have "?a \<notin> set es" using wf_rowD(2) [OF wf] ds by auto
    then have hs': "r_heap r' c = r_heap r c" if "c \<in> set es" for c using hs [OF that] that by (auto simp: r'_def)
    have "wf_row cur r' es pend"
    proof (rule wf_suffix [OF wf ne _ hs'])
      show "r_root r' = Some ?e" by (simp add: r'_def r_root_def)
      show "r_heap r' p = Some (setNext (Some ?e) (info_at (r_heap r) p))" if "pend = Some p" for p
        using hp [OF that] pn(2) [OF that] by (simp add: r'_def)
      show "c < r_free r'" if "r_heap r' c \<noteq> None" for c
        using that bound [of c] bound [of ?a] \<open>r_heap r2 ?a \<noteq> None\<close> r2(4) by (cases "c = ?a") (auto simp: r'_def)
    qed
    then have "purged_to env s running cur r (ds @ es) r' es pend"
      using purged_view [OF drop hs'] r2(2) by (simp add: same_lock_def r'_def getLockIdentifier_def)
    then show ?thesis using eq by blast
  qed
qed

lemma deleteUnviewed_keeps:
  assumes wf: "wf_row cur r cs pend" and some: "r_root r \<noteq> None"
  shows "\<exists>gone dirty r' cs'. deleteUnviewed env s running 0 r = Inr (gone, dirty, r') \<and> purged_to env s running cur r cs r' cs' pend \<and>
    (gone \<longrightarrow> r_root r' = None)"
proof -
  obtain a where a: "r_root r = Some a" using some by blast
  obtain i where i: "r_heap r a = Some i"
  proof (cases "cs = []")
    case True
    then show ?thesis using that wf_rowD(1,5) [OF wf] a by (auto simp: pending_ok_def)
  next
    case False
    then show ?thesis using that line_present [OF wf_rowD(1) [OF wf], of "hd cs"] committed_line_top [OF wf_committed_line [OF wf]] a by auto
  qed
  show ?thesis
  proof (cases "getLevel i = LEVEL_COMMIT \<and> getDeleting i")
    case False
    then show ?thesis using deleteUnviewed_unchanged [OF wf a i] by blast
  next
    case True
    have ne: "cs \<noteq> []"
    proof
      assume "cs = []"
      then show False using wf_rowD(1,5) [OF wf] a i True by (auto simp: pending_ok_def level_defs)
    qed
    have hd: "a = hd cs" using committed_line_top [OF wf_committed_line [OF wf] ne] a by simp
    define sharing where "sharing = getSharing (r_story r)"
    have tl: "hd cs \<notin> set (tl cs)" using wf_rowD(2) [OF wf] by (cases cs) auto
    have "\<exists>ds es dirty r1. cs = ds @ es \<and> (\<forall>c \<in> set ds. droppable s running sharing None (r_heap r) c) \<and> dropped a ds r r1 \<and>
      unviewed_loop s running sharing None a a r = Some (Inr (if es = [] then pend else Some (hd es), dirty, r1))"
      by (rule unviewed_loop_line) (use wf_rowD [OF wf] wf_committed_line [OF wf] ne tl hd a i True
        in \<open>auto simp: committed_line_def version_ok_def pending_ok_def\<close>)
    then obtain ds es dirty r1 where lp: "cs = ds @ es" "\<And>c. c \<in> set ds \<Longrightarrow> droppable s running sharing None (r_heap r) c" "dropped a ds r r1"
      "unviewed_loop s running sharing None a a r = Some (Inr (if es = [] then pend else Some (hd es), dirty, r1))" by blast
    define org where "org = (if es = [] then pend else Some (hd es))"
    have start: "deleteUnviewed env s running 0 r = after_loop env a (if es = [] then pend else Some (hd es)) dirty r1"
      using lp(4) True i unfolding org_def [symmetric] sharing_def deleteUnviewed_def after_loop_def Let_def a option.sel by (simp add: returned_def)
    show ?thesis
    proof (cases "es = []")
      case False
      then show ?thesis using after_loop_kept [of cur r ds es pend s running sharing r1 env dirty] wf lp hd start by auto
    next
      case True
      then have cs: "ds = cs" using lp(1) by simp
      show ?thesis
      proof (cases pend)
        case None
        then show ?thesis using after_loop_empty [of cur r cs s running sharing r1 env dirty] wf ne lp(2,3) cs hd start True by auto
      next
        case (Some p)
        then show ?thesis using after_loop_pending [of cur r cs p s running sharing r1 i env dirty] wf ne lp(2,3) cs hd i start True by auto
      qed
    qed
  qed
qed

end
