(* ===== verification/RowProtocol.thy ===== *)
theory RowProtocol
  imports LockProtocol RowPurge
begin

section \<open>Repeatable reads\<close>

text \<open>
  The transactions of the engine and one row of a primary map as a step relation: other transactions
  write, delete, commit and abort the row, the purger drops old versions, and the system of transactions
  goes on, in any order. A repeatable reader sees the same value all the time.
\<close>

subsection \<open>Steps\<close>

text \<open>\<open>rs_conductor\<close> is the entry the row has in the conductor of the transaction that writes it.\<close>

record row_state =
  rs_system :: tx_system
  rs_row :: row
  rs_conductor :: "addr option"

definition now :: "row_state \<Rightarrow> uinttype" where
  "now x = s_viewpointSequence (rs_system x)"

text \<open>
  The steps of everybody but the reader \<open>u\<close>, who goes on with the viewpoint and the isolation it has. The
  viewpoint sequence does not reach the end of its 32 bits, and the purger finds only versions that were committed with a
  viewpoint.
\<close>

definition goes_on :: "txid \<Rightarrow> tx_system \<Rightarrow> tx_system \<Rightarrow> bool" where
  "goes_on u s s' \<longleftrightarrow>
     (\<exists>tx tx'. s_transactions s u = Some tx \<and> s_transactions s' u = Some tx' \<and>
        tx_viewpoint tx' = tx_viewpoint tx \<and> tx_isolation tx' = tx_isolation tx)"

definition numbered :: "row \<Rightarrow> bool" where
  "numbered r \<longleftrightarrow> (\<forall>a i. r_heap r a = Some i \<longrightarrow> getLevel i = LEVEL_COMMIT \<longrightarrow> getViewpoint i \<noteq> 0)"

inductive row_step :: "key_env \<Rightarrow> txid \<Rightarrow> row_state \<Rightarrow> row_state \<Rightarrow> bool" for env :: key_env and u :: txid where
  row_put: "s_transactions (rs_system x) t = Some tx \<Longrightarrow> t \<noteq> u \<Longrightarrow> tx_level tx = LEVEL_ACTIVE \<Longrightarrow>
    put_row env tx bs option compressed position index coff (rs_row x) = Inr (ok, code, r', added, mo) \<Longrightarrow>
    row_step env u x (x\<lparr>rs_row := r', rs_conductor := (if added = None then rs_conductor x else added)\<rparr>)"
| row_remove: "s_transactions (rs_system x) t = Some tx \<Longrightarrow> t \<noteq> u \<Longrightarrow> tx_level tx = LEVEL_ACTIVE \<Longrightarrow> option \<noteq> DELETE_POPULATED \<Longrightarrow>
    remove_row env tx bs option compressed (rs_row x) = Inr ((ok, code, r', added, mo), bs') \<Longrightarrow>
    row_step env u x (x\<lparr>rs_row := r', rs_conductor := (if added = None then rs_conductor x else added)\<rparr>)"
| row_commit: "s_transactions (rs_system x) t = Some tx \<Longrightarrow> rs_conductor x = Some p \<Longrightarrow>
    unat (getLockIdentifier (r_story (rs_row x))) = t \<Longrightarrow> tx_commitViewpoint tx = 0 \<Longrightarrow>
    commit_row env tx (now x) (now x) p (rs_row x) = Inr (r', cleared) \<Longrightarrow>
    row_step env u x (x\<lparr>rs_row := r', rs_conductor := None\<rparr>)"
| row_abort: "rs_conductor x = Some p \<Longrightarrow> abort_cut env 0 p (rs_row x) = Inr r1 \<Longrightarrow> abort_drop env p r1 = Inr r' \<Longrightarrow>
    row_step env u x (x\<lparr>rs_row := r', rs_conductor := None\<rparr>)"
| row_purge: "r_root (rs_row x) \<noteq> None \<Longrightarrow> numbered (rs_row x) \<Longrightarrow>
    deleteUnviewed env (rs_system x) True 0 (rs_row x) = Inr (gone, dirty, r') \<Longrightarrow>
    row_step env u x (x\<lparr>rs_row := r'\<rparr>)"
| row_lock: "ucast (sl_getIdentifier l) \<noteq> (of_nat u :: 16 word) \<Longrightarrow>
    row_step env u x (x\<lparr>rs_row := (rs_row x)\<lparr>r_story := (r_story (rs_row x))\<lparr>st_slock := Some l\<rparr>\<rparr>\<rparr>)"
| row_system: "lock_step t (rs_system x) s' \<Longrightarrow> goes_on u (rs_system x) s' \<Longrightarrow> s_viewpointSequence s' + 1 \<noteq> 0 \<Longrightarrow>
    row_step env u x (x\<lparr>rs_system := s'\<rparr>)"

inductive_cases row_stepE: "row_step env u x y"

subsection \<open>The invariant\<close>

definition row_inv :: "txid \<Rightarrow> row_state \<Rightarrow> addr list \<Rightarrow> addr option \<Rightarrow> bool" where
  "row_inv u x cs pend \<longleftrightarrow>
     locks_inv (rs_system x) \<and> views_inv (rs_system x) \<and> now x + 1 \<noteq> 0 \<and> wf_row (now x) (rs_row x) cs pend \<and>
     (rs_conductor x = None \<or> rs_conductor x = pend) \<and> getLockIdentifier (r_story (rs_row x)) \<noteq> of_nat u \<and>
     (\<exists>tx. s_transactions (rs_system x) u = Some tx \<and> tx_viewpoint tx \<noteq> 0 \<and> tx_isolation tx = REPEATABLE)"

lemma row_invD:
  assumes "row_inv u x cs pend"
  shows "locks_inv (rs_system x)" "views_inv (rs_system x)" "now x + 1 \<noteq> 0" "wf_row (now x) (rs_row x) cs pend"
    "rs_conductor x = None \<or> rs_conductor x = pend" "getLockIdentifier (r_story (rs_row x)) \<noteq> of_nat u"
    "\<exists>tx. s_transactions (rs_system x) u = Some tx \<and> tx_viewpoint tx \<noteq> 0 \<and> tx_isolation tx = REPEATABLE"
  using assms by (auto simp: row_inv_def)

definition view_at :: "txid \<Rightarrow> row_state \<Rightarrow> uinttype" where
  "view_at u x = tx_viewpoint (the (s_transactions (rs_system x) u))"

lemma view_at_bounds:
  assumes "row_inv u x cs pend"
  shows "view_at u x \<le> now x" "s_viewpointMinimum (rs_system x) \<noteq> 0" "s_viewpointMinimum (rs_system x) \<le> view_at u x"
  using row_invD(7) [OF assms] row_invD(2) [OF assms] by (auto simp: view_at_def views_inv_def now_def)

lemma reader_identifier:
  assumes "row_inv u x cs pend"
  shows "1 \<le> u" "u < DEFAULT_TRANSACTION_SIZE" "(of_nat u :: 16 word) \<noteq> 0"
proof -
  obtain tx where "s_transactions (rs_system x) u = Some tx" using row_invD(7) [OF assms] by blast
  then show u: "1 \<le> u" "u < DEFAULT_TRANSACTION_SIZE" using locks_invD(1) [OF row_invD(1) [OF assms]] by (auto simp: tx_ok_def)
  then have "unat (of_nat u :: 16 word) = u" by (simp add: unat_of_nat_small DEFAULT_TRANSACTION_SIZE_def)
  then show "(of_nat u :: 16 word) \<noteq> 0" using u(1) by (metis unat_0 not_one_le_zero)
qed

lemma other_identifier:
  assumes "row_inv u x cs pend" "s_transactions (rs_system x) t = Some tx" "t \<noteq> u"
  shows "tx_identifier tx = t" "(of_nat t :: 16 word) \<noteq> of_nat u"
proof -
  have t: "tx_identifier tx = t" "t < DEFAULT_TRANSACTION_SIZE"
    using locks_invD(1) [OF row_invD(1) [OF assms(1)] assms(2)] by (auto simp: tx_ok_def)
  then show "tx_identifier tx = t" by simp
  have "unat (of_nat u :: 16 word) = u" "unat (of_nat t :: 16 word) = t"
    using reader_identifier(2) [OF assms(1)] t(2) by (simp_all add: unat_of_nat_small DEFAULT_TRANSACTION_SIZE_def)
  then show "(of_nat t :: 16 word) \<noteq> of_nat u" using assms(3) by metis
qed

text \<open>What a step keeps: the invariant and what the reader sees.\<close>

definition step_ok :: "key_env \<Rightarrow> txid \<Rightarrow> row_state \<Rightarrow> addr list \<Rightarrow> row_state \<Rightarrow> bool" where
  "step_ok env u x cs y \<longleftrightarrow>
     (\<exists>cs' pend'. row_inv u y cs' pend' \<and> view_at u y = view_at u x \<and>
        view_of env (r_heap (rs_row y)) cs' (view_at u x) = view_of env (r_heap (rs_row x)) cs (view_at u x))"

lemma row_change:
  assumes inv: "row_inv u x cs pend" and wf: "wf_row (now x) r' cs' pend'" and c: "c = None \<or> c = pend'"
    and lock: "getLockIdentifier (r_story r') \<noteq> of_nat u"
    and view: "view_of env (r_heap r') cs' (view_at u x) = view_of env (r_heap (rs_row x)) cs (view_at u x)"
  shows "step_ok env u x cs (x\<lparr>rs_row := r', rs_conductor := c\<rparr>)"
proof -
  have "row_inv u (x\<lparr>rs_row := r', rs_conductor := c\<rparr>) cs' pend'" "view_at u (x\<lparr>rs_row := r', rs_conductor := c\<rparr>) = view_at u x"
    using row_invD [OF inv] wf c lock by (simp_all add: row_inv_def now_def view_at_def)
  then show ?thesis using view by (auto simp: step_ok_def)
qed

lemma write_step:
  assumes inv: "row_inv u x cs pend" and tx: "s_transactions (rs_system x) t = Some tx" "t \<noteq> u"
    and w: "write_keeps env (now x) tx (rs_row x) cs pend r' added"
  shows "step_ok env u x cs (x\<lparr>rs_row := r', rs_conductor := (if added = None then rs_conductor x else added)\<rparr>)"
proof -
  have k: "wf_row (now x) r' cs (case added of None \<Rightarrow> pend | Some p \<Rightarrow> Some p)" "same_history env (r_heap (rs_row x)) (r_heap r') cs"
    "st_slock (r_story r') = st_slock (r_story (rs_row x)) \<or> getLockIdentifier (r_story r') = of_nat (tx_identifier tx)"
    using w by (auto simp: write_keeps_def keeps_history_def)
  have "getLockIdentifier (r_story r') \<noteq> of_nat u"
    using k(3) row_invD(6) [OF inv] other_identifier [OF inv tx] by (auto simp: getLockIdentifier_def)
  then show ?thesis
    by (intro row_change [OF inv k(1)]) (use row_invD(5) [OF inv] same_history_view(2) [OF k(2)] in auto)
qed

lemma commit_step:
  assumes inv: "row_inv u x cs pend" and env: "reads_data env" and tx: "s_transactions (rs_system x) t = Some tx"
    and c: "rs_conductor x = Some p" and owner: "unat (getLockIdentifier (r_story (rs_row x))) = t" "tx_commitViewpoint tx = 0"
    and r: "commit_row env tx (now x) (now x) p (rs_row x) = Inr (r', cleared)"
  shows "step_ok env u x cs (x\<lparr>rs_row := r', rs_conductor := None\<rparr>)"
proof -
  have wf: "wf_row (now x) (rs_row x) cs (Some p)" using row_invD(4,5) [OF inv] c by auto
  have id: "tx_identifier tx = t" "t \<noteq> 0" using locks_invD(1) [OF row_invD(1) [OF inv] tx] by (auto simp: tx_ok_def)
  obtain r'' cs' pend' d where "commit_row env tx (now x) (now x) p (rs_row x) = Inr (r'', None)" "getLockIdentifier (r_story r'') = 0"
    "committed_to env (now x) (rs_row x) cs r'' cs' pend' d"
    using commit_row_keeps [OF wf env, of tx] owner id row_invD(3) [OF inv] by auto
  then have k: "getLockIdentifier (r_story r') = 0" "committed_to env (now x) (rs_row x) cs r' cs' pend' d" using r by auto
  show ?thesis
    by (rule row_change [OF inv, of r' cs' pend'])
       (use k view_at_bounds(1) [OF inv] reader_identifier(3) [OF inv] in \<open>auto simp: committed_to_def\<close>)
qed

lemma abort_step:
  assumes inv: "row_inv u x cs pend" and env: "reads_data env" "ke_indexValue env = 0"
    and c: "rs_conductor x = Some p" and r: "abort_cut env 0 p (rs_row x) = Inr r1" "abort_drop env p r1 = Inr r'"
  shows "step_ok env u x cs (x\<lparr>rs_row := r', rs_conductor := None\<rparr>)"
proof -
  have wf: "wf_row (now x) (rs_row x) cs (Some p)" using row_invD(4,5) [OF inv] c by auto
  have "keeps_history env (now x) (rs_row x) cs r' None" "getLockIdentifier (r_story r') \<in> {0, getLockIdentifier (r_story (rs_row x))}"
    using abort_keeps [OF wf env] r by auto
  then show ?thesis
    by (intro row_change [OF inv, of r' cs None])
       (use row_invD(6) [OF inv] reader_identifier(3) [OF inv] in \<open>auto simp: keeps_history_def same_history_view\<close>)
qed

lemma purge_step:
  assumes inv: "row_inv u x cs pend" and root: "r_root (rs_row x) \<noteq> None" and num: "numbered (rs_row x)"
    and r: "deleteUnviewed env (rs_system x) True 0 (rs_row x) = Inr (gone, dirty, r')"
  shows "step_ok env u x cs (x\<lparr>rs_row := r'\<rparr>)"
proof -
  note wf = row_invD(4) [OF inv]
  obtain cs' where k: "purged_to env (rs_system x) True (now x) (rs_row x) cs r' cs' pend"
    using deleteUnviewed_keeps [OF wf root, of env "rs_system x" True] r by auto
  have "getViewpoint (info_at (r_heap (rs_row x)) c) \<noteq> 0" if "c \<in> set cs" for c
    using wf_rowD(4) [OF wf that] num by (auto simp: version_ok_def committed_at_def numbered_def)
  then have "view_of env (r_heap r') cs' (view_at u x) = view_of env (r_heap (rs_row x)) cs (view_at u x)"
    using k view_at_bounds(2,3) [OF inv] by (auto simp: purged_to_def)
  then have "step_ok env u x cs (x\<lparr>rs_row := r', rs_conductor := rs_conductor x\<rparr>)"
    by (intro row_change [OF inv, of r' cs' pend]) (use k row_invD(5,6) [OF inv] in \<open>auto simp: purged_to_def\<close>)
  then show ?thesis by simp
qed

lemma system_step:
  assumes inv: "row_inv u x cs pend" and st: "lock_step t (rs_system x) s'" "goes_on u (rs_system x) s'" "s_viewpointSequence s' + 1 \<noteq> 0"
  shows "step_ok env u x cs (x\<lparr>rs_system := s'\<rparr>)"
proof -
  let ?y = "x\<lparr>rs_system := s'\<rparr>"
  have seq: "now x + 1 \<noteq> 0" "s_viewpointSequence (rs_system x) \<noteq> - 1" using row_invD(3) [OF inv] by (auto simp: now_def)
  have le: "now x \<le> now ?y" using lock_step_sequence [OF st(1) row_invD(1) [OF inv]] seq(1) by (simp add: now_def)
  have l: "locks_inv s'" using lock_step_keeps [OF st(1) row_invD(1) [OF inv]] by (simp add: step_keeps_def)
  have v: "views_inv s'" using lock_step_views [OF st(1) row_invD(1,2) [OF inv] seq(2)] .
  have wf: "wf_row (now ?y) (rs_row x) cs pend" by (rule wf_row_later [OF row_invD(4) [OF inv] le]) (simp add: now_def st(3))
  obtain tx tx' where tx: "s_transactions (rs_system x) u = Some tx" "s_transactions s' u = Some tx'" "tx_viewpoint tx' = tx_viewpoint tx"
    "tx_isolation tx' = tx_isolation tx" using st(2) by (auto simp: goes_on_def)
  have "row_inv u ?y cs pend" using row_invD [OF inv] l v wf tx st(3) by (simp add: row_inv_def now_def)
  moreover have "view_at u ?y = view_at u x" using tx by (simp add: view_at_def)
  ultimately show ?thesis by (auto simp: step_ok_def)
qed

lemma row_step_ok:
  assumes st: "row_step env u x y" and inv: "row_inv u x cs pend" and env: "reads_data env" "ke_indexValue env = 0"
  shows "step_ok env u x cs y"
  using st
proof (cases rule: row_step.cases)
  case (row_put t tx bs option compressed position index coff ok code r' added mo)
  have "write_keeps env (now x) tx (rs_row x) cs pend r' added"
    by (rule put_row_keeps [OF row_invD(4) [OF inv] env row_put(4,5)])
  then show ?thesis using write_step [OF inv row_put(2,3)] row_put(1) by simp
next
  case (row_remove t tx option bs compressed ok code r' added mo bs')
  have "write_keeps env (now x) tx (rs_row x) cs pend r' added"
    by (rule remove_row_keeps [OF row_invD(4) [OF inv] env(1) row_remove(4-6)])
  then show ?thesis using write_step [OF inv row_remove(2,3)] row_remove(1) by simp
next
  case (row_commit t tx p r' cleared)
  then show ?thesis using commit_step [OF inv env(1)] by blast
next
  case (row_abort p r1 r')
  then show ?thesis using abort_step [OF inv env] by blast
next
  case (row_purge gone dirty r')
  then show ?thesis using purge_step [OF inv] by blast
next
  case (row_lock l)
  have "wf_row (now x) (rs_row y) cs pend" by (rule wf_row_story [OF row_invD(4) [OF inv]]) (simp_all add: row_lock(1) r_root_def)
  then have "step_ok env u x cs (x\<lparr>rs_row := rs_row y, rs_conductor := rs_conductor x\<rparr>)"
    by (intro row_change [OF inv]) (use row_invD(5) [OF inv] row_lock in \<open>auto simp: getLockIdentifier_def\<close>)
  then show ?thesis by (simp add: row_lock(1))
next
  case (row_system t s')
  then show ?thesis using system_step [OF inv] by blast
qed

lemma reader_sees:
  assumes inv: "row_inv u x cs pend" and env: "\<not> ke_secondary env" and itx: "s_transactions (rs_system x) u = Some itx"
  shows "\<exists>res ag. get_row env itx (rs_row x) = Inr (res, ag, view_of env (r_heap (rs_row x)) cs (view_at u x)) \<and>
    (view_of env (r_heap (rs_row x)) cs (view_at u x) \<noteq> None \<longrightarrow> res \<and> \<not> ag)"
proof -
  have u: "tx_identifier itx = u" "tx_isolation itx = REPEATABLE" "tx_viewpoint itx = view_at u x"
    using live_identifier [OF row_invD(1) [OF inv] itx] row_invD(7) [OF inv] itx by (auto simp: view_at_def)
  have "unat (getLockIdentifier (r_story (rs_row x))) \<noteq> u" using row_invD(6) [OF inv] by auto
  then have rd: "repeatable_reader env itx (rs_row x)"
    using env u reader_identifier(2) [OF inv] by (simp add: repeatable_reader_def DEFAULT_TRANSACTION_SIZE_def)
  show ?thesis using get_row_repeatable [OF row_invD(4) [OF inv] rd] u(3) by (auto simp: view_of_def)
qed

subsection \<open>Runs\<close>

text \<open>The value the reader \<open>u\<close> gets.\<close>

definition read_by :: "key_env \<Rightarrow> txid \<Rightarrow> row_state \<Rightarrow> ubytetype list option" where
  "read_by env u x =
     (case s_transactions (rs_system x) u of
        None \<Rightarrow> None
      | Some itx \<Rightarrow> (case get_row env itx (rs_row x) of Inl e \<Rightarrow> None | Inr (res, ag, d) \<Rightarrow> d))"

text \<open>A reader of a row of a primary map whose versions can be loaded.\<close>

definition reading :: "key_env \<Rightarrow> txid \<Rightarrow> row_state \<Rightarrow> bool" where
  "reading env u x \<longleftrightarrow> reads_data env \<and> ke_indexValue env = 0 \<and> \<not> ke_secondary env \<and> (\<exists>cs pend. row_inv u x cs pend)"

lemma read_by_view:
  assumes "row_inv u x cs pend" "\<not> ke_secondary env"
  shows "read_by env u x = view_of env (r_heap (rs_row x)) cs (view_at u x)"
proof -
  obtain itx where "s_transactions (rs_system x) u = Some itx" using row_invD(7) [OF assms(1)] by blast
  then show ?thesis using reader_sees [OF assms] by (auto simp: read_by_def)
qed

lemma reading_step:
  assumes "row_step env u x y" "reading env u x"
  shows "reading env u y \<and> read_by env u y = read_by env u x \<and> view_at u y = view_at u x"
proof -
  obtain cs pend where inv: "row_inv u x cs pend" "reads_data env" "ke_indexValue env = 0" "\<not> ke_secondary env"
    using assms(2) by (auto simp: reading_def)
  obtain cs' pend' where k: "row_inv u y cs' pend'" "view_at u y = view_at u x"
    "view_of env (r_heap (rs_row y)) cs' (view_at u x) = view_of env (r_heap (rs_row x)) cs (view_at u x)"
    using row_step_ok [OF assms(1) inv(1-3)] by (auto simp: step_ok_def)
  then show ?thesis using inv read_by_view [OF inv(1,4)] read_by_view [OF k(1) inv(4)] by (auto simp: reading_def)
qed

interpretation readers_view: protocol "row_step env u" "reading env u" "\<lambda>x y. read_by env u y = read_by env u x \<and> view_at u y = view_at u x"
  for env u
  by unfold_locales (use reading_step in auto)

text \<open>A reader always gets an answer: the value, or that there is none, or that it is to look again.\<close>

lemma reading_answer:
  assumes "reading env u x"
  shows "\<exists>itx res ag. s_transactions (rs_system x) u = Some itx \<and> get_row env itx (rs_row x) = Inr (res, ag, read_by env u x) \<and>
    (read_by env u x \<noteq> None \<longrightarrow> res \<and> \<not> ag)"
proof -
  obtain cs pend where inv: "row_inv u x cs pend" "\<not> ke_secondary env" using assms by (auto simp: reading_def)
  obtain itx where itx: "s_transactions (rs_system x) u = Some itx" using row_invD(7) [OF inv(1)] by blast
  show ?thesis using reader_sees [OF inv itx] read_by_view [OF inv] itx by auto
qed

end
