(* ===== verification/Spec2Isabelle.thy ===== *)
theory Spec2Isabelle
  imports MsgBundle TreeIterator HashSet QueueSet RowProtocol
begin

text \<open>
  Verification of the wire protocol, the containers and the row versioning of Deep Fabric, a database
  fabric written in C++.

  \<^bold>\<open>The program.\<close> The nodes of the fabric exchange messages (\<^verbatim>\<open>src/PLATFORM/src/main/native/cxx/io\<close>): a
  writer encodes typed, numbered fields behind a header of four words, a reader decodes them into
  buckets, and a bundle packs several messages into one. The storage engine keeps its indexes,
  segments and transactions in the container library (\<^verbatim>\<open>src/PLATFORM/src/main/native/cxx/util\<close>), whose
  central classes are \<open>TreeMap\<close>, a B*-tree with entries in its branches, parent notifications and
  iterators that survive removal, and \<open>HashMap\<close> and \<open>HashSet\<close>, open-addressing tables whose probe
  increments step through a finite field. On the array list \<open>ArrayList\<close> stands the binary heap
  \<open>PriorityQueue\<close>, and with a hash set it makes the \<open>QueueSet\<close> in which the engine orders its segments.
  The storage engine (\<^verbatim>\<open>src/ENGINE/service/src/main/native/com/deepis/db/store/relative\<close>) keeps the versions of a row as a
  linked story line of \<open>Information\<close> objects, stamped with the viewpoints between which they are seen. A \<open>Transaction\<close>
  takes the lock of a row with \<open>checkAccessLock\<close>, hangs pending versions into its story line with \<open>put\<close> and \<open>remove\<close>, and
  makes them visible or takes them out with \<open>commit\<close> or \<open>rollback\<close>, while others read the versions of their
  viewpoint and a purger drops the versions nobody views.

  \<^bold>\<open>The theories.\<close>

  \<^item> \<^verbatim>\<open>Prelude\<close>: scalar types as words, faults as values (\<open>fault\<close>, \<open>'a result\<close>), memory accesses that are
    checked against the allocation.

  \<^item> \<^verbatim>\<open>BinaryWireFormat\<close> (\<^verbatim>\<open>io/BinaryWireFormat.h\<close>): variable-length, zig-zag and fixed encodings, each with
    reader, writer and size. The locale \<open>wire_codec\<close> states what the protocol needs of a scalar codec and
    is interpreted for all six.

  \<^item> \<^verbatim>\<open>EncodeWriter\<close>, \<^verbatim>\<open>EncodeReader\<close> (\<^verbatim>\<open>io/EncodeProtocol.h\<close>): the classes \<open>writer\<close>, \<open>reader\<close> and
    \<open>renderReader\<close> as records with one function per method; \<open>writer_inv\<close> ties the counters of a writer to
    its memory, \<open>appends\<close> says that a method wrote behind what was there and changed nothing else.

  \<^item> \<^verbatim>\<open>MsgBundle\<close> (\<^verbatim>\<open>io/MsgBundle.h\<close>): the bundle writer with in-place reservations and the bundle reader.

  \<^item> \<^verbatim>\<open>Contracts\<close>: what a client of a map, a set, a list and an iterator relies on, as the locales
    \<open>map_store\<close>, \<open>set_store\<close>, \<open>list_store\<close> and \<open>cursor_iterator\<close>.

  \<^item> \<^verbatim>\<open>TreeNode\<close>, \<^verbatim>\<open>TreeShape\<close>, \<^verbatim>\<open>TreeSearch\<close> (\<^verbatim>\<open>util/TreeMap.cxx\<close>, classes \<open>Branch\<close> and \<open>Leaf\<close>): balancing,
    merging and splitting of siblings, the notifications up the path, and the binary search. Nodes are
    values; a pointer to a node is the path to it and a notification of the parent is a flag that
    the caller on the path acts on. Every array access is checked against the capacity of the node.

  \<^item> \<^verbatim>\<open>TreeMap\<close> (\<^verbatim>\<open>util/TreeMap.h\<close>, \<^verbatim>\<open>TreeMap.cxx\<close>): the map itself; \<open>tree_inv\<close> is its invariant, \<open>entries\<close> the
    entries in order and \<open>contents\<close> the function from keys to values it represents. It interprets
    \<open>map_store\<close>.

  \<^item> \<^verbatim>\<open>TreeNavigate\<close>: \<open>lower\<close>, \<open>higher\<close>, \<open>floor\<close>, \<open>ceiling\<close> and the steps to the next and previous entry;
    \<open>behind\<close> and \<open>ahead\<close> are the entries on either side of a position.

  \<^item> \<^verbatim>\<open>TreeIterator\<close>: the map iterator, the entry and key set iterators with removal, the range views
    and \<open>putAll\<close>. It interprets \<open>cursor_iterator\<close> three times.

  \<^item> \<^verbatim>\<open>ProbeCycle\<close>, \<^verbatim>\<open>HashTable\<close>, \<^verbatim>\<open>HashSearch\<close>, \<^verbatim>\<open>HashInvariant\<close> (\<^verbatim>\<open>util/HashMap.cxx\<close>, \<^verbatim>\<open>HashSet.cxx\<close>): the table
    both hash containers are written with. \<open>ProbeCycle\<close> shows that the polynomial of every table size
    makes the increments run through all residues; \<open>HashTable\<close> has the routines; \<open>placed\<close> says where
    entries are, \<open>ht_inv\<close> is the invariant and \<open>ht_map\<close> the map it represents.

  \<^item> \<^verbatim>\<open>HashMap\<close>, \<^verbatim>\<open>HashSet\<close> (\<^verbatim>\<open>util/HashMap.h\<close>, \<^verbatim>\<open>HashSet.h\<close>): the operations, iterators and \<open>putAll\<close>. \<open>HashMap\<close>
    interprets \<open>map_store\<close> and, for its two iterators, \<open>cursor_iterator\<close>; \<open>HashSet\<close> interprets \<open>set_store\<close>.

  \<^item> \<^verbatim>\<open>ArrayList\<close> (\<^verbatim>\<open>util/ArrayList.h\<close>): the array list with its two iterators; \<open>al_rep\<close> relates an array to the
    list it holds. It interprets \<open>list_store\<close> and \<open>cursor_iterator\<close>.

  \<^item> \<^verbatim>\<open>PriorityQueue\<close> (\<^verbatim>\<open>util/PriorityQueue.h\<close>): the binary heap. The locale \<open>comparator\<close> states what it needs of a
    comparator, \<open>min_queue\<close> what it promises; \<open>heap\<close> is the order of the array.

  \<^item> \<^verbatim>\<open>QueueSet\<close> (\<^verbatim>\<open>util/QueueSet.h\<close>): queue and hash set kept in step; \<open>qs_inv\<close> says that both hold the same
    elements. It interprets \<open>set_store\<close>.

  \<^item> \<^verbatim>\<open>Information\<close>, \<^verbatim>\<open>StoryLine\<close> (\<^verbatim>\<open>core/Information.h\<close> and the \<open>isolate...\<close> functions of \<^verbatim>\<open>core/RealTimeMap.cxx\<close>): versions with their packed
    flags, levels and viewpoints, the row lock \<open>StoryLock\<close>, and the searches along a story line. Versions are
    addressed in a heap; \<open>walk\<close> is the loop over \<open>getNext\<close> the searches share, and \<open>line\<close> the list of versions it passes.

  \<^item> \<^verbatim>\<open>TransactionSystem\<close>, \<^verbatim>\<open>RowLock\<close> (\<^verbatim>\<open>core/Transaction.h\<close>, \<open>checkAccessLock\<close> and \<open>checkCycleLock\<close> of \<^verbatim>\<open>core/RealTimeMap.cxx\<close>): the table of
    transactions, viewpoints, row locks; \<open>locks_inv\<close> and \<open>views_inv\<close> are the invariants.

  \<^item> \<^verbatim>\<open>LockProtocol\<close>: the operations of all transactions as the steps \<open>lock_step\<close>, with the states they reach.
    The locale \<open>protocol\<close> of \<^verbatim>\<open>Prelude\<close> says once what follows for sequences of steps; it is interpreted for the locks, for the
    viewpoints and, in \<^verbatim>\<open>RowProtocol\<close>, for a reader of a row.

  \<^item> \<^verbatim>\<open>RowVersions\<close> (\<open>putTransaction\<close>, \<open>removeTransaction\<close>, \<open>commitCacheMemory\<close>, \<open>abortCacheMemory\<close>, \<open>checkIsolateLock\<close> and \<open>get\<close> of \<^verbatim>\<open>core/RealTimeMap.cxx\<close>,
    \<open>deleteUnviewed\<close> of \<^verbatim>\<open>core/RealTimeAdaptive.h\<close>): what they do to one row. \<^verbatim>\<open>RowHistory\<close>, \<^verbatim>\<open>RowCommit\<close> and \<^verbatim>\<open>RowPurge\<close> relate them to the
    history of the row: \<open>wf_row\<close> says that it has committed versions with growing viewpoints and at most one
    pending version, and \<open>view_of\<close> is what a viewpoint sees of it.

  \<^item> \<^verbatim>\<open>RowProtocol\<close>: the steps other transactions take on a row while one transaction reads it.

  \<^bold>\<open>What is shown.\<close> Messages and bundles come back as they were sent (C1, C2, C38), and
  refusals leave the writer or bundle alone (C36, C40). The tree map refines a map for any sequence of
  operations, from any order, without a fault (C3 to C5, C27), with its search equal to a
  linear specification and its depth logarithmic (C28, C29); neighbours, iterators, removal while
  iterating and range views are related to the ordered list of entries (C30 to C33). The hash map refines a map and the hash set a set, whatever the hash
  function (C14, C16), because every search ends with the polynomials the code has (C15); their iterators return every
  entry (C17). The array list refines a list (C18), the priority queue sorts (C20,
  C21) and the queue set refines a set (C23). For the rows of the engine: a repeatable reader gets the same answer
  whatever others do (C6), because commits, aborts and purges keep what a viewpoint sees (C7 to C9); row locks are
  kept and exclude each other (C10, C11), the purger sees every live viewpoint (C12), deadlocks are found
  (C13) and a free slot for a transaction is found (C25). Where the code does not do what it means to, the theorem states what it
  does: C34 and C33 (range views), C35 (underfull branch), C37 (\<open>double\<close> overrun), C39 (length
  wrap-around), C26 (removal through a hash iterator), C19 (small array lists), C22 (removal
  from the middle of a heap), C24 (a viewpoint drawn in the middle of a commit). More theorems of the same kind stand among them without a
  number: the zig-zag numbering, the lengths of variable-length numbers, fields of rendered readers, bulk operations of lists and maps,
  iterators from a key and backwards, the short form of a version.

  \<^bold>\<open>Bounds and fuel.\<close> The order of a tree is a signed byte of at least three, so all limits fit their
  bytes (\<open>limits_fit_bytes\<close>). The counters of a map are 32-bit words; \<open>remove\<close> tests the counter against zero, so its
  theorems ask for fewer than \<open>2\<^sup>3\<^sup>2\<close> entries. Loops over iterators take fuel for the tests of their
  condition; the theorems show that one more than the number of entries is enough. The search loop of
  the hash containers is a partial function, whose not returning is the fault \<open>NoReturn\<close>; the tables have
  at most \<open>2\<^sup>2\<^sup>7\<close> slots, the largest the allocation in the code can ask for, which fewer than \<open>2\<^sup>2\<^sup>6\<close> entries
  never exceed. An array list holds at most \<open>al_max\<close> elements, beyond which three times the size
  overflows an \<open>int\<close>. The walks along story lines and the search for a
  transaction slot are partial functions in the same way, and the theorems about them show that they return; the search for deadlocks has the bound
  of the code, 64 transactions. The viewpoint sequence is a 32-bit word; the theorems that need it to grow say that it has not reached its last value.
  All other loops are total functions.

  \<^bold>\<open>Not modelled.\<close> Memory release and destructors; key and value destruction flags beyond their
  bits; the locks of the containers; the cardinality statistics, which only maps built with a composite comparator keep; the
  compile-time variants the build switches off (linear search, slotted nodes, debug clearing). Of
  the storage engine: nested levels and their merge, secondary maps, checkpoints in the theorems about purging, segments and paging,
  files, replication and statistics. Code sections under a lock are single steps, \<open>begin\<close> included, and waiting for a lock is an outcome of the
  request. Of the rest of the repository: the network layer that moves encoded buffers over sockets; the services and
  bindings; and the third-party code.
\<close>

section \<open>Concrete messages and maps\<close>

definition demo_message :: message where
  "demo_message = (7, [(1, FInt32 (- 5)), (2, FString [65, 66]), (3, FUint32Array [1, 300]), (4, FDouble (Float64 1))])"

lemma demo_message_payload: "length (payload demo_message) \<le> 50"
  using length_varint32 [of "encodeZigZag32 (- 5)"] length_varint32 [of 1] length_varint32 [of 2] length_varint32 [of 300]
  by (simp add: demo_message_def payload_def encoded_field_def field_bytes_def)

lemma demo_message_wf: "wf_message demo_message"
  using demo_message_payload
  by (simp add: wf_message_def) (simp add: demo_message_def header_consts word_less_nat_alt)

lemma empty_message_wf: "wf_message (n, [])" "length (encoded_message (n, [])) = 16"
  by (simp_all add: wf_message_def payload_def)

definition demo_writer :: writer where
  "demo_writer = \<lparr>w_piBuffer = Some (replicate 40 0), w_iActualLen = 40, w_iBufferLen = 40, w_iWritten = 0, w_piPos = 0\<rparr>"

definition small_writer :: writer where
  "small_writer = \<lparr>w_piBuffer = Some (replicate 10 0), w_iActualLen = 10, w_iBufferLen = 10, w_iWritten = 0, w_piPos = 0\<rparr>"

definition closed_bundle :: bundle_writer where
  "closed_bundle = (bundle_writer_new (\<lambda>_. 0))\<lparr>bw_piBuffer := None, bw_iBufferLen := 0\<rparr>"

lemma demo_writer_inv: "writer_inv demo_writer" "written_bytes demo_writer = []"
  by (simp_all add: writer_inv_def demo_writer_def written_bytes_def)

definition demo_tree :: "(nat \<times> string) node" where
  "demo_tree = Branch (Leaf [(1, ''a''), (2, ''b''), (3, ''c'')]) [((4, ''d''), Leaf [(6, ''f''), (8, ''h''), (9, ''i'')])]"

definition demo_map :: "(nat, string) treemap" where
  "demo_map = \<lparr>m_root = Some demo_tree, m_pEntries = 7, m_vEntries = 0, m_modification = 7,
     m_limits = limits_of 3, m_stateFlags = 0\<rparr>"

lemma demo_entries: "entries demo_map =
  [(1, ''a''), (2, ''b''), (3, ''c''), (4, ''d''), (6, ''f''), (8, ''h''), (9, ''i'')]"
  by (simp add: entries_def demo_map_def demo_tree_def)

lemma demo_inv: "tree_inv demo_map"
proof -
  have "root_ok 3 1 demo_tree" "sorted_node demo_tree"
    by (simp_all add: root_ok_def demo_tree_def sorted_node_def)
  then have "tree_ok demo_tree 3" by (auto simp: tree_ok_def)
  moreover have "m_pEntries demo_map = of_nat (length (entries demo_map))"
    unfolding demo_entries by (simp add: demo_map_def)
  ultimately show ?thesis
    by (auto simp: tree_inv_def demo_map_def)
qed

lemma demo_contents: "contents demo_map 4 = Some ''d''" "contents demo_map 5 = None"
  by (simp_all add: contents_def demo_entries)

definition demo_leaf :: "nat node" where
  "demo_leaf = Leaf (replicate 6 0)"

definition demo_hash :: "int \<Rightarrow> int" where
  "demo_hash k = k"

definition demo_ops :: "(int, bool) map_op list" where
  "demo_ops = [Put 1 True, Put 33 False, Remove 1, Get 33]"

definition demo_table :: "(int \<times> string) slot list" where
  "demo_table = [Null, Entry (2, ''b''), Entry (1, ''a''), Reserve]"

definition demo_hashmap :: "(int, string) hashmap" where
  "demo_hashmap = \<lparr>h_poly = 7, h_fill = 3, h_size = 4, h_capacity = 4, h_entries = 2, h_stateFlags = 0,
     h_table = Some demo_table\<rparr>"

lemma demo_shaped: "shaped 2 demo_table demo_hashmap"
  using cycle_2 by (simp add: shaped_def demo_hashmap_def demo_table_def)

lemma demo_hash_inv: "hm_inv demo_hash demo_hashmap"
proof -
  let ?c = "entry_converter demo_hash :: (int \<times> string, int) converter"
  have p: "path ?c 2 7 1 0 = 2" "path ?c 2 7 2 0 = 1"
    by (simp_all add: path_def entry_converter_def demo_hash_def first_index_def)
  have only: "p = 1 \<and> a = (2, ''b'') \<or> p = 2 \<and> a = (1, ''a'')" if "p < length demo_table" "demo_table ! p = Entry a" for p a
  proof -
    from that(1) have "p = 0 \<or> p = 1 \<or> p = 2 \<or> p = 3" by (simp add: demo_table_def) linarith
    with that(2) show ?thesis by (auto simp: demo_table_def)
  qed
  have "placed ?c 2 7 demo_table"
    unfolding placed_def keyOf_entry
  proof (intro conjI allI impI)
    fix p q a b
    assume "p < length demo_table \<and> q < length demo_table \<and> demo_table ! p = Entry a \<and> demo_table ! q = Entry b \<and> fst a = fst b"
    then show "p = q" using only [of p a] only [of q b] by auto
  next
    fix p a
    assume "p < length demo_table \<and> demo_table ! p = Entry a"
    then have "path ?c 2 7 (fst a) 0 = p" using only [of p a] p by auto
    then show "\<exists>j. path ?c 2 7 (fst a) j = p \<and>
        (\<forall>i < j. demo_table ! path ?c 2 7 (fst a) i \<noteq> Null \<and> path ?c 2 7 (fst a) i \<noteq> p)"
      by (intro exI [of _ 0]) simp
  qed
  then have "core ?c 2 demo_table demo_hashmap"
    using demo_shaped by (simp add: core_def live_def used_def) (simp add: demo_hashmap_def demo_table_def)
  then have "ht_inv ?c demo_hashmap"
    unfolding ht_inv_def by (intro disjI2 exI [of _ 2] exI [of _ demo_table]) (simp add: used_def demo_hashmap_def demo_table_def)
  then show ?thesis by (simp add: hm_inv_def getFixed_def demo_hashmap_def)
qed

lemma demo_hash_entries: "ht_entries demo_hashmap = [(2, ''b''), (1, ''a'')]"
  by (simp add: ht_entries_def demo_hashmap_def demo_table_def)

definition demo_list_ops :: "int list_op list" where
  "demo_list_ops = [AddLast 5, AddLast 7, AddAt 1 6, RemoveAt 0, SetAt 1 9, IndexOf 9, GetAt 0]"

definition demo_array :: "int arraylist" where
  "demo_array = \<lparr>al_elements = [Some 4, Some 8, Some 4, None], al_length = 4, al_size = 3, al_deleteValue = False\<rparr>"

lemma demo_array_rep: "al_rep demo_array [4, 8, 4]"
  by (rule al_repI [of _ _ "[None]"]) (simp_all add: demo_array_def)

definition demo_queue :: "int pqueue" where
  "demo_queue = \<lparr>pq_deleteValue = False, pq_elements = \<lparr>al_elements = [Some 1, Some 3, Some 2, None], al_length = 4, al_size = 3, al_deleteValue = False\<rparr>\<rparr>"

lemma demo_queue_shape: "pq_shape demo_queue" "pq_list demo_queue = [1, 3, 2]"
proof -
  have "al_rep (pq_elements demo_queue) [1, 3, 2]" by (rule al_repI [of _ _ "[None]"]) (simp_all add: demo_queue_def)
  then show "pq_shape demo_queue" "pq_list demo_queue = [1, 3, 2]" using pq_shape_eq by blast+
qed

text \<open>A heap whose last element belongs to the right half.\<close>

definition demo_heap :: "int pqueue" where
  "demo_heap = \<lparr>pq_deleteValue = False, pq_elements =
     \<lparr>al_elements = map Some [1, 4, 2, 7, 5, 6, 3] @ [None], al_length = 8, al_size = 7, al_deleteValue = False\<rparr>\<rparr>"

lemma demo_heap_list: "pq_list demo_heap = [1, 4, 2, 7, 5, 6, 3]"
  and demo_heap_inv: "pq_inv compare demo_heap"
proof -
  have rep: "al_rep (pq_elements demo_heap) [1, 4, 2, 7, 5, 6, 3]" by (rule al_repI [of _ _ "[None]"]) (simp_all add: demo_heap_def)
  then show list: "pq_list demo_heap = [1, 4, 2, 7, 5, 6, 3]" using pq_shape_eq by blast
  have "heap compare [1, 4, 2, 7, 5, 6, 3 :: int]"
  proof (unfold heap_def, intro allI impI)
    fix i assume "i < length [1, 4, 2, 7, 5, 6, 3 :: int]"
    then have "i = 0 \<or> i = 1 \<or> i = 2 \<or> i = 3 \<or> i = 4 \<or> i = 5 \<or> i = 6" by auto
    then show "in_order compare [1, 4, 2, 7, 5, 6, 3 :: int] i" by (auto simp: in_order_def up_of_def compare_def)
  qed
  then show "pq_inv compare demo_heap" using pq_shape_eq [OF rep] list by (simp add: pq_inv_def)
qed

definition demo_set_ops :: "int set_op list" where
  "demo_set_ops = [AddElem 3, AddElem 1, AddElem 3, RemoveElem 3, HasElem 1, HasElem 3]"

text \<open>A row with one committed version, locked by transaction 2, which writes it while transaction 1 reads.\<close>

definition demo_env :: key_env where
  "demo_env = \<lparr>ke_secondary = False, ke_indexValue = 0, ke_readValue = (\<lambda>i. i\<lparr>i_data := Some []\<rparr>), ke_sameKey = (\<lambda>_. False)\<rparr>"

definition demo_version :: information where
  "demo_version = commit_insert 1 (copyValueIntoInformation [7] (setCreating True (newInfo WRITE)))"

definition demo_pending :: information where
  "demo_pending = setNext (Some 0) (setUpdating True (copyValueIntoInformation [8] (setLevel 0 (newInfo WRITE))))"

definition demo_story :: storyline where
  "demo_story = \<lparr>st_orginfo = Some 0, st_slock = Some (sl_setCredentials 2 1 sl_new)\<rparr>"

definition demo_row :: row where
  "demo_row = \<lparr>r_heap = [0 \<mapsto> demo_version], r_free = 1, r_story = demo_story\<rparr>"

definition demo_written :: row where
  "demo_written = \<lparr>r_heap = [0 \<mapsto> setNext (Some 1) demo_version, 1 \<mapsto> demo_pending], r_free = 2, r_story = demo_story\<rparr>"

definition demo_reader :: transaction where
  "demo_reader = (tx_new 1 1 REPEATABLE)\<lparr>tx_viewpoint := 1, tx_level := 0\<rparr>"

definition demo_tx :: transaction where
  "demo_tx = (tx_new 2 1 COMMITTED)\<lparr>tx_viewpoint := 2, tx_level := 0, tx_dirty := True\<rparr>"

definition demo_system :: tx_system where
  "demo_system = initial_system\<lparr>s_maxIdentifier := 2, s_viewpointMinimum := 1, s_viewpointSequence := 2,
     s_sequences := (\<lambda>_. 1), s_transactions := [1 \<mapsto> demo_reader, 2 \<mapsto> demo_tx]\<rparr>"


lemma demo_env_reads: "reads_data demo_env"
  unfolding reads_data_def by (intro exI [of _ "\<lambda>_. []"]) (simp add: demo_env_def)

lemma demo_locked: "getLockIdentifier demo_story = 2"
  by (simp add: demo_story_def getLockIdentifier_def)

lemma demo_version_fields:
  "getLevel demo_version = LEVEL_COMMIT \<and> \<not> getUpdating demo_version \<and> \<not> getCreating demo_version \<and> \<not> getDiverging demo_version \<and>
   \<not> getDeleting demo_version \<and> getViewpoint demo_version = 1 \<and> i_next demo_version = None \<and> i_data demo_version = Some [7]"
  by code_simp

lemma demo_linked_fields:
  "getLevel (setNext (Some 1) demo_version) = LEVEL_COMMIT \<and> \<not> getUpdating (setNext (Some 1) demo_version) \<and>
   \<not> getCreating (setNext (Some 1) demo_version) \<and> \<not> getDiverging (setNext (Some 1) demo_version) \<and>
   \<not> getDeleting (setNext (Some 1) demo_version) \<and> getViewpoint (setNext (Some 1) demo_version) = 1 \<and>
   i_next (setNext (Some 1) demo_version) = Some 1 \<and> i_data (setNext (Some 1) demo_version) = Some [7]"
  by code_simp

lemma demo_pending_fields:
  "getLevel demo_pending = LEVEL_ACTIVE \<and> getUpdating demo_pending \<and> \<not> getDiverging demo_pending \<and> getType demo_pending \<noteq> READ \<and>
   i_refcnt demo_pending = 1 \<and> i_next demo_pending = Some 0 \<and> \<not> getDeleting demo_pending \<and> i_data demo_pending = Some [8]"
  by code_simp

lemma demo_row_wf: "wf_row 2 demo_row [0] None"
  using demo_version_fields by (simp add: wf_row_def demo_row_def r_root_def demo_story_def version_ok_def committed_at_def)

lemma demo_written_wf: "wf_row 2 demo_written [0] (Some 1)"
  using demo_linked_fields demo_pending_fields
  by (simp add: wf_row_def demo_written_def r_root_def demo_story_def version_ok_def committed_at_def pending_ok_def)




lemma case_Inr_iff: "(case x of Inl e \<Rightarrow> False | Inr y \<Rightarrow> P y) \<longleftrightarrow> (\<exists>y. x = Inr y \<and> P y)"
  by (cases x) simp_all

lemma case_Some_iff: "(case x of None \<Rightarrow> False | Some y \<Rightarrow> P y) \<longleftrightarrow> (\<exists>y. x = Some y \<and> P y)"
  by (cases x) simp_all


lemma demo_begin: "\<exists>s1 s2. create initial_system = Inr (1, s1) \<and> tx_begin 1 s1 = Inr (0, s2) \<and>
    (\<exists>tx. s_transactions s2 1 = Some tx \<and> tx_viewpoint tx = 1)"
proof -
  have "case create initial_system of Inl e \<Rightarrow> False | Inr (t1, s1) \<Rightarrow> t1 = 1 \<and>
     (case tx_begin 1 s1 of Inl e \<Rightarrow> False | Inr (l, s2) \<Rightarrow> l = 0 \<and>
     (case s_transactions s2 1 of None \<Rightarrow> False | Some tx \<Rightarrow> tx_viewpoint tx = 1))"
    by code_simp
  then show ?thesis by (auto simp: case_Inr_iff case_Some_iff)
qed

section \<open>Messages and bundles\<close>

text \<open>
  C1. Encoding a message and decoding it gives the message back: a writer sized for the payload
  accepts every field, and a reader over the bytes it hands out decodes without error, with the
  message id, with every field readable by the getter of its type, and with no other field.
\<close>

theorem message_roundtrip:
  assumes "wf_message m"
  shows "\<exists>w w' buf rd. writer_new junk (of_nat (length (payload m))) (fst m) = Inr w \<and>
     set_values (snd m) w = Inr (0, w') \<and>
     (\<exists>w''. getMutableBuffer w' = (0, Some buf, getSize w', w'')) \<and>
     decodeFields (reader_new (Some buf) (getSize w') bCopyAll) = Inr (0, rd) \<and> message_reads rd m \<and>
     getEncodedLength rd = getSize w'"
proof -
  obtain w w' where enc: "writer_new junk (of_nat (length (payload m))) (fst m) = Inr w"
    "set_values (snd m) w = Inr (0, w')" and inv: "writer_inv w'" and wb: "written_bytes w' = encoded_message m"
    using encode_message [OF assms] by blast
  obtain buf where buf: "w_piBuffer w' = Some buf"
    using inv by (auto simp: writer_inv_def split: option.splits)
  have split: "buf = encoded_message m @ drop (unat (w_iWritten w')) buf"
    using wb buf by (metis append_take_drop_id buffer_of_def option.simps(5) written_bytes_def)
  have len: "unat (w_iWritten w') = length (encoded_message m)"
    using written_length [OF inv] wb by simp
  then have size: "getSize w' = of_nat (length (encoded_message m))"
    by (metis getSize_def of_nat_unat ucast_id)
  obtain rd where "decodeFields (reader_new (Some buf) (getSize w') bCopyAll) = Inr (0, rd)"
    "message_reads rd m" "getEncodedLength rd = getSize w'"
    using decode_message [OF assms, of "getSize w'" "drop (unat (w_iWritten w')) buf" bCopyAll] split len size
    by (auto simp: getSize_def)
  with enc buf show ?thesis
    by (auto simp: getMutableBuffer_def getSize_def)
qed

theorem message_roundtrip_witness:
  "\<exists>w w' buf rd. writer_new (\<lambda>_. 0) (of_nat (length (payload demo_message))) (fst demo_message) = Inr w \<and>
     set_values (snd demo_message) w = Inr (0, w') \<and>
     (\<exists>w''. getMutableBuffer w' = (0, Some buf, getSize w', w'')) \<and>
     decodeFields (reader_new (Some buf) (getSize w') False) = Inr (0, rd) \<and> message_reads rd demo_message \<and>
     getEncodedLength rd = getSize w'"
  by (rule message_roundtrip [OF demo_message_wf])

text \<open>
  C2. A bundle of messages, each added either in place by a reservation or by appending a writer,
  comes out again: closing the bundle gives a message whose one field is the bundle, and a
  bundle reader over that field returns the messages in order and then nothing.
\<close>

theorem bundle_roundtrip:
  assumes wf: "\<forall>(_, m) \<in> set ms. wf_message m" and ne: "ms \<noteq> []"
    and fits: "length (concat (map (\<lambda>im. encoded_message (snd im)) ms)) \<le> 16364"
  shows "\<exists>bw w bw' rd p iSize rds.
     bundle_messages junk ms (bundle_writer_new junk) = Inr (0, bw) \<and>
     bundle_close iMsgId bw = Inr (0, Some w, bw') \<and>
     decodeFields (reader_new (w_piBuffer w) (getSize w) bCopyAll) = Inr (0, rd) \<and> getMsgId rd = iMsgId \<and>
     getBundleBuffer rd = (0, Some (RawPtr p, iSize)) \<and>
     read_messages (Suc (length ms)) (bundle_reader_new p iSize) = Inr (Some rds) \<and>
     list_all2 message_reads rds (map snd ms)"
proof -
  let ?bs = "concat (map encoded_message (map snd ms))"
  have bs: "concat (map (\<lambda>im. encoded_message (snd im)) ms) = ?bs"
    by (simp add: comp_def)
  obtain bw where 1: "bundle_messages junk ms (bundle_writer_new junk) = Inr (0, bw)" "bundle_inv bw"
    "bundled bw = ?bs"
    using bundle_messages_ok [OF bundle_writer_new_inv(1) wf, of junk junk] fits bundle_writer_new_inv(2,3) bs
    by auto
  obtain w rest where 2: "bundle_close iMsgId bw = Inr (0, Some w, bw\<lparr>bw_piBuffer := None, bw_iBufferLen := 0\<rparr>)"
    "w_piBuffer w = Some (message_header VERSION iMsgId (of_nat (4 + length ?bs)) @
       bytes32 (makeHeader BUNDLE FIELD_BUNDLE_ID) @ ?bs @ rest)" "unat (getSize w) = 20 + length ?bs"
    using bundle_close_ok [OF 1(2), of iMsgId] 1(3) by auto
  have "?bs \<noteq> []"
    using ne by (cases ms) (auto simp: encoded_message_def message_header_def)
  then obtain rd where 3: "decodeFields (reader_new (w_piBuffer w) (getSize w) bCopyAll) = Inr (0, rd)"
    "getMsgId rd = iMsgId" "getBundleBuffer rd = (0, Some (RawPtr (?bs @ rest), of_nat (length ?bs)))"
    using decodeFields_bundle [OF refl 2(3), of iMsgId rest bCopyAll] 2(2) by auto
  have "unat (of_nat (length ?bs) :: uinttype) = length ?bs"
    using fits bs by (intro unat_of_nat_small) simp
  moreover have "\<forall>m \<in> set (map snd ms). wf_message m"
    using wf by auto
  ultimately obtain rds where "read_messages (Suc (length ms)) (bundle_reader_new (?bs @ rest) (of_nat (length ?bs))) =
      Inr (Some rds)" "list_all2 message_reads rds (map snd ms)"
    using read_messages_all [of "map snd ms" "bundle_reader_new (?bs @ rest) (of_nat (length ?bs))" rest "Suc (length ms)"]
    by (auto simp: bundle_reader_new_def simp del: read_messages.simps)
  with 1 2 3 show ?thesis
    by blast
qed

theorem bundle_roundtrip_witness:
  "\<exists>bw w bw' rd p iSize rds.
     bundle_messages (\<lambda>_. 0) [(True, demo_message), (False, (9, []))] (bundle_writer_new (\<lambda>_. 0)) = Inr (0, bw) \<and>
     bundle_close 5 bw = Inr (0, Some w, bw') \<and>
     decodeFields (reader_new (w_piBuffer w) (getSize w) False) = Inr (0, rd) \<and> getMsgId rd = 5 \<and>
     getBundleBuffer rd = (0, Some (RawPtr p, iSize)) \<and>
     read_messages (Suc (length [(True, demo_message), (False, (9, []))])) (bundle_reader_new p iSize) = Inr (Some rds) \<and>
     list_all2 message_reads rds (map snd [(True, demo_message), (False, (9, []))])"
  by (rule bundle_roundtrip) (use demo_message_wf demo_message_payload empty_message_wf in \<open>auto simp: payload_def\<close>)

section \<open>The tree map\<close>

text \<open>
  C3. A tree map refines a finite map: any sequence of \<open>put\<close>, \<open>remove\<close> and lookups, started on a new
  map of any order, runs without a fault (no access outside the array of a node, no wrong cast), returns
  what the same sequence returns on a function from keys to values, and leaves a well-formed tree
  that represents the resulting function.
\<close>

theorem treemap_refines_map:
  fixes xs :: "('k::linorder, 'v) map_op list"
  assumes "length xs \<le> 2 ^ 32"
  shows "\<exists>m'. run_ops (run_op tree_put tree_remove (\<lambda>k m. Inr (getEntry k m))) xs (treemap_new order delkey delval) =
       Inr (fst (spec_ops xs Map.empty), m') \<and>
     tree_inv m' \<and> contents m' = snd (spec_ops xs Map.empty)"
proof -
  have new: "tree_inv (treemap_new order delkey delval :: ('k, 'v) treemap)"
    "contents (treemap_new order delkey delval :: ('k, 'v) treemap) = Map.empty"
    using treemap_new_ok by (auto simp: contents_def)
  from tm.run_ops_ok [OF new(1), of xs] assms show ?thesis
    by (simp add: new(2))
qed

theorem treemap_refines_map_witness:
  "\<exists>m'. run_ops (run_op tree_put tree_remove (\<lambda>k m. Inr (getEntry k m))) [Put 5 True, Put 3 False, Remove 5, Get 3]
       (treemap_new 4 False False :: (nat, bool) treemap) =
       Inr (fst (spec_ops [Put 5 True, Put 3 False, Remove 5, Get 3] Map.empty), m') \<and>
     tree_inv m' \<and> contents m' = snd (spec_ops [Put 5 True, Put 3 False, Remove 5, Get 3] Map.empty)"
  by (rule treemap_refines_map) simp

text \<open>
  C4. The operations that change a tree map keep it well formed, whatever branch they take: the
  counter equals the number of entries modulo \<open>2\<^sup>3\<^sup>2\<close>, the keys are sorted, all leaves are at one depth and every
  node but the root is filled between its bounds. The exception is \<open>add(key, val)\<close>, which appends without
  looking at the key: it puts the entry behind all others and keeps the tree well formed exactly if the key is
  greater than all that are there.
\<close>

theorem treemap_invariant:
  fixes m :: "('k::linorder, 'v) treemap"
  assumes "tree_inv m"
  shows "(\<exists>r m'. tree_put key val m = Inr (r, m') \<and> tree_inv m') \<and>
     (\<exists>r l m'. tree_add key val replace m = Inr (r, l, m') \<and> tree_inv m') \<and>
     (length (entries m) < 2 ^ 32 \<longrightarrow> (\<exists>r m'. tree_remove key m = Inr (r, m') \<and> tree_inv m')) \<and>
     (\<exists>m'. tree_append key val m = Inr m' \<and> entries m' = entries m @ [(key, val)] \<and>
        (tree_inv m' \<longleftrightarrow> (\<forall>k \<in> dom (contents m). k < key))) \<and>
     tree_inv (tree_clear m) \<and> tree_inv (fst (transfer m tree)) \<and> tree_inv (snd (transfer m tree))"
proof -
  have "\<exists>r m'. tree_put key val m = Inr (r, m') \<and> tree_inv m'"
    "\<exists>r l m'. tree_add key val replace m = Inr (r, l, m') \<and> tree_inv m'"
    using tree_put_ok [OF assms, of key val] tree_add_ok [OF assms, of key val replace] by (auto simp: becomes_def)
  moreover have "\<exists>r m'. tree_remove key m = Inr (r, m') \<and> tree_inv m'" if "length (entries m) < 2 ^ 32"
    using tree_remove_ok [OF assms that, of key] by (auto simp: becomes_def)
  moreover note tree_append_any [OF assms, of key val]
  moreover have "tree_inv (tree_clear m)" "tree_inv (fst (transfer m tree))" "tree_inv (snd (transfer m tree))"
    using tree_clear_ok [OF assms] transfer_ok [OF assms prod.collapse [symmetric], of tree] by simp_all
  ultimately show ?thesis by blast
qed

theorem treemap_invariant_witness:
  "(\<exists>r m'. tree_put 10 ''e'' demo_map = Inr (r, m') \<and> tree_inv m') \<and>
     (\<exists>r l m'. tree_add 10 ''e'' True demo_map = Inr (r, l, m') \<and> tree_inv m') \<and>
     (\<exists>r m'. tree_remove 10 demo_map = Inr (r, m') \<and> tree_inv m') \<and>
     (\<exists>m'. tree_append 10 ''e'' demo_map = Inr m' \<and> tree_inv m') \<and>
     (\<exists>m'. tree_append 0 ''e'' demo_map = Inr m' \<and> \<not> tree_inv m') \<and>
     tree_inv (tree_clear demo_map) \<and> tree_inv (fst (transfer demo_map demo_map)) \<and>
     tree_inv (snd (transfer demo_map demo_map))"
proof -
  have "length (entries demo_map) < 2 ^ 32" "\<forall>k \<in> dom (contents demo_map). k < 10" "\<not> (\<forall>k \<in> dom (contents demo_map). k < 0)"
    by (auto simp: contents_def demo_entries split: if_splits)
  then show ?thesis
    using treemap_invariant [OF demo_inv, of 10 "''e''" True demo_map] treemap_invariant [OF demo_inv, of 0 "''e''" True demo_map] by blast
qed

text \<open>
  C5. \<open>put\<close> updates the represented map at the key and nowhere else and returns the entry that had
  the key; \<open>remove\<close> deletes the key and nothing else and returns its entry; both report absence and keep the
  counter of entries.
\<close>

theorem put_remove_contents:
  fixes m :: "('k::linorder, 'v) treemap"
  assumes "tree_inv m" and "length (entries m) < 2 ^ 32"
  shows "(\<exists>m'. tree_put key val m = Inr (map_option (Pair key) (contents m key), m') \<and>
       contents m' = (contents m)(key \<mapsto> val) \<and> m_pEntries m' = of_nat (card (insert key (dom (contents m))))) \<and>
     (\<exists>m'. tree_remove key m = Inr (map_option (Pair key) (contents m key), m') \<and>
       entries m' = filter (\<lambda>e. fst e \<noteq> key) (entries m) \<and>
       m_pEntries m' = of_nat (card (dom (contents m) - {key})))"
proof -
  have size: "m_pEntries m' = of_nat (card (dom (contents m')))" if "tree_inv m'" for m' :: "('k, 'v) treemap"
    using that length_entries [OF that] by (simp add: tree_inv_def)
  obtain m1 where m1: "tree_put key val m = Inr (map_option (Pair key) (contents m key), m1)" "tree_inv m1"
    "contents m1 = (contents m)(key \<mapsto> val)"
    using tree_put_ok [OF assms(1)] by (auto simp: becomes_def)
  obtain m2 where m2: "tree_remove key m = Inr (map_option (Pair key) (contents m key), m2)" "tree_inv m2"
    "contents m2 = (contents m)(key := None)"
    using tree_remove_ok [OF assms] by (auto simp: becomes_def)
  moreover have "entries m2 = filter (\<lambda>e. fst e \<noteq> key) (entries m)"
    using tree_remove_entries [OF assms, of key] m2(1) by auto
  ultimately show ?thesis
    using m1 size [OF m1(2)] size [OF m2(2)] by simp
qed

theorem put_remove_contents_witness:
  "(\<exists>m'. tree_put 5 ''e'' demo_map = Inr (map_option (Pair 5) (contents demo_map 5), m') \<and>
       contents m' = (contents demo_map)(5 \<mapsto> ''e'') \<and>
       m_pEntries m' = of_nat (card (insert 5 (dom (contents demo_map))))) \<and>
     (\<exists>m'. tree_remove 5 demo_map = Inr (map_option (Pair 5) (contents demo_map 5), m') \<and>
       entries m' = filter (\<lambda>e. fst e \<noteq> 5) (entries demo_map) \<and>
       m_pEntries m' = of_nat (card (dom (contents demo_map) - {5})))"
  by (rule put_remove_contents [OF demo_inv]) (simp add: demo_entries)

text \<open>
  C27. The lookups agree with the represented map: \<open>get\<close>, \<open>getEntry\<close> and \<open>containsKey\<close> on any key,
  \<open>isEmpty\<close>, and the first and last entry in key order. \<open>size\<close> is the number of entries below \<open>2\<^sup>3\<^sup>1\<close>
  entries; from there on the signed number it returns is negative.
\<close>

theorem lookups_contents:
  fixes m :: "('k::linorder, 'v) treemap"
  assumes "tree_inv m" and "length (entries m) < 2 ^ 32"
  shows "tree_get key m = contents m key \<and> getEntry key m = map_option (Pair key) (contents m key) \<and>
     (containsKey key m \<longleftrightarrow> key \<in> dom (contents m)) \<and>
     tree_size m = (if card (dom (contents m)) < 2 ^ 31 then int (card (dom (contents m))) else int (card (dom (contents m))) - 2 ^ 32) \<and>
     (isEmpty m \<longleftrightarrow> contents m = Map.empty) \<and>
     firstEntry m = opt_hd (entries m) \<and> lastEntry m = opt_last (entries m) \<and> sorted_wrt (<) (map fst (entries m))"
proof -
  have s: "m_pEntries m = of_nat (card (dom (contents m)))"
    using assms(1) length_entries [OF assms(1)] by (simp add: tree_inv_def)
  have c: "card (dom (contents m)) < 2 ^ 32" using assms length_entries [OF assms(1)] by simp
  have "isEmpty m \<longleftrightarrow> card (dom (contents m)) = 0"
    using of_nat_eq_0_small [of "card (dom (contents m))", where 'a = 32] c by (simp add: isEmpty_def tree_size_def s signed_eq_0_iff)
  then have "isEmpty m \<longleftrightarrow> entries m = []" by (simp flip: length_entries [OF assms(1)])
  then have "isEmpty m \<longleftrightarrow> contents m = Map.empty" by (simp add: contents_def)
  with s c show ?thesis
    using tree_get_contents [OF assms(1)] getEntry_contents [OF assms(1)] containsKey_contents [OF assms(1)]
      firstEntry_entries [OF assms(1)] lastEntry_entries [OF assms(1)] entries_sorted [OF assms(1)]
      signed_value_of_nat [OF c]
    by (simp add: opt_hd_def opt_last_def tree_size_def)
qed

theorem lookups_contents_witness:
  "tree_get 4 demo_map = contents demo_map 4 \<and> getEntry 4 demo_map = map_option (Pair 4) (contents demo_map 4) \<and>
     (containsKey 4 demo_map \<longleftrightarrow> 4 \<in> dom (contents demo_map)) \<and> tree_size demo_map = 7 \<and>
     (isEmpty demo_map \<longleftrightarrow> contents demo_map = Map.empty) \<and>
     firstEntry demo_map = opt_hd (entries demo_map) \<and> lastEntry demo_map = opt_last (entries demo_map) \<and>
     sorted_wrt (<) (map fst (entries demo_map))"
proof -
  have "card (dom (contents demo_map)) = 7" using length_entries [OF demo_inv] by (simp add: demo_entries)
  then show ?thesis using lookups_contents [OF demo_inv, of 4] by (simp add: demo_entries)
qed

text \<open>
  C28. The binary search in a node is equivalent to counting the smaller keys: it finds the key if it
  is there, else the place of the first greater key, else the end.
\<close>

theorem node_search_equivalent:
  fixes ks :: "'k::linorder list"
  assumes "sorted_wrt (<) ks"
  shows "node_search ks (int base) what = search_spec ks base what"
  by (rule node_search_spec [OF assms])

theorem node_search_equivalent_witness:
  "node_search [2, 5, 9, 12::nat] (int 1) 9 = search_spec [2, 5, 9, 12::nat] 1 9"
  by (rule node_search_equivalent) simp

text \<open>
  C29. A search goes down a path whose length is logarithmic in the number of entries: at depth \<open>d > 0\<close>
  there are at least \<open>3 * 2\<^sup>d\<close> entries in the map.
\<close>

theorem find_depth_bound:
  fixes m :: "('k::linorder, 'v) treemap"
  assumes "tree_inv m" and "m_root m = Some t" and "node_find t key = (x, nodes, i, e)" and "nodes \<noteq> []"
  shows "3 * 2 ^ length nodes \<le> length (entries m)"
  by (rule node_find_depth [OF assms])

theorem find_depth_bound_witness: "3 * 2 ^ length [1::nat] \<le> length (entries demo_map)"
proof (rule find_depth_bound [OF demo_inv, of demo_tree 8 "Some (8, ''h'')" "[1]" 1 False])
  show "node_find demo_tree 8 = (Some (8, ''h''), [1], 1, False)"
    by (simp add: demo_tree_def node_search_spec [of _ 0, simplified] node_search_spec [of _ 1, simplified]
        search_spec_def smaller_def getNode_def)
qed (simp_all add: demo_map_def)

text \<open>
  C30. \<open>lowerEntry\<close>, \<open>higherEntry\<close>, \<open>floorEntry\<close> and \<open>ceilingEntry\<close> give the greatest entry below, the
  least above, the greatest up to and the least from the key, and nothing when there is none.
\<close>

theorem neighbours_of_key:
  fixes m :: "('k::linorder, 'v) treemap"
  assumes "tree_inv m"
  shows "lowerEntry key m = opt_last (filter (\<lambda>e. fst e < key) (entries m)) \<and>
     higherEntry key m = opt_hd (filter (\<lambda>e. fst e > key) (entries m)) \<and>
     floorEntry key m = opt_last (filter (\<lambda>e. fst e \<le> key) (entries m)) \<and>
     ceilingEntry key m = opt_hd (filter (\<lambda>e. fst e \<ge> key) (entries m))"
  using neighbours_filter [OF assms, of key] by simp

theorem neighbours_of_key_witness:
  "lowerEntry 5 demo_map = opt_last (filter (\<lambda>e. fst e < 5) (entries demo_map)) \<and>
     higherEntry 5 demo_map = opt_hd (filter (\<lambda>e. fst e > 5) (entries demo_map)) \<and>
     floorEntry 5 demo_map = opt_last (filter (\<lambda>e. fst e \<le> 5) (entries demo_map)) \<and>
     ceilingEntry 5 demo_map = opt_hd (filter (\<lambda>e. fst e \<ge> 5) (entries demo_map))"
  by (rule neighbours_of_key [OF demo_inv])

text \<open>
  Appending a key behind all others, and \<open>add\<close> with and without replacement, do what a map does:
  the entry is added at the end; an entry with the key is kept unless it is to be replaced.
\<close>

theorem append_and_add:
  fixes m :: "('k::linorder, 'v) treemap"
  assumes "tree_inv m" and "\<forall>k \<in> dom (contents m). k < high"
  shows "(\<exists>m'. tree_append high val m = Inr m' \<and> entries m' = entries m @ [(high, val)]) \<and>
     (\<exists>l m'. tree_add key val replace m = Inr (map_option (Pair key) (contents m key), l, m') \<and>
       contents m' = (if replace \<or> key \<notin> dom (contents m) then (contents m)(key \<mapsto> val) else contents m))"
  using tree_append_ok [OF assms, of val] tree_add_ok [OF assms(1), of key val replace] unfolding becomes_def by blast

theorem append_and_add_witness:
  "(\<exists>m'. tree_append 10 ''j'' demo_map = Inr m' \<and> entries m' = entries demo_map @ [(10, ''j'')]) \<and>
     (\<exists>l m'. tree_add 4 ''j'' False demo_map = Inr (map_option (Pair 4) (contents demo_map 4), l, m') \<and>
       contents m' = (if False \<or> 4 \<notin> dom (contents demo_map) then (contents demo_map)(4 \<mapsto> ''j'') else contents demo_map))"
  by (rule append_and_add [OF demo_inv]) (auto simp: contents_def demo_entries split: if_splits)

text \<open>
  C31. Iterating over the entry set returns every entry once, in key order, and then ends; the key
  set returns the keys. The loop ends after as many steps as there are entries.
\<close>

theorem entrySet_iterates:
  fixes m :: "('k::linorder, 'v) treemap"
  assumes "tree_inv m" and "length (entries m) < fuel"
  shows "drain (es_hasNext m) (es_next m) fuel (set_iterator m (entrySet m)) = Inr (Some (map Some (entries m))) \<and>
     drain (es_hasNext m) (ks_next m) fuel (set_iterator m (entrySet m)) = Inr (Some (map Some (map fst (entries m))))"
proof -
  have "tree_inv m \<and> iter_ok m (set_iterator m (entrySet m)) \<and> es_end (set_iterator m (entrySet m)) = None"
    and p: "pending m (set_iterator m (entrySet m)) = entries m"
    using assms(1) set_iterator_start [OF assms(1), of None]
    by (simp_all add: entrySet_def set_iterator_def es_reset_def)
  from entry_iterator.drain_ok [OF this(1)] key_iterator.drain_ok [OF this(1)] assms(2) show ?thesis
    unfolding p length_map by blast
qed

theorem entrySet_iterates_witness:
  "drain (es_hasNext demo_map) (es_next demo_map) 8 (set_iterator demo_map (entrySet demo_map)) =
       Inr (Some (map Some (entries demo_map))) \<and>
     drain (es_hasNext demo_map) (ks_next demo_map) 8 (set_iterator demo_map (entrySet demo_map)) =
       Inr (Some (map Some (map fst (entries demo_map))))"
  by (rule entrySet_iterates [OF demo_inv]) (simp add: demo_entries)

text \<open>
  A map iterator placed at the ceiling of a key returns the entries from that key on, in order,
  and then ends; placed at the floor it starts with the floor entry, or is at the end if there is none.
\<close>

theorem iterator_from_key:
  fixes m :: "('k::linorder, 'v) treemap"
  assumes "tree_inv m" and "length (entries m) < fuel"
  shows "drain (iter_hasNext m) (\<lambda>it. Inr (iter_next m it)) fuel (snd (iter_reset m (Some key) True)) =
       Inr (Some (map Some (filter (\<lambda>e. fst e \<ge> key) (entries m)))) \<and>
     drain (iter_hasNext m) (\<lambda>it. Inr (iter_next m it)) fuel (snd (iter_reset m (Some key) False)) =
       Inr (Some (map Some (case floorKey key m of None \<Rightarrow> [] | Some k \<Rightarrow> filter (\<lambda>e. fst e \<ge> k) (entries m))))"
proof -
  have 1: "drain (iter_hasNext m) (\<lambda>it. Inr (iter_next m it)) fuel it = Inr (Some (map Some (iter_rest m it)))"
    if "iter_wf m it" "length (iter_rest m it) \<le> length (entries m)" for it
    using that assms by (intro map_iterator.drain_ok) auto
  note r = iter_reset_ok [OF assms(1) prod.collapse [symmetric], of key True]
    iter_reset_ok [OF assms(1) prod.collapse [symmetric], of key False]
  from 1 [OF r(1)] 1 [OF r(5)] r(4,8) show ?thesis
    by (auto split: option.splits)
qed

theorem iterator_from_key_witness:
  "drain (iter_hasNext demo_map) (\<lambda>it. Inr (iter_next demo_map it)) 8 (snd (iter_reset demo_map (Some 5) True)) =
       Inr (Some (map Some (filter (\<lambda>e. fst e \<ge> 5) (entries demo_map)))) \<and>
     drain (iter_hasNext demo_map) (\<lambda>it. Inr (iter_next demo_map it)) 8 (snd (iter_reset demo_map (Some 5) False)) =
       Inr (Some (map Some (case floorKey 5 demo_map of
         None \<Rightarrow> [] | Some k \<Rightarrow> filter (\<lambda>e. fst e \<ge> k) (entries demo_map))))"
  by (rule iterator_from_key [OF demo_inv]) (simp add: demo_entries)

text \<open>
  \<open>previous\<close> undoes \<open>next\<close>: it returns the same entry and puts the iterator back where it was,
  also from the end.
\<close>

theorem next_then_previous:
  fixes m :: "('k::linorder, 'v) treemap"
  assumes "tree_inv m" and "iter_wf m it" and "iter_next m it = (Some e, it')"
  shows "iter_previous m it' = (Some e, it)"
  by (rule iter_next_previous [OF assms])

theorem next_then_previous_witness:
  "\<exists>it e it'. iter_next demo_map it = (Some e, it') \<and> iter_previous demo_map it' = (Some e, it)"
proof -
  let ?it = "snd (iter_reset demo_map (Some 5) True)"
  note r = iter_reset_ok [OF demo_inv prod.collapse [symmetric], of 5 True]
  have rest: "iter_rest demo_map ?it = (6, ''f'') # [(8, ''h''), (9, ''i'')]"
    using r(4) by (simp add: demo_entries)
  obtain it' where "iter_next demo_map ?it = (Some (6, ''f''), it')"
    by (rule iter_next_ok [OF demo_inv r(1) rest])
  with next_then_previous [OF demo_inv r(1)] show ?thesis by blast
qed

text \<open>
  C32. Removing through an iterator without an end bound, that of an entry set or a key set, deletes the entry returned last from the map, and the
  iterator goes on with exactly the entries it had still to return, however the tree was rebalanced. (The end position
  of a bounded iterator is not adjusted by the removal.)
\<close>

theorem remove_while_iterating:
  fixes m :: "('k::linorder, 'v) treemap"
  assumes "tree_inv m" and "length (entries m) < 2 ^ 32" and "es_end it = None"
    and "iter_ok m it" and "es_next m it = Inr (Some e, it1)"
  shows "\<exists>m' it'. es_remove m it1 = Inr (m', it') \<and> tree_inv m' \<and> entries m' = filter (\<lambda>x. x \<noteq> e) (entries m) \<and>
     iter_ok m' it' \<and> e # pending m' it' = pending m it"
proof -
  have na: "\<not> es_atEnd it" using assms(3) by (simp add: es_atEnd_def)
  obtain y ys where y: "pending m it = y # ys"
    using es_step [OF assms(1,4) na] assms(5)
    by (cases "pending m it") (auto simp: es_next_def hasNextEntry_eq es_hasNext_def na split: option.splits prod.splits)
  obtain p i t where nx: "es_next m it = Inr (Some y, it\<lparr>es_entry := Some y, es_start := Some (p, i)\<rparr>)"
    and t: "m_root m = Some t" "entry_at p i t = Some y" "behind p i t = ys"
    using es_step(2) [OF assms(1,4) na y] by blast
  have it1: "y = e" "it1 = it\<lparr>es_entry := Some e, es_start := Some (p, i)\<rparr>"
    using nx assms(5) by auto
  have "pending m it1 = ys" using it1 t by (simp add: pending_def)
  with es_remove_ok [OF assms(1,2), of it1 e p i t] it1 t assms(3) y show ?thesis by auto
qed

theorem remove_while_iterating_witness:
  "\<exists>it it1 e m' it'. es_next demo_map it = Inr (Some e, it1) \<and> es_remove demo_map it1 = Inr (m', it') \<and>
     entries m' = filter (\<lambda>x. x \<noteq> e) (entries demo_map) \<and> e # pending m' it' = pending demo_map it"
proof -
  let ?it = "set_iterator demo_map (entrySet demo_map)"
  have it: "iter_ok demo_map ?it" "es_end ?it = None" "pending demo_map ?it = (1, ''a'') # tl (entries demo_map)"
    using set_iterator_start [OF demo_inv, of None]
    by (simp_all add: entrySet_def set_iterator_def es_reset_def demo_entries)
  obtain it1 where nx: "es_next demo_map ?it = Inr (Some (1, ''a''), it1)"
    using entry_iterator.next_law [of demo_map ?it] demo_inv it by blast
  have "length (entries demo_map) < 2 ^ 32" by (simp add: demo_entries)
  from remove_while_iterating [OF demo_inv this it(2,1) nx] nx show ?thesis by blast
qed

text \<open>
  \<open>putAll\<close> with enough fuel for the loop over the other map gives the union in which the other
  map wins, and collects the replaced entries in the map given for them.
\<close>

theorem putAll_unions:
  fixes this :: "('k::linorder, 'v) treemap"
  assumes "tree_inv other" and "tree_inv this" and "tree_inv fillmap" and "length (entries other) < fuel"
  shows "(\<exists>this'. putAll fuel other None this = Inr (Some (this', None)) \<and> tree_inv this' \<and>
       contents this' = contents this ++ contents other) \<and>
     (\<exists>this' fillmap'. putAll fuel other (Some fillmap) this = Inr (Some (this', Some fillmap')) \<and>
       contents this' = contents this ++ contents other \<and>
       contents fillmap' = contents fillmap ++ contents this |` dom (contents other))"
  using putAll_ok [OF assms(1,2,4)] putAll_fill_ok [OF assms] by blast

theorem putAll_unions_witness:
  "(\<exists>this'. putAll 8 demo_map None (treemap_new 3 False False) = Inr (Some (this', None)) \<and> tree_inv this' \<and>
       contents this' = contents (treemap_new 3 False False) ++ contents demo_map) \<and>
     (\<exists>this' fillmap'. putAll 8 demo_map (Some demo_map) (treemap_new 3 False False) = Inr (Some (this', Some fillmap')) \<and>
       contents this' = contents (treemap_new 3 False False) ++ contents demo_map \<and>
       contents fillmap' = contents demo_map ++ contents (treemap_new 3 False False) |` dom (contents demo_map))"
  by (rule putAll_unions [OF demo_inv treemap_new_ok(1) demo_inv]) (simp add: demo_entries)

text \<open>
  C33. The range views up to a key that is in the map: a loop over \<open>headMap\<close> visits exactly
  the entries up to the key. A loop over \<open>subMap\<close> visits exactly those from one key to the other, both inclusive, if there
  is a smaller key in the map than the first. If there is none, it starts behind the first leaf, whose entries are left
  out, and when the last key is one of these it does not stop at it but runs to the end of the map.
\<close>

theorem range_views:
  fixes m :: "('k::linorder, 'v) treemap"
  assumes "tree_inv m" and "m_root m = Some t" and "toKey \<in> dom (contents m)" and "length (entries m) < fuel"
  shows "es_loop fuel m (set_iterator m (headMap toKey m)) f s =
       done_with (rfold f (filter (\<lambda>e. fst e \<le> toKey) (entries m)) s) \<and>
     (fromKey \<le> toKey \<longrightarrow> es_loop fuel m (set_iterator m (subMap fromKey toKey m)) f s =
       done_with (rfold f
         (if \<exists>k \<in> dom (contents m). k < fromKey then filter (\<lambda>e. fromKey \<le> fst e \<and> fst e \<le> toKey) (entries m)
          else if toKey \<in> fst ` set (firstLeaf t) then drop (length (firstLeaf t)) (entries m)
          else filter (\<lambda>e. fst e \<le> toKey) (drop (length (firstLeaf t)) (entries m))) s))"
proof -
  obtain v where v: "contents m toKey = Some v" using assms(3) by blast
  have "lower_part fromKey (entries m) = [] \<longleftrightarrow> \<not> (\<exists>k \<in> dom (contents m). k < fromKey)"
    by (rule lower_part_Nil [OF assms(1)])
  with headMap_loop [OF assms(1) v assms(4)] subMap_loop [OF assms(1,2) v _ assms(4), of fromKey f s] show ?thesis by simp
qed

theorem range_views_witness:
  "es_loop 8 demo_map (set_iterator demo_map (headMap 8 demo_map)) (\<lambda>e s. Inr (s @ [fst e])) [] =
       done_with (rfold (\<lambda>e s. Inr (s @ [fst e])) (filter (\<lambda>e. fst e \<le> 8) (entries demo_map)) []) \<and>
     es_loop 8 demo_map (set_iterator demo_map (subMap 3 8 demo_map)) (\<lambda>e s. Inr (s @ [fst e])) [] = Inr (Some [3, 4, 6, 8]) \<and>
     es_loop 8 demo_map (set_iterator demo_map (subMap 1 8 demo_map)) (\<lambda>e s. Inr (s @ [fst e])) [] = Inr (Some [4, 6, 8]) \<and>
     es_loop 8 demo_map (set_iterator demo_map (subMap 1 2 demo_map)) (\<lambda>e s. Inr (s @ [fst e])) [] = Inr (Some [4, 6, 8, 9])"
proof -
  let ?f = "\<lambda>e s. Inr (s @ [fst e])"
  have root: "m_root demo_map = Some demo_tree" and leaf: "firstLeaf demo_tree = [(1, ''a''), (2, ''b''), (3, ''c'')]"
    by (simp_all add: demo_map_def demo_tree_def)
  have dom: "dom (contents demo_map) = {1, 2, 3, 4, 6, 8, 9}"
    by (auto simp: contents_def demo_entries split: if_splits)
  have v: "es_loop 8 demo_map (set_iterator demo_map (headMap k2 demo_map)) ?f [] = done_with (rfold ?f (filter (\<lambda>e. fst e \<le> k2) (entries demo_map)) [])"
    "k1 \<le> k2 \<longrightarrow> es_loop 8 demo_map (set_iterator demo_map (subMap k1 k2 demo_map)) ?f [] = done_with (rfold ?f
       (if \<exists>k \<in> dom (contents demo_map). k < k1 then filter (\<lambda>e. k1 \<le> fst e \<and> fst e \<le> k2) (entries demo_map)
        else if k2 \<in> fst ` set (firstLeaf demo_tree) then drop (length (firstLeaf demo_tree)) (entries demo_map)
        else filter (\<lambda>e. fst e \<le> k2) (drop (length (firstLeaf demo_tree)) (entries demo_map))) [])"
    if "k2 \<in> dom (contents demo_map)" for k1 k2
    using range_views [OF demo_inv root that, of 8 ?f "[]" k1] by (simp_all add: demo_entries)
  show ?thesis
    using v(1) [of 8] v(2) [of 8 3] v(2) [of 8 1] v(2) [of 2 1] unfolding dom leaf demo_entries by (simp add: done_with_def)
qed

text \<open>
  C34. A loop over \<open>tailMap\<close> visits the entries from the key on if there is a smaller key. If there is
  none it starts behind the first leaf: its entries are left out although they belong to the view.
\<close>

theorem tailMap_visits:
  fixes m :: "('k::linorder, 'v) treemap"
  assumes "tree_inv m" and "m_root m = Some t" and "length (entries m) < fuel"
  shows "es_loop fuel m (set_iterator m (tailMap fromKey m)) f s =
     done_with (rfold f
       (if \<exists>k \<in> dom (contents m). k < fromKey then filter (\<lambda>e. fst e \<ge> fromKey) (entries m)
        else drop (length (firstLeaf t)) (entries m)) s)"
proof -
  have "lower_part fromKey (entries m) = [] \<longleftrightarrow> \<not> (\<exists>k \<in> dom (contents m). k < fromKey)"
    by (rule lower_part_Nil [OF assms(1)])
  with tailMap_loop [OF assms(1,3), of fromKey f s] assms(2) show ?thesis by simp
qed

theorem tailMap_visits_witness:
  "es_loop 8 demo_map (set_iterator demo_map (tailMap 1 demo_map)) (\<lambda>e s. Inr (s @ [fst e])) [] =
     done_with (rfold (\<lambda>e s. Inr (s @ [fst e]))
       (if \<exists>k \<in> dom (contents demo_map). k < 1 then filter (\<lambda>e. fst e \<ge> 1) (entries demo_map)
        else drop (length (firstLeaf demo_tree)) (entries demo_map)) [])"
  by (rule tailMap_visits [OF demo_inv]) (simp_all add: demo_entries, simp add: demo_map_def)

text \<open>
  With a key that is not in the map, \<open>headMap\<close> does not end before that key: a loop over it
  visits the next greater entry as well, or the whole map.
\<close>

theorem headMap_of_absent_key:
  fixes m :: "('k::linorder, 'v) treemap"
  assumes "tree_inv m" and "toKey \<notin> dom (contents m)" and "length (entries m) < fuel"
  shows "\<exists>xs. (\<forall>f s. es_loop fuel m (set_iterator m (headMap toKey m)) f (s::'s) = done_with (rfold f xs s)) \<and>
     (xs = entries m \<or> xs = take (Suc (length (filter (\<lambda>e. fst e < toKey) (entries m)))) (entries m))"
  using headMap_absent_loop [OF assms(1) _ assms(3)] assms(2) by blast

theorem headMap_of_absent_key_witness:
  "\<exists>xs. (\<forall>f s. es_loop 8 demo_map (set_iterator demo_map (headMap 5 demo_map)) f (s::nat) = done_with (rfold f xs s)) \<and>
     (xs = entries demo_map \<or> xs = take (Suc (length (filter (\<lambda>e. fst e < 5) (entries demo_map)))) (entries demo_map))"
  by (rule headMap_of_absent_key [OF demo_inv]) (simp_all add: demo_contents demo_entries domIff)

text \<open>
  \<open>transfer\<close> moves the contents to the other map and leaves this one empty. When virtual sizes
  are on in this map and off in the other, the other map keeps its old virtual size, although it then
  has virtual sizes on.
\<close>

theorem transfer_moves:
  fixes this :: "('k::linorder, 'v) treemap"
  assumes "tree_inv this"
  shows "case transfer this tree of (this', tree') \<Rightarrow>
     contents this' = Map.empty \<and> contents tree' = contents this \<and> tree_size tree' = tree_size this \<and>
     (getVirtualSizeEnabled this \<and> \<not> getVirtualSizeEnabled tree \<longrightarrow>
        getVirtualSizeEnabled tree' \<and> m_vEntries tree' = m_vEntries tree)"
  using transfer_ok [OF assms prod.collapse [symmetric], of tree]
  by (auto simp: transfer_def contents_def tree_size_def getVirtualSizeEnabled_def split: prod.splits)

theorem transfer_moves_witness:
  "case transfer demo_map (treemap_new 5 False False) of (this', tree') \<Rightarrow>
     contents this' = Map.empty \<and> contents tree' = contents demo_map \<and> tree_size tree' = tree_size demo_map \<and>
     (getVirtualSizeEnabled demo_map \<and> \<not> getVirtualSizeEnabled (treemap_new 5 False False :: (nat, string) treemap) \<longrightarrow>
        getVirtualSizeEnabled tree' \<and> m_vEntries tree' = m_vEntries (treemap_new 5 False False :: (nat, string) treemap))"
  by (rule transfer_moves [OF demo_inv])

text \<open>
  An iterator notices changes of its map: right after it is placed \<open>getContainer(true)\<close> gives the
  map, and after a \<open>put\<close> or a successful \<open>remove\<close> it gives null.
\<close>

theorem iterator_sees_changes:
  fixes m :: "('k::linorder, 'v) treemap"
  assumes "tree_inv m" and "iter_reset m (Some start) ceiling = (exact, it)"
  shows "getContainer True m it \<and>
     (\<forall>r m'. tree_put key val m = Inr (r, m') \<longrightarrow> \<not> getContainer True m' it) \<and>
     (\<forall>y m'. tree_remove key m = Inr (Some y, m') \<longrightarrow> \<not> getContainer True m' it)"
  using iter_reset_ok(2,3) [OF assms] m_modification_put [of key val m] m_modification_remove [of key m]
  by (auto simp: getContainer_def)

theorem iterator_sees_changes_witness:
  "\<exists>it. getContainer True demo_map it \<and>
     (\<forall>r m'. tree_put 5 ''e'' demo_map = Inr (r, m') \<longrightarrow> \<not> getContainer True m' it) \<and>
     (\<forall>y m'. tree_remove 5 demo_map = Inr (Some y, m') \<longrightarrow> \<not> getContainer True m' it)"
  using iterator_sees_changes [OF demo_inv prod.collapse [symmetric], of 5 True 5 "''e''"] by blast

text \<open>
  The limits \<open>initialize\<close> computes from any order, a signed byte, fit the unsigned bytes they
  are stored in, and leave room for three entries in a leaf and two items in a branch at least.
\<close>

theorem limits_fit_bytes:
  "m_limits (treemap_new order delkey delval) = limits_of (effective_order order) \<and>
   m_leafMaxIndex (limits_of (effective_order order)) < 2 ^ 8 \<and>
   m_leafLowWater (limits_of (effective_order order)) < m_leafMaxIndex (limits_of (effective_order order)) \<and>
   7 \<le> m_leafMaxIndex (limits_of (effective_order order)) \<and>
   m_branchLowWater (limits_of (effective_order order)) < m_branchMaxIndex (limits_of (effective_order order)) \<and>
   3 \<le> m_branchMaxIndex (limits_of (effective_order order))"
proof -
  have "sint order < 2 ^ 7" using sint_lt [of order] by simp
  then have "effective_order order \<le> 127"
    unfolding effective_order_def INITIAL_ORDER_def by (auto split: if_splits)
  moreover have "n - 1 < 2 * n + 1" "(n - 1) div 2 < n" if "3 \<le> n" for n :: nat
    using that by linarith+
  ultimately show ?thesis
    using effective_order_ge [of order]
    by (simp add: treemap_new_def setDeleteValue_def setDeleteKey_def set_flag_def)
qed

text \<open>
  C35. What the split of two sibling branches leaves, for every order and all siblings that are split, one with \<open>n\<close> items and the other with
  \<open>n - 1\<close>: the left and the right one are at or above the low-water mark, and so is the new one between them, with one exception:
  at order 5 with the full branch on the left it gets one item, below the mark of two, because the test that decides
  whether items move to it asks for more than two instead of more than one.
\<close>

theorem branch_split_filling:
  assumes "3 \<le> n" and "kids n (Suc h) (Branch c its)" "kids n (Suc h) (Branch d jts)"
    and "length its + length jts = 2 * n - 1" "length its = n \<or> length jts = n"
  shows "\<exists>l s1 m s2 r. branch_splitWith (limits_of n) (c, its) sep (d, jts) = Inr (l, s1, m, s2, r) \<and>
     \<not> isLow (limits_of n) (node_of l) \<and> (isLow (limits_of n) (node_of m) \<longleftrightarrow> n = 5 \<and> length its = 5) \<and>
     \<not> isLow (limits_of n) (node_of r)"
  by (rule branch_split_low [OF assms])

theorem branch_split_filling_witness:
  "\<exists>l s1 m s2 r. branch_splitWith (limits_of 5) (demo_leaf, replicate 5 (0, demo_leaf)) 0 (demo_leaf, replicate 4 (0, demo_leaf)) =
       Inr (l, s1, m, s2, r) \<and> isLow (limits_of 5) (node_of m) \<and> \<not> isLow (limits_of 5) (node_of r)"
proof -
  have "kids 5 (Suc 0) (Branch demo_leaf (replicate 5 (0, demo_leaf)))" "kids 5 (Suc 0) (Branch demo_leaf (replicate 4 (0, demo_leaf)))"
    by (simp_all add: demo_leaf_def)
  from branch_split_filling [OF _ this, of 0] show ?thesis by auto
qed

section \<open>Writers, readers and the wire format\<close>

text \<open>
  Setting a field of any type with a number below \<open>FIELD_MAX\<close> and enough room writes its header
  and value behind what was written, changes nothing else, and returns \<open>0\<close>.
\<close>

theorem set_field_appends:
  assumes "writer_inv w" and "n < FIELD_MAX" and "length (encoded_field (n, v)) \<le> unat (w_iBufferLen w)"
  shows "\<exists>w'. set_value n v w = Inr (0, w') \<and> writer_inv w' \<and>
     written_bytes w' = written_bytes w @ encoded_field (n, v) \<and>
     unat (w_iBufferLen w') + length (encoded_field (n, v)) = unat (w_iBufferLen w)"
  using set_value_accepted [OF assms] by (auto simp: appends_def)

theorem set_field_appends_witness:
  "\<exists>w'. set_value 3 (FUint32 300) demo_writer = Inr (0, w') \<and> writer_inv w' \<and>
     written_bytes w' = written_bytes demo_writer @ encoded_field (3, FUint32 300) \<and>
     unat (w_iBufferLen w') + length (encoded_field (3, FUint32 300)) = unat (w_iBufferLen demo_writer)"
proof (rule set_field_appends [OF demo_writer_inv(1)])
  show "length (encoded_field (3, FUint32 300)) \<le> unat (w_iBufferLen demo_writer)"
    using length_varint32 [of 300] by (simp add: encoded_field_def field_bytes_def demo_writer_def)
qed (simp add: header_consts word_less_nat_alt)

text \<open>
  C36. A field whose number is too big, or for which there is less room than the guard of its setter asks for, is refused
  with \<open>-1\<close> and nothing is written. The room asked for is what header and value take, except for a \<open>double\<close>
  field, whose setter asks for the 8 bytes of a \<open>float\<close> field only.
\<close>

theorem set_field_refuses:
  assumes "n \<ge> FIELD_MAX \<or> unat (w_iBufferLen w) < (case v of FDouble f \<Rightarrow> 8 | _ \<Rightarrow> length (encoded_field (n, v)))"
    and "length (encoded_field (n, v)) < 2 ^ 32"
  shows "set_value n v w = Inr (- 1, w)"
proof -
  have "unat sizeOfFloat = 8" by (simp add: sizeOfFloat_def SizeofFloat_def header_consts wire_consts)
  then have "guarded_room n v = (case v of FDouble f \<Rightarrow> 8 | _ \<Rightarrow> length (encoded_field (n, v)))" by (simp add: guarded_room_def split: field_val.split)
  with set_value_guard [of n w v] assms show ?thesis by simp
qed

theorem set_field_refuses_witness:
  "set_value 3 (FString (replicate 40 65)) demo_writer = Inr (- 1, demo_writer) \<and>
   set_value 300 (FDouble (Float64 1)) small_writer = Inr (- 1, small_writer)"
proof
  show "set_value 3 (FString (replicate 40 65)) demo_writer = Inr (- 1, demo_writer)"
    by (rule set_field_refuses) (simp_all add: encoded_field_def field_bytes_def demo_writer_def)
  show "set_value 300 (FDouble (Float64 1)) small_writer = Inr (- 1, small_writer)"
    by (rule set_field_refuses) (simp_all add: encoded_field_def field_bytes_def header_consts)
qed

text \<open>
  C37. A \<open>double\<close> field is checked against the size of a \<open>float\<close> field: with room for a \<open>float\<close> only, at
  the end of the buffer, the value is written past the end of the allocation.
\<close>

theorem double_field_overruns:
  assumes "writer_inv w" and "n < FIELD_MAX"
    and "length (buffer_of w) = unat (w_iWritten w) + unat (w_iBufferLen w)"
    and "8 \<le> unat (w_iBufferLen w)" and "unat (w_iBufferLen w) < 12"
  shows "setDoubleField n f w = Inl OutOfBounds"
  by (rule setDoubleField_overrun [OF assms])

theorem double_field_overruns_witness: "setDoubleField 3 (Float64 1) small_writer = Inl OutOfBounds"
  by (rule double_field_overruns)
    (simp_all add: small_writer_def writer_inv_def buffer_of_def header_consts word_less_nat_alt)

text \<open>
  C38. Every scalar codec round-trips: into a buffer of at least the size the size function gives,
  the writer stores exactly that many bytes and nothing behind them, and the reader gets the value back
  and reports that many bytes.
\<close>

theorem scalar_codecs_roundtrip:
  "(SizeofInt32 i \<le> iLen \<and> unat iLen \<le> length buf \<longrightarrow>
      (\<exists>buf'. WriteInt32ToBuffer buf iLen i = Inr (SizeofInt32 i, buf') \<and> length buf' = length buf \<and>
        ReadInt32FromBuffer buf' iLen = Inr (SizeofInt32 i, Some i))) \<and>
   (SizeofUint32 u \<le> iLen \<and> unat iLen \<le> length buf \<longrightarrow>
      (\<exists>buf'. WriteUint32ToBuffer buf iLen u = Inr (SizeofUint32 u, buf') \<and> length buf' = length buf \<and>
        ReadUint32FromBuffer buf' iLen = Inr (SizeofUint32 u, Some u))) \<and>
   (SizeofInt64 l \<le> iLen \<and> unat iLen \<le> length buf \<longrightarrow>
      (\<exists>buf'. WriteInt64ToBuffer buf iLen l = Inr (SizeofInt64 l, buf') \<and> length buf' = length buf \<and>
        ReadInt64FromBuffer buf' iLen = Inr (SizeofInt64 l, Some l))) \<and>
   (SizeofUint64 ul \<le> iLen \<and> unat iLen \<le> length buf \<longrightarrow>
      (\<exists>buf'. WriteUint64ToBuffer buf iLen ul = Inr (SizeofUint64 ul, buf') \<and> length buf' = length buf \<and>
        ReadUint64FromBuffer buf' iLen = Inr (SizeofUint64 ul, Some ul))) \<and>
   (SizeofFloat \<le> iLen \<and> unat iLen \<le> length buf \<longrightarrow>
      (\<exists>buf'. WriteFloatToBuffer buf iLen f = Inr (SizeofFloat, buf') \<and> length buf' = length buf \<and>
        ReadFloatFromBuffer buf' iLen = Inr (SizeofFloat, Some f))) \<and>
   (SizeofDouble \<le> iLen \<and> unat iLen \<le> length buf \<longrightarrow>
      (\<exists>buf'. WriteDoubleToBuffer buf iLen d = Inr (SizeofDouble, buf') \<and> length buf' = length buf \<and>
        ReadDoubleFromBuffer buf' iLen = Inr (SizeofDouble, Some d)))"
  using int32.write_then_read [of i iLen buf] uint32.write_then_read [of u iLen buf]
    int64.write_then_read [of l iLen buf] uint64.write_then_read [of ul iLen buf]
    float.write_then_read [of iLen buf f] double.write_then_read [of iLen buf d]
  by blast

theorem scalar_codecs_roundtrip_witness:
  "\<exists>buf'. WriteUint32ToBuffer (replicate 8 0) 8 300 = Inr (SizeofUint32 300, buf') \<and> length buf' = 8 \<and>
     ReadUint32FromBuffer buf' 8 = Inr (SizeofUint32 300, Some 300)"
proof -
  have "unat (SizeofUint32 300) \<le> 5"
    using uint32.unat_szof [of 300] length_varint32 [of 300] by simp
  then have "SizeofUint32 300 \<le> 8" by (simp add: word_le_nat_alt)
  with scalar_codecs_roundtrip [of 0 8 "replicate 8 0" 300 0 0 "Float32 0" "Float64 0"] show ?thesis
    by simp
qed

text \<open>
  The zig-zag mapping is a bijection between the signed and the unsigned integers of a width, and
  it numbers them \<open>0, -1, 1, -2, \<dots>\<close>, so that small magnitudes get short encodings.
\<close>

theorem zigzag_bijection:
  "decodeZigZag32 (encodeZigZag32 v) = v \<and> encodeZigZag32 (decodeZigZag32 u) = u \<and>
   decodeZigZag64 (encodeZigZag64 v') = v' \<and> encodeZigZag64 (decodeZigZag64 u') = u' \<and>
   uint (encodeZigZag32 v) = (if 0 \<le> sint v then 2 * sint v else - 2 * sint v - 1) \<and>
   uint (encodeZigZag64 v') = (if 0 \<le> sint v' then 2 * sint v' else - 2 * sint v' - 1)"
  using encode_decodeZigZag [of u] encode_decodeZigZag [of u'] uint_encodeZigZag [of v] uint_encodeZigZag [of v']
    decode_encodeZigZag [of v] decode_encodeZigZag [of v']
  by (simp add: decodeZigZag32_def encodeZigZag32_def decodeZigZag64_def encodeZigZag64_def)

text \<open>
  \<open>VarIntLength\<close> predicts the number of bytes \<open>WriteVarIntToBuffer\<close> writes exactly, which is at
  most five for 32 bits and ten for 64; a shorter buffer is overrun, since the writer ignores its length
  argument.
\<close>

theorem varint_length_exact:
  fixes v :: uinttype and l :: ulongtype
  shows "WriteVarIntToBuffer buf iLen v =
     (if unat (VarIntLength v) \<le> length buf then Inr (VarIntLength v, varint v @ drop (unat (VarIntLength v)) buf)
      else Inl OutOfBounds) \<and>
   WriteVarIntToBuffer buf iLen l =
     (if unat (VarIntLength l) \<le> length buf then Inr (VarIntLength l, varint l @ drop (unat (VarIntLength l)) buf)
      else Inl OutOfBounds) \<and>
   unat (VarIntLength v) \<le> 5 \<and> unat (VarIntLength l) \<le> 10"
proof -
  have "unat (VarIntLength v) = length (varint v)" "unat (VarIntLength l) = length (varint l)"
    by (simp_all add: unat_VarIntLength length_varint_vlen)
  with length_varint32 [of v] length_varint64 [of l] show ?thesis
    by (simp add: WriteVarIntToBuffer_eq VarIntLength_varint)
qed

text \<open>
  The header of a field packs its type and number and gives both back, for every type and every
  number a writer accepts.
\<close>

theorem field_header_roundtrip:
  assumes "iId < FIELD_MAX"
  shows "getTypeId (makeHeader iType iId) = (iType, iId)"
  using getTypeId_makeHeader [of iType iId] field_id_mask [OF assms] by simp

theorem field_header_roundtrip_witness: "getTypeId (makeHeader STRING 17) = (STRING, 17)"
  by (rule field_header_roundtrip) (simp add: header_consts word_less_nat_alt)

text \<open>
  \<open>setFlags\<close> adds flags to those in the header of a message and never clears one, and \<open>getFlags\<close>
  reads the accumulated flags together with the version.
\<close>

theorem flags_accumulate:
  assumes "writer_inv w" and "written_bytes w = message_header vf i n @ body"
  shows "\<exists>w' w''. setFlags f w = Inr (0, w') \<and> setFlags g w' = Inr (0, w'') \<and>
     getFlags w'' = Inr (0, Some (vf OR VERSION OR f OR g)) \<and> w_iWritten w'' = w_iWritten w"
proof -
  obtain w' where 1: "setFlags f w = Inr (0, w')" "writer_inv w'"
    "written_bytes w' = message_header (vf OR (VERSION OR f)) i n @ body" "w_iWritten w' = w_iWritten w"
    using setFlags_accumulates [OF assms] by blast
  obtain w'' where 2: "setFlags g w' = Inr (0, w'')" "writer_inv w''"
    "written_bytes w'' = message_header ((vf OR (VERSION OR f)) OR (VERSION OR g)) i n @ body" "w_iWritten w'' = w_iWritten w'"
    using setFlags_accumulates [OF 1(2,3)] by blast
  have "(vf OR (VERSION OR f)) OR (VERSION OR g) = vf OR VERSION OR f OR g"
    by (simp add: ac_simps)
  with getFlags_header [OF 2(2,3)] 1 2 show ?thesis by auto
qed

theorem flags_accumulate_witness:
  "\<exists>w w' w''. setFlags REPLY_FLAG w = Inr (0, w') \<and> setFlags LAST_FLAG w' = Inr (0, w'') \<and>
     getFlags w'' = Inr (0, Some (VERSION OR VERSION OR REPLY_FLAG OR LAST_FLAG)) \<and> w_iWritten w'' = w_iWritten w"
proof -
  obtain w where "writer_inv w" "written_bytes w = message_header VERSION 1 8 @ []"
    using writer_new_ok [of 8 "\<lambda>_. 0" 1] by auto
  from flags_accumulate [OF this] show ?thesis by blast
qed

text \<open>
  A reader rendered without a buffer answers like a decoded one: each field set through
  \<open>renderReader\<close>, of any type but an array, is what the getter of its type returns.
\<close>

theorem rendered_fields_read:
  assumes "rr_pcReader rr = Some rd" and "n < FIELD_MAX" and "\<forall>vs. v \<noteq> FUint32Array vs"
    and "length (val_bytes v) < 2 ^ 32"
  shows "\<exists>rd' rr'. render_value n v rr = Inr (0, rr') \<and> rr_pcReader rr' = Some rd' \<and> field_reads rd' n v \<and>
     (\<forall>k. k \<noteq> n \<longrightarrow> r_iFields rd' k = r_iFields rd k)"
proof -
  obtain b where "render_value n v rr = Inr (0, rr\<lparr>rr_pcReader := Some (rd\<lparr>r_iFields := (r_iFields rd)(n := b)\<rparr>)\<rparr>)"
    and h: "holds_field b v"
    using render_value_holds [OF assms] by blast
  moreover have "field_reads (rd\<lparr>r_iFields := (r_iFields rd)(n := b)\<rparr>) n v"
    by (rule holds_field_reads) (simp_all add: h assms(2))
  ultimately show ?thesis by auto
qed

theorem rendered_fields_read_witness:
  "\<exists>rd' rr'. render_value 3 (FInt64 77) (renderReader_new 9) = Inr (0, rr') \<and> rr_pcReader rr' = Some rd' \<and>
     field_reads rd' 3 (FInt64 77) \<and> (\<forall>k. k \<noteq> 3 \<longrightarrow> r_iFields rd' k = r_iFields (reader_render 9) k)"
proof (rule rendered_fields_read)
  show "length (val_bytes (FInt64 77)) < 2 ^ 32"
    using length_varint64 [of "encodeZigZag64 77"] by simp
qed (simp_all add: renderReader_new_def header_consts word_less_nat_alt)

text \<open>
  C39. A header whose payload length is within 16 of \<open>2\<^sup>3\<^sup>2\<close> passes the length check, because the sum
  with the header size wraps around, and the decoder reads past the end of the buffer.
\<close>

theorem payload_length_wraps:
  assumes "VERSION AND vf = VERSION" and "2 ^ 32 - 16 \<le> unat n"
  shows "decodeFields (reader_new (Some (message_header vf i n)) 16 cp) = Inl OutOfBounds"
  by (rule decodeFields_length_wrap [OF assms])

theorem payload_length_wraps_witness:
  "decodeFields (reader_new (Some (message_header VERSION 1 4294967290)) 16 False) = Inl OutOfBounds"
  by (rule payload_length_wraps) simp_all

text \<open>
  C40. A bundle takes a message exactly if it fits: within the room left its bytes are added behind
  the others, and otherwise the call throws and says so.
\<close>

theorem bundle_append_guard:
  assumes "bundle_inv bw" and "writer_inv w"
  shows "if length (written_bytes w) \<le> bundle_room bw
     then \<exists>bw'. append_msg w bw = Inr (0, bw') \<and> bundle_inv bw' \<and> bundled bw' = bundled bw @ written_bytes w \<and>
       bundle_room bw' = bundle_room bw - length (written_bytes w)
     else append_msg w bw = Inl (Thrown ''Reservation exceeds remaining buffer size.'')"
  using append_msg_ok [OF assms] append_msg_refused [OF assms] by simp

theorem bundle_append_guard_witness:
  "if length (written_bytes demo_writer) \<le> bundle_room (bundle_writer_new (\<lambda>_. 0))
   then \<exists>bw'. append_msg demo_writer (bundle_writer_new (\<lambda>_. 0)) = Inr (0, bw') \<and> bundle_inv bw' \<and>
     bundled bw' = bundled (bundle_writer_new (\<lambda>_. 0)) @ written_bytes demo_writer \<and>
     bundle_room bw' = bundle_room (bundle_writer_new (\<lambda>_. 0)) - length (written_bytes demo_writer)
   else append_msg demo_writer (bundle_writer_new (\<lambda>_. 0)) = Inl (Thrown ''Reservation exceeds remaining buffer size.'')"
  by (rule bundle_append_guard [OF bundle_writer_new_inv(1) demo_writer_inv(1)])

text \<open>
  A bundle closed without a message is a message its own reader refuses: decoding it returns \<open>-5\<close>.
\<close>

theorem empty_bundle_undecodable:
  "\<exists>w bw' rd. bundle_close iMsgId (bundle_writer_new junk) = Inr (0, Some w, bw') \<and>
     decodeFields (reader_new (w_piBuffer w) (getSize w) cp) = Inr (- 5, rd)"
proof -
  obtain w rest where 1: "bundle_close iMsgId (bundle_writer_new junk) = Inr (0, Some w, (bundle_writer_new junk)\<lparr>bw_piBuffer := None, bw_iBufferLen := 0\<rparr>)"
    "w_piBuffer w = Some (message_header VERSION iMsgId (of_nat (4 + length (bundled (bundle_writer_new junk)))) @
       bytes32 (makeHeader BUNDLE FIELD_BUNDLE_ID) @ bundled (bundle_writer_new junk) @ rest)"
    "unat (getSize w) = 20 + length (bundled (bundle_writer_new junk))"
    using bundle_close_ok [OF bundle_writer_new_inv(1), of iMsgId junk] by auto
  have e: "bundled (bundle_writer_new junk) = []" by (rule bundle_writer_new_inv(2))
  have "unat (getSize w) = unat (20 :: uinttype)" using 1(3) by (simp add: e)
  then have "getSize w = 20" by (rule unsigned_word_eqI)
  moreover obtain rd where "decodeFields (reader_new (w_piBuffer w) 20 cp) = Inr (- 5, rd)"
    using decodeFields_empty_bundle [of _ iMsgId rest cp] 1(2) by (auto simp: e)
  ultimately show ?thesis using 1(1) by auto
qed

text \<open>
  A reservation in a bundle that was closed writes through a null pointer: the room is computed
  as \<open>0\<close> minus the bytes written and wraps around, so that the guard lets it pass.
\<close>

theorem reserve_in_closed_bundle:
  assumes "bw_piBuffer bw = None" and "bw_iBufferLen bw = 0"
    and "0 < unat (bw_iWritten bw)" and "unat (bw_iWritten bw) \<le> 16384" and "unat iBufferLen < 2 ^ 31"
  shows "reserve iBufferLen iMsgId bw = Inl NullDeref"
  by (rule reserve_after_close [OF assms])

theorem reserve_in_closed_bundle_witness: "reserve 100 7 closed_bundle = Inl NullDeref"
  by (rule reserve_in_closed_bundle) (simp_all add: closed_bundle_def bundle_writer_new_def)

section \<open>The hash containers\<close>

text \<open>
  C14. A hash map refines a finite map: whatever the hash function, any sequence of \<open>put\<close>, \<open>remove\<close> and
  \<open>get\<close> on a new map that may grow ends without a fault (no search that runs forever, no counter that overflows, no
  access outside the table), returns what the same sequence returns on a function from keys to
  values, and leaves a map that represents the resulting function and counts its entries.
\<close>

theorem hashmap_refines_map:
  fixes xs :: "('k, 'v) map_op list"
  assumes "0 \<le> cap" "cap < 2 ^ 27" "length xs \<le> 2 ^ 26"
  shows "\<exists>h h'. hm_new hash cap delkey delval False = Inr h \<and>
     run_ops (run_op (hm_put hash) (hm_remove hash) (hm_get hash)) xs h = Inr (fst (spec_ops xs Map.empty), h') \<and>
     hm_inv hash h' \<and> hm_contents h' = snd (spec_ops xs Map.empty) \<and>
     hm_size h' = int (card (dom (snd (spec_ops xs Map.empty))))"
proof -
  obtain h :: "('k, 'v) hashmap" where h: "hm_new hash cap delkey delval False = Inr h" "ht_inv (entry_converter hash) h"
    "hm_contents h = Map.empty" "getFixed h = False"
    using hm_new_ok [OF assms(1,2), of hash delkey delval False] by blast
  then have inv: "hm_inv hash h" by (simp add: hm_inv_def)
  obtain h' where "run_ops (run_op (hm_put hash) (hm_remove hash) (hm_get hash)) xs h = Inr (fst (spec_ops xs Map.empty), h')"
    "hm_inv hash h'" "hm_contents h' = snd (spec_ops xs Map.empty)"
    using hm.run_ops_ok [OF inv, of xs] assms(3) h(3) by auto
  with h(1) show ?thesis using hm_size_ok [of hash h'] by (auto simp: hm_inv_def)
qed

theorem hashmap_refines_map_witness:
  "\<exists>h h'. hm_new demo_hash 16 False False False = Inr h \<and>
     run_ops (run_op (hm_put demo_hash) (hm_remove demo_hash) (hm_get demo_hash)) demo_ops h =
       Inr (fst (spec_ops demo_ops Map.empty), h') \<and>
     hm_inv demo_hash h' \<and> hm_contents h' = snd (spec_ops demo_ops Map.empty) \<and>
     hm_size h' = int (card (dom (snd (spec_ops demo_ops Map.empty))))"
  by (rule hashmap_refines_map) (simp_all add: demo_ops_def)

text \<open>
  C15. The search loop of the hash containers, which has no bound of its own, comes to an end exactly if
  some slot of the table stops it, for every hash code, every key and every table size the containers use, with the
  polynomial the table \<open>POLYS\<close> has for it: the increments run through all residues because each of
  these polynomials generates them. In a table without a null slot, a search for a key that is not there never returns.
\<close>

theorem search_ends_iff:
  assumes "h_table h = Some t" "2 \<le> n" "n \<le> 27" "h_size h = 2 ^ n" "length t = 2 ^ n" "h_poly h = POLYS ! (n - 2)"
  shows "(getIndex c key match h = Inl NoReturn \<longleftrightarrow> (\<forall>p < length t. \<not> stops c key match (t ! p))) \<and>
     ((\<exists>p < length t. stops c key match (t ! p)) \<longrightarrow>
        (\<exists>i < length t. getIndex c key match h = Inr i \<and> stops c key match (t ! i)))"
proof -
  have s: "shaped n t h" using assms polys_cycle [OF assms(2,3)] by (simp add: shaped_def)
  have ends: "\<exists>i < length t. getIndex c key match h = Inr i \<and> stops c key match (t ! i)"
    if p: "p < length t" "stops c key match (t ! p)" for p
  proof -
    obtain j where "getIndex c key match h = Inr (path c n (h_poly h) key j)" "stops c key match (t ! path c n (h_poly h) key j)"
      using getIndex_least [OF s p] by metis
    moreover have "path c n (h_poly h) key j < length t" using s path_less by (simp add: shaped_def)
    ultimately show ?thesis by blast
  qed
  moreover have "getIndex c key match h = Inl NoReturn" if "\<forall>p < length t. \<not> stops c key match (t ! p)"
    by (rule getIndex_never [OF s]) (use that in blast)
  ultimately show ?thesis by (metis sum.distinct(1))
qed

theorem search_ends_iff_witness:
  "\<exists>i < length demo_table. getIndex (entry_converter demo_hash) 5 True demo_hashmap = Inr i \<and>
     stops (entry_converter demo_hash) 5 True (demo_table ! i)"
proof -
  have "0 < length demo_table" "stops (entry_converter demo_hash) 5 True (demo_table ! 0)" by (simp_all add: demo_table_def)
  moreover have "h_table demo_hashmap = Some demo_table" "(2::nat) \<le> 2" "(2::nat) \<le> 27" "h_size demo_hashmap = 2 ^ 2"
    "length demo_table = 2 ^ 2" "h_poly demo_hashmap = POLYS ! (2 - 2)"
    by (simp_all add: demo_hashmap_def demo_table_def POLYS_def)
  note search_ends_iff [OF this, of "entry_converter demo_hash" 5 True]
  ultimately show ?thesis by blast
qed

text \<open>
  C16. A hash set behaves as a set of elements: \<open>add\<close> says whether the element is new and inserts it,
  \<open>remove\<close> says whether it was there and deletes it, \<open>contains\<close> decides membership and \<open>size\<close> counts;
  the two values that mark slots are refused with an exception.
\<close>

theorem hashset_is_a_set:
  assumes "elem_size bytes" "hs_inv hash bytes h" "card (ht_elems h) < 2 ^ 26"
  shows "(\<exists>old h'. hs_add hash bytes (Entry x) h = Inr (x \<notin> ht_elems h, old, h') \<and> hs_inv hash bytes h' \<and>
       ht_elems h' = insert x (ht_elems h)) \<and>
     (\<exists>old h'. hs_remove hash bytes (Entry x) h = Inr (x \<in> ht_elems h, old, h') \<and> hs_inv hash bytes h' \<and>
       ht_elems h' = ht_elems h - {x}) \<and>
     (\<exists>elem. hs_contains hash bytes (Entry x) h = Inr (x \<in> ht_elems h, elem)) \<and>
     hs_size h = int (card (ht_elems h)) \<and>
     hs_add hash bytes Null h = Inl (Thrown ''Cannot add null/reserve element to set.'') \<and>
     hs_add hash bytes Reserve h = Inl (Thrown ''Cannot add null/reserve element to set.'')"
  by (intro conjI hs_add_ok [OF assms] hs_remove_ok [OF assms] hs_contains_ok [OF assms(2)] hs_size_ok [OF assms(2)] hs_marks)

theorem hashset_is_a_set_witness:
  "\<exists>h. hs_inv (\<lambda>_. 0) 8 (h :: int hashset) \<and> (\<exists>old h'. hs_add (\<lambda>_. 0) 8 (Entry 3) h = Inr (3 \<notin> ht_elems h, old, h') \<and>
     hs_inv (\<lambda>_. 0) 8 h' \<and> ht_elems h' = insert 3 (ht_elems h))"
proof -
  have e: "elem_size 8" by (simp add: elem_size_def)
  obtain h :: "int hashset" where "hs_inv (\<lambda>_. 0) 8 h" "ht_elems h = {}"
    using hs_new_ok [OF e, of 16 "\<lambda>_. 0" False] by auto
  with hashset_is_a_set [OF e, of "\<lambda>_. 0" h 3] show ?thesis by auto
qed

text \<open>
  C17. An iterator over a hash map returns every entry and every key once, in the order of the table, and
  ends; \<open>putAll\<close> gives the union in which the argument wins and puts the replaced entries
  into the map given for them.
\<close>

theorem hashmap_iterates:
  fixes other :: "('k, 'v) hashmap"
  assumes "hm_inv hash other" "hm_inv hash this" "hm_inv hash fm" "length (ht_entries other) < fuel"
    and "card (dom (hm_contents this)) + length (ht_entries other) \<le> 2 ^ 26"
    and "card (dom (hm_contents fm)) + length (ht_entries other) \<le> 2 ^ 26"
  shows "map_of (ht_entries other) = hm_contents other \<and> distinct (map fst (ht_entries other)) \<and>
     (\<exists>it. hi_new other = Inr it \<and>
        drain (hi_hasNext other) (entryIter_next other) fuel it = Inr (Some (map Some (ht_entries other))) \<and>
        drain (hi_hasNext other) (keyIter_next other) fuel it = Inr (Some (map Some (map fst (ht_entries other))))) \<and>
     (\<exists>this'. hm_putAll fuel hash other None this = Inr (Some (this', None)) \<and> hm_inv hash this' \<and>
        hm_contents this' = hm_contents this ++ hm_contents other) \<and>
     (\<exists>this' fm'. hm_putAll fuel hash other (Some fm) this = Inr (Some (this', Some fm')) \<and>
        hm_contents this' = hm_contents this ++ hm_contents other \<and>
        hm_contents fm' = hm_contents fm ++ (hm_contents this |` dom (hm_contents other)))"
proof -
  have inv: "ht_inv (entry_converter hash) other" using assms(1) by (simp add: hm_inv_def)
  note keys = hm_entries_distinct [OF inv] and fold = hm_putAll_fold [OF inv assms(4)]
  obtain it where it: "hi_new other = Inr it" "hi_ok other it" "hi_rest other it = ht_entries other"
    using hi_new_ok [OF ht_inv_sized [OF inv]] by blast
  have dom: "set (map fst (ht_entries other)) = dom (hm_contents other)"
    by (simp add: hm_contents_def dom_map_of_conv_image_fst)
  have "\<exists>it. hi_new other = Inr it \<and>
      drain (hi_hasNext other) (entryIter_next other) fuel it = Inr (Some (map Some (ht_entries other))) \<and>
      drain (hi_hasNext other) (keyIter_next other) fuel it = Inr (Some (map Some (map fst (ht_entries other))))"
    using it hash_entry_iterator.drain_ok [OF it(2)] hash_key_iterator.drain_ok [OF it(2)] assms(4) by simp
  moreover have "\<exists>this'. hm_putAll fuel hash other None this = Inr (Some (this', None)) \<and> hm_inv hash this' \<and>
      hm_contents this' = hm_contents this ++ hm_contents other"
    using hm_putAll_steps [OF assms(2,5) keys] by (auto simp: fold hm_contents_def)
  moreover have "\<exists>this' fm'. hm_putAll fuel hash other (Some fm) this = Inr (Some (this', Some fm')) \<and>
      hm_contents this' = hm_contents this ++ hm_contents other \<and>
      hm_contents fm' = hm_contents fm ++ (hm_contents this |` dom (hm_contents other))"
    using hm_putAll_fill_steps [OF assms(2,3,5,6) keys] unfolding dom fold by (auto simp: hm_contents_def)
  ultimately show ?thesis using keys by (simp add: hm_contents_def)
qed

theorem hashmap_iterates_witness:
  "(\<exists>it. hi_new demo_hashmap = Inr it \<and>
        drain (hi_hasNext demo_hashmap) (entryIter_next demo_hashmap) 3 it = Inr (Some (map Some (ht_entries demo_hashmap))))"
proof -
  have "card (dom (hm_contents demo_hashmap)) \<le> length (ht_entries demo_hashmap)"
    unfolding hm_contents_def dom_map_of_conv_image_fst using card_length [of "map fst (ht_entries demo_hashmap)"] by simp
  then show ?thesis
    using hashmap_iterates [OF demo_hash_inv demo_hash_inv demo_hash_inv, of 3] by (auto simp: demo_hash_entries)
qed

text \<open>
  C26. Removing through the iterator of a hash map takes out the entry returned last and nothing else, and puts the iterator at
  the index of that entry in the table as it is afterwards. As long as eight times the number of entries left is
  not below the table size, that is the same table, and the iterator goes on with exactly the entries it had
  still to return. Otherwise the table has been rebuilt in another order, and the iterator goes on with what is then behind
  the old index: entries it never returned may be before it, and some it did may come again.
\<close>

theorem hash_iterator_remove:
  assumes "hm_inv hash h" "card (dom (hm_contents h)) < 2 ^ 26" "hi_ok h it" "entryIter_next h it = Inr (Some e, it1)"
  shows "\<exists>h' it2. entryIter_remove hash h it1 = Inr (h', it2) \<and> hm_inv hash h' \<and>
     hm_contents h' = (hm_contents h)(fst e := None) \<and>
     hi_rest h' it2 = entry_list (drop (hi_next it) (table_of h')) \<and>
     (h_size h \<le> (h_entries h - 1) * RESIZE_LOW_WATER \<longrightarrow> hi_rest h' it2 = hi_rest h it1)"
  by (rule entryIter_remove_ok [OF assms])

theorem hash_iterator_remove_witness:
  "\<exists>it it1 h' it2. hi_new demo_hashmap = Inr it \<and> entryIter_next demo_hashmap it = Inr (Some (2, ''b''), it1) \<and>
     entryIter_remove demo_hash demo_hashmap it1 = Inr (h', it2) \<and> hi_rest h' it2 = [(1, ''a'')]"
proof -
  have inv: "ht_inv (entry_converter demo_hash) demo_hashmap" using demo_hash_inv by (simp add: hm_inv_def)
  obtain it where it: "hi_new demo_hashmap = Inr it" "hi_ok demo_hashmap it" "hi_rest demo_hashmap it = [(2, ''b''), (1, ''a'')]"
    using hi_new_ok [OF ht_inv_sized [OF inv]] demo_hash_entries by auto
  obtain it1 where it1: "entryIter_next demo_hashmap it = Inr (Some (2, ''b''), it1)" "hi_rest demo_hashmap it1 = [(1, ''a'')]"
    using hi_step_ok [OF it(2,3)] by (auto simp: entryIter_next_def)
  have "card (dom (hm_contents demo_hashmap)) < 2 ^ 26"
    unfolding hm_contents_def dom_map_of_conv_image_fst using card_length [of "map fst (ht_entries demo_hashmap)"] by (simp add: demo_hash_entries)
  from hash_iterator_remove [OF demo_hash_inv this it(2) it1(1)] it(1) it1 show ?thesis
    by (auto simp: RESIZE_LOW_WATER_def demo_hashmap_def)
qed

section \<open>Lists and queues\<close>

text \<open>
  C18. An array list created with room for at least three elements refines a list: any sequence of additions at the
  end or at an index, removals, assignments, reads and searches whose indices are in range ends without
  a fault, whatever growing and shrinking of the array it causes, returns what it returns on a
  list and leaves an array that holds the resulting list.
\<close>

theorem arraylist_refines_list:
  assumes "3 \<le> cap" "length ops \<le> Suc al_max" "spec_list_ops ops [] = Some (rs, ys)"
  shows "\<exists>al. run_list_ops al_op ops (al_new cap del) = Inr (rs, al) \<and> al_rep al ys"
  using array_list.run_list_ops_ok [OF al_new_rep [OF assms(1)], of ops rs ys del] assms(2,3) by simp

theorem arraylist_refines_list_witness:
  "\<exists>al. run_list_ops al_op demo_list_ops (al_new 4 False) = Inr ([Done, Done, Done, Element 5, Element 7, Index (Some 1), Element 6], al) \<and>
     al_rep al [6, 9]"
  by (rule arraylist_refines_list) (simp_all add: demo_list_ops_def al_max_def)

text \<open>
  C19. How many elements fit depends on the capacity the list was created with: with three or more any number can be
  added, but with fewer the array is never enlarged, because \<open>resize\<close> returns when half as much again
  is less than four, and the first element beyond the capacity is written behind the end of the array.
\<close>

theorem arraylist_capacity_needed:
  assumes "length xs \<le> Suc al_max"
  shows "((\<exists>al. al_addAll xs (al_new cap del) = Inr (xs \<noteq> [], al) \<and> al_list al = xs) \<longleftrightarrow> 3 \<le> cap \<or> length xs \<le> cap) \<and>
     (cap < 3 \<and> cap < length xs \<longrightarrow> al_addAll xs (al_new cap del) = Inl OutOfBounds)"
proof (cases "3 \<le> cap")
  case True
  obtain al where "al_addAll xs (al_new cap del) = Inr (xs \<noteq> [], al)" "al_rep al ([] @ xs)"
    using al_addAll_ok [OF al_new_rep [OF True], of xs del] assms by auto
  with True show ?thesis by (simp add: al_rep_list)
next
  case False
  then have "cap < 3" by simp
  from al_add_each_small [OF this, of xs del] show ?thesis using False by (cases "length xs \<le> cap") (auto simp: al_addAll_def)
qed

theorem arraylist_capacity_needed_witness:
  "al_addAll [7, 8 :: int] (al_new 1 False) = Inl OutOfBounds"
  using arraylist_capacity_needed [of "[7, 8 :: int]" 1 False] by (simp add: al_max_def)

text \<open>
  The bulk operations of an array list: \<open>addAll\<close> appends or inserts and reports whether there was anything to add, \<open>containsAll\<close> is inclusion, \<open>removeAll\<close>
  takes out the first occurrence of each element and reports whether there was one, \<open>retainAll\<close>, which
  removes through the iterator while it runs, keeps exactly the elements of the other collection, \<open>toArray\<close>
  fills what the array has room for, \<open>equals\<close> compares the lists and a copy holds the same list.
\<close>

theorem arraylist_bulk:
  assumes "al_rep al xs" "al_rep other zs" "length xs + length ys \<le> al_max" "i \<le> length xs" "length xs < fuel"
  shows "(\<exists>al'. al_addAll ys al = Inr (ys \<noteq> [], al') \<and> al_rep al' (xs @ ys)) \<and>
     (\<exists>al'. al_insertAll (int i) ys al = Inr (ys \<noteq> [], al') \<and> al_rep al' (take i xs @ ys @ drop i xs)) \<and>
     al_containsAll ys al = Inr (set ys \<subseteq> set xs) \<and>
     (\<exists>al'. al_removeAll ys al = Inr (set ys \<inter> set xs \<noteq> {}, al') \<and> al_rep al' (fold remove1 ys xs)) \<and>
     (\<exists>al'. al_retainAll fuel (\<lambda>e. e \<in> set ys) al 0 = Inr (Some (\<not> set xs \<subseteq> set ys, al')) \<and> al_rep al' (filter (\<lambda>e. e \<in> set ys) xs)) \<and>
     al_toArray al arr = Inr (take (length arr) xs @ drop (length xs) arr) \<and>
     al_equals al other = Inr (xs = zs) \<and>
     (\<exists>al'. al_copy al = Inr al' \<and> al_rep al' xs)"
proof (intro conjI)
  show "\<exists>al'. al_retainAll fuel (\<lambda>e. e \<in> set ys) al 0 = Inr (Some (\<not> set xs \<subseteq> set ys, al')) \<and> al_rep al' (filter (\<lambda>e. e \<in> set ys) xs)"
  proof -
    have "(\<exists>x\<in>set xs. x \<notin> set ys) \<longleftrightarrow> \<not> set xs \<subseteq> set ys" by blast
    then show ?thesis using al_retainAll_ok [OF assms(1), of 0 fuel "\<lambda>e. e \<in> set ys"] assms(3,5) by simp
  qed
qed (use assms in \<open>simp_all add: al_addAll_ok al_insertAll_ok al_containsAll_ok al_removeAll_ok al_toArray_ok al_equals_ok al_copy_ok\<close>)

theorem arraylist_bulk_witness:
  "al_containsAll [8] demo_array = Inr True \<and> al_toArray demo_array [0, 0] = Inr [4, 8] \<and>
     (\<exists>al'. al_retainAll 4 (\<lambda>e. e \<in> set [8]) demo_array 0 = Inr (Some (True, al')) \<and> al_rep al' [8])"
  using arraylist_bulk [OF demo_array_rep demo_array_rep, of "[8]" 0 4 "[0, 0]"] by (simp add: al_max_def)

text \<open>
  C20. A priority queue with the comparator of an ordered type sorts: adding any elements to a new queue and removing as
  many gives them in order. Both sift loops come to an end.
\<close>

theorem priority_queue_sorts:
  fixes xs :: "'k::linorder list"
  assumes "length xs \<le> al_max"
  shows "\<exists>q. rbind (pq_addAll compare xs (pq_new PQ_INITIAL_CAPACITY del)) (\<lambda>(res, q). pop_all (pq_remove compare) (length xs) q) = Inr (sort xs, q)"
  by (rule pq_sorts [OF assms])

theorem priority_queue_sorts_witness:
  "\<exists>q. rbind (pq_addAll compare [3, 1, 2 :: int] (pq_new PQ_INITIAL_CAPACITY False)) (\<lambda>(res, q). pop_all (pq_remove compare) (length [3, 1, 2 :: int]) q) = Inr (sort [3, 1, 2], q)"
  by (rule priority_queue_sorts) (simp add: al_max_def)

text \<open>
  C21. Whatever the comparator, as long as it is antisymmetric and transitive: \<open>add\<close> and \<open>remove\<close> keep the order of the heap,
  \<open>remove\<close> returns an element that no other is smaller than, and removing a given element takes out
  that element only, from a queue in any order.
\<close>

theorem priority_queue_operations:
  assumes "comparator cmp" "pq_shape q" "length (pq_list q) \<le> al_max"
  shows "(\<exists>q'. pq_add cmp v q = Inr q' \<and> pq_shape q' \<and> mset (pq_list q') = add_mset v (mset (pq_list q)) \<and>
       (heap cmp (pq_list q) \<longrightarrow> heap cmp (pq_list q'))) \<and>
     (heap cmp (pq_list q) \<and> pq_list q \<noteq> [] \<longrightarrow> (\<exists>x q'. pq_remove cmp q = Inr (x, q') \<and> pq_inv cmp q' \<and>
       mset (pq_list q) = add_mset x (mset (pq_list q')) \<and> (\<forall>y\<in>#mset (pq_list q'). cmp x y \<le> 0))) \<and>
     (\<exists>q'. pq_removeElement cmp e q = Inr (e \<in> set (pq_list q), if e \<in> set (pq_list q) then Some e else None, q') \<and> pq_shape q' \<and>
       mset (pq_list q') = mset (pq_list q) - {#e#})"
  using comparator.pq_add_shape [OF assms(1-3)] comparator.pq_remove_inv [OF assms(1) _ assms(3)]
    comparator.pq_removeElement_shape [OF assms(1-3)] assms(2)
  by (simp add: pq_inv_def)

theorem priority_queue_operations_witness:
  "\<exists>q'. pq_removeElement compare 3 demo_queue = Inr (True, Some 3, q') \<and> pq_shape q' \<and> mset (pq_list q') = {#1, 2#}"
  using priority_queue_operations [OF natural.comparator_axioms demo_queue_shape(1), of 0 3] by (simp add: demo_queue_shape(2) al_max_def)

text \<open>
  C22. When the order of a priority queue survives the removal of a given element: exactly if the element was the first,
  or the last element of the array, which takes the free place and is only moved down from there, is
  not smaller than the element above that place. The element is taken out in any case.
\<close>

theorem priority_queue_order_after_removal:
  assumes "comparator cmp" "pq_inv cmp q" "length (pq_list q) \<le> al_max"
    and "i < length (pq_list q)" "e \<notin> set (take i (pq_list q))" "pq_list q ! i = e"
  shows "\<exists>q'. pq_removeElement cmp e q = Inr (True, Some e, q') \<and> mset (pq_list q) = add_mset e (mset (pq_list q')) \<and>
     (pq_inv cmp q' \<longleftrightarrow> i = 0 \<or> cmp (pq_list q ! ((i - 1) div 2)) (last (pq_list q)) \<le> 0)"
proof -
  have "position_of e (pq_list q) = Some i" by (rule position_of_first [OF assms(4,6,5)])
  from comparator.pq_removeElement_at [OF assms(1) _ assms(3) this] show ?thesis
    using assms(2) by (auto simp: pq_inv_def up_of_def)
qed

theorem priority_queue_order_after_removal_witness:
  "\<exists>q'. pq_removeElement compare 7 demo_heap = Inr (True, Some 7, q') \<and> \<not> pq_inv compare q'"
  using priority_queue_order_after_removal [OF natural.comparator_axioms demo_heap_inv, of 3 7]
  by (auto simp: demo_heap_list al_max_def compare_def)

text \<open>
  C23. A queue set over a priority queue and a hash set refines a set: any sequence of \<open>add\<close>, \<open>remove\<close> and
  \<open>contains\<close> ends without a fault and answers as a set does, and afterwards the queue holds
  exactly the elements of the set, each once; \<open>size\<close> is their number. \<open>isEmpty\<close> is false all the same,
  also when there are none.
\<close>

theorem queueset_refines_set:
  assumes "slot_comparator cmp" "qs_inv hash bytes qs" "card (qs_elems qs) + length ops \<le> qs_limit"
  shows "\<exists>qs'. run_set_ops (run_set_op (\<lambda>x. qs_add cmp hash bytes (Entry x)) (\<lambda>x. qs_remove cmp hash bytes (Entry x))
       (\<lambda>x. qs_contains hash bytes (Entry x))) ops qs = Inr (fst (spec_set_ops ops (qs_elems qs)), qs') \<and>
     qs_elems qs' = snd (spec_set_ops ops (qs_elems qs)) \<and>
     mset (pq_list (qs_queue qs')) = image_mset Entry (mset_set (qs_elems qs')) \<and>
     qs_size qs' = int (card (qs_elems qs')) \<and> qs_size qs' = pq_size (qs_queue qs') \<and> \<not> qs_isEmpty qs'"
proof -
  obtain qs' where r: "run_set_ops (run_set_op (\<lambda>x. qs_add cmp hash bytes (Entry x)) (\<lambda>x. qs_remove cmp hash bytes (Entry x))
       (\<lambda>x. qs_contains hash bytes (Entry x))) ops qs = Inr (fst (spec_set_ops ops (qs_elems qs)), qs')" "qs_inv hash bytes qs'"
    "qs_elems qs' = snd (spec_set_ops ops (qs_elems qs))"
    using slot_comparator.qset_run_ok [OF assms] by blast
  moreover have "qs_size qs' = int (card (qs_elems qs')) \<and> qs_size qs' = pq_size (qs_queue qs')" by (rule qs_size_ok [OF r(2)])
  moreover have "\<not> qs_isEmpty qs'" by (simp add: qs_isEmpty_def hs_isEmpty_def)
  moreover have "mset (pq_list (qs_queue qs')) = image_mset Entry (mset_set (qs_elems qs'))" using r(2) by (simp add: qs_inv_def)
  ultimately show ?thesis by blast
qed

theorem queueset_refines_set_witness:
  "\<exists>qs qs'. qs_elems qs = {} \<and> run_set_ops (run_set_op (\<lambda>x. qs_add slot_compare (\<lambda>_. 0) 8 (Entry x)) (\<lambda>x. qs_remove slot_compare (\<lambda>_. 0) 8 (Entry x))
       (\<lambda>x. qs_contains (\<lambda>_. 0) 8 (Entry x))) demo_set_ops qs = Inr ([True, True, False, True, True, False], qs') \<and> qs_elems qs' = {1}"
proof -
  have e: "elem_size 8" by (simp add: elem_size_def)
  obtain h :: "int hashset" where h: "hs_inv (\<lambda>_. 0) 8 h" "ht_elems h = {}"
    using hs_new_ok [OF e, of 16 "\<lambda>_. 0" False] by auto
  let ?qs = "\<lparr>qs_queue = pq_new 4 False, qs_set = h\<rparr>"
  have "qs_inv (\<lambda>_. 0) 8 ?qs" "qs_elems ?qs = {}"
    using h e pq_new_inv [of 4 slot_compare False] by (auto simp: qs_inv_def qs_elems_def pq_inv_def)
  moreover have "spec_set_ops demo_set_ops {} = ([True, True, False, True, True, False], {1})" by (auto simp: demo_set_ops_def)
  moreover have "length demo_set_ops \<le> qs_limit" by (simp add: demo_set_ops_def qs_limit_def)
  ultimately show ?thesis
    using queueset_refines_set [OF by_value.slot_comparator_axioms, of "\<lambda>_. 0" 8 ?qs demo_set_ops] by - (rule exI [of _ ?qs], auto)
qed

text \<open>
  The iterator of a queue set removes from the queue by shifting its array, which is not a heap any more: after
  the first of \<open>1, 3, 2\<close> was removed through the iterator, the queue gives \<open>3\<close> before \<open>2\<close>.
\<close>

theorem queueset_iterator_breaks_order:
  "rbind (qs_add slot_compare (\<lambda>_. 0) 8 (Entry (1 :: int)) \<lparr>qs_queue = pq_new 4 False, qs_set = hm_init\<rparr>) (\<lambda>(_, s1).
   rbind (qs_add slot_compare (\<lambda>_. 0) 8 (Entry 3) s1) (\<lambda>(_, s2).
   rbind (qs_add slot_compare (\<lambda>_. 0) 8 (Entry 2) s2) (\<lambda>(_, s3).
   rbind (qsIter_new True s3) (\<lambda>it.
   rbind (qsIter_next s3 it) (\<lambda>(e, it1).
   rbind (qsIter_remove slot_compare (\<lambda>_. 0) 8 s3 it1) (\<lambda>(s4, it2).
   rbind (pop_all (pq_remove slot_compare) 2 (qs_queue s4)) (\<lambda>(xs, _). Inr (e, xs)))))))) =
     Inr (Some (Entry 1), [Entry 3, Entry 2])"
  by code_simp

section \<open>Transactions and versions of rows\<close>



text \<open>
  C7. Committing a row that the transaction has locked, all of whose viewpoints come from one value of the viewpoint sequence, succeeds and gives the
  lock back. Readers whose viewpoint is not above that value see what they saw before; readers with a greater one see the
  value written, or nothing if the row was deleted.
\<close>

theorem commit_visible:
  assumes "wf_row cur r cs (Some p)" "reads_data env" "unat (getLockIdentifier (r_story r)) = tx_identifier tx" "tx_identifier tx \<noteq> 0"
    and "tx_commitViewpoint tx = 0" "cur + 1 \<noteq> 0"
  shows "\<exists>r'. commit_row env tx cur cur p r = Inr (r', None) \<and> getLockIdentifier (r_story r') = 0 \<and>
     (\<forall>itx. repeatable_reader env itx r' \<longrightarrow> (\<exists>res ag. get_row env itx r' = Inr (res, ag,
        if tx_viewpoint itx \<le> cur then view_of env (r_heap r) cs (tx_viewpoint itx)
        else if getDeleting (info_at (r_heap r) p) then None else i_data (loaded env (info_at (r_heap r) p))))) \<and>
     (\<forall>itx. repeatable_reader env itx r \<longrightarrow> (\<exists>res ag. get_row env itx r = Inr (res, ag, view_of env (r_heap r) cs (tx_viewpoint itx))))"
proof -
  obtain r' cs' pend' where r': "commit_row env tx cur cur p r = Inr (r', None)" "getLockIdentifier (r_story r') = 0"
    "committed_to env cur r cs r' cs' pend' (if getDeleting (info_at (r_heap r) p) then None else i_data (loaded env (info_at (r_heap r) p)))"
    using commit_row_keeps [OF assms] by blast
  have "\<exists>res ag. get_row env itx r' = Inr (res, ag, if tx_viewpoint itx \<le> cur then view_of env (r_heap r) cs (tx_viewpoint itx)
        else if getDeleting (info_at (r_heap r) p) then None else i_data (loaded env (info_at (r_heap r) p)))"
    if "repeatable_reader env itx r'" for itx
    using get_row_repeatable [OF _ that, of cur cs' pend'] r'(3) by (auto simp: committed_to_def not_le)
  then show ?thesis using r'(1,2) get_row_repeatable [OF assms(1)] by blast
qed

theorem commit_visible_witness:
  "\<exists>r'. commit_row demo_env demo_tx 2 2 1 demo_written = Inr (r', None) \<and>
     (\<exists>res ag. get_row demo_env demo_reader r' = Inr (res, ag, Some [7])) \<and>
     (\<exists>res ag. get_row demo_env (demo_reader\<lparr>tx_viewpoint := 3\<rparr>) r' = Inr (res, ag, Some [8]))"
proof -
  have "unat (getLockIdentifier (r_story demo_written)) = tx_identifier demo_tx" "tx_identifier demo_tx \<noteq> 0" "tx_commitViewpoint demo_tx = 0"
    "(2 :: uinttype) + 1 \<noteq> 0" by (simp_all add: demo_written_def demo_locked demo_tx_def tx_new_def)
  from commit_visible [OF demo_written_wf demo_env_reads this] obtain r' where r': "commit_row demo_env demo_tx 2 2 1 demo_written = Inr (r', None)"
    "getLockIdentifier (r_story r') = 0" and v: "\<And>itx. repeatable_reader demo_env itx r' \<Longrightarrow> \<exists>res ag. get_row demo_env itx r' = Inr (res, ag,
        if tx_viewpoint itx \<le> 2 then view_of demo_env (r_heap demo_written) [0] (tx_viewpoint itx)
        else if getDeleting (info_at (r_heap demo_written) 1) then None else i_data (loaded demo_env (info_at (r_heap demo_written) 1)))" by blast
  have rd: "repeatable_reader demo_env demo_reader r'" "repeatable_reader demo_env (demo_reader\<lparr>tx_viewpoint := 3\<rparr>) r'"
    using r'(2) by (simp_all add: repeatable_reader_def demo_env_def demo_reader_def tx_new_def)
  have "view_of demo_env (r_heap demo_written) [0] 1 = Some [7]" by code_simp
  moreover have "tx_viewpoint demo_reader = 1" by (simp add: demo_reader_def)
  ultimately have "\<exists>res ag. get_row demo_env demo_reader r' = Inr (res, ag, Some [7])" using v [OF rd(1)] by simp
  moreover have "\<exists>res ag. get_row demo_env (demo_reader\<lparr>tx_viewpoint := 3\<rparr>) r' = Inr (res, ag, Some [8])"
    using v [OF rd(2)] demo_pending_fields by (simp add: demo_written_def loaded_def)
  ultimately show ?thesis using r'(1) by blast
qed



text \<open>
  C9. Purging a row of a running map without a checkpoint always returns, and as long as all versions of the row have a viewpoint, no reader whose viewpoint is at least the smallest
  one in use notices: it gets what it got before.
\<close>

theorem purge_keeps_views:
  assumes "wf_row cur r cs pend" "r_root r \<noteq> None"
    and "\<forall>c \<in> set cs. getViewpoint (info_at (r_heap r) c) \<noteq> 0" "s_viewpointMinimum s \<noteq> 0"
  shows "\<exists>gone dirty r' cs'. deleteUnviewed env s True 0 r = Inr (gone, dirty, r') \<and> wf_row cur r' cs' pend \<and> (gone \<longrightarrow> r_root r' = None) \<and>
     (\<forall>itx. repeatable_reader env itx r \<and> s_viewpointMinimum s \<le> tx_viewpoint itx \<longrightarrow>
        (\<exists>d res ag res' ag'. get_row env itx r = Inr (res, ag, d) \<and> get_row env itx r' = Inr (res', ag', d)))"
proof -
  obtain gone dirty r' cs' where r': "deleteUnviewed env s True 0 r = Inr (gone, dirty, r')" "gone \<longrightarrow> r_root r' = None"
    "purged_to env s True cur r cs r' cs' pend" using deleteUnviewed_keeps [OF assms(1,2), of env s True] by blast
  have wf: "wf_row cur r' cs' pend" and lock: "getLockIdentifier (r_story r') = getLockIdentifier (r_story r)"
    and v: "s_viewpointMinimum s \<le> w \<Longrightarrow> view_of env (r_heap r') cs' w = view_of env (r_heap r) cs w" for w
    using r'(3) assms(3,4) by (auto simp: purged_to_def)
  have "\<exists>d res ag res' ag'. get_row env itx r = Inr (res, ag, d) \<and> get_row env itx r' = Inr (res', ag', d)"
    if rd: "repeatable_reader env itx r" and w: "s_viewpointMinimum s \<le> tx_viewpoint itx" for itx
  proof -
    have "repeatable_reader env itx r'" using rd lock by (simp add: repeatable_reader_def)
    from get_row_repeatable [OF assms(1) rd] get_row_repeatable [OF wf this] show ?thesis unfolding v [OF w] by blast
  qed
  then show ?thesis using r'(1,2) wf by blast
qed

theorem purge_keeps_views_witness:
  "\<exists>gone dirty r'. deleteUnviewed demo_env demo_system True 0 demo_row = Inr (gone, dirty, r') \<and>
     (\<exists>res ag. get_row demo_env demo_reader r' = Inr (res, ag, Some [7]))"
proof -
  have "r_root demo_row \<noteq> None" "\<forall>c \<in> set [0]. getViewpoint (info_at (r_heap demo_row) c) \<noteq> 0" "s_viewpointMinimum demo_system \<noteq> 0"
    using demo_version_fields by (simp_all add: demo_row_def r_root_def demo_story_def demo_system_def)
  from purge_keeps_views [OF demo_row_wf this, of demo_env] obtain gone dirty r' where
    r': "deleteUnviewed demo_env demo_system True 0 demo_row = Inr (gone, dirty, r')"
    and v: "\<And>itx. repeatable_reader demo_env itx demo_row \<and> s_viewpointMinimum demo_system \<le> tx_viewpoint itx \<Longrightarrow>
        \<exists>d res ag res' ag'. get_row demo_env itx demo_row = Inr (res, ag, d) \<and> get_row demo_env itx r' = Inr (res', ag', d)" by blast
  have "repeatable_reader demo_env demo_reader demo_row \<and> s_viewpointMinimum demo_system \<le> tx_viewpoint demo_reader"
    using demo_locked by (simp add: repeatable_reader_def demo_env_def demo_reader_def tx_new_def demo_row_def demo_system_def)
  from v [OF this] obtain d res ag where d: "get_row demo_env demo_reader demo_row = Inr (res, ag, d)" "\<exists>res ag. get_row demo_env demo_reader r' = Inr (res, ag, d)" by blast
  have "case get_row demo_env demo_reader demo_row of Inl e \<Rightarrow> False | Inr (res, ag, d) \<Rightarrow> d = Some [7]" by code_simp
  with d r' show ?thesis by auto
qed

text \<open>
  The condition on the viewpoints is needed: a version that was read from a file has the viewpoint 0. Once it is replaced the purger drops it
  although a running transaction, whose viewpoint is not above its limit, has read it.
\<close>

theorem purge_drops_loaded_version:
  "case put_row demo_env demo_tx [8] STANDARD False 0 0 0 (demo_row\<lparr>r_heap := [0 \<mapsto> demo_version\<lparr>i_viewpoint := 0\<rparr>]\<rparr>) of
     Inl e \<Rightarrow> False
   | Inr (_, _, r1, _, _) \<Rightarrow>
       (case commit_row demo_env demo_tx 2 2 1 r1 of
          Inl e \<Rightarrow> False
        | Inr (r2, _) \<Rightarrow>
            (case deleteUnviewed demo_env demo_system True 0 r2 of
               Inl e \<Rightarrow> False
             | Inr (_, _, r3) \<Rightarrow>
                 get_row demo_env demo_reader r2 = Inr (True, False, Some [7]) \<and> get_row demo_env demo_reader r3 = Inr (False, False, None)))"
  by code_simp

text \<open>
  C24. What a commit makes visible when the viewpoint sequence has moved on between the two places where the commit of an updated row reads it: readers with a
  viewpoint up to the first value see the old version, readers above the second value the new one, and readers whose viewpoint was drawn in between see
  no version of the row at all, although it is there before and after the commit.
\<close>

theorem commit_gap:
  assumes "wf_row cur r cs (Some p)" "cs \<noteq> []" "r_heap r p = Some pi" "\<not> getDeleting pi" "reads_data env"
    and "unat (getLockIdentifier (r_story r)) = tx_identifier tx" "tx_identifier tx \<noteq> 0"
    and "tx_commitViewpoint tx = 0" "cur \<le> cur2" "cur2 + 1 \<noteq> 0"
  shows "\<exists>r'. commit_row env tx cur cur2 p r = Inr (r', None) \<and> wf_row cur2 r' (cs @ [p]) None \<and>
     (\<forall>itx. repeatable_reader env itx r' \<longrightarrow> (\<exists>res ag. get_row env itx r' = Inr (res, ag,
        if tx_viewpoint itx \<le> cur then view_of env (r_heap r) cs (tx_viewpoint itx)
        else if tx_viewpoint itx \<le> cur2 then None else i_data (loaded env pi))))"
proof -
  obtain r' where r': "commit_row env tx cur cur2 p r = Inr (r', None)" "wf_row cur2 r' (cs @ [p]) None"
    and v: "\<And>v. view_of env (r_heap r') (cs @ [p]) v =
       (if v \<le> cur then view_of env (r_heap r) cs v else if v \<le> cur2 then None else i_data (loaded env pi))"
    using commit_row_update [OF assms] by blast
  have "\<exists>res ag. get_row env itx r' = Inr (res, ag, if tx_viewpoint itx \<le> cur then view_of env (r_heap r) cs (tx_viewpoint itx)
        else if tx_viewpoint itx \<le> cur2 then None else i_data (loaded env pi))" if "repeatable_reader env itx r'" for itx
    using get_row_repeatable [OF r'(2) that] unfolding v by blast
  then show ?thesis using r' by blast
qed

theorem commit_gap_witness:
  "\<exists>r'. commit_row demo_env demo_tx 2 3 1 demo_written = Inr (r', None) \<and>
     (\<forall>itx. repeatable_reader demo_env itx r' \<and> tx_viewpoint itx = 3 \<longrightarrow> (\<exists>res ag. get_row demo_env itx r' = Inr (res, ag, None)))"
proof -
  have p: "r_heap demo_written 1 = Some demo_pending" "\<not> getDeleting demo_pending" using demo_pending_fields by (simp_all add: demo_written_def)
  have o: "unat (getLockIdentifier (r_story demo_written)) = tx_identifier demo_tx" "tx_identifier demo_tx \<noteq> 0" "tx_commitViewpoint demo_tx = 0"
    "(2 :: uinttype) \<le> 3" "(3 :: uinttype) + 1 \<noteq> 0" by (simp_all add: demo_written_def demo_locked demo_tx_def tx_new_def)
  from commit_gap [OF demo_written_wf _ p demo_env_reads o] obtain r' where "commit_row demo_env demo_tx 2 3 1 demo_written = Inr (r', None)"
    and v: "\<And>itx. repeatable_reader demo_env itx r' \<Longrightarrow> \<exists>res ag. get_row demo_env itx r' = Inr (res, ag,
        if tx_viewpoint itx \<le> 2 then view_of demo_env (r_heap demo_written) [0] (tx_viewpoint itx)
        else if tx_viewpoint itx \<le> 3 then None else i_data (loaded demo_env demo_pending))" by auto
  moreover have "\<exists>res ag. get_row demo_env itx r' = Inr (res, ag, None)" if "repeatable_reader demo_env itx r'" "tx_viewpoint itx = 3" for itx
    using v [OF that(1)] that(2) by simp
  ultimately show ?thesis by blast
qed





text \<open>
  C13. Deadlocks are found. When a transaction that does not wait yet is about to wait for another, \<open>checkCycleLock\<close> reports a deadlock if the other one waits, directly
  or through others, for it, and enters the wait if it reports none; the graph of waiting transactions stays without cycles. What it reports is a
  cycle or, since the search gives up after 64 transactions, a chain of that many.
\<close>

theorem deadlock_reported:
  assumes "s_transactions s t = Some tx" "tx_identifier tx = t" "tx_waitIdentifier tx = 0" "t \<noteq> 0" "acyclic (waits (s_transactions s))"
  shows "\<exists>d otx s'. checkCycleLock t n s = Inr (d, otx, s') \<and> acyclic (waits (s_transactions s')) \<and>
     ((n, t) \<in> (waits (s_transactions s))\<^sup>* \<longrightarrow> d) \<and>
     (d \<longrightarrow> (n, t) \<in> (waits (s_transactions s))\<^sup>* \<or> (\<exists>m. (n, m) \<in> waits (s_transactions s) ^^ 64)) \<and>
     waits (s_transactions s') = (if d \<or> n = 0 then waits (s_transactions s) else insert (t, n) (waits (s_transactions s)))"
proof -
  obtain d otx s' where c: "checkCycleLock t n s = Inr (d, otx, s')" "(n, t) \<in> (waits (s_transactions s))\<^sup>* \<longrightarrow> d"
    "d \<longrightarrow> (n, t) \<in> (waits (s_transactions s))\<^sup>* \<or> (\<exists>m. (n, m) \<in> waits (s_transactions s) ^^ DEFAULT_TRANSACTION_INFINITE)"
    "waits (s_transactions s') = (if d \<or> n = 0 then waits (s_transactions s) else insert (t, n) (waits (s_transactions s)))"
    using checkCycleLock_answer [OF assms(1-4)] by blast
  moreover have "acyclic (waits (s_transactions s'))"
    by (rule checkCycleLock_acyclic [OF _ assms(5) c(1)]) (use assms(1,2) in simp)
  ultimately show ?thesis unfolding DEFAULT_TRANSACTION_INFINITE_def by blast
qed

theorem deadlock_reported_witness:
  "\<exists>otx s'. checkCycleLock 1 2 (set_tx (demo_tx\<lparr>tx_waitIdentifier := 1\<rparr>) demo_system) = Inr (True, otx, s') \<and> acyclic (waits (s_transactions s'))"
proof -
  let ?s = "set_tx (demo_tx\<lparr>tx_waitIdentifier := 1\<rparr>) demo_system"
  have tx: "s_transactions ?s 1 = Some demo_reader" "tx_identifier demo_reader = 1" "tx_waitIdentifier demo_reader = 0"
    by (simp_all add: tx_simps demo_system_def demo_reader_def demo_tx_def tx_new_def)
  have w: "waits (s_transactions ?s) = {(2, 1)}"
    by (auto simp: waits_def tx_simps demo_system_def demo_reader_def demo_tx_def tx_new_def split: if_splits)
  have "acyclic (waits (s_transactions ?s))" unfolding w by (auto simp: acyclic_def trancl_insert)
  from deadlock_reported [OF tx _ this, of 2] show ?thesis unfolding w by auto
qed

text \<open>
  C25. Creating a transaction comes to an end exactly if one of the slots 1 to 10239 is free. Then the transaction gets a free slot, with the isolation of the system, no
  viewpoint and another sequence number than the slot had, so that locks an earlier transaction of the slot has left are stale, and no other slot changes; if all are taken,
  the search goes on until another thread frees a slot, and for ever if none does.
\<close>

theorem transaction_slot_found:
  "(create s = Inl NoReturn \<longleftrightarrow> (\<forall>k \<in> {1..<DEFAULT_TRANSACTION_SIZE}. s_transactions s k \<noteq> None)) \<and>
   (create s \<noteq> Inl NoReturn \<longrightarrow> (\<exists>n s' tx. create s = Inr (n, s') \<and> 1 \<le> n \<and> n < DEFAULT_TRANSACTION_SIZE \<and> s_transactions s n = None \<and>
      s_transactions s' = (s_transactions s)(n \<mapsto> tx) \<and> tx_identifier tx = n \<and> tx_isolation tx = s_isolation s \<and>
      tx_viewpoint tx = 0 \<and> tx_sequence tx \<noteq> s_sequences s n))"
  using create_ok [of s] by (metis sum.distinct(1))

theorem transaction_slot_found_witness:
  "\<exists>n s' tx. create initial_system = Inr (n, s') \<and> 1 \<le> n \<and> s_transactions s' = [n \<mapsto> tx] \<and> tx_identifier tx = n"
proof -
  have "\<not> (\<forall>k \<in> {1..<DEFAULT_TRANSACTION_SIZE}. s_transactions initial_system k \<noteq> None)"
    by (auto simp: initial_system_def DEFAULT_TRANSACTION_SIZE_def intro!: bexI [of _ 1])
  moreover have "s_transactions initial_system = Map.empty" by (simp add: initial_system_def)
  ultimately show ?thesis using transaction_slot_found [of initial_system] by metis
qed

text \<open>
  C12. As long as the viewpoint sequence does not run out, the test \<open>viewing\<close> of the purger is safe in every state the transactions can reach: a version whose limit is not below
  the viewpoint of a live transaction is reported as viewed.
\<close>

theorem views_protected:
  assumes "view_step\<^sup>*\<^sup>* initial_system s" and "s_transactions s t = Some tx" "tx_viewpoint tx \<noteq> 0" "tx_viewpoint tx \<le> limit"
  shows "viewing limit s"
proof -
  have "locks_inv initial_system \<and> views_inv initial_system"
    using lock_reach_inv [OF reach_init] by (simp add: views_inv_def initial_system_def)
  from live_views.run_ok [OF assms(1) this] show ?thesis using views_inv_viewing assms(2-4) by blast
qed

theorem views_protected_witness: "\<exists>s. view_step\<^sup>*\<^sup>* initial_system s \<and> viewing 7 s"
proof -
  obtain s1 s2 tx where c: "create initial_system = Inr (1, s1)" "tx_begin 1 s1 = Inr (0, s2)" "s_transactions s2 1 = Some tx" "tx_viewpoint tx = 1"
    using demo_begin by blast
  have "view_step initial_system s1" using c(1) by (auto simp: view_step_def initial_system_def intro: step_create)
  moreover have "s_viewpointSequence s1 = 0" using create_view [OF c(1)] by (simp add: no_new_view_def initial_system_def)
  then have "view_step s1 s2" using c(2) by (auto simp: view_step_def intro: step_begin)
  ultimately have "view_step\<^sup>*\<^sup>* initial_system s2" by (meson converse_rtranclp_into_rtranclp rtranclp.rtrancl_refl)
  from views_protected [OF this c(3), of 7] this c(4) show ?thesis by auto
qed

text \<open>
  The short form of a version round-trips: \<open>getBytes\<close> stays inside the array of the size \<open>getInMemoryCompressedSize\<close> says, and \<open>setBytes\<close> of a version of the same
  type reads file index, file position and, for compressed versions, the offset back.
\<close>

theorem short_form_roundtrip:
  assumes "well_typed i" "well_typed j" "getType j = getType i"
  shows "\<exists>bs j'. getBytes i = Inr bs \<and> length bs = getInMemoryCompressedSize i \<and> setBytes bs j = Inr j' \<and>
    i_fileIndex j' = i_fileIndex i \<and> i_filePosition j' = i_filePosition i \<and> i_compressedOffset j' = i_compressedOffset i \<and> getType j' = getType i"
  by (rule getBytes_setBytes [OF assms])

theorem short_form_roundtrip_witness:
  "\<exists>bs j'. getBytes (newInfo CMPRS) = Inr bs \<and> setBytes bs (newInfo CMPRS) = Inr j' \<and> i_compressedOffset j' = i_compressedOffset (newInfo CMPRS)"
proof -
  have "well_typed (newInfo CMPRS)" by code_simp
  from short_form_roundtrip [OF this this refl] show ?thesis by blast
qed

end
